(* ===== verification/Prelude.thy ===== *)
theory Prelude
  imports Main "HOL-Library.Word"
begin

unbundle bit_operations_syntax

text \<open>
  Shared vocabulary of the b-jvm development: the fixed-width integer types of
  \<open>vm/types.h\<close>, byte strings, the collections of lemmas the component theories feed
  (\<open>reader_intros\<close>, \<open>table_simps\<close>, \<open>bound_simps\<close>), and generic facts about lists, options and
  words that more than one component needs.
\<close>

section \<open>Integer types\<close>

type_synonym u8 = "8 word"
type_synonym u16 = "16 word"
type_synonym u32 = "32 word"
type_synonym u64 = "64 word"

text \<open>C's signed types are read from the same bit patterns with \<open>sint\<close>; where the source
  only computes with the value they are \<open>int\<close>.\<close>

type_synonym s32 = int

definition s8_of :: "u8 \<Rightarrow> int" where
  "s8_of w = sint w"

definition s16_of :: "u16 \<Rightarrow> int" where
  "s16_of w = sint w"

definition s32_of :: "u32 \<Rightarrow> int" where
  "s32_of w = sint w"

definition s64_of :: "u64 \<Rightarrow> int" where
  "s64_of w = sint w"

section \<open>Collections of lemmas\<close>

named_theorems reader_intros \<open>a parser meets the reader contract\<close>
named_theorems fuel_intros \<open>a parser does not run out of recursion depth\<close>
named_theorems table_simps \<open>rewrite rules of the string hash table\<close>
named_theorems bound_simps \<open>bounds and alignment\<close>

section \<open>Fallible computations\<close>

text \<open>Errors as the left values of a sum: the rest of a computation after a step that may fail.\<close>

definition rbind :: "'e + 'a \<Rightarrow> ('a \<Rightarrow> 'e + 'b) \<Rightarrow> 'e + 'b" where
  "rbind r f = (case r of Inl e \<Rightarrow> Inl e | Inr x \<Rightarrow> f x)"

definition rcheck :: "bool \<Rightarrow> 'e \<Rightarrow> 'e + unit" where
  "rcheck ok e = (if ok then Inr () else Inl e)"

lemma rbind_simps [simp]: "rbind (Inl e) f = Inl e" "rbind (Inr x) f = f x"
  by (simp_all add: rbind_def)

lemma rbind_Inr: "rbind r f = Inr y \<longleftrightarrow> (\<exists>x. r = Inr x \<and> f x = Inr y)"
  by (cases r) simp_all

lemma rbind_Inl: "rbind r f = Inl e \<longleftrightarrow> r = Inl e \<or> (\<exists>x. r = Inr x \<and> f x = Inl e)"
  by (cases r) simp_all

lemma rcheck_iffs [simp]: "rcheck ok e = Inr u \<longleftrightarrow> ok" "rcheck ok e = Inl e' \<longleftrightarrow> \<not> ok \<and> e' = e"
  by (auto simp: rcheck_def)

section \<open>Lists and options\<close>

lemma nth_append_left1 [simp]: "i < length xs \<Longrightarrow> (xs @ ys) ! i = xs ! i"
  by (simp add: nth_append)

lemma take_drop_split: "n \<le> length xs \<Longrightarrow> xs = take n xs @ drop n xs"
  by simp

lemma list_update_split:
  "i < length xs \<Longrightarrow> xs[i := v] = take i xs @ v # drop (Suc i) xs"
  by (rule upd_conv_take_nth_drop)

lemma concat_update:
  "i < length xs \<Longrightarrow> concat (xs[i := v]) = concat (take i xs) @ v @ concat (drop (Suc i) xs)"
  by (simp add: list_update_split)

lemma concat_split_at:
  "i < length xs \<Longrightarrow> concat xs = concat (take i xs) @ xs ! i @ concat (drop (Suc i) xs)"
  by (metis concat.simps(2) concat_append id_take_nth_drop)

lemma set_concat_update:
  "i < length xs \<Longrightarrow>
   set (concat (xs[i := v])) = set (concat (take i xs)) \<union> set v \<union> set (concat (drop (Suc i) xs))"
  by (auto simp: list_update_split)

lemma set_take_drop: "set (take p xs @ drop q xs) \<subseteq> set xs"
  by (auto dest: in_set_takeD in_set_dropD)

lemma distinct_take_drop: "distinct xs \<Longrightarrow> distinct (take p xs @ drop (Suc p) xs)"
proof (cases "p < length xs")
  case True
  assume "distinct xs"
  then have "distinct (take p xs @ xs ! p # drop (Suc p) xs)"
    using True by (simp flip: id_take_nth_drop)
  then show ?thesis by simp
qed simp

lemma distinct_concat_indexed:
  assumes "\<And>i. i < length xs \<Longrightarrow> distinct (xs ! i)"
    and "\<And>i x. i < length xs \<Longrightarrow> x \<in> set (xs ! i) \<Longrightarrow> f x = i + n"
  shows "distinct (concat xs)"
  using assms
proof (induction xs arbitrary: n)
  case Nil
  then show ?case by simp
next
  case (Cons ys xs)
  have "distinct (concat xs)"
    using Cons.prems(1) [of "Suc _"] Cons.prems(2) [of "Suc _"] by (intro Cons.IH [of "Suc n"]) auto
  moreover have "distinct ys" using Cons.prems(1) [of 0] by simp
  moreover have "f x = n" if "x \<in> set ys" for x using Cons.prems(2) [of 0] that by simp
  moreover have "f x \<noteq> n" if "x \<in> set (concat xs)" for x
    using that Cons.prems(2) [of "Suc _"] by (fastforce simp: in_set_conv_nth)
  ultimately show ?case by auto
qed

lemma map_of_mid_update:
  assumes "k \<notin> fst ` set xs"
  shows "map_of (xs @ (k, v) # ys) = (map_of (xs @ (k, w) # ys))(k \<mapsto> v)"
proof -
  from assms have "map_of xs k = None" by (simp add: map_of_eq_None_iff)
  then show ?thesis by (auto simp: map_add_def fun_eq_iff split: option.splits)
qed

lemma map_of_mid_delete:
  assumes "k \<notin> fst ` set xs" and "k \<notin> fst ` set ys"
  shows "map_of (xs @ ys) = (map_of (xs @ (k, w) # ys))(k := None)"
proof -
  from assms have "map_of xs k = None" "map_of ys k = None" by (simp_all add: map_of_eq_None_iff)
  then show ?thesis by (auto simp: map_add_def fun_eq_iff split: option.splits)
qed

section \<open>Words\<close>

lemma unat_of_nat_small [simp]: "n < 2 ^ LENGTH('a) \<Longrightarrow> unat (of_nat n :: 'a::len word) = n"
  by (simp add: unat_of_nat take_bit_nat_eq_self)

lemma word_and_not_mask_minus: "(x :: 'a::len word) AND NOT m = x - (x AND m)"
proof -
  have disj: "(x AND m) AND (x AND NOT m) = 0"
    by (rule bit_word_eqI) (simp add: bit_simps)
  have "(x AND m) + (x AND NOT m) = (x AND m) OR (x AND NOT m)"
    using disj by (rule disjunctive_add_eq_or)
  also have "\<dots> = x"
    by (rule bit_word_eqI) (auto simp: bit_simps)
  finally show ?thesis by (simp add: algebra_simps)
qed

lemma unat_and_mask: "unat (x AND mask n :: 'a::len word) = unat x mod 2 ^ n"
proof -
  have "unat (take_bit n x) = take_bit n (unat x)"
    by (rule unsigned_take_bit_eq)
  then show ?thesis by (simp only: take_bit_eq_mask [symmetric] take_bit_eq_mod [of n "unat x"])
qed

lemma unat_pow2: "k < LENGTH('a) \<Longrightarrow> unat (2 ^ k :: 'a::len word) = 2 ^ k"
  by (metis of_nat_numeral of_nat_power one_less_numeral_iff power_strict_increasing_iff semiring_norm(76) unat_of_nat_small)

lemma unat_mask_word: "k < LENGTH('a) \<Longrightarrow> unat (mask k :: 'a::len word) = 2 ^ k - 1"
  by (simp add: mask_eq_exp_minus_1 unat_pow2 unat_minus_one)

lemma unat_and_not_mask: "unat (x AND NOT (mask n) :: 'a::len word) = unat x - unat x mod 2 ^ n"
proof -
  have "x AND mask n \<le> x" by (rule word_and_le2)
  then have "unat (x - (x AND mask n)) = unat x - unat (x AND mask n)"
    by (rule unat_sub)
  then show ?thesis by (simp add: word_and_not_mask_minus unat_and_mask)
qed

end
