(* ===== verification/Util.thy ===== *)
theory Util
  imports Prelude
begin

unbundle bit_operations_syntax

text \<open>
  Model of \<open>vm/util.h\<close> and \<open>vm/util.c\<close>: slices (a pointer and a length, here the list of
  characters they delimit), heap strings, the comparisons on them, and \<open>align_up\<close>.
  A byte of a string is a HOL \<open>char\<close>, which is exactly eight bits.
\<close>

section \<open>Slices\<close>

type_synonym slice = string

text \<open>\<open>memcmp (a, b, n) == 0\<close> for two buffers that hold at least \<open>n\<close> bytes.\<close>

definition memcmp_eq :: "string \<Rightarrow> string \<Rightarrow> nat \<Rightarrow> bool" where
  "memcmp_eq a b n = (take n a = take n b)"

definition subslice :: "slice \<Rightarrow> nat \<Rightarrow> slice" where
  "subslice str start = drop start str"

definition subslice_to :: "slice \<Rightarrow> nat \<Rightarrow> nat \<Rightarrow> slice" where
  "subslice_to str start stop = take (stop - start) (drop start str)"

definition utf8_equals :: "slice \<Rightarrow> string \<Rightarrow> bool" where
  "utf8_equals entry str =
     (int (length str) < 0xFFFFFFFF \<and> length entry = length str \<and> memcmp_eq entry str (length entry))"

definition utf8_equals_utf8 :: "slice \<Rightarrow> slice \<Rightarrow> bool" where
  "utf8_equals_utf8 left right =
     (length left = length right \<and> memcmp_eq left right (length left))"

definition utf8_ends_with :: "slice \<Rightarrow> slice \<Rightarrow> bool" where
  "utf8_ends_with str ending =
     (if length ending > length str then False
      else memcmp_eq (drop (length str - length ending) str) ending (length ending))"

fun exchange_char :: "char \<Rightarrow> char" where
  "exchange_char c = (if c = CHR ''/'' then CHR ''.'' else if c = CHR ''.'' then CHR ''/'' else c)"

text \<open>The destination has room for the source (the source asserts it), so the loop over the
  moved bytes is a map.\<close>

definition exchange_slashes_and_dots :: "slice \<Rightarrow> slice" where
  "exchange_slashes_and_dots src = map exchange_char src"

section \<open>Heap strings\<close>

text \<open>A heap string owns \<open>cap\<close> bytes, of which the first \<open>len\<close> are the text. Here
  \<open>hs_chars\<close> is the text, so \<open>len = length hs_chars\<close>; \<open>hs_alloc\<close> is the number of bytes
  the allocator was last asked for, which the C code does not keep.\<close>

record heap_string =
  hs_chars :: string
  hs_cap :: nat
  hs_alloc :: nat

definition make_heap_str :: "nat \<Rightarrow> heap_string" where
  "make_heap_str len =
     \<lparr>hs_chars = replicate len (CHR 0x00), hs_cap = len + 1, hs_alloc = len + 1\<rparr>"

definition make_heap_str_from :: "slice \<Rightarrow> heap_string" where
  "make_heap_str_from s = (make_heap_str (length s))\<lparr>hs_chars := s\<rparr>"

text \<open>The parameter is passed by value, so assigning its \<open>len\<close> leaves the caller's string as
  it was.\<close>

definition heap_str_truncate :: "heap_string \<Rightarrow> nat \<Rightarrow> heap_string" where
  "heap_str_truncate str len = str"

text \<open>\<open>realloc_ok\<close> says whether \<open>realloc\<close> succeeds. The new size is not stored in \<open>cap\<close>.\<close>

definition heap_str_append :: "bool \<Rightarrow> heap_string \<Rightarrow> slice \<Rightarrow> int \<times> heap_string" where
  "heap_str_append realloc_ok str s =
     (let required_len = length (hs_chars str) + length s + 1 in
      if required_len > hs_cap str then
        (if realloc_ok
         then (0, str\<lparr>hs_chars := hs_chars str @ s, hs_alloc := required_len + required_len div 2\<rparr>)
         else (-1, str\<lparr>hs_chars := [], hs_cap := 0\<rparr>))
      else (0, str\<lparr>hs_chars := hs_chars str @ s\<rparr>))"

definition hslc :: "heap_string \<Rightarrow> slice" where
  "hslc str = hs_chars str"

section \<open>Alignment\<close>

definition align_up :: "u64 \<Rightarrow> u64 \<Rightarrow> u64" where
  "align_up value alignment = (value + alignment - 1) AND NOT (alignment - 1)"

section \<open>Lemmas\<close>

lemma utf8_equals_iff [simp]:
  "utf8_equals entry str \<longleftrightarrow> int (length str) < 0xFFFFFFFF \<and> entry = str"
  by (auto simp: utf8_equals_def memcmp_eq_def)

lemma utf8_equals_utf8_iff [simp]: "utf8_equals_utf8 left right \<longleftrightarrow> left = right"
  by (auto simp: utf8_equals_utf8_def memcmp_eq_def)

lemma utf8_ends_with_iff: "utf8_ends_with str ending \<longleftrightarrow> (\<exists>pre. str = pre @ ending)"
proof
  assume e: "utf8_ends_with str ending"
  then have "length ending \<le> length str"
    by (auto simp: utf8_ends_with_def split: if_splits)
  moreover from this e have "drop (length str - length ending) str = ending"
    by (auto simp: utf8_ends_with_def memcmp_eq_def split: if_splits)
  ultimately show "\<exists>pre. str = pre @ ending"
    by (metis append_take_drop_id)
next
  assume "\<exists>pre. str = pre @ ending"
  then show "utf8_ends_with str ending"
    by (auto simp: utf8_ends_with_def memcmp_eq_def)
qed

lemma exchange_char_involution [simp]: "exchange_char (exchange_char c) = c"
  by simp

lemma exchange_slashes_and_dots_involution:
  "exchange_slashes_and_dots (exchange_slashes_and_dots s) = s"
  by (simp add: exchange_slashes_and_dots_def comp_def del: exchange_char.simps)

lemma subslice_to_append [simp]:
  "subslice_to (a @ b @ c) (length a) (length a + length b) = b"
  by (simp add: subslice_to_def)

text \<open>The allocator always holds the terminator: the invariant every operation keeps,
  and what it costs that \<open>cap\<close> is never raised.\<close>

definition heap_str_ok :: "heap_string \<Rightarrow> bool" where
  "heap_str_ok str \<longleftrightarrow> length (hs_chars str) < hs_alloc str \<and> hs_cap str \<le> hs_alloc str"

lemma heap_str_append_ok:
  assumes "heap_str_ok str" and "heap_str_append ok str s = (0, str')"
  shows "heap_str_ok str' \<and> hslc str' = hslc str @ s"
  using assms
  by (auto simp: heap_str_append_def heap_str_ok_def hslc_def Let_def split: if_splits)

lemma alignment_pow: "(2 ^ k :: u64) - 1 = mask k"
  by (simp add: mask_eq_exp_minus_1)

lemma unat_align_up:
  assumes k: "k < 64" and no: "unat value + 2 ^ k < 2 ^ 64"
  shows "unat (align_up value (2 ^ k)) =
    (unat value + (2 ^ k - 1)) - (unat value + (2 ^ k - 1)) mod 2 ^ k"
proof -
  have m: "unat (mask k :: u64) = 2 ^ k - 1"
    using k by (simp add: unat_mask_word)
  have "unat (value + mask k) = unat value + (2 ^ k - 1)"
    using no k by (subst unat_plus_simple [THEN iffD1])
      (simp_all add: no_olen_add_nat m)
  moreover have "value + 2 ^ k - 1 = value + mask k"
    by (simp add: mask_eq_exp_minus_1 algebra_simps)
  ultimately show ?thesis
    by (simp only: align_up_def alignment_pow unat_and_not_mask)
qed

lemma align_up_bounds:
  assumes "k < 64" and "unat value + 2 ^ k < 2 ^ 64"
  shows "unat value \<le> unat (align_up value (2 ^ k))"
    and "unat (align_up value (2 ^ k)) < unat value + 2 ^ k"
    and "2 ^ k dvd unat (align_up value (2 ^ k))"
proof -
  let ?n = "unat value + (2 ^ k - 1)"
  have r: "?n mod 2 ^ k < (2 ^ k :: nat)" by simp
  have e: "unat (align_up value (2 ^ k)) = ?n - ?n mod 2 ^ k"
    by (rule unat_align_up [OF assms])
  show "unat value \<le> unat (align_up value (2 ^ k))"
    using r unfolding e by linarith
  show "unat (align_up value (2 ^ k)) < unat value + 2 ^ k"
    unfolding e using r by (simp add: less_diff_conv2 Suc_le_eq)
  show "2 ^ k dvd unat (align_up value (2 ^ k))"
    unfolding e by (rule dvd_minus_mod)
qed

end
