(* ===== verification/Hash_Table.thy ===== *)
theory Hash_Table
  imports Util Complex_Main
begin

unbundle bit_operations_syntax

text \<open>
  Model of the string hash table of \<open>vm/adt.c\<close>: separate chaining with the first entry of
  each chain stored inline in the bucket array, the FxHash of the key, rehashing when the
  load factor is reached, deletion, and the iterator that \<open>hash_table_rehash\<close> uses. The
  table is shown to refine a finite map from strings to pointers; that contract is the
  locale \<open>string_map\<close>, which clients of the table use.
\<close>

section \<open>Data\<close>

text \<open>A bucket is the inline entry followed by its chain. A null \<open>key\<close> is \<open>None\<close>; a value is
  a pointer, null being \<open>None\<close>.\<close>

record 'v hash_table_entry =
  ekey :: "string option"
  edata :: "'v option"

type_synonym 'v bucket = "'v hash_table_entry list"

record 'v string_hash_table =
  ht_entries :: "'v bucket list"
  entries_count :: nat
  entries_cap :: nat
  load_factor :: rat

record hash_table_iterator =
  current_base :: nat
  current :: nat

section \<open>Operations\<close>

definition empty_entry :: "'v hash_table_entry" where
  "empty_entry = \<lparr>ekey = None, edata = None\<rparr>"

definition make_hash_table :: "rat \<Rightarrow> nat \<Rightarrow> 'v string_hash_table" where
  "make_hash_table lf initial_capacity =
     \<lparr>ht_entries = replicate initial_capacity [empty_entry], entries_count = 0,
      entries_cap = initial_capacity, load_factor = lf\<rparr>"

text \<open>\<open>while (base < end && base->key == nullptr) base++\<close>\<close>

function skip_empty :: "'v bucket list \<Rightarrow> nat \<Rightarrow> nat" where
  "skip_empty es base =
     (if base < length es \<and> ekey (hd (es ! base)) = None then skip_empty es (Suc base) else base)"
  by pat_completeness auto
termination
  by (relation "measure (\<lambda>(es, base). length es - base)") auto

declare skip_empty.simps [simp del]

definition hash_table_get_iterator :: "'v string_hash_table \<Rightarrow> hash_table_iterator" where
  "hash_table_get_iterator tbl = \<lparr>current_base = skip_empty (ht_entries tbl) 0, current = 0\<rparr>"

text \<open>\<open>iter.current\<close> reaches \<open>iter.end\<close> exactly when the base does.\<close>

definition hash_table_iterator_has_next ::
    "'v string_hash_table \<Rightarrow> hash_table_iterator \<Rightarrow> 'v hash_table_entry option" where
  "hash_table_iterator_has_next tbl it =
     (if current_base it < length (ht_entries tbl)
      then Some (ht_entries tbl ! current_base it ! current it) else None)"

definition hash_table_iterator_next ::
    "'v string_hash_table \<Rightarrow> hash_table_iterator \<Rightarrow> bool \<times> hash_table_iterator" where
  "hash_table_iterator_next tbl it =
     (if current_base it \<ge> length (ht_entries tbl) then (False, it)
      else if Suc (current it) < length (ht_entries tbl ! current_base it)
      then (True, it\<lparr>current := Suc (current it)\<rparr>)
      else (let b = skip_empty (ht_entries tbl) (Suc (current_base it))
            in (b \<noteq> length (ht_entries tbl), \<lparr>current_base = b, current = 0\<rparr>)))"

lemma skip_empty_ge: "base \<le> skip_empty es base"
proof (induction es base rule: skip_empty.induct)
  case (1 es base)
  show ?case
  proof (cases "base < length es \<and> ekey (hd (es ! base)) = None")
    case True
    then show ?thesis using "1.IH" by (simp add: skip_empty.simps [of es base])
  qed (auto simp: skip_empty.simps [of es base])
qed

text \<open>The loop of \<open>hash_table_rehash\<close> and \<open>free_hash_table\<close> over the entries.\<close>

function iter_collect ::
    "'v string_hash_table \<Rightarrow> hash_table_iterator \<Rightarrow> 'v hash_table_entry list" where
  "iter_collect tbl it =
     (case hash_table_iterator_has_next tbl it of
        None \<Rightarrow> []
      | Some e \<Rightarrow> e # iter_collect tbl (snd (hash_table_iterator_next tbl it)))"
  by pat_completeness auto
termination
proof (relation "measures [\<lambda>(tbl, it). length (ht_entries tbl) - current_base it,
    \<lambda>(tbl, it). length (ht_entries tbl ! current_base it) - current it]", goal_cases)
  case 1
  show ?case by simp
next
  case (2 tbl it e)
  let ?b = "current_base it"
  from 2 have b: "?b < length (ht_entries tbl)"
    by (simp add: hash_table_iterator_has_next_def split: if_splits)
  have "Suc ?b \<le> skip_empty (ht_entries tbl) (Suc ?b)" by (rule skip_empty_ge)
  with b show ?case
    by (auto simp: hash_table_iterator_next_def Let_def)
qed

declare iter_collect.simps [simp del]

text \<open>Bytes are loaded in the little-endian order of the targets the VM runs on.\<close>

fun load_le :: "string \<Rightarrow> u64" where
  "load_le [] = 0"
| "load_le (c # cs) = of_nat (of_char c) OR push_bit 8 (load_le cs)"

definition FXHASH_CONST :: u64 where
  "FXHASH_CONST = 0x517cc1b727220a95"

definition fxhash_step :: "u64 \<Rightarrow> u64 \<Rightarrow> u64" where
  "fxhash_step hash word = ((push_bit 5 hash OR drop_bit 59 hash) XOR word) * FXHASH_CONST"

function fxhash_words :: "string \<Rightarrow> nat \<Rightarrow> u64 \<Rightarrow> u64" where
  "fxhash_words key i hash =
     (if i + 7 < length key
      then fxhash_words key (i + 8) (fxhash_step hash (load_le (take 8 (drop i key))))
      else hash)"
  by pat_completeness auto
termination
  by (relation "measure (\<lambda>(key, i, hash). length key - i)") auto

declare fxhash_words.simps [simp del]

definition fxhash_string :: "string \<Rightarrow> u32" where
  "fxhash_string key =
     (let len = length key; hash = fxhash_words key 0 0 in
      ucast (if len mod 8 \<noteq> 0
             then fxhash_step hash (load_le (drop (len - len mod 8) key)) else hash))"

definition bucket_index :: "nat \<Rightarrow> string \<Rightarrow> nat" where
  "bucket_index cap key = unat (fxhash_string key) mod cap"

text \<open>The walk along one chain: the position of the entry with the key, or of the last entry,
  and whether the key was found. The entry is on the chain when its position is not 0.\<close>

fun find_in_bucket :: "'v bucket \<Rightarrow> string \<Rightarrow> nat \<Rightarrow> nat \<times> bool" where
  "find_in_bucket [] key i = (i, False)"
| "find_in_bucket (e # es) key i =
     (if ekey e = Some key then (i, True)
      else if es = [] then (i, False)
      else find_in_bucket es key (Suc i))"

definition find_hash_table_entry ::
    "'v string_hash_table \<Rightarrow> string \<Rightarrow> (nat \<times> nat \<times> bool) option" where
  "find_hash_table_entry tbl key =
     (if entries_cap tbl = 0 then None
      else let index = bucket_index (entries_cap tbl) key
           in Some (index, find_in_bucket (ht_entries tbl ! index) key 0))"

definition hash_table_lookup :: "'v string_hash_table \<Rightarrow> string \<Rightarrow> 'v option" where
  "hash_table_lookup tbl key =
     (case find_hash_table_entry tbl key of
        None \<Rightarrow> None
      | Some (index, pos, equal) \<Rightarrow>
          if equal then edata (ht_entries tbl ! index ! pos) else None)"

definition hash_table_contains :: "'v string_hash_table \<Rightarrow> string \<Rightarrow> bool" where
  "hash_table_contains tbl key =
     (case find_hash_table_entry tbl key of
        None \<Rightarrow> False
      | Some (index, pos, equal) \<Rightarrow> equal)"

text \<open>Deletion: a chained entry is unlinked; the inline entry takes over its successor, or is
  left in place with a null key (and its old data).\<close>

definition delete_from_bucket :: "'v bucket \<Rightarrow> nat \<Rightarrow> 'v bucket" where
  "delete_from_bucket b pos =
     (if pos \<noteq> 0 then take pos b @ drop (Suc pos) b
      else if tl b \<noteq> [] then tl b
      else [(hd b)\<lparr>ekey := None\<rparr>])"

definition hash_table_delete ::
    "'v string_hash_table \<Rightarrow> string \<Rightarrow> 'v string_hash_table \<times> 'v option" where
  "hash_table_delete tbl key =
     (case find_hash_table_entry tbl key of
        None \<Rightarrow> (tbl, None)
      | Some (index, pos, equal) \<Rightarrow>
          if \<not> equal then (tbl, None)
          else (let b = ht_entries tbl ! index in
                (tbl\<lparr>ht_entries := (ht_entries tbl)[index := delete_from_bucket b pos],
                     entries_count := entries_count tbl - 1\<rparr>,
                 edata (b ! pos))))"

text \<open>The part of \<open>hash_table_insert_impl\<close> after the load check: replace the data of an equal
  key, or append to the chain, or fill an inline entry whose key is null.\<close>

definition insert_in_bucket :: "'v bucket \<Rightarrow> string \<Rightarrow> 'v option \<Rightarrow> nat \<Rightarrow> 'v bucket" where
  "insert_in_bucket b key value pos =
     (if pos \<noteq> 0 \<or> ekey (b ! pos) \<noteq> None
      then b @ [\<lparr>ekey = Some key, edata = value\<rparr>]
      else b[pos := \<lparr>ekey = Some key, edata = value\<rparr>])"

definition insert_no_rehash ::
    "'v string_hash_table \<Rightarrow> string \<Rightarrow> 'v option \<Rightarrow> 'v string_hash_table \<times> 'v option" where
  "insert_no_rehash tbl key value =
     (case find_hash_table_entry tbl key of
        None \<Rightarrow> (tbl, None)
      | Some (index, pos, equal) \<Rightarrow>
          let b = ht_entries tbl ! index in
          if equal then
            (tbl\<lparr>ht_entries := (ht_entries tbl)[index := b[pos := (b ! pos)\<lparr>edata := value\<rparr>]]\<rparr>,
             edata (b ! pos))
          else
            (tbl\<lparr>ht_entries := (ht_entries tbl)[index := insert_in_bucket b key value pos],
                 entries_count := Suc (entries_count tbl)\<rparr>, None))"

definition must_rehash :: "'v string_hash_table \<Rightarrow> bool" where
  "must_rehash tbl =
     (of_nat (entries_count tbl) + 1 \<ge> load_factor tbl * of_nat (entries_cap tbl))"

text \<open>\<open>hash_table_rehash\<close> and \<open>hash_table_insert_impl\<close> call each other: an insertion into the
  new, larger table may rehash again. The first argument bounds that nesting.\<close>

definition rehash_with ::
    "('v string_hash_table \<Rightarrow> string \<Rightarrow> 'v option \<Rightarrow> ('v string_hash_table \<times> 'v option) option) \<Rightarrow>
     'v string_hash_table \<Rightarrow> nat \<Rightarrow> 'v string_hash_table option" where
  "rehash_with ins tbl new_capacity =
     fold (\<lambda>e acc. case (acc, ekey e) of
                     (Some new_table, Some key) \<Rightarrow> map_option fst (ins new_table key (edata e))
                   | _ \<Rightarrow> None)
       (iter_collect tbl (hash_table_get_iterator tbl))
       (Some (make_hash_table (load_factor tbl) new_capacity))"

primrec hash_table_insert_impl ::
    "nat \<Rightarrow> 'v string_hash_table \<Rightarrow> string \<Rightarrow> 'v option \<Rightarrow> ('v string_hash_table \<times> 'v option) option"
  where
  "hash_table_insert_impl 0 tbl key value = None"
| "hash_table_insert_impl (Suc n) tbl key value =
     (if must_rehash tbl then
        (case rehash_with (hash_table_insert_impl n) tbl (entries_cap tbl * 2) of
           None \<Rightarrow> None
         | Some tbl' \<Rightarrow> Some (insert_no_rehash tbl' key value))
      else Some (insert_no_rehash tbl key value))"

text \<open>Each nested rehash doubles the capacity, so \<open>entries_count + 3\<close> levels are enough; the
  fallback branch is never taken on a well-formed table (\<open>insert_total\<close> below).\<close>

definition hash_table_insert ::
    "'v string_hash_table \<Rightarrow> string \<Rightarrow> 'v option \<Rightarrow> 'v string_hash_table \<times> 'v option" where
  "hash_table_insert tbl key value =
     (case hash_table_insert_impl (entries_count tbl + 3) tbl key value of
        None \<Rightarrow> (tbl, None)
      | Some r \<Rightarrow> r)"

definition hash_table_rehash ::
    "'v string_hash_table \<Rightarrow> nat \<Rightarrow> 'v string_hash_table" where
  "hash_table_rehash tbl new_capacity =
     (case rehash_with (hash_table_insert_impl (entries_count tbl + 3)) tbl new_capacity of
        None \<Rightarrow> tbl
      | Some tbl' \<Rightarrow> tbl')"

definition hash_table_reserve ::
    "'v string_hash_table \<Rightarrow> nat \<Rightarrow> 'v string_hash_table" where
  "hash_table_reserve tbl new_capacity =
     hash_table_rehash tbl (nat \<lfloor>of_nat new_capacity * load_factor tbl\<rfloor> + 2)"

section \<open>Abstraction and invariant\<close>

definition entry_binding :: "'v hash_table_entry \<Rightarrow> (string \<times> 'v option) list" where
  "entry_binding e = (case ekey e of None \<Rightarrow> [] | Some k \<Rightarrow> [(k, edata e)])"

definition bindings :: "'v bucket \<Rightarrow> (string \<times> 'v option) list" where
  "bindings b = concat (map entry_binding b)"

definition all_bindings :: "'v string_hash_table \<Rightarrow> (string \<times> 'v option) list" where
  "all_bindings tbl = concat (map bindings (ht_entries tbl))"

definition ht_map :: "'v string_hash_table \<Rightarrow> string \<Rightarrow> 'v option option" where
  "ht_map tbl = map_of (all_bindings tbl)"

text \<open>What a bucket at index \<open>i\<close> promises: it has its inline entry, only that one may have a
  null key and then the chain is empty, no key occurs twice, every key hashes here.\<close>

definition keys_ok :: "nat \<Rightarrow> nat \<Rightarrow> string option list \<Rightarrow> bool" where
  "keys_ok cap i ks \<longleftrightarrow>
     ks = [None] \<or>
     ks \<noteq> [] \<and> None \<notin> set ks \<and> distinct ks \<and> (\<forall>k. Some k \<in> set ks \<longrightarrow> bucket_index cap k = i)"

definition bucket_ok :: "nat \<Rightarrow> nat \<Rightarrow> 'v bucket \<Rightarrow> bool" where
  "bucket_ok cap i b \<longleftrightarrow> keys_ok cap i (map ekey b)"

definition ht_inv :: "'v string_hash_table \<Rightarrow> bool" where
  "ht_inv tbl \<longleftrightarrow>
     0 < entries_cap tbl \<and> length (ht_entries tbl) = entries_cap tbl \<and> 1 / 2 \<le> load_factor tbl \<and>
     (\<forall>i < entries_cap tbl. bucket_ok (entries_cap tbl) i (ht_entries tbl ! i)) \<and>
     entries_count tbl = length (all_bindings tbl)"

section \<open>Buckets\<close>

lemma entry_binding_simps [simp]:
  "ekey e = None \<Longrightarrow> entry_binding e = []"
  "ekey e = Some k \<Longrightarrow> entry_binding e = [(k, edata e)]"
  by (simp_all add: entry_binding_def)

lemma entry_binding_record [simp]:
  "entry_binding \<lparr>ekey = Some k, edata = v\<rparr> = [(k, v)]"
  "entry_binding \<lparr>ekey = None, edata = v\<rparr> = []"
  by (simp_all add: entry_binding_def)

lemma bindings_simps [simp]:
  "bindings [] = []"
  "bindings (e # b) = entry_binding e @ bindings b"
  "bindings (b @ b') = bindings b @ bindings b'"
  by (simp_all add: bindings_def)

lemma bindings_split:
  "p < length b \<Longrightarrow> bindings b = bindings (take p b) @ entry_binding (b ! p) @ bindings (drop (Suc p) b)"
  by (metis bindings_simps(2,3) id_take_nth_drop)

lemma bindings_update:
  "p < length b \<Longrightarrow>
   bindings (b[p := e]) = bindings (take p b) @ entry_binding e @ bindings (drop (Suc p) b)"
  by (simp add: list_update_split)

lemma find_in_bucket_found:
  "find_in_bucket b key i = (p, True) \<Longrightarrow> i \<le> p \<and> p - i < length b \<and> ekey (b ! (p - i)) = Some key"
proof (induction b key i rule: find_in_bucket.induct)
  case (2 e es key i)
  show ?case
  proof (cases "ekey e = Some key")
    case True
    with "2.prems" show ?thesis by simp
  next
    case False
    with "2.prems" have rec: "find_in_bucket es key (Suc i) = (p, True)" and ne: "es \<noteq> []"
      by (auto split: if_splits)
    from "2.IH" [OF False ne rec]
    have "Suc i \<le> p" "p - Suc i < length es" "ekey (es ! (p - Suc i)) = Some key" by auto
    then show ?thesis by (metis Suc_diff_Suc Suc_le_lessD Suc_less_eq diff_Suc_Suc length_Cons less_imp_le_nat nth_Cons_Suc)
  qed
qed simp

lemma find_in_bucket_missing:
  "b \<noteq> [] \<Longrightarrow> find_in_bucket b key i = (p, False) \<Longrightarrow>
   p = i + (length b - 1) \<and> (\<forall>e \<in> set b. ekey e \<noteq> Some key)"
proof (induction b key i rule: find_in_bucket.induct)
  case (2 e es key i)
  show ?case
  proof (cases "es = []")
    case True
    with "2.prems" show ?thesis by (auto split: if_splits)
  next
    case False
    with "2.prems" have ne: "ekey e \<noteq> Some key" and rec: "find_in_bucket es key (Suc i) = (p, False)"
      by (auto split: if_splits)
    from "2.IH" [OF ne False False rec] ne False show ?thesis by (cases es) auto
  qed
qed simp

lemma key_in_bindings: "k \<in> fst ` set (bindings b) \<longleftrightarrow> (\<exists>e \<in> set b. ekey e = Some k)"
  by (induction b) (auto simp: entry_binding_def split: option.splits)

lemma bucket_ok_nonempty: "bucket_ok cap i b \<Longrightarrow> b \<noteq> []"
  by (auto simp: bucket_ok_def keys_ok_def)

lemma bindings_keyed: "None \<notin> set (map ekey b) \<Longrightarrow> map fst (bindings b) = map the (map ekey b)"
  by (induction b) (auto simp: entry_binding_def split: option.splits)

lemma bucket_ok_cases [consumes 1, case_names null keyed]:
  assumes "bucket_ok cap i b"
  obtains (null) e where "b = [e]" "ekey e = None"
  | (keyed) "b \<noteq> []" "None \<notin> set (map ekey b)" "distinct (map ekey b)"
      "\<And>k. Some k \<in> set (map ekey b) \<Longrightarrow> bucket_index cap k = i"
  using assms by (auto simp: bucket_ok_def keys_ok_def)

lemma bucket_ok_distinct: "bucket_ok cap i b \<Longrightarrow> distinct (map fst (bindings b))"
proof (induction rule: bucket_ok_cases)
  case (null e)
  then show ?case by simp
next
  case keyed
  have "inj_on the (set (map ekey b))"
    using keyed(2) by (intro inj_onI) (metis option.expand)
  with keyed(3) have "distinct (map the (map ekey b))"
    using distinct_map [of the "map ekey b"] by blast
  then show ?case using bindings_keyed [OF keyed(2)] by simp
qed

lemma bucket_ok_index: "bucket_ok cap i b \<Longrightarrow> k \<in> fst ` set (bindings b) \<Longrightarrow> bucket_index cap k = i"
  unfolding bucket_ok_def keys_ok_def key_in_bindings by (auto; metis image_eqI)

lemma bucket_found_bindings:
  assumes "bucket_ok cap i b" and "p < length b" and "ekey (b ! p) = Some key"
  shows "bindings b = bindings (take p b) @ (key, edata (b ! p)) # bindings (drop (Suc p) b)"
    and "key \<notin> fst ` set (bindings (take p b))" and "key \<notin> fst ` set (bindings (drop (Suc p) b))"
proof -
  show e: "bindings b = bindings (take p b) @ (key, edata (b ! p)) # bindings (drop (Suc p) b)"
    using bindings_split [OF assms(2)] assms(3) by simp
  have "distinct (map fst (bindings b))" using assms(1) by (rule bucket_ok_distinct)
  then show "key \<notin> fst ` set (bindings (take p b))" "key \<notin> fst ` set (bindings (drop (Suc p) b))"
    unfolding e by auto
qed

text \<open>The three ways a bucket changes.\<close>

lemma bucket_replace_ok:
  assumes ok: "bucket_ok cap i b" and p: "p < length b" and k: "ekey (b ! p) = Some key"
  shows "bucket_ok cap i (b[p := (b ! p)\<lparr>edata := v\<rparr>])"
    and "map_of (bindings (b[p := (b ! p)\<lparr>edata := v\<rparr>])) = (map_of (bindings b))(key \<mapsto> v)"
    and "length (bindings (b[p := (b ! p)\<lparr>edata := v\<rparr>])) = length (bindings b)"
proof -
  let ?b = "b[p := (b ! p)\<lparr>edata := v\<rparr>]"
  note f = bucket_found_bindings [OF ok p k]
  have nb: "bindings ?b = bindings (take p b) @ (key, v) # bindings (drop (Suc p) b)"
    using p k by (simp add: bindings_update)
  have "map ekey ?b = map ekey b"
    using p k by (simp add: map_update list_update_same_conv)
  with ok show "bucket_ok cap i ?b" by (simp add: bucket_ok_def)
  show "map_of (bindings ?b) = (map_of (bindings b))(key \<mapsto> v)"
    unfolding f(1) nb by (rule map_of_mid_update [OF f(2)])
  show "length (bindings ?b) = length (bindings b)" unfolding f(1) nb by simp
qed

lemma bucket_insert_ok:
  assumes ok: "bucket_ok cap i b" and new: "\<forall>e \<in> set b. ekey e \<noteq> Some key"
    and idx: "bucket_index cap key = i" and p: "p = length b - 1"
  shows "bucket_ok cap i (insert_in_bucket b key v p)"
    and "map_of (bindings (insert_in_bucket b key v p)) = (map_of (bindings b))(key \<mapsto> v)"
    and "length (bindings (insert_in_bucket b key v p)) = Suc (length (bindings b))"
proof -
  let ?e = "\<lparr>ekey = Some key, edata = v\<rparr>"
  have absent: "map_of (bindings b) key = None"
    using new by (auto simp: map_of_eq_None_iff key_in_bindings)
  consider (null) e where "b = [e]" "ekey e = None" | (keyed) "b \<noteq> []" "None \<notin> ekey ` set b"
    using ok by (auto simp: bucket_ok_def keys_ok_def)
  then have cases: "insert_in_bucket b key v p = [?e] \<and> bindings b = [] \<or>
      insert_in_bucket b key v p = b @ [?e] \<and> None \<notin> ekey ` set b"
  proof cases
    case null
    with p show ?thesis by (simp add: insert_in_bucket_def)
  next
    case keyed
    then have "ekey (b ! p) \<noteq> None" using p by (metis image_eqI last_conv_nth last_in_set)
    with keyed show ?thesis by (auto simp: insert_in_bucket_def)
  qed
  then show "bucket_ok cap i (insert_in_bucket b key v p)"
  proof
    assume "insert_in_bucket b key v p = [?e] \<and> bindings b = []"
    with idx show ?thesis by (simp add: bucket_ok_def keys_ok_def)
  next
    assume c: "insert_in_bucket b key v p = b @ [?e] \<and> None \<notin> ekey ` set b"
    have "Some key \<notin> set (map ekey b)" using new by auto
    with c ok idx show ?thesis by (auto simp: bucket_ok_def keys_ok_def)
  qed
  from cases absent
  show "map_of (bindings (insert_in_bucket b key v p)) = (map_of (bindings b))(key \<mapsto> v)"
    by (auto simp: map_add_def fun_eq_iff split: option.splits)
  from cases show "length (bindings (insert_in_bucket b key v p)) = Suc (length (bindings b))"
    by auto
qed

lemma bucket_delete_ok:
  assumes ok: "bucket_ok cap i b" and p: "p < length b" and k: "ekey (b ! p) = Some key"
  shows "bucket_ok cap i (delete_from_bucket b p)"
    and "map_of (bindings (delete_from_bucket b p)) = (map_of (bindings b))(key := None)"
    and "Suc (length (bindings (delete_from_bucket b p))) = length (bindings b)"
proof -
  let ?b = "delete_from_bucket b p"
  note f = bucket_found_bindings [OF ok p k]
  have nb: "bindings ?b = bindings (take p b) @ bindings (drop (Suc p) b)"
    using p k by (cases b; cases "tl b") (auto simp: delete_from_bucket_def)
  let ?ks = "map ekey b"
  have ks: "None \<notin> set ?ks" "distinct ?ks" "\<forall>k. Some k \<in> set ?ks \<longrightarrow> bucket_index cap k = i"
    using ok p k by (auto simp: bucket_ok_def keys_ok_def)
  have "map ekey ?b = [None] \<or> ?b \<noteq> [] \<and> ?b = take p b @ drop (Suc p) b"
    using p by (cases b; cases p) (auto simp: delete_from_bucket_def drop_Suc)
  then have "map ekey ?b = [None] \<or> map ekey ?b \<noteq> [] \<and> map ekey ?b = take p ?ks @ drop (Suc p) ?ks"
    by (auto simp: take_map drop_map)
  then show "bucket_ok cap i ?b"
    unfolding bucket_ok_def keys_ok_def
    using ks set_take_drop [of p ?ks "Suc p"] distinct_take_drop [OF ks(2), of p] by (metis subsetD)
  show "map_of (bindings ?b) = (map_of (bindings b))(key := None)"
    unfolding f(1) nb by (rule map_of_mid_delete [OF f(2,3)])
  show "Suc (length (bindings ?b)) = length (bindings b)" unfolding f(1) nb by simp
qed

section \<open>Tables\<close>

lemma all_bindings_split:
  "i < length (ht_entries t) \<Longrightarrow>
   all_bindings t = concat (map bindings (take i (ht_entries t))) @ bindings (ht_entries t ! i) @
     concat (map bindings (drop (Suc i) (ht_entries t)))"
  unfolding all_bindings_def
  by (subst concat_split_at [of i]) (simp_all add: take_map drop_map)

lemma all_bindings_update:
  "i < length (ht_entries t) \<Longrightarrow>
   all_bindings (t\<lparr>ht_entries := (ht_entries t)[i := b]\<rparr>) =
     concat (map bindings (take i (ht_entries t))) @ bindings b @
     concat (map bindings (drop (Suc i) (ht_entries t)))"
  unfolding all_bindings_def by (simp add: list_update_split)

lemma ht_invD:
  assumes "ht_inv t"
  shows "0 < entries_cap t" "length (ht_entries t) = entries_cap t"
    "i < entries_cap t \<Longrightarrow> bucket_ok (entries_cap t) i (ht_entries t ! i)"
    "entries_count t = length (all_bindings t)" "1 / 2 \<le> load_factor t"
  using assms by (simp_all add: ht_inv_def)

lemma bucket_index_less: "0 < cap \<Longrightarrow> bucket_index cap k < cap"
  by (simp add: bucket_index_def)

text \<open>A key is only in the bucket it hashes to.\<close>

lemma key_elsewhere:
  assumes inv: "ht_inv t" and j: "j < entries_cap t" and ne: "bucket_index (entries_cap t) k \<noteq> j"
  shows "map_of (bindings (ht_entries t ! j)) k = None"
  using bucket_ok_index [OF ht_invD(3) [OF inv j], of k] ne by (auto simp: map_of_eq_None_iff)

lemma map_of_concat_None:
  "(\<And>b. b \<in> set bs \<Longrightarrow> map_of (bindings b) k = None) \<Longrightarrow> map_of (concat (map bindings bs)) k = None"
  by (induction bs) (auto simp: map_add_def split: option.splits)

lemma other_buckets_None:
  assumes inv: "ht_inv t" and ij: "i \<noteq> bucket_index (entries_cap t) k \<longrightarrow> False"
  shows "map_of (concat (map bindings (take i (ht_entries t)))) k = None"
    and "map_of (concat (map bindings (drop (Suc i) (ht_entries t)))) k = None"
proof -
  have none: "j < entries_cap t \<Longrightarrow> j \<noteq> i \<Longrightarrow> map_of (bindings (ht_entries t ! j)) k = None" for j
    using key_elsewhere [OF inv, of j k] ij by blast
  show "map_of (concat (map bindings (take i (ht_entries t)))) k = None"
    using none ht_invD(2) [OF inv]
    by (intro map_of_concat_None) (auto simp: in_set_conv_nth)
  show "map_of (concat (map bindings (drop (Suc i) (ht_entries t)))) k = None"
    using none ht_invD(2) [OF inv]
    by (intro map_of_concat_None) (auto simp: in_set_conv_nth)
qed

lemma ht_map_bucket:
  assumes inv: "ht_inv t" and i: "i = bucket_index (entries_cap t) k"
  shows "ht_map t k = map_of (bindings (ht_entries t ! i)) k"
proof -
  have "i < length (ht_entries t)" using bucket_index_less ht_invD(1,2) [OF inv] i by simp
  then show ?thesis
    using other_buckets_None [OF inv, of i k] i
    by (auto simp: ht_map_def all_bindings_split map_add_def split: option.splits)
qed

lemma find_cases [consumes 1, case_names found missing]:
  assumes inv: "ht_inv t"
  obtains (found) p where
    "find_hash_table_entry t k = Some (bucket_index (entries_cap t) k, p, True)"
    "p < length (ht_entries t ! bucket_index (entries_cap t) k)"
    "ekey (ht_entries t ! bucket_index (entries_cap t) k ! p) = Some k"
    "ht_map t k = Some (edata (ht_entries t ! bucket_index (entries_cap t) k ! p))"
  | (missing) p where
    "find_hash_table_entry t k = Some (bucket_index (entries_cap t) k, p, False)"
    "p = length (ht_entries t ! bucket_index (entries_cap t) k) - 1"
    "\<forall>e \<in> set (ht_entries t ! bucket_index (entries_cap t) k). ekey e \<noteq> Some k"
    "ht_map t k = None"
proof -
  let ?i = "bucket_index (entries_cap t) k"
  let ?b = "ht_entries t ! ?i"
  have i: "?i < entries_cap t" using bucket_index_less ht_invD(1) [OF inv] by simp
  note ok = ht_invD(3) [OF inv i]
  obtain p eq where f: "find_in_bucket ?b k 0 = (p, eq)" by (cases "find_in_bucket ?b k 0")
  then have ft: "find_hash_table_entry t k = Some (?i, p, eq)"
    using ht_invD(1) [OF inv] by (simp add: find_hash_table_entry_def)
  show thesis
  proof (cases eq)
    case True
    with f find_in_bucket_found [of ?b k 0 p] have p: "p < length ?b" "ekey (?b ! p) = Some k" by auto
    note fb = bucket_found_bindings [OF ok p]
    have "map_of (bindings ?b) k = Some (edata (?b ! p))"
      unfolding fb(1) using fb(2) by (simp add: map_add_def map_of_eq_None_iff [symmetric] split: option.splits)
    with ft p True found show thesis by (simp add: ht_map_bucket [OF inv])
  next
    case False
    with f find_in_bucket_missing [of ?b k 0 p] bucket_ok_nonempty [OF ok]
    have m: "p = length ?b - 1" "\<forall>e \<in> set ?b. ekey e \<noteq> Some k" by auto
    then have "map_of (bindings ?b) k = None" by (auto simp: map_of_eq_None_iff key_in_bindings)
    with ft m False missing show thesis by (simp add: ht_map_bucket [OF inv])
  qed
qed

lemma hash_table_lookup_map [table_simps]:
  assumes "ht_inv t"
  shows "hash_table_lookup t k = (case ht_map t k of None \<Rightarrow> None | Some d \<Rightarrow> d)"
  using assms by (cases rule: find_cases [of t k]) (simp_all add: hash_table_lookup_def)

lemma hash_table_contains_map [table_simps]:
  assumes "ht_inv t"
  shows "hash_table_contains t k \<longleftrightarrow> ht_map t k \<noteq> None"
  using assms by (cases rule: find_cases [of t k]) (simp_all add: hash_table_contains_def)

text \<open>Replacing one bucket by a good one: what happens to the invariant and to the map.\<close>

lemma replace_bucket:
  assumes inv: "ht_inv t" and i: "i = bucket_index (entries_cap t) k"
    and ok: "bucket_ok (entries_cap t) i b"
    and m: "map_of (bindings b) = (map_of (bindings (ht_entries t ! i)))(k := r)"
    and len: "int n = int (entries_count t) + int (length (bindings b)) - int (length (bindings (ht_entries t ! i)))"
  shows "ht_inv (t\<lparr>ht_entries := (ht_entries t)[i := b], entries_count := n\<rparr>)"
    and "ht_map (t\<lparr>ht_entries := (ht_entries t)[i := b], entries_count := n\<rparr>) = (ht_map t)(k := r)"
proof -
  let ?t = "t\<lparr>ht_entries := (ht_entries t)[i := b], entries_count := n\<rparr>"
  have il: "i < length (ht_entries t)" using bucket_index_less ht_invD(1,2) [OF inv] i by simp
  have ab: "all_bindings ?t = all_bindings (t\<lparr>ht_entries := (ht_entries t)[i := b]\<rparr>)"
    by (simp add: all_bindings_def)
  have "int n = int (length (all_bindings ?t))"
    using len unfolding ab ht_invD(4) [OF inv] all_bindings_update [OF il]
    by (simp add: all_bindings_split [OF il])
  then show inv': "ht_inv ?t"
    using inv ok il unfolding ht_inv_def by (auto simp: nth_list_update)
  show "ht_map ?t = (ht_map t)(k := r)"
  proof
    fix k'
    let ?j = "bucket_index (entries_cap t) k'"
    have "ht_map ?t k' = map_of (bindings ((ht_entries t)[i := b] ! ?j)) k'"
      using ht_map_bucket [OF inv', of ?j k'] by simp
    then show "ht_map ?t k' = ((ht_map t)(k := r)) k'"
      using ht_map_bucket [OF inv, of ?j k'] m i il by (cases "?j = i") auto
  qed
qed

lemma insert_no_rehash_correct:
  assumes inv: "ht_inv t"
  shows "ht_inv (fst (insert_no_rehash t k v))"
    and "ht_map (fst (insert_no_rehash t k v)) = (ht_map t)(k \<mapsto> v)"
    and "snd (insert_no_rehash t k v) = hash_table_lookup t k"
    and "entries_cap (fst (insert_no_rehash t k v)) = entries_cap t"
    and "load_factor (fst (insert_no_rehash t k v)) = load_factor t"
    and "entries_count (fst (insert_no_rehash t k v)) =
      entries_count t + (if ht_map t k = None then 1 else 0)"
proof -
  let ?i = "bucket_index (entries_cap t) k"
  have i: "?i < entries_cap t" using bucket_index_less ht_invD(1) [OF inv] by simp
  note ok = ht_invD(3) [OF inv i]
  from inv have "ht_inv (fst (insert_no_rehash t k v)) \<and>
    ht_map (fst (insert_no_rehash t k v)) = (ht_map t)(k \<mapsto> v) \<and>
    snd (insert_no_rehash t k v) = hash_table_lookup t k \<and>
    entries_cap (fst (insert_no_rehash t k v)) = entries_cap t \<and>
    load_factor (fst (insert_no_rehash t k v)) = load_factor t \<and>
    entries_count (fst (insert_no_rehash t k v)) = entries_count t + (if ht_map t k = None then 1 else 0)"
  proof (cases rule: find_cases [of t k])
    case (found p)
    note r = bucket_replace_ok [OF ok found(2,3), of v]
    from replace_bucket [OF inv refl r(1,2), of "entries_count t"] r(3) found
    show ?thesis by (simp add: insert_no_rehash_def Let_def hash_table_lookup_map [OF inv])
  next
    case (missing p)
    note r = bucket_insert_ok [OF ok missing(3) refl missing(2), of v]
    from replace_bucket [OF inv refl r(1,2), of "Suc (entries_count t)"] r(3) missing
    show ?thesis by (simp add: insert_no_rehash_def Let_def hash_table_lookup_map [OF inv])
  qed
  then show "ht_inv (fst (insert_no_rehash t k v))"
    and "ht_map (fst (insert_no_rehash t k v)) = (ht_map t)(k \<mapsto> v)"
    and "snd (insert_no_rehash t k v) = hash_table_lookup t k"
    and "entries_cap (fst (insert_no_rehash t k v)) = entries_cap t"
    and "load_factor (fst (insert_no_rehash t k v)) = load_factor t"
    and "entries_count (fst (insert_no_rehash t k v)) =
      entries_count t + (if ht_map t k = None then 1 else 0)"
    by blast+
qed

lemma hash_table_delete_correct:
  assumes inv: "ht_inv t"
  shows "ht_inv (fst (hash_table_delete t k)) \<and>
    ht_map (fst (hash_table_delete t k)) = (ht_map t)(k := None) \<and>
    snd (hash_table_delete t k) = hash_table_lookup t k"
proof -
  let ?i = "bucket_index (entries_cap t) k"
  have i: "?i < entries_cap t" using bucket_index_less ht_invD(1) [OF inv] by simp
  note ok = ht_invD(3) [OF inv i]
  from inv show ?thesis
  proof (cases rule: find_cases [of t k])
    case (found p)
    note r = bucket_delete_ok [OF ok found(2,3)]
    have "0 < length (bindings (ht_entries t ! ?i))" using r(3) by linarith
    then have "0 < entries_count t"
      using ht_invD(2,4) [OF inv] i by (simp add: all_bindings_split [of ?i])
    with replace_bucket [OF inv refl r(1,2), of "entries_count t - 1"] r(3) found
    show ?thesis by (simp add: hash_table_delete_def Let_def hash_table_lookup_map [OF inv])
  next
    case (missing p)
    then show ?thesis
      using inv by (simp add: hash_table_delete_def hash_table_lookup_map [OF inv] fun_upd_idem)
  qed
qed

section \<open>Iteration\<close>

definition keyed :: "'v bucket \<Rightarrow> 'v bucket" where
  "keyed b = filter (\<lambda>e. ekey e \<noteq> None) b"

lemma keyed_simps [simp]: "keyed [] = []" "keyed (b @ b') = keyed b @ keyed b'"
  by (simp_all add: keyed_def)

lemma bindings_keyed_map: "bindings b = map (\<lambda>e. (the (ekey e), edata e)) (keyed b)"
  by (induction b) (auto simp: keyed_def entry_binding_def split: option.splits)

lemma all_bindings_keyed:
  "all_bindings t = map (\<lambda>e. (the (ekey e), edata e)) (keyed (concat (ht_entries t)))"
proof -
  have "concat (map bindings es) = bindings (concat es)" for es :: "'a bucket list"
    by (induction es) simp_all
  then show ?thesis by (simp add: all_bindings_def bindings_keyed_map)
qed

lemma bucket_null_keyed: "bucket_ok cap i b \<Longrightarrow> ekey (hd b) = None \<Longrightarrow> keyed b = []"
  by (cases rule: bucket_ok_cases, assumption) (auto simp: keyed_def, metis hd_in_set image_eqI)

lemma bucket_nonnull_keyed: "bucket_ok cap i b \<Longrightarrow> ekey (hd b) \<noteq> None \<Longrightarrow> keyed b = b"
  by (cases rule: bucket_ok_cases, assumption)
    (auto simp: keyed_def filter_id_conv, metis image_eqI option.exhaust)

lemma skip_empty_stop:
  "skip_empty es base < length es \<Longrightarrow> ekey (hd (es ! skip_empty es base)) \<noteq> None"
proof (induction es base rule: skip_empty.induct)
  case (1 es base)
  then show ?case by (cases "base < length es \<and> ekey (hd (es ! base)) = None")
      (auto simp: skip_empty.simps [of es base])
qed

lemma skip_empty_keyed:
  assumes "\<And>i. i < length es \<Longrightarrow> bucket_ok cap i (es ! i)"
  shows "keyed (concat (drop (skip_empty es base) es)) = keyed (concat (drop base es))"
  using assms
proof (induction es base rule: skip_empty.induct)
  case (1 es base)
  show ?case
  proof (cases "base < length es \<and> ekey (hd (es ! base)) = None")
    case True
    then have "keyed (es ! base) = []" using "1.prems" bucket_null_keyed by blast
    then have "keyed (concat (drop base es)) = keyed (concat (drop (Suc base) es))"
      using True by (simp flip: Cons_nth_drop_Suc)
    with True "1.IH" [OF True "1.prems"] show ?thesis by (simp add: skip_empty.simps [of es base])
  qed (auto simp: skip_empty.simps [of es base])
qed

lemma iter_collect_from:
  "ht_inv t \<Longrightarrow> current_base it < length (ht_entries t) \<Longrightarrow>
   current it < length (ht_entries t ! current_base it) \<Longrightarrow>
   ekey (hd (ht_entries t ! current_base it)) \<noteq> None \<Longrightarrow>
   iter_collect t it = drop (current it) (ht_entries t ! current_base it) @
     keyed (concat (drop (Suc (current_base it)) (ht_entries t)))"
proof (induction t it rule: iter_collect.induct)
  case (1 t it)
  let ?es = "ht_entries t" and ?b = "current_base it" and ?p = "current it"
  let ?next = "snd (hash_table_iterator_next t it)"
  note inv = "1.prems"(1)
  have hn: "hash_table_iterator_has_next t it = Some (?es ! ?b ! ?p)"
    using "1.prems"(2) by (simp add: hash_table_iterator_has_next_def)
  then have unf: "iter_collect t it = ?es ! ?b ! ?p # iter_collect t ?next"
    by (simp add: iter_collect.simps [of t it])
  have oks: "\<And>i. i < length ?es \<Longrightarrow> bucket_ok (entries_cap t) i (?es ! i)"
    using ht_invD(2,3) [OF inv] by simp
  have dp: "drop ?p (?es ! ?b) = ?es ! ?b ! ?p # drop (Suc ?p) (?es ! ?b)"
    using "1.prems"(3) by (simp add: Cons_nth_drop_Suc)
  show ?case
  proof (cases "Suc ?p < length (?es ! ?b)")
    case True
    then have "?next = it\<lparr>current := Suc ?p\<rparr>"
      using "1.prems"(2) by (simp add: hash_table_iterator_next_def)
    with "1.IH" [OF hn inv] "1.prems" True unf dp show ?thesis by simp
  next
    case False
    let ?n = "skip_empty ?es (Suc ?b)"
    from False have nx: "?next = \<lparr>current_base = ?n, current = 0\<rparr>"
      using "1.prems"(2) by (simp add: hash_table_iterator_next_def Let_def)
    have rest: "iter_collect t ?next = keyed (concat (drop ?n ?es))"
    proof (cases "?n < length ?es")
      case nl: True
      have nn: "ekey (hd (?es ! ?n)) \<noteq> None" using nl by (rule skip_empty_stop)
      have "?es ! ?n \<noteq> []" using oks [OF nl] by (rule bucket_ok_nonempty)
      then have "iter_collect t ?next = ?es ! ?n @ keyed (concat (drop (Suc ?n) ?es))"
        using "1.IH" [OF hn inv] nl nn by (simp add: nx)
      then show ?thesis
        using bucket_nonnull_keyed [OF oks [OF nl] nn] nl by (simp flip: Cons_nth_drop_Suc)
    next
      case False
      then show ?thesis
        by (simp add: nx iter_collect.simps hash_table_iterator_has_next_def)
    qed
    from False have "drop (Suc ?p) (?es ! ?b) = []" by simp
    with rest unf dp skip_empty_keyed [OF oks, of "Suc ?b"] show ?thesis by simp
  qed
qed

text \<open>The iterator visits every keyed entry once, in bucket order.\<close>

lemma iter_collect_all:
  assumes inv: "ht_inv t"
  shows "iter_collect t (hash_table_get_iterator t) = keyed (concat (ht_entries t))"
proof -
  let ?es = "ht_entries t"
  let ?n = "skip_empty ?es 0"
  have oks: "\<And>i. i < length ?es \<Longrightarrow> bucket_ok (entries_cap t) i (?es ! i)"
    using ht_invD(2,3) [OF inv] by simp
  have "iter_collect t (hash_table_get_iterator t) = keyed (concat (drop ?n ?es))"
  proof (cases "?n < length ?es")
    case True
    have nn: "ekey (hd (?es ! ?n)) \<noteq> None" using True by (rule skip_empty_stop)
    have "?es ! ?n \<noteq> []" using oks [OF True] by (rule bucket_ok_nonempty)
    with iter_collect_from [OF inv, of "\<lparr>current_base = ?n, current = 0\<rparr>"] True nn
      bucket_nonnull_keyed [OF oks [OF True] nn]
    show ?thesis by (simp add: hash_table_get_iterator_def flip: Cons_nth_drop_Suc)
  next
    case False
    then show ?thesis
      by (simp add: hash_table_get_iterator_def iter_collect.simps hash_table_iterator_has_next_def)
  qed
  then show ?thesis using skip_empty_keyed [OF oks, of 0] by simp
qed

section \<open>Rehashing\<close>

lemma make_hash_table_inv:
  assumes "0 < c" and "1 / 2 \<le> lf"
  shows "ht_inv (make_hash_table lf c)" and "ht_map (make_hash_table lf c) = Map.empty"
    and "entries_count (make_hash_table lf c) = 0"
proof -
  have e: "all_bindings (make_hash_table lf c) = []"
    by (simp add: all_bindings_def make_hash_table_def empty_entry_def)
  then show "ht_inv (make_hash_table lf c)"
    using assms by (auto simp: ht_inv_def make_hash_table_def bucket_ok_def keys_ok_def empty_entry_def)
  from e show "ht_map (make_hash_table lf c) = Map.empty" by (simp add: ht_map_def)
qed (simp add: make_hash_table_def)

text \<open>What an insertion routine promises on tables with load factor \<open>lf\<close>, at least \<open>c\<close> buckets
  and fewer than \<open>n\<close> entries.\<close>

definition ins_spec where
  "ins_spec ins lf c n \<longleftrightarrow>
     (\<forall>t k v. ht_inv t \<and> load_factor t = lf \<and> c \<le> entries_cap t \<and> entries_count t < n \<longrightarrow>
       (\<exists>t'. ins t k v = Some (t', hash_table_lookup t k) \<and> ht_inv t' \<and>
         ht_map t' = (ht_map t)(k \<mapsto> v) \<and> load_factor t' = lf \<and> c \<le> entries_cap t' \<and>
         entries_count t' = entries_count t + (if ht_map t k = None then 1 else 0)))"

definition rehash_step where
  "rehash_step ins e acc =
     (case (acc, ekey e) of
        (Some new_table, Some key) \<Rightarrow> map_option fst (ins new_table key (edata e))
      | _ \<Rightarrow> None)"

lemma rehash_with_step:
  "rehash_with ins t c =
     fold (rehash_step ins) (iter_collect t (hash_table_get_iterator t))
       (Some (make_hash_table (load_factor t) c))"
  unfolding rehash_with_def rehash_step_def [abs_def] by simp

lemma fold_rehash:
  assumes spec: "ins_spec ins lf c n"
  shows "ht_inv t \<Longrightarrow> load_factor t = lf \<Longrightarrow> c \<le> entries_cap t \<Longrightarrow>
    entries_count t + length es \<le> n \<Longrightarrow> None \<notin> set (map ekey es) \<Longrightarrow>
    distinct (map (the \<circ> ekey) es) \<Longrightarrow> (\<forall>e \<in> set es. ht_map t (the (ekey e)) = None) \<Longrightarrow>
    \<exists>t'. fold (rehash_step ins) es (Some t) = Some t' \<and> ht_inv t' \<and> load_factor t' = lf \<and>
      c \<le> entries_cap t' \<and> entries_count t' = entries_count t + length es \<and>
      ht_map t' = ht_map t ++ map_of (map (\<lambda>e. (the (ekey e), edata e)) es)"
proof (induction es arbitrary: t)
  case Nil
  then show ?case by simp
next
  case (Cons e es)
  from Cons.prems(5) obtain k where k: "ekey e = Some k" by (cases "ekey e") auto
  have pre: "ht_inv t \<and> load_factor t = lf \<and> c \<le> entries_cap t \<and> entries_count t < n"
    using Cons.prems by simp
  have new: "ht_map t k = None" using Cons.prems(7) k by simp
  obtain t1 where t1: "ins t k (edata e) = Some (t1, hash_table_lookup t k)" "ht_inv t1"
      "ht_map t1 = (ht_map t)(k \<mapsto> edata e)" "load_factor t1 = lf" "c \<le> entries_cap t1"
      "entries_count t1 = entries_count t + 1"
    using spec [unfolded ins_spec_def, rule_format, OF pre, of k "edata e"] new by auto
  have fresh: "\<forall>e' \<in> set es. ht_map t1 (the (ekey e')) = None"
    using Cons.prems(6,7) k t1(3) by (auto simp: image_iff)
  obtain u where u: "fold (rehash_step ins) es (Some t1) = Some u" "ht_inv u" "load_factor u = lf"
      "c \<le> entries_cap u" "entries_count u = entries_count t1 + length es"
      "ht_map u = ht_map t1 ++ map_of (map (\<lambda>e. (the (ekey e), edata e)) es)"
    using Cons.IH [OF t1(2,4,5) _ _ _ fresh] Cons.prems(4,5,6) t1(6) by auto
  have nk: "map_of (map (\<lambda>e. (the (ekey e), edata e)) es) k = None"
    using Cons.prems(6) k by (auto simp: map_of_eq_None_iff)
  have "rehash_step ins e (Some t) = Some t1"
    using k t1(1) by (simp add: rehash_step_def)
  moreover have "ht_map u = ht_map t ++ map_of (map (\<lambda>e. (the (ekey e), edata e)) (e # es))"
    using k nk by (auto simp: u(6) t1(3) map_add_def fun_eq_iff split: option.splits)
  moreover have "entries_count u = entries_count t + length (e # es)" using u(5) t1(6) by simp
  ultimately show ?case using u(1-4) by (metis fold_simps(2))
qed

lemma all_bindings_distinct:
  assumes inv: "ht_inv t"
  shows "distinct (map fst (all_bindings t))"
proof -
  let ?L = "map (\<lambda>b. map fst (bindings b)) (ht_entries t)"
  have b: "i < length (ht_entries t) \<Longrightarrow> bucket_ok (entries_cap t) i (ht_entries t ! i)" for i
    using ht_invD(2,3) [OF inv] by simp
  have "distinct (concat ?L)"
    by (rule distinct_concat_indexed [where f = "bucket_index (entries_cap t)" and n = 0])
      (use b bucket_ok_distinct bucket_ok_index in \<open>fastforce+\<close>)
  then show ?thesis by (simp add: all_bindings_def map_concat comp_def)
qed

lemma rehash_with_correct:
  fixes t :: "'v string_hash_table"
  assumes inv: "ht_inv t" and c: "0 < c"
    and spec: "ins_spec ins (load_factor t) c (entries_count t)"
  shows "\<exists>t'. rehash_with ins t c = Some t' \<and> ht_inv t' \<and> load_factor t' = load_factor t \<and>
    c \<le> entries_cap t' \<and> entries_count t' = entries_count t \<and> ht_map t' = ht_map t"
proof -
  let ?es = "keyed (concat (ht_entries t))"
  let ?n = "make_hash_table (load_factor t) c :: 'v string_hash_table"
  have mk: "ht_inv ?n" "ht_map ?n = Map.empty" "entries_count ?n = 0"
    using make_hash_table_inv [OF c ht_invD(5) [OF inv]] by simp_all
  have ab: "all_bindings t = map (\<lambda>e. (the (ekey e), edata e)) ?es" by (rule all_bindings_keyed)
  have len: "length ?es = entries_count t" using ht_invD(4) [OF inv] ab by simp
  have dist: "distinct (map (the \<circ> ekey) ?es)"
    using all_bindings_distinct [OF inv] by (simp add: ab comp_def)
  have "\<exists>t'. fold (rehash_step ins) ?es (Some ?n) = Some t' \<and> ht_inv t' \<and>
      load_factor t' = load_factor t \<and> c \<le> entries_cap t' \<and>
      entries_count t' = entries_count ?n + length ?es \<and>
      ht_map t' = ht_map ?n ++ map_of (map (\<lambda>e. (the (ekey e), edata e)) ?es)"
  proof (rule fold_rehash [OF spec mk(1) _ _ _ _ dist])
    show "load_factor ?n = load_factor t" "c \<le> entries_cap ?n" by (simp_all add: make_hash_table_def)
    show "entries_count ?n + length ?es \<le> entries_count t" using mk(3) len by simp
    show "None \<notin> set (map ekey ?es)" by (auto simp: keyed_def)
    show "\<forall>e \<in> set ?es. ht_map ?n (the (ekey e)) = None" using mk(2) by simp
  qed
  then show ?thesis
    using mk len by (auto simp: rehash_with_step iter_collect_all [OF inv] ht_map_def [of t] ab)
qed

text \<open>Enough nesting: each rehash doubles the capacity.\<close>

lemma insert_impl_enough:
  fixes t :: "'v string_hash_table"
  shows "ht_inv t \<Longrightarrow> of_nat (entries_count t) + 1 < load_factor t * of_nat (entries_cap t) * 2 ^ n \<Longrightarrow>
   \<exists>t'. hash_table_insert_impl (Suc n) t k v = Some (t', hash_table_lookup t k) \<and> ht_inv t' \<and>
     ht_map t' = (ht_map t)(k \<mapsto> v) \<and> load_factor t' = load_factor t \<and>
     entries_cap t \<le> entries_cap t' \<and>
     entries_count t' = entries_count t + (if ht_map t k = None then 1 else 0)"
proof (induction n arbitrary: t k v)
  case 0
  then have "\<not> must_rehash t" by (simp add: must_rehash_def)
  then show ?case
    using insert_no_rehash_correct [OF "0.prems"(1), of k v]
    by (cases "insert_no_rehash t k v") (simp add: fun_upd_def)
next
  case (Suc n)
  show ?case
  proof (cases "must_rehash t")
    case False
    then show ?thesis
      using insert_no_rehash_correct [OF Suc.prems(1), of k v]
      by (cases "insert_no_rehash t k v") (simp add: fun_upd_def)
  next
    case True
    let ?c = "entries_cap t * 2"
    have dbl: "load_factor t * of_nat (entries_cap t) * 2 ^ Suc n = load_factor t * of_nat ?c * 2 ^ n"
      by simp
    have pos: "0 \<le> load_factor t"
      using ht_invD(5) [OF Suc.prems(1)] by (simp add: order_trans [of 0 "1 / 2"])
    have small: "of_nat (entries_count t') + 1 < load_factor t' * of_nat (entries_cap t') * 2 ^ n"
      if t': "load_factor t' = load_factor t" "?c \<le> entries_cap t'" "entries_count t' < entries_count t"
      for t' :: "'v string_hash_table"
    proof -
      have "load_factor t * of_nat ?c * 2 ^ n \<le> load_factor t' * of_nat (entries_cap t') * 2 ^ n"
        using t' pos by (intro mult_right_mono) (auto intro!: mult_left_mono simp del: of_nat_mult)
      moreover have "of_nat (entries_count t') + 1 \<le> (of_nat (entries_count t) :: rat)"
        using t' by (metis Suc_leI of_nat_Suc of_nat_mono add.commute)
      ultimately show ?thesis using Suc.prems(2) unfolding dbl by linarith
    qed
    have "ins_spec (hash_table_insert_impl (Suc n) :: 'v string_hash_table \<Rightarrow> _)
        (load_factor t) ?c (entries_count t)"
      unfolding ins_spec_def
    proof (intro allI impI, elim conjE)
      fix t' :: "'v string_hash_table" and k and v :: "'v option"
      assume t': "ht_inv t'" "load_factor t' = load_factor t" "?c \<le> entries_cap t'"
        "entries_count t' < entries_count t"
      from Suc.IH [OF t'(1) small [OF t'(2-4)], of k v] obtain u where
        "hash_table_insert_impl (Suc n) t' k v = Some (u, hash_table_lookup t' k)" "ht_inv u"
        "ht_map u = (ht_map t')(k \<mapsto> v)" "load_factor u = load_factor t'"
        "entries_cap t' \<le> entries_cap u"
        "entries_count u = entries_count t' + (if ht_map t' k = None then 1 else 0)" by blast
      with t' show "\<exists>u. hash_table_insert_impl (Suc n) t' k v = Some (u, hash_table_lookup t' k) \<and>
          ht_inv u \<and> ht_map u = (ht_map t')(k \<mapsto> v) \<and> load_factor u = load_factor t \<and>
          ?c \<le> entries_cap u \<and>
          entries_count u = entries_count t' + (if ht_map t' k = None then 1 else 0)"
        by (intro exI [of _ u] conjI) simp_all
    qed
    from rehash_with_correct [OF Suc.prems(1) _ this] ht_invD(1) [OF Suc.prems(1)]
    obtain u where u: "rehash_with (hash_table_insert_impl (Suc n)) t ?c = Some u" "ht_inv u"
        "load_factor u = load_factor t" "?c \<le> entries_cap u" "entries_count u = entries_count t"
        "ht_map u = ht_map t" by auto
    have "hash_table_lookup u k = hash_table_lookup t k"
      using u(2,6) Suc.prems(1) by (simp add: table_simps)
    then show ?thesis
      using True u insert_no_rehash_correct [OF u(2), of k v]
      by (cases "insert_no_rehash u k v")
        (simp del: hash_table_insert_impl.simps
          add: fun_upd_def hash_table_insert_impl.simps(2) [of "Suc n"])
  qed
qed

lemma pow2_gt_nat: "of_nat n + 1 < (1 / 2 :: rat) * 2 ^ (n + 2)"
proof (induction n)
  case (Suc n)
  have "(1 :: rat) \<le> 2 ^ n" by simp
  with Suc show ?case by simp
qed simp

lemma insert_depth_enough:
  assumes inv: "ht_inv t" and n: "entries_count t \<le> n"
  shows "of_nat (entries_count t) + 1 < load_factor t * of_nat (entries_cap t) * 2 ^ (n + 2)"
proof -
  have "of_nat (entries_count t) + 1 \<le> (of_nat n + 1 :: rat)" using n by simp
  also have "\<dots> < 1 / 2 * 2 ^ (n + 2)" by (rule pow2_gt_nat)
  also have "\<dots> \<le> load_factor t * of_nat (entries_cap t) * 2 ^ (n + 2)"
  proof (rule mult_right_mono)
    have "1 / 2 * 1 \<le> load_factor t * of_nat (entries_cap t)"
      using ht_invD(1,5) [OF inv] by (intro mult_mono) (simp_all add: Suc_le_eq order_trans [of 0 "1 / 2"])
    then show "1 / 2 \<le> load_factor t * of_nat (entries_cap t)" by simp
  qed simp
  finally show ?thesis .
qed

lemma hash_table_insert_correct:
  assumes inv: "ht_inv t"
  shows "ht_inv (fst (hash_table_insert t k v)) \<and>
    ht_map (fst (hash_table_insert t k v)) = (ht_map t)(k \<mapsto> v) \<and>
    snd (hash_table_insert t k v) = hash_table_lookup t k \<and>
    entries_count (fst (hash_table_insert t k v)) =
      entries_count t + (if ht_map t k = None then 1 else 0)"
proof -
  have e: "entries_count t + 3 = Suc (entries_count t + 2)" by simp
  from insert_impl_enough [OF inv insert_depth_enough [OF inv order_refl], of k v, folded e]
  show ?thesis unfolding hash_table_insert_def by auto
qed

lemma insert_total:
  assumes inv: "ht_inv t"
  shows "hash_table_insert_impl (entries_count t + 3) t k v = Some (hash_table_insert t k v)"
proof -
  have e: "entries_count t + 3 = Suc (entries_count t + 2)" by simp
  from insert_impl_enough [OF inv insert_depth_enough [OF inv order_refl], of k v, folded e]
  show ?thesis unfolding hash_table_insert_def by auto
qed

lemma hash_table_rehash_correct:
  fixes t :: "'v string_hash_table"
  assumes inv: "ht_inv t" and c: "0 < c"
  shows "ht_inv (hash_table_rehash t c) \<and> ht_map (hash_table_rehash t c) = ht_map t \<and>
    entries_count (hash_table_rehash t c) = entries_count t"
proof -
  have "ins_spec (hash_table_insert_impl (entries_count t + 3) :: 'v string_hash_table \<Rightarrow> _)
      (load_factor t) c (entries_count t)"
    unfolding ins_spec_def
  proof (intro allI impI, elim conjE)
    fix u :: "'v string_hash_table" and k and v :: "'v option"
    assume u: "ht_inv u" "load_factor u = load_factor t" "c \<le> entries_cap u"
      "entries_count u < entries_count t"
    have e: "entries_count t + 3 = Suc (entries_count t + 2)" by simp
    from u(4) have "entries_count u \<le> entries_count t" by simp
    from insert_impl_enough [OF u(1) insert_depth_enough [OF u(1) this], of k v, folded e] u(2,3)
    show "\<exists>w. hash_table_insert_impl (entries_count t + 3) u k v = Some (w, hash_table_lookup u k) \<and>
        ht_inv w \<and> ht_map w = (ht_map u)(k \<mapsto> v) \<and> load_factor w = load_factor t \<and>
        c \<le> entries_cap w \<and> entries_count w = entries_count u + (if ht_map u k = None then 1 else 0)"
      by (metis order_trans)
  qed
  from rehash_with_correct [OF inv c this] show ?thesis
    by (auto simp: hash_table_rehash_def)
qed

section \<open>The contract\<close>

text \<open>A map from strings to pointers, as the clients of the table see it: \<open>insert\<close> and \<open>delete\<close>
  return the previous pointer.\<close>

locale string_map =
  fixes invar :: "'t \<Rightarrow> bool"
    and lookup :: "'t \<Rightarrow> string \<Rightarrow> 'v option"
    and contains :: "'t \<Rightarrow> string \<Rightarrow> bool"
    and insert :: "'t \<Rightarrow> string \<Rightarrow> 'v option \<Rightarrow> 't \<times> 'v option"
    and delete :: "'t \<Rightarrow> string \<Rightarrow> 't \<times> 'v option"
    and abs :: "'t \<Rightarrow> string \<Rightarrow> 'v option option"
  assumes lookup_abs: "invar t \<Longrightarrow> lookup t k = (case abs t k of None \<Rightarrow> None | Some d \<Rightarrow> d)"
    and contains_abs: "invar t \<Longrightarrow> contains t k \<longleftrightarrow> abs t k \<noteq> None"
    and insert_abs: "invar t \<Longrightarrow> abs (fst (insert t k v)) = (abs t)(k \<mapsto> v)"
    and insert_invar: "invar t \<Longrightarrow> invar (fst (insert t k v))"
    and insert_old: "invar t \<Longrightarrow> snd (insert t k v) = lookup t k"
    and delete_abs: "invar t \<Longrightarrow> abs (fst (delete t k)) = (abs t)(k := None)"
    and delete_invar: "invar t \<Longrightarrow> invar (fst (delete t k))"
    and delete_old: "invar t \<Longrightarrow> snd (delete t k) = lookup t k"
begin

lemma lookup_insert:
  "invar t \<Longrightarrow> lookup (fst (insert t k v)) k' = (if k' = k then v else lookup t k')"
  by (simp add: lookup_abs insert_abs insert_invar)

lemma contains_insert:
  "invar t \<Longrightarrow> contains (fst (insert t k v)) k' \<longleftrightarrow> k' = k \<or> contains t k'"
  by (simp add: contains_abs insert_abs insert_invar)

lemma lookup_delete:
  "invar t \<Longrightarrow> lookup (fst (delete t k)) k' = (if k' = k then None else lookup t k')"
  by (simp add: lookup_abs delete_abs delete_invar)

lemma contains_delete:
  "invar t \<Longrightarrow> contains (fst (delete t k)) k' \<longleftrightarrow> k' \<noteq> k \<and> contains t k'"
  by (simp add: contains_abs delete_abs delete_invar)

text \<open>Any sequence of insertions: the last one of a key wins.\<close>

lemma insert_list:
  assumes "invar t"
  shows "invar (fold (\<lambda>(k, v) t. fst (insert t k v)) kvs t) \<and>
    abs (fold (\<lambda>(k, v) t. fst (insert t k v)) kvs t) = abs t ++ map_of (rev kvs)"
  using assms
proof (induction kvs arbitrary: t)
  case (Cons kv kvs)
  obtain k v where kv: "kv = (k, v)" by (cases kv)
  from Cons.IH [OF insert_invar [OF Cons.prems], of k v] Cons.prems show ?case
    by (auto simp: kv insert_abs fun_upd_def map_add_def fun_eq_iff split: option.splits)
qed simp

end

interpretation ht: string_map ht_inv hash_table_lookup hash_table_contains hash_table_insert
  hash_table_delete ht_map
  by unfold_locales
    (simp_all add: table_simps hash_table_insert_correct hash_table_delete_correct)

section \<open>Properties\<close>

text \<open>A run of the table against a run of the map it stands for.\<close>

datatype 'v ht_op = Insert string "'v option" | Delete string | Reserve nat

fun ht_step :: "'v ht_op \<Rightarrow> 'v string_hash_table \<Rightarrow> 'v string_hash_table" where
  "ht_step (Insert k v) t = fst (hash_table_insert t k v)"
| "ht_step (Delete k) t = fst (hash_table_delete t k)"
| "ht_step (Reserve n) t = hash_table_reserve t n"

fun map_step :: "'v ht_op \<Rightarrow> (string \<Rightarrow> 'v option option) \<Rightarrow> (string \<Rightarrow> 'v option option)" where
  "map_step (Insert k v) m = m(k \<mapsto> v)"
| "map_step (Delete k) m = m(k := None)"
| "map_step (Reserve n) m = m"

lemma ht_step_simulates:
  assumes "ht_inv t"
  shows "ht_inv (ht_step op t) \<and> ht_map (ht_step op t) = map_step op (ht_map t)"
  using assms
  by (cases op) (simp_all add: ht.insert_invar ht.insert_abs ht.delete_invar ht.delete_abs
      hash_table_reserve_def hash_table_rehash_correct)

lemma ht_run_simulates:
  "ht_inv t \<Longrightarrow> ht_inv (fold ht_step ops t) \<and> ht_map (fold ht_step ops t) = fold map_step ops (ht_map t)"
proof (induction ops arbitrary: t)
  case (Cons op ops)
  from ht_step_simulates [OF Cons.prems, of op] Cons.IH [of "ht_step op t"] show ?case by simp
qed simp

lemma entries_count_card:
  assumes inv: "ht_inv t"
  shows "entries_count t = card (dom (ht_map t))"
proof -
  have "card (dom (ht_map t)) = card (set (map fst (all_bindings t)))"
    by (simp add: ht_map_def dom_map_of_conv_image_fst)
  also have "\<dots> = length (all_bindings t)"
    using distinct_card [OF all_bindings_distinct [OF inv]] by simp
  finally show ?thesis using ht_invD(4) [OF inv] by simp
qed

text \<open>C3: starting from \<open>make_hash_table\<close> with a positive capacity and a load factor of at least
  one half (every table of the VM uses 0.75), after any sequence of insertions, deletions
  and reservations - with all the rehashing they cause - a lookup returns exactly what the
  abstract map holds, \<open>contains\<close> tells exactly its keys, and \<open>entries_count\<close> is the number of keys.\<close>

theorem hash_table_refines_map:
  fixes t :: "'v string_hash_table"
  assumes "0 < c" and "1 / 2 \<le> lf"
    and t: "t = fold ht_step ops (make_hash_table lf c)" and m: "m = fold map_step ops Map.empty"
  shows "hash_table_lookup t k = (case m k of None \<Rightarrow> None | Some d \<Rightarrow> d) \<and>
    (hash_table_contains t k \<longleftrightarrow> m k \<noteq> None) \<and> entries_count t = card (dom m)"
proof -
  have "ht_inv t \<and> ht_map t = m"
    using ht_run_simulates [OF make_hash_table_inv(1) [OF assms(1,2)], of ops]
    by (simp add: t m make_hash_table_inv(2) [OF assms(1,2)])
  then show ?thesis
    using ht.lookup_abs [of t k] ht.contains_abs [of t k] entries_count_card [of t] by simp
qed

theorem hash_table_refines_map_witness:
  "hash_table_lookup (fold ht_step [Insert ''a'' (Some (1::nat)), Insert ''b'' None, Delete ''a'']
     (make_hash_table (3 / 4) 1)) ''a'' = None \<and>
   hash_table_contains (fold ht_step [Insert ''a'' (Some (1::nat)), Insert ''b'' None, Delete ''a'']
     (make_hash_table (3 / 4) 1)) ''b''"
  using hash_table_refines_map [of 1 "3 / 4", OF _ _ refl refl,
      of "[Insert ''a'' (Some (1::nat)), Insert ''b'' None, Delete ''a'']" "''a''"]
    hash_table_refines_map [of 1 "3 / 4", OF _ _ refl refl,
      of "[Insert ''a'' (Some (1::nat)), Insert ''b'' None, Delete ''a'']" "''b''"]
  by simp

text \<open>C23: the iterator of a well-formed table yields every binding of the map exactly once and
  nothing else: the keys it yields are distinct and their pairs are the graph of the map.\<close>

theorem iterator_visits_all:
  assumes inv: "ht_inv t"
    and es: "es = iter_collect t (hash_table_get_iterator t)"
  shows "distinct (map ekey es) \<and>
    (ht_map t k = Some d \<longleftrightarrow> (\<exists>e \<in> set es. ekey e = Some k \<and> edata e = d))"
proof -
  have es': "es = keyed (concat (ht_entries t))" using es iter_collect_all [OF inv] by simp
  have ab: "all_bindings t = map (\<lambda>e. (the (ekey e), edata e)) es"
    unfolding es' by (rule all_bindings_keyed)
  have nn: "None \<notin> set (map ekey es)" by (auto simp: es' keyed_def)
  have d: "distinct (map fst (all_bindings t))" by (rule all_bindings_distinct [OF inv])
  then have "distinct (map the (map ekey es))" by (simp add: ab comp_def)
  then have "distinct (map ekey es)" using distinct_map by blast
  moreover have "ht_map t k = Some d \<longleftrightarrow> (k, d) \<in> set (all_bindings t)"
    using d by (simp add: ht_map_def)
  moreover have "(k, d) \<in> set (all_bindings t) \<longleftrightarrow> (\<exists>e \<in> set es. ekey e = Some k \<and> edata e = d)"
    using nn by (auto simp: ab image_iff) (metis option.collapse, metis option.sel)
  ultimately show ?thesis by blast
qed

theorem iterator_visits_all_witness:
  "\<exists>t :: nat string_hash_table. ht_inv t \<and> ht_map t ''a'' = Some (Some 1) \<and>
     (\<exists>e \<in> set (iter_collect t (hash_table_get_iterator t)). ekey e = Some ''a'' \<and> edata e = Some 1)"
proof -
  let ?t = "fst (hash_table_insert (make_hash_table (3 / 4) 16) ''a'' (Some (1::nat)))"
  have inv: "ht_inv ?t" and m: "ht_map ?t ''a'' = Some (Some 1)"
    by (simp_all add: ht.insert_invar ht.insert_abs make_hash_table_inv)
  from iterator_visits_all [OF inv refl, of "''a''" "Some 1"] inv m show ?thesis by blast
qed

text \<open>\<open>hash_table_reserve\<close> is meant to make room for the given number of entries, but it
  multiplies by the load factor where it should divide: with the load factor 0.75 that every
  table uses, a table of the reserved capacity has to rehash before it holds the \<open>n\<close> entries
  it was reserved for, for every \<open>n\<close> from 4 on.\<close>

theorem reserve_too_small:
  fixes t :: "'v string_hash_table"
  assumes "4 \<le> n" and t: "t = hash_table_reserve (make_hash_table (3 / 4) 1) n"
    and u: "entries_cap u = entries_cap t" "load_factor u = load_factor t" "entries_count u = n - 1"
  shows "must_rehash u"
proof -
  let ?e = "make_hash_table (3 / 4) 1 :: 'v string_hash_table"
  have "iter_collect ?e (hash_table_get_iterator ?e) = keyed (concat (ht_entries ?e))"
    by (intro iter_collect_all make_hash_table_inv(1)) simp_all
  also have "\<dots> = []"
    by (simp add: make_hash_table_def empty_entry_def keyed_def)
  finally have te: "t = make_hash_table (3 / 4) (nat \<lfloor>of_nat n * (3 / 4 :: rat)\<rfloor> + 2)"
    unfolding t hash_table_reserve_def hash_table_rehash_def rehash_with_def
    by (simp add: make_hash_table_def)
  have lf: "load_factor u = 3 / 4" and cap: "(of_nat (entries_cap u) :: rat) = of_nat (nat \<lfloor>of_nat n * (3 / 4 :: rat)\<rfloor>) + 2"
    using u te by (simp_all add: make_hash_table_def)
  have "of_nat (nat \<lfloor>of_nat n * (3 / 4 :: rat)\<rfloor>) \<le> of_nat n * (3 / 4 :: rat)"
    using of_int_floor_le [of "of_nat n * (3 / 4 :: rat)"] by (simp add: of_nat_nat)
  moreover have "(of_nat (n - 1) :: rat) + 1 = of_nat n" using assms(1) by (simp add: of_nat_diff)
  moreover have "(4 :: rat) \<le> of_nat n" using assms(1) by (metis of_nat_le_iff of_nat_numeral)
  moreover have "3 / 4 * (x + 2) \<le> y" if "x \<le> y * (3 / 4)" "4 \<le> y" for x y :: rat
    using that by (simp add: field_simps)
  ultimately show ?thesis
    unfolding must_rehash_def lf cap u(3) by presburger
qed

theorem reserve_too_small_witness:
  "must_rehash ((hash_table_reserve (make_hash_table (3 / 4) 1) 100 :: nat string_hash_table)\<lparr>entries_count := 99\<rparr>)"
  by (rule reserve_too_small [of 100, OF _ refl]) simp_all

end
