(* ===== verification/Classfile_Types.thy ===== *)
theory Classfile_Types
  imports Util
begin

unbundle bit_operations_syntax

text \<open>
  The data model of \<open>vm/classfile.h\<close>: type kinds, instruction codes, constant-pool entries,
  instructions, attributes, fields, methods and the class descriptor as the class-file
  parser fills it. A pointer into the constant pool (\<open>cp_entry *\<close>, \<open>cp_class_info *\<close>,
  \<open>cp_name_and_type *\<close>) is the index of the entry it points into, a pointer into an
  attribute array the index in that array; null pointers are \<open>None\<close>. Fields the parser never
  writes (inline caches, resolved methods, mirrors) belong to the interpreter and are absent.
\<close>

section \<open>Instruction codes\<close>

text \<open>The enumeration is represented by its numeric codes because the source relies on their
  order (\<open>insn->kind >= insn_goto && insn->kind <= insn_ifnull\<close> are the branches).\<close>

type_synonym insn_code_kind = nat

abbreviation (input) insn_nop :: insn_code_kind where "insn_nop \<equiv> 0"
abbreviation (input) insn_aaload :: insn_code_kind where "insn_aaload \<equiv> 1"
abbreviation (input) insn_aastore :: insn_code_kind where "insn_aastore \<equiv> 2"
abbreviation (input) insn_aconst_null :: insn_code_kind where "insn_aconst_null \<equiv> 3"
abbreviation (input) insn_areturn :: insn_code_kind where "insn_areturn \<equiv> 4"
abbreviation (input) insn_arraylength :: insn_code_kind where "insn_arraylength \<equiv> 5"
abbreviation (input) insn_athrow :: insn_code_kind where "insn_athrow \<equiv> 6"
abbreviation (input) insn_baload :: insn_code_kind where "insn_baload \<equiv> 7"
abbreviation (input) insn_bastore :: insn_code_kind where "insn_bastore \<equiv> 8"
abbreviation (input) insn_caload :: insn_code_kind where "insn_caload \<equiv> 9"
abbreviation (input) insn_castore :: insn_code_kind where "insn_castore \<equiv> 10"
abbreviation (input) insn_d2f :: insn_code_kind where "insn_d2f \<equiv> 11"
abbreviation (input) insn_d2i :: insn_code_kind where "insn_d2i \<equiv> 12"
abbreviation (input) insn_d2l :: insn_code_kind where "insn_d2l \<equiv> 13"
abbreviation (input) insn_dadd :: insn_code_kind where "insn_dadd \<equiv> 14"
abbreviation (input) insn_daload :: insn_code_kind where "insn_daload \<equiv> 15"
abbreviation (input) insn_dastore :: insn_code_kind where "insn_dastore \<equiv> 16"
abbreviation (input) insn_dcmpg :: insn_code_kind where "insn_dcmpg \<equiv> 17"
abbreviation (input) insn_dcmpl :: insn_code_kind where "insn_dcmpl \<equiv> 18"
abbreviation (input) insn_ddiv :: insn_code_kind where "insn_ddiv \<equiv> 19"
abbreviation (input) insn_dmul :: insn_code_kind where "insn_dmul \<equiv> 20"
abbreviation (input) insn_dneg :: insn_code_kind where "insn_dneg \<equiv> 21"
abbreviation (input) insn_drem :: insn_code_kind where "insn_drem \<equiv> 22"
abbreviation (input) insn_dreturn :: insn_code_kind where "insn_dreturn \<equiv> 23"
abbreviation (input) insn_dsub :: insn_code_kind where "insn_dsub \<equiv> 24"
abbreviation (input) insn_dup :: insn_code_kind where "insn_dup \<equiv> 25"
abbreviation (input) insn_dup_x1 :: insn_code_kind where "insn_dup_x1 \<equiv> 26"
abbreviation (input) insn_dup_x2 :: insn_code_kind where "insn_dup_x2 \<equiv> 27"
abbreviation (input) insn_dup2 :: insn_code_kind where "insn_dup2 \<equiv> 28"
abbreviation (input) insn_dup2_x1 :: insn_code_kind where "insn_dup2_x1 \<equiv> 29"
abbreviation (input) insn_dup2_x2 :: insn_code_kind where "insn_dup2_x2 \<equiv> 30"
abbreviation (input) insn_f2d :: insn_code_kind where "insn_f2d \<equiv> 31"
abbreviation (input) insn_f2i :: insn_code_kind where "insn_f2i \<equiv> 32"
abbreviation (input) insn_f2l :: insn_code_kind where "insn_f2l \<equiv> 33"
abbreviation (input) insn_fadd :: insn_code_kind where "insn_fadd \<equiv> 34"
abbreviation (input) insn_faload :: insn_code_kind where "insn_faload \<equiv> 35"
abbreviation (input) insn_fastore :: insn_code_kind where "insn_fastore \<equiv> 36"
abbreviation (input) insn_fcmpg :: insn_code_kind where "insn_fcmpg \<equiv> 37"
abbreviation (input) insn_fcmpl :: insn_code_kind where "insn_fcmpl \<equiv> 38"
abbreviation (input) insn_fdiv :: insn_code_kind where "insn_fdiv \<equiv> 39"
abbreviation (input) insn_fmul :: insn_code_kind where "insn_fmul \<equiv> 40"
abbreviation (input) insn_fneg :: insn_code_kind where "insn_fneg \<equiv> 41"
abbreviation (input) insn_frem :: insn_code_kind where "insn_frem \<equiv> 42"
abbreviation (input) insn_freturn :: insn_code_kind where "insn_freturn \<equiv> 43"
abbreviation (input) insn_fsub :: insn_code_kind where "insn_fsub \<equiv> 44"
abbreviation (input) insn_i2b :: insn_code_kind where "insn_i2b \<equiv> 45"
abbreviation (input) insn_i2c :: insn_code_kind where "insn_i2c \<equiv> 46"
abbreviation (input) insn_i2d :: insn_code_kind where "insn_i2d \<equiv> 47"
abbreviation (input) insn_i2f :: insn_code_kind where "insn_i2f \<equiv> 48"
abbreviation (input) insn_i2l :: insn_code_kind where "insn_i2l \<equiv> 49"
abbreviation (input) insn_i2s :: insn_code_kind where "insn_i2s \<equiv> 50"
abbreviation (input) insn_iadd :: insn_code_kind where "insn_iadd \<equiv> 51"
abbreviation (input) insn_iaload :: insn_code_kind where "insn_iaload \<equiv> 52"
abbreviation (input) insn_iand :: insn_code_kind where "insn_iand \<equiv> 53"
abbreviation (input) insn_iastore :: insn_code_kind where "insn_iastore \<equiv> 54"
abbreviation (input) insn_idiv :: insn_code_kind where "insn_idiv \<equiv> 55"
abbreviation (input) insn_imul :: insn_code_kind where "insn_imul \<equiv> 56"
abbreviation (input) insn_ineg :: insn_code_kind where "insn_ineg \<equiv> 57"
abbreviation (input) insn_ior :: insn_code_kind where "insn_ior \<equiv> 58"
abbreviation (input) insn_irem :: insn_code_kind where "insn_irem \<equiv> 59"
abbreviation (input) insn_ireturn :: insn_code_kind where "insn_ireturn \<equiv> 60"
abbreviation (input) insn_ishl :: insn_code_kind where "insn_ishl \<equiv> 61"
abbreviation (input) insn_ishr :: insn_code_kind where "insn_ishr \<equiv> 62"
abbreviation (input) insn_isub :: insn_code_kind where "insn_isub \<equiv> 63"
abbreviation (input) insn_iushr :: insn_code_kind where "insn_iushr \<equiv> 64"
abbreviation (input) insn_ixor :: insn_code_kind where "insn_ixor \<equiv> 65"
abbreviation (input) insn_l2d :: insn_code_kind where "insn_l2d \<equiv> 66"
abbreviation (input) insn_l2f :: insn_code_kind where "insn_l2f \<equiv> 67"
abbreviation (input) insn_l2i :: insn_code_kind where "insn_l2i \<equiv> 68"
abbreviation (input) insn_ladd :: insn_code_kind where "insn_ladd \<equiv> 69"
abbreviation (input) insn_laload :: insn_code_kind where "insn_laload \<equiv> 70"
abbreviation (input) insn_land :: insn_code_kind where "insn_land \<equiv> 71"
abbreviation (input) insn_lastore :: insn_code_kind where "insn_lastore \<equiv> 72"
abbreviation (input) insn_lcmp :: insn_code_kind where "insn_lcmp \<equiv> 73"
abbreviation (input) insn_ldiv :: insn_code_kind where "insn_ldiv \<equiv> 74"
abbreviation (input) insn_lmul :: insn_code_kind where "insn_lmul \<equiv> 75"
abbreviation (input) insn_lneg :: insn_code_kind where "insn_lneg \<equiv> 76"
abbreviation (input) insn_lor :: insn_code_kind where "insn_lor \<equiv> 77"
abbreviation (input) insn_lrem :: insn_code_kind where "insn_lrem \<equiv> 78"
abbreviation (input) insn_lreturn :: insn_code_kind where "insn_lreturn \<equiv> 79"
abbreviation (input) insn_lshl :: insn_code_kind where "insn_lshl \<equiv> 80"
abbreviation (input) insn_lshr :: insn_code_kind where "insn_lshr \<equiv> 81"
abbreviation (input) insn_lsub :: insn_code_kind where "insn_lsub \<equiv> 82"
abbreviation (input) insn_lushr :: insn_code_kind where "insn_lushr \<equiv> 83"
abbreviation (input) insn_lxor :: insn_code_kind where "insn_lxor \<equiv> 84"
abbreviation (input) insn_monitorenter :: insn_code_kind where "insn_monitorenter \<equiv> 85"
abbreviation (input) insn_monitorexit :: insn_code_kind where "insn_monitorexit \<equiv> 86"
abbreviation (input) insn_pop :: insn_code_kind where "insn_pop \<equiv> 87"
abbreviation (input) insn_pop2 :: insn_code_kind where "insn_pop2 \<equiv> 88"
abbreviation (input) insn_return :: insn_code_kind where "insn_return \<equiv> 89"
abbreviation (input) insn_saload :: insn_code_kind where "insn_saload \<equiv> 90"
abbreviation (input) insn_sastore :: insn_code_kind where "insn_sastore \<equiv> 91"
abbreviation (input) insn_swap :: insn_code_kind where "insn_swap \<equiv> 92"
abbreviation (input) insn_anewarray :: insn_code_kind where "insn_anewarray \<equiv> 93"
abbreviation (input) insn_checkcast :: insn_code_kind where "insn_checkcast \<equiv> 94"
abbreviation (input) insn_getfield :: insn_code_kind where "insn_getfield \<equiv> 95"
abbreviation (input) insn_getstatic :: insn_code_kind where "insn_getstatic \<equiv> 96"
abbreviation (input) insn_instanceof :: insn_code_kind where "insn_instanceof \<equiv> 97"
abbreviation (input) insn_invokedynamic :: insn_code_kind where "insn_invokedynamic \<equiv> 98"
abbreviation (input) insn_new :: insn_code_kind where "insn_new \<equiv> 99"
abbreviation (input) insn_putfield :: insn_code_kind where "insn_putfield \<equiv> 100"
abbreviation (input) insn_putstatic :: insn_code_kind where "insn_putstatic \<equiv> 101"
abbreviation (input) insn_invokevirtual :: insn_code_kind where "insn_invokevirtual \<equiv> 102"
abbreviation (input) insn_invokespecial :: insn_code_kind where "insn_invokespecial \<equiv> 103"
abbreviation (input) insn_invokestatic :: insn_code_kind where "insn_invokestatic \<equiv> 104"
abbreviation (input) insn_ldc :: insn_code_kind where "insn_ldc \<equiv> 105"
abbreviation (input) insn_dload :: insn_code_kind where "insn_dload \<equiv> 106"
abbreviation (input) insn_fload :: insn_code_kind where "insn_fload \<equiv> 107"
abbreviation (input) insn_iload :: insn_code_kind where "insn_iload \<equiv> 108"
abbreviation (input) insn_lload :: insn_code_kind where "insn_lload \<equiv> 109"
abbreviation (input) insn_dstore :: insn_code_kind where "insn_dstore \<equiv> 110"
abbreviation (input) insn_fstore :: insn_code_kind where "insn_fstore \<equiv> 111"
abbreviation (input) insn_istore :: insn_code_kind where "insn_istore \<equiv> 112"
abbreviation (input) insn_lstore :: insn_code_kind where "insn_lstore \<equiv> 113"
abbreviation (input) insn_aload :: insn_code_kind where "insn_aload \<equiv> 114"
abbreviation (input) insn_astore :: insn_code_kind where "insn_astore \<equiv> 115"
abbreviation (input) insn_goto :: insn_code_kind where "insn_goto \<equiv> 116"
abbreviation (input) insn_jsr :: insn_code_kind where "insn_jsr \<equiv> 117"
abbreviation (input) insn_if_acmpeq :: insn_code_kind where "insn_if_acmpeq \<equiv> 118"
abbreviation (input) insn_if_acmpne :: insn_code_kind where "insn_if_acmpne \<equiv> 119"
abbreviation (input) insn_if_icmpeq :: insn_code_kind where "insn_if_icmpeq \<equiv> 120"
abbreviation (input) insn_if_icmpne :: insn_code_kind where "insn_if_icmpne \<equiv> 121"
abbreviation (input) insn_if_icmplt :: insn_code_kind where "insn_if_icmplt \<equiv> 122"
abbreviation (input) insn_if_icmpge :: insn_code_kind where "insn_if_icmpge \<equiv> 123"
abbreviation (input) insn_if_icmpgt :: insn_code_kind where "insn_if_icmpgt \<equiv> 124"
abbreviation (input) insn_if_icmple :: insn_code_kind where "insn_if_icmple \<equiv> 125"
abbreviation (input) insn_ifeq :: insn_code_kind where "insn_ifeq \<equiv> 126"
abbreviation (input) insn_ifne :: insn_code_kind where "insn_ifne \<equiv> 127"
abbreviation (input) insn_iflt :: insn_code_kind where "insn_iflt \<equiv> 128"
abbreviation (input) insn_ifge :: insn_code_kind where "insn_ifge \<equiv> 129"
abbreviation (input) insn_ifgt :: insn_code_kind where "insn_ifgt \<equiv> 130"
abbreviation (input) insn_ifle :: insn_code_kind where "insn_ifle \<equiv> 131"
abbreviation (input) insn_ifnonnull :: insn_code_kind where "insn_ifnonnull \<equiv> 132"
abbreviation (input) insn_ifnull :: insn_code_kind where "insn_ifnull \<equiv> 133"
abbreviation (input) insn_iconst :: insn_code_kind where "insn_iconst \<equiv> 134"
abbreviation (input) insn_dconst :: insn_code_kind where "insn_dconst \<equiv> 135"
abbreviation (input) insn_fconst :: insn_code_kind where "insn_fconst \<equiv> 136"
abbreviation (input) insn_lconst :: insn_code_kind where "insn_lconst \<equiv> 137"
abbreviation (input) insn_iinc :: insn_code_kind where "insn_iinc \<equiv> 138"
abbreviation (input) insn_invokeinterface :: insn_code_kind where "insn_invokeinterface \<equiv> 139"
abbreviation (input) insn_multianewarray :: insn_code_kind where "insn_multianewarray \<equiv> 140"
abbreviation (input) insn_newarray :: insn_code_kind where "insn_newarray \<equiv> 141"
abbreviation (input) insn_tableswitch :: insn_code_kind where "insn_tableswitch \<equiv> 142"
abbreviation (input) insn_lookupswitch :: insn_code_kind where "insn_lookupswitch \<equiv> 143"
abbreviation (input) insn_ret :: insn_code_kind where "insn_ret \<equiv> 144"
abbreviation (input) insn_anewarray_resolved :: insn_code_kind where "insn_anewarray_resolved \<equiv> 145"
abbreviation (input) insn_checkcast_resolved :: insn_code_kind where "insn_checkcast_resolved \<equiv> 146"
abbreviation (input) insn_instanceof_resolved :: insn_code_kind where "insn_instanceof_resolved \<equiv> 147"
abbreviation (input) insn_new_resolved :: insn_code_kind where "insn_new_resolved \<equiv> 148"
abbreviation (input) insn_invokevtable_monomorphic :: insn_code_kind where "insn_invokevtable_monomorphic \<equiv> 149"
abbreviation (input) insn_invokevtable_polymorphic :: insn_code_kind where "insn_invokevtable_polymorphic \<equiv> 150"
abbreviation (input) insn_invokeitable_monomorphic :: insn_code_kind where "insn_invokeitable_monomorphic \<equiv> 151"
abbreviation (input) insn_invokeitable_polymorphic :: insn_code_kind where "insn_invokeitable_polymorphic \<equiv> 152"
abbreviation (input) insn_invokespecial_resolved :: insn_code_kind where "insn_invokespecial_resolved \<equiv> 153"
abbreviation (input) insn_invokestatic_resolved :: insn_code_kind where "insn_invokestatic_resolved \<equiv> 154"
abbreviation (input) insn_invokecallsite :: insn_code_kind where "insn_invokecallsite \<equiv> 155"
abbreviation (input) insn_invokesigpoly :: insn_code_kind where "insn_invokesigpoly \<equiv> 156"
abbreviation (input) insn_getfield_B :: insn_code_kind where "insn_getfield_B \<equiv> 157"
abbreviation (input) insn_getfield_C :: insn_code_kind where "insn_getfield_C \<equiv> 158"
abbreviation (input) insn_getfield_S :: insn_code_kind where "insn_getfield_S \<equiv> 159"
abbreviation (input) insn_getfield_I :: insn_code_kind where "insn_getfield_I \<equiv> 160"
abbreviation (input) insn_getfield_J :: insn_code_kind where "insn_getfield_J \<equiv> 161"
abbreviation (input) insn_getfield_F :: insn_code_kind where "insn_getfield_F \<equiv> 162"
abbreviation (input) insn_getfield_D :: insn_code_kind where "insn_getfield_D \<equiv> 163"
abbreviation (input) insn_getfield_Z :: insn_code_kind where "insn_getfield_Z \<equiv> 164"
abbreviation (input) insn_getfield_L :: insn_code_kind where "insn_getfield_L \<equiv> 165"
abbreviation (input) insn_putfield_B :: insn_code_kind where "insn_putfield_B \<equiv> 166"
abbreviation (input) insn_putfield_C :: insn_code_kind where "insn_putfield_C \<equiv> 167"
abbreviation (input) insn_putfield_S :: insn_code_kind where "insn_putfield_S \<equiv> 168"
abbreviation (input) insn_putfield_I :: insn_code_kind where "insn_putfield_I \<equiv> 169"
abbreviation (input) insn_putfield_J :: insn_code_kind where "insn_putfield_J \<equiv> 170"
abbreviation (input) insn_putfield_F :: insn_code_kind where "insn_putfield_F \<equiv> 171"
abbreviation (input) insn_putfield_D :: insn_code_kind where "insn_putfield_D \<equiv> 172"
abbreviation (input) insn_putfield_Z :: insn_code_kind where "insn_putfield_Z \<equiv> 173"
abbreviation (input) insn_putfield_L :: insn_code_kind where "insn_putfield_L \<equiv> 174"
abbreviation (input) insn_getstatic_B :: insn_code_kind where "insn_getstatic_B \<equiv> 175"
abbreviation (input) insn_getstatic_C :: insn_code_kind where "insn_getstatic_C \<equiv> 176"
abbreviation (input) insn_getstatic_S :: insn_code_kind where "insn_getstatic_S \<equiv> 177"
abbreviation (input) insn_getstatic_I :: insn_code_kind where "insn_getstatic_I \<equiv> 178"
abbreviation (input) insn_getstatic_J :: insn_code_kind where "insn_getstatic_J \<equiv> 179"
abbreviation (input) insn_getstatic_F :: insn_code_kind where "insn_getstatic_F \<equiv> 180"
abbreviation (input) insn_getstatic_D :: insn_code_kind where "insn_getstatic_D \<equiv> 181"
abbreviation (input) insn_getstatic_Z :: insn_code_kind where "insn_getstatic_Z \<equiv> 182"
abbreviation (input) insn_getstatic_L :: insn_code_kind where "insn_getstatic_L \<equiv> 183"
abbreviation (input) insn_putstatic_B :: insn_code_kind where "insn_putstatic_B \<equiv> 184"
abbreviation (input) insn_putstatic_C :: insn_code_kind where "insn_putstatic_C \<equiv> 185"
abbreviation (input) insn_putstatic_S :: insn_code_kind where "insn_putstatic_S \<equiv> 186"
abbreviation (input) insn_putstatic_I :: insn_code_kind where "insn_putstatic_I \<equiv> 187"
abbreviation (input) insn_putstatic_J :: insn_code_kind where "insn_putstatic_J \<equiv> 188"
abbreviation (input) insn_putstatic_F :: insn_code_kind where "insn_putstatic_F \<equiv> 189"
abbreviation (input) insn_putstatic_D :: insn_code_kind where "insn_putstatic_D \<equiv> 190"
abbreviation (input) insn_putstatic_Z :: insn_code_kind where "insn_putstatic_Z \<equiv> 191"
abbreviation (input) insn_putstatic_L :: insn_code_kind where "insn_putstatic_L \<equiv> 192"
abbreviation (input) insn_pow :: insn_code_kind where "insn_pow \<equiv> 193"
abbreviation (input) insn_sin :: insn_code_kind where "insn_sin \<equiv> 194"
abbreviation (input) insn_cos :: insn_code_kind where "insn_cos \<equiv> 195"
abbreviation (input) insn_tan :: insn_code_kind where "insn_tan \<equiv> 196"
abbreviation (input) insn_sqrt :: insn_code_kind where "insn_sqrt \<equiv> 197"

abbreviation (input) MAX_INSN_KIND :: nat where "MAX_INSN_KIND \<equiv> insn_sqrt + 1"

section \<open>Kinds\<close>

datatype type_kind =
    TYPE_KIND_BOOLEAN | TYPE_KIND_CHAR | TYPE_KIND_FLOAT | TYPE_KIND_DOUBLE | TYPE_KIND_BYTE
  | TYPE_KIND_SHORT | TYPE_KIND_INT | TYPE_KIND_LONG | TYPE_KIND_VOID | TYPE_KIND_REFERENCE

datatype classdesc_state =
    CD_STATE_LINKAGE_ERROR | CD_STATE_LOADED | CD_STATE_LINKED
  | CD_STATE_INITIALIZING | CD_STATE_INITIALIZED

abbreviation (input) CP_KIND_INVALID :: u32 where "CP_KIND_INVALID \<equiv> 0"
abbreviation (input) CP_KIND_UTF8 :: u32 where "CP_KIND_UTF8 \<equiv> 0x1"
abbreviation (input) CP_KIND_INTEGER :: u32 where "CP_KIND_INTEGER \<equiv> 0x2"
abbreviation (input) CP_KIND_FLOAT :: u32 where "CP_KIND_FLOAT \<equiv> 0x4"
abbreviation (input) CP_KIND_LONG :: u32 where "CP_KIND_LONG \<equiv> 0x8"
abbreviation (input) CP_KIND_DOUBLE :: u32 where "CP_KIND_DOUBLE \<equiv> 0x10"
abbreviation (input) CP_KIND_CLASS :: u32 where "CP_KIND_CLASS \<equiv> 0x20"
abbreviation (input) CP_KIND_STRING :: u32 where "CP_KIND_STRING \<equiv> 0x40"
abbreviation (input) CP_KIND_FIELD_REF :: u32 where "CP_KIND_FIELD_REF \<equiv> 0x80"
abbreviation (input) CP_KIND_METHOD_REF :: u32 where "CP_KIND_METHOD_REF \<equiv> 0x100"
abbreviation (input) CP_KIND_INTERFACE_METHOD_REF :: u32 where "CP_KIND_INTERFACE_METHOD_REF \<equiv> 0x200"
abbreviation (input) CP_KIND_NAME_AND_TYPE :: u32 where "CP_KIND_NAME_AND_TYPE \<equiv> 0x400"
abbreviation (input) CP_KIND_METHOD_HANDLE :: u32 where "CP_KIND_METHOD_HANDLE \<equiv> 0x800"
abbreviation (input) CP_KIND_METHOD_TYPE :: u32 where "CP_KIND_METHOD_TYPE \<equiv> 0x1000"
abbreviation (input) CP_KIND_INVOKE_DYNAMIC :: u32 where "CP_KIND_INVOKE_DYNAMIC \<equiv> 0x2000"
abbreviation (input) CP_KIND_DYNAMIC_CONSTANT :: u32 where "CP_KIND_DYNAMIC_CONSTANT \<equiv> 0x4000"
abbreviation (input) CP_KIND_MODULE :: u32 where "CP_KIND_MODULE \<equiv> 0x8000"
abbreviation (input) CP_KIND_PACKAGE :: u32 where "CP_KIND_PACKAGE \<equiv> 0x10000"
abbreviation (input) CP_KIND_LAST :: u32 where "CP_KIND_LAST \<equiv> 0x10000"

abbreviation (input) ACCESS_PRIVATE :: u16 where "ACCESS_PRIVATE \<equiv> 0x0002"
abbreviation (input) ACCESS_STATIC :: u16 where "ACCESS_STATIC \<equiv> 0x0008"
abbreviation (input) ACCESS_FINAL :: u16 where "ACCESS_FINAL \<equiv> 0x0010"
abbreviation (input) ACCESS_SYNCHRONIZED :: u16 where "ACCESS_SYNCHRONIZED \<equiv> 0x0020"
abbreviation (input) ACCESS_NATIVE :: u16 where "ACCESS_NATIVE \<equiv> 0x0100"
abbreviation (input) ACCESS_INTERFACE :: u16 where "ACCESS_INTERFACE \<equiv> 0x0200"
abbreviation (input) ACCESS_ABSTRACT :: u16 where "ACCESS_ABSTRACT \<equiv> 0x0400"
abbreviation (input) ACCESS_MODULE :: u16 where "ACCESS_MODULE \<equiv> 0x8000"

datatype attribute_kind =
    ATTRIBUTE_KIND_CODE | ATTRIBUTE_KIND_CONSTANT_VALUE | ATTRIBUTE_KIND_UNKNOWN
  | ATTRIBUTE_KIND_BOOTSTRAP_METHODS | ATTRIBUTE_KIND_ENCLOSING_METHOD | ATTRIBUTE_KIND_SOURCE_FILE
  | ATTRIBUTE_KIND_LINE_NUMBER_TABLE | ATTRIBUTE_KIND_METHOD_PARAMETERS
  | ATTRIBUTE_KIND_RUNTIME_VISIBLE_ANNOTATIONS | ATTRIBUTE_KIND_SIGNATURE
  | ATTRIBUTE_KIND_RUNTIME_VISIBLE_PARAMETER_ANNOTATIONS
  | ATTRIBUTE_KIND_RUNTIME_VISIBLE_TYPE_ANNOTATIONS | ATTRIBUTE_KIND_ANNOTATION_DEFAULT
  | ATTRIBUTE_KIND_NEST_HOST | ATTRIBUTE_KIND_LOCAL_VARIABLE_TABLE | ATTRIBUTE_KIND_STACK_MAP_TABLE
  | ATTRIBUTE_KIND_INNER_CLASSES | ATTRIBUTE_KIND_PERMITTED_SUBCLASSES

section \<open>Descriptors\<close>

record field_descriptor =
  base_kind :: type_kind
  repr_kind :: type_kind
  dimensions :: nat
  class_name :: "slice option"
  unparsed :: slice

record method_descriptor =
  args :: "field_descriptor list"
  return_type :: field_descriptor

section \<open>Constant pool\<close>

text \<open>A float entry stores its value widened to a double. Widening is exact and narrowing it
  back (\<open>ldc\<close>) undoes it, so the bit pattern of the float stands for both; the quieting of a
  signalling NaN, which C leaves to the platform, is not represented.\<close>

datatype indy_method = Method_index u16 | Method_ptr nat

datatype cp_info =
    Cp_invalid
  | Cp_utf8 slice
  | Cp_integer int
  | Cp_float u32
  | Cp_long int
  | Cp_double u64
  | Cp_class slice
  | Cp_module slice
  | Cp_package slice
  | Cp_string slice
  | Cp_field_ref "nat option" "nat option" "field_descriptor option"
  | Cp_method_ref "nat option" "nat option" "method_descriptor option"
  | Cp_interface_method_ref "nat option" "nat option" "method_descriptor option"
  | Cp_name_and_type slice slice
  | Cp_method_handle u8 "nat option"
  | Cp_method_type slice "method_descriptor option"
  | Cp_invoke_dynamic indy_method "nat option" "method_descriptor option"
  | Cp_dynamic_constant indy_method "nat option" "method_descriptor option"

fun cp_kind_of :: "cp_info \<Rightarrow> u32" where
  "cp_kind_of Cp_invalid = CP_KIND_INVALID"
| "cp_kind_of (Cp_utf8 _) = CP_KIND_UTF8"
| "cp_kind_of (Cp_integer _) = CP_KIND_INTEGER"
| "cp_kind_of (Cp_float _) = CP_KIND_FLOAT"
| "cp_kind_of (Cp_long _) = CP_KIND_LONG"
| "cp_kind_of (Cp_double _) = CP_KIND_DOUBLE"
| "cp_kind_of (Cp_class _) = CP_KIND_CLASS"
| "cp_kind_of (Cp_module _) = CP_KIND_MODULE"
| "cp_kind_of (Cp_package _) = CP_KIND_PACKAGE"
| "cp_kind_of (Cp_string _) = CP_KIND_STRING"
| "cp_kind_of (Cp_field_ref _ _ _) = CP_KIND_FIELD_REF"
| "cp_kind_of (Cp_method_ref _ _ _) = CP_KIND_METHOD_REF"
| "cp_kind_of (Cp_interface_method_ref _ _ _) = CP_KIND_INTERFACE_METHOD_REF"
| "cp_kind_of (Cp_name_and_type _ _) = CP_KIND_NAME_AND_TYPE"
| "cp_kind_of (Cp_method_handle _ _) = CP_KIND_METHOD_HANDLE"
| "cp_kind_of (Cp_method_type _ _) = CP_KIND_METHOD_TYPE"
| "cp_kind_of (Cp_invoke_dynamic _ _ _) = CP_KIND_INVOKE_DYNAMIC"
| "cp_kind_of (Cp_dynamic_constant _ _ _) = CP_KIND_DYNAMIC_CONSTANT"

record cp_entry =
  my_index :: nat
  info :: cp_info

type_synonym constant_pool = "cp_entry list"

section \<open>Instructions\<close>

record tableswitch_data =
  ts_default_target :: int
  ts_low :: int
  ts_high :: int
  ts_targets :: "int list"

record lookupswitch_data =
  ls_default_target :: int
  ls_keys :: "int list"
  ls_targets :: "int list"

text \<open>The immediate of an instruction: the member of the anonymous union that is set.\<close>

datatype insn_operand =
    No_operand
  | Array_type type_kind
  | Index u32
  | Integer_imm int
  | F_imm u32
  | D_imm u64
  | Lookupswitch lookupswitch_data
  | Tableswitch tableswitch_data
  | Iinc u16 int
  | Multianewarray nat u8
  | Cp nat

record bytecode_insn =
  kind :: insn_code_kind
  original_pc :: u16
  operand :: insn_operand

section \<open>Attributes\<close>

record exception_table_entry =
  start_insn :: int
  end_insn :: int
  handler_insn :: int
  catch_type :: "nat option"

record line_number_table_entry =
  lnt_start_pc :: nat
  lnt_line :: nat

record attribute_lvt_entry =
  lvt_start_pc :: nat
  lvt_end_pc :: nat
  lvt_index :: nat
  lvt_name :: slice
  lvt_descriptor :: slice

record method_parameter_info =
  param_name :: slice
  param_access_flags :: u16

record bootstrap_method =
  bsm_ref :: nat
  bsm_args :: "nat list"

datatype attribute_data =
    Attr_code attribute_code
  | Attr_constant_value nat
  | Attr_unknown
  | Attr_bootstrap_methods "bootstrap_method list"
  | Attr_enclosing_method "nat option" "nat option"
  | Attr_source_file slice
  | Attr_line_number_table "line_number_table_entry list"
  | Attr_method_parameters "method_parameter_info list"
  | Attr_runtime_visible_annotations "u8 list"
  | Attr_signature slice
  | Attr_runtime_visible_parameter_annotations "u8 list"
  | Attr_runtime_visible_type_annotations "u8 list"
  | Attr_annotation_default "u8 list"
  | Attr_nest_host nat
  | Attr_local_variable_table "attribute_lvt_entry list"
  | Attr_stack_map_table nat "u8 list"
  | Attr_inner_classes "nat list"
  | Attr_permitted_subclasses "nat list"
and attribute = Attribute (attr_name: slice) (attr_length: u32) (attr_data: attribute_data)
and attribute_code = Attribute_code (max_stack: u16) (max_locals: u16) (frame_size: u32)
  (max_formal_pc: int) (code: "bytecode_insn list")
  (exception_table: "exception_table_entry list option")
  (line_number_table: "nat option") (local_variable_table: "nat option")
  (code_attributes: "attribute list")

fun attribute_data_kind :: "attribute_data \<Rightarrow> attribute_kind" where
  "attribute_data_kind (Attr_code _) = ATTRIBUTE_KIND_CODE"
| "attribute_data_kind (Attr_constant_value _) = ATTRIBUTE_KIND_CONSTANT_VALUE"
| "attribute_data_kind Attr_unknown = ATTRIBUTE_KIND_UNKNOWN"
| "attribute_data_kind (Attr_bootstrap_methods _) = ATTRIBUTE_KIND_BOOTSTRAP_METHODS"
| "attribute_data_kind (Attr_enclosing_method _ _) = ATTRIBUTE_KIND_ENCLOSING_METHOD"
| "attribute_data_kind (Attr_source_file _) = ATTRIBUTE_KIND_SOURCE_FILE"
| "attribute_data_kind (Attr_line_number_table _) = ATTRIBUTE_KIND_LINE_NUMBER_TABLE"
| "attribute_data_kind (Attr_method_parameters _) = ATTRIBUTE_KIND_METHOD_PARAMETERS"
| "attribute_data_kind (Attr_runtime_visible_annotations _) = ATTRIBUTE_KIND_RUNTIME_VISIBLE_ANNOTATIONS"
| "attribute_data_kind (Attr_signature _) = ATTRIBUTE_KIND_SIGNATURE"
| "attribute_data_kind (Attr_runtime_visible_parameter_annotations _) =
     ATTRIBUTE_KIND_RUNTIME_VISIBLE_PARAMETER_ANNOTATIONS"
| "attribute_data_kind (Attr_runtime_visible_type_annotations _) =
     ATTRIBUTE_KIND_RUNTIME_VISIBLE_TYPE_ANNOTATIONS"
| "attribute_data_kind (Attr_annotation_default _) = ATTRIBUTE_KIND_ANNOTATION_DEFAULT"
| "attribute_data_kind (Attr_nest_host _) = ATTRIBUTE_KIND_NEST_HOST"
| "attribute_data_kind (Attr_local_variable_table _) = ATTRIBUTE_KIND_LOCAL_VARIABLE_TABLE"
| "attribute_data_kind (Attr_stack_map_table _ _) = ATTRIBUTE_KIND_STACK_MAP_TABLE"
| "attribute_data_kind (Attr_inner_classes _) = ATTRIBUTE_KIND_INNER_CLASSES"
| "attribute_data_kind (Attr_permitted_subclasses _) = ATTRIBUTE_KIND_PERMITTED_SUBCLASSES"

abbreviation attr_kind :: "attribute \<Rightarrow> attribute_kind" where
  "attr_kind a \<equiv> attribute_data_kind (attr_data a)"

section \<open>Classes\<close>

record cp_method =
  m_access_flags :: u16
  m_name :: slice
  m_unparsed_descriptor :: slice
  m_descriptor :: method_descriptor
  m_attributes :: "attribute list"
  m_code :: "nat option"
  m_missing_smt :: bool
  m_is_signature_polymorphic :: bool
  m_is_ctor :: bool
  m_is_clinit :: bool
  m_my_index :: nat

record cp_field =
  f_access_flags :: u16
  f_name :: slice
  f_descriptor :: slice
  f_attributes :: "attribute list"
  f_parsed_descriptor :: field_descriptor

record classdesc =
  cd_state :: classdesc_state
  cd_pool :: constant_pool
  cd_name :: slice
  cd_self :: nat
  cd_super_class :: "nat option"
  cd_nest_host :: "nat option"
  cd_access_flags :: u16
  cd_interfaces :: "nat list"
  cd_fields :: "cp_field list"
  cd_methods :: "cp_method list"
  cd_source_file :: "nat option"
  cd_inner_classes :: "nat option"
  cd_attributes :: "attribute list"
  cd_indy_insns_count :: nat
  cd_indy_insns :: "(nat \<times> nat) option list"

end
