(* ===== verification/Byte_Reader.thy ===== *)
theory Byte_Reader
  imports Classfile_Types
begin

unbundle bit_operations_syntax

text \<open>
  Model of \<open>vm/endian.h\<close> and of the byte reader of \<open>vm/classfile.c\<close>: the cursor
  \<open>cf_byteslice\<close> is the list of bytes still to be read, a format error (which the source
  raises with \<open>longjmp\<close>) is the left value of a sum, and a parser threads the parse context and
  the cursor. The contract a reading function keeps is the locale \<open>reader\<close>: what is left is a
  suffix of the input, the constant pool is not touched, the count of \<open>invokedynamic\<close>
  instructions never decreases, and bytes after those it consumed do not matter.
\<close>

section \<open>Loads of fixed width\<close>

text \<open>The value the platform loads from memory: the first byte is the least significant one
  on a little-endian machine, the most significant one on a big-endian machine.\<close>

fun raw_le :: "u8 list \<Rightarrow> 'w::len word" where
  "raw_le [] = 0"
| "raw_le (b # bs) = ucast b OR push_bit 8 (raw_le bs)"

definition raw_load :: "bool \<Rightarrow> u8 list \<Rightarrow> 'w::len word" where
  "raw_load little_endian bs = (if little_endian then raw_le bs else raw_le (rev bs))"

definition bytes_le :: "nat \<Rightarrow> 'w::len word \<Rightarrow> u8 list" where
  "bytes_le n w = map (\<lambda>i. ucast (drop_bit (8 * i) w)) [0..<n]"

text \<open>\<open>bswap16\<close>, \<open>bswap32\<close> and \<open>bswap64\<close> reverse the bytes of a word.\<close>

definition bswap :: "nat \<Rightarrow> 'w::len word \<Rightarrow> 'w word" where
  "bswap n w = raw_le (rev (bytes_le n w))"

definition read_le :: "bool \<Rightarrow> nat \<Rightarrow> u8 list \<Rightarrow> 'w::len word" where
  "read_le platform_little_endian n bs =
     (let raw = raw_load platform_little_endian bs in
      if \<not> platform_little_endian then bswap n raw else raw)"

definition read_be :: "bool \<Rightarrow> nat \<Rightarrow> u8 list \<Rightarrow> 'w::len word" where
  "read_be platform_little_endian n bs =
     (let raw = raw_load platform_little_endian bs in
      if platform_little_endian then bswap n raw else raw)"

text \<open>What a big-endian load means, independent of the platform.\<close>

definition be_value :: "u8 list \<Rightarrow> nat" where
  "be_value bs = foldl (\<lambda>acc b. 256 * acc + unat b) 0 bs"

section \<open>Errors and parsers\<close>

datatype descriptor_error =
    Too_many_dimensions
  | Void_with_dimensions
  | Missing_semicolon
  | Missing_class_name
  | Invalid_descriptor_char char
  | Descriptor_end
  | Expected_paren
  | Void_parameter
  | Missing_close_paren
  | Trailing_characters char

datatype format_error =
    Format_static string
  | End_of_slice string
  | Bad_cp_kind u32 nat u32 string
  | Bad_cp_index int nat string
  | Bad_descriptor descriptor_error
  | Bad_method_descriptor slice slice descriptor_error
  | Bad_newarray_type u8
  | Bad_opcode u8
  | Bad_wide_opcode u8
  | Bad_pc int
  | Empty_name string
  | Bad_name string slice
  | Bad_magic u32
  | Unreachable
  | Nesting_limit

record classfile_parse_ctx =
  cp :: constant_pool
  current_code_max_pc :: int
  indy_insns_count :: nat

type_synonym 'a parser =
  "classfile_parse_ctx \<Rightarrow> u8 list \<Rightarrow> format_error + ('a \<times> classfile_parse_ctx \<times> u8 list)"

definition pret :: "'a \<Rightarrow> 'a parser" where
  "pret x ctx bs = Inr (x, ctx, bs)"

definition pfail :: "format_error \<Rightarrow> 'a parser" where
  "pfail e ctx bs = Inl e"

definition pbind :: "'a parser \<Rightarrow> ('a \<Rightarrow> 'b parser) \<Rightarrow> 'b parser" where
  "pbind p f ctx bs =
     (case p ctx bs of Inl e \<Rightarrow> Inl e | Inr (x, ctx', bs') \<Rightarrow> f x ctx' bs')"

definition pcheck :: "bool \<Rightarrow> format_error \<Rightarrow> unit parser" where
  "pcheck ok e = (if ok then pret () else pfail e)"

text \<open>A fallible computation that does not read.\<close>

definition plift :: "format_error + 'a \<Rightarrow> 'a parser" where
  "plift r = (case r of Inl e \<Rightarrow> pfail e | Inr x \<Rightarrow> pret x)"

definition pctx :: "classfile_parse_ctx parser" where
  "pctx ctx bs = Inr (ctx, ctx, bs)"

text \<open>\<open>for (i = 0; i < n; ++i) xs[i] = p(reader)\<close>\<close>

primrec prepeat :: "nat \<Rightarrow> 'a parser \<Rightarrow> 'a list parser" where
  "prepeat 0 p = pret []"
| "prepeat (Suc n) p = pbind p (\<lambda>x. pbind (prepeat n p) (\<lambda>xs. pret (x # xs)))"

section \<open>Readers\<close>

definition reader_advance :: "string \<Rightarrow> nat \<Rightarrow> u8 list parser" where
  "reader_advance reason len ctx bs =
     (if length bs < len then Inl (Format_static reason)
      else Inr (take len bs, ctx, drop len bs))"

definition reader_get_slice :: "nat \<Rightarrow> string \<Rightarrow> u8 list parser" where
  "reader_get_slice len reason ctx bs =
     (if length bs < len then Inl (End_of_slice reason)
      else Inr (take len bs, ctx, drop len bs))"

text \<open>\<open>READER_NEXT_IMPL\<close>; \<open>PLATFORM_LITTLE_ENDIAN\<close> is true on every target of the VM, and
  \<open>read_be_value\<close> shows the result is the same where it is not.\<close>

definition reader_next_u8 :: "string \<Rightarrow> u8 parser" where
  "reader_next_u8 reason = pbind (reader_advance reason 1) (\<lambda>bs. pret (read_be True 1 bs))"

definition reader_next_u16 :: "string \<Rightarrow> u16 parser" where
  "reader_next_u16 reason = pbind (reader_advance reason 2) (\<lambda>bs. pret (read_be True 2 bs))"

definition reader_next_u32 :: "string \<Rightarrow> u32 parser" where
  "reader_next_u32 reason = pbind (reader_advance reason 4) (\<lambda>bs. pret (read_be True 4 bs))"

definition reader_next_u64 :: "string \<Rightarrow> u64 parser" where
  "reader_next_u64 reason = pbind (reader_advance reason 8) (\<lambda>bs. pret (read_be True 8 bs))"

definition reader_next_s8 :: "string \<Rightarrow> int parser" where
  "reader_next_s8 reason = pbind (reader_next_u8 reason) (\<lambda>u. pret (s8_of u))"

definition reader_next_s16 :: "string \<Rightarrow> int parser" where
  "reader_next_s16 reason = pbind (reader_next_u16 reason) (\<lambda>u. pret (s16_of u))"

definition reader_next_s32 :: "string \<Rightarrow> int parser" where
  "reader_next_s32 reason = pbind (reader_next_u32 reason) (\<lambda>u. pret (s32_of u))"

definition reader_next_s64 :: "string \<Rightarrow> int parser" where
  "reader_next_s64 reason = pbind (reader_next_u64 reason) (\<lambda>u. pret (s64_of u))"

text \<open>\<open>reader_next_f32\<close> and \<open>reader_next_f64\<close> reinterpret the bits; the model keeps the bits.\<close>

definition reader_next_f32 :: "string \<Rightarrow> u32 parser" where
  "reader_next_f32 reason = reader_next_u32 reason"

definition reader_next_f64 :: "string \<Rightarrow> u64 parser" where
  "reader_next_f64 reason = reader_next_u64 reason"

text \<open>Run a parser on a copy of a sub-slice: what it leaves unread is dropped.\<close>

definition pslice :: "'a parser \<Rightarrow> u8 list \<Rightarrow> 'a parser" where
  "pslice p sub ctx bs =
     (case p ctx sub of Inl e \<Rightarrow> Inl e | Inr (x, ctx', rest) \<Rightarrow> Inr (x, ctx', bs))"

section \<open>Loads agree with the big-endian value\<close>

lemma bit_raw_le:
  "bit (raw_le bs :: 'w::len word) k \<longleftrightarrow>
     k < LENGTH('w) \<and> k < 8 * length bs \<and> bit (bs ! (k div 8)) (k mod 8)"
proof (induction bs arbitrary: k)
  case (Cons b bs)
  show ?case
  proof (cases "k < 8")
    case True
    then show ?thesis by (auto simp: bit_simps)
  next
    case False
    then have k: "k div 8 = Suc ((k - 8) div 8)" "k mod 8 = (k - 8) mod 8"
      by (simp_all add: le_div_geq le_mod_geq)
    have nb: "\<not> bit b k" using False by (auto dest: bit_imp_le_length)
    show ?thesis using False by (auto simp: bit_simps nb Cons.IH k)
  qed
qed simp

lemma bytes_le_raw_le:
  assumes "8 * length bs \<le> LENGTH('w)"
  shows "bytes_le (length bs) (raw_le bs :: 'w::len word) = bs"
proof (rule nth_equalityI)
  fix i
  assume "i < length (bytes_le (length bs) (raw_le bs :: 'w word))"
  then have i: "i < length bs" by (simp add: bytes_le_def)
  show "bytes_le (length bs) (raw_le bs :: 'w word) ! i = bs ! i"
  proof (rule bit_word_eqI)
    fix k :: nat
    assume "k < LENGTH(8)"
    then have k: "k < 8" by simp
    have "8 * i + k < 8 * length bs" using i k by linarith
    then show "bit (bytes_le (length bs) (raw_le bs :: 'w word) ! i) k \<longleftrightarrow> bit (bs ! i) k"
      using i k assms by (simp add: bytes_le_def bit_simps bit_raw_le)
  qed
qed (simp add: bytes_le_def)

lemma raw_le_value:
  "(raw_le bs :: 'w::len word) = of_nat (foldr (\<lambda>b acc. unat b + 256 * acc) bs 0)"
proof (induction bs)
  case (Cons b bs)
  have dis: "\<not> bit (ucast b :: 'w word) n \<or> \<not> bit (push_bit 8 (raw_le bs) :: 'w word) n" for n
    by (auto simp: bit_simps dest: bit_imp_le_length)
  have "ucast b OR push_bit 8 (raw_le bs) = ucast b + push_bit 8 (raw_le bs :: 'w word)"
    using dis by (subst disjunctive_add) auto
  then show ?case using Cons.IH
    by (simp add: push_bit_eq_mult unsigned_ucast_eq)
qed simp

lemma foldr_le_rev: "foldr (\<lambda>b acc. unat b + 256 * acc) (rev bs) 0 = be_value bs"
  by (simp add: be_value_def foldr_conv_foldl add.commute)

lemma be_value_less: "be_value bs < 2 ^ (8 * length bs)"
proof (induction bs rule: rev_induct)
  case (snoc b bs)
  have "unat b < 256" using unsigned_less [of b, where 'a = nat] by simp
  then show ?case using snoc by (simp add: be_value_def power_add)
qed (simp add: be_value_def)

lemma read_be_raw:
  assumes "8 * length bs \<le> LENGTH('w)" and "n = length bs"
  shows "(read_be le n bs :: 'w::len word) = raw_le (rev bs)"
  using bytes_le_raw_le [of bs, where 'w = 'w] bytes_le_raw_le [of "rev bs", where 'w = 'w] assms
  by (simp add: read_be_def raw_load_def bswap_def Let_def)

lemma unat_read_be:
  assumes "8 * length bs \<le> LENGTH('w)" and "n = length bs"
  shows "unat (read_be le n bs :: 'w::len word) = be_value bs"
proof -
  have "be_value bs < 2 ^ LENGTH('w)"
    using be_value_less [of bs] assms(1)
    by (meson le_less_trans less_le_trans not_less one_le_numeral power_increasing)
  then show ?thesis
    by (simp add: read_be_raw [OF assms] raw_le_value foldr_le_rev unat_of_nat take_bit_nat_eq_self)
qed

section \<open>The reader contract\<close>

locale ctx_keeper =
  fixes p :: "'a parser"
  assumes pool: "p ctx bs = Inr (x, ctx', bs') \<Longrightarrow> cp ctx' = cp ctx"
    and indy: "p ctx bs = Inr (x, ctx', bs') \<Longrightarrow> indy_insns_count ctx \<le> indy_insns_count ctx'"

text \<open>A parser that is only run on a slice of its own need not be more than that; one that reads
  from a shared cursor leaves a suffix of it and does not depend on what follows.\<close>

locale reader = ctx_keeper +
  assumes suffix: "p ctx bs = Inr (x, ctx', bs') \<Longrightarrow> \<exists>pre. bs = pre @ bs'"
    and extend: "p ctx bs = Inr (x, ctx', bs') \<Longrightarrow> p ctx (bs @ ys) = Inr (x, ctx', bs' @ ys)"
begin

lemma not_longer: "p ctx bs = Inr (x, ctx', bs') \<Longrightarrow> length bs' \<le> length bs"
  using suffix by fastforce

text \<open>The bytes consumed determine the result: they alone can be parsed, with nothing left.\<close>

lemma reads_prefix:
  assumes "p ctx bs = Inr (x, ctx', bs')"
  shows "bs' = drop (length bs - length bs') bs"
  using suffix [OF assms] by auto

end

locale progress_reader = reader +
  assumes consumes: "p ctx bs = Inr (x, ctx', bs') \<Longrightarrow> length bs' < length bs"
begin

text \<open>An array of \<open>n\<close> elements needs at least \<open>n\<close> bytes of input, so no count a file declares
  makes the parser store more elements than the file has bytes.\<close>

lemma repeat_consumes:
  "prepeat n p ctx bs = Inr (xs, ctx', bs') \<Longrightarrow> length xs = n \<and> n + length bs' \<le> length bs"
proof (induction n arbitrary: ctx bs xs)
  case 0
  then show ?case by (simp add: pret_def)
next
  case (Suc n)
  from Suc.prems obtain y c b ys where y: "p ctx bs = Inr (y, c, b)"
    and ys: "prepeat n p c b = Inr (ys, ctx', bs')" and xs: "xs = y # ys"
    by (auto simp: pbind_def pret_def split: sum.splits prod.splits)
  show ?case using consumes [OF y] Suc.IH [OF ys] xs by auto
qed

end

lemma reader_keeper: "reader p \<Longrightarrow> ctx_keeper p"
  by (rule reader.axioms)

lemma reader_pret [reader_intros]: "reader (pret x)"
  by unfold_locales (auto simp: pret_def)

lemma reader_pfail [reader_intros]: "reader (pfail e)"
  by unfold_locales (auto simp: pfail_def)

lemma reader_pctx [reader_intros]: "reader pctx"
  by unfold_locales (auto simp: pctx_def)

lemma reader_plift [reader_intros]: "reader (plift r)"
  by (cases r) (auto simp: plift_def intro: reader_intros)

lemma reader_pcheck [reader_intros]: "reader (pcheck ok e)"
  by (auto simp: pcheck_def intro: reader_intros)

lemma pbind_Inr:
  "pbind p f ctx bs = Inr r \<longleftrightarrow> (\<exists>x c b. p ctx bs = Inr (x, c, b) \<and> f x c b = Inr r)"
  by (auto simp: pbind_def split: sum.splits)

lemma pbind_Inl:
  "pbind p f ctx bs = Inl e \<longleftrightarrow>
     p ctx bs = Inl e \<or> (\<exists>x c b. p ctx bs = Inr (x, c, b) \<and> f x c b = Inl e)"
  by (auto simp: pbind_def split: sum.splits)

lemma reader_pbind [reader_intros]:
  assumes p: "reader p" and f: "\<And>x. reader (f x)"
  shows "reader (pbind p f)"
proof
  fix ctx bs x ctx' bs'
  assume "pbind p f ctx bs = Inr (x, ctx', bs')"
  then obtain y c b where y: "p ctx bs = Inr (y, c, b)" and x: "f y c b = Inr (x, ctx', bs')"
    by (auto simp: pbind_Inr)
  show "\<exists>pre. bs = pre @ bs'"
    using reader.suffix [OF p y] reader.suffix [OF f x] by auto
  show "pbind p f ctx (bs @ ys) = Inr (x, ctx', bs' @ ys)" for ys
    using reader.extend [OF p y, of ys] reader.extend [OF f x, of ys] by (simp add: pbind_def)
  show "cp ctx' = cp ctx"
    using ctx_keeper.pool [OF reader_keeper [OF p] y] ctx_keeper.pool [OF reader_keeper [OF f] x] by simp
  show "indy_insns_count ctx \<le> indy_insns_count ctx'"
    using ctx_keeper.indy [OF reader_keeper [OF p] y] ctx_keeper.indy [OF reader_keeper [OF f] x] by simp
qed

lemma keeper_pbind:
  assumes p: "ctx_keeper p" and f: "\<And>x. ctx_keeper (f x)"
  shows "ctx_keeper (pbind p f)"
proof
  fix ctx bs x ctx' bs'
  assume "pbind p f ctx bs = Inr (x, ctx', bs')"
  then obtain y c b where y: "p ctx bs = Inr (y, c, b)" and x: "f y c b = Inr (x, ctx', bs')"
    by (auto simp: pbind_Inr)
  show "cp ctx' = cp ctx" using ctx_keeper.pool [OF p y] ctx_keeper.pool [OF f x] by simp
  show "indy_insns_count ctx \<le> indy_insns_count ctx'"
    using ctx_keeper.indy [OF p y] ctx_keeper.indy [OF f x] by simp
qed

lemma reader_prepeat [reader_intros]: "reader p \<Longrightarrow> reader (prepeat n p)"
  by (induction n) (auto intro!: reader_intros)

lemma reader_pslice [reader_intros]: "ctx_keeper p \<Longrightarrow> reader (pslice p sub)"
  by unfold_locales
    (auto simp: pslice_def split: sum.splits prod.splits dest: ctx_keeper.pool ctx_keeper.indy)

lemma reader_advance_reader [reader_intros]: "reader (reader_advance reason len)"
proof
  fix ctx bs x ctx' bs'
  assume r: "reader_advance reason len ctx bs = Inr (x, ctx', bs')"
  then show "\<exists>pre. bs = pre @ bs'"
    by (auto simp: reader_advance_def split: if_splits intro: exI [of _ "take len bs"])
qed (auto simp: reader_advance_def split: if_splits)

lemma reader_get_slice_reader [reader_intros]: "reader (reader_get_slice len reason)"
proof
  fix ctx bs x ctx' bs'
  assume r: "reader_get_slice len reason ctx bs = Inr (x, ctx', bs')"
  then show "\<exists>pre. bs = pre @ bs'"
    by (auto simp: reader_get_slice_def split: if_splits intro: exI [of _ "take len bs"])
qed (auto simp: reader_get_slice_def split: if_splits)

lemma progress_pbind1 [reader_intros]:
  assumes p: "progress_reader p" and f: "\<And>x. reader (f x)"
  shows "progress_reader (pbind p f)"
proof -
  have p': "reader p" using p by (rule progress_reader.axioms)
  show ?thesis
  proof (intro progress_reader.intro progress_reader_axioms.intro)
    show "reader (pbind p f)" by (rule reader_pbind [OF p' f])
    fix ctx bs x ctx' bs'
    assume "pbind p f ctx bs = Inr (x, ctx', bs')"
    then obtain y c b where y: "p ctx bs = Inr (y, c, b)" and x: "f y c b = Inr (x, ctx', bs')"
      by (auto simp: pbind_Inr)
    show "length bs' < length bs"
      using progress_reader.consumes [OF p y] reader.not_longer [OF f x] by simp
  qed
qed

lemma progress_pbind2:
  assumes p: "reader p" and f: "\<And>x. progress_reader (f x)"
  shows "progress_reader (pbind p f)"
proof -
  have f': "reader (f x)" for x using f by (rule progress_reader.axioms)
  show ?thesis
  proof (intro progress_reader.intro progress_reader_axioms.intro)
    show "reader (pbind p f)" by (rule reader_pbind [OF p f'])
    fix ctx bs x ctx' bs'
    assume "pbind p f ctx bs = Inr (x, ctx', bs')"
    then obtain y c b where y: "p ctx bs = Inr (y, c, b)" and x: "f y c b = Inr (x, ctx', bs')"
      by (auto simp: pbind_Inr)
    show "length bs' < length bs"
      using progress_reader.consumes [OF f x] reader.not_longer [OF p y] by simp
  qed
qed

lemma progress_advance [reader_intros]: "0 < len \<Longrightarrow> progress_reader (reader_advance reason len)"
  by (intro progress_reader.intro progress_reader_axioms.intro reader_intros)
    (auto simp: reader_advance_def split: if_splits)

lemma progress_reader_pfail [reader_intros]: "progress_reader (pfail e)"
  by (intro progress_reader.intro progress_reader_axioms.intro reader_intros) (simp add: pfail_def)

lemma progress_imp_reader: "progress_reader p \<Longrightarrow> reader p"
  by (rule progress_reader.axioms)

section \<open>The fixed-width readers meet the contract\<close>

interpretation next_u8: progress_reader "reader_next_u8 reason" for reason
  unfolding reader_next_u8_def by (intro reader_intros) simp

interpretation next_u16: progress_reader "reader_next_u16 reason" for reason
  unfolding reader_next_u16_def by (intro reader_intros) simp

interpretation next_u32: progress_reader "reader_next_u32 reason" for reason
  unfolding reader_next_u32_def by (intro reader_intros) simp

interpretation next_u64: progress_reader "reader_next_u64 reason" for reason
  unfolding reader_next_u64_def by (intro reader_intros) simp

lemmas next_progress [reader_intros] =
  next_u8.progress_reader_axioms next_u16.progress_reader_axioms
  next_u32.progress_reader_axioms next_u64.progress_reader_axioms

lemmas next_reader [reader_intros] =
  next_u8.reader_axioms next_u16.reader_axioms next_u32.reader_axioms next_u64.reader_axioms

interpretation next_s8: progress_reader "reader_next_s8 reason" for reason
  unfolding reader_next_s8_def by (intro reader_intros)

interpretation next_s16: progress_reader "reader_next_s16 reason" for reason
  unfolding reader_next_s16_def by (intro reader_intros)

interpretation next_s32: progress_reader "reader_next_s32 reason" for reason
  unfolding reader_next_s32_def by (intro reader_intros)

interpretation next_s64: progress_reader "reader_next_s64 reason" for reason
  unfolding reader_next_s64_def by (intro reader_intros)

lemmas next_signed_progress [reader_intros] =
  next_s8.progress_reader_axioms next_s16.progress_reader_axioms
  next_s32.progress_reader_axioms next_s64.progress_reader_axioms

lemmas next_signed_reader [reader_intros] =
  next_s8.reader_axioms next_s16.reader_axioms next_s32.reader_axioms next_s64.reader_axioms

section \<open>Successful and failing reads\<close>

named_theorems read_iffs \<open>when a parser step succeeds, and with what\<close>
named_theorems read_errs \<open>when a parser step fails, and how\<close>

lemma pret_iff [read_iffs]: "pret x ctx bs = Inr (y, c, b) \<longleftrightarrow> y = x \<and> c = ctx \<and> b = bs"
  by (auto simp: pret_def)

lemma pfail_iff [read_iffs]: "\<not> pfail e ctx bs = Inr r"
  by (simp add: pfail_def)

lemma pctx_iff [read_iffs]: "pctx ctx bs = Inr (y, c, b) \<longleftrightarrow> y = ctx \<and> c = ctx \<and> b = bs"
  by (auto simp: pctx_def)

lemma plift_iff [read_iffs]: "plift r ctx bs = Inr (y, c, b) \<longleftrightarrow> r = Inr y \<and> c = ctx \<and> b = bs"
  by (cases r) (auto simp: plift_def pret_def pfail_def)

lemma pcheck_iff [read_iffs]: "pcheck ok e ctx bs = Inr (y, c, b) \<longleftrightarrow> ok \<and> c = ctx \<and> b = bs"
  by (auto simp: pcheck_def pret_def pfail_def)

lemma pslice_iff [read_iffs]:
  "pslice p sub ctx bs = Inr (y, c, b) \<longleftrightarrow> b = bs \<and> (\<exists>r. p ctx sub = Inr (y, c, r))"
  by (auto simp: pslice_def split: sum.splits)

lemma reader_advance_iff [read_iffs]:
  "reader_advance reason n ctx bs = Inr (y, c, b) \<longleftrightarrow>
     n \<le> length bs \<and> y = take n bs \<and> c = ctx \<and> b = drop n bs"
  by (auto simp: reader_advance_def)

lemma reader_get_slice_iff [read_iffs]:
  "reader_get_slice n reason ctx bs = Inr (y, c, b) \<longleftrightarrow>
     n \<le> length bs \<and> y = take n bs \<and> c = ctx \<and> b = drop n bs"
  by (auto simp: reader_get_slice_def)

lemma next_u_iffs [read_iffs]:
  "reader_next_u8 reason ctx bs = Inr (y8, c, b) \<longleftrightarrow>
     1 \<le> length bs \<and> y8 = read_be True 1 (take 1 bs) \<and> c = ctx \<and> b = drop 1 bs"
  "reader_next_u16 reason ctx bs = Inr (y16, c, b) \<longleftrightarrow>
     2 \<le> length bs \<and> y16 = read_be True 2 (take 2 bs) \<and> c = ctx \<and> b = drop 2 bs"
  "reader_next_u32 reason ctx bs = Inr (y32, c, b) \<longleftrightarrow>
     4 \<le> length bs \<and> y32 = read_be True 4 (take 4 bs) \<and> c = ctx \<and> b = drop 4 bs"
  "reader_next_u64 reason ctx bs = Inr (y64, c, b) \<longleftrightarrow>
     8 \<le> length bs \<and> y64 = read_be True 8 (take 8 bs) \<and> c = ctx \<and> b = drop 8 bs"
  unfolding reader_next_u8_def reader_next_u16_def reader_next_u32_def reader_next_u64_def pbind_Inr
    reader_advance_iff pret_iff by auto

lemma next_s_iffs [read_iffs]:
  "reader_next_s8 reason ctx bs = Inr (y, c, b) \<longleftrightarrow>
     1 \<le> length bs \<and> y = s8_of (read_be True 1 (take 1 bs)) \<and> c = ctx \<and> b = drop 1 bs"
  "reader_next_s16 reason ctx bs = Inr (y, c, b) \<longleftrightarrow>
     2 \<le> length bs \<and> y = s16_of (read_be True 2 (take 2 bs)) \<and> c = ctx \<and> b = drop 2 bs"
  "reader_next_s32 reason ctx bs = Inr (y, c, b) \<longleftrightarrow>
     4 \<le> length bs \<and> y = s32_of (read_be True 4 (take 4 bs)) \<and> c = ctx \<and> b = drop 4 bs"
  "reader_next_s64 reason ctx bs = Inr (y, c, b) \<longleftrightarrow>
     8 \<le> length bs \<and> y = s64_of (read_be True 8 (take 8 bs)) \<and> c = ctx \<and> b = drop 8 bs"
  unfolding reader_next_s8_def reader_next_s16_def reader_next_s32_def reader_next_s64_def pbind_Inr
    next_u_iffs pret_iff by auto

lemma pret_err [read_errs]: "\<not> pret x ctx bs = Inl e"
  by (simp add: pret_def)

lemma pfail_err [read_errs]: "pfail e ctx bs = Inl e' \<longleftrightarrow> e' = e"
  by (auto simp: pfail_def)

lemma pctx_err [read_errs]: "\<not> pctx ctx bs = Inl e"
  by (simp add: pctx_def)

lemma plift_err [read_errs]: "plift r ctx bs = Inl e \<longleftrightarrow> r = Inl e"
  by (cases r) (auto simp: plift_def pret_def pfail_def)

lemma pcheck_err [read_errs]: "pcheck ok e ctx bs = Inl e' \<longleftrightarrow> \<not> ok \<and> e' = e"
  by (auto simp: pcheck_def pret_def pfail_def)

lemma pslice_err [read_errs]: "pslice p sub ctx bs = Inl e \<longleftrightarrow> p ctx sub = Inl e"
  by (auto simp: pslice_def split: sum.splits)

lemma reader_advance_err [read_errs]:
  "reader_advance reason n ctx bs = Inl e \<longleftrightarrow> length bs < n \<and> e = Format_static reason"
  by (auto simp: reader_advance_def)

lemma reader_get_slice_err [read_errs]:
  "reader_get_slice n reason ctx bs = Inl e \<longleftrightarrow> length bs < n \<and> e = End_of_slice reason"
  by (auto simp: reader_get_slice_def)

lemma next_u_errs [read_errs]:
  "reader_next_u8 reason ctx bs = Inl e \<longleftrightarrow> length bs < 1 \<and> e = Format_static reason"
  "reader_next_u16 reason ctx bs = Inl e \<longleftrightarrow> length bs < 2 \<and> e = Format_static reason"
  "reader_next_u32 reason ctx bs = Inl e \<longleftrightarrow> length bs < 4 \<and> e = Format_static reason"
  "reader_next_u64 reason ctx bs = Inl e \<longleftrightarrow> length bs < 8 \<and> e = Format_static reason"
  by (auto simp: reader_next_u8_def reader_next_u16_def reader_next_u32_def reader_next_u64_def
      pbind_Inl reader_advance_err pret_err)

lemma next_s_errs [read_errs]:
  "reader_next_s8 reason ctx bs = Inl e \<longleftrightarrow> length bs < 1 \<and> e = Format_static reason"
  "reader_next_s16 reason ctx bs = Inl e \<longleftrightarrow> length bs < 2 \<and> e = Format_static reason"
  "reader_next_s32 reason ctx bs = Inl e \<longleftrightarrow> length bs < 4 \<and> e = Format_static reason"
  "reader_next_s64 reason ctx bs = Inl e \<longleftrightarrow> length bs < 8 \<and> e = Format_static reason"
  by (auto simp: reader_next_s8_def reader_next_s16_def reader_next_s32_def reader_next_s64_def
      pbind_Inl next_u_errs pret_err)

section \<open>Postconditions\<close>

text \<open>\<open>gives ctx p Q\<close>: run in the context \<open>ctx\<close>, \<open>p\<close> leaves the context alone and every value it
  returns satisfies \<open>Q\<close>. The rules follow the structure of a parser.\<close>

definition gives :: "classfile_parse_ctx \<Rightarrow> 'a parser \<Rightarrow> ('a \<Rightarrow> bool) \<Rightarrow> bool" where
  "gives ctx p Q \<longleftrightarrow> (\<forall>bs x c b. p ctx bs = Inr (x, c, b) \<longrightarrow> c = ctx \<and> Q x)"

named_theorems gives_intros \<open>postconditions of parsers\<close>

lemma givesD: "gives ctx p Q \<Longrightarrow> p ctx bs = Inr (x, c, b) \<Longrightarrow> c = ctx \<and> Q x"
  by (auto simp: gives_def)

lemma gives_weaken: "gives ctx p R \<Longrightarrow> (\<And>x. R x \<Longrightarrow> Q x) \<Longrightarrow> gives ctx p Q"
  by (auto simp: gives_def)

lemma gives_pret [gives_intros]: "Q x \<Longrightarrow> gives ctx (pret x) Q"
  by (simp add: gives_def read_iffs)

lemma gives_pfail [gives_intros]: "gives ctx (pfail e) Q"
  by (simp add: gives_def read_iffs)

lemma gives_pbind [gives_intros]:
  assumes "gives ctx p (\<lambda>x. gives ctx (f x) Q)"
  shows "gives ctx (pbind p f) Q"
  unfolding gives_def pbind_Inr
proof (intro allI impI)
  fix bs x c b
  assume "\<exists>y d b'. p ctx bs = Inr (y, d, b') \<and> f y d b' = Inr (x, c, b)"
  then obtain y d b' where y: "p ctx bs = Inr (y, d, b')" and x: "f y d b' = Inr (x, c, b)" by blast
  then show "c = ctx \<and> Q x" using givesD [OF assms y] givesD [of ctx "f y" Q b' x c b] by simp
qed

lemma gives_pctx [gives_intros]: "Q ctx \<Longrightarrow> gives ctx pctx Q"
  by (simp add: gives_def read_iffs)

lemma gives_plift [gives_intros]: "(\<And>x. r = Inr x \<Longrightarrow> Q x) \<Longrightarrow> gives ctx (plift r) Q"
  by (simp add: gives_def read_iffs)

lemma gives_pcheck [gives_intros]: "(ok \<Longrightarrow> Q ()) \<Longrightarrow> gives ctx (pcheck ok e) Q"
  by (simp add: gives_def read_iffs)

lemma gives_next_u [gives_intros]:
  "(\<And>x8. Q8 x8) \<Longrightarrow> gives ctx (reader_next_u8 r) Q8"
  "(\<And>x16. Q16 x16) \<Longrightarrow> gives ctx (reader_next_u16 r) Q16"
  "(\<And>x32. Q32 x32) \<Longrightarrow> gives ctx (reader_next_u32 r) Q32"
  "(\<And>x64. Q64 x64) \<Longrightarrow> gives ctx (reader_next_u64 r) Q64"
  by (simp_all add: gives_def read_iffs)

lemma gives_next_s [gives_intros]:
  assumes "\<And>x. Q x"
  shows "gives ctx (reader_next_s8 r) Q" "gives ctx (reader_next_s16 r) Q"
    "gives ctx (reader_next_s32 r) Q" "gives ctx (reader_next_s64 r) Q"
  using assms by (simp_all add: gives_def read_iffs)

lemma gives_get_slice [gives_intros]:
  "(\<And>sub. length sub = n \<Longrightarrow> Q sub) \<Longrightarrow> gives ctx (reader_get_slice n r) Q"
  by (simp add: gives_def read_iffs)

lemma gives_pslice [gives_intros]: "gives ctx p Q \<Longrightarrow> gives ctx (pslice p sub) Q"
  unfolding gives_def by (auto simp: read_iffs dest: givesD)

lemma gives_prepeat:
  assumes "gives ctx p Q"
  shows "gives ctx (prepeat n p) (\<lambda>xs. length xs = n \<and> list_all Q xs)"
proof (induction n)
  case 0
  show ?case by (simp add: gives_intros)
next
  case (Suc n)
  show ?case
    unfolding prepeat.simps
    by (intro gives_intros gives_weaken [OF assms] gives_weaken [OF Suc.IH]) simp
qed

section \<open>Properties\<close>

lemma read_le_raw:
  assumes "8 * length bs \<le> LENGTH('w)" and "n = length bs"
  shows "(read_le le n bs :: 'w::len word) = raw_le bs"
  using bytes_le_raw_le [of bs, where 'w = 'w] bytes_le_raw_le [of "rev bs", where 'w = 'w] assms
  by (simp add: read_le_def raw_load_def bswap_def Let_def)

text \<open>\<open>read_u*_be\<close> yields the big-endian value of the bytes and \<open>read_u*_le\<close> the
  little-endian one, at every width and whatever the byte order of the machine that runs it.\<close>

theorem read_platform_independent:
  assumes "length bs = n" and "8 * n \<le> LENGTH('w)"
  shows "unat (read_be platform_le n bs :: 'w::len word) = be_value bs \<and>
    unat (read_le platform_le n bs :: 'w word) = be_value (rev bs)"
proof -
  have l: "8 * length (rev bs) \<le> LENGTH('w)" "8 * length bs \<le> LENGTH('w)" using assms by simp_all
  have "(read_le platform_le n bs :: 'w word) = read_be platform_le n (rev bs)"
    using read_le_raw [OF l(2)] read_be_raw [OF l(1)] assms(1) by simp
  then show ?thesis using unat_read_be [OF l(2)] unat_read_be [OF l(1)] assms(1) by simp
qed

theorem read_platform_independent_witness:
  "unat (read_be False 4 [0xCA, 0xFE, 0xBA, 0xBE] :: u32) = be_value [0xCA, 0xFE, 0xBA, 0xBE] \<and>
   unat (read_le False 4 [0xCA, 0xFE, 0xBA, 0xBE] :: u32) = be_value (rev [0xCA, 0xFE, 0xBA, 0xBE])"
  by (rule read_platform_independent) simp_all

end
