(* ===== verification/Descriptors.thy ===== *)
theory Descriptors
  imports Byte_Reader
begin

text \<open>
  Model of the descriptor parsers of \<open>vm/classfile.c\<close> (\<open>parse_field_descriptor\<close>,
  \<open>parse_complete_field_descriptor\<close>, \<open>parse_method_descriptor\<close>) and of the kind conversions
  they use. The cursor \<open>chars\<close> is the rest of the string. A printer gives the grammar, and the
  parsers are shown to accept exactly what it prints.
\<close>

section \<open>Type kinds\<close>

fun kind_to_representable_kind :: "type_kind \<Rightarrow> type_kind" where
  "kind_to_representable_kind k =
     (if k \<in> {TYPE_KIND_BOOLEAN, TYPE_KIND_CHAR, TYPE_KIND_BYTE, TYPE_KIND_SHORT, TYPE_KIND_INT}
      then TYPE_KIND_INT else k)"

text \<open>\<open>None\<close> is the failing \<open>CHECK(false)\<close> of the default case.\<close>

definition read_type_kind_char :: "char \<Rightarrow> type_kind option" where
  "read_type_kind_char c =
     map_of [(CHR ''Z'', TYPE_KIND_BOOLEAN), (CHR ''C'', TYPE_KIND_CHAR),
             (CHR ''F'', TYPE_KIND_FLOAT), (CHR ''D'', TYPE_KIND_DOUBLE),
             (CHR ''B'', TYPE_KIND_BYTE), (CHR ''S'', TYPE_KIND_SHORT),
             (CHR ''I'', TYPE_KIND_INT), (CHR ''J'', TYPE_KIND_LONG),
             (CHR ''V'', TYPE_KIND_VOID), (CHR ''L'', TYPE_KIND_REFERENCE)] c"

text \<open>The position of a kind in its enumeration; \<open>type_kind_to_char\<close> indexes a string with it.\<close>

fun type_kind_index :: "type_kind \<Rightarrow> nat" where
  "type_kind_index TYPE_KIND_BOOLEAN = 0"
| "type_kind_index TYPE_KIND_CHAR = 1"
| "type_kind_index TYPE_KIND_FLOAT = 2"
| "type_kind_index TYPE_KIND_DOUBLE = 3"
| "type_kind_index TYPE_KIND_BYTE = 4"
| "type_kind_index TYPE_KIND_SHORT = 5"
| "type_kind_index TYPE_KIND_INT = 6"
| "type_kind_index TYPE_KIND_LONG = 7"
| "type_kind_index TYPE_KIND_VOID = 8"
| "type_kind_index TYPE_KIND_REFERENCE = 9"

definition type_kind_to_char :: "type_kind \<Rightarrow> char" where
  "type_kind_to_char k = ''ZCFDBSIJVL'' ! type_kind_index k"

section \<open>Field descriptors\<close>

text \<open>The case labels of the primitive types.\<close>

definition primitive_chars :: string where
  "primitive_chars = ''BCDFIJSZV''"

text \<open>\<open>field_start\<close> is the whole string, \<open>cs\<close> what \<open>*chars\<close> still points at. The class name
  is written for reference types only.\<close>

fun field_descriptor_loop ::
    "string \<Rightarrow> nat \<Rightarrow> string \<Rightarrow> descriptor_error + (field_descriptor \<times> string)" where
  "field_descriptor_loop field_start dims [] = Inl Descriptor_end"
| "field_descriptor_loop field_start dims (c # cs) =
     (if dims > 255 then Inl Too_many_dimensions
      else if c \<in> set primitive_chars then
        (case read_type_kind_char c of
           None \<Rightarrow> Inl (Invalid_descriptor_char c)
         | Some prim \<Rightarrow>
             if c = CHR ''V'' \<and> dims > 0 then Inl Void_with_dimensions
             else Inr (\<lparr>base_kind = prim,
                        repr_kind = (if dims \<noteq> 0 then TYPE_KIND_REFERENCE
                                     else kind_to_representable_kind prim),
                        dimensions = dims, class_name = None,
                        unparsed = take (length field_start - length cs) field_start\<rparr>, cs))
      else if c = CHR ''['' then field_descriptor_loop field_start (dims + 1) cs
      else if c = CHR ''L'' then
        (let name = takeWhile (\<lambda>ch. ch \<noteq> CHR '';'') cs; rest = drop (length name) cs in
         if rest = [] then Inl Missing_semicolon
         else if name = [] then Inl Missing_class_name
         else Inr (\<lparr>base_kind = TYPE_KIND_REFERENCE, repr_kind = TYPE_KIND_REFERENCE,
                    dimensions = dims, class_name = Some name,
                    unparsed = take (length field_start - length (tl rest)) field_start\<rparr>, tl rest))
      else Inl (Invalid_descriptor_char c))"

definition parse_field_descriptor ::
    "string \<Rightarrow> descriptor_error + (field_descriptor \<times> string)" where
  "parse_field_descriptor chars = field_descriptor_loop chars 0 chars"

definition parse_complete_field_descriptor ::
    "slice \<Rightarrow> descriptor_error + field_descriptor" where
  "parse_complete_field_descriptor entry =
     (case parse_field_descriptor entry of
        Inl e \<Rightarrow> Inl e
      | Inr (fd, rest) \<Rightarrow> if rest \<noteq> [] then Inl (Trailing_characters (hd rest)) else Inr fd)"

lemma field_descriptor_loop_shorter:
  "field_descriptor_loop s d cs = Inr (fd, rest) \<Longrightarrow> length rest < length cs"
proof (induction s d cs rule: field_descriptor_loop.induct)
  case (2 s d c cs)
  have "length (tl (drop (length (takeWhile P cs)) cs)) \<le> length cs" for P :: "char \<Rightarrow> bool"
    by simp
  then show ?case using 2
    by (force simp: Let_def split: if_splits option.splits)
qed simp

section \<open>Method descriptors\<close>

function parse_method_args ::
    "string \<Rightarrow> descriptor_error + (field_descriptor list \<times> string)" where
  "parse_method_args chars =
     (if chars \<noteq> [] \<and> hd chars \<noteq> CHR '')'' then
        (case parse_field_descriptor chars of
           Inl e \<Rightarrow> Inl e
         | Inr (fd, rest) \<Rightarrow>
             if base_kind fd = TYPE_KIND_VOID then Inl Void_parameter
             else (case parse_method_args rest of
                     Inl e \<Rightarrow> Inl e
                   | Inr (fds, rest') \<Rightarrow> Inr (fd # fds, rest')))
      else Inr ([], chars))"
  by pat_completeness auto
termination
  by (relation "measure length")
    (auto simp: parse_field_descriptor_def dest: field_descriptor_loop_shorter)

declare parse_method_args.simps [simp del]

definition parse_method_descriptor :: "slice \<Rightarrow> descriptor_error + method_descriptor" where
  "parse_method_descriptor entry =
     (if length entry < 1 \<or> hd entry \<noteq> CHR ''('' then Inl Expected_paren
      else (case parse_method_args (tl entry) of
              Inl e \<Rightarrow> Inl e
            | Inr (fds, rest) \<Rightarrow>
                if rest = [] then Inl Missing_close_paren
                else (case parse_field_descriptor (tl rest) of
                        Inl e \<Rightarrow> Inl e
                      | Inr (ret, _) \<Rightarrow> Inr \<lparr>args = fds, return_type = ret\<rparr>)))"

section \<open>The grammar\<close>

definition base_text :: "type_kind \<Rightarrow> slice option \<Rightarrow> string" where
  "base_text k name =
     (case name of None \<Rightarrow> [type_kind_to_char k] | Some n \<Rightarrow> CHR ''L'' # n @ '';'')"

definition print_field_descriptor :: "field_descriptor \<Rightarrow> string" where
  "print_field_descriptor fd =
     replicate (dimensions fd) (CHR ''['') @ base_text (base_kind fd) (class_name fd)"

definition wf_base :: "type_kind \<Rightarrow> slice option \<Rightarrow> bool" where
  "wf_base k name \<longleftrightarrow>
     (case name of None \<Rightarrow> k \<noteq> TYPE_KIND_REFERENCE
                 | Some n \<Rightarrow> k = TYPE_KIND_REFERENCE \<and> n \<noteq> [] \<and> CHR '';'' \<notin> set n)"

definition wf_field_descriptor :: "field_descriptor \<Rightarrow> bool" where
  "wf_field_descriptor fd \<longleftrightarrow>
     wf_base (base_kind fd) (class_name fd) \<and> dimensions fd \<le> 255 \<and>
     (base_kind fd = TYPE_KIND_VOID \<longrightarrow> dimensions fd = 0) \<and>
     repr_kind fd = (if dimensions fd \<noteq> 0 then TYPE_KIND_REFERENCE
                     else kind_to_representable_kind (base_kind fd)) \<and>
     unparsed fd = print_field_descriptor fd"

lemma type_kind_char_roundtrip: "read_type_kind_char (type_kind_to_char k) = Some k"
  by (cases k) (simp_all add: read_type_kind_char_def type_kind_to_char_def)

lemma read_type_kind_char_Some:
  "read_type_kind_char c = Some k \<Longrightarrow> c = type_kind_to_char k"
  by (auto simp: read_type_kind_char_def type_kind_to_char_def split: if_splits)

lemma prim_char:
  "c \<in> set primitive_chars \<longleftrightarrow> (\<exists>k. k \<noteq> TYPE_KIND_REFERENCE \<and> c = type_kind_to_char k)"
proof
  assume "c \<in> set primitive_chars"
  then have "\<exists>k. k \<noteq> TYPE_KIND_REFERENCE \<and> read_type_kind_char c = Some k"
    by (auto simp: primitive_chars_def read_type_kind_char_def)
  then show "\<exists>k. k \<noteq> TYPE_KIND_REFERENCE \<and> c = type_kind_to_char k"
    using read_type_kind_char_Some by blast
next
  assume "\<exists>k. k \<noteq> TYPE_KIND_REFERENCE \<and> c = type_kind_to_char k"
  then obtain k where "k \<noteq> TYPE_KIND_REFERENCE" "c = type_kind_to_char k" by blast
  then show "c \<in> set primitive_chars"
    by (cases k) (simp_all add: primitive_chars_def type_kind_to_char_def)
qed

lemma void_char: "type_kind_to_char k = CHR ''V'' \<longleftrightarrow> k = TYPE_KIND_VOID"
  by (cases k) (simp_all add: type_kind_to_char_def)

lemma not_primitive_char [simp]:
  "CHR ''['' \<notin> set primitive_chars" "CHR ''L'' \<notin> set primitive_chars"
  by (simp_all add: primitive_chars_def)

lemma representable_reference [simp]:
  "kind_to_representable_kind TYPE_KIND_REFERENCE = TYPE_KIND_REFERENCE"
  by simp

declare kind_to_representable_kind.simps [simp del]

text \<open>The end of the loop on a base type.\<close>

lemma loop_primitive:
  assumes "k \<noteq> TYPE_KIND_REFERENCE" and "d \<le> 255" and "k = TYPE_KIND_VOID \<longrightarrow> d = 0"
  shows "field_descriptor_loop s d (type_kind_to_char k # cs) =
    Inr (\<lparr>base_kind = k,
          repr_kind = (if d \<noteq> 0 then TYPE_KIND_REFERENCE else kind_to_representable_kind k),
          dimensions = d, class_name = None, unparsed = take (length s - length cs) s\<rparr>, cs)"
proof -
  have "type_kind_to_char k \<in> set primitive_chars" using assms(1) prim_char by blast
  then show ?thesis using assms(2,3)
    by (simp only: field_descriptor_loop.simps type_kind_char_roundtrip option.case void_char) auto
qed

lemma loop_reference:
  assumes "n \<noteq> []" and "CHR '';'' \<notin> set n" and "d \<le> 255"
  shows "field_descriptor_loop s d (CHR ''L'' # n @ CHR '';'' # cs) =
    Inr (\<lparr>base_kind = TYPE_KIND_REFERENCE, repr_kind = TYPE_KIND_REFERENCE, dimensions = d,
          class_name = Some n, unparsed = take (length s - length cs) s\<rparr>, cs)"
proof -
  have "takeWhile (\<lambda>ch. ch \<noteq> CHR '';'') (n @ CHR '';'' # cs) = n"
    using assms(2) by (induction n) auto
  then show ?thesis using assms(1,3) by (simp add: Let_def)
qed

lemma loop_dimensions:
  "d + m \<le> 255 \<Longrightarrow>
   field_descriptor_loop s d (replicate m (CHR ''['') @ cs) = field_descriptor_loop s (d + m) cs"
  by (induction m arbitrary: d) auto

lemma parse_print_field:
  assumes wf: "wf_field_descriptor fd"
  shows "parse_field_descriptor (print_field_descriptor fd @ rest) = Inr (fd, rest)"
proof -
  let ?s = "print_field_descriptor fd @ rest" and ?b = "base_text (base_kind fd) (class_name fd)"
  have d: "dimensions fd \<le> 255" using wf by (simp add: wf_field_descriptor_def)
  have "parse_field_descriptor ?s = field_descriptor_loop ?s (dimensions fd) (?b @ rest)"
    using d loop_dimensions [of 0 "dimensions fd" ?s "?b @ rest"]
    by (simp add: parse_field_descriptor_def print_field_descriptor_def)
  also have "\<dots> = Inr (fd, rest)"
  proof (cases "class_name fd")
    case None
    then have k: "base_kind fd \<noteq> TYPE_KIND_REFERENCE" and b: "?b = [type_kind_to_char (base_kind fd)]"
      using wf by (auto simp: wf_field_descriptor_def wf_base_def base_text_def)
    have v: "base_kind fd = TYPE_KIND_VOID \<longrightarrow> dimensions fd = 0"
      using wf by (simp add: wf_field_descriptor_def)
    show ?thesis unfolding b append_Cons append_Nil loop_primitive [OF k d v]
      using wf None by (auto simp: wf_field_descriptor_def intro: field_descriptor.equality)
  next
    case (Some n)
    then have n: "n \<noteq> []" "CHR '';'' \<notin> set n" "base_kind fd = TYPE_KIND_REFERENCE"
      and b: "?b @ rest = CHR ''L'' # n @ CHR '';'' # rest"
      using wf by (auto simp: wf_field_descriptor_def wf_base_def base_text_def)
    show ?thesis unfolding b loop_reference [OF n(1,2) d]
      using wf Some n(3) by (auto simp: wf_field_descriptor_def intro: field_descriptor.equality)
  qed
  finally show ?thesis .
qed

text \<open>Every successful run of the loop stops on a base type.\<close>

lemma loop_success:
  assumes "field_descriptor_loop s d cs = Inr (fd, rest)"
  shows "\<exists>m k name. cs = replicate m (CHR ''['') @ base_text k name @ rest \<and> wf_base k name \<and>
    d + m \<le> 255 \<and> (k = TYPE_KIND_VOID \<longrightarrow> d + m = 0)"
  using assms
proof (induction s d cs rule: field_descriptor_loop.induct)
  case (2 s d c cs)
  have d: "d \<le> 255" using "2.prems" by (simp split: if_splits)
  consider (prim) "c \<in> set primitive_chars" | (dim) "c = CHR ''[''" | (ref) "c = CHR ''L''"
    using "2.prems" by (fastforce split: if_splits)
  then show ?case
  proof cases
    case prim
    then obtain k where k: "k \<noteq> TYPE_KIND_REFERENCE" "c = type_kind_to_char k"
      using prim_char by blast
    have ok: "rest = cs" "k = TYPE_KIND_VOID \<longrightarrow> d = 0"
      using "2.prems" d prim unfolding k(2)
      by (auto simp: type_kind_char_roundtrip void_char split: if_splits)
    then have "c # cs = replicate 0 (CHR ''['') @ base_text k None @ rest \<and> wf_base k None \<and>
        d + 0 \<le> 255 \<and> (k = TYPE_KIND_VOID \<longrightarrow> d + 0 = 0)"
      using k d by (simp add: base_text_def wf_base_def)
    then show ?thesis by blast
  next
    case dim
    then have "field_descriptor_loop s (d + 1) cs = Inr (fd, rest)" using "2.prems" d by simp
    then obtain m k name where m: "cs = replicate m (CHR ''['') @ base_text k name @ rest"
      "wf_base k name" "d + 1 + m \<le> 255" "k = TYPE_KIND_VOID \<longrightarrow> d + 1 + m = 0"
      using "2.IH" d dim by force
    then have "c # cs = replicate (Suc m) (CHR ''['') @ base_text k name @ rest"
      using dim by simp
    then show ?thesis using m by (intro exI [of _ "Suc m"] exI [of _ k] exI [of _ name]) simp
  next
    case ref
    define n where "n = takeWhile (\<lambda>ch. ch \<noteq> CHR '';'') cs"
    have dr: "drop (length n) cs = dropWhile (\<lambda>ch. ch \<noteq> CHR '';'') cs"
      unfolding n_def by (rule dropWhile_eq_drop [symmetric])
    have n: "drop (length n) cs \<noteq> []" "n \<noteq> []" "rest = tl (drop (length n) cs)"
      using "2.prems" d ref by (auto simp: Let_def n_def split: if_splits)
    have "hd (drop (length n) cs) = CHR '';''"
      using n(1) hd_dropWhile [of "\<lambda>ch. ch \<noteq> CHR '';''" cs] by (simp add: dr)
    then have dn: "drop (length n) cs = CHR '';'' # rest"
      using n(1,3) by (cases "drop (length n) cs") simp_all
    have "take (length n) cs = n" unfolding n_def by (rule takeWhile_eq_take [symmetric])
    then have "cs = n @ CHR '';'' # rest" using dn append_take_drop_id [of "length n" cs] by simp
    moreover have "CHR '';'' \<notin> set n" unfolding n_def by (auto dest: set_takeWhileD)
    ultimately have "c # cs = replicate 0 (CHR ''['') @ base_text TYPE_KIND_REFERENCE (Some n) @ rest \<and>
        wf_base TYPE_KIND_REFERENCE (Some n) \<and> d + 0 \<le> 255"
      using ref d n(2) by (simp add: base_text_def wf_base_def)
    then show ?thesis by (intro exI [of _ 0] exI [of _ TYPE_KIND_REFERENCE] exI [of _ "Some n"]) simp
  qed
qed simp

definition mk_field_descriptor :: "nat \<Rightarrow> type_kind \<Rightarrow> slice option \<Rightarrow> field_descriptor" where
  "mk_field_descriptor d k name =
     \<lparr>base_kind = k,
      repr_kind = (if d \<noteq> 0 then TYPE_KIND_REFERENCE else kind_to_representable_kind k),
      dimensions = d, class_name = name, unparsed = replicate d (CHR ''['') @ base_text k name\<rparr>"

lemma field_descriptor_parse_iff:
  "parse_field_descriptor s = Inr (fd, rest) \<longleftrightarrow>
     wf_field_descriptor fd \<and> s = print_field_descriptor fd @ rest"
proof
  assume p: "parse_field_descriptor s = Inr (fd, rest)"
  then obtain m k name where s: "s = replicate m (CHR ''['') @ base_text k name @ rest"
    and wf: "wf_base k name" "m \<le> 255" "k = TYPE_KIND_VOID \<longrightarrow> m = 0"
    using loop_success [of s 0 s fd rest] by (auto simp: parse_field_descriptor_def)
  let ?fd = "mk_field_descriptor m k name"
  have "wf_field_descriptor ?fd" and "s = print_field_descriptor ?fd @ rest"
    using wf s by (simp_all add: wf_field_descriptor_def mk_field_descriptor_def print_field_descriptor_def)
  moreover from this have "fd = ?fd" using parse_print_field [of ?fd rest] p by simp
  ultimately show "wf_field_descriptor fd \<and> s = print_field_descriptor fd @ rest" by simp
qed (auto intro: parse_print_field)

section \<open>Method descriptors\<close>

lemma print_field_descriptor_hd:
  "print_field_descriptor fd \<noteq> [] \<and>
   (wf_field_descriptor fd \<longrightarrow> hd (print_field_descriptor fd) \<noteq> CHR '')'')"
proof -
  have "base_text k name \<noteq> []" for k name by (simp add: base_text_def split: option.splits)
  moreover have "hd (base_text k name) \<noteq> CHR '')''" for k name
    by (cases k) (auto simp: base_text_def type_kind_to_char_def split: option.splits)
  ultimately show ?thesis
    by (cases "dimensions fd") (simp_all add: print_field_descriptor_def)
qed

definition wf_parameter :: "field_descriptor \<Rightarrow> bool" where
  "wf_parameter fd \<longleftrightarrow> wf_field_descriptor fd \<and> base_kind fd \<noteq> TYPE_KIND_VOID"

lemma parse_method_args_iff:
  "parse_method_args s = Inr (fds, rest) \<longleftrightarrow>
     (\<forall>fd \<in> set fds. wf_parameter fd) \<and> s = concat (map print_field_descriptor fds) @ rest \<and>
     (rest = [] \<or> hd rest = CHR '')'')"
proof (induction s arbitrary: fds rule: parse_method_args.induct)
  case (1 chars)
  show ?case
  proof (cases "chars \<noteq> [] \<and> hd chars \<noteq> CHR '')''")
    case stop: False
    show ?thesis
    proof (cases fds)
      case Nil
      then show ?thesis using stop by (subst parse_method_args.simps) auto
    next
      case (Cons fd fds')
      then show ?thesis using stop print_field_descriptor_hd [of fd]
        by (subst parse_method_args.simps) (auto simp: wf_parameter_def)
    qed
  next
    case go: True
    show ?thesis
    proof (cases fds)
      case Nil
      then show ?thesis using go
        by (subst parse_method_args.simps) (auto split: sum.splits prod.splits)
    next
      case (Cons fd fds')
      have "parse_method_args chars = Inr (fd # fds', rest) \<longleftrightarrow>
          (\<exists>r. parse_field_descriptor chars = Inr (fd, r) \<and> base_kind fd \<noteq> TYPE_KIND_VOID \<and>
               parse_method_args r = Inr (fds', rest))"
        using go by (subst parse_method_args.simps) (auto split: sum.splits prod.splits)
      also have "\<dots> \<longleftrightarrow> (\<exists>r. parse_field_descriptor chars = Inr (fd, r) \<and>
          base_kind fd \<noteq> TYPE_KIND_VOID \<and> (\<forall>x \<in> set fds'. wf_parameter x) \<and>
          r = concat (map print_field_descriptor fds') @ rest \<and> (rest = [] \<or> hd rest = CHR '')''))"
        using "1.IH" [OF go] by blast
      also have "\<dots> \<longleftrightarrow> (\<forall>x \<in> set fds. wf_parameter x) \<and>
          chars = concat (map print_field_descriptor fds) @ rest \<and> (rest = [] \<or> hd rest = CHR '')'')"
        unfolding Cons by (auto simp: field_descriptor_parse_iff wf_parameter_def)
      finally show ?thesis unfolding Cons .
    qed
  qed
qed

definition print_method_descriptor :: "method_descriptor \<Rightarrow> string" where
  "print_method_descriptor md =
     CHR ''('' # concat (map print_field_descriptor (args md)) @
     CHR '')'' # print_field_descriptor (return_type md)"

definition wf_method_descriptor :: "method_descriptor \<Rightarrow> bool" where
  "wf_method_descriptor md \<longleftrightarrow>
     (\<forall>fd \<in> set (args md). wf_parameter fd) \<and> wf_field_descriptor (return_type md)"

lemma method_descriptor_parse_iff:
  "parse_method_descriptor s = Inr md \<longleftrightarrow>
     wf_method_descriptor md \<and> (\<exists>rest. s = print_method_descriptor md @ rest)"
proof
  assume p: "parse_method_descriptor s = Inr md"
  then obtain s' where s: "s = CHR ''('' # s'"
    by (cases s) (auto simp: parse_method_descriptor_def split: if_splits)
  from p obtain fds r ret rest where a: "parse_method_args s' = Inr (fds, r)" and r: "r \<noteq> []"
    and f: "parse_field_descriptor (tl r) = Inr (ret, rest)" and md: "md = \<lparr>args = fds, return_type = ret\<rparr>"
    by (auto simp: parse_method_descriptor_def s split: if_splits sum.splits prod.splits)
  then have "hd r = CHR '')''" by (auto simp: parse_method_args_iff)
  then have "r = CHR '')'' # tl r" using r by (cases r) simp_all
  then have "s = print_method_descriptor md @ rest"
    using a f md s by (simp add: parse_method_args_iff field_descriptor_parse_iff print_method_descriptor_def)
  then show "wf_method_descriptor md \<and> (\<exists>rest. s = print_method_descriptor md @ rest)"
    using a f md by (auto simp: parse_method_args_iff field_descriptor_parse_iff wf_method_descriptor_def)
next
  assume "wf_method_descriptor md \<and> (\<exists>rest. s = print_method_descriptor md @ rest)"
  then obtain rest where wf: "wf_method_descriptor md" and s: "s = print_method_descriptor md @ rest"
    by blast
  let ?r = "CHR '')'' # print_field_descriptor (return_type md) @ rest"
  have "parse_method_args (tl s) = Inr (args md, ?r)"
    using wf by (auto simp: parse_method_args_iff s print_method_descriptor_def wf_method_descriptor_def)
  moreover have "parse_field_descriptor (tl ?r) = Inr (return_type md, rest)"
    using wf by (simp add: field_descriptor_parse_iff wf_method_descriptor_def)
  ultimately show "parse_method_descriptor s = Inr md"
    by (simp add: parse_method_descriptor_def s print_method_descriptor_def)
qed

section \<open>Properties\<close>

text \<open>C24: the field-descriptor parser accepts exactly the printed form of a well-formed
  descriptor and returns that descriptor and the untouched rest of the string: the parse of
  what is printed is the descriptor, and nothing else is accepted.\<close>

theorem field_descriptor_roundtrip:
  "parse_field_descriptor s = Inr (fd, rest) \<longleftrightarrow>
     wf_field_descriptor fd \<and> s = print_field_descriptor fd @ rest"
  by (rule field_descriptor_parse_iff)

text \<open>C25: the method-descriptor parser accepts exactly a parenthesised sequence of non-void
  well-formed parameters followed by a return type - and then any characters at all: unlike
  \<open>parse_complete_field_descriptor\<close> it does not check that the string ends there.\<close>

theorem method_descriptor_roundtrip:
  "parse_method_descriptor s = Inr md \<longleftrightarrow>
     wf_method_descriptor md \<and> (\<exists>rest. s = print_method_descriptor md @ rest)"
  by (rule method_descriptor_parse_iff)

end
