(* ===== verification/Constant_Pool.thy ===== *)
theory Constant_Pool
  imports Descriptors
begin

unbundle bit_operations_syntax

text \<open>
  Model of the constant-pool part of \<open>vm/classfile.c\<close>: the checked accesses to the pool, the two
  passes over its entries (\<open>READ\<close> lists the entries and their strings, \<open>LINK\<close> reads the same
  bytes again and resolves the links), and the final pass that parses descriptors. The main
  results: after a successful parse every link points into the pool at an entry of the kind it
  must have, and no malformed input makes the pool parser follow a null or wrongly typed link.
\<close>

section \<open>Access to the pool\<close>

text \<open>\<open>cp_kind_to_string\<close> of \<open>vm/pretty_print.c\<close>: \<open>None\<close> is its \<open>UNREACHABLE()\<close>.\<close>

definition cp_kind_to_string :: "u32 \<Rightarrow> string option" where
  "cp_kind_to_string k =
     map_of [(CP_KIND_INVALID, ''invalid''), (CP_KIND_UTF8, ''utf8''), (CP_KIND_INTEGER, ''integer''),
             (CP_KIND_FLOAT, ''float''), (CP_KIND_LONG, ''long''), (CP_KIND_DOUBLE, ''double''),
             (CP_KIND_CLASS, ''class''), (CP_KIND_STRING, ''string''), (CP_KIND_FIELD_REF, ''field''),
             (CP_KIND_METHOD_REF, ''method''), (CP_KIND_INTERFACE_METHOD_REF, ''interfacemethod''),
             (CP_KIND_NAME_AND_TYPE, ''nameandtype''), (CP_KIND_METHOD_HANDLE, ''methodhandle''),
             (CP_KIND_METHOD_TYPE, ''methodtype''), (CP_KIND_INVOKE_DYNAMIC, ''invokedynamic'')] k"

text \<open>The loop of \<open>check_cp_entry\<close> that lists the expected kinds in the message prints each of
  them with \<open>cp_kind_to_string\<close>.\<close>

definition expected_printable :: "u32 \<Rightarrow> bool" where
  "expected_printable expected_kinds =
     list_all (\<lambda>i. expected_kinds AND push_bit i 1 = 0 \<or> cp_kind_to_string (push_bit i 1) \<noteq> None)
       [0..<17]"

definition check_cp_entry :: "cp_entry \<Rightarrow> u32 \<Rightarrow> string \<Rightarrow> format_error + cp_entry" where
  "check_cp_entry entry expected_kinds reason =
     (if cp_kind_of (info entry) AND expected_kinds \<noteq> 0 \<or> expected_kinds = 0 then Inr entry
      else if \<not> expected_printable expected_kinds then Inl Unreachable
      else Inl (Bad_cp_kind (cp_kind_of (info entry)) (my_index entry) expected_kinds reason))"

text \<open>A pointer to an entry is its index.\<close>

definition checked_cp_entry :: "constant_pool \<Rightarrow> int \<Rightarrow> u32 \<Rightarrow> string \<Rightarrow> format_error + nat" where
  "checked_cp_entry pool index expected_kinds reason =
     (if \<not> (index \<ge> 0 \<and> index < int (length pool))
      then Inl (Bad_cp_index index (length pool) reason)
      else (case check_cp_entry (pool ! nat index) expected_kinds reason of
              Inl e \<Rightarrow> Inl e
            | Inr _ \<Rightarrow> Inr (nat index)))"

definition checked_get_utf8 :: "constant_pool \<Rightarrow> int \<Rightarrow> string \<Rightarrow> format_error + slice" where
  "checked_get_utf8 pool index reason =
     (case checked_cp_entry pool index CP_KIND_UTF8 reason of
        Inl e \<Rightarrow> Inl e
      | Inr i \<Rightarrow> (case info (pool ! i) of Cp_utf8 s \<Rightarrow> Inr s | _ \<Rightarrow> Inl Unreachable))"

text \<open>The same, as steps of a parser, on the pool of the context.\<close>

definition pcp_entry :: "u16 \<Rightarrow> u32 \<Rightarrow> string \<Rightarrow> nat parser" where
  "pcp_entry index expected_kinds reason =
     pbind pctx (\<lambda>ctx. plift (checked_cp_entry (cp ctx) (uint index) expected_kinds reason))"

definition pcp_utf8 :: "u16 \<Rightarrow> string \<Rightarrow> slice parser" where
  "pcp_utf8 index reason =
     pbind pctx (\<lambda>ctx. plift (checked_get_utf8 (cp ctx) (uint index) reason))"

section \<open>One entry\<close>

datatype cp_resolution_pass = READ | LINK

definition link_utf8 :: "cp_resolution_pass \<Rightarrow> u16 \<Rightarrow> string \<Rightarrow> slice parser" where
  "link_utf8 pass index reason = (if pass = READ then pret [] else pcp_utf8 index reason)"

definition link_entry :: "cp_resolution_pass \<Rightarrow> u16 \<Rightarrow> u32 \<Rightarrow> string \<Rightarrow> nat option parser" where
  "link_entry pass index expected_kinds reason =
     (if pass = READ then pret None
      else pbind (pcp_entry index expected_kinds reason) (\<lambda>i. pret (Some i)))"

text \<open>\<open>CONSTANT_Module\<close>, \<open>CONSTANT_Package\<close>, \<open>CONSTANT_Class\<close>\<close>

definition parse_class_entry :: "cp_resolution_pass \<Rightarrow> u8 \<Rightarrow> cp_info parser" where
  "parse_class_entry pass k =
     pbind (reader_next_u16 ''class index'') (\<lambda>index.
     pbind (link_utf8 pass index ''class info name'') (\<lambda>name.
     pret (if k = 7 then Cp_class name else if k = 19 then Cp_module name else Cp_package name)))"

text \<open>\<open>CONSTANT_Fieldref\<close>, \<open>CONSTANT_Methodref\<close>, \<open>CONSTANT_InterfaceMethodref\<close>\<close>

definition parse_ref_entry :: "cp_resolution_pass \<Rightarrow> u8 \<Rightarrow> cp_info parser" where
  "parse_ref_entry pass k =
     pbind (reader_next_u16 ''class index'') (\<lambda>class_index.
     pbind (reader_next_u16 ''name and type index'') (\<lambda>name_and_type_index.
     pbind (link_entry pass class_index CP_KIND_CLASS
              ''fieldref/methodref/interfacemethodref class info'') (\<lambda>class_info.
     pbind (link_entry pass name_and_type_index CP_KIND_NAME_AND_TYPE
              ''fieldref/methodref/interfacemethodref name and type'') (\<lambda>nt.
     pret (if k = 9 then Cp_field_ref class_info nt None
           else if k = 10 then Cp_method_ref class_info nt None
           else Cp_interface_method_ref class_info nt None)))))"

definition parse_string_entry :: "cp_resolution_pass \<Rightarrow> cp_info parser" where
  "parse_string_entry pass =
     pbind (reader_next_u16 ''string index'') (\<lambda>index.
     pbind (link_utf8 pass index ''string value'') (\<lambda>s. pret (Cp_string s)))"

definition parse_number_entry :: "u8 \<Rightarrow> cp_info parser" where
  "parse_number_entry k =
     (if k = 3 then pbind (reader_next_s32 ''integer value'') (\<lambda>v. pret (Cp_integer v))
      else if k = 4 then pbind (reader_next_f32 ''double value'') (\<lambda>v. pret (Cp_float v))
      else if k = 5 then pbind (reader_next_s64 ''long value'') (\<lambda>v. pret (Cp_long v))
      else pbind (reader_next_f64 ''double value'') (\<lambda>v. pret (Cp_double v)))"

definition parse_name_and_type_entry :: "cp_resolution_pass \<Rightarrow> cp_info parser" where
  "parse_name_and_type_entry pass =
     pbind (reader_next_u16 ''name index'') (\<lambda>name_index.
     pbind (reader_next_u16 ''descriptor index'') (\<lambda>descriptor_index.
     pbind (link_utf8 pass name_index ''name and type name'') (\<lambda>name.
     pbind (link_utf8 pass descriptor_index ''name and type descriptor'') (\<lambda>descriptor.
     pret (Cp_name_and_type name descriptor)))))"

text \<open>The bytes of a string are copied; the slice of the second pass is left null, and the
  caller keeps the entry of the first.\<close>

definition parse_modified_utf8 :: "u8 list \<Rightarrow> slice" where
  "parse_modified_utf8 bs = map (\<lambda>b. char_of (unat b)) bs"

definition parse_utf8_entry :: "cp_resolution_pass \<Rightarrow> cp_info parser" where
  "parse_utf8_entry pass =
     pbind (reader_next_u16 ''utf8 length'') (\<lambda>len.
     pbind (reader_get_slice (unat len) ''utf8 data'') (\<lambda>bs.
     pret (Cp_utf8 (if pass = READ then parse_modified_utf8 bs else []))))"

definition parse_method_handle_entry :: "cp_resolution_pass \<Rightarrow> cp_info parser" where
  "parse_method_handle_entry pass =
     pbind (reader_next_u8 ''method handle kind'') (\<lambda>handle_kind.
     pbind (reader_next_u16 ''reference index'') (\<lambda>reference_index.
     pbind (link_entry pass reference_index
              (CP_KIND_FIELD_REF OR CP_KIND_METHOD_REF OR CP_KIND_INTERFACE_METHOD_REF)
              ''method handle reference'') (\<lambda>entry.
     pret (Cp_method_handle handle_kind entry))))"

definition parse_method_type_entry :: "cp_resolution_pass \<Rightarrow> cp_info parser" where
  "parse_method_type_entry pass =
     pbind (reader_next_u16 ''descriptor index'') (\<lambda>desc_index.
     pbind (link_utf8 pass desc_index ''method type descriptor'') (\<lambda>descriptor.
     pret (Cp_method_type descriptor None)))"

text \<open>\<open>CONSTANT_Dynamic\<close>, \<open>CONSTANT_InvokeDynamic\<close>\<close>

definition parse_indy_entry :: "cp_resolution_pass \<Rightarrow> u8 \<Rightarrow> cp_info parser" where
  "parse_indy_entry pass k =
     pbind (reader_next_u16 ''bootstrap method attr index'') (\<lambda>bootstrap_method_attr_index.
     pbind (reader_next_u16 ''name and type index'') (\<lambda>name_and_type_index.
     pbind (link_entry pass name_and_type_index CP_KIND_NAME_AND_TYPE ''indy name and type'') (\<lambda>nt.
     pret (if k = 17 then Cp_dynamic_constant (Method_index bootstrap_method_attr_index) nt None
           else Cp_invoke_dynamic (Method_index bootstrap_method_attr_index) nt None))))"

definition parse_constant_pool_entry :: "cp_resolution_pass \<Rightarrow> cp_info parser" where
  "parse_constant_pool_entry pass =
     pbind (reader_next_u8 ''cp kind'') (\<lambda>k.
     if k \<in> {19, 20, 7} then parse_class_entry pass k
     else if k \<in> {9, 10, 11} then parse_ref_entry pass k
     else if k = 8 then parse_string_entry pass
     else if k \<in> {3, 4, 5, 6} then parse_number_entry k
     else if k = 12 then parse_name_and_type_entry pass
     else if k = 1 then parse_utf8_entry pass
     else if k = 15 then parse_method_handle_entry pass
     else if k = 16 then parse_method_type_entry pass
     else if k \<in> {17, 18} then parse_indy_entry pass k
     else pfail (Format_static ''Invalid constant pool entry kind''))"

section \<open>The whole pool\<close>

text \<open>The arena hands out zeroed memory, and 0 is \<open>CP_KIND_INVALID\<close>.\<close>

definition init_constant_pool :: "nat \<Rightarrow> constant_pool" where
  "init_constant_pool count = replicate (count + 1) \<lparr>my_index = 0, info = Cp_invalid\<rparr>"

definition is_wide_entry :: "cp_info \<Rightarrow> bool" where
  "is_wide_entry e \<longleftrightarrow> cp_kind_of e \<in> {CP_KIND_LONG, CP_KIND_DOUBLE}"

text \<open>The body of the loop after the entry has been read: entry \<open>i\<close> is stored unless it is a
  string of the second pass, and the slot after a long or double is marked invalid.\<close>

definition store_entry :: "cp_resolution_pass \<Rightarrow> nat \<Rightarrow> cp_info \<Rightarrow> constant_pool \<Rightarrow> constant_pool" where
  "store_entry pass i new_entry pool =
     (let e = (if cp_kind_of new_entry \<noteq> CP_KIND_UTF8 \<or> pass = READ then new_entry else info (pool ! i));
          pool' = pool[i := \<lparr>my_index = i, info = e\<rparr>]
      in if is_wide_entry e
         then pool'[i + 1 := (pool' ! (i + 1))\<lparr>info := Cp_invalid\<rparr>] else pool')"

definition pstore :: "cp_resolution_pass \<Rightarrow> nat \<Rightarrow> cp_info \<Rightarrow> nat parser" where
  "pstore pass i new_entry ctx bs =
     (let pool = store_entry pass i new_entry (cp ctx)
      in Inr (if is_wide_entry (info (pool ! i)) then i + 2 else i + 1, ctx\<lparr>cp := pool\<rparr>, bs))"

function cp_pass :: "cp_resolution_pass \<Rightarrow> nat \<Rightarrow> nat \<Rightarrow> unit parser" where
  "cp_pass pass cp_count cp_i ctx bs =
     (if cp_i < cp_count then
        (case parse_constant_pool_entry pass ctx bs of
           Inl e \<Rightarrow> Inl e
         | Inr (new_entry, ctx', bs') \<Rightarrow>
             (case pstore pass cp_i new_entry ctx' bs' of
                Inl e \<Rightarrow> Inl e
              | Inr (next, ctx'', bs'') \<Rightarrow> cp_pass pass cp_count next ctx'' bs''))
      else Inr ((), ctx, bs))"
  by pat_completeness auto
termination
  by (relation "measure (\<lambda>(pass, n, i, ctx, bs). n - i)")
    (auto simp: pstore_def Let_def split: if_splits)

declare cp_pass.simps [simp del]

text \<open>Following a \<open>cp_name_and_type *\<close>; a null pointer or an entry of another kind would be
  undefined behaviour.\<close>

definition deref_nat :: "constant_pool \<Rightarrow> nat option \<Rightarrow> format_error + (slice \<times> slice)" where
  "deref_nat pool p =
     (case p of
        None \<Rightarrow> Inl Unreachable
      | Some i \<Rightarrow> (case info (pool ! i) of
                    Cp_name_and_type name descriptor \<Rightarrow> Inr (name, descriptor)
                  | _ \<Rightarrow> Inl Unreachable))"

definition finish_method_ref ::
    "constant_pool \<Rightarrow> nat option \<Rightarrow> format_error + method_descriptor" where
  "finish_method_ref pool nt =
     (case deref_nat pool nt of
        Inl e \<Rightarrow> Inl e
      | Inr (name, descriptor) \<Rightarrow>
          (case parse_method_descriptor descriptor of
             Inl e \<Rightarrow> Inl (Bad_method_descriptor name descriptor e)
           | Inr md \<Rightarrow> Inr md))"

definition finish_constant_pool_entry :: "constant_pool \<Rightarrow> cp_info \<Rightarrow> format_error + cp_info" where
  "finish_constant_pool_entry pool entry =
     (case entry of
        Cp_field_ref c nt _ \<Rightarrow>
          (case deref_nat pool nt of
             Inl e \<Rightarrow> Inl e
           | Inr (_, descriptor) \<Rightarrow>
               (case parse_complete_field_descriptor descriptor of
                  Inl e \<Rightarrow> Inl (Bad_descriptor e)
                | Inr fd \<Rightarrow> Inr (Cp_field_ref c nt (Some fd))))
      | Cp_invoke_dynamic m nt _ \<Rightarrow>
          (case deref_nat pool nt of
             Inl e \<Rightarrow> Inl e
           | Inr (_, descriptor) \<Rightarrow>
               (case parse_method_descriptor descriptor of
                  Inl e \<Rightarrow> Inl (Bad_descriptor e)
                | Inr md \<Rightarrow> Inr (Cp_invoke_dynamic m nt (Some md))))
      | Cp_method_ref c nt _ \<Rightarrow>
          (case finish_method_ref pool nt of
             Inl e \<Rightarrow> Inl e
           | Inr md \<Rightarrow> Inr (Cp_method_ref c nt (Some md)))
      | Cp_interface_method_ref c nt _ \<Rightarrow>
          (case finish_method_ref pool nt of
             Inl e \<Rightarrow> Inl e
           | Inr md \<Rightarrow> Inr (Cp_interface_method_ref c nt (Some md)))
      | Cp_method_type descriptor _ \<Rightarrow>
          (case parse_method_descriptor descriptor of
             Inl e \<Rightarrow> Inl (Bad_descriptor e)
           | Inr md \<Rightarrow> Inr (Cp_method_type descriptor (Some md)))
      | _ \<Rightarrow> Inr entry)"

fun finish_pool :: "constant_pool \<Rightarrow> nat list \<Rightarrow> format_error + constant_pool" where
  "finish_pool pool [] = Inr pool"
| "finish_pool pool (i # is) =
     (case finish_constant_pool_entry pool (info (pool ! i)) of
        Inl e \<Rightarrow> Inl e
      | Inr entry \<Rightarrow> finish_pool (pool[i := (pool ! i)\<lparr>info := entry\<rparr>]) is)"

definition parse_constant_pool :: "constant_pool parser" where
  "parse_constant_pool ctx bs =
     (case reader_next_u16 ''constant pool count'' ctx bs of
        Inl e \<Rightarrow> Inl e
      | Inr (cp_count, ctx1, bs1) \<Rightarrow>
          (case cp_pass READ (unat cp_count) 1 (ctx1\<lparr>cp := init_constant_pool (unat cp_count)\<rparr>) bs1 of
             Inl e \<Rightarrow> Inl e
           | Inr (_, ctx2, _) \<Rightarrow>
               (case cp_pass LINK (unat cp_count) 1 ctx2 bs1 of
                  Inl e \<Rightarrow> Inl e
                | Inr (_, ctx3, bs3) \<Rightarrow>
                    (case finish_pool (cp ctx3) [1..<unat cp_count] of
                       Inl e \<Rightarrow> Inl e
                     | Inr pool \<Rightarrow> Inr (pool, ctx3\<lparr>cp := pool\<rparr>, bs3)))))"

section \<open>The entry parser is a reader\<close>

lemma reader_pcp_entry [reader_intros]: "reader (pcp_entry index kinds reason)"
  unfolding pcp_entry_def by (intro reader_intros)

lemma reader_pcp_utf8 [reader_intros]: "reader (pcp_utf8 index reason)"
  unfolding pcp_utf8_def by (intro reader_intros)

lemma reader_link [reader_intros]:
  "reader (link_utf8 pass index reason)" "reader (link_entry pass index kinds reason)"
  unfolding link_utf8_def link_entry_def by (auto intro!: reader_intros)

lemmas cp_entry_parsers =
  parse_class_entry_def parse_ref_entry_def parse_string_entry_def parse_number_entry_def
  parse_name_and_type_entry_def parse_utf8_entry_def parse_method_handle_entry_def
  parse_method_type_entry_def parse_indy_entry_def reader_next_f32_def reader_next_f64_def

lemma reader_cp_entry_parsers [reader_intros]:
  "reader (parse_class_entry pass k)" "reader (parse_ref_entry pass k)"
  "reader (parse_string_entry pass)" "reader (parse_number_entry k)"
  "reader (parse_name_and_type_entry pass)" "reader (parse_utf8_entry pass)"
  "reader (parse_method_handle_entry pass)" "reader (parse_method_type_entry pass)"
  "reader (parse_indy_entry pass k)"
  unfolding cp_entry_parsers by (auto intro!: reader_intros)

interpretation cp_entry: progress_reader "parse_constant_pool_entry pass" for pass
  unfolding parse_constant_pool_entry_def by (intro reader_intros) (auto intro!: reader_intros)

section \<open>Checked access\<close>

lemma checked_cp_entry_iff:
  "checked_cp_entry pool i kinds reason = Inr j \<longleftrightarrow>
     0 \<le> i \<and> j = nat i \<and> j < length pool \<and>
     (cp_kind_of (info (pool ! j)) AND kinds \<noteq> 0 \<or> kinds = 0)"
  by (auto simp: checked_cp_entry_def check_cp_entry_def split: sum.splits)

lemma checked_cp_entry_reachable:
  "expected_printable kinds \<Longrightarrow> checked_cp_entry pool i kinds reason \<noteq> Inl Unreachable"
  by (auto simp: checked_cp_entry_def check_cp_entry_def split: sum.splits)

lemma kind_and_iffs:
  "cp_kind_of e AND CP_KIND_UTF8 \<noteq> 0 \<longleftrightarrow> (\<exists>s. e = Cp_utf8 s)"
  "cp_kind_of e AND CP_KIND_CLASS \<noteq> 0 \<longleftrightarrow> (\<exists>s. e = Cp_class s)"
  "cp_kind_of e AND CP_KIND_NAME_AND_TYPE \<noteq> 0 \<longleftrightarrow> (\<exists>n d. e = Cp_name_and_type n d)"
  by (cases e; simp)+

lemma kind_eq_iffs:
  "cp_kind_of e = CP_KIND_UTF8 \<longleftrightarrow> (\<exists>s. e = Cp_utf8 s)"
  "cp_kind_of e = CP_KIND_CLASS \<longleftrightarrow> (\<exists>s. e = Cp_class s)"
  "cp_kind_of e = CP_KIND_NAME_AND_TYPE \<longleftrightarrow> (\<exists>n d. e = Cp_name_and_type n d)"
  by (cases e; simp)+

lemma checked_get_utf8_iff:
  "checked_get_utf8 pool i reason = Inr s \<longleftrightarrow>
     0 \<le> i \<and> nat i < length pool \<and> info (pool ! nat i) = Cp_utf8 s"
proof -
  have "(\<exists>e. info (pool ! nat i) = Cp_utf8 e) \<longleftrightarrow> cp_kind_of (info (pool ! nat i)) AND CP_KIND_UTF8 \<noteq> 0"
    by (simp only: kind_and_iffs)
  then show ?thesis
    by (auto simp: checked_get_utf8_def checked_cp_entry_iff split: sum.splits cp_info.splits)
      (auto simp: checked_cp_entry_def check_cp_entry_def split: if_splits)
qed

lemma utf8_printable [simp]: "expected_printable CP_KIND_UTF8" "expected_printable CP_KIND_CLASS"
  "expected_printable CP_KIND_NAME_AND_TYPE" "expected_printable 0x380"
  by (simp_all add: expected_printable_def cp_kind_to_string_def upt_rec)

lemma checked_get_utf8_reachable: "checked_get_utf8 pool i reason \<noteq> Inl Unreachable"
proof
  assume "checked_get_utf8 pool i reason = Inl Unreachable"
  then obtain j where j: "checked_cp_entry pool i CP_KIND_UTF8 reason = Inr j"
    and nu: "\<forall>s. info (pool ! j) \<noteq> Cp_utf8 s"
    using checked_cp_entry_reachable [of CP_KIND_UTF8 pool i reason]
    by (auto simp: checked_get_utf8_def split: sum.splits cp_info.splits)
  then have "cp_kind_of (info (pool ! j)) AND CP_KIND_UTF8 \<noteq> 0"
    unfolding checked_cp_entry_iff by auto
  then show False using nu by (simp only: kind_and_iffs) blast
qed

lemma pcp_entry_iff [read_iffs]:
  "pcp_entry index kinds reason ctx bs = Inr (j, c, b) \<longleftrightarrow>
     checked_cp_entry (cp ctx) (uint index) kinds reason = Inr j \<and> c = ctx \<and> b = bs"
  by (auto simp: pcp_entry_def pbind_Inr read_iffs)

lemma pcp_utf8_iff [read_iffs]:
  "pcp_utf8 index reason ctx bs = Inr (s, c, b) \<longleftrightarrow>
     checked_get_utf8 (cp ctx) (uint index) reason = Inr s \<and> c = ctx \<and> b = bs"
  by (auto simp: pcp_utf8_def pbind_Inr read_iffs)

lemma pcp_entry_err [read_errs]:
  "pcp_entry index kinds reason ctx bs = Inl e \<longleftrightarrow>
     checked_cp_entry (cp ctx) (uint index) kinds reason = Inl e"
  by (auto simp: pcp_entry_def pbind_Inl read_iffs read_errs)

lemma pcp_utf8_err [read_errs]:
  "pcp_utf8 index reason ctx bs = Inl e \<longleftrightarrow> checked_get_utf8 (cp ctx) (uint index) reason = Inl e"
  by (auto simp: pcp_utf8_def pbind_Inl read_iffs read_errs)

section \<open>Both passes read the same entries\<close>

definition same_entry :: "cp_info parser \<Rightarrow> cp_info parser \<Rightarrow> bool" where
  "same_entry p q \<longleftrightarrow>
     (\<forall>c1 c2 bs e1 d1 r1 e2 d2 r2. p c1 bs = Inr (e1, d1, r1) \<longrightarrow> q c2 bs = Inr (e2, d2, r2) \<longrightarrow>
        d1 = c1 \<and> d2 = c2 \<and> r2 = r1 \<and> cp_kind_of e2 = cp_kind_of e1)"

lemma same_entry_parsers:
  "same_entry (parse_class_entry READ k) (parse_class_entry LINK k)"
  "same_entry (parse_ref_entry READ k) (parse_ref_entry LINK k)"
  "same_entry (parse_string_entry READ) (parse_string_entry LINK)"
  "same_entry (parse_number_entry k) (parse_number_entry k)"
  "same_entry (parse_name_and_type_entry READ) (parse_name_and_type_entry LINK)"
  "same_entry (parse_utf8_entry READ) (parse_utf8_entry LINK)"
  "same_entry (parse_method_handle_entry READ) (parse_method_handle_entry LINK)"
  "same_entry (parse_method_type_entry READ) (parse_method_type_entry LINK)"
  "same_entry (parse_indy_entry READ k) (parse_indy_entry LINK k)"
  unfolding same_entry_def cp_entry_parsers link_utf8_def link_entry_def pbind_Inr
  by (auto simp: read_iffs pbind_Inr split: if_splits)

lemma passes_agree: "same_entry (parse_constant_pool_entry READ) (parse_constant_pool_entry LINK)"
proof -
  have "same_entry p q \<Longrightarrow> p c1 bs = Inr (e1, d1, r1) \<Longrightarrow> q c2 bs = Inr (e2, d2, r2) \<Longrightarrow>
      d1 = c1 \<and> d2 = c2 \<and> r2 = r1 \<and> cp_kind_of e2 = cp_kind_of e1" for p q c1 c2 bs e1 d1 r1 e2 d2 r2
    by (auto simp: same_entry_def)
  note use = this
  show ?thesis
    unfolding same_entry_def
  proof (intro allI impI)
    fix c1 c2 bs e1 d1 r1 e2 d2 r2
    assume 1: "parse_constant_pool_entry READ c1 bs = Inr (e1, d1, r1)"
      and 2: "parse_constant_pool_entry LINK c2 bs = Inr (e2, d2, r2)"
    let ?k = "read_be True 1 (take 1 bs) :: u8"
    show "d1 = c1 \<and> d2 = c2 \<and> r2 = r1 \<and> cp_kind_of e2 = cp_kind_of e1"
      using 1 2 unfolding parse_constant_pool_entry_def pbind_Inr next_u_iffs
      by (auto simp: pfail_def split: if_splits dest: use [OF same_entry_parsers(1)]
          use [OF same_entry_parsers(2)] use [OF same_entry_parsers(3)]
          use [OF same_entry_parsers(4)] use [OF same_entry_parsers(5)]
          use [OF same_entry_parsers(6)] use [OF same_entry_parsers(7)]
          use [OF same_entry_parsers(8)] use [OF same_entry_parsers(9)])
  qed
qed

section \<open>Links\<close>

definition has_utf8 :: "constant_pool \<Rightarrow> slice \<Rightarrow> bool" where
  "has_utf8 pool s \<longleftrightarrow> (\<exists>j < length pool. info (pool ! j) = Cp_utf8 s)"

definition points_to :: "constant_pool \<Rightarrow> u32 \<Rightarrow> nat option \<Rightarrow> bool" where
  "points_to pool kinds p \<longleftrightarrow>
     (\<exists>j. p = Some j \<and> j < length pool \<and> cp_kind_of (info (pool ! j)) AND kinds \<noteq> 0)"

text \<open>Every string an entry holds is that of a string entry, every pointer leads to an entry
  of the kind its field needs.\<close>

fun linked :: "constant_pool \<Rightarrow> cp_info \<Rightarrow> bool" where
  "linked pool (Cp_class s) = has_utf8 pool s"
| "linked pool (Cp_module s) = has_utf8 pool s"
| "linked pool (Cp_package s) = has_utf8 pool s"
| "linked pool (Cp_string s) = has_utf8 pool s"
| "linked pool (Cp_field_ref c n _) =
     (points_to pool CP_KIND_CLASS c \<and> points_to pool CP_KIND_NAME_AND_TYPE n)"
| "linked pool (Cp_method_ref c n _) =
     (points_to pool CP_KIND_CLASS c \<and> points_to pool CP_KIND_NAME_AND_TYPE n)"
| "linked pool (Cp_interface_method_ref c n _) =
     (points_to pool CP_KIND_CLASS c \<and> points_to pool CP_KIND_NAME_AND_TYPE n)"
| "linked pool (Cp_name_and_type name descriptor) = (has_utf8 pool name \<and> has_utf8 pool descriptor)"
| "linked pool (Cp_method_handle _ r) =
     points_to pool (CP_KIND_FIELD_REF OR CP_KIND_METHOD_REF OR CP_KIND_INTERFACE_METHOD_REF) r"
| "linked pool (Cp_method_type descriptor _) = has_utf8 pool descriptor"
| "linked pool (Cp_invoke_dynamic _ n _) = points_to pool CP_KIND_NAME_AND_TYPE n"
| "linked pool (Cp_dynamic_constant _ n _) = points_to pool CP_KIND_NAME_AND_TYPE n"
| "linked pool _ = True"

text \<open>Two pools with the same kinds and the same strings.\<close>

definition agree :: "constant_pool \<Rightarrow> constant_pool \<Rightarrow> bool" where
  "agree P Q \<longleftrightarrow> length P = length Q \<and>
     (\<forall>j < length P. cp_kind_of (info (P ! j)) = cp_kind_of (info (Q ! j)) \<and>
        (\<forall>s. info (P ! j) = Cp_utf8 s \<longrightarrow> info (Q ! j) = Cp_utf8 s))"

lemma agree_utf8: "agree P Q \<Longrightarrow> j < length P \<Longrightarrow> info (Q ! j) = Cp_utf8 s \<Longrightarrow> info (P ! j) = Cp_utf8 s"
  unfolding agree_def
  by (metis cp_info.inject(1) cp_kind_of.simps(2) kind_eq_iffs(1))

lemma agree_length: "agree P Q \<Longrightarrow> length Q = length P"
  by (simp add: agree_def)

lemma agree_kind:
  "agree P Q \<Longrightarrow> j < length P \<Longrightarrow> cp_kind_of (info (Q ! j)) = cp_kind_of (info (P ! j))"
  by (simp add: agree_def)

lemma agree_has_utf8:
  assumes "agree P Q"
  shows "has_utf8 P s \<longleftrightarrow> has_utf8 Q s"
proof
  assume "has_utf8 P s"
  then obtain j where "j < length P" "info (P ! j) = Cp_utf8 s" by (auto simp: has_utf8_def)
  then show "has_utf8 Q s"
    using assms unfolding agree_def has_utf8_def by (intro exI [of _ j]) simp
next
  assume "has_utf8 Q s"
  then obtain j where "j < length Q" "info (Q ! j) = Cp_utf8 s" by (auto simp: has_utf8_def)
  then show "has_utf8 P s"
    using agree_utf8 [OF assms] agree_length [OF assms] by (auto simp: has_utf8_def)
qed

lemma agree_points_to: "agree P Q \<Longrightarrow> points_to P k p \<longleftrightarrow> points_to Q k p"
  by (auto simp: points_to_def agree_def)

lemma agree_linked: "agree P Q \<Longrightarrow> linked P e \<longleftrightarrow> linked Q e"
  by (cases e; simp only: linked.simps agree_has_utf8 [of P Q] agree_points_to [of P Q])

lemma agree_refl [simp]: "agree P P"
  by (simp add: agree_def)

lemma agree_trans: "agree P Q \<Longrightarrow> agree Q R \<Longrightarrow> agree P R"
  by (simp add: agree_def)

lemma link_utf8_LINK:
  "link_utf8 LINK index reason ctx bs = Inr (s, c, b) \<Longrightarrow> has_utf8 (cp ctx) s \<and> c = ctx \<and> b = bs"
  by (auto simp: link_utf8_def read_iffs checked_get_utf8_iff has_utf8_def)

lemma link_entry_LINK:
  "link_entry LINK index kinds reason ctx bs = Inr (p, c, b) \<Longrightarrow> kinds \<noteq> 0 \<Longrightarrow>
   points_to (cp ctx) kinds p \<and> c = ctx \<and> b = bs"
  by (auto simp: link_entry_def pbind_Inr read_iffs checked_cp_entry_iff points_to_def)

lemma linked_parsers:
  "parse_class_entry LINK k ctx bs = Inr (e, c, b) \<Longrightarrow> linked (cp ctx) e"
  "parse_ref_entry LINK k ctx bs = Inr (e, c, b) \<Longrightarrow> linked (cp ctx) e"
  "parse_string_entry LINK ctx bs = Inr (e, c, b) \<Longrightarrow> linked (cp ctx) e"
  "parse_number_entry k ctx bs = Inr (e, c, b) \<Longrightarrow> linked (cp ctx) e"
  "parse_name_and_type_entry LINK ctx bs = Inr (e, c, b) \<Longrightarrow> linked (cp ctx) e"
  "parse_utf8_entry LINK ctx bs = Inr (e, c, b) \<Longrightarrow> linked (cp ctx) e"
  "parse_method_handle_entry LINK ctx bs = Inr (e, c, b) \<Longrightarrow> linked (cp ctx) e"
  "parse_method_type_entry LINK ctx bs = Inr (e, c, b) \<Longrightarrow> linked (cp ctx) e"
  "parse_indy_entry LINK k ctx bs = Inr (e, c, b) \<Longrightarrow> linked (cp ctx) e"
  unfolding cp_entry_parsers pbind_Inr
  by (auto simp: read_iffs pbind_Inr split: if_splits dest!: link_utf8_LINK link_entry_LINK)

lemma entry_linked:
  "parse_constant_pool_entry LINK ctx bs = Inr (e, c, b) \<Longrightarrow> linked (cp ctx) e"
  unfolding parse_constant_pool_entry_def pbind_Inr next_u_iffs
  by (auto simp: pfail_def split: if_splits dest: linked_parsers)

section \<open>Passes\<close>

lemma store_entry_length [simp]: "length (store_entry pass i e pool) = length pool"
  by (simp add: store_entry_def Let_def)

lemma store_entry_other:
  "j \<noteq> i \<Longrightarrow> \<not> (j = i + 1 \<and> is_wide_entry (info (store_entry pass i e pool ! i))) \<Longrightarrow> i < length pool \<Longrightarrow>
   store_entry pass i e pool ! j = pool ! j"
  by (auto simp: store_entry_def Let_def)

lemma store_entry_here:
  "i < length pool \<Longrightarrow> store_entry pass i e pool ! i =
     \<lparr>my_index = i, info = (if cp_kind_of e \<noteq> CP_KIND_UTF8 \<or> pass = READ then e else info (pool ! i))\<rparr>"
  by (simp add: store_entry_def Let_def)

lemma store_entry_next:
  "is_wide_entry (info (store_entry pass i e pool ! i)) \<Longrightarrow> i + 1 < length pool \<Longrightarrow>
   info (store_entry pass i e pool ! (i + 1)) = Cp_invalid"
  by (auto simp: store_entry_def Let_def split: if_splits)

lemma cp_pass_stop: "\<not> i < n \<Longrightarrow> cp_pass pass n i ctx bs = Inr ((), ctx, bs)"
  by (simp add: cp_pass.simps)

text \<open>One iteration of the loop.\<close>

lemma cp_pass_step:
  assumes "cp_pass pass n i ctx bs = Inr (u, ctx', bs')" and "i < n"
  obtains e c r nxt where "parse_constant_pool_entry pass ctx bs = Inr (e, c, r)"
    and "nxt = (if is_wide_entry (info (store_entry pass i e (cp c) ! i)) then i + 2 else i + 1)"
    and "cp_pass pass n nxt (c\<lparr>cp := store_entry pass i e (cp c)\<rparr>) r = Inr (u, ctx', bs')"
  using assms by (subst (asm) cp_pass.simps) (auto simp: pstore_def Let_def split: sum.splits)

lemma cp_pass_frame:
  assumes "cp_pass pass n i ctx bs = Inr (u, ctx', bs')" and "length (cp ctx) = Suc n"
    and "info (cp ctx ! n) = Cp_invalid"
  shows "length (cp ctx') = Suc n \<and> (\<forall>j < i. cp ctx' ! j = cp ctx ! j) \<and>
    info (cp ctx' ! n) = Cp_invalid"
  using assms
proof (induction "n - i" arbitrary: i ctx bs rule: less_induct)
  case less
  show ?case
  proof (cases "i < n")
    case False
    then show ?thesis using less.prems by (simp add: cp_pass_stop)
  next
    case True
    obtain e c r nxt where e: "parse_constant_pool_entry pass ctx bs = Inr (e, c, r)"
      and nxt: "nxt = (if is_wide_entry (info (store_entry pass i e (cp c) ! i)) then i + 2 else i + 1)"
      and rec: "cp_pass pass n nxt (c\<lparr>cp := store_entry pass i e (cp c)\<rparr>) r = Inr (u, ctx', bs')"
      using cp_pass_step [OF less.prems(1) True] by blast
    have c: "cp c = cp ctx" using cp_entry.pool [OF e] .
    let ?P = "store_entry pass i e (cp c)"
    have len: "length ?P = Suc n" using c less.prems(2) by simp
    have inv: "info (?P ! n) = Cp_invalid"
    proof (cases "n = i + 1 \<and> is_wide_entry (info (?P ! i))")
      case True
      then show ?thesis using store_entry_next [of pass i e "cp c"] len by simp
    next
      case False
      then have "?P ! n = cp c ! n" using True len by (intro store_entry_other) auto
      then show ?thesis using c less.prems(3) by simp
    qed
    have "n - nxt < n - i" using True nxt by auto
    from less.hyps [OF this rec] len inv
    have "length (cp ctx') = Suc n \<and> (\<forall>j < nxt. cp ctx' ! j = ?P ! j) \<and> info (cp ctx' ! n) = Cp_invalid"
      by simp
    moreover have "?P ! j = cp ctx ! j" if "j < i" for j
      using that True len c by (subst store_entry_other) auto
    ultimately show ?thesis using nxt by (auto split: if_splits)
  qed
qed

definition index_ok :: "nat \<Rightarrow> cp_entry \<Rightarrow> bool" where
  "index_ok j e \<longleftrightarrow> (info e = Cp_invalid \<or> my_index e = j)"

definition entry_ok :: "constant_pool \<Rightarrow> nat \<Rightarrow> cp_entry \<Rightarrow> bool" where
  "entry_ok P j e \<longleftrightarrow> linked P (info e) \<and> index_ok j e"

lemma is_wide_kind: "cp_kind_of e = cp_kind_of e' \<Longrightarrow> is_wide_entry e \<longleftrightarrow> is_wide_entry e'"
  by (simp add: is_wide_entry_def)

text \<open>What \<open>LINK\<close> does at index \<open>i\<close>, knowing what \<open>READ\<close> did there: \<open>P\<close> is the pool \<open>READ\<close> left,
  \<open>e1\<close> the entry it stored at \<open>i\<close>.\<close>

lemma link_store:
  assumes P: "info (P ! i) = e1" "length P = Suc n"
    "is_wide_entry e1 \<Longrightarrow> info (P ! (i + 1)) = Cp_invalid"
    and k: "cp_kind_of e2 = cp_kind_of e1" and ag: "agree P Q" and i: "i < n"
    and l: "linked Q e2" and Q': "Q' = store_entry LINK i e2 Q"
  shows "agree P Q' \<and> cp_kind_of (info (Q' ! i)) = cp_kind_of e1 \<and> entry_ok P i (Q' ! i) \<and>
    (is_wide_entry e1 \<longrightarrow> entry_ok P (i + 1) (Q' ! (i + 1)))"
proof -
  have lenQ: "length Q = Suc n" using ag P(2) by (simp add: agree_def)
  have here: "Q' ! i = \<lparr>my_index = i, info = (if cp_kind_of e2 \<noteq> CP_KIND_UTF8 then e2 else info (Q ! i))\<rparr>"
    using Q' store_entry_here [of i Q LINK e2] i lenQ by simp
  have kQ: "cp_kind_of (info (Q ! i)) = cp_kind_of e1"
    using agree_kind [OF ag, of i] P(1,2) i by simp
  have kQ': "cp_kind_of (info (Q' ! i)) = cp_kind_of e1" using here k kQ by simp
  have wide: "is_wide_entry (info (Q' ! i)) \<longleftrightarrow> is_wide_entry e1" by (rule is_wide_kind [OF kQ'])
  have nxt: "info (Q' ! (i + 1)) = Cp_invalid" if "is_wide_entry e1"
    using store_entry_next [of LINK i e2 Q] wide that lenQ i Q' by simp
  have other: "Q' ! j = Q ! j" if "j \<noteq> i" "\<not> (j = i + 1 \<and> is_wide_entry e1)" for j
    using store_entry_other [of j i LINK e2 Q] wide that lenQ i Q' by simp
  have utf8: "info (Q' ! i) = Cp_utf8 s" if s: "info (P ! i) = Cp_utf8 s" for s
  proof -
    have "info (Q ! i) = Cp_utf8 s" using ag i P(2) s by (simp add: agree_def)
    moreover have "cp_kind_of e2 = CP_KIND_UTF8" using k P(1) s by auto
    ultimately show ?thesis using here by simp
  qed
  have "agree P Q'"
    unfolding agree_def
  proof (intro conjI allI impI)
    show "length P = length Q'" using P(2) lenQ Q' by simp
  next
    fix j
    assume j: "j < length P"
    show "cp_kind_of (info (P ! j)) = cp_kind_of (info (Q' ! j))"
    proof (cases "j = i \<or> j = i + 1 \<and> is_wide_entry e1")
      case True
      then show ?thesis using P(1,3) kQ' nxt by auto
    next
      case False
      then show ?thesis using other [of j] ag j by (simp add: agree_def)
    qed
  next
    fix j s
    assume j: "j < length P" and s: "info (P ! j) = Cp_utf8 s"
    show "info (Q' ! j) = Cp_utf8 s"
    proof (cases "j = i \<or> j = i + 1 \<and> is_wide_entry e1")
      case True
      then show ?thesis using utf8 s P(3) by auto
    next
      case False
      then show ?thesis using other [of j] ag j s by (simp add: agree_def)
    qed
  qed
  moreover have "linked P (info (Q' ! i))"
  proof (cases "cp_kind_of e2 = CP_KIND_UTF8")
    case True
    then have "cp_kind_of (info (Q' ! i)) = CP_KIND_UTF8" using kQ' k by simp
    then obtain s where "info (Q' ! i) = Cp_utf8 s" by (auto simp only: kind_eq_iffs)
    then show ?thesis by simp
  next
    case False
    then show ?thesis using here l agree_linked [OF ag] by simp
  qed
  ultimately show ?thesis using kQ' nxt here by (simp add: entry_ok_def index_ok_def)
qed

lemma link_pass:
  assumes "cp_pass READ n i c1 bs = Inr (u1, d1, r1)" and "cp_pass LINK n i c2 bs = Inr (u2, d2, r2)"
    and "length (cp c1) = Suc n" "info (cp c1 ! n) = Cp_invalid" "agree (cp d1) (cp c2)"
    and "\<forall>j < i. entry_ok (cp d1) j (cp c2 ! j)"
  shows "agree (cp d1) (cp d2) \<and> (\<forall>j < n. entry_ok (cp d1) j (cp d2 ! j)) \<and> r2 = r1"
  using assms
proof (induction "n - i" arbitrary: i c1 c2 bs rule: less_induct)
  case less
  show ?case
  proof (cases "i < n")
    case False
    then show ?thesis using less.prems by (simp add: cp_pass_stop)
  next
    case True
    obtain e1 a1 b1 x1 where e1: "parse_constant_pool_entry READ c1 bs = Inr (e1, a1, b1)"
      and x1: "x1 = (if is_wide_entry (info (store_entry READ i e1 (cp a1) ! i)) then i + 2 else i + 1)"
      and rec1: "cp_pass READ n x1 (a1\<lparr>cp := store_entry READ i e1 (cp a1)\<rparr>) b1 = Inr (u1, d1, r1)"
      using cp_pass_step [OF less.prems(1) True] by blast
    obtain e2 a2 b2 x2 where e2: "parse_constant_pool_entry LINK c2 bs = Inr (e2, a2, b2)"
      and x2: "x2 = (if is_wide_entry (info (store_entry LINK i e2 (cp a2) ! i)) then i + 2 else i + 1)"
      and rec2: "cp_pass LINK n x2 (a2\<lparr>cp := store_entry LINK i e2 (cp a2)\<rparr>) b2 = Inr (u2, d2, r2)"
      using cp_pass_step [OF less.prems(2) True] by blast
    have same: "a1 = c1" "a2 = c2" "b2 = b1" and k: "cp_kind_of e2 = cp_kind_of e1"
      using passes_agree e1 e2 unfolding same_entry_def by blast+
    let ?R = "store_entry READ i e1 (cp c1)" and ?Q = "store_entry LINK i e2 (cp c2)"
    have R: "?R ! i = \<lparr>my_index = i, info = e1\<rparr>" "length ?R = Suc n"
      using store_entry_here [of i "cp c1" READ e1] True less.prems(3) by simp_all
    have x1': "x1 = (if is_wide_entry e1 then i + 2 else i + 1)" using x1 R same by simp
    have Rn: "info (?R ! n) = Cp_invalid"
    proof (cases "n = i + 1 \<and> is_wide_entry e1")
      case True
      then show ?thesis using store_entry_next [of READ i e1 "cp c1"] R by simp
    next
      case False
      then have "?R ! n = cp c1 ! n" using \<open>i < n\<close> R by (intro store_entry_other) auto
      then show ?thesis using less.prems(4) by simp
    qed
    have fr: "length (cp d1) = Suc n" "\<And>j. j < x1 \<Longrightarrow> cp d1 ! j = ?R ! j"
      using cp_pass_frame [OF rec1] R Rn same by auto
    have "info (cp d1 ! i) = e1" using fr(2) [of i] x1' R(1) by (auto split: if_splits)
    moreover have "info (cp d1 ! (i + 1)) = Cp_invalid" if "is_wide_entry e1"
      using fr(2) [of "i + 1"] x1' store_entry_next [of READ i e1 "cp c1"] R that True
      by (simp add: less.prems(3))
    ultimately have ls: "agree (cp d1) ?Q \<and> cp_kind_of (info (?Q ! i)) = cp_kind_of e1 \<and>
        entry_ok (cp d1) i (?Q ! i) \<and> (is_wide_entry e1 \<longrightarrow> entry_ok (cp d1) (i + 1) (?Q ! (i + 1)))"
      using fr(1) k less.prems(5) True entry_linked [OF e2] by (intro link_store) auto
    have x2': "x2 = x1" using x2 x1' ls same is_wide_kind [of "info (?Q ! i)" e1] by simp
    have lenQ: "length (cp c2) = Suc n" using less.prems(5) fr(1) by (simp add: agree_def)
    have ok: "entry_ok (cp d1) j (?Q ! j)" if "j < x1" for j
    proof (cases "j < i")
      case True
      then have "?Q ! j = cp c2 ! j" using lenQ \<open>i < n\<close> by (intro store_entry_other) auto
      then show ?thesis using less.prems(6) True by simp
    next
      case False
      then show ?thesis using ls that x1' by (auto split: if_splits simp: less_Suc_eq)
    qed
    have "n - x1 < n - i" using True x1' by auto
    from less.hyps [OF this rec1 [unfolded same] rec2 [unfolded same x2']] show ?thesis
      using R Rn ls ok same by simp
  qed
qed

section \<open>Descriptors\<close>

definition nat_text :: "constant_pool \<Rightarrow> nat option \<Rightarrow> slice \<Rightarrow> bool" where
  "nat_text pool p descriptor \<longleftrightarrow>
     (\<exists>j name. p = Some j \<and> j < length pool \<and> info (pool ! j) = Cp_name_and_type name descriptor)"

text \<open>The parsed descriptor of an entry is that of the text its name-and-type entry holds.\<close>

fun described :: "constant_pool \<Rightarrow> cp_info \<Rightarrow> bool" where
  "described pool (Cp_field_ref _ n d) =
     (\<exists>text fd. nat_text pool n text \<and> d = Some fd \<and> parse_complete_field_descriptor text = Inr fd)"
| "described pool (Cp_method_ref _ n d) =
     (\<exists>text md. nat_text pool n text \<and> d = Some md \<and> parse_method_descriptor text = Inr md)"
| "described pool (Cp_interface_method_ref _ n d) =
     (\<exists>text md. nat_text pool n text \<and> d = Some md \<and> parse_method_descriptor text = Inr md)"
| "described pool (Cp_invoke_dynamic _ n d) =
     (\<exists>text md. nat_text pool n text \<and> d = Some md \<and> parse_method_descriptor text = Inr md)"
| "described pool (Cp_method_type text d) = (\<exists>md. d = Some md \<and> parse_method_descriptor text = Inr md)"
| "described pool _ = True"

definition agree_nat :: "constant_pool \<Rightarrow> constant_pool \<Rightarrow> bool" where
  "agree_nat P Q \<longleftrightarrow> agree P Q \<and>
     (\<forall>j < length P. \<forall>n d. info (P ! j) = Cp_name_and_type n d \<longrightarrow> info (Q ! j) = Cp_name_and_type n d)"

lemma agree_nat_text: "agree_nat P Q \<Longrightarrow> nat_text P p t \<Longrightarrow> nat_text Q p t"
  unfolding nat_text_def agree_nat_def agree_def by force

lemma agree_described: "agree_nat P Q \<Longrightarrow> described P e \<Longrightarrow> described Q e"
  by (cases e) (auto dest: agree_nat_text)

lemma deref_nat_linked:
  assumes "points_to pool CP_KIND_NAME_AND_TYPE p"
  obtains name ds where "deref_nat pool p = Inr (name, ds)" and "nat_text pool p ds"
proof -
  from assms obtain j where j: "p = Some j" "j < length pool"
    and k: "cp_kind_of (info (pool ! j)) AND CP_KIND_NAME_AND_TYPE \<noteq> 0"
    by (auto simp: points_to_def)
  from k obtain n d where "info (pool ! j) = Cp_name_and_type n d" by (auto simp only: kind_and_iffs)
  then show ?thesis using j that by (auto simp: deref_nat_def nat_text_def)
qed

lemma finish_entry:
  assumes "linked P e"
  shows "finish_constant_pool_entry P e \<noteq> Inl Unreachable"
    and "finish_constant_pool_entry P e = Inr e' \<Longrightarrow>
      cp_kind_of e' = cp_kind_of e \<and> described P e' \<and> linked P e' \<and>
      (cp_kind_of e \<in> {CP_KIND_UTF8, CP_KIND_NAME_AND_TYPE, CP_KIND_INVALID} \<longrightarrow> e' = e)"
proof -
  have "points_to P CP_KIND_NAME_AND_TYPE p \<Longrightarrow> deref_nat P p \<noteq> Inl Unreachable" for p
    by (erule deref_nat_linked) simp
  then show "finish_constant_pool_entry P e \<noteq> Inl Unreachable"
    using assms by (cases e)
      (auto simp: finish_constant_pool_entry_def finish_method_ref_def split: sum.splits prod.splits)
  have d: "points_to P CP_KIND_NAME_AND_TYPE p \<Longrightarrow> deref_nat P p = Inr (x, y) \<Longrightarrow> nat_text P p y" for p x y
    by (erule deref_nat_linked) simp
  assume "finish_constant_pool_entry P e = Inr e'"
  then show "cp_kind_of e' = cp_kind_of e \<and> described P e' \<and> linked P e' \<and>
      (cp_kind_of e \<in> {CP_KIND_UTF8, CP_KIND_NAME_AND_TYPE, CP_KIND_INVALID} \<longrightarrow> e' = e)"
    using assms by (cases e)
      (auto simp: finish_constant_pool_entry_def finish_method_ref_def
        split: sum.splits prod.splits intro!: exI dest: d)
qed

text \<open>One step of the last pass.\<close>

lemma finish_step:
  assumes ok: "\<forall>j < length P. entry_ok P j (P ! j)" and i: "i < length P"
    and f: "finish_constant_pool_entry P (info (P ! i)) = Inr e"
    and Q: "Q = P[i := (P ! i)\<lparr>info := e\<rparr>]"
  shows "agree_nat P Q \<and> (\<forall>j < length Q. entry_ok Q j (Q ! j)) \<and> described Q (info (Q ! i)) \<and>
    (\<forall>j < length P. described P (info (P ! j)) \<longrightarrow> described Q (info (Q ! j)))"
proof -
  have l: "linked P (info (P ! i))" using ok i by (simp add: entry_ok_def)
  have e: "cp_kind_of e = cp_kind_of (info (P ! i))" "described P e" "linked P e"
    and same: "cp_kind_of (info (P ! i)) \<in> {CP_KIND_UTF8, CP_KIND_NAME_AND_TYPE, CP_KIND_INVALID} \<longrightarrow>
      e = info (P ! i)"
    using finish_entry(2) [OF l f] by simp_all
  have Qj: "Q ! j = (if j = i then (P ! i)\<lparr>info := e\<rparr> else P ! j)" for j
    using i Q by (simp add: nth_list_update)
  have len: "length Q = length P" using Q by simp
  have an: "agree_nat P Q"
    using e(1) same unfolding agree_nat_def agree_def by (auto simp: Qj len)
  then have ag: "agree P Q" by (simp add: agree_nat_def)
  have "entry_ok Q j (Q ! j)" if "j < length Q" for j
    using that ok e(3) same agree_linked [OF ag] len i
    by (auto simp: Qj entry_ok_def index_ok_def)
  moreover have "described Q (info (Q ! j))" if "j < length P" "described P (info (P ! j))" for j
    using agree_described [OF an that(2)] agree_described [OF an e(2)] by (simp add: Qj)
  moreover have "described Q (info (Q ! i))"
    using agree_described [OF an e(2)] by (simp add: Qj)
  ultimately show ?thesis using an by blast
qed

lemma agree_nat_trans: "agree_nat P Q \<Longrightarrow> agree_nat Q R \<Longrightarrow> agree_nat P R"
  unfolding agree_nat_def using agree_trans [of P Q R] agree_length [of P Q] by auto

lemma finish_pool_ok:
  assumes "finish_pool P is = Inr Q" and "\<forall>j < length P. entry_ok P j (P ! j)"
    and "\<forall>i \<in> set is. i < length P"
  shows "agree_nat P Q \<and> (\<forall>j < length Q. entry_ok Q j (Q ! j)) \<and>
    (\<forall>j < length Q. j \<in> set is \<or> described P (info (P ! j)) \<longrightarrow> described Q (info (Q ! j)))"
  using assms
proof (induction "is" arbitrary: P)
  case Nil
  then show ?case by (auto simp: agree_nat_def)
next
  case (Cons i "is")
  from Cons.prems(1) obtain e where e: "finish_constant_pool_entry P (info (P ! i)) = Inr e"
    and r: "finish_pool (P[i := (P ! i)\<lparr>info := e\<rparr>]) is = Inr Q"
    by (auto split: sum.splits)
  let ?P = "P[i := (P ! i)\<lparr>info := e\<rparr>]"
  have i: "i < length P" using Cons.prems(3) by simp
  have st: "agree_nat P ?P" "\<forall>j < length ?P. entry_ok ?P j (?P ! j)" "described ?P (info (?P ! i))"
    "\<forall>j < length P. described P (info (P ! j)) \<longrightarrow> described ?P (info (?P ! j))"
    using finish_step [OF Cons.prems(2) i e refl] by auto
  have ih: "agree_nat ?P Q" "\<forall>j < length Q. entry_ok Q j (Q ! j)"
    "\<forall>j < length Q. j \<in> set is \<or> described ?P (info (?P ! j)) \<longrightarrow> described Q (info (Q ! j))"
    using Cons.IH [OF r st(2)] Cons.prems(3) by auto
  have "length Q = length P" using ih(1) by (auto simp: agree_nat_def dest: agree_length)
  then show ?case using st(3,4) ih agree_nat_trans [OF st(1) ih(1)] by auto
qed

lemma finish_pool_reachable:
  assumes "\<forall>j < length P. entry_ok P j (P ! j)" and "\<forall>i \<in> set is. i < length P"
  shows "finish_pool P is \<noteq> Inl Unreachable"
  using assms
proof (induction "is" arbitrary: P)
  case (Cons i "is")
  have i: "i < length P" using Cons.prems(2) by simp
  have l: "linked P (info (P ! i))" using Cons.prems(1) i by (simp add: entry_ok_def)
  show ?case
  proof (cases "finish_constant_pool_entry P (info (P ! i))")
    case (Inl e)
    then show ?thesis using finish_entry(1) [OF l] by auto
  next
    case (Inr e)
    then show ?thesis
      using Cons.IH [of "P[i := (P ! i)\<lparr>info := e\<rparr>]"] finish_step [OF Cons.prems(1) i Inr refl]
        Cons.prems(2) by auto
  qed
qed simp

section \<open>The entry parser never reaches undefined behaviour\<close>

lemma link_reachable:
  "link_utf8 pass index reason ctx bs \<noteq> Inl Unreachable"
  "expected_printable kinds \<Longrightarrow> link_entry pass index kinds reason ctx bs \<noteq> Inl Unreachable"
  by (auto simp: link_utf8_def link_entry_def pbind_Inl read_errs read_iffs
      checked_get_utf8_reachable checked_cp_entry_reachable)

lemma entry_parsers_reachable:
  "parse_class_entry pass k ctx bs \<noteq> Inl Unreachable"
  "parse_ref_entry pass k ctx bs \<noteq> Inl Unreachable"
  "parse_string_entry pass ctx bs \<noteq> Inl Unreachable"
  "parse_number_entry k ctx bs \<noteq> Inl Unreachable"
  "parse_name_and_type_entry pass ctx bs \<noteq> Inl Unreachable"
  "parse_utf8_entry pass ctx bs \<noteq> Inl Unreachable"
  "parse_method_handle_entry pass ctx bs \<noteq> Inl Unreachable"
  "parse_method_type_entry pass ctx bs \<noteq> Inl Unreachable"
  "parse_indy_entry pass k ctx bs \<noteq> Inl Unreachable"
  unfolding cp_entry_parsers
  by (auto simp: pbind_Inl read_errs link_reachable split: if_splits)

lemma entry_reachable: "parse_constant_pool_entry pass ctx bs \<noteq> Inl Unreachable"
  unfolding parse_constant_pool_entry_def
  by (auto simp: pbind_Inl read_errs entry_parsers_reachable split: if_splits)

lemma cp_pass_reachable: "cp_pass pass n i ctx bs \<noteq> Inl Unreachable"
proof (induction pass n i ctx bs rule: cp_pass.induct)
  case (1 pass n i ctx bs)
  show ?case
    using 1 entry_reachable [of pass ctx bs]
    by (subst cp_pass.simps) (auto simp: pstore_def Let_def split: sum.splits)
qed

section \<open>The parsed pool\<close>

definition pool_ok :: "constant_pool \<Rightarrow> bool" where
  "pool_ok pool \<longleftrightarrow>
     (\<forall>j < length pool. linked pool (info (pool ! j)) \<and> described pool (info (pool ! j)) \<and>
        index_ok j (pool ! j))"

text \<open>The pool the second pass leaves.\<close>

lemma linked_pool:
  assumes r: "cp_pass READ n 1 (c\<lparr>cp := init_constant_pool n\<rparr>) bs = Inr (u1, d1, r1)"
    and l: "cp_pass LINK n 1 d1 bs = Inr (u2, d2, r2)"
  shows "length (cp d2) = Suc n \<and> info (cp d2 ! n) = Cp_invalid \<and>
    (\<forall>j < length (cp d2). entry_ok (cp d2) j (cp d2 ! j)) \<and> info (cp d2 ! 0) = Cp_invalid"
proof -
  have i: "length (init_constant_pool n) = Suc n" "info (init_constant_pool n ! n) = Cp_invalid"
    "info (init_constant_pool n ! 0) = Cp_invalid"
    by (simp_all add: init_constant_pool_def nth_append del: replicate_Suc)
  have f1: "length (cp d1) = Suc n" "info (cp d1 ! n) = Cp_invalid" "info (cp d1 ! 0) = Cp_invalid"
    using cp_pass_frame [OF r] i by auto
  have f2: "length (cp d2) = Suc n" "info (cp d2 ! n) = Cp_invalid" "info (cp d2 ! 0) = Cp_invalid"
    using cp_pass_frame [OF l] f1 by auto
  have lp: "agree (cp d1) (cp d2)" "\<forall>j < n. entry_ok (cp d1) j (cp d2 ! j)"
    using link_pass [OF r l] i f1 by (auto simp: entry_ok_def index_ok_def)
  have "entry_ok (cp d2) j (cp d2 ! j)" if "j < Suc n" for j
    using that lp f2(2) agree_linked [OF lp(1)]
    by (cases "j = n") (auto simp: entry_ok_def index_ok_def)
  then show ?thesis using f2 by simp
qed

lemma parse_constant_pool_ok:
  assumes "parse_constant_pool ctx bs = Inr (pool, ctx', bs')"
  shows "cp ctx' = pool \<and> pool_ok pool \<and> pool \<noteq> [] \<and> info (pool ! 0) = Cp_invalid"
proof -
  from assms obtain cnt c1 b1 u1 d1 r1 u2 d2 where
    r: "cp_pass READ (unat cnt) 1 (c1\<lparr>cp := init_constant_pool (unat cnt)\<rparr>) b1 = Inr (u1, d1, r1)"
    and l: "cp_pass LINK (unat cnt) 1 d1 b1 = Inr (u2, d2, bs')"
    and f: "finish_pool (cp d2) [1..<unat (cnt :: u16)] = Inr pool" and c: "ctx' = d2\<lparr>cp := pool\<rparr>"
    by (auto simp: parse_constant_pool_def split: sum.splits)
  let ?n = "unat cnt"
  have lp: "length (cp d2) = Suc ?n" "info (cp d2 ! ?n) = Cp_invalid" "info (cp d2 ! 0) = Cp_invalid"
    "\<forall>j < length (cp d2). entry_ok (cp d2) j (cp d2 ! j)"
    using linked_pool [OF r l] by auto
  have fp: "agree_nat (cp d2) pool" "\<forall>j < length pool. entry_ok pool j (pool ! j)"
    "\<forall>j < length pool. j \<in> set [1..<?n] \<or> described (cp d2) (info (cp d2 ! j)) \<longrightarrow>
       described pool (info (pool ! j))"
    using finish_pool_ok [OF f lp(4)] lp(1) by auto
  have len: "length pool = Suc ?n" using fp(1) lp(1) by (auto simp: agree_nat_def dest: agree_length)
  have "described pool (info (pool ! j))" if "j < length pool" for j
  proof (cases "j \<in> set [1..<?n]")
    case True
    then show ?thesis using fp(3) that by simp
  next
    case False
    then have "j = 0 \<or> j = ?n" using that len by auto
    then have "described (cp d2) (info (cp d2 ! j))" using lp(2,3) by auto
    then show ?thesis using fp(3) that by simp
  qed
  moreover have "cp_kind_of (info (pool ! 0)) = CP_KIND_INVALID"
    using fp(1) lp(1,3) by (auto simp: agree_nat_def agree_def)
  then have "info (pool ! 0) = Cp_invalid" by (cases "info (pool ! 0)") simp_all
  ultimately show ?thesis using fp(2) c len by (auto simp: pool_ok_def entry_ok_def)
qed

section \<open>Properties\<close>

text \<open>C4: after a successful parse of the constant pool every entry is consistent: each string
  it holds comes from a string entry, each pointer leads inside the pool to an entry of the
  kind its field needs (class, name-and-type, or field/method reference), each parsed
  descriptor is the parse of the text in the entry's name-and-type, and each valid entry
  records its own index.\<close>

theorem constant_pool_consistent:
  assumes "parse_constant_pool ctx bs = Inr (pool, ctx', bs')"
  shows "cp ctx' = pool \<and> pool_ok pool"
  using parse_constant_pool_ok [OF assms] by blast


definition no_ctx :: classfile_parse_ctx where
  "no_ctx = \<lparr>cp = [], current_code_max_pc = 0, indy_insns_count = 0\<rparr>"

definition sample_pool_bytes :: "u8 list" where
  "sample_pool_bytes = [0, 7, 1, 0, 1, 0x41, 1, 0, 1, 0x49, 7, 0, 1, 12, 0, 1, 0, 2, 9, 0, 3, 0, 4, 8, 0, 1]"

lemma sample_pool_parses:
  "case parse_constant_pool no_ctx sample_pool_bytes of
     Inl e \<Rightarrow> False | Inr (pool, ctx', rest) \<Rightarrow> length pool = 8 \<and> rest = []"
  by code_simp

theorem constant_pool_consistent_witness:
  "case parse_constant_pool no_ctx sample_pool_bytes of
     Inl e \<Rightarrow> False | Inr (pool, ctx', rest) \<Rightarrow> length pool = 8 \<and> cp ctx' = pool \<and> pool_ok pool"
  using sample_pool_parses constant_pool_consistent [of no_ctx sample_pool_bytes]
  by (auto split: sum.splits)

end
