(* ===== verification/Instructions.thy ===== *)
theory Instructions
  imports Constant_Pool
begin

unbundle bit_operations_syntax

text \<open>
  Model of the instruction decoder of \<open>vm/classfile.c\<close>: branch-target checks, the two switch
  instructions, \<open>parse_insn_impl\<close> with its canonicalisations (\<open>aload_0\<close>, \<open>aload 0\<close> and
  \<open>wide aload 0\<close> become one instruction), \<open>parse_insn\<close>, and the conversion of program counters
  to instruction indices. A program counter is a natural number: the C \<open>int\<close> it is stored in
  holds any offset into a class file smaller than 2 GiB. Results: each decoded instruction
  carries the operand its kind requires, with pool entries of the right kind and branch
  targets inside the code; the canonicalisations agree; every opcode of the JVM is decoded.
\<close>

section \<open>Branch targets and switches\<close>

definition checked_pc :: "nat \<Rightarrow> int \<Rightarrow> classfile_parse_ctx \<Rightarrow> format_error + int" where
  "checked_pc insn_pc offset ctx =
     (let target = int insn_pc + offset; overflow = target < - (2 ^ 31) \<or> target \<ge> 2 ^ 31 in
      if overflow \<or> target < 0 \<or> target \<ge> current_code_max_pc ctx
      then Inl (Format_static ''Branch target out of bounds'') else Inr target)"

definition pchecked_pc :: "nat \<Rightarrow> int \<Rightarrow> int parser" where
  "pchecked_pc insn_pc offset = pbind pctx (\<lambda>ctx. plift (checked_pc insn_pc offset ctx))"

definition mk_insn :: "insn_code_kind \<Rightarrow> insn_operand \<Rightarrow> bytecode_insn" where
  "mk_insn k arg = \<lparr>kind = k, original_pc = 0, operand = arg\<rparr>"

text \<open>\<open>while (pc % 4 != 0) { reader_next_u8(...); pc++; }\<close>\<close>

function skip_padding :: "nat \<Rightarrow> unit parser" where
  "skip_padding pc =
     (if pc mod 4 \<noteq> 0 then pbind (reader_next_u8 ''tableswitch padding'') (\<lambda>_. skip_padding (pc + 1))
      else pret ())"
  by pat_completeness auto
termination
  by (relation "measure (\<lambda>pc. (4 - pc mod 4) mod 4)") (simp, auto simp: mod_Suc)

declare skip_padding.simps [simp del]

definition parse_tableswitch_insn :: "nat \<Rightarrow> bytecode_insn parser" where
  "parse_tableswitch_insn pc =
     pbind (skip_padding (pc + 1)) (\<lambda>_.
     pbind (reader_next_s32 ''tableswitch default target'') (\<lambda>default_offset.
     pbind (pchecked_pc pc default_offset) (\<lambda>default_target.
     pbind (reader_next_s32 ''tableswitch low'') (\<lambda>low.
     pbind (reader_next_s32 ''tableswitch high'') (\<lambda>high.
     let targets_count = high - low + 1 in
     pbind (pcheck (\<not> targets_count > 2 ^ 15)
              (Format_static ''tableswitch instruction is too large'')) (\<lambda>_.
     pbind (pcheck (\<not> targets_count \<le> 0) (Format_static ''tableswitch high < low'')) (\<lambda>_.
     pbind (prepeat (nat targets_count)
              (pbind (reader_next_s32 ''tableswitch target'') (pchecked_pc pc))) (\<lambda>targets.
     pret (mk_insn insn_tableswitch
             (Tableswitch \<lparr>ts_default_target = default_target, ts_low = low, ts_high = high,
                           ts_targets = targets\<rparr>))))))))))"

definition parse_lookupswitch_insn :: "nat \<Rightarrow> bytecode_insn parser" where
  "parse_lookupswitch_insn pc =
     pbind (skip_padding (pc + 1)) (\<lambda>_.
     pbind (reader_next_s32 ''lookupswitch default target'') (\<lambda>default_offset.
     pbind (pchecked_pc pc default_offset) (\<lambda>default_target.
     pbind (reader_next_s32 ''lookupswitch pairs count'') (\<lambda>pairs_count.
     pbind (pcheck (\<not> (pairs_count > 2 ^ 15 \<or> pairs_count < 0))
              (Format_static ''lookupswitch instruction is too large'')) (\<lambda>_.
     pbind (prepeat (nat pairs_count)
              (pbind (reader_next_s32 ''lookupswitch key'') (\<lambda>key.
               pbind (reader_next_s32 ''lookupswitch target'') (\<lambda>offset.
               pbind (pchecked_pc pc offset) (\<lambda>target. pret (key, target)))))) (\<lambda>pairs.
     pret (mk_insn insn_lookupswitch
             (Lookupswitch \<lparr>ls_default_target = default_target, ls_keys = map fst pairs,
                            ls_targets = map snd pairs\<rparr>))))))))"

definition parse_atype :: "u8 \<Rightarrow> format_error + type_kind" where
  "parse_atype atype =
     (case map_of [(4, TYPE_KIND_BOOLEAN), (5, TYPE_KIND_CHAR), (6, TYPE_KIND_FLOAT),
                   (7, TYPE_KIND_DOUBLE), (8, TYPE_KIND_BYTE), (9, TYPE_KIND_SHORT),
                   (10, TYPE_KIND_INT), (11, TYPE_KIND_LONG)] atype of
        None \<Rightarrow> Inl (Bad_newarray_type atype)
      | Some k \<Rightarrow> Inr k)"

section \<open>Opcode tables\<close>

text \<open>The cases of the switch in \<open>parse_insn_impl\<close>, in its order, grouped by what they read.\<close>

text \<open>Opcodes without operands.\<close>

definition nop_insns :: "(u8 \<times> insn_code_kind) list" where
  "nop_insns = [
    (0x00, insn_nop), (0x01, insn_aconst_null)
   ]"

definition array_load_insns :: "(u8 \<times> insn_code_kind) list" where
  "array_load_insns = [
    (0x2e, insn_iaload), (0x2f, insn_laload), (0x30, insn_faload), (0x31, insn_daload),
    (0x32, insn_aaload), (0x33, insn_baload), (0x34, insn_caload), (0x35, insn_saload)
   ]"

definition arith_insns :: "(u8 \<times> insn_code_kind) list" where
  "arith_insns = [
    (0x4f, insn_iastore), (0x50, insn_lastore), (0x51, insn_fastore), (0x52, insn_dastore),
    (0x53, insn_aastore), (0x54, insn_bastore), (0x55, insn_castore), (0x56, insn_sastore),
    (0x57, insn_pop), (0x58, insn_pop2), (0x59, insn_dup), (0x5a, insn_dup_x1),
    (0x5b, insn_dup_x2), (0x5c, insn_dup2), (0x5d, insn_dup2_x1), (0x5e, insn_dup2_x2),
    (0x5f, insn_swap), (0x60, insn_iadd), (0x61, insn_ladd), (0x62, insn_fadd), (0x63, insn_dadd),
    (0x64, insn_isub), (0x65, insn_lsub), (0x66, insn_fsub), (0x67, insn_dsub), (0x68, insn_imul),
    (0x69, insn_lmul), (0x6a, insn_fmul), (0x6b, insn_dmul), (0x6c, insn_idiv), (0x6d, insn_ldiv),
    (0x6e, insn_fdiv), (0x6f, insn_ddiv), (0x70, insn_irem), (0x71, insn_lrem), (0x72, insn_frem),
    (0x73, insn_drem), (0x74, insn_ineg), (0x75, insn_lneg), (0x76, insn_fneg), (0x77, insn_dneg),
    (0x78, insn_ishl), (0x79, insn_lshl), (0x7a, insn_ishr), (0x7b, insn_lshr), (0x7c, insn_iushr),
    (0x7d, insn_lushr), (0x7e, insn_iand), (0x7f, insn_land), (0x80, insn_ior), (0x81, insn_lor),
    (0x82, insn_ixor), (0x83, insn_lxor)
   ]"

definition conversion_insns :: "(u8 \<times> insn_code_kind) list" where
  "conversion_insns = [
    (0x85, insn_i2l), (0x86, insn_i2f), (0x87, insn_i2d), (0x88, insn_l2i), (0x89, insn_l2f),
    (0x8a, insn_l2d), (0x8b, insn_f2i), (0x8c, insn_f2l), (0x8d, insn_f2d), (0x8e, insn_d2i),
    (0x8f, insn_d2l), (0x90, insn_d2f), (0x91, insn_i2b), (0x92, insn_i2c), (0x93, insn_i2s),
    (0x94, insn_lcmp), (0x95, insn_fcmpl), (0x96, insn_fcmpg), (0x97, insn_dcmpl),
    (0x98, insn_dcmpg)
   ]"

definition return_insns :: "(u8 \<times> insn_code_kind) list" where
  "return_insns = [
    (0xac, insn_ireturn), (0xad, insn_lreturn), (0xae, insn_freturn), (0xaf, insn_dreturn),
    (0xb0, insn_areturn), (0xb1, insn_return)
   ]"

definition object_insns :: "(u8 \<times> insn_code_kind) list" where
  "object_insns = [
    (0xbe, insn_arraylength), (0xbf, insn_athrow), (0xc2, insn_monitorenter),
    (0xc3, insn_monitorexit)
   ]"

definition simple_insns :: "(u8 \<times> insn_code_kind) list" where
  "simple_insns = nop_insns @ array_load_insns @ arith_insns @ conversion_insns @ return_insns @ object_insns"

text \<open>Loads, stores and \<open>ret\<close> with a local index of one byte, or of two after \<open>wide\<close>.\<close>

definition load_insns :: "(u8 \<times> insn_code_kind \<times> string) list" where
  "load_insns = [
    (0x15, insn_iload, ''iload index''), (0x16, insn_lload, ''lload index''),
    (0x17, insn_fload, ''fload index''), (0x18, insn_dload, ''dload index''),
    (0x19, insn_aload, ''aload index'')
   ]"

definition store_insns :: "(u8 \<times> insn_code_kind \<times> string) list" where
  "store_insns = [
    (0x36, insn_istore, ''istore index''), (0x37, insn_lstore, ''lstore index''),
    (0x38, insn_fstore, ''fstore index''), (0x39, insn_dstore, ''dstore index''),
    (0x3a, insn_astore, ''astore index'')
   ]"

definition ret_insns :: "(u8 \<times> insn_code_kind \<times> string) list" where
  "ret_insns = [
    (0xa9, insn_ret, ''ret index'')
   ]"

definition local_insns :: "(u8 \<times> insn_code_kind \<times> string) list" where
  "local_insns = load_insns @ store_insns @ ret_insns"

definition wide_local_insns :: "(u8 \<times> insn_code_kind \<times> string) list" where
  "wide_local_insns = [
    (0x15, insn_iload, ''wide iload index''), (0x16, insn_lload, ''wide lload index''),
    (0x17, insn_fload, ''wide fload index''), (0x18, insn_dload, ''wide dload index''),
    (0x19, insn_aload, ''wide aload index''), (0x36, insn_istore, ''wide istore index''),
    (0x37, insn_lstore, ''wide lstore index''), (0x38, insn_fstore, ''wide fstore index''),
    (0x39, insn_dstore, ''wide dstore index''), (0x3a, insn_astore, ''wide astore index''),
    (0xa9, insn_ret, ''wide ret index'')
   ]"

text \<open>The first opcode of each group of four with the index in the opcode.\<close>

definition short_load_insns :: "(u8 \<times> insn_code_kind) list" where
  "short_load_insns = [
    (0x1a, insn_iload), (0x1e, insn_lload), (0x22, insn_fload), (0x26, insn_dload),
    (0x2a, insn_aload)
   ]"

definition short_store_insns :: "(u8 \<times> insn_code_kind) list" where
  "short_store_insns = [
    (0x3b, insn_istore), (0x3f, insn_lstore), (0x43, insn_fstore), (0x47, insn_dstore),
    (0x4b, insn_astore)
   ]"

text \<open>Branches with an offset of two bytes, or of four.\<close>

definition if_insns :: "(u8 \<times> insn_code_kind \<times> string) list" where
  "if_insns = [
    (0x99, insn_ifeq, ''if_eq offset''), (0x9a, insn_ifne, ''if_ne offset''),
    (0x9b, insn_iflt, ''if_lt offset''), (0x9c, insn_ifge, ''if_ge offset''),
    (0x9d, insn_ifgt, ''if_gt offset''), (0x9e, insn_ifle, ''if_le offset''),
    (0x9f, insn_if_icmpeq, ''if_icmpeq offset''), (0xa0, insn_if_icmpne, ''if_icmpne offset''),
    (0xa1, insn_if_icmplt, ''if_icmplt offset''), (0xa2, insn_if_icmpge, ''if_icmpge offset''),
    (0xa3, insn_if_icmpgt, ''if_icmpgt offset''), (0xa4, insn_if_icmple, ''if_icmple offset''),
    (0xa5, insn_if_acmpeq, ''if_acmpeq offset''), (0xa6, insn_if_acmpne, ''if_acmpne offset''),
    (0xa7, insn_goto, ''goto offset''), (0xa8, insn_jsr, ''jsr offset'')
   ]"

definition null_insns :: "(u8 \<times> insn_code_kind \<times> string) list" where
  "null_insns = [
    (0xc6, insn_ifnull, ''ifnull offset''), (0xc7, insn_ifnonnull, ''ifnonnull offset'')
   ]"

definition wide_branch_insns :: "(u8 \<times> insn_code_kind \<times> string) list" where
  "wide_branch_insns = [
    (0xc8, insn_goto, ''goto_w offset''), (0xc9, insn_jsr, ''jsr_w offset'')
   ]"

text \<open>Instructions whose operand is a two-byte index of a pool entry of the given kinds.\<close>

definition member_insns :: "(u8 \<times> insn_code_kind \<times> string \<times> u32 \<times> string) list" where
  "member_insns = [
    (0xb2, insn_getstatic, ''getstatic index'', CP_KIND_FIELD_REF, ''getstatic field ref''),
    (0xb3, insn_putstatic, ''putstatic index'', CP_KIND_FIELD_REF, ''putstatic field ref''),
    (0xb4, insn_getfield, ''getfield index'', CP_KIND_FIELD_REF, ''getfield field ref''),
    (0xb5, insn_putfield, ''putfield index'', CP_KIND_FIELD_REF, ''putfield field ref''),
    (0xb6, insn_invokevirtual, ''invokevirtual index'', CP_KIND_METHOD_REF OR CP_KIND_INTERFACE_METHOD_REF,
      ''invokevirtual method ref''),
    (0xb7, insn_invokespecial, ''invokespecial index'', CP_KIND_METHOD_REF OR CP_KIND_INTERFACE_METHOD_REF,
      ''invokespecial method ref''),
    (0xb8, insn_invokestatic, ''invokestatic index'', CP_KIND_METHOD_REF OR CP_KIND_INTERFACE_METHOD_REF,
      ''invokestatic method ref'')
   ]"

definition class_insns :: "(u8 \<times> insn_code_kind \<times> string \<times> u32 \<times> string) list" where
  "class_insns = [
    (0xbb, insn_new, ''new index'', CP_KIND_CLASS, ''new class''),
    (0xbd, insn_anewarray, ''anewarray index'', CP_KIND_CLASS, ''anewarray class''),
    (0xc0, insn_checkcast, ''checkcast index'', CP_KIND_CLASS, ''checkcast class''),
    (0xc1, insn_instanceof, ''instanceof index'', CP_KIND_CLASS, ''instanceof class'')
   ]"

definition cp_insns :: "(u8 \<times> insn_code_kind \<times> string \<times> u32 \<times> string) list" where
  "cp_insns = member_insns @ class_insns"

section \<open>The decoder\<close>

text \<open>\<open>iconst_m1\<close> to \<open>dconst_1\<close>; the float and double immediates are given by their bits.\<close>

definition const_insn :: "u8 \<Rightarrow> (insn_code_kind \<times> insn_operand) option" where
  "const_insn opcode =
     (if opcode \<in> {0x02, 0x03, 0x04, 0x05, 0x06, 0x07, 0x08}
      then Some (insn_iconst, Integer_imm (uint opcode - 0x03))
      else if opcode \<in> {0x09, 0x0a} then Some (insn_lconst, Integer_imm (uint opcode - 0x09))
      else map_of [(0x0b, (insn_fconst, F_imm 0)), (0x0c, (insn_fconst, F_imm 0x3f800000)),
                   (0x0d, (insn_fconst, F_imm 0x40000000)),
                   (0x0e, (insn_dconst, D_imm 0)), (0x0f, (insn_dconst, D_imm 0x3ff0000000000000))]
             opcode)"

definition short_local_insn :: "u8 \<Rightarrow> (insn_code_kind \<times> insn_operand) option" where
  "short_local_insn opcode =
     map_of (concat (map (\<lambda>(first, k). map (\<lambda>n. (first + n, (k, Index (ucast n)))) [0, 1, 2, 3])
                       (short_load_insns @ short_store_insns))) opcode"

definition parse_push_insn :: "u8 \<Rightarrow> bytecode_insn parser" where
  "parse_push_insn opcode =
     (if opcode = 0x10
      then pbind (reader_next_s8 ''bipush immediate'') (\<lambda>v. pret (mk_insn insn_iconst (Integer_imm v)))
      else pbind (reader_next_s16 ''sipush immediate'') (\<lambda>v. pret (mk_insn insn_iconst (Integer_imm v))))"

text \<open>\<open>ldc\<close> and \<open>ldc_w\<close>: numeric entries become immediates.\<close>

definition parse_ldc_insn :: "u8 \<Rightarrow> bytecode_insn parser" where
  "parse_ldc_insn opcode =
     pbind (if opcode = 0x12 then pbind (reader_next_u8 ''ldc index'') (\<lambda>i. pret (ucast i))
            else reader_next_u16 ''ldc_w index'') (\<lambda>index.
     pbind (pcp_entry index (CP_KIND_INTEGER OR CP_KIND_FLOAT OR CP_KIND_STRING OR CP_KIND_CLASS)
              ''ldc/ldc_w index'') (\<lambda>ent.
     pbind pctx (\<lambda>ctx.
     pret (case info (cp ctx ! ent) of
             Cp_integer v \<Rightarrow> mk_insn insn_iconst (Integer_imm v)
           | Cp_float v \<Rightarrow> mk_insn insn_fconst (F_imm v)
           | _ \<Rightarrow> mk_insn insn_ldc (Cp ent)))))"

definition parse_ldc2_w_insn :: "bytecode_insn parser" where
  "parse_ldc2_w_insn =
     pbind (reader_next_u16 ''ldc2_w index'') (\<lambda>index.
     pbind (pcp_entry index (CP_KIND_DOUBLE OR CP_KIND_LONG) ''ldc2_w index'') (\<lambda>ent.
     pbind pctx (\<lambda>ctx.
     (case info (cp ctx ! ent) of
        Cp_double v \<Rightarrow> pret (mk_insn insn_dconst (D_imm v))
      | Cp_long v \<Rightarrow> pret (mk_insn insn_lconst (Integer_imm v))
      | _ \<Rightarrow> pfail Unreachable))))"

definition parse_iinc_insn :: "bytecode_insn parser" where
  "parse_iinc_insn =
     pbind (reader_next_u8 ''iinc index'') (\<lambda>index.
     pbind (reader_next_s8 ''iinc const'') (\<lambda>const. pret (mk_insn insn_iinc (Iinc (ucast index) const))))"

definition parse_branch_insn :: "nat \<Rightarrow> insn_code_kind \<Rightarrow> int parser \<Rightarrow> bytecode_insn parser" where
  "parse_branch_insn pc k read_offset =
     pbind read_offset (\<lambda>offset.
     pbind (pchecked_pc pc offset) (\<lambda>target. pret (mk_insn k (Index (word_of_int target)))))"

definition parse_invokeinterface_insn :: "bytecode_insn parser" where
  "parse_invokeinterface_insn =
     pbind (reader_next_u16 ''invokeinterface index'') (\<lambda>index.
     pbind (pcp_entry index CP_KIND_INTERFACE_METHOD_REF ''invokeinterface method ref'') (\<lambda>entry.
     pbind (reader_next_u8 ''invokeinterface count'') (\<lambda>_.
     pbind (reader_next_u8 ''invokeinterface zero'') (\<lambda>_.
     pret (mk_insn insn_invokeinterface (Cp entry))))))"

definition parse_invokedynamic_insn :: "bytecode_insn parser" where
  "parse_invokedynamic_insn =
     pbind (reader_next_u16 ''invokedynamic index'') (\<lambda>index.
     pbind (pcp_entry index CP_KIND_INVOKE_DYNAMIC ''indy method ref'') (\<lambda>entry.
     pbind (reader_next_u16 ''invokedynamic zero'') (\<lambda>_.
     pret (mk_insn insn_invokedynamic (Cp entry)))))"

definition parse_newarray_insn :: "bytecode_insn parser" where
  "parse_newarray_insn =
     pbind (reader_next_u8 ''newarray type'') (\<lambda>atype.
     pbind (plift (parse_atype atype)) (\<lambda>parsed. pret (mk_insn insn_newarray (Array_type parsed))))"

definition parse_cp_insn :: "insn_code_kind \<times> string \<times> u32 \<times> string \<Rightarrow> bytecode_insn parser" where
  "parse_cp_insn row = (case row of (k, index_reason, kinds, reason) \<Rightarrow>
     pbind (reader_next_u16 index_reason) (\<lambda>index.
     pbind (pcp_entry index kinds reason) (\<lambda>entry. pret (mk_insn k (Cp entry)))))"

text \<open>The default case prints \<open>opcode\<close>, which is \<open>wide\<close> itself and not the widened opcode.\<close>

definition parse_wide_insn :: "u8 \<Rightarrow> bytecode_insn parser" where
  "parse_wide_insn opcode =
     pbind (reader_next_u8 ''widened opcode'') (\<lambda>widened.
     case map_of wide_local_insns widened of
       Some (k, reason) \<Rightarrow>
         pbind (reader_next_u16 reason) (\<lambda>index. pret (mk_insn k (Index (ucast index))))
     | None \<Rightarrow>
         if widened = 0x84 then
           pbind (reader_next_u16 ''wide iinc index'') (\<lambda>index.
           pbind (reader_next_s16 ''wide iinc const'') (\<lambda>const.
           pret (mk_insn insn_iinc (Iinc index const))))
         else pfail (Bad_wide_opcode opcode))"

definition parse_multianewarray_insn :: "bytecode_insn parser" where
  "parse_multianewarray_insn =
     pbind (reader_next_u16 ''multianewarray index'') (\<lambda>index.
     pbind (reader_next_u8 ''multianewarray dimensions'') (\<lambda>dims.
     pbind (pcp_entry index CP_KIND_CLASS ''multianewarray class'') (\<lambda>entry.
     pret (mk_insn insn_multianewarray (Multianewarray entry dims)))))"

text \<open>The cases that read operands of their own.\<close>

definition parse_special_insn :: "u8 \<Rightarrow> nat \<Rightarrow> bytecode_insn parser" where
  "parse_special_insn opcode pc =
     (if opcode \<in> {0x10, 0x11} then parse_push_insn opcode
      else if opcode \<in> {0x12, 0x13} then parse_ldc_insn opcode
      else if opcode = 0x14 then parse_ldc2_w_insn
      else if opcode = 0x84 then parse_iinc_insn
      else if opcode = 0xaa then parse_tableswitch_insn pc
      else if opcode = 0xab then parse_lookupswitch_insn pc
      else if opcode = 0xb9 then parse_invokeinterface_insn
      else if opcode = 0xba then parse_invokedynamic_insn
      else if opcode = 0xbc then parse_newarray_insn
      else if opcode = 0xc4 then parse_wide_insn opcode
      else if opcode = 0xc5 then parse_multianewarray_insn
      else pfail (Bad_opcode opcode))"

definition parse_insn_impl :: "nat \<Rightarrow> bytecode_insn parser" where
  "parse_insn_impl pc =
     pbind (reader_next_u8 ''instruction opcode'') (\<lambda>opcode.
     case map_of simple_insns opcode of Some k \<Rightarrow> pret (mk_insn k No_operand) | None \<Rightarrow>
     case const_insn opcode of Some (k, imm) \<Rightarrow> pret (mk_insn k imm) | None \<Rightarrow>
     case short_local_insn opcode of Some (k, index) \<Rightarrow> pret (mk_insn k index) | None \<Rightarrow>
     case map_of local_insns opcode of
       Some (k, reason) \<Rightarrow>
         pbind (reader_next_u8 reason) (\<lambda>index. pret (mk_insn k (Index (ucast index)))) | None \<Rightarrow>
     case map_of (if_insns @ null_insns) opcode of
       Some (k, reason) \<Rightarrow> parse_branch_insn pc k (reader_next_s16 reason) | None \<Rightarrow>
     case map_of wide_branch_insns opcode of
       Some (k, reason) \<Rightarrow> parse_branch_insn pc k (reader_next_s32 reason) | None \<Rightarrow>
     case map_of cp_insns opcode of Some row \<Rightarrow> parse_cp_insn row | None \<Rightarrow>
     parse_special_insn opcode pc)"

definition parse_insn :: "nat \<Rightarrow> bytecode_insn parser" where
  "parse_insn pc =
     pbind (parse_insn_impl pc) (\<lambda>insn. pret (insn\<lparr>original_pc := word_of_nat pc\<rparr>))"

section \<open>Program counters to instruction indices\<close>

text \<open>\<open>pc_to_insn\<close> holds -1 where no instruction starts.\<close>

definition convert_pc_to_insn :: "int \<Rightarrow> int list \<Rightarrow> format_error + int" where
  "convert_pc_to_insn pc pc_to_insn =
     (let insn = pc_to_insn ! nat pc in if insn = - 1 then Inl (Bad_pc pc) else Inr insn)"

fun convert_all :: "int list \<Rightarrow> int list \<Rightarrow> format_error + int list" where
  "convert_all [] pc_to_insn = Inr []"
| "convert_all (t # ts) pc_to_insn =
     (case convert_pc_to_insn t pc_to_insn of
        Inl e \<Rightarrow> Inl e
      | Inr i \<Rightarrow> (case convert_all ts pc_to_insn of Inl e \<Rightarrow> Inl e | Inr is \<Rightarrow> Inr (i # is)))"

definition is_branch_kind :: "insn_code_kind \<Rightarrow> bool" where
  "is_branch_kind k \<longleftrightarrow> k \<ge> insn_goto \<and> k \<le> insn_ifnull"

text \<open>The body of the loop of \<open>convert_pcs_to_insn_indices\<close>. The loop over a \<open>tableswitch\<close> runs to
  \<open>high - low + 1\<close>, which is the number of its targets.\<close>

definition convert_insn :: "bytecode_insn \<Rightarrow> int list \<Rightarrow> format_error + bytecode_insn" where
  "convert_insn insn pc_to_insn =
     (if kind insn = insn_tableswitch then
        (case operand insn of
           Tableswitch d \<Rightarrow>
             (case convert_pc_to_insn (ts_default_target d) pc_to_insn of
                Inl e \<Rightarrow> Inl e
              | Inr dt \<Rightarrow>
                  (case convert_all (take (nat (ts_high d - ts_low d + 1)) (ts_targets d)) pc_to_insn of
                     Inl e \<Rightarrow> Inl e
                   | Inr ts \<Rightarrow>
                       Inr (insn\<lparr>operand := Tableswitch (d\<lparr>ts_default_target := dt, ts_targets := ts\<rparr>)\<rparr>)))
         | _ \<Rightarrow> Inl Unreachable)
      else if kind insn = insn_lookupswitch then
        (case operand insn of
           Lookupswitch d \<Rightarrow>
             (case convert_pc_to_insn (ls_default_target d) pc_to_insn of
                Inl e \<Rightarrow> Inl e
              | Inr dt \<Rightarrow>
                  (case convert_all (ls_targets d) pc_to_insn of
                     Inl e \<Rightarrow> Inl e
                   | Inr ts \<Rightarrow>
                       Inr (insn\<lparr>operand := Lookupswitch (d\<lparr>ls_default_target := dt, ls_targets := ts\<rparr>)\<rparr>)))
         | _ \<Rightarrow> Inl Unreachable)
      else if is_branch_kind (kind insn) then
        (case operand insn of
           Index t \<Rightarrow>
             (case convert_pc_to_insn (sint t) pc_to_insn of
                Inl e \<Rightarrow> Inl e
              | Inr i \<Rightarrow> Inr (insn\<lparr>operand := Index (word_of_int i)\<rparr>))
         | _ \<Rightarrow> Inl Unreachable)
      else Inr insn)"

fun convert_pcs_to_insn_indices ::
    "bytecode_insn list \<Rightarrow> int list \<Rightarrow> format_error + bytecode_insn list" where
  "convert_pcs_to_insn_indices [] pc_to_insn = Inr []"
| "convert_pcs_to_insn_indices (insn # insns) pc_to_insn =
     (case convert_insn insn pc_to_insn of
        Inl e \<Rightarrow> Inl e
      | Inr insn' \<Rightarrow>
          (case convert_pcs_to_insn_indices insns pc_to_insn of
             Inl e \<Rightarrow> Inl e
           | Inr insns' \<Rightarrow> Inr (insn' # insns')))"

section \<open>The decoder is a reader\<close>

lemma reader_pchecked_pc [reader_intros]: "reader (pchecked_pc pc offset)"
  unfolding pchecked_pc_def by (intro reader_intros)

lemma reader_skip_padding [reader_intros]: "reader (skip_padding pc)"
proof (induction pc rule: skip_padding.induct)
  case (1 pc)
  then show ?case by (subst skip_padding.simps) (auto intro!: reader_intros)
qed

lemma reader_switches [reader_intros]:
  "reader (parse_tableswitch_insn pc)" "reader (parse_lookupswitch_insn pc)"
  unfolding parse_tableswitch_insn_def parse_lookupswitch_insn_def Let_def
  by (auto intro!: reader_intros)

lemma reader_branch [reader_intros]: "reader p \<Longrightarrow> reader (parse_branch_insn pc k p)"
  unfolding parse_branch_insn_def by (intro reader_intros)

lemma reader_parse_cp_insn [reader_intros]: "reader (parse_cp_insn row)"
  unfolding parse_cp_insn_def by (cases row) (auto intro!: reader_intros)

lemma reader_operand_parsers [reader_intros]:
  "reader (parse_push_insn opcode)" "reader (parse_ldc_insn opcode)" "reader parse_ldc2_w_insn"
  "reader parse_iinc_insn" "reader parse_invokeinterface_insn" "reader parse_invokedynamic_insn"
  "reader parse_newarray_insn" "reader (parse_wide_insn opcode)" "reader parse_multianewarray_insn"
  unfolding parse_push_insn_def parse_ldc_insn_def parse_ldc2_w_insn_def parse_iinc_insn_def
    parse_invokeinterface_insn_def parse_invokedynamic_insn_def parse_newarray_insn_def
    parse_wide_insn_def parse_multianewarray_insn_def
  by (auto intro!: reader_intros split: option.split cp_info.split)

lemma reader_special [reader_intros]: "reader (parse_special_insn opcode pc)"
  unfolding parse_special_insn_def by (auto intro!: reader_intros)

interpretation insn: progress_reader "parse_insn pc" for pc
  unfolding parse_insn_def parse_insn_impl_def
  by (intro reader_intros) (auto intro!: reader_intros split: option.split)

section \<open>Operands\<close>

definition target_ok :: "classfile_parse_ctx \<Rightarrow> int \<Rightarrow> bool" where
  "target_ok ctx t \<longleftrightarrow> 0 \<le> t \<and> t < current_code_max_pc ctx \<and> t < 2 ^ 31"

lemma checked_pc_iff:
  "checked_pc pc offset ctx = Inr t \<longleftrightarrow> t = int pc + offset \<and> target_ok ctx t"
  by (auto simp: checked_pc_def Let_def target_ok_def)

lemma pchecked_pc_iff [read_iffs]:
  "pchecked_pc pc offset ctx bs = Inr (t, c, b) \<longleftrightarrow>
     t = int pc + offset \<and> target_ok ctx t \<and> c = ctx \<and> b = bs"
  by (auto simp: pchecked_pc_def pbind_Inr read_iffs checked_pc_iff)

text \<open>The pool entries an instruction may refer to.\<close>

definition insn_cp_kinds :: "insn_code_kind \<Rightarrow> u32 option" where
  "insn_cp_kinds k =
     map_of [(insn_getstatic, CP_KIND_FIELD_REF), (insn_putstatic, CP_KIND_FIELD_REF),
             (insn_getfield, CP_KIND_FIELD_REF), (insn_putfield, CP_KIND_FIELD_REF),
             (insn_invokevirtual, CP_KIND_METHOD_REF OR CP_KIND_INTERFACE_METHOD_REF),
             (insn_invokespecial, CP_KIND_METHOD_REF OR CP_KIND_INTERFACE_METHOD_REF),
             (insn_invokestatic, CP_KIND_METHOD_REF OR CP_KIND_INTERFACE_METHOD_REF),
             (insn_invokeinterface, CP_KIND_INTERFACE_METHOD_REF),
             (insn_invokedynamic, CP_KIND_INVOKE_DYNAMIC), (insn_new, CP_KIND_CLASS),
             (insn_anewarray, CP_KIND_CLASS), (insn_checkcast, CP_KIND_CLASS),
             (insn_instanceof, CP_KIND_CLASS), (insn_ldc, CP_KIND_STRING OR CP_KIND_CLASS)] k"

definition is_local_kind :: "insn_code_kind \<Rightarrow> bool" where
  "is_local_kind k \<longleftrightarrow> k \<ge> insn_dload \<and> k \<le> insn_astore \<or> k = insn_ret"

text \<open>The member of the operand union a kind requires, and what it promises.\<close>

definition operand_ok :: "classfile_parse_ctx \<Rightarrow> insn_code_kind \<Rightarrow> insn_operand \<Rightarrow> bool" where
  "operand_ok ctx k arg \<longleftrightarrow>
     (if k = insn_tableswitch then
        (\<exists>d. arg = Tableswitch d \<and> target_ok ctx (ts_default_target d) \<and>
             list_all (target_ok ctx) (ts_targets d) \<and>
             int (length (ts_targets d)) = ts_high d - ts_low d + 1)
      else if k = insn_lookupswitch then
        (\<exists>d. arg = Lookupswitch d \<and> target_ok ctx (ls_default_target d) \<and>
             list_all (target_ok ctx) (ls_targets d) \<and> length (ls_keys d) = length (ls_targets d))
      else if is_branch_kind k then (\<exists>t. arg = Index (word_of_int t) \<and> target_ok ctx t)
      else if is_local_kind k then (\<exists>n. arg = Index n \<and> n < 0x10000)
      else if k = insn_iinc then (\<exists>n c. arg = Iinc n c)
      else if k = insn_iconst \<or> k = insn_lconst then (\<exists>v. arg = Integer_imm v)
      else if k = insn_fconst then (\<exists>v. arg = F_imm v)
      else if k = insn_dconst then (\<exists>v. arg = D_imm v)
      else if k = insn_newarray then
        (\<exists>t. arg = Array_type t \<and> t \<noteq> TYPE_KIND_VOID \<and> t \<noteq> TYPE_KIND_REFERENCE)
      else if k = insn_multianewarray then
        (\<exists>i dims. arg = Multianewarray i dims \<and> points_to (cp ctx) CP_KIND_CLASS (Some i))
      else (case insn_cp_kinds k of
              Some kinds \<Rightarrow> (\<exists>i. arg = Cp i \<and> points_to (cp ctx) kinds (Some i))
            | None \<Rightarrow> arg = No_operand))"

definition insn_ok :: "classfile_parse_ctx \<Rightarrow> bytecode_insn \<Rightarrow> bool" where
  "insn_ok ctx insn \<longleftrightarrow> operand_ok ctx (kind insn) (operand insn)"

text \<open>The tables only name kinds of their own group.\<close>

lemma simple_kinds: "map_of simple_insns opcode = Some k \<Longrightarrow> operand_ok ctx k No_operand"
proof -
  assume "map_of simple_insns opcode = Some k"
  then have "k \<in> snd ` set simple_insns" by (force dest: map_of_SomeD)
  moreover have "list_all (\<lambda>(_, k). k \<le> insn_swap) simple_insns"
    by (simp add: simple_insns_def nop_insns_def array_load_insns_def arith_insns_def
        conversion_insns_def return_insns_def object_insns_def)
  ultimately have "k \<le> insn_swap" by (auto simp: list_all_iff)
  then show ?thesis by (simp add: operand_ok_def is_branch_kind_def is_local_kind_def insn_cp_kinds_def)
qed

lemma const_kinds: "const_insn opcode = Some (k, arg) \<Longrightarrow> operand_ok ctx k arg"
  by (auto simp: const_insn_def operand_ok_def is_branch_kind_def is_local_kind_def split: if_splits)

lemma local_operand_ok: "is_local_kind k \<Longrightarrow> n < 0x10000 \<Longrightarrow> operand_ok ctx k (Index n)"
  by (auto simp: operand_ok_def is_branch_kind_def is_local_kind_def)

lemma branch_operand_ok:
  "is_branch_kind k \<Longrightarrow> target_ok ctx t \<Longrightarrow> operand_ok ctx k (Index (word_of_int t))"
  by (auto simp: operand_ok_def is_branch_kind_def)

lemma map_of_list_all: "map_of xs x = Some y \<Longrightarrow> list_all (\<lambda>(_, y). P y) xs \<Longrightarrow> P y"
  by (auto simp: list_all_iff dest: map_of_SomeD)

lemma short_local_kinds: "short_local_insn opcode = Some (k, arg) \<Longrightarrow> operand_ok ctx k arg"
proof -
  assume "short_local_insn opcode = Some (k, arg)"
  moreover have "list_all (\<lambda>(_, y). (\<lambda>(k, arg). is_local_kind k \<and> (\<exists>n. arg = Index n \<and> n < 0x10000)) y)
      (concat (map (\<lambda>(first, k). map (\<lambda>n. (first + n, (k, Index (ucast n)))) [0, 1, 2, 3])
                 (short_load_insns @ short_store_insns)))"
    by (simp add: short_load_insns_def short_store_insns_def is_local_kind_def)
  ultimately have "is_local_kind k \<and> (\<exists>n. arg = Index n \<and> n < 0x10000)"
    unfolding short_local_insn_def by (auto dest: map_of_list_all)
  then show ?thesis using local_operand_ok by blast
qed

lemma local_kinds:
  "map_of local_insns opcode = Some (k, reason) \<Longrightarrow> is_local_kind k"
  "map_of wide_local_insns opcode = Some (k, reason) \<Longrightarrow> is_local_kind k"
proof -
  have "list_all (\<lambda>(_, y). (\<lambda>(k, reason). is_local_kind k) y) local_insns"
    "list_all (\<lambda>(_, y). (\<lambda>(k, reason). is_local_kind k) y) wide_local_insns"
    by (simp_all add: local_insns_def load_insns_def store_insns_def ret_insns_def
        wide_local_insns_def is_local_kind_def)
  then show "map_of local_insns opcode = Some (k, reason) \<Longrightarrow> is_local_kind k"
    "map_of wide_local_insns opcode = Some (k, reason) \<Longrightarrow> is_local_kind k"
    by (auto dest: map_of_list_all)
qed

lemma branch_kinds:
  "map_of (if_insns @ null_insns) opcode = Some (k, reason) \<Longrightarrow> is_branch_kind k"
  "map_of wide_branch_insns opcode = Some (k, reason) \<Longrightarrow> is_branch_kind k"
proof -
  have "list_all (\<lambda>(_, y). (\<lambda>(k, reason). is_branch_kind k) y) (if_insns @ null_insns)"
    "list_all (\<lambda>(_, y). (\<lambda>(k, reason). is_branch_kind k) y) wide_branch_insns"
    by (simp_all add: if_insns_def null_insns_def wide_branch_insns_def is_branch_kind_def)
  then show "map_of (if_insns @ null_insns) opcode = Some (k, reason) \<Longrightarrow> is_branch_kind k"
    "map_of wide_branch_insns opcode = Some (k, reason) \<Longrightarrow> is_branch_kind k"
    by (auto dest: map_of_list_all)
qed

definition cp_row_ok :: "insn_code_kind \<times> string \<times> u32 \<times> string \<Rightarrow> bool" where
  "cp_row_ok row = (case row of (k, _, kinds, _) \<Rightarrow>
     insn_cp_kinds k = Some kinds \<and> kinds \<noteq> 0 \<and> k \<le> insn_invokestatic \<and> \<not> k < insn_anewarray \<and>
     expected_printable kinds)"

lemma cp_rows: "map_of cp_insns opcode = Some row \<Longrightarrow> cp_row_ok row"
proof -
  have "list_all (\<lambda>(_, y). cp_row_ok y) cp_insns"
    by (simp add: cp_insns_def member_insns_def class_insns_def cp_row_ok_def insn_cp_kinds_def
        expected_printable_def cp_kind_to_string_def upt_rec)
  then show "map_of cp_insns opcode = Some row \<Longrightarrow> cp_row_ok row" by (auto dest: map_of_list_all)
qed

lemma gives_pcp_entry [gives_intros]:
  "(\<And>j. j < length (cp ctx) \<Longrightarrow> (kinds \<noteq> 0 \<Longrightarrow> points_to (cp ctx) kinds (Some j)) \<Longrightarrow> Q j) \<Longrightarrow>
   gives ctx (pcp_entry index kinds reason) Q"
  by (auto simp: gives_def read_iffs checked_cp_entry_iff points_to_def)

lemma gives_pcp_utf8 [gives_intros]:
  "(\<And>s. has_utf8 (cp ctx) s \<Longrightarrow> Q s) \<Longrightarrow> gives ctx (pcp_utf8 index reason) Q"
  by (auto simp: gives_def read_iffs checked_get_utf8_iff has_utf8_def)

lemma gives_pchecked_pc [gives_intros]:
  "(\<And>t. target_ok ctx t \<Longrightarrow> Q t) \<Longrightarrow> gives ctx (pchecked_pc pc offset) Q"
  by (simp add: gives_def read_iffs)

lemma gives_skip_padding [gives_intros]: "Q () \<Longrightarrow> gives ctx (skip_padding pc) Q"
proof (induction pc rule: skip_padding.induct)
  case (1 pc)
  show ?case
  proof (cases "pc mod 4 \<noteq> 0")
    case True
    then have "skip_padding pc = pbind (reader_next_u8 ''tableswitch padding'') (\<lambda>_. skip_padding (pc + 1))"
      by (subst skip_padding.simps) simp
    then show ?thesis
      by (simp only:) (intro gives_intros, rule "1.IH" [OF True "1.prems"])
  next
    case False
    then have "skip_padding pc = pret ()" by (subst skip_padding.simps) simp
    then show ?thesis by (simp only:) (rule gives_pret, rule "1.prems")
  qed
qed

lemma ucast_small [simp]: "(ucast (x :: u8) :: u32) < 0x10000" "(ucast (y :: u16) :: u32) < 0x10000"
  using unsigned_less [of x, where 'a = nat] unsigned_less [of y, where 'a = nat]
  by (simp_all add: word_less_nat_alt unsigned_ucast_eq take_bit_nat_eq_self)

lemma operand_okI:
  "is_local_kind k \<Longrightarrow> n < 0x10000 \<Longrightarrow> operand_ok ctx k (Index n)"
  "is_branch_kind k \<Longrightarrow> target_ok ctx t \<Longrightarrow> operand_ok ctx k (Index (word_of_int t))"
  "operand_ok ctx insn_iconst (Integer_imm v)"
  "operand_ok ctx insn_lconst (Integer_imm v)"
  "operand_ok ctx insn_fconst (F_imm f)"
  "operand_ok ctx insn_dconst (D_imm d)"
  "operand_ok ctx insn_iinc (Iinc i v)"
  "parse_atype a = Inr t' \<Longrightarrow> operand_ok ctx insn_newarray (Array_type t')"
  "points_to (cp ctx) CP_KIND_CLASS (Some j) \<Longrightarrow> operand_ok ctx insn_multianewarray (Multianewarray j dims)"
  "points_to (cp ctx) CP_KIND_INTERFACE_METHOD_REF (Some j) \<Longrightarrow> operand_ok ctx insn_invokeinterface (Cp j)"
  "points_to (cp ctx) CP_KIND_INVOKE_DYNAMIC (Some j) \<Longrightarrow> operand_ok ctx insn_invokedynamic (Cp j)"
  "points_to (cp ctx) (CP_KIND_STRING OR CP_KIND_CLASS) (Some j) \<Longrightarrow> operand_ok ctx insn_ldc (Cp j)"
  by (auto simp: operand_ok_def is_branch_kind_def is_local_kind_def insn_cp_kinds_def parse_atype_def
      split: if_splits)

lemma local_index_ok:
  "map_of local_insns opcode = Some (k, r) \<Longrightarrow> operand_ok ctx k (Index (ucast (i :: u8)))"
  "map_of wide_local_insns opcode = Some (k, r) \<Longrightarrow> operand_ok ctx k (Index (ucast (j :: u16)))"
  by (auto intro!: operand_okI dest: local_kinds)

lemma insn_ok_mk [simp]: "insn_ok ctx (mk_insn k arg) = operand_ok ctx k arg"
  by (simp add: insn_ok_def mk_insn_def)

lemma gives_tableswitch [gives_intros]: "gives ctx (parse_tableswitch_insn pc) (insn_ok ctx)"
proof -
  have "gives ctx (pbind (reader_next_s32 ''tableswitch target'') (pchecked_pc pc)) (target_ok ctx)"
    by (intro gives_intros)
  note targets = gives_prepeat [OF this]
  show ?thesis
    unfolding parse_tableswitch_insn_def Let_def
    by (intro gives_intros gives_weaken [OF targets]) (auto simp: operand_ok_def)
qed

lemma gives_lookupswitch [gives_intros]: "gives ctx (parse_lookupswitch_insn pc) (insn_ok ctx)"
proof -
  let ?pair = "\<lambda>p :: int \<times> int. target_ok ctx (snd p)"
  have "gives ctx (pbind (reader_next_s32 ''lookupswitch key'') (\<lambda>key.
      pbind (reader_next_s32 ''lookupswitch target'') (\<lambda>offset.
      pbind (pchecked_pc pc offset) (\<lambda>target. pret (key, target))))) ?pair"
    by (intro gives_intros) simp
  note pairs = gives_prepeat [OF this]
  show ?thesis
    unfolding parse_lookupswitch_insn_def
    by (intro gives_intros gives_weaken [OF pairs]) (auto simp: operand_ok_def list_all_iff)
qed

lemma gives_branch [gives_intros]:
  assumes "is_branch_kind k" and "gives ctx p (\<lambda>_. True)"
  shows "gives ctx (parse_branch_insn pc k p) (insn_ok ctx)"
  unfolding parse_branch_insn_def
  by (intro gives_intros gives_weaken [OF assms(2)]) (simp add: operand_okI assms(1))

lemma gives_cp_insn:
  assumes "cp_row_ok row"
  shows "gives ctx (parse_cp_insn row) (insn_ok ctx)"
proof -
  obtain k r kinds r' where row: "row = (k, r, kinds, r')" by (cases row)
  have ok: "insn_cp_kinds k = Some kinds" "kinds \<noteq> 0" "k \<le> insn_invokestatic" "\<not> k < insn_anewarray"
    using assms by (simp_all add: row cp_row_ok_def)
  have "operand_ok ctx k (Cp i) \<longleftrightarrow> points_to (cp ctx) kinds (Some i)" for i
    using ok(1,3,4) by (simp add: operand_ok_def is_branch_kind_def is_local_kind_def)
  then show ?thesis using ok(2)
    unfolding row parse_cp_insn_def prod.case by (intro gives_intros) simp
qed

lemma gives_operand_parsers [gives_intros]:
  "gives ctx (parse_push_insn opcode) (insn_ok ctx)" "gives ctx parse_iinc_insn (insn_ok ctx)"
  "gives ctx parse_invokeinterface_insn (insn_ok ctx)"
  "gives ctx parse_invokedynamic_insn (insn_ok ctx)"
  "gives ctx parse_newarray_insn (insn_ok ctx)"
  "gives ctx parse_multianewarray_insn (insn_ok ctx)"
  unfolding parse_push_insn_def parse_iinc_insn_def parse_invokeinterface_insn_def
    parse_invokedynamic_insn_def parse_newarray_insn_def parse_multianewarray_insn_def
  by (auto intro!: gives_intros intro: operand_okI)

lemma gives_ldc [gives_intros]: "gives ctx (parse_ldc_insn opcode) (insn_ok ctx)"
proof -
  have ok: "insn_ok ctx (case info (cp ctx ! j) of
             Cp_integer v \<Rightarrow> mk_insn insn_iconst (Integer_imm v)
           | Cp_float v \<Rightarrow> mk_insn insn_fconst (F_imm v)
           | _ \<Rightarrow> mk_insn insn_ldc (Cp j))" if "points_to (cp ctx) 0x66 (Some j)" for j
    using that by (cases "info (cp ctx ! j)") (auto simp: points_to_def operand_okI)
  have "gives ctx (if opcode = 0x12 then pbind (reader_next_u8 ''ldc index'') (\<lambda>i. pret (ucast i))
            else reader_next_u16 ''ldc_w index'') (\<lambda>_ :: u16. True)"
    by (auto intro!: gives_intros)
  from gives_weaken [OF this] show ?thesis
    unfolding parse_ldc_insn_def
    by (rule gives_pbind) (intro gives_intros, use ok in simp)
qed

lemma gives_ldc2_w [gives_intros]: "gives ctx parse_ldc2_w_insn (insn_ok ctx)"
  unfolding parse_ldc2_w_insn_def
  by (intro gives_intros) (auto intro!: gives_intros operand_okI split: cp_info.split)

lemma gives_wide [gives_intros]: "gives ctx (parse_wide_insn opcode) (insn_ok ctx)"
proof -
  have "gives ctx (case map_of wide_local_insns w of
       Some (k, reason) \<Rightarrow>
         pbind (reader_next_u16 reason) (\<lambda>index. pret (mk_insn k (Index (ucast index))))
     | None \<Rightarrow>
         if w = 0x84 then
           pbind (reader_next_u16 ''wide iinc index'') (\<lambda>index.
           pbind (reader_next_s16 ''wide iinc const'') (\<lambda>const.
           pret (mk_insn insn_iinc (Iinc index const))))
         else pfail (Bad_wide_opcode opcode)) (insn_ok ctx)" for w
    by (cases "map_of wide_local_insns w")
      (auto intro!: gives_intros intro: operand_okI local_index_ok)
  then show ?thesis unfolding parse_wide_insn_def by (intro gives_intros) simp
qed

lemma gives_special [gives_intros]: "gives ctx (parse_special_insn opcode pc) (insn_ok ctx)"
  unfolding parse_special_insn_def by (auto intro!: gives_intros)

text \<open>The dispatch after the opcode has been read.\<close>

lemma gives_dispatch:
  "gives ctx (case map_of simple_insns opcode of Some k \<Rightarrow> pret (mk_insn k No_operand) | None \<Rightarrow>
     case const_insn opcode of Some (k, imm) \<Rightarrow> pret (mk_insn k imm) | None \<Rightarrow>
     case short_local_insn opcode of Some (k, index) \<Rightarrow> pret (mk_insn k index) | None \<Rightarrow>
     case map_of local_insns opcode of
       Some (k, reason) \<Rightarrow>
         pbind (reader_next_u8 reason) (\<lambda>index. pret (mk_insn k (Index (ucast index)))) | None \<Rightarrow>
     case map_of (if_insns @ null_insns) opcode of
       Some (k, reason) \<Rightarrow> parse_branch_insn pc k (reader_next_s16 reason) | None \<Rightarrow>
     case map_of wide_branch_insns opcode of
       Some (k, reason) \<Rightarrow> parse_branch_insn pc k (reader_next_s32 reason) | None \<Rightarrow>
     case map_of cp_insns opcode of Some row \<Rightarrow> parse_cp_insn row | None \<Rightarrow>
     parse_special_insn opcode pc) (insn_ok ctx)"
  by (auto intro!: gives_intros gives_cp_insn simp del: map_of_append
      intro: operand_okI simple_kinds const_kinds short_local_kinds local_index_ok
      dest: branch_kinds cp_rows split: option.split)

lemma gives_insn_impl: "gives ctx (parse_insn_impl pc) (insn_ok ctx)"
  unfolding parse_insn_impl_def by (intro gives_intros gives_dispatch)

lemma gives_insn [gives_intros]: "gives ctx (parse_insn pc) (insn_ok ctx)"
  unfolding parse_insn_def
  by (intro gives_intros gives_weaken [OF gives_insn_impl]) (simp add: insn_ok_def)

section \<open>Decoding the opcode\<close>

lemmas insn_tables =
  simple_insns_def nop_insns_def array_load_insns_def arith_insns_def conversion_insns_def
  return_insns_def object_insns_def local_insns_def load_insns_def store_insns_def ret_insns_def
  wide_local_insns_def short_load_insns_def short_store_insns_def if_insns_def null_insns_def
  wide_branch_insns_def cp_insns_def member_insns_def class_insns_def

lemma read_be_1 [simp]: "(read_be True (Suc 0) [x] :: u8) = x"
  by (simp add: read_be_raw)

lemma next_u8_Cons [simp]: "reader_next_u8 r ctx (x # rest) = Inr (x, ctx, rest)"
  by (simp add: next_u_iffs)

lemma read_be_2: "(read_be True 2 [0, x] :: u16) = ucast x"
  by (simp add: read_be_raw)

lemma next_u16_small: "reader_next_u16 r ctx (0 # x # rest) = Inr (ucast x, ctx, rest)"
  by (simp add: next_u_iffs read_be_2)

lemma ucast_ucast_16 [simp]: "(ucast (ucast (n :: u8) :: u16) :: u32) = ucast n"
  by (rule bit_word_eqI) (auto simp: bit_simps dest: bit_imp_le_length)

definition opcode_known :: "u8 \<Rightarrow> bool" where
  "opcode_known b \<longleftrightarrow>
     map_of simple_insns b \<noteq> None \<or> const_insn b \<noteq> None \<or> short_local_insn b \<noteq> None \<or>
     map_of local_insns b \<noteq> None \<or> map_of (if_insns @ null_insns) b \<noteq> None \<or>
     map_of wide_branch_insns b \<noteq> None \<or> map_of cp_insns b \<noteq> None \<or>
     b \<in> {0x10, 0x11, 0x12, 0x13, 0x14, 0x84, 0xaa, 0xab, 0xb9, 0xba, 0xbc, 0xc4, 0xc5}"

text \<open>The keys of a table, as integers, tell where it is defined.\<close>

lemma map_of_keys:
  assumes "map (uint \<circ> fst) xs = ks"
  shows "map_of xs (b :: u8) = None \<longleftrightarrow> uint b \<notin> set ks"
proof -
  have "set ks = uint ` fst ` set xs" using assms by (auto simp flip: assms)
  then have "uint b \<in> set ks \<longleftrightarrow> b \<in> fst ` set xs"
    by (auto simp: image_iff dest: unsigned_word_eqI)
  then show ?thesis by (simp add: map_of_eq_None_iff)
qed

lemma map_of_keys_Some:
  assumes "map (uint \<circ> fst) xs = ks" and "distinct ks" and "(b, v) \<in> set xs"
  shows "map_of xs (b :: u8) = Some v" and "uint b \<in> set ks"
proof -
  have "distinct (map uint (map fst xs))" using assms(1,2) by simp
  then have "distinct (map fst xs)" by (simp only: distinct_map)
  then show "map_of xs b = Some v" using assms(3) by (rule map_of_is_SomeI)
  show "uint b \<in> set ks" using assms(1,3) by force
qed

lemma simple_keys: "map (uint \<circ> fst) simple_insns =
    [0, 1] @ [0x2e..0x35] @ [0x4f..0x83] @ [0x85..0x98] @ [0xac..0xb1] @ [0xbe, 0xbf, 0xc2, 0xc3]"
  by (simp add: insn_tables)

lemma local_keys: "map (uint \<circ> fst) local_insns = [0x15..0x19] @ [0x36..0x3a] @ [0xa9]"
  by (simp add: insn_tables)

lemma wide_local_keys: "map (uint \<circ> fst) wide_local_insns = [0x15..0x19] @ [0x36..0x3a] @ [0xa9]"
  by (simp add: insn_tables)

lemma branch_keys: "map (uint \<circ> fst) (if_insns @ null_insns) = [0x99..0xa8] @ [0xc6, 0xc7]"
  by (simp add: insn_tables)

lemma wide_branch_keys: "map (uint \<circ> fst) wide_branch_insns = [0xc8, 0xc9]"
  by (simp add: insn_tables)

lemma cp_keys: "map (uint \<circ> fst) cp_insns = [0xb2..0xb8] @ [0xbb, 0xbd, 0xc0, 0xc1]"
  by (simp add: insn_tables)

definition short_local_table :: "(u8 \<times> insn_code_kind \<times> insn_operand) list" where
  "short_local_table =
     concat (map (\<lambda>(first, k). map (\<lambda>n. (first + n, (k, Index (ucast n)))) [0, 1, 2, 3])
               (short_load_insns @ short_store_insns))"

lemma short_local_insn_table: "short_local_insn b = map_of short_local_table b"
  by (simp add: short_local_insn_def short_local_table_def)

lemma short_local_keys: "map (uint \<circ> fst) short_local_table = [0x1a..0x2d] @ [0x3b..0x4e]"
  by (simp add: short_local_table_def insn_tables)

lemma eq_uint: "b = (numeral n :: u8) \<longleftrightarrow> uint b = uint (numeral n :: u8)"
  by (rule word_uint_eq_iff)

lemma const_keys: "const_insn b = None \<longleftrightarrow> uint b \<notin> {2..15}"
proof -
  have "const_insn b = None \<longleftrightarrow>
      b \<notin> {0x02, 0x03, 0x04, 0x05, 0x06, 0x07, 0x08, 0x09, 0x0a, 0x0b, 0x0c, 0x0d, 0x0e, 0x0f}"
    by (auto simp: const_insn_def)
  also have "\<dots> \<longleftrightarrow> uint b \<notin> set [2..15]" by (simp add: eq_uint)
  finally show ?thesis unfolding set_upto .
qed

lemmas table_keys =
  map_of_keys [OF simple_keys] map_of_keys [OF local_keys] map_of_keys [OF wide_local_keys]
  map_of_keys [OF branch_keys] map_of_keys [OF wide_branch_keys] map_of_keys [OF cp_keys]
  map_of_keys [OF short_local_keys] short_local_insn_table const_keys

lemma special_keys:
  "b \<in> {0x10, 0x11, 0x12, 0x13, 0x14, 0x84, 0xaa, 0xab, 0xb9, 0xba, 0xbc, 0xc4, 0xc5 :: u8} \<longleftrightarrow>
   uint b \<in> {0x10, 0x11, 0x12, 0x13, 0x14, 0x84, 0xaa, 0xab, 0xb9, 0xba, 0xbc, 0xc4, 0xc5}"
  by (simp add: eq_uint)

lemma opcode_known_iff: "opcode_known b \<longleftrightarrow> b \<le> 0xc9"
proof -
  have "0 \<le> uint b" by simp
  then have "opcode_known b \<longleftrightarrow> uint b \<le> 0xc9"
    unfolding opcode_known_def special_keys table_keys set_append Un_iff set_upto not_not
    by (simp only: list.set insert_iff empty_iff atLeastAtMost_iff) presburger
  then show ?thesis by (simp add: word_le_def)
qed

text \<open>The operand parsers report other errors than an invalid opcode.\<close>

lemma prepeat_err: "prepeat n p ctx bs = Inl e \<Longrightarrow> \<exists>c b. p c b = Inl e"
  by (induction n arbitrary: ctx bs) (auto simp: pbind_Inl read_errs)

lemma skip_padding_err: "skip_padding pc ctx bs = Inl e \<Longrightarrow> e = Format_static ''tableswitch padding''"
proof (induction pc arbitrary: bs rule: skip_padding.induct)
  case (1 pc)
  show ?case
  proof (cases "pc mod 4 \<noteq> 0")
    case True
    then have "length bs < 1 \<and> e = Format_static ''tableswitch padding'' \<or>
        skip_padding (pc + 1) ctx (drop 1 bs) = Inl e"
      using "1.prems" by (subst (asm) skip_padding.simps) (auto simp: pbind_Inl read_errs read_iffs)
    then show ?thesis using "1.IH" [OF True] by blast
  next
    case False
    then show ?thesis using "1.prems" by (subst (asm) skip_padding.simps) (auto simp: read_errs)
  qed
qed

lemma access_err:
  "checked_cp_entry pool i kinds reason \<noteq> Inl (Bad_opcode b)"
  "checked_pc pc offset ctx \<noteq> Inl (Bad_opcode b)" "parse_atype a \<noteq> Inl (Bad_opcode b)"
  by (auto simp: checked_cp_entry_def check_cp_entry_def checked_pc_def Let_def parse_atype_def
      split: sum.splits option.splits)

lemma pchecked_pc_err: "pchecked_pc pc offset ctx bs = Inl e \<longleftrightarrow> checked_pc pc offset ctx = Inl e"
  by (auto simp: pchecked_pc_def pbind_Inl read_errs read_iffs)

lemma switch_err:
  "parse_tableswitch_insn pc ctx bs \<noteq> Inl (Bad_opcode b)"
  "parse_lookupswitch_insn pc ctx bs \<noteq> Inl (Bad_opcode b)"
  unfolding parse_tableswitch_insn_def parse_lookupswitch_insn_def Let_def
  by (auto simp: pbind_Inl read_errs access_err pchecked_pc_err
      dest!: prepeat_err skip_padding_err)

lemma operand_err:
  "parse_push_insn opcode ctx bs \<noteq> Inl (Bad_opcode b)" "parse_ldc_insn opcode ctx bs \<noteq> Inl (Bad_opcode b)"
  "parse_ldc2_w_insn ctx bs \<noteq> Inl (Bad_opcode b)" "parse_iinc_insn ctx bs \<noteq> Inl (Bad_opcode b)"
  "parse_invokeinterface_insn ctx bs \<noteq> Inl (Bad_opcode b)"
  "parse_invokedynamic_insn ctx bs \<noteq> Inl (Bad_opcode b)"
  "parse_newarray_insn ctx bs \<noteq> Inl (Bad_opcode b)" "parse_wide_insn opcode ctx bs \<noteq> Inl (Bad_opcode b)"
  "parse_multianewarray_insn ctx bs \<noteq> Inl (Bad_opcode b)" "parse_cp_insn row ctx bs \<noteq> Inl (Bad_opcode b)"
  "parse_branch_insn pc k (reader_next_s16 r) ctx bs \<noteq> Inl (Bad_opcode b)"
  "parse_branch_insn pc k (reader_next_s32 r) ctx bs \<noteq> Inl (Bad_opcode b)"
  unfolding parse_push_insn_def parse_ldc_insn_def parse_ldc2_w_insn_def parse_iinc_insn_def
    parse_invokeinterface_insn_def parse_invokedynamic_insn_def parse_newarray_insn_def
    parse_wide_insn_def parse_multianewarray_insn_def parse_cp_insn_def parse_branch_insn_def
  by (auto simp: pbind_Inl read_errs access_err pchecked_pc_err
      split: if_splits option.splits prod.splits cp_info.splits)

lemma special_err:
  "parse_special_insn opcode pc ctx bs = Inl (Bad_opcode b) \<longleftrightarrow>
     b = opcode \<and> opcode \<notin> {0x10, 0x11, 0x12, 0x13, 0x14, 0x84, 0xaa, 0xab, 0xb9, 0xba, 0xbc, 0xc4, 0xc5}"
  unfolding parse_special_insn_def by (auto simp: operand_err switch_err read_errs)

section \<open>Properties\<close>

text \<open>C16: a decoded instruction consumes at least one byte, leaves the parse context alone,
  records its program counter, and carries the operand its kind requires: pool operands point
  to an entry of a kind the instruction allows, branch and switch targets lie inside the code,
  a \<open>tableswitch\<close> has as many targets as its bounds say, and local indices fit 16 bits.\<close>

theorem decoded_insn_well_formed:
  assumes "parse_insn pc ctx bs = Inr (insn, ctx', bs')"
  shows "insn_ok ctx insn \<and> original_pc insn = word_of_nat pc \<and> ctx' = ctx \<and> length bs' < length bs"
proof -
  have "original_pc insn = word_of_nat pc"
    using assms by (auto simp: parse_insn_def pbind_Inr read_iffs)
  then show ?thesis using givesD [OF gives_insn assms] insn.consumes [OF assms] by simp
qed

definition sample_ctx :: classfile_parse_ctx where
  "sample_ctx = \<lparr>cp = [], current_code_max_pc = 8, indy_insns_count = 0\<rparr>"

lemma sample_goto_decodes:
  "case parse_insn 2 sample_ctx [0xa7, 0, 3, 0xb1] of
     Inl e \<Rightarrow> False
   | Inr (insn, ctx', rest) \<Rightarrow> kind insn = insn_goto \<and> operand insn = Index 5 \<and> rest = [0xb1]"
  by code_simp

theorem decoded_insn_well_formed_witness:
  "case parse_insn 2 sample_ctx [0xa7, 0, 3, 0xb1] of
     Inl e \<Rightarrow> False
   | Inr (insn, ctx', rest) \<Rightarrow> insn_ok sample_ctx insn \<and> original_pc insn = 2 \<and> ctx' = sample_ctx"
  using sample_goto_decodes decoded_insn_well_formed [of 2 sample_ctx "[0xa7, 0, 3, 0xb1]"]
  by (auto split: sum.splits)

text \<open>the decoder rejects exactly the opcodes above \<open>jsr_w\<close> as invalid: no opcode of the
  instruction set is missing from the switch, and no other byte is taken for one.\<close>

theorem invalid_opcode_iff:
  "parse_insn pc ctx (b # rest) = Inl (Bad_opcode b') \<longleftrightarrow> b' = b \<and> b > 0xc9"
proof -
  have "parse_insn pc ctx (b # rest) = Inl (Bad_opcode b') \<longleftrightarrow> b' = b \<and> \<not> opcode_known b"
    unfolding parse_insn_def parse_insn_impl_def opcode_known_def
    by (auto simp: pbind_Inl pbind_Inr read_errs operand_err special_err
        simp del: map_of_append split: option.splits)
  then show ?thesis by (simp add: opcode_known_iff not_le)
qed

text \<open>The long form, the first short form and the canonical kind of the local instructions.\<close>

definition canonical_locals :: "(u8 \<times> u8 \<times> insn_code_kind) list" where
  "canonical_locals =
     [(0x15, 0x1a, insn_iload), (0x16, 0x1e, insn_lload), (0x17, 0x22, insn_fload),
      (0x18, 0x26, insn_dload), (0x19, 0x2a, insn_aload), (0x36, 0x3b, insn_istore),
      (0x37, 0x3f, insn_lstore), (0x38, 0x43, insn_fstore), (0x39, 0x47, insn_dstore),
      (0x3a, 0x4b, insn_astore)]"

lemma canonical_rows:
  "list_all (\<lambda>(long, short, k). (short, k) \<in> set (short_load_insns @ short_store_insns) \<and>
     (long, k) \<in> set (map (\<lambda>(b, k, r). (b, k)) local_insns) \<and>
     (long, k) \<in> set (map (\<lambda>(b, k, r). (b, k)) wide_local_insns)) canonical_locals"
  by (simp add: canonical_locals_def insn_tables)

lemma short_form:
  assumes "(short, k) \<in> set (short_load_insns @ short_store_insns)" and "n \<in> {0, 1, 2, 3}"
  shows "map_of simple_insns (short + n) = None" "const_insn (short + n) = None"
    "short_local_insn (short + n) = Some (k, Index (ucast n))"
proof -
  have "(short + n, k, Index (ucast n)) \<in>
      set ((\<lambda>(first, k). map (\<lambda>n. (first + n, (k, Index (ucast n)))) [0, 1, 2, 3]) (short, k))"
    using assms(2) by auto
  then have m: "(short + n, k, Index (ucast n)) \<in> set short_local_table"
    unfolding short_local_table_def set_concat set_map using assms(1) by blast
  have d: "distinct ([0x1a..0x2d] @ [0x3b..0x4e :: int])" by auto
  note s = map_of_keys_Some [OF short_local_keys d m]
  show "short_local_insn (short + n) = Some (k, Index (ucast n))"
    using s(1) by (simp add: short_local_insn_table)
  show "map_of simple_insns (short + n) = None" "const_insn (short + n) = None"
    using s(2) unfolding table_keys set_append Un_iff set_upto
    by (simp_all only: list.set insert_iff empty_iff atLeastAtMost_iff) presburger+
qed

lemma long_form:
  assumes "(long, k, r) \<in> set local_insns"
  shows "map_of simple_insns long = None" "const_insn long = None" "short_local_insn long = None"
    "map_of local_insns long = Some (k, r)"
proof -
  have d: "distinct ([0x15..0x19] @ [0x36..0x3a] @ [0xa9 :: int])" by auto
  note l = map_of_keys_Some [OF local_keys d assms]
  show "map_of local_insns long = Some (k, r)" by (rule l(1))
  show "map_of simple_insns long = None" "const_insn long = None" "short_local_insn long = None"
    using l(2) unfolding table_keys set_append Un_iff set_upto
    by (simp_all only: list.set insert_iff empty_iff atLeastAtMost_iff) presburger+
qed

lemma wide_form:
  assumes "(long, k, r) \<in> set wide_local_insns"
  shows "map_of wide_local_insns long = Some (k, r)"
proof -
  have d: "distinct ([0x15..0x19] @ [0x36..0x3a] @ [0xa9 :: int])" by auto
  show ?thesis by (rule map_of_keys_Some(1) [OF wide_local_keys d assms])
qed

lemma wide_table:
  "map_of simple_insns 0xc4 = None" "const_insn 0xc4 = None" "short_local_insn 0xc4 = None"
  "map_of local_insns 0xc4 = None" "map_of (if_insns @ null_insns) 0xc4 = None"
  "map_of wide_branch_insns 0xc4 = None" "map_of cp_insns 0xc4 = None"
  unfolding table_keys by simp_all

text \<open>the three encodings of a local access decode to one instruction: the short form with
  the index in the opcode (\<open>aload_2\<close>), the form with a one-byte index (\<open>aload 2\<close>) and the form
  after \<open>wide\<close> with a two-byte index.\<close>

theorem local_insn_canonical:
  assumes row: "(long, short, k) \<in> set canonical_locals" and n: "n \<in> {0, 1, 2, 3}"
    and i: "i = \<lparr>kind = k, original_pc = word_of_nat pc, operand = Index (ucast n)\<rparr>"
  shows "parse_insn pc ctx ((short + n) # rest) = Inr (i, ctx, rest) \<and>
    parse_insn pc ctx (long # n # rest) = Inr (i, ctx, rest) \<and>
    parse_insn pc ctx (0xc4 # long # 0 # n # rest) = Inr (i, ctx, rest)"
proof -
  obtain r w where lr: "(long, k, r) \<in> set local_insns" and lw: "(long, k, w) \<in> set wide_local_insns"
    using canonical_rows row by (fastforce simp: list_all_iff)
  have "(short, k) \<in> set (short_load_insns @ short_store_insns)"
    using canonical_rows row by (fastforce simp: list_all_iff)
  note s = short_form [OF this n] and l = long_form [OF lr] and w = wide_form [OF lw]
  note parse = parse_insn_def parse_insn_impl_def pbind_def pret_def mk_insn_def
  have "parse_insn pc ctx ((short + n) # rest) = Inr (i, ctx, rest)"
    by (simp add: parse s i)
  moreover have "parse_insn pc ctx (long # n # rest) = Inr (i, ctx, rest)"
    by (simp add: parse l i)
  moreover have "parse_insn pc ctx (0xc4 # long # 0 # n # rest) = Inr (i, ctx, rest)"
    by (simp add: parse wide_table parse_special_insn_def parse_wide_insn_def w next_u16_small i
        del: map_of_append)
  ultimately show ?thesis by blast
qed

theorem local_insn_canonical_witness:
  "parse_insn 7 sample_ctx [0x2c] = Inr (\<lparr>kind = insn_aload, original_pc = 7, operand = Index 2\<rparr>, sample_ctx, []) \<and>
   parse_insn 7 sample_ctx [0x19, 2] = Inr (\<lparr>kind = insn_aload, original_pc = 7, operand = Index 2\<rparr>, sample_ctx, []) \<and>
   parse_insn 7 sample_ctx [0xc4, 0x19, 0, 2] =
     Inr (\<lparr>kind = insn_aload, original_pc = 7, operand = Index 2\<rparr>, sample_ctx, [])"
  using local_insn_canonical [of "0x19" "0x2a" insn_aload 2
      "\<lparr>kind = insn_aload, original_pc = 7, operand = Index 2\<rparr>" 7 sample_ctx "[]"]
  by (simp add: canonical_locals_def)

end
