(* ===== verification/Attributes.thy ===== *)
theory Attributes
  imports Instructions
begin

unbundle bit_operations_syntax

text \<open>
  Model of the attribute parsers of \<open>vm/classfile.c\<close>: the \<open>Code\<close> attribute (decoding loop,
  conversion of branch targets to instruction indices, exception table, nested attributes),
  \<open>BootstrapMethods\<close>, \<open>InnerClasses\<close> and the other attributes \<open>parse_attribute\<close> knows, the check
  of unqualified names, and the lookups in the parsed tables. Attributes nest (\<open>Code\<close> holds
  attributes), so the parser takes a bound on the nesting; a bound above the number of bytes
  is never reached (\<open>attribute_fuel_enough\<close>).
\<close>

section \<open>Code\<close>

text \<open>\<open>pc_to_insn[pc] = insn_count; code[insn_count] = parse_insn(...); ++insn_count\<close>. The bytes
  left are those from \<open>pc\<close> on.\<close>

definition count_indy :: "bytecode_insn \<Rightarrow> classfile_parse_ctx \<Rightarrow> classfile_parse_ctx" where
  "count_indy insn ctx =
     ctx\<lparr>indy_insns_count := indy_insns_count ctx + (if kind insn = insn_invokedynamic then 1 else 0)\<rparr>"

function decode_loop ::
    "nat \<Rightarrow> int list \<Rightarrow> bytecode_insn list \<Rightarrow> (bytecode_insn list \<times> int list) parser" where
  "decode_loop code_length pc_to_insn insns ctx bs =
     (if bs = [] then Inr ((insns, pc_to_insn), ctx, bs)
      else let pc = code_length - length bs; pc_to_insn' = pc_to_insn[pc := int (length insns)] in
           case parse_insn pc ctx bs of
             Inl e \<Rightarrow> Inl e
           | Inr (insn, ctx', bs') \<Rightarrow>
               decode_loop code_length pc_to_insn' (insns @ [insn]) (count_indy insn ctx') bs')"
  by pat_completeness auto
termination
  by (relation "measure (\<lambda>(n, p, i, ctx, bs). length bs)") (auto dest: insn.consumes)

declare decode_loop.simps [simp del]

definition parse_exception_entry :: "u32 \<Rightarrow> int list \<Rightarrow> exception_table_entry parser" where
  "parse_exception_entry code_length pc_to_insn =
     pbind (reader_next_u16 ''exception start pc'') (\<lambda>start_pc.
     pbind (reader_next_u16 ''exception end pc'') (\<lambda>end_pc.
     pbind (reader_next_u16 ''exception handler pc'') (\<lambda>handler_pc.
     pbind (reader_next_u16 ''exception catch type'') (\<lambda>ctype.
     pbind (pcheck (\<not> (unat start_pc \<ge> unat code_length \<or> unat end_pc > unat code_length \<or>
                       unat handler_pc \<ge> unat code_length))
              (Format_static ''exception table entry out of bounds'')) (\<lambda>_.
     pbind (pcheck (\<not> start_pc \<ge> end_pc)
              (Format_static ''exception table entry start >= end'')) (\<lambda>_.
     pbind (plift (convert_pc_to_insn (uint start_pc) pc_to_insn)) (\<lambda>start.
     pbind (if unat end_pc = unat code_length then pret (s32_of code_length)
            else plift (convert_pc_to_insn (uint end_pc) pc_to_insn)) (\<lambda>stop.
     pbind (plift (convert_pc_to_insn (uint handler_pc) pc_to_insn)) (\<lambda>handler.
     pbind (if ctype = 0 then pret None
            else pbind (pcp_entry ctype CP_KIND_CLASS ''exception catch type'') (\<lambda>i. pret (Some i))) (\<lambda>catch.
     pret \<lparr>start_insn = start, end_insn = stop, handler_insn = handler, catch_type = catch\<rparr>))))))))))"

definition parse_exception_table ::
    "u32 \<Rightarrow> int list \<Rightarrow> exception_table_entry list option parser" where
  "parse_exception_table code_length pc_to_insn =
     pbind (reader_next_u16 ''exception table length'') (\<lambda>len.
     if len \<noteq> 0
     then pbind (prepeat (unat len) (parse_exception_entry code_length pc_to_insn)) (\<lambda>es. pret (Some es))
     else pret None)"

text \<open>A pointer set in a loop over the attributes ends at the last one of the kind.\<close>

definition last_of_kind :: "attribute_kind \<Rightarrow> attribute list \<Rightarrow> nat option" where
  "last_of_kind k attrs =
     (case filter (\<lambda>i. attr_kind (attrs ! i) = k) [0..<length attrs] of
        [] \<Rightarrow> None
      | is \<Rightarrow> Some (last is))"

definition set_max_pc :: "int \<Rightarrow> unit parser" where
  "set_max_pc n ctx bs = Inr ((), ctx\<lparr>current_code_max_pc := n\<rparr>, bs)"

text \<open>\<open>sizeof(stack_frame)\<close> on a 64-bit target; \<open>cp_method\<close> reserves as many bytes for its
  \<open>template_frame\<close>.\<close>

definition sizeof_stack_frame :: nat where
  "sizeof_stack_frame = 40"

text \<open>Up to the conversion of the branch targets: the limits, the code length, the table and the
  converted instructions.\<close>

definition parse_code_insns ::
    "(u16 \<times> u16 \<times> u32 \<times> int list \<times> bytecode_insn list) parser" where
  "parse_code_insns =
     pbind (reader_next_u16 ''max stack'') (\<lambda>stack.
     pbind (reader_next_u16 ''max locals'') (\<lambda>locals.
     pbind (reader_next_u32 ''code length'') (\<lambda>code_length.
     pbind (reader_get_slice (unat code_length) ''code'') (\<lambda>code_bytes.
     pbind (set_max_pc (s32_of code_length)) (\<lambda>_.
     pbind (pslice (decode_loop (unat code_length) (replicate (unat code_length) (- 1)) []) code_bytes)
       (\<lambda>(insns, pc_to_insn).
     pbind (plift (convert_pcs_to_insn_indices insns pc_to_insn)) (\<lambda>converted.
     pret (stack, locals, code_length, pc_to_insn, converted))))))))"

definition parse_code_attribute :: "attribute parser \<Rightarrow> attribute_code parser" where
  "parse_code_attribute attribute_parser =
     pbind parse_code_insns (\<lambda>(stack, locals, code_length, pc_to_insn, converted).
     pbind (parse_exception_table code_length pc_to_insn) (\<lambda>table.
     pbind (reader_next_u16 ''code attributes count'') (\<lambda>attributes_count.
     pbind (prepeat (unat attributes_count) attribute_parser) (\<lambda>attributes.
     pbind pctx (\<lambda>ctx.
     pret (Attribute_code stack locals (word_of_nat (sizeof_stack_frame + unat stack * 8))
             (current_code_max_pc ctx) converted table
             (last_of_kind ATTRIBUTE_KIND_LINE_NUMBER_TABLE attributes)
             (last_of_kind ATTRIBUTE_KIND_LOCAL_VARIABLE_TABLE attributes) attributes))))))"

section \<open>Other attributes\<close>

text \<open>The kinds a static argument of a bootstrap method may have.\<close>

abbreviation (input) bootstrap_arg_kinds :: u32 where
  "bootstrap_arg_kinds \<equiv>
     CP_KIND_STRING OR CP_KIND_INTEGER OR CP_KIND_FLOAT OR CP_KIND_LONG OR CP_KIND_DOUBLE OR
     CP_KIND_METHOD_HANDLE OR CP_KIND_METHOD_TYPE OR CP_KIND_CLASS OR CP_KIND_DYNAMIC_CONSTANT"

definition parse_bootstrap_arg :: "nat parser" where
  "parse_bootstrap_arg =
     pbind (reader_next_u16 ''bootstrap method arg'') (\<lambda>index.
     pcp_entry index bootstrap_arg_kinds ''bootstrap method arg'')"

definition parse_bootstrap_method :: "bootstrap_method parser" where
  "parse_bootstrap_method =
     pbind (reader_next_u16 ''bootstrap method ref'') (\<lambda>index.
     pbind (pcp_entry index CP_KIND_METHOD_HANDLE ''bootstrap method ref'') (\<lambda>ref.
     pbind (reader_next_u16 ''bootstrap method arg count'') (\<lambda>arg_count.
     pbind (prepeat (unat arg_count) parse_bootstrap_arg) (\<lambda>as.
     pret \<lparr>bsm_ref = ref, bsm_args = as\<rparr>))))"

definition parse_bootstrap_methods_attribute :: "attribute_data parser" where
  "parse_bootstrap_methods_attribute =
     pbind (reader_next_u16 ''bootstrap methods count'') (\<lambda>count.
     pbind (prepeat (unat count) parse_bootstrap_method) (\<lambda>methods.
     pret (Attr_bootstrap_methods methods)))"

definition check_unqualified_name :: "slice \<Rightarrow> bool \<Rightarrow> string \<Rightarrow> format_error + unit" where
  "check_unqualified_name name is_method reading =
     (if length name = 0 then Inl (Empty_name reading)
      else if utf8_equals name ''<init>'' \<or> utf8_equals name ''<clinit>'' then Inr ()
      else if list_ex (\<lambda>c. c = CHR ''.'' \<or> c = CHR '';'' \<or> c = CHR ''['' \<or> c = CHR ''/'' \<or>
                           is_method \<and> (c = CHR ''<'' \<or> c = CHR ''>'')) name
      then Inl (Bad_name reading name)
      else Inr ())"

definition parse_inner_class :: "nat parser" where
  "parse_inner_class =
     pbind (reader_next_u16 ''inner class index'') (\<lambda>index.
     pbind (pcp_entry index CP_KIND_CLASS ''inner class'') (\<lambda>inner.
     pbind (reader_next_u16 ''outer class index'') (\<lambda>_.
     pbind (reader_next_u16 ''inner class name index'') (\<lambda>_.
     pbind (reader_next_u16 ''inner class access flags'') (\<lambda>_. pret inner)))))"

definition parse_inner_classes_attribute :: "attribute_data parser" where
  "parse_inner_classes_attribute =
     pbind (reader_next_u16 ''inner classes count'') (\<lambda>count.
     pbind (prepeat (unat count) parse_inner_class) (\<lambda>classes.
     pret (Attr_inner_classes classes)))"

text \<open>\<open>attr_reader\<close> as a whole, for the attributes that are copied unparsed.\<close>

definition rest_of_slice :: "u8 list parser" where
  "rest_of_slice ctx bs = Inr (bs, ctx, [])"

definition parse_stack_map_table_attribute :: "attribute_data parser" where
  "parse_stack_map_table_attribute =
     pbind (reader_next_u16 ''stack map table count'') (\<lambda>count.
     pbind rest_of_slice (\<lambda>bs. pret (Attr_stack_map_table (unat count) bs)))"

definition parse_constant_value_attribute :: "attribute_data parser" where
  "parse_constant_value_attribute =
     pbind (reader_next_u16 ''constant value index'') (\<lambda>index.
     pbind (pcp_entry index (CP_KIND_STRING OR CP_KIND_INTEGER OR CP_KIND_FLOAT OR CP_KIND_LONG OR
              CP_KIND_DOUBLE) ''constant value'') (\<lambda>i. pret (Attr_constant_value i)))"

definition parse_enclosing_method_attribute :: "attribute_data parser" where
  "parse_enclosing_method_attribute =
     pbind (reader_next_u16 ''enclosing class index'') (\<lambda>class_index.
     pbind (reader_next_u16 ''enclosing method index'') (\<lambda>method_index.
     pbind (if class_index \<noteq> 0
            then pbind (pcp_entry class_index CP_KIND_CLASS ''enclosing class'') (\<lambda>i. pret (Some i))
            else pret None) (\<lambda>c.
     pbind (if method_index \<noteq> 0
            then pbind (pcp_entry method_index CP_KIND_NAME_AND_TYPE ''enclosing method'') (\<lambda>i. pret (Some i))
            else pret None) (\<lambda>m. pret (Attr_enclosing_method c m)))))"

definition parse_permitted_subclasses_attribute :: "attribute_data parser" where
  "parse_permitted_subclasses_attribute =
     pbind (reader_next_u16 ''permitted subclasses count'') (\<lambda>count.
     pbind (prepeat (unat count)
              (pbind (reader_next_u16 ''permitted subclass index'') (\<lambda>index.
               pcp_entry index CP_KIND_CLASS ''permitted subclass''))) (\<lambda>entries.
     pret (Attr_permitted_subclasses entries)))"

definition parse_source_file_attribute :: "attribute_data parser" where
  "parse_source_file_attribute =
     pbind (reader_next_u16 ''source file index'') (\<lambda>index.
     pbind (pcp_utf8 index ''source file'') (\<lambda>name. pret (Attr_source_file name)))"

definition parse_line_number :: "line_number_table_entry parser" where
  "parse_line_number =
     pbind (reader_next_u16 ''line number start pc'') (\<lambda>start_pc.
     pbind (reader_next_u16 ''line number'') (\<lambda>line.
     pret \<lparr>lnt_start_pc = unat start_pc, lnt_line = unat line\<rparr>))"

definition parse_line_number_table_attribute :: "attribute_data parser" where
  "parse_line_number_table_attribute =
     pbind (reader_next_u16 ''line number table count'') (\<lambda>count.
     pbind (prepeat (unat count) parse_line_number) (\<lambda>entries. pret (Attr_line_number_table entries)))"

definition parse_method_parameter :: "method_parameter_info parser" where
  "parse_method_parameter =
     pbind (reader_next_u16 ''method parameter name'') (\<lambda>name_index.
     pbind (if name_index \<noteq> 0
            then pbind (pcp_utf8 name_index ''method parameter name'') (\<lambda>name.
                 pbind (plift (check_unqualified_name name False ''method parameter name'')) (\<lambda>_. pret name))
            else pret []) (\<lambda>name.
     pbind (reader_next_u16 ''method parameter access flags'') (\<lambda>flags.
     pret \<lparr>param_name = name, param_access_flags = flags\<rparr>)))"

definition parse_method_parameters_attribute :: "attribute_data parser" where
  "parse_method_parameters_attribute =
     pbind (reader_next_u8 ''method parameters count'') (\<lambda>count.
     pbind (prepeat (unat count) parse_method_parameter) (\<lambda>params. pret (Attr_method_parameters params)))"

definition parse_signature_attribute :: "attribute_data parser" where
  "parse_signature_attribute =
     pbind (reader_next_u16 ''Signature index'') (\<lambda>index.
     pbind (pcp_utf8 index ''Signature index'') (\<lambda>s. pret (Attr_signature s)))"

definition parse_nest_host_attribute :: "attribute_data parser" where
  "parse_nest_host_attribute =
     pbind (reader_next_u16 ''NestHost index'') (\<lambda>index.
     pbind (pcp_entry index CP_KIND_CLASS ''NestHost index'') (\<lambda>i. pret (Attr_nest_host i)))"

definition parse_local_variable :: "attribute_lvt_entry parser" where
  "parse_local_variable =
     pbind (reader_next_u16 ''local variable start pc'') (\<lambda>start_pc.
     pbind (reader_next_u16 ''local variable length'') (\<lambda>len.
     pbind (reader_next_u16 ''local variable name'') (\<lambda>name_index.
     pbind (pcp_utf8 name_index ''local variable name'') (\<lambda>name.
     pbind (reader_next_u16 ''local variable descriptor'') (\<lambda>descriptor_index.
     pbind (pcp_utf8 descriptor_index ''local variable descriptor'') (\<lambda>descriptor.
     pbind (reader_next_u16 ''local variable index'') (\<lambda>index.
     pret \<lparr>lvt_start_pc = unat start_pc, lvt_end_pc = unat start_pc + unat len,
           lvt_index = unat index, lvt_name = name, lvt_descriptor = descriptor\<rparr>)))))))"

definition parse_local_variable_table_attribute :: "attribute_data parser" where
  "parse_local_variable_table_attribute =
     pbind (reader_next_u16 ''local variable table count'') (\<lambda>count.
     pbind (prepeat (unat count) parse_local_variable) (\<lambda>entries. pret (Attr_local_variable_table entries)))"

section \<open>Dispatch\<close>

text \<open>The chain of \<open>utf8_equals\<close> in \<open>parse_attribute\<close>, except for \<open>Code\<close>.\<close>

definition plain_attributes :: "(string \<times> attribute_data parser) list" where
  "plain_attributes =
     [(''StackMapTable'', parse_stack_map_table_attribute),
      (''ConstantValue'', parse_constant_value_attribute),
      (''BootstrapMethods'', parse_bootstrap_methods_attribute),
      (''InnerClasses'', parse_inner_classes_attribute),
      (''EnclosingMethod'', parse_enclosing_method_attribute),
      (''PermittedSubclasses'', parse_permitted_subclasses_attribute),
      (''SourceFile'', parse_source_file_attribute),
      (''LineNumberTable'', parse_line_number_table_attribute),
      (''MethodParameters'', parse_method_parameters_attribute),
      (''RuntimeVisibleAnnotations'',
        pbind rest_of_slice (\<lambda>bs. pret (Attr_runtime_visible_annotations bs))),
      (''RuntimeVisibleParameterAnnotations'',
        pbind rest_of_slice (\<lambda>bs. pret (Attr_runtime_visible_parameter_annotations bs))),
      (''RuntimeVisibleTypeAnnotations'',
        pbind rest_of_slice (\<lambda>bs. pret (Attr_runtime_visible_type_annotations bs))),
      (''AnnotationDefault'', pbind rest_of_slice (\<lambda>bs. pret (Attr_annotation_default bs))),
      (''Signature'', parse_signature_attribute),
      (''NestHost'', parse_nest_host_attribute),
      (''LocalVariableTable'', parse_local_variable_table_attribute)]"

definition parse_attribute_data :: "attribute parser \<Rightarrow> slice \<Rightarrow> attribute_data parser" where
  "parse_attribute_data attribute_parser name =
     (if utf8_equals name ''Code''
      then pbind (parse_code_attribute attribute_parser) (\<lambda>c. pret (Attr_code c))
      else (case map_of plain_attributes name of
              Some p \<Rightarrow> p
            | None \<Rightarrow> pret Attr_unknown))"

definition attribute_step :: "attribute parser \<Rightarrow> attribute parser" where
  "attribute_step attribute_parser =
     pbind (reader_next_u16 ''method attribute name'') (\<lambda>index.
     pbind (pcp_utf8 index ''method attribute name'') (\<lambda>name.
     pbind (reader_next_u32 ''method attribute length'') (\<lambda>len.
     pbind (reader_get_slice (unat len) ''Attribute data'') (\<lambda>sub.
     pbind (pslice (parse_attribute_data attribute_parser name) sub) (\<lambda>data.
     pret (Attribute name len data))))))"

primrec parse_attribute_nested :: "nat \<Rightarrow> attribute parser" where
  "parse_attribute_nested 0 = pfail Nesting_limit"
| "parse_attribute_nested (Suc n) = attribute_step (parse_attribute_nested n)"

definition parse_attribute :: "attribute parser" where
  "parse_attribute ctx bs = parse_attribute_nested (Suc (length bs)) ctx bs"

section \<open>Lookups\<close>

fun local_variable_table_lookup :: "nat \<Rightarrow> nat \<Rightarrow> attribute_lvt_entry list \<Rightarrow> slice option" where
  "local_variable_table_lookup index pc [] = None"
| "local_variable_table_lookup index pc (entry # entries) =
     (if lvt_index entry = index \<and> lvt_start_pc entry \<le> pc \<and> lvt_end_pc entry > pc
      then Some (lvt_name entry)
      else local_variable_table_lookup index pc entries)"

fun find_attribute_from :: "nat \<Rightarrow> attribute list \<Rightarrow> attribute_kind \<Rightarrow> nat option" where
  "find_attribute_from i [] k = None"
| "find_attribute_from i (a # as) k =
     (if attr_kind a = k then Some i else find_attribute_from (Suc i) as k)"

definition find_attribute_by_kind :: "attribute list \<Rightarrow> attribute_kind \<Rightarrow> nat option" where
  "find_attribute_by_kind attrs k = find_attribute_from 0 attrs k"

section \<open>The attribute parsers are readers\<close>

lemma keeper_decode_loop: "ctx_keeper (decode_loop n p2i insns)"
proof
  fix ctx bs r ctx' bs'
  assume "decode_loop n p2i insns ctx bs = Inr (r, ctx', bs')"
  then have "cp ctx' = cp ctx \<and> indy_insns_count ctx \<le> indy_insns_count ctx'"
  proof (induction n p2i insns ctx bs rule: decode_loop.induct)
    case (1 n p2i insns ctx bs)
    show ?case
    proof (cases "bs = []")
      case True
      then show ?thesis using "1.prems" by (simp add: decode_loop.simps)
    next
      case False
      with "1.prems" obtain i c b where i: "parse_insn (n - length bs) ctx bs = Inr (i, c, b)"
        and rec: "decode_loop n (p2i[n - length bs := int (length insns)]) (insns @ [i])
          (count_indy i c) b = Inr (r, ctx', bs')"
        by (subst (asm) decode_loop.simps) (auto simp: Let_def split: sum.splits)
      have "c = ctx" using givesD [OF gives_insn i] by simp
      moreover have "cp ctx' = cp (count_indy i c) \<and>
          indy_insns_count (count_indy i c) \<le> indy_insns_count ctx'"
        by (rule "1.IH" [OF False refl refl i refl refl rec])
      ultimately show ?thesis by (auto simp: count_indy_def split: if_splits)
    qed
  qed
  then show "cp ctx' = cp ctx" "indy_insns_count ctx \<le> indy_insns_count ctx'" by auto
qed

lemma reader_set_max_pc [reader_intros]: "reader (set_max_pc n)"
  by unfold_locales (auto simp: set_max_pc_def)

lemma keeper_rest_of_slice: "ctx_keeper rest_of_slice"
  by unfold_locales (auto simp: rest_of_slice_def)

lemma reader_exceptions [reader_intros]:
  "reader (parse_exception_entry n p2i)" "reader (parse_exception_table n p2i)"
proof -
  show "reader (parse_exception_entry n p2i)" for n p2i
    unfolding parse_exception_entry_def by (auto intro!: reader_intros)
  then show "reader (parse_exception_table n p2i)"
    unfolding parse_exception_table_def by (auto intro!: reader_intros)
qed

lemma reader_code_insns [reader_intros]: "progress_reader parse_code_insns" "reader parse_code_insns"
proof -
  show p: "progress_reader parse_code_insns"
    unfolding parse_code_insns_def
    by (auto intro!: reader_intros keeper_decode_loop split: prod.split)
  show "reader parse_code_insns" using p by (rule progress_imp_reader)
qed

lemma reader_code [reader_intros]: "reader p \<Longrightarrow> reader (parse_code_attribute p)"
  unfolding parse_code_attribute_def
  by (auto intro!: reader_intros split: prod.split)

lemmas attribute_parser_defs =
  parse_bootstrap_methods_attribute_def parse_bootstrap_method_def parse_bootstrap_arg_def
  parse_inner_classes_attribute_def parse_inner_class_def parse_constant_value_attribute_def
  parse_enclosing_method_attribute_def parse_permitted_subclasses_attribute_def
  parse_source_file_attribute_def parse_line_number_table_attribute_def parse_line_number_def
  parse_method_parameters_attribute_def parse_method_parameter_def parse_signature_attribute_def
  parse_nest_host_attribute_def parse_local_variable_table_attribute_def parse_local_variable_def

lemma reader_plain_attributes:
  "reader parse_bootstrap_methods_attribute" "reader parse_inner_classes_attribute"
  "reader parse_constant_value_attribute" "reader parse_enclosing_method_attribute"
  "reader parse_permitted_subclasses_attribute" "reader parse_source_file_attribute"
  "reader parse_line_number_table_attribute" "reader parse_method_parameters_attribute"
  "reader parse_signature_attribute" "reader parse_nest_host_attribute"
  "reader parse_local_variable_table_attribute"
  unfolding attribute_parser_defs by (auto intro!: reader_intros)

lemma keeper_stack_map: "ctx_keeper parse_stack_map_table_attribute"
  unfolding parse_stack_map_table_attribute_def
  by (intro keeper_pbind reader_keeper [OF next_u16.reader_axioms] keeper_rest_of_slice
      reader_keeper [OF reader_pret])

lemma keeper_copied: "ctx_keeper (pbind rest_of_slice (\<lambda>bs. pret (f bs)))"
  by (intro keeper_pbind keeper_rest_of_slice reader_keeper [OF reader_pret])

lemma keeper_plain: "map_of plain_attributes name = Some p \<Longrightarrow> ctx_keeper p"
  unfolding plain_attributes_def
  by (auto simp: keeper_copied keeper_stack_map reader_plain_attributes reader_keeper split: if_splits)

lemma keeper_attribute_data: "reader p \<Longrightarrow> ctx_keeper (parse_attribute_data p name)"
  unfolding parse_attribute_data_def
  by (auto intro: keeper_plain reader_keeper reader_intros split: option.split)

lemma reader_attribute_step: "reader p \<Longrightarrow> progress_reader (attribute_step p)"
  unfolding attribute_step_def by (intro reader_intros keeper_attribute_data)

lemma reader_nested: "reader (parse_attribute_nested n)"
  by (induction n) (auto intro: reader_intros reader_attribute_step [THEN progress_imp_reader])

section \<open>The bound on the nesting is never reached\<close>

definition within :: "nat \<Rightarrow> 'a parser \<Rightarrow> bool" where
  "within k p \<longleftrightarrow> (\<forall>ctx bs. length bs \<le> k \<longrightarrow> p ctx bs \<noteq> Inl Nesting_limit)"

lemma within_pbind [fuel_intros]:
  assumes "within k p" and "reader p" and "\<And>x. within k (f x)"
  shows "within k (pbind p f)"
  unfolding within_def
proof (intro allI impI)
  fix ctx bs
  assume k: "length (bs :: u8 list) \<le> k"
  have "f x c b \<noteq> Inl Nesting_limit" if "p ctx bs = Inr (x, c, b)" for x c b
    using reader.not_longer [OF assms(2) that] assms(3) k by (simp add: within_def)
  then show "pbind p f ctx bs \<noteq> Inl Nesting_limit"
    using assms(1) k by (auto simp: pbind_Inl within_def)
qed

lemma within_simple [fuel_intros]:
  "within k (pret x)" "within k pctx" "within k (set_max_pc max_pc)"
  "within k (reader_next_u8 r)" "within k (reader_next_u16 r)" "within k (reader_next_u32 r)"
  "within k (reader_get_slice n r)"
  by (auto simp: within_def read_errs set_max_pc_def)

lemma within_lift [fuel_intros]:
  "r \<noteq> Inl Nesting_limit \<Longrightarrow> within k (plift r)" "e \<noteq> Nesting_limit \<Longrightarrow> within k (pcheck ok e)"
  by (auto simp: within_def read_errs)

lemma within_pcp [fuel_intros]: "within k (pcp_entry i kinds r)" "within k (pcp_utf8 i r)"
  by (auto simp: within_def read_errs checked_get_utf8_def checked_cp_entry_def check_cp_entry_def
      split: sum.splits cp_info.splits if_splits)

lemma within_prepeat [fuel_intros]: "within k p \<Longrightarrow> reader p \<Longrightarrow> within k (prepeat n p)"
  by (induction n) (auto intro!: fuel_intros reader_intros)

lemma within_if [fuel_intros]: "within k p \<Longrightarrow> within k q \<Longrightarrow> within k (if b then p else q)"
  by simp

lemma convert_limit:
  "convert_pc_to_insn pc p2i \<noteq> Inl Nesting_limit"
  "convert_all ts p2i \<noteq> Inl Nesting_limit" "convert_insn insn p2i \<noteq> Inl Nesting_limit"
  "convert_pcs_to_insn_indices insns p2i \<noteq> Inl Nesting_limit"
proof -
  show c: "convert_pc_to_insn pc p2i \<noteq> Inl Nesting_limit" for pc
    by (simp add: convert_pc_to_insn_def Let_def)
  then show a: "convert_all ts p2i \<noteq> Inl Nesting_limit" for ts
    by (induction ts) (auto split: sum.splits)
  show i: "convert_insn insn p2i \<noteq> Inl Nesting_limit" for insn
    using c a unfolding convert_insn_def by (auto split: sum.splits insn_operand.splits)
  show "convert_pcs_to_insn_indices insns p2i \<noteq> Inl Nesting_limit"
    using i by (induction insns) (auto split: sum.splits)
qed

lemma access_limit:
  "checked_cp_entry pool i kinds reason \<noteq> Inl Nesting_limit" "checked_pc pc offset ctx \<noteq> Inl Nesting_limit"
  "parse_atype a \<noteq> Inl Nesting_limit" "check_unqualified_name s m r \<noteq> Inl Nesting_limit"
  by (auto simp: checked_cp_entry_def check_cp_entry_def checked_pc_def Let_def parse_atype_def
      check_unqualified_name_def split: sum.splits option.splits)

lemma get_utf8_limit: "checked_get_utf8 pool i reason \<noteq> Inl Nesting_limit"
  using access_limit(1) by (auto simp: checked_get_utf8_def split: sum.splits cp_info.splits)

lemma insn_limit: "parse_insn pc ctx bs \<noteq> Inl Nesting_limit"
proof -
  have sw: "parse_tableswitch_insn pc c b \<noteq> Inl Nesting_limit"
    "parse_lookupswitch_insn pc c b \<noteq> Inl Nesting_limit" for c b
    unfolding parse_tableswitch_insn_def parse_lookupswitch_insn_def Let_def
    by (auto simp: pbind_Inl read_errs access_limit pchecked_pc_err dest!: prepeat_err skip_padding_err)
  have br: "parse_branch_insn pc k (reader_next_s16 r) c b \<noteq> Inl Nesting_limit"
    "parse_branch_insn pc k (reader_next_s32 r) c b \<noteq> Inl Nesting_limit"
    "parse_cp_insn row c b \<noteq> Inl Nesting_limit" for k r c b row
    unfolding parse_branch_insn_def parse_cp_insn_def
    by (auto simp: pbind_Inl read_errs access_limit pchecked_pc_err split: prod.splits)
  have "parse_special_insn op pc c b \<noteq> Inl Nesting_limit" for op c b
    unfolding parse_special_insn_def parse_push_insn_def parse_ldc_insn_def parse_ldc2_w_insn_def
      parse_iinc_insn_def parse_invokeinterface_insn_def parse_invokedynamic_insn_def
      parse_newarray_insn_def parse_wide_insn_def parse_multianewarray_insn_def
    by (auto simp: pbind_Inl read_errs access_limit sw
        split: if_splits option.splits prod.splits cp_info.splits)
  then show ?thesis
    unfolding parse_insn_def parse_insn_impl_def
    by (auto simp: pbind_Inl read_errs br simp del: map_of_append split: option.splits)
qed

lemma decode_limit: "decode_loop n p2i insns ctx bs \<noteq> Inl Nesting_limit"
proof (induction n p2i insns ctx bs rule: decode_loop.induct)
  case (1 n p2i insns ctx bs)
  show ?case
    using 1 insn_limit by (subst decode_loop.simps) (auto simp: Let_def split: sum.splits)
qed

lemma within_pslice:
  "within k p \<Longrightarrow> length sub \<le> k \<Longrightarrow> within k' (pslice p sub)"
  by (auto simp: within_def read_errs)

lemma within_code [fuel_intros]:
  assumes "within k p" and "reader p"
  shows "within k (parse_code_attribute p)"
proof -
  have d: "within k (pslice (decode_loop n p2i insns) sub)" for n p2i insns sub
    by (simp add: within_def read_errs decode_limit)
  have x: "within k (parse_exception_table n p2i)" for n p2i
    unfolding parse_exception_table_def parse_exception_entry_def
    by (auto intro!: fuel_intros reader_intros simp: convert_limit)
  have i: "within k parse_code_insns"
    unfolding parse_code_insns_def
    by (auto intro!: fuel_intros reader_intros d keeper_decode_loop convert_limit split: prod.split)
  show ?thesis
    unfolding parse_code_attribute_def
    by (auto intro!: fuel_intros reader_intros i x assms split: prod.split)
qed

lemma within_plain_attributes:
  "within k parse_bootstrap_methods_attribute" "within k parse_inner_classes_attribute"
  "within k parse_constant_value_attribute" "within k parse_enclosing_method_attribute"
  "within k parse_permitted_subclasses_attribute" "within k parse_source_file_attribute"
  "within k parse_line_number_table_attribute" "within k parse_method_parameters_attribute"
  "within k parse_signature_attribute" "within k parse_nest_host_attribute"
  "within k parse_local_variable_table_attribute"
  unfolding attribute_parser_defs by (auto intro!: fuel_intros reader_intros simp: access_limit)

lemma within_copied:
  "within k (pbind rest_of_slice (\<lambda>bs. pret (f bs)))" "within k parse_stack_map_table_attribute"
  by (auto simp: parse_stack_map_table_attribute_def within_def pbind_Inl rest_of_slice_def read_errs)

lemma within_plain: "map_of plain_attributes name = Some p \<Longrightarrow> within k p"
  unfolding plain_attributes_def
  by (auto simp: within_plain_attributes within_copied split: if_splits)

lemma within_attribute_data:
  "within k p \<Longrightarrow> reader p \<Longrightarrow> within k (parse_attribute_data p name)"
  unfolding parse_attribute_data_def
  by (auto intro: within_plain fuel_intros reader_intros split: option.split)

lemma attribute_step_within:
  assumes "within n p" and "reader p"
  shows "within (Suc n) (attribute_step p)"
  unfolding within_def
proof (intro allI impI notI)
  fix ctx bs
  assume k: "length bs \<le> Suc n" and e: "attribute_step p ctx bs = Inl Nesting_limit"
  have small: "parse_attribute_data p name ctx (take m (drop 6 bs)) \<noteq> Inl Nesting_limit" for name m
    using within_attribute_data [OF assms, of name] k by (auto simp: within_def)
  show False
    using e unfolding attribute_step_def
    by (auto simp: pbind_Inl read_errs read_iffs get_utf8_limit small)
qed

lemma nested_within: "within n (parse_attribute_nested (Suc n))"
proof (induction n)
  case 0
  have "attribute_step p ctx [] \<noteq> Inl Nesting_limit" for p ctx
    unfolding attribute_step_def by (simp add: pbind_Inl read_errs read_iffs)
  then show ?case by (simp add: within_def)
next
  case (Suc n)
  show ?case
    using attribute_step_within [OF Suc reader_nested] by simp
qed

section \<open>More nesting changes nothing\<close>

definition extends :: "'a parser \<Rightarrow> 'a parser \<Rightarrow> bool" where
  "extends p q \<longleftrightarrow> (\<forall>ctx bs. p ctx bs \<noteq> Inl Nesting_limit \<longrightarrow> q ctx bs = p ctx bs)"

lemma extends_refl [simp]: "extends p p"
  by (simp add: extends_def)

lemma extends_pbind: "extends p q \<Longrightarrow> (\<And>x. extends (f x) (g x)) \<Longrightarrow> extends (pbind p f) (pbind q g)"
  unfolding extends_def pbind_def by (auto split: sum.splits)

lemma extends_prepeat: "extends p q \<Longrightarrow> extends (prepeat n p) (prepeat n q)"
  by (induction n) (auto intro!: extends_pbind)

lemma extends_pslice: "extends p q \<Longrightarrow> extends (pslice p sub) (pslice q sub)"
  unfolding extends_def pslice_def by (auto split: sum.splits)

lemma extends_attribute_step:
  assumes "extends p q"
  shows "extends (attribute_step p) (attribute_step q)"
proof -
  have c: "extends (parse_code_attribute p) (parse_code_attribute q)"
    unfolding parse_code_attribute_def
    by (auto intro!: extends_pbind extends_prepeat assms split: prod.split)
  have "extends (parse_attribute_data p name) (parse_attribute_data q name)" for name
    unfolding parse_attribute_data_def by (auto intro!: extends_pbind c split: option.split)
  then show ?thesis
    unfolding attribute_step_def by (intro extends_pbind extends_pslice) simp_all
qed

lemma nested_extends: "extends (parse_attribute_nested n) (parse_attribute_nested (n + m))"
proof (induction n)
  case 0
  show ?case by (simp add: extends_def pfail_def)
next
  case (Suc n)
  then show ?case by (simp add: extends_attribute_step)
qed

lemma nested_same:
  "parse_attribute_nested n ctx bs \<noteq> Inl Nesting_limit \<Longrightarrow> n \<le> m \<Longrightarrow>
   parse_attribute_nested m ctx bs = parse_attribute_nested n ctx bs"
  using nested_extends [of n "m - n"] by (simp add: extends_def)

lemma nested_more:
  "parse_attribute_nested n ctx bs = Inr r \<Longrightarrow> n \<le> m \<Longrightarrow> parse_attribute_nested m ctx bs = Inr r"
  using nested_same [of n ctx bs m] by simp

lemma nested_enough: "length bs < n \<Longrightarrow> parse_attribute_nested n ctx bs \<noteq> Inl Nesting_limit"
  using nested_within [of "n - 1"] by (cases n) (simp_all add: within_def)

interpretation attribute: progress_reader parse_attribute
proof
  fix ctx bs x ctx' bs'
  assume p: "parse_attribute ctx bs = Inr (x, ctx', bs')"
  let ?p = "parse_attribute_nested (Suc (length bs))"
  have n: "?p ctx bs = Inr (x, ctx', bs')" using p by (simp add: parse_attribute_def)
  show "\<exists>pre. bs = pre @ bs'" using reader.suffix [OF reader_nested n] .
  show "cp ctx' = cp ctx" using ctx_keeper.pool [OF reader_keeper [OF reader_nested] n] .
  show "indy_insns_count ctx \<le> indy_insns_count ctx'"
    using ctx_keeper.indy [OF reader_keeper [OF reader_nested] n] .
  show "parse_attribute ctx (bs @ ys) = Inr (x, ctx', bs' @ ys)" for ys
    unfolding parse_attribute_def
    by (rule nested_more [OF reader.extend [OF reader_nested n]]) simp
  have "progress_reader ?p"
    using reader_attribute_step [OF reader_nested] by simp
  then show "length bs' < length bs" using n by (rule progress_reader.consumes)
qed

lemmas attribute_reader [reader_intros] = attribute.progress_reader_axioms attribute.reader_axioms

section \<open>The decoding loop\<close>

definition indy_total :: "bytecode_insn list \<Rightarrow> nat" where
  "indy_total insns = length (filter (\<lambda>i. kind i = insn_invokedynamic) insns)"

text \<open>The table after the bytes before \<open>pc\<close> have been decoded: it holds an index exactly where an
  instruction starts, in increasing order.\<close>

definition p2i_ok :: "nat \<Rightarrow> int list \<Rightarrow> bytecode_insn list \<Rightarrow> nat \<Rightarrow> bool" where
  "p2i_ok n p2i insns pc \<longleftrightarrow>
     length p2i = n \<and> length insns \<le> pc \<and>
     (\<forall>p < n. p2i ! p = - 1 \<or> 0 \<le> p2i ! p \<and> p2i ! p < int (length insns) \<and> p < pc) \<and>
     (\<forall>p q. p < q \<longrightarrow> q < n \<longrightarrow> p2i ! p \<noteq> - 1 \<longrightarrow> p2i ! q \<noteq> - 1 \<longrightarrow> p2i ! p < p2i ! q) \<and>
     (\<forall>k < length insns. \<exists>p < n. p2i ! p = int k \<and> original_pc (insns ! k) = word_of_nat p)"

lemma p2i_ok_init: "p2i_ok n (replicate n (- 1)) [] 0"
  by (simp add: p2i_ok_def)

lemma p2i_ok_step:
  assumes ok: "p2i_ok n p2i insns pc" and pc: "pc < n" "pc < pc'"
    and i: "original_pc insn = word_of_nat pc"
  shows "p2i_ok n (p2i[pc := int (length insns)]) (insns @ [insn]) pc'"
proof -
  let ?t = "p2i[pc := int (length insns)]"
  have len: "length p2i = n" "length insns \<le> pc"
    and val: "\<And>p. p < n \<Longrightarrow> p2i ! p = - 1 \<or> 0 \<le> p2i ! p \<and> p2i ! p < int (length insns) \<and> p < pc"
    and mono: "\<And>p q. p < q \<Longrightarrow> q < n \<Longrightarrow> p2i ! p \<noteq> - 1 \<Longrightarrow> p2i ! q \<noteq> - 1 \<Longrightarrow> p2i ! p < p2i ! q"
    and onto: "\<And>k. k < length insns \<Longrightarrow> \<exists>p < n. p2i ! p = int k \<and> original_pc (insns ! k) = word_of_nat p"
    using ok by (auto simp: p2i_ok_def)
  have t: "?t ! p = (if p = pc then int (length insns) else p2i ! p)" if "p < n" for p
    using that len pc by (simp add: nth_list_update)
  have "\<exists>p < n. ?t ! p = int k \<and> original_pc ((insns @ [insn]) ! k) = word_of_nat p"
    if k: "k < Suc (length insns)" for k
  proof (cases "k = length insns")
    case True
    then show ?thesis using t [OF pc(1)] i pc(1) by (intro exI [of _ pc]) simp
  next
    case False
    then have k': "k < length insns" using k by simp
    from onto [OF k'] obtain p where p: "p < n" "p2i ! p = int k" "original_pc (insns ! k) = word_of_nat p"
      by blast
    then have "p \<noteq> pc" using val [OF p(1)] by auto
    then show ?thesis using p k' t [OF p(1)] by (intro exI [of _ p]) (simp add: nth_append)
  qed
  moreover have "?t ! p < ?t ! q" if "p < q" "q < n" "?t ! p \<noteq> - 1" "?t ! q \<noteq> - 1" for p q
  proof -
    have p: "p < n" using that by simp
    show ?thesis
      using val [OF p] val [OF that(2)] mono [OF that(1,2)] that(1,3,4) t [OF p] t [OF that(2)]
      by (auto split: if_splits)
  qed
  moreover have "?t ! p = - 1 \<or> 0 \<le> ?t ! p \<and> ?t ! p < int (Suc (length insns)) \<and> p < pc'" if "p < n" for p
    using val [OF that] t [OF that] pc by auto
  ultimately show ?thesis using len pc by (simp add: p2i_ok_def)
qed

lemma p2i_ok_original:
  assumes ok: "p2i_ok n p2i insns n" and p: "p < n" "p2i ! p \<noteq> - 1"
  shows "original_pc (insns ! nat (p2i ! p)) = word_of_nat p"
proof -
  have r: "0 \<le> p2i ! p" "nat (p2i ! p) < length insns" using ok p by (auto simp: p2i_ok_def)
  then obtain q where q: "q < n" "p2i ! q = p2i ! p" "original_pc (insns ! nat (p2i ! p)) = word_of_nat q"
    using ok unfolding p2i_ok_def by (metis int_nat_eq)
  have mono: "p2i ! a < p2i ! b" if "a < b" "b < n" "p2i ! a \<noteq> - 1" "p2i ! b \<noteq> - 1" for a b
    using ok that unfolding p2i_ok_def by blast
  have "\<not> p < q" "\<not> q < p" using mono [of p q] mono [of q p] p q by auto
  then show ?thesis using q(3) by simp
qed

lemma insn_ok_count [simp]: "insn_ok (count_indy i ctx) = insn_ok ctx"
proof -
  have "target_ok (count_indy i ctx) = target_ok ctx"
    by (intro ext) (simp add: target_ok_def count_indy_def)
  moreover have "cp (count_indy i ctx) = cp ctx" by (simp add: count_indy_def)
  ultimately show ?thesis by (intro ext) (simp only: insn_ok_def operand_ok_def)
qed

lemma decode_loop_ok:
  assumes "decode_loop n p2i insns ctx bs = Inr ((insns', p2i'), ctx', bs')"
    and "p2i_ok n p2i insns (n - length bs)" and "length bs \<le> n" and "list_all (insn_ok ctx) insns"
  shows "p2i_ok n p2i' insns' n \<and> list_all (insn_ok ctx) insns' \<and>
    ctx' = ctx\<lparr>indy_insns_count := indy_insns_count ctx'\<rparr> \<and>
    indy_insns_count ctx' + indy_total insns = indy_insns_count ctx + indy_total insns'"
  using assms
proof (induction n p2i insns ctx bs rule: decode_loop.induct)
  case (1 n p2i insns ctx bs)
  show ?case
  proof (cases "bs = []")
    case True
    then show ?thesis using "1.prems" by (simp add: decode_loop.simps)
  next
    case False
    let ?pc = "n - length bs"
    obtain i c b where i: "parse_insn ?pc ctx bs = Inr (i, c, b)"
      and rec: "decode_loop n (p2i[?pc := int (length insns)]) (insns @ [i]) (count_indy i c) b =
        Inr ((insns', p2i'), ctx', bs')"
      using "1.prems"(1) False
      by (subst (asm) decode_loop.simps) (auto simp: Let_def split: sum.splits)
    have c: "c = ctx" and io: "insn_ok ctx i" using givesD [OF gives_insn i] by simp_all
    have op: "original_pc i = word_of_nat ?pc" using i by (auto simp: parse_insn_def pbind_Inr read_iffs)
    have sh: "length b < length bs" using insn.consumes [OF i] .
    have st: "p2i_ok n (p2i[?pc := int (length insns)]) (insns @ [i]) (n - length b)"
      using p2i_ok_step [OF "1.prems"(2) _ _ op] sh "1.prems"(3) by simp
    have "list_all (insn_ok (count_indy i c)) (insns @ [i])" using "1.prems"(4) io c by simp
    from "1.IH" [OF False refl refl i refl refl rec st _ this] sh "1.prems"(3)
    have "p2i_ok n p2i' insns' n \<and> list_all (insn_ok ctx) insns' \<and>
        ctx' = (count_indy i ctx)\<lparr>indy_insns_count := indy_insns_count ctx'\<rparr> \<and>
        indy_insns_count ctx' + indy_total (insns @ [i]) =
          indy_insns_count (count_indy i ctx) + indy_total insns'"
      using c by (simp add: list_all_iff)
    then show ?thesis by (auto simp: count_indy_def indy_total_def split: if_splits)
  qed
qed

section \<open>From program counters to instruction indices\<close>

lemma convert_pc_range:
  assumes "p2i_ok n p2i insns n" and "convert_pc_to_insn t p2i = Inr i" and "0 \<le> t" "t < int n"
  shows "0 \<le> i \<and> i < int (length insns) \<and> i = p2i ! nat t"
proof -
  have "nat t < n" using assms(3,4) by simp
  then show ?thesis using assms(1,2) by (auto simp: p2i_ok_def convert_pc_to_insn_def Let_def split: if_splits)
qed

text \<open>The context in which the converted code is well formed: targets are instruction indices.\<close>

definition index_ctx :: "classfile_parse_ctx \<Rightarrow> nat \<Rightarrow> classfile_parse_ctx" where
  "index_ctx ctx n = ctx\<lparr>current_code_max_pc := int n\<rparr>"

lemma sint32: "sint (w :: u32) = (if uint w < 2 ^ 31 then uint w else uint w - 2 ^ 32)"
proof -
  have u: "0 \<le> uint w" "uint w < 2 ^ 32" using unsigned_less [of w, where 'a = int] by simp_all
  have "sint w = sint (word_of_int (uint w) :: u32)" by simp
  also have "\<dots> = (uint w + 2 ^ 31) mod 2 ^ 32 - 2 ^ 31" by (simp only: int_word_sint) simp
  also have "\<dots> = (if uint w < 2 ^ 31 then uint w else uint w - 2 ^ 32)"
  proof (cases "uint w < 2 ^ 31")
    case True
    then show ?thesis using u by (simp add: mod_pos_pos_trivial)
  next
    case False
    have "(uint w + 2 ^ 31) mod 2 ^ 32 = (uint w - 2 ^ 31 + 2 ^ 32) mod 2 ^ 32"
      by (simp add: add.commute)
    also have "\<dots> = uint w - 2 ^ 31" using u False by (simp only: mod_add_self2) (simp add: mod_pos_pos_trivial)
    finally show ?thesis using False by simp
  qed
  finally show ?thesis .
qed

lemma s32_of_bounds: "0 < s32_of w \<Longrightarrow> s32_of w = int (unat w) \<and> unat w < 2 ^ 31"
proof -
  assume p: "0 < s32_of w"
  have "uint w < 2 ^ 32" using unsigned_less [of w, where 'a = int] by simp
  then have "uint w < 2 ^ 31" using p by (simp add: s32_of_def sint32 split: if_splits)
  then show ?thesis by (simp add: s32_of_def sint32 flip: of_nat_less_iff [where 'a = int])
qed

lemma convert_target:
  assumes p: "p2i_ok n p2i insns n" and ctx: "current_code_max_pc ctx = s32_of w" "n = unat w"
    and t: "target_ok ctx t" and c: "convert_pc_to_insn t p2i = Inr i"
  shows "target_ok (index_ctx ctx (length insns)) i"
proof -
  have "0 < s32_of w" using t ctx by (auto simp: target_ok_def)
  from s32_of_bounds [OF this] have n: "s32_of w = int n" "n < 2 ^ 31" using ctx by simp_all
  then have "0 \<le> t" "t < int n" using t ctx by (auto simp: target_ok_def)
  from convert_pc_range [OF p c this] show ?thesis
    using p n by (auto simp: target_ok_def index_ctx_def p2i_ok_def)
qed

lemma convert_targets:
  assumes p: "p2i_ok n p2i insns n" and ctx: "current_code_max_pc ctx = s32_of w" "n = unat w"
    and "list_all (target_ok ctx) ts" and "convert_all ts p2i = Inr is"
  shows "list_all (target_ok (index_ctx ctx (length insns))) is \<and> length is = length ts"
  using assms(4,5)
proof (induction ts arbitrary: "is")
  case (Cons t ts)
  then show ?case using convert_target [OF p ctx] by (auto split: sum.splits)
qed simp

lemma sint_target: "target_ok ctx t \<Longrightarrow> sint (word_of_int t :: u32) = t"
proof -
  assume "target_ok ctx t"
  then have "0 \<le> t" "t < 2 ^ 31" by (simp_all add: target_ok_def)
  then show ?thesis by (simp add: int_word_sint)
qed

text \<open>Kinds without targets do not look at the code length.\<close>

lemma operand_ok_index:
  assumes "operand_ok ctx k arg" and "k \<noteq> insn_tableswitch" "k \<noteq> insn_lookupswitch" "\<not> is_branch_kind k"
  shows "operand_ok (index_ctx ctx n) k arg"
proof -
  have "cp (index_ctx ctx n) = cp ctx" by (simp add: index_ctx_def)
  then have "operand_ok (index_ctx ctx n) k arg = operand_ok ctx k arg"
    by (simp only: operand_ok_def assms(2-4) if_False)
  then show ?thesis using assms(1) by simp
qed

lemma convert_insn_ok:
  assumes p: "p2i_ok n p2i insns n" and ctx: "current_code_max_pc ctx = s32_of w" "n = unat w"
    and ok: "insn_ok ctx insn" and c: "convert_insn insn p2i = Inr insn'"
  shows "insn_ok (index_ctx ctx (length insns)) insn' \<and> kind insn' = kind insn \<and>
    original_pc insn' = original_pc insn"
proof -
  note tgt = convert_target [OF p ctx] and tgts = convert_targets [OF p ctx]
  consider (ts) "kind insn = insn_tableswitch" | (ls) "kind insn = insn_lookupswitch"
    | (br) "is_branch_kind (kind insn)"
    | (other) "kind insn \<noteq> insn_tableswitch" "kind insn \<noteq> insn_lookupswitch" "\<not> is_branch_kind (kind insn)"
    by blast
  then show ?thesis
  proof cases
    case ts
    then obtain d where d: "operand insn = Tableswitch d" "target_ok ctx (ts_default_target d)"
      "list_all (target_ok ctx) (ts_targets d)" "int (length (ts_targets d)) = ts_high d - ts_low d + 1"
      using ok by (auto simp: insn_ok_def operand_ok_def)
    then have all: "take (nat (ts_high d - ts_low d + 1)) (ts_targets d) = ts_targets d" by simp
    from c ts d(1) obtain dt ts' where "convert_pc_to_insn (ts_default_target d) p2i = Inr dt"
      "convert_all (ts_targets d) p2i = Inr ts'"
      and i: "insn' = insn\<lparr>operand := Tableswitch (d\<lparr>ts_default_target := dt, ts_targets := ts'\<rparr>)\<rparr>"
      unfolding convert_insn_def by (auto simp: all split: sum.splits)
    then show ?thesis using tgt [OF d(2)] tgts [OF d(3)] ts d(4)
      by (auto simp: insn_ok_def operand_ok_def)
  next
    case ls
    then obtain d where d: "operand insn = Lookupswitch d" "target_ok ctx (ls_default_target d)"
      "list_all (target_ok ctx) (ls_targets d)" "length (ls_keys d) = length (ls_targets d)"
      using ok by (auto simp: insn_ok_def operand_ok_def)
    from c ls d(1) obtain dt ts' where "convert_pc_to_insn (ls_default_target d) p2i = Inr dt"
      "convert_all (ls_targets d) p2i = Inr ts'"
      and i: "insn' = insn\<lparr>operand := Lookupswitch (d\<lparr>ls_default_target := dt, ls_targets := ts'\<rparr>)\<rparr>"
      unfolding convert_insn_def by (auto split: sum.splits)
    then show ?thesis using tgt [OF d(2)] tgts [OF d(3)] ls d(4)
      by (auto simp: insn_ok_def operand_ok_def)
  next
    case br
    then have k: "kind insn \<noteq> insn_tableswitch" "kind insn \<noteq> insn_lookupswitch"
      by (auto simp: is_branch_kind_def)
    then obtain t where t: "operand insn = Index (word_of_int t)" "target_ok ctx t"
      using ok br by (auto simp: insn_ok_def operand_ok_def)
    from c k br t(1) obtain j where j: "convert_pc_to_insn t p2i = Inr j"
      and i: "insn' = insn\<lparr>operand := Index (word_of_int j)\<rparr>"
      unfolding convert_insn_def by (auto simp: sint_target [OF t(2)] split: sum.splits)
    show ?thesis using branch_operand_ok [OF br tgt [OF t(2) j]] i by (simp add: insn_ok_def)
  next
    case other
    then have "insn' = insn" using c by (simp add: convert_insn_def)
    then show ?thesis using operand_ok_index [OF _ other] ok by (simp add: insn_ok_def)
  qed
qed

lemma convert_insns_ok:
  assumes p: "p2i_ok n p2i insns n" and ctx: "current_code_max_pc ctx = s32_of w" "n = unat w"
    and "list_all (insn_ok ctx) xs" and "convert_pcs_to_insn_indices xs p2i = Inr ys"
  shows "list_all (insn_ok (index_ctx ctx (length insns))) ys \<and> map kind ys = map kind xs"
  using assms(4,5)
proof (induction xs arbitrary: ys)
  case (Cons x xs)
  from Cons.prems(2) obtain y ys' where y: "convert_insn x p2i = Inr y"
    and ys: "convert_pcs_to_insn_indices xs p2i = Inr ys'" "ys = y # ys'"
    by (auto split: sum.splits)
  have "insn_ok ctx x" "list_all (insn_ok ctx) xs" using Cons.prems(1) by simp_all
  then show ?case using convert_insn_ok [OF p ctx _ y] Cons.IH [OF _ ys(1)] ys(2) by simp
qed simp

section \<open>Exception tables\<close>

text \<open>The protected range is not empty and starts at an instruction, the handler is one, and the
  type caught is a class entry.\<close>

definition exception_ok :: "constant_pool \<Rightarrow> nat \<Rightarrow> exception_table_entry \<Rightarrow> bool" where
  "exception_ok pool n e \<longleftrightarrow>
     0 \<le> start_insn e \<and> start_insn e < int n \<and> start_insn e < end_insn e \<and>
     0 \<le> handler_insn e \<and> handler_insn e < int n \<and>
     (catch_type e = None \<or> points_to pool CP_KIND_CLASS (catch_type e))"

lemma convert_pc_mono:
  assumes "p2i_ok n p2i insns n" and "convert_pc_to_insn s p2i = Inr i" "convert_pc_to_insn t p2i = Inr j"
    and "0 \<le> s" "s < t" "t < int n"
  shows "i < j"
proof -
  have v: "p2i ! nat s = i" "p2i ! nat t = j" "i \<noteq> - 1" "j \<noteq> - 1"
    using assms(2,3) by (auto simp: convert_pc_to_insn_def Let_def split: if_splits)
  have "nat s < nat t" "nat t < n" using assms(4-6) by auto
  then show ?thesis using assms(1) v unfolding p2i_ok_def by metis
qed

lemma s32_code_length: "unat (x :: u16) = unat (w :: u32) \<Longrightarrow> s32_of w = int (unat w)"
proof -
  assume e: "unat x = unat w"
  have "unat x < 2 ^ 16" using unsigned_less [of x, where 'a = nat] by simp
  then have n: "unat w < 65536" using e by simp
  obtain n where "unat w = n" "uint w = int n" by (simp add: that)
  then have "uint w < 2 ^ 31" using n by simp
  then show ?thesis by (simp add: s32_of_def sint32)
qed

lemma gives_if:
  "(b \<Longrightarrow> gives ctx p Q) \<Longrightarrow> (\<not> b \<Longrightarrow> gives ctx q Q) \<Longrightarrow> gives ctx (if b then p else q) Q"
  by simp

lemma uint_less_unat: "unat (x :: 'a::len word) < unat (y :: 'b::len word) \<Longrightarrow> uint x < uint y"
proof -
  assume "unat x < unat y"
  then have "int (unat x) < int (unat y)" by (simp only: of_nat_less_iff)
  then show ?thesis by simp
qed

lemma gives_exception_entry:
  assumes p: "p2i_ok (unat w) p2i insns (unat w)"
  shows "gives ctx (parse_exception_entry w p2i) (exception_ok (cp ctx) (length insns))"
proof -
  have fin: "exception_ok (cp ctx) (length insns)
      \<lparr>start_insn = i, end_insn = j, handler_insn = h, catch_type = c\<rparr>"
    if "\<not> (unat s \<ge> unat w \<or> unat e > unat w \<or> unat hp \<ge> unat w)" "\<not> s \<ge> e"
      "convert_pc_to_insn (uint s) p2i = Inr i" "convert_pc_to_insn (uint hp) p2i = Inr h"
      "unat e = unat w \<and> j = s32_of w \<or> unat e \<noteq> unat w \<and> convert_pc_to_insn (uint e) p2i = Inr j"
      "c = None \<or> points_to (cp ctx) CP_KIND_CLASS c"
    for i j h c and s e hp :: u16
  proof -
    have "uint s < uint w" "uint hp < uint w"
      using that(1) by (auto intro: uint_less_unat)
    then have r: "0 \<le> i \<and> i < int (length insns)" "0 \<le> h \<and> h < int (length insns)"
      using convert_pc_range [OF p that(3)] convert_pc_range [OF p that(4)] by simp_all
    have "i < j"
    proof (cases "unat e = unat w")
      case True
      have "j = int (unat w)" using that(5) True s32_code_length [OF True] by blast
      moreover have "length insns \<le> unat w" using p by (simp add: p2i_ok_def)
      then have "int (length insns) \<le> int (unat w)" by (simp only: of_nat_le_iff)
      ultimately show ?thesis using r(1) by linarith
    next
      case False
      then have "convert_pc_to_insn (uint e) p2i = Inr j" "uint e < uint w"
        using that(1,5) False by (auto intro: uint_less_unat)
      moreover have "uint s < uint e" using that(2) by (simp add: word_le_def)
      ultimately show ?thesis using convert_pc_mono [OF p that(3)] by simp
    qed
    then show ?thesis using r that(6) by (simp add: exception_ok_def)
  qed
  show ?thesis
    unfolding parse_exception_entry_def
    by (intro gives_intros gives_if; rule fin; (assumption | blast | simp))
qed

lemma gives_exception_table:
  assumes "p2i_ok (unat w) p2i insns (unat w)"
  shows "gives ctx (parse_exception_table w p2i)
    (\<lambda>t. \<forall>es. t = Some es \<longrightarrow> list_all (exception_ok (cp ctx) (length insns)) es)"
  unfolding parse_exception_table_def
  by (intro gives_intros gives_if gives_weaken [OF gives_prepeat [OF gives_exception_entry [OF assms]]])
    simp_all

section \<open>Well-formed code\<close>

definition code_ok :: "constant_pool \<Rightarrow> attribute_code \<Rightarrow> bool" where
  "code_ok pool c \<longleftrightarrow>
     (let n = length (code c) in
      list_all (insn_ok \<lparr>cp = pool, current_code_max_pc = int n, indy_insns_count = 0\<rparr>) (code c) \<and>
      (\<forall>es. exception_table c = Some es \<longrightarrow> list_all (exception_ok pool n) es))"

lemma insn_ok_cong:
  assumes "cp c = cp d" and "current_code_max_pc c = current_code_max_pc d"
  shows "insn_ok c = insn_ok d"
proof -
  have "target_ok c = target_ok d" by (intro ext) (simp add: target_ok_def assms)
  then show ?thesis by (intro ext) (simp only: insn_ok_def operand_ok_def assms(1))
qed

text \<open>What the first part establishes.\<close>

lemma code_insns_ok:
  assumes "parse_code_insns ctx bs = Inr ((stack, locals, w, p2i, conv), c1, b1)"
  obtains insns where "p2i_ok (unat w) p2i insns (unat w)" "length conv = length insns"
    "list_all (insn_ok (index_ctx ctx (length insns))) conv"
    "c1 = ctx\<lparr>current_code_max_pc := s32_of w, indy_insns_count := indy_insns_count ctx + indy_total conv\<rparr>"
    "unat w + 8 \<le> length bs" "unat w = be_value (take 4 (drop 4 bs))"
proof -
  let ?ctx = "ctx\<lparr>current_code_max_pc := s32_of w\<rparr>"
  from assms obtain insns r where len: "8 \<le> length bs" "unat w \<le> length bs - 8"
    and d: "decode_loop (unat w) (replicate (unat w) (- 1)) [] ?ctx (take (unat w) (drop 8 bs)) =
      Inr ((insns, p2i), c1, r)"
    and cv: "convert_pcs_to_insn_indices insns p2i = Inr conv"
    and w: "w = read_be True 4 (take 4 (drop 4 bs))"
    unfolding parse_code_insns_def
    by (auto simp: pbind_Inr read_iffs set_max_pc_def split: prod.splits)
  have dl: "p2i_ok (unat w) p2i insns (unat w)" "list_all (insn_ok ?ctx) insns"
    "c1 = ?ctx\<lparr>indy_insns_count := indy_insns_count c1\<rparr>"
    "indy_insns_count c1 = indy_insns_count ctx + indy_total insns"
    using decode_loop_ok [OF d] p2i_ok_init len by (auto simp: indy_total_def)
  have cc: "list_all (insn_ok (index_ctx ?ctx (length insns))) conv" "map kind conv = map kind insns"
    using convert_insns_ok [OF dl(1) _ refl dl(2) cv] by simp_all
  have "indy_total conv = indy_total insns"
    using arg_cong [OF cc(2), of "\<lambda>ks. length (filter (\<lambda>k. k = insn_invokedynamic) ks)"]
    by (simp add: indy_total_def filter_map comp_def)
  then have c1: "c1 = ctx\<lparr>current_code_max_pc := s32_of w,
      indy_insns_count := indy_insns_count ctx + indy_total conv\<rparr>"
    using dl(3,4) by simp
  have "insn_ok (index_ctx ?ctx (length insns)) = insn_ok (index_ctx ctx (length insns))"
    by (rule insn_ok_cong) (simp_all add: index_ctx_def)
  then show ?thesis
    using that dl(1) cc c1 len map_eq_imp_length_eq [OF cc(2)] unat_read_be [of "take 4 (drop 4 bs)", where 'w = 32] w
    by simp
qed

lemma code_attribute_parts:
  assumes "parse_code_attribute p ctx bs = Inr (c, ctx', bs')"
  obtains w c1 where "code_ok (cp ctx) c" "length (code c) \<le> unat (w :: u32)" "unat w + 8 \<le> length bs"
    "unat w = be_value (take 4 (drop 4 bs))"
    "c1 = ctx\<lparr>current_code_max_pc := s32_of w, indy_insns_count := indy_insns_count ctx + indy_total (code c)\<rparr>"
    "\<exists>b m. prepeat m p c1 b = Inr (code_attributes c, ctx', bs')"
    "max_formal_pc c = current_code_max_pc ctx'"
proof -
  from assms obtain st lo w p2i conv c1 b1 table c2 b2 m b3 attrs where
    i: "parse_code_insns ctx bs = Inr ((st, lo, w, p2i, conv), c1, b1)"
    and t: "parse_exception_table w p2i c1 b1 = Inr (table, c2, b2)"
    and a: "prepeat m p c2 b3 = Inr (attrs, ctx', bs')"
    and c: "code c = conv" "exception_table c = table" "code_attributes c = attrs"
      "max_formal_pc c = current_code_max_pc ctx'"
    unfolding parse_code_attribute_def
    by (auto simp: pbind_Inr read_iffs split: prod.splits)
  obtain insns where ins: "p2i_ok (unat w) p2i insns (unat w)" "length conv = length insns"
    "list_all (insn_ok (index_ctx ctx (length insns))) conv"
    "c1 = ctx\<lparr>current_code_max_pc := s32_of w, indy_insns_count := indy_insns_count ctx + indy_total conv\<rparr>"
    "unat w + 8 \<le> length bs" "unat w = be_value (take 4 (drop 4 bs))"
    using code_insns_ok [OF i] by blast
  have ex: "c2 = c1" "\<forall>es. table = Some es \<longrightarrow> list_all (exception_ok (cp c1) (length insns)) es"
    using givesD [OF gives_exception_table [OF ins(1)] t] by simp_all
  have "insn_ok (index_ctx ctx (length insns)) =
      insn_ok \<lparr>cp = cp ctx, current_code_max_pc = int (length insns), indy_insns_count = 0\<rparr>"
    by (rule insn_ok_cong) (simp_all add: index_ctx_def)
  then have "code_ok (cp ctx) c"
    using ins(2,3,4) ex(2) c by (simp add: code_ok_def Let_def)
  moreover have "length (code c) \<le> unat w" using ins(1,2) c(1) by (simp add: p2i_ok_def)
  ultimately show ?thesis using that ins(4-6) a ex(1) c by blast
qed

section \<open>Well-formed attributes\<close>

text \<open>What an attribute other than \<open>Code\<close> promises: its pointers lead to entries of the kinds the
  attribute allows.\<close>

fun data_wf :: "constant_pool \<Rightarrow> attribute_data \<Rightarrow> bool" where
  "data_wf pool (Attr_constant_value i) =
     points_to pool (CP_KIND_STRING OR CP_KIND_INTEGER OR CP_KIND_FLOAT OR CP_KIND_LONG OR CP_KIND_DOUBLE) (Some i)"
| "data_wf pool (Attr_bootstrap_methods ms) =
     list_all (\<lambda>m. points_to pool CP_KIND_METHOD_HANDLE (Some (bsm_ref m)) \<and>
       list_all (\<lambda>i. points_to pool bootstrap_arg_kinds (Some i)) (bsm_args m)) ms"
| "data_wf pool (Attr_enclosing_method c m) =
     ((c = None \<or> points_to pool CP_KIND_CLASS c) \<and> (m = None \<or> points_to pool CP_KIND_NAME_AND_TYPE m))"
| "data_wf pool (Attr_nest_host i) = points_to pool CP_KIND_CLASS (Some i)"
| "data_wf pool (Attr_inner_classes cs) = list_all (\<lambda>i. points_to pool CP_KIND_CLASS (Some i)) cs"
| "data_wf pool (Attr_permitted_subclasses cs) = list_all (\<lambda>i. points_to pool CP_KIND_CLASS (Some i)) cs"
| "data_wf pool (Attr_source_file s) = has_utf8 pool s"
| "data_wf pool (Attr_signature s) = has_utf8 pool s"
| "data_wf pool (Attr_code c) = False"
| "data_wf pool _ = True"

fun attr_wf :: "constant_pool \<Rightarrow> attribute \<Rightarrow> bool" where
  "attr_wf pool (Attribute name len (Attr_code (Attribute_code st lo fs mp cd ex lnt lvt as))) =
     (code_ok pool (Attribute_code st lo fs mp cd ex lnt lvt as) \<and> (\<forall>a \<in> set as. attr_wf pool a))"
| "attr_wf pool (Attribute name len d) = data_wf pool d"

text \<open>The number of \<open>invokedynamic\<close> instructions in an attribute, nested ones included.\<close>

fun attr_indy :: "attribute \<Rightarrow> nat" where
  "attr_indy (Attribute name len (Attr_code (Attribute_code st lo fs mp cd ex lnt lvt as))) =
     indy_total cd + sum_list (map attr_indy as)"
| "attr_indy (Attribute name len d) = 0"

lemma gives_rest [gives_intros]: "(\<And>bs. Q bs) \<Longrightarrow> gives ctx rest_of_slice Q"
  by (simp add: gives_def rest_of_slice_def)

lemma gives_bootstrap_method:
  "gives ctx parse_bootstrap_method
     (\<lambda>m. points_to (cp ctx) CP_KIND_METHOD_HANDLE (Some (bsm_ref m)) \<and>
        list_all (\<lambda>i. points_to (cp ctx) bootstrap_arg_kinds (Some i)) (bsm_args m))"
proof -
  have "gives ctx parse_bootstrap_arg (\<lambda>i. points_to (cp ctx) bootstrap_arg_kinds (Some i))"
    unfolding parse_bootstrap_arg_def by (intro gives_intros) simp
  note args = gives_weaken [OF gives_prepeat [OF this]]
  show ?thesis unfolding parse_bootstrap_method_def by (intro gives_intros args) simp
qed

lemma gives_inner_class: "gives ctx parse_inner_class (\<lambda>i. points_to (cp ctx) CP_KIND_CLASS (Some i))"
  unfolding parse_inner_class_def by (intro gives_intros) simp

lemma gives_permitted:
  "gives ctx (pbind (reader_next_u16 r) (\<lambda>index. pcp_entry index CP_KIND_CLASS r'))
     (\<lambda>i. points_to (cp ctx) CP_KIND_CLASS (Some i))"
  by (intro gives_intros) simp

lemma gives_tables:
  "gives ctx parse_line_number (\<lambda>_. True)" "gives ctx parse_method_parameter (\<lambda>_. True)"
  "gives ctx parse_local_variable (\<lambda>_. True)"
  unfolding parse_line_number_def parse_method_parameter_def parse_local_variable_def
  by (intro gives_intros gives_if TrueI)+

lemmas gives_repeated =
  gives_weaken [OF gives_prepeat [OF gives_bootstrap_method]]
  gives_weaken [OF gives_prepeat [OF gives_inner_class]]
  gives_weaken [OF gives_prepeat [OF gives_permitted]]
  gives_weaken [OF gives_prepeat [OF gives_tables(1)]]
  gives_weaken [OF gives_prepeat [OF gives_tables(2)]]
  gives_weaken [OF gives_prepeat [OF gives_tables(3)]]

lemma gives_plain_attributes:
  "gives ctx parse_bootstrap_methods_attribute (data_wf (cp ctx))"
  "gives ctx parse_inner_classes_attribute (data_wf (cp ctx))"
  "gives ctx parse_constant_value_attribute (data_wf (cp ctx))"
  "gives ctx parse_enclosing_method_attribute (data_wf (cp ctx))"
  "gives ctx parse_permitted_subclasses_attribute (data_wf (cp ctx))"
  "gives ctx parse_source_file_attribute (data_wf (cp ctx))"
  "gives ctx parse_line_number_table_attribute (data_wf (cp ctx))"
  "gives ctx parse_method_parameters_attribute (data_wf (cp ctx))"
  "gives ctx parse_signature_attribute (data_wf (cp ctx))"
  "gives ctx parse_nest_host_attribute (data_wf (cp ctx))"
  "gives ctx parse_local_variable_table_attribute (data_wf (cp ctx))"
  "gives ctx parse_stack_map_table_attribute (data_wf (cp ctx))"
  unfolding parse_bootstrap_methods_attribute_def parse_inner_classes_attribute_def
    parse_constant_value_attribute_def parse_enclosing_method_attribute_def
    parse_permitted_subclasses_attribute_def parse_source_file_attribute_def
    parse_line_number_table_attribute_def parse_method_parameters_attribute_def
    parse_signature_attribute_def parse_nest_host_attribute_def
    parse_local_variable_table_attribute_def parse_stack_map_table_attribute_def
  by (intro gives_intros gives_if gives_repeated; simp)+

lemma gives_copied: "(\<And>bs. Q (f bs)) \<Longrightarrow> gives ctx (pbind rest_of_slice (\<lambda>bs. pret (f bs))) Q"
  by (intro gives_intros) simp

lemma gives_plain: "map_of plain_attributes name = Some p \<Longrightarrow> gives ctx p (data_wf (cp ctx))"
  unfolding plain_attributes_def
  by (auto simp: gives_plain_attributes gives_copied split: if_splits)

definition attribute_spec :: "attribute parser \<Rightarrow> bool" where
  "attribute_spec p \<longleftrightarrow> (\<forall>ctx bs a c b. p ctx bs = Inr (a, c, b) \<longrightarrow>
     cp c = cp ctx \<and> attr_wf (cp ctx) a \<and> indy_insns_count c = indy_insns_count ctx + attr_indy a)"

lemma attribute_specD:
  "attribute_spec p \<Longrightarrow> p ctx bs = Inr (a, c, b) \<Longrightarrow>
   cp c = cp ctx \<and> attr_wf (cp ctx) a \<and> indy_insns_count c = indy_insns_count ctx + attr_indy a"
  unfolding attribute_spec_def by blast

lemma attributes_spec:
  assumes "attribute_spec p" and "prepeat n p ctx bs = Inr (as, c, b)"
  shows "cp c = cp ctx \<and> (\<forall>a \<in> set as. attr_wf (cp ctx) a) \<and> length as = n \<and>
    indy_insns_count c = indy_insns_count ctx + sum_list (map attr_indy as)"
  using assms(2)
proof (induction n arbitrary: ctx bs as)
  case 0
  then show ?case by (simp add: read_iffs)
next
  case (Suc n)
  from Suc.prems obtain a c1 b1 as' where a: "p ctx bs = Inr (a, c1, b1)"
    and r: "prepeat n p c1 b1 = Inr (as', c, b)" and as: "as = a # as'"
    by (auto simp: pbind_Inr read_iffs)
  show ?case using attribute_specD [OF assms(1) a] Suc.IH [OF r] as by auto
qed

lemma code_attribute_spec:
  assumes p: "attribute_spec p" and c: "parse_code_attribute p ctx bs = Inr (c, ctx', bs')"
  shows "cp ctx' = cp ctx \<and> attr_wf (cp ctx) (Attribute name len (Attr_code c)) \<and>
    indy_insns_count ctx' = indy_insns_count ctx + attr_indy (Attribute name len (Attr_code c))"
  using c
proof (rule code_attribute_parts)
  fix w c1
  assume ok: "code_ok (cp ctx) c" and c1: "c1 = ctx\<lparr>current_code_max_pc := s32_of (w :: u32),
      indy_insns_count := indy_insns_count ctx + indy_total (code c)\<rparr>"
    and "\<exists>b m. prepeat m p c1 b = Inr (code_attributes c, ctx', bs')"
  then obtain b m where "prepeat m p c1 b = Inr (code_attributes c, ctx', bs')" by blast
  from attributes_spec [OF p this] show ?thesis using c1 ok by (cases c) simp
qed

lemma attribute_step_spec:
  assumes "attribute_spec p"
  shows "attribute_spec (attribute_step p)"
  unfolding attribute_spec_def
proof (intro allI impI)
  fix ctx bs a c b
  assume "attribute_step p ctx bs = Inr (a, c, b)"
  then obtain name len sub d r where d: "parse_attribute_data p name ctx sub = Inr (d, c, r)"
    and a: "a = Attribute name len d"
    unfolding attribute_step_def by (auto simp: pbind_Inr read_iffs)
  show "cp c = cp ctx \<and> attr_wf (cp ctx) a \<and> indy_insns_count c = indy_insns_count ctx + attr_indy a"
  proof (cases "utf8_equals name ''Code''")
    case True
    with d obtain cd where cd: "parse_code_attribute p ctx sub = Inr (cd, c, r)" and dd: "d = Attr_code cd"
      unfolding parse_attribute_data_def by (auto simp: pbind_Inr read_iffs)
    show ?thesis using code_attribute_spec [OF assms cd] unfolding a dd by blast
  next
    case False
    have "gives ctx (case map_of plain_attributes name of Some q \<Rightarrow> q | None \<Rightarrow> pret Attr_unknown)
        (data_wf (cp ctx))"
      by (cases "map_of plain_attributes name") (simp_all add: gives_pret gives_plain)
    then have g: "c = ctx" "data_wf (cp ctx) d"
      using d False givesD unfolding parse_attribute_data_def by fastforce+
    then show ?thesis using a by (cases d) simp_all
  qed
qed

lemma nested_spec: "attribute_spec (parse_attribute_nested n)"
proof (induction n)
  case 0
  show ?case by (simp add: attribute_spec_def read_iffs)
next
  case (Suc n)
  then show ?case by (simp add: attribute_step_spec)
qed

lemma parse_attribute_spec: "attribute_spec parse_attribute"
  unfolding attribute_spec_def parse_attribute_def
  using attribute_specD [OF nested_spec] by blast

section \<open>Properties\<close>

text \<open>A method body \<open>goto L; L: return\<close> with one exception handler, as a \<open>Code\<close> attribute, and a
  pool that names it.\<close>

definition sample_code :: "u8 list" where
  "sample_code = [0, 1, 0, 1, 0, 0, 0, 4, 0xa7, 0, 3, 0xb1, 0, 1, 0, 0, 0, 3, 0, 3, 0, 0, 0, 0]"

definition sample_code_ctx :: classfile_parse_ctx where
  "sample_code_ctx = \<lparr>cp = [\<lparr>my_index = 0, info = Cp_invalid\<rparr>, \<lparr>my_index = 1, info = Cp_utf8 ''Code''\<rparr>],
     current_code_max_pc = 0, indy_insns_count = 0\<rparr>"

definition sample_attribute :: "u8 list" where
  "sample_attribute = [0, 1, 0, 0, 0, 24] @ sample_code"

text \<open>C18: a parsed \<open>Code\<close> attribute is well formed. Every branch, switch and exception handler
  target is the index of an instruction of the method, every protected range is nonempty and
  starts at an instruction, pool operands have the kinds their instructions need, and there are
  no more instructions than the array of \<open>code_length\<close> elements the parser allocates.\<close>

theorem code_attribute_well_formed:
  assumes "parse_code_attribute parse_attribute ctx bs = Inr (c, ctx', bs')"
  shows "code_ok (cp ctx) c \<and> length (code c) \<le> be_value (take 4 (drop 4 bs)) \<and>
    (\<forall>a \<in> set (code_attributes c). attr_wf (cp ctx) a)"
proof -
  obtain w c1 where parts: "code_ok (cp ctx) c" "length (code c) \<le> unat (w :: u32)"
      "unat w = be_value (take 4 (drop 4 bs))"
    and c1: "c1 = ctx\<lparr>current_code_max_pc := s32_of w,
      indy_insns_count := indy_insns_count ctx + indy_total (code c)\<rparr>"
    and as: "\<exists>b m. prepeat m parse_attribute c1 b = Inr (code_attributes c, ctx', bs')"
    by (rule code_attribute_parts [OF assms])
  from c1 have "cp c1 = cp ctx" by simp
  then show ?thesis using parts as attributes_spec [OF parse_attribute_spec] by fastforce
qed

lemma sample_code_parses:
  "case parse_code_attribute parse_attribute sample_code_ctx sample_code of
     Inl e \<Rightarrow> False
   | Inr (c, ctx', rest) \<Rightarrow> map operand (code c) = [Index 1, No_operand] \<and> rest = []"
  by code_simp

theorem code_attribute_well_formed_witness:
  "case parse_code_attribute parse_attribute sample_code_ctx sample_code of
     Inl e \<Rightarrow> False
   | Inr (c, ctx', rest) \<Rightarrow> map operand (code c) = [Index 1, No_operand] \<and> code_ok (cp sample_code_ctx) c"
  using sample_code_parses code_attribute_well_formed [of sample_code_ctx sample_code]
  by (auto split: sum.splits)

text \<open>the bound on the nesting is never reached, and any larger one gives the same result:
  \<open>parse_attribute\<close> is the unbounded recursion of the code.\<close>

theorem attribute_fuel_enough:
  assumes "length bs < n"
  shows "parse_attribute_nested n ctx bs = parse_attribute ctx bs \<and>
    parse_attribute ctx bs \<noteq> Inl Nesting_limit"
  unfolding parse_attribute_def
  using nested_enough [of bs "Suc (length bs)"] nested_same [of "Suc (length bs)" ctx bs n] assms by simp

theorem attribute_fuel_enough_witness:
  "parse_attribute_nested 100 sample_code_ctx sample_attribute = parse_attribute sample_code_ctx sample_attribute"
  using attribute_fuel_enough [of sample_attribute 100 sample_code_ctx]
  by (simp add: sample_attribute_def sample_code_def)

text \<open>a parsed attribute is well formed in the pool it was parsed with, the pool is not
  changed, and \<open>indy_insns_count\<close> grows by exactly the number of \<open>invokedynamic\<close> instructions in
  the attribute, those of nested \<open>Code\<close> attributes included.\<close>

theorem parsed_attribute_well_formed:
  assumes "parse_attribute ctx bs = Inr (a, ctx', bs')"
  shows "attr_wf (cp ctx) a \<and> cp ctx' = cp ctx \<and>
    indy_insns_count ctx' = indy_insns_count ctx + attr_indy a \<and> length bs' < length bs"
  using attribute_specD [OF parse_attribute_spec assms] attribute.consumes [OF assms] by simp

lemma sample_data_parses:
  "case parse_code_attribute (pfail Nesting_limit) sample_code_ctx sample_code of
     Inl e \<Rightarrow> False
   | Inr (c, ctx', rest) \<Rightarrow> rest = []"
  by code_simp

lemma sample_header_parses:
  "reader_next_u16 ''method attribute name'' sample_code_ctx sample_attribute =
     Inr (1, sample_code_ctx, drop 2 sample_attribute)"
  "pcp_utf8 1 ''method attribute name'' sample_code_ctx bs = Inr (''Code'', sample_code_ctx, bs)"
  "reader_next_u32 ''method attribute length'' sample_code_ctx (drop 2 sample_attribute) =
     Inr (24, sample_code_ctx, sample_code)"
  "reader_get_slice 24 ''Attribute data'' sample_code_ctx sample_code =
     Inr (sample_code, sample_code_ctx, [])"
  by code_simp+

lemma sample_attribute_nested:
  "case parse_attribute_nested 1 sample_code_ctx sample_attribute of
     Inl e \<Rightarrow> False
   | Inr (a, ctx', rest) \<Rightarrow> attr_kind a = ATTRIBUTE_KIND_CODE \<and> rest = []"
  using sample_data_parses
  by (auto simp: attribute_step_def sample_header_parses parse_attribute_data_def pbind_def
        pslice_def pret_def
      split: sum.splits)

lemma sample_attribute_parses:
  "case parse_attribute sample_code_ctx sample_attribute of
     Inl e \<Rightarrow> False
   | Inr (a, ctx', rest) \<Rightarrow> attr_kind a = ATTRIBUTE_KIND_CODE \<and> rest = []"
proof -
  have "parse_attribute_nested 1 sample_code_ctx sample_attribute \<noteq> Inl Nesting_limit"
    using sample_attribute_nested by (auto split: sum.splits)
  from nested_same [OF this, of "Suc (length sample_attribute)"]
  show ?thesis using sample_attribute_nested unfolding parse_attribute_def by simp
qed

theorem parsed_attribute_well_formed_witness:
  "case parse_attribute sample_code_ctx sample_attribute of
     Inl e \<Rightarrow> False
   | Inr (a, ctx', rest) \<Rightarrow> attr_kind a = ATTRIBUTE_KIND_CODE \<and> attr_wf (cp sample_code_ctx) a"
  using sample_attribute_parses parsed_attribute_well_formed [of sample_code_ctx sample_attribute]
  by (auto split: sum.splits)

text \<open>the decoding loop records every instruction: the table it builds has an index exactly
  at the program counters where an instruction starts, the indices increase with the program
  counter, and each instruction is reached from the program counter it records. Together with
  C12 this makes the conversion of targets from program counters to indices faithful.\<close>

theorem decode_table_faithful:
  assumes "decode_loop (length bs) (replicate (length bs) (- 1)) [] ctx bs = Inr ((insns, pc_to_insn), ctx', bs')"
  shows "length pc_to_insn = length bs \<and> list_all (insn_ok ctx) insns \<and>
    (\<forall>p < length bs. pc_to_insn ! p = - 1 \<or>
       (0 \<le> pc_to_insn ! p \<and> pc_to_insn ! p < int (length insns) \<and>
        original_pc (insns ! nat (pc_to_insn ! p)) = word_of_nat p)) \<and>
    (\<forall>p q. p < q \<longrightarrow> q < length bs \<longrightarrow> pc_to_insn ! p \<noteq> - 1 \<longrightarrow> pc_to_insn ! q \<noteq> - 1 \<longrightarrow>
       pc_to_insn ! p < pc_to_insn ! q) \<and>
    (\<forall>k < length insns. \<exists>p < length bs. pc_to_insn ! p = int k)"
proof -
  have "p2i_ok (length bs) pc_to_insn insns (length bs)" and i: "list_all (insn_ok ctx) insns"
    using decode_loop_ok [OF assms] p2i_ok_init by simp_all
  note ok = this(1)
  have "original_pc (insns ! nat (pc_to_insn ! p)) = word_of_nat p"
    if "p < length bs" "pc_to_insn ! p \<noteq> - 1" for p
    by (rule p2i_ok_original [OF ok that])
  then show ?thesis using ok i unfolding p2i_ok_def by blast
qed

lemma sample_loop:
  "case decode_loop 4 [-1, -1, -1, -1] [] sample_ctx [0xa7, 0, 3, 0xb1] of
     Inl e \<Rightarrow> False
   | Inr ((insns, t), ctx', rest) \<Rightarrow> t = [0, -1, -1, 1] \<and> length insns = 2"
  by code_simp

theorem decode_table_faithful_witness:
  "case decode_loop 4 [-1, -1, -1, -1] [] sample_ctx [0xa7, 0, 3, 0xb1] of
     Inl e \<Rightarrow> False
   | Inr ((insns, t), ctx', rest) \<Rightarrow> t = [0, -1, -1, 1] \<and> list_all (insn_ok sample_ctx) insns"
  using sample_loop decode_table_faithful [of "[0xa7, 0, 3, 0xb1]" sample_ctx]
  by (auto simp: numeral_eq_Suc split: sum.splits)

lemma uint_less_iff: "uint (x :: 'a::len word) < int n \<longleftrightarrow> unat x < n"
  by (simp flip: of_nat_less_iff [where 'a = int])

text \<open>a static argument of a bootstrap method that is an existing entry of a wrong kind makes
  the error path run into \<open>UNREACHABLE()\<close> instead of reporting a format error: the expected kinds
  include dynamic constants, which \<open>cp_kind_to_string\<close> cannot print. Only such an argument does.\<close>

theorem bootstrap_arg_unreachable_iff:
  "parse_bootstrap_arg ctx bs = Inl Unreachable \<longleftrightarrow>
     2 \<le> length bs \<and> be_value (take 2 bs) < length (cp ctx) \<and>
     cp_kind_of (info (cp ctx ! be_value (take 2 bs))) AND bootstrap_arg_kinds = 0"
proof -
  have n: "\<not> expected_printable bootstrap_arg_kinds"
    by (simp add: expected_printable_def cp_kind_to_string_def upt_rec)
  have u: "unat (read_be True 2 (take 2 bs) :: u16) = be_value (take 2 bs)" if "2 \<le> length bs"
    using unat_read_be [of "take 2 bs", where 'w = 16] that by simp
  show ?thesis
    unfolding parse_bootstrap_arg_def pcp_entry_def
    using u
    by (auto simp: uint_less_iff pbind_Inl read_iffs read_errs checked_cp_entry_def check_cp_entry_def n [simplified] split: if_splits)
qed

end
