(* ===== verification/Classfile.thy ===== *)
theory Classfile
  imports Attributes
begin

unbundle bit_operations_syntax

text \<open>
  Model of the top level of \<open>vm/classfile.c\<close>: methods, fields, the links from \<open>invokedynamic\<close>
  entries to bootstrap methods, \<open>parse_classfile\<close> and the table of \<open>invokedynamic\<close> instructions it
  leaves for the collector. The \<open>setjmp\<close> of \<open>parse_classfile\<close> catches every format error; here an
  error is the left value of the parser, and \<open>parse_classfile\<close> turns it into \<open>PARSE_ERR\<close> and a
  class in the state \<open>CD_STATE_LINKAGE_ERROR\<close>.
\<close>

section \<open>Methods and fields\<close>

text \<open>\<open>char *error = parse_...(descriptor, ...); if (error) format_error_dynamic(error)\<close>.\<close>

definition pdescriptor :: "(slice \<Rightarrow> descriptor_error + 'a) \<Rightarrow> slice \<Rightarrow> 'a parser" where
  "pdescriptor p descriptor ctx bs =
     (case p descriptor of Inl e \<Rightarrow> Inl (Bad_descriptor e) | Inr d \<Rightarrow> Inr (d, ctx, bs))"

definition parse_method :: "cp_method parser" where
  "parse_method =
     pbind (reader_next_u16 ''method access flags'') (\<lambda>flags.
     pbind (reader_next_u16 ''method name'') (\<lambda>name_index.
     pbind (pcp_utf8 name_index ''method name'') (\<lambda>name.
     pbind (reader_next_u16 ''method descriptor'') (\<lambda>descriptor_index.
     pbind (pcp_utf8 descriptor_index ''method descriptor'') (\<lambda>unparsed.
     pbind (reader_next_u16 ''method attributes count'') (\<lambda>attributes_count.
     pbind (pdescriptor parse_method_descriptor unparsed) (\<lambda>descriptor.
     pbind (prepeat (unat attributes_count) parse_attribute) (\<lambda>attributes.
     pret \<lparr>m_access_flags = flags, m_name = name, m_unparsed_descriptor = unparsed,
           m_descriptor = descriptor, m_attributes = attributes,
           m_code = last_of_kind ATTRIBUTE_KIND_CODE attributes,
           m_missing_smt = False, m_is_signature_polymorphic = False,
           m_is_ctor = utf8_equals name ''<init>'', m_is_clinit = utf8_equals name ''<clinit>'',
           m_my_index = 0\<rparr>))))))))"

text \<open>The initialisers of \<open>field\<close> are evaluated in the order they are written.\<close>

definition read_field :: "cp_field parser" where
  "read_field =
     pbind (reader_next_u16 ''field access flags'') (\<lambda>flags.
     pbind (reader_next_u16 ''field name'') (\<lambda>name_index.
     pbind (pcp_utf8 name_index ''field name'') (\<lambda>name.
     pbind (reader_next_u16 ''field descriptor'') (\<lambda>descriptor_index.
     pbind (pcp_utf8 descriptor_index ''field descriptor'') (\<lambda>descriptor.
     pbind (reader_next_u16 ''field attributes count'') (\<lambda>attributes_count.
     pbind (prepeat (unat attributes_count) parse_attribute) (\<lambda>attributes.
     pbind (pdescriptor parse_complete_field_descriptor descriptor) (\<lambda>parsed.
     pret \<lparr>f_access_flags = flags, f_name = name, f_descriptor = descriptor,
           f_attributes = attributes, f_parsed_descriptor = parsed\<rparr>))))))))"

section \<open>Bootstrap methods\<close>

text \<open>One \<open>CP_KIND_INVOKE_DYNAMIC\<close> entry: the index becomes a pointer into the method table of the
  first \<open>BootstrapMethods\<close> attribute. \<open>_method_index\<close> shares its storage with the pointer.\<close>

definition link_indy_entry :: "attribute list \<Rightarrow> cp_entry \<Rightarrow> format_error + cp_entry" where
  "link_indy_entry attrs entry =
     (case info entry of
        Cp_invoke_dynamic (Method_index index) nt d \<Rightarrow>
          (case find_attribute_by_kind attrs ATTRIBUTE_KIND_BOOTSTRAP_METHODS of
             None \<Rightarrow> Inl (Format_static ''Missing BootstrapMethods attribute'')
           | Some a \<Rightarrow>
               (case attr_data (attrs ! a) of
                  Attr_bootstrap_methods methods \<Rightarrow>
                    if uint index < 0 \<or> unat index \<ge> length methods
                    then Inl (Format_static ''Invalid bootstrap method index'')
                    else Inr (entry\<lparr>info := Cp_invoke_dynamic (Method_ptr (unat index)) nt d\<rparr>)
                | _ \<Rightarrow> Inl Unreachable))
      | Cp_invoke_dynamic (Method_ptr _) nt d \<Rightarrow> Inl Unreachable
      | _ \<Rightarrow> Inr entry)"

fun link_entries :: "attribute list \<Rightarrow> cp_entry list \<Rightarrow> format_error + cp_entry list" where
  "link_entries attrs [] = Inr []"
| "link_entries attrs (entry # entries) =
     (case link_indy_entry attrs entry of
        Inl e \<Rightarrow> Inl e
      | Inr entry' \<Rightarrow>
          (case link_entries attrs entries of
             Inl e \<Rightarrow> Inl e
           | Inr entries' \<Rightarrow> Inr (entry' # entries')))"

text \<open>The loop starts at entry 1.\<close>

definition link_bootstrap_methods :: "attribute list \<Rightarrow> constant_pool \<Rightarrow> format_error + constant_pool" where
  "link_bootstrap_methods attrs pool =
     (case link_entries attrs (drop 1 pool) of
        Inl e \<Rightarrow> Inl e
      | Inr entries \<Rightarrow> Inr (take 1 pool @ entries))"

section \<open>Classes\<close>

definition no_smt_found :: "attribute_code \<Rightarrow> bool" where
  "no_smt_found c = (\<not> list_ex (\<lambda>a. attr_kind a = ATTRIBUTE_KIND_STACK_MAP_TABLE) (code_attributes c))"

text \<open>\<open>method->code\<close>, dereferenced.\<close>

definition method_code :: "cp_method \<Rightarrow> attribute_code option" where
  "method_code method =
     (case m_code method of
        None \<Rightarrow> None
      | Some a \<Rightarrow> (case attr_data (m_attributes method ! a) of Attr_code c \<Rightarrow> Some c | _ \<Rightarrow> None))"

text \<open>What \<open>parse_classfile\<close> adds to the method at index \<open>i\<close> once it is parsed.\<close>

definition finish_method :: "bool \<Rightarrow> bool \<Rightarrow> nat \<Rightarrow> cp_method \<Rightarrow> cp_method" where
  "finish_method maybe_missing_smt in_MethodHandle i method =
     method\<lparr>m_missing_smt :=
              (maybe_missing_smt \<and>
               (case method_code method of None \<Rightarrow> False | Some c \<Rightarrow> no_smt_found c)),
            m_my_index := i,
            m_is_signature_polymorphic :=
              (in_MethodHandle \<and> m_access_flags method AND ACCESS_NATIVE \<noteq> 0)\<rparr>"

definition finish_methods :: "bool \<Rightarrow> bool \<Rightarrow> cp_method list \<Rightarrow> cp_method list" where
  "finish_methods maybe_missing_smt in_MethodHandle methods =
     map (\<lambda>i. finish_method maybe_missing_smt in_MethodHandle i (methods ! i)) [0..<length methods]"

text \<open>The name of the class at a pool index.\<close>

definition pool_class_name :: "constant_pool \<Rightarrow> nat \<Rightarrow> slice" where
  "pool_class_name pool i = (case info (pool ! i) of Cp_class s \<Rightarrow> s | _ \<Rightarrow> [])"

definition in_MethodHandle :: "slice \<Rightarrow> bool" where
  "in_MethodHandle name \<longleftrightarrow>
     utf8_equals name ''java/lang/invoke/MethodHandle'' \<or> utf8_equals name ''java/lang/invoke/VarHandle''"

definition parse_super_class :: "u16 \<Rightarrow> slice \<Rightarrow> nat option parser" where
  "parse_super_class access_flags name =
     pbind (reader_next_u16 ''super class'') (\<lambda>super_class.
     if access_flags AND ACCESS_MODULE \<noteq> 0 \<or> utf8_equals name ''java/lang/Object''
     then pret None
     else pbind (pcp_entry super_class CP_KIND_CLASS ''super class'') (\<lambda>i. pret (Some i)))"

definition parse_interface :: "nat parser" where
  "parse_interface =
     pbind (reader_next_u16 ''interface'') (\<lambda>index. pcp_entry index CP_KIND_CLASS ''superinterface'')"

definition counted :: "string \<Rightarrow> 'a parser \<Rightarrow> 'a list parser" where
  "counted reason p = pbind (reader_next_u16 reason) (\<lambda>count. prepeat (unat count) p)"

definition nest_host_of :: "attribute list \<Rightarrow> nat option" where
  "nest_host_of attrs =
     (case last_of_kind ATTRIBUTE_KIND_NEST_HOST attrs of
        None \<Rightarrow> None
      | Some i \<Rightarrow> (case attr_data (attrs ! i) of Attr_nest_host h \<Rightarrow> Some h | _ \<Rightarrow> None))"

definition parse_class_header :: "u16 parser" where
  "parse_class_header =
     pbind (reader_next_u32 ''magic'') (\<lambda>magic.
     pbind (pcheck (magic = 0xCAFEBABE) (Bad_magic magic)) (\<lambda>_.
     pbind (reader_next_u16 ''minor version'') (\<lambda>minor.
     reader_next_u16 ''major version'')))"

definition parse_class_members :: "u16 \<Rightarrow> constant_pool \<Rightarrow> classdesc parser" where
  "parse_class_members major pool =
     pbind (reader_next_u16 ''access flags'') (\<lambda>flags.
     pbind (pret (flags AND NOT ACCESS_SYNCHRONIZED)) (\<lambda>access_flags.
     pbind (reader_next_u16 ''this class'') (\<lambda>this_index.
     pbind (pcp_entry this_index CP_KIND_CLASS ''this class'') (\<lambda>this_class.
     pbind (pret (pool_class_name pool this_class)) (\<lambda>name.
     pbind (parse_super_class access_flags name) (\<lambda>super_class.
     pbind (counted ''interfaces count'' parse_interface) (\<lambda>interfaces.
     pbind (counted ''fields count'' read_field) (\<lambda>fields.
     pbind (counted ''methods count'' parse_method) (\<lambda>methods.
     pbind (counted ''class attributes count'' parse_attribute) (\<lambda>attributes.
     pret \<lparr>cd_state = CD_STATE_LINKAGE_ERROR, cd_pool = pool, cd_name = name, cd_self = this_class,
           cd_super_class = super_class, cd_nest_host = nest_host_of attributes,
           cd_access_flags = access_flags, cd_interfaces = interfaces, cd_fields = fields,
           cd_methods = finish_methods (major < 50) (in_MethodHandle name) methods,
           cd_source_file = last_of_kind ATTRIBUTE_KIND_SOURCE_FILE attributes,
           cd_inner_classes = last_of_kind ATTRIBUTE_KIND_INNER_CLASSES attributes,
           cd_attributes = attributes, cd_indy_insns_count = 0, cd_indy_insns = []\<rparr>))))))))))"

text \<open>Everything that is read, up to the test for trailing bytes.\<close>

definition parse_class_body :: "classdesc parser" where
  "parse_class_body =
     pbind parse_class_header (\<lambda>major.
     pbind parse_constant_pool (\<lambda>pool. parse_class_members major pool))"

text \<open>The \<open>invokedynamic\<close> instructions of the methods, in order.\<close>

definition method_indy_insns :: "nat \<times> cp_method \<Rightarrow> (nat \<times> nat) list" where
  "method_indy_insns = (\<lambda>(i, method).
     case method_code method of
       None \<Rightarrow> []
     | Some c \<Rightarrow> map (Pair i) (filter (\<lambda>j. kind (code c ! j) = insn_invokedynamic) [0..<length (code c)]))"

text \<open>\<open>DCHECK(indy_i < ctx.indy_insns_count); cf->indy_insns[indy_i++] = insn\<close>, for each of them,
  on an array of null pointers.\<close>

fun store_indy_insns ::
    "(nat \<times> nat) list \<Rightarrow> nat \<Rightarrow> (nat \<times> nat) option list \<Rightarrow> format_error + (nat \<times> nat) option list" where
  "store_indy_insns [] indy_i slots = Inr slots"
| "store_indy_insns (insn # insns) indy_i slots =
     (if \<not> indy_i < length slots then Inl Unreachable
      else store_indy_insns insns (Suc indy_i) (slots[indy_i := Some insn]))"

definition indy_pointers :: "cp_method list \<Rightarrow> (nat \<times> nat) list" where
  "indy_pointers methods = concat (map method_indy_insns (enumerate 0 methods))"

definition finish_class :: "classdesc \<Rightarrow> classdesc parser" where
  "finish_class cf ctx bs =
     (if length bs > 0 then Inl (Format_static ''Trailing bytes in classfile'')
      else case link_bootstrap_methods (cd_attributes cf) (cd_pool cf) of
             Inl e \<Rightarrow> Inl e
           | Inr pool \<Rightarrow>
               (case store_indy_insns (indy_pointers (cd_methods cf)) 0
                       (replicate (indy_insns_count ctx) None) of
                  Inl e \<Rightarrow> Inl e
                | Inr slots \<Rightarrow>
                    Inr (cf\<lparr>cd_state := CD_STATE_LOADED, cd_pool := pool,
                            cd_indy_insns_count := indy_insns_count ctx, cd_indy_insns := slots\<rparr>,
                         ctx, bs)))"

definition parse_class :: "classdesc parser" where
  "parse_class = pbind parse_class_body finish_class"

datatype parse_result_t = PARSE_SUCCESS | PARSE_ERR

definition initial_ctx :: classfile_parse_ctx where
  "initial_ctx = \<lparr>cp = [], current_code_max_pc = 0, indy_insns_count = 0\<rparr>"

text \<open>On an error the arena is freed and only the state of the class remains meaningful.\<close>

definition parse_classfile :: "u8 list \<Rightarrow> classdesc \<Rightarrow> parse_result_t \<times> classdesc \<times> format_error option" where
  "parse_classfile bytes result =
     (case parse_class initial_ctx bytes of
        Inl e \<Rightarrow> (PARSE_ERR, result\<lparr>cd_state := CD_STATE_LINKAGE_ERROR\<rparr>, Some e)
      | Inr (cf, _, _) \<Rightarrow> (PARSE_SUCCESS, cf, None))"

section \<open>More input after a parsed prefix\<close>

text \<open>The pool parser replaces the pool of the context, so it is no \<open>reader\<close>; the law about the
  bytes that follow holds of it as well.\<close>

definition streams :: "'a parser \<Rightarrow> bool" where
  "streams p \<longleftrightarrow> (\<forall>ctx bs x c b ys. p ctx bs = Inr (x, c, b) \<longrightarrow> p ctx (bs @ ys) = Inr (x, c, b @ ys))"

lemma streamsD: "streams p \<Longrightarrow> p ctx bs = Inr (x, c, b) \<Longrightarrow> p ctx (bs @ ys) = Inr (x, c, b @ ys)"
  by (simp add: streams_def)

lemma streams_reader: "reader p \<Longrightarrow> streams p"
  by (simp add: streams_def reader.extend)

lemma streams_pbind:
  assumes "streams p" and "\<And>x. streams (f x)"
  shows "streams (pbind p f)"
  unfolding streams_def pbind_Inr using streamsD [OF assms(1)] streamsD [OF assms(2)] by blast

lemma streams_cp_pass: "streams (cp_pass pass n i)"
proof -
  have "cp_pass pass n i ctx (bs @ ys) = Inr (u, c, b @ ys)"
    if "cp_pass pass n i ctx bs = Inr (u, c, b)" for ctx bs u c b ys
    using that
  proof (induction pass n i ctx bs rule: cp_pass.induct)
    case (1 pass n i ctx bs)
    show ?case
    proof (cases "i < n")
      case False
      then show ?thesis using "1.prems" by (simp add: cp_pass.simps [of pass n i])
    next
      case True
      from "1.prems" True obtain e c1 b1 where e: "parse_constant_pool_entry pass ctx bs = Inr (e, c1, b1)"
        by (subst (asm) cp_pass.simps) (auto split: sum.splits)
      obtain k c2 where k: "pstore pass i e c1 zs = Inr (k, c2, zs)" for zs
        by (simp add: pstore_def Let_def)
      have "cp_pass pass n k c2 b1 = Inr (u, c, b)"
        using "1.prems" True e k by (subst (asm) cp_pass.simps) simp
      then have "cp_pass pass n k c2 (b1 @ ys) = Inr (u, c, b @ ys)"
        using "1.IH" [OF True e refl refl k refl refl] by simp
      then show ?thesis using True k cp_entry.extend [OF e] by (subst cp_pass.simps) simp
    qed
  qed
  then show ?thesis by (simp add: streams_def)
qed

text \<open>What a successful run of the pool parser consists of.\<close>

lemma pool_parts:
  "parse_constant_pool ctx bs = Inr (pool, c, b) \<longleftrightarrow>
     (\<exists>cnt c1 b1 c2 b2 c3. reader_next_u16 ''constant pool count'' ctx bs = Inr (cnt, c1, b1) \<and>
        cp_pass READ (unat cnt) 1 (c1\<lparr>cp := init_constant_pool (unat cnt)\<rparr>) b1 = Inr ((), c2, b2) \<and>
        cp_pass LINK (unat cnt) 1 c2 b1 = Inr ((), c3, b) \<and>
        finish_pool (cp c3) [1..<unat cnt] = Inr pool \<and> c = c3\<lparr>cp := pool\<rparr>)"
  unfolding parse_constant_pool_def by (auto split: sum.splits)

lemma streams_pool: "streams parse_constant_pool"
  unfolding streams_def
proof (intro allI impI)
  fix ctx bs pool c b ys
  assume "parse_constant_pool ctx bs = Inr (pool, c, b)"
  then obtain cnt c1 b1 c2 b2 c3 where
    n: "reader_next_u16 ''constant pool count'' ctx bs = Inr (cnt, c1, b1)"
    and r: "cp_pass READ (unat cnt) 1 (c1\<lparr>cp := init_constant_pool (unat cnt)\<rparr>) b1 = Inr ((), c2, b2)"
    and l: "cp_pass LINK (unat cnt) 1 c2 b1 = Inr ((), c3, b)"
    and f: "finish_pool (cp c3) [1..<unat cnt] = Inr pool" "c = c3\<lparr>cp := pool\<rparr>"
    unfolding pool_parts by blast
  show "parse_constant_pool ctx (bs @ ys) = Inr (pool, c, b @ ys)"
    unfolding parse_constant_pool_def
    using next_u16.extend [OF n] streamsD [OF streams_cp_pass r] streamsD [OF streams_cp_pass l] f by simp
qed

lemma reader_pdescriptor [reader_intros]: "reader (pdescriptor p s)"
  by unfold_locales (auto simp: pdescriptor_def split: sum.splits)

lemma reader_members [reader_intros]:
  "reader parse_method" "reader read_field" "reader parse_interface" "reader (parse_super_class flags name)"
  "reader p \<Longrightarrow> reader (counted r p)"
  unfolding parse_method_def read_field_def parse_interface_def parse_super_class_def counted_def
  by (auto intro!: reader_intros)

lemma streams_body: "streams parse_class_body"
proof -
  have "reader parse_class_header" unfolding parse_class_header_def by (auto intro!: reader_intros)
  moreover have "reader (parse_class_members major pool)" for major pool
    unfolding parse_class_members_def by (intro reader_intros)
  ultimately show ?thesis
    unfolding parse_class_body_def by (intro streams_pbind streams_pool streams_reader)
qed

section \<open>The context through the parsers\<close>

lemma gives_cp_entry: "gives ctx (parse_constant_pool_entry pass) (\<lambda>_. True)"
proof -
  have l: "gives ctx (link_utf8 pass i r) Q" if "\<And>x. Q x" for i r Q
    unfolding link_utf8_def using that by (auto intro!: gives_intros)
  have e: "gives ctx (link_entry pass i k r) Q" if "\<And>x. Q x" for i k r Q
    unfolding link_entry_def using that by (auto intro!: gives_intros)
  show ?thesis
    unfolding parse_constant_pool_entry_def cp_entry_parsers
    by (intro gives_intros gives_if l e TrueI)
qed

lemma cp_pass_indy: "cp_pass pass n i ctx bs = Inr (u, c, b) \<Longrightarrow> indy_insns_count c = indy_insns_count ctx"
proof (induction pass n i ctx bs rule: cp_pass.induct)
  case (1 pass n i ctx bs)
  show ?case
  proof (cases "i < n")
    case False
    then show ?thesis using "1.prems" by (simp add: cp_pass.simps [of pass n i])
  next
    case True
    from "1.prems" True obtain e c1 b1 where e: "parse_constant_pool_entry pass ctx bs = Inr (e, c1, b1)"
      by (subst (asm) cp_pass.simps) (auto split: sum.splits)
    then have c1: "c1 = ctx" using givesD [OF gives_cp_entry] by blast
    obtain k P where k: "pstore pass i e c1 b1 = Inr (k, c1\<lparr>cp := P\<rparr>, b1)"
      by (simp add: pstore_def Let_def)
    have "cp_pass pass n k (c1\<lparr>cp := P\<rparr>) b1 = Inr (u, c, b)"
      using "1.prems" True e k by (subst (asm) cp_pass.simps) simp
    then show ?thesis using "1.IH" [OF True e refl refl k refl refl] c1 by simp
  qed
qed

lemma pool_indy:
  assumes "parse_constant_pool ctx bs = Inr (pool, c, b)"
  shows "indy_insns_count c = indy_insns_count ctx"
proof -
  from assms obtain cnt c1 b1 c2 b2 c3 where
    n: "reader_next_u16 ''constant pool count'' ctx bs = Inr (cnt, c1, b1)"
    and r: "cp_pass READ (unat cnt) 1 (c1\<lparr>cp := init_constant_pool (unat cnt)\<rparr>) b1 = Inr ((), c2, b2)"
    and l: "cp_pass LINK (unat cnt) 1 c2 b1 = Inr ((), c3, b)" and c: "c = c3\<lparr>cp := pool\<rparr>"
    unfolding pool_parts by blast
  have "c1 = ctx" using n by (simp only: next_u_iffs)
  then show ?thesis using cp_pass_indy [OF r] cp_pass_indy [OF l] c by simp
qed

text \<open>Partial correctness with a count: from any context with the pool, a parser that succeeds
  keeps the pool, and its result and the number of \<open>invokedynamic\<close> instructions it adds are
  related.\<close>

definition ensures :: "constant_pool \<Rightarrow> 'a parser \<Rightarrow> ('a \<Rightarrow> nat \<Rightarrow> bool) \<Rightarrow> bool" where
  "ensures pool p Q \<longleftrightarrow> (\<forall>ctx bs x c b. cp ctx = pool \<longrightarrow> p ctx bs = Inr (x, c, b) \<longrightarrow>
     cp c = pool \<and> (\<exists>n. indy_insns_count c = indy_insns_count ctx + n \<and> Q x n))"

named_theorems ensures_intros \<open>postconditions of parsers that may add instructions\<close>

lemma ensuresD:
  assumes "ensures pool p Q" and "p ctx bs = Inr (x, c, b)" and "cp ctx = pool"
  shows "cp c = pool" and "\<exists>n. indy_insns_count c = indy_insns_count ctx + n \<and> Q x n"
  using assms unfolding ensures_def by blast+

lemma ensures_pbind [ensures_intros]:
  assumes "ensures pool p (\<lambda>x n. ensures pool (f x) (\<lambda>y m. Q y (n + m)))"
  shows "ensures pool (pbind p f) Q"
  unfolding ensures_def pbind_Inr
proof (intro allI impI, elim exE conjE)
  fix ctx bs y c b x c1 b1
  assume ctx: "cp ctx = pool" and p: "p ctx bs = Inr (x, c1, b1)" and f: "f x c1 b1 = Inr (y, c, b)"
  from ensuresD [OF assms p ctx] obtain n where c1: "cp c1 = pool"
    and n: "indy_insns_count c1 = indy_insns_count ctx + n" and e: "ensures pool (f x) (\<lambda>y m. Q y (n + m))"
    by blast
  from ensuresD [OF e f c1] n
  show "cp c = pool \<and> (\<exists>n. indy_insns_count c = indy_insns_count ctx + n \<and> Q y n)" by auto
qed

lemma ensures_gives: "(\<And>ctx. cp ctx = pool \<Longrightarrow> gives ctx p (\<lambda>x. Q x 0)) \<Longrightarrow> ensures pool p Q"
  unfolding ensures_def using givesD by fastforce

lemma ensures_steps [ensures_intros]:
  "Q x 0 \<Longrightarrow> ensures pool (pret x) Q"
  "(\<And>y. Q' y 0) \<Longrightarrow> ensures pool (reader_next_u16 r) Q'"
  "(\<And>y. r' = Inr y \<Longrightarrow> Q'' y 0) \<Longrightarrow> ensures pool (plift r') Q''"
  by (auto intro!: ensures_gives gives_intros)

lemma ensures_pdescriptor [ensures_intros]:
  "(\<And>d. p s = Inr d \<Longrightarrow> Q d 0) \<Longrightarrow> ensures pool (pdescriptor p s) Q"
  unfolding ensures_def by (auto simp: pdescriptor_def split: sum.splits)

lemma ensures_pcp [ensures_intros]:
  "(\<And>s. has_utf8 pool s \<Longrightarrow> Q s 0) \<Longrightarrow> ensures pool (pcp_utf8 i r) Q"
  "(\<And>j. points_to pool CP_KIND_CLASS (Some j) \<Longrightarrow> Q' j 0) \<Longrightarrow> ensures pool (pcp_entry i CP_KIND_CLASS r) Q'"
  by (auto intro!: ensures_gives gives_intros)

lemma ensures_attribute:
  "ensures pool parse_attribute (\<lambda>a n. attr_wf pool a \<and> n = attr_indy a)"
  unfolding ensures_def using attribute_specD [OF parse_attribute_spec] by blast

lemma ensures_weaken: "ensures pool p R \<Longrightarrow> (\<And>x n. R x n \<Longrightarrow> Q x n) \<Longrightarrow> ensures pool p Q"
  unfolding ensures_def by blast

lemma ensures_repeat:
  assumes "ensures pool p (\<lambda>x n. P x \<and> n = w x)"
  shows "ensures pool (prepeat k p) (\<lambda>xs n. (\<forall>x \<in> set xs. P x) \<and> n = sum_list (map w xs))"
proof (induction k)
  case 0
  then show ?case by (auto intro!: ensures_intros)
next
  case (Suc k)
  show ?case
    by (auto intro!: ensures_intros ensures_weaken [OF assms] ensures_weaken [OF Suc])
qed

lemma ensures_counted:
  assumes "ensures pool p (\<lambda>x n. P x \<and> n = w x)"
  shows "ensures pool (counted r p) (\<lambda>xs n. (\<forall>x \<in> set xs. P x) \<and> n = sum_list (map w xs))"
  unfolding counted_def by (intro ensures_intros) (simp add: ensures_repeat [OF assms])

section \<open>Well-formed members\<close>

definition method_wf :: "constant_pool \<Rightarrow> cp_method \<Rightarrow> bool" where
  "method_wf pool m \<longleftrightarrow>
     has_utf8 pool (m_name m) \<and> has_utf8 pool (m_unparsed_descriptor m) \<and>
     parse_method_descriptor (m_unparsed_descriptor m) = Inr (m_descriptor m) \<and>
     (\<forall>a \<in> set (m_attributes m). attr_wf pool a) \<and>
     m_code m = last_of_kind ATTRIBUTE_KIND_CODE (m_attributes m) \<and>
     m_is_ctor m = (m_name m = ''<init>'') \<and> m_is_clinit m = (m_name m = ''<clinit>'')"

definition field_wf :: "constant_pool \<Rightarrow> cp_field \<Rightarrow> bool" where
  "field_wf pool f \<longleftrightarrow>
     has_utf8 pool (f_name f) \<and> has_utf8 pool (f_descriptor f) \<and>
     parse_complete_field_descriptor (f_descriptor f) = Inr (f_parsed_descriptor f) \<and>
     (\<forall>a \<in> set (f_attributes f). attr_wf pool a)"

definition method_indy :: "cp_method \<Rightarrow> nat" where
  "method_indy m = sum_list (map attr_indy (m_attributes m))"

definition field_indy :: "cp_field \<Rightarrow> nat" where
  "field_indy f = sum_list (map attr_indy (f_attributes f))"

lemma ensures_method: "ensures pool parse_method (\<lambda>m n. method_wf pool m \<and> n = method_indy m)"
  unfolding parse_method_def
  by (intro ensures_intros ensures_weaken [OF ensures_repeat [OF ensures_attribute]])
    (auto simp: method_wf_def method_indy_def utf8_equals_def split: sum.splits)

lemma ensures_field: "ensures pool read_field (\<lambda>f n. field_wf pool f \<and> n = field_indy f)"
  unfolding read_field_def
  by (intro ensures_intros ensures_weaken [OF ensures_repeat [OF ensures_attribute]])
    (auto simp: field_wf_def field_indy_def split: sum.splits)

section \<open>Linking keeps everything well formed\<close>

text \<open>The predicates of members and attributes look at the kinds and the strings of the pool only.\<close>

lemma agree_insn_ok:
  assumes "agree P Q"
  shows "insn_ok \<lparr>cp = P, current_code_max_pc = m, indy_insns_count = k\<rparr> =
    insn_ok \<lparr>cp = Q, current_code_max_pc = m, indy_insns_count = k\<rparr>" (is "insn_ok ?p = insn_ok ?q")
proof -
  have t: "target_ok ?p = target_ok ?q" by (intro ext) (simp add: target_ok_def)
  have p: "points_to P = points_to Q" by (intro ext) (rule agree_points_to [OF assms])
  have "cp ?p = P" "cp ?q = Q" by simp_all
  then show ?thesis by (intro ext) (simp only: insn_ok_def operand_ok_def t p)
qed

lemma agree_exception_ok: "agree P Q \<Longrightarrow> exception_ok P n = exception_ok Q n"
  by (intro ext) (simp add: exception_ok_def agree_points_to [of P Q])

lemma agree_code_ok: "agree P Q \<Longrightarrow> code_ok P c = code_ok Q c"
  by (simp add: code_ok_def Let_def agree_insn_ok [of P Q] agree_exception_ok [of P Q])

lemma agree_data_wf: "agree P Q \<Longrightarrow> data_wf P d = data_wf Q d"
  by (cases d) (simp_all add: agree_points_to [of P Q] agree_has_utf8 [of P Q])

lemma agree_attr_wf: "agree P Q \<Longrightarrow> attr_wf P a = attr_wf Q a"
proof (induction P a rule: attr_wf.induct)
  case (1 P name len st lo fs mp cd ex lnt lvt as)
  then show ?case using agree_code_ok [OF "1.prems"] by simp
qed (simp_all add: agree_data_wf del: data_wf.simps)

lemma agree_members:
  assumes "agree P Q"
  shows "method_wf P m = method_wf Q m" "field_wf P f = field_wf Q f"
  by (simp_all add: method_wf_def field_wf_def agree_attr_wf [OF assms] agree_has_utf8 [OF assms])

text \<open>After linking: where an entry was an \<open>invokedynamic\<close> entry it points into the table of the
  bootstrap attribute, everything else is as before.\<close>

definition bootstrap_ok :: "attribute list \<Rightarrow> cp_info \<Rightarrow> bool" where
  "bootstrap_ok attrs e \<longleftrightarrow> (\<forall>m nt d. e = Cp_invoke_dynamic m nt d \<longrightarrow>
     (\<exists>k i ms. m = Method_ptr k \<and> find_attribute_by_kind attrs ATTRIBUTE_KIND_BOOTSTRAP_METHODS = Some i \<and>
        attr_data (attrs ! i) = Attr_bootstrap_methods ms \<and> k < length ms))"

definition same_but_method :: "cp_entry \<Rightarrow> cp_entry \<Rightarrow> bool" where
  "same_but_method e e' \<longleftrightarrow> my_index e' = my_index e \<and>
     (info e' = info e \<or> (\<exists>m m' nt d. info e = Cp_invoke_dynamic m nt d \<and> info e' = Cp_invoke_dynamic m' nt d))"

lemma link_indy_entry_ok:
  "link_indy_entry attrs e = Inr e' \<Longrightarrow> same_but_method e e' \<and> bootstrap_ok attrs (info e')"
  unfolding link_indy_entry_def same_but_method_def bootstrap_ok_def
  by (auto split: cp_info.splits indy_method.splits option.splits attribute_data.splits if_splits)

lemma link_entries_ok:
  "link_entries attrs es = Inr es' \<Longrightarrow>
   list_all2 same_but_method es es' \<and> (\<forall>e \<in> set es'. bootstrap_ok attrs (info e))"
proof (induction es arbitrary: es')
  case (Cons e es)
  then show ?case by (auto split: sum.splits dest!: link_indy_entry_ok)
qed simp

lemma same_refl [simp]: "same_but_method e e"
  by (simp add: same_but_method_def)

lemma link_pool_ok:
  assumes l: "link_bootstrap_methods attrs P = Inr Q" and p: "P \<noteq> []" "info (P ! 0) = Cp_invalid"
  shows "list_all2 same_but_method P Q" and "\<forall>e \<in> set Q. bootstrap_ok attrs (info e)"
proof -
  from p obtain e es where P: "P = e # es" "info e = Cp_invalid" by (cases P) auto
  then obtain es' where "link_entries attrs es = Inr es'" "Q = e # es'"
    using l by (auto simp: link_bootstrap_methods_def split: sum.splits)
  then show "list_all2 same_but_method P Q" "\<forall>e \<in> set Q. bootstrap_ok attrs (info e)"
    using link_entries_ok [of attrs es es'] P by (auto simp: bootstrap_ok_def)
qed

lemma same_agree:
  assumes "list_all2 same_but_method P Q"
  shows "agree_nat P Q"
proof -
  have len: "length P = length Q" and e: "\<And>j. j < length P \<Longrightarrow> same_but_method (P ! j) (Q ! j)"
    using assms by (auto simp: list_all2_conv_all_nth)
  have "cp_kind_of (info (P ! j)) = cp_kind_of (info (Q ! j)) \<and>
      (\<forall>s. info (P ! j) = Cp_utf8 s \<longrightarrow> info (Q ! j) = Cp_utf8 s) \<and>
      (\<forall>n d. info (P ! j) = Cp_name_and_type n d \<longrightarrow> info (Q ! j) = Cp_name_and_type n d)"
    if "j < length P" for j
    using e [OF that] by (auto simp: same_but_method_def)
  then show ?thesis using len by (simp add: agree_nat_def agree_def)
qed

lemma same_pool_ok:
  assumes s: "list_all2 same_but_method P Q" and ok: "pool_ok P"
  shows "pool_ok Q"
  unfolding pool_ok_def
proof (intro allI impI)
  fix j
  assume j: "j < length Q"
  have a: "agree_nat P Q" "agree P Q" using same_agree [OF s] by (simp_all add: agree_nat_def)
  have j': "j < length P" and e: "same_but_method (P ! j) (Q ! j)"
    using s j by (auto simp: list_all2_conv_all_nth)
  have "linked P (info (P ! j))" "described P (info (P ! j))" "index_ok j (P ! j)"
    using ok j' by (auto simp: pool_ok_def)
  then have "linked Q (info (P ! j))" "described Q (info (P ! j))" "index_ok j (P ! j)"
    using agree_linked [OF a(2)] agree_described [OF a(1)] by blast+
  then show "linked Q (info (Q ! j)) \<and> described Q (info (Q ! j)) \<and> index_ok j (Q ! j)"
    using e by (auto simp: same_but_method_def index_ok_def)
qed

section \<open>The table of invokedynamic instructions\<close>

lemma store_indy_insns_ok:
  assumes "indy_i + length ptrs \<le> length slots"
  shows "store_indy_insns ptrs indy_i slots =
    Inr (take indy_i slots @ map Some ptrs @ drop (indy_i + length ptrs) slots)"
  using assms
proof (induction ptrs arbitrary: indy_i slots)
  case (Cons p ptrs)
  have "take (Suc indy_i) (slots[indy_i := Some p]) = take indy_i slots @ [Some p]"
    using Cons.prems by (simp add: take_Suc_conv_app_nth)
  then show ?case using Cons.prems Cons.IH [of "Suc indy_i" "slots[indy_i := Some p]"] by simp
qed simp

lemma indy_filter_length:
  "length (filter (\<lambda>j. P (xs ! j)) [0..<length xs]) = length (filter P xs)"
proof -
  have "filter P xs = map ((!) xs) (filter (\<lambda>j. P (xs ! j)) [0..<length xs])"
    by (subst (1) map_nth [symmetric]) (simp only: filter_map comp_def)
  then show ?thesis by (metis length_map)
qed

lemma attr_indy_code: "attr_data a = Attr_code c \<Longrightarrow> indy_total (code c) \<le> attr_indy a"
  by (cases a rule: attr_indy.cases) auto

lemma last_of_kind_Some:
  assumes "last_of_kind k attrs = Some i"
  shows "i < length attrs \<and> attr_kind (attrs ! i) = k"
proof -
  let ?is = "filter (\<lambda>i. attr_kind (attrs ! i) = k) [0..<length attrs]"
  have "?is \<noteq> []" "i = last ?is" using assms by (auto simp: last_of_kind_def split: list.splits)
  then have "i \<in> set ?is" using last_in_set by blast
  then show ?thesis by simp
qed

lemma method_indy_bound:
  assumes "method_wf pool m"
  shows "length (method_indy_insns (i, m)) \<le> method_indy m"
proof (cases "method_code m")
  case None
  then show ?thesis by (simp add: method_indy_insns_def)
next
  case (Some c)
  then obtain a where a: "m_code m = Some a" "attr_data (m_attributes m ! a) = Attr_code c"
    by (auto simp: method_code_def split: option.splits attribute_data.splits)
  then have "a < length (m_attributes m)"
    using assms last_of_kind_Some unfolding method_wf_def by metis
  then have "m_attributes m ! a \<in> set (m_attributes m)" by simp
  then have "attr_indy (m_attributes m ! a) \<le> method_indy m"
    unfolding method_indy_def by (intro member_le_sum_list) simp_all
  moreover have "length (method_indy_insns (i, m)) = indy_total (code c)"
    using Some indy_filter_length [of "\<lambda>i. kind i = insn_invokedynamic" "code c"]
    by (simp add: method_indy_insns_def indy_total_def)
  ultimately show ?thesis using attr_indy_code [OF a(2)] by simp
qed

lemma indy_pointers_bound:
  assumes "\<forall>m \<in> set ms. method_wf pool m"
  shows "length (indy_pointers ms) \<le> sum_list (map method_indy ms)"
proof -
  have "length (concat (map method_indy_insns (enumerate n ms))) \<le> sum_list (map method_indy ms)" for n
    using assms
  proof (induction ms arbitrary: n)
    case (Cons m ms)
    then show ?case using method_indy_bound [of pool m n] Cons.IH [of "Suc n"]
      by (simp only: enumerate_simps list.map concat.simps length_append sum_list.Cons list.set_intros
          insert_iff) (meson add_mono list.set_intros)
  qed simp
  then show ?thesis by (simp add: indy_pointers_def)
qed

lemma indy_pointers_sound:
  assumes "(i, j) \<in> set (indy_pointers ms)"
  shows "i < length ms \<and> (\<exists>body. method_code (ms ! i) = Some body \<and> j < length (code body) \<and>
    kind (code body ! j) = insn_invokedynamic)"
proof -
  from assms have i: "i < length ms" and m: "(i, j) \<in> set (method_indy_insns (i, ms ! i))"
    by (auto simp: indy_pointers_def in_set_enumerate_eq method_indy_insns_def split: option.splits)
  then show ?thesis by (cases "method_code (ms ! i)") (auto simp: method_indy_insns_def)
qed

lemma finish_method_same:
  "method_wf pool (finish_method a b i m) = method_wf pool m"
  "method_indy (finish_method a b i m) = method_indy m" "method_code (finish_method a b i m) = method_code m"
  by (simp_all add: finish_method_def method_wf_def method_indy_def method_code_def cong: option.case_cong)

lemma finish_methods_wf:
  "(\<forall>m \<in> set (finish_methods a b ms). method_wf pool m) = (\<forall>m \<in> set ms. method_wf pool m)"
  by (auto simp: finish_methods_def finish_method_same all_set_conv_all_nth)

lemma finish_methods_indy: "sum_list (map method_indy (finish_methods a b ms)) = sum_list (map method_indy ms)"
proof -
  have "map method_indy (finish_methods a b ms) = map method_indy (map ((!) ms) [0..<length ms])"
    by (simp add: finish_methods_def finish_method_same)
  then show ?thesis by (simp only: map_nth)
qed

section \<open>The members of a class\<close>

definition members_wf :: "constant_pool \<Rightarrow> classdesc \<Rightarrow> bool" where
  "members_wf pool cf \<longleftrightarrow>
     points_to pool CP_KIND_CLASS (Some (cd_self cf)) \<and> info (pool ! cd_self cf) = Cp_class (cd_name cf) \<and>
     (if cd_access_flags cf AND ACCESS_MODULE \<noteq> 0 \<or> cd_name cf = ''java/lang/Object''
      then cd_super_class cf = None else points_to pool CP_KIND_CLASS (cd_super_class cf)) \<and>
     (\<forall>i \<in> set (cd_interfaces cf). points_to pool CP_KIND_CLASS (Some i)) \<and>
     (\<forall>f \<in> set (cd_fields cf). field_wf pool f) \<and>
     (\<forall>m \<in> set (cd_methods cf). method_wf pool m) \<and>
     (\<forall>i < length (cd_methods cf). m_my_index (cd_methods cf ! i) = i) \<and>
     (\<forall>a \<in> set (cd_attributes cf). attr_wf pool a)"

definition class_indy :: "classdesc \<Rightarrow> nat" where
  "class_indy cf = sum_list (map field_indy (cd_fields cf)) + sum_list (map method_indy (cd_methods cf)) +
     sum_list (map attr_indy (cd_attributes cf))"

lemma finish_methods_index:
  "i < length (finish_methods a b ms) \<Longrightarrow> m_my_index (finish_methods a b ms ! i) = i"
  by (simp add: finish_methods_def finish_method_def)

lemma class_entry:
  assumes "points_to pool CP_KIND_CLASS (Some i)"
  shows "info (pool ! i) = Cp_class (pool_class_name pool i)"
proof -
  have "cp_kind_of (info (pool ! i)) AND CP_KIND_CLASS \<noteq> 0" using assms by (simp add: points_to_def)
  then show ?thesis by (cases "info (pool ! i)") (simp_all add: pool_class_name_def)
qed

lemma ensures_super:
  "(\<And>s. (if flags AND ACCESS_MODULE \<noteq> 0 \<or> name = ''java/lang/Object'' then s = None
         else points_to pool CP_KIND_CLASS s) \<Longrightarrow> Q s 0) \<Longrightarrow>
   ensures pool (parse_super_class flags name) Q"
  unfolding parse_super_class_def by (auto intro!: ensures_intros)

lemma ensures_interface: "ensures pool parse_interface (\<lambda>i n. points_to pool CP_KIND_CLASS (Some i) \<and> n = 0)"
  unfolding parse_interface_def by (intro ensures_intros) simp

lemmas ensures_parts =
  ensures_weaken [OF ensures_counted [OF ensures_interface]]
  ensures_weaken [OF ensures_counted [OF ensures_field]]
  ensures_weaken [OF ensures_counted [OF ensures_method]]
  ensures_weaken [OF ensures_counted [OF ensures_attribute]]

lemma ensures_members:
  "ensures pool (parse_class_members major pool)
     (\<lambda>cf n. members_wf pool cf \<and> n = class_indy cf \<and> cd_pool cf = pool)"
  unfolding parse_class_members_def
  by (intro ensures_intros ensures_super ensures_parts)
    (simp add: members_wf_def class_indy_def finish_methods_wf finish_methods_indy class_entry
      finish_methods_index)

lemma class_body_ok:
  assumes "parse_class_body ctx bs = Inr (cf, c, b)"
  shows "pool_ok (cd_pool cf)" "cd_pool cf \<noteq> []" "info (cd_pool cf ! 0) = Cp_invalid"
    "members_wf (cd_pool cf) cf" "indy_insns_count c = indy_insns_count ctx + class_indy cf"
proof -
  from assms obtain major c1 b1 pool c2 b2 where h: "parse_class_header ctx bs = Inr (major, c1, b1)"
    and p: "parse_constant_pool c1 b1 = Inr (pool, c2, b2)"
    and m: "parse_class_members major pool c2 b2 = Inr (cf, c, b)"
    unfolding parse_class_body_def pbind_Inr by blast
  have c1: "c1 = ctx" using h by (auto simp: parse_class_header_def pbind_Inr read_iffs)
  note pool = parse_constant_pool_ok [OF p]
  have "members_wf pool cf \<and> cd_pool cf = pool \<and> indy_insns_count c = indy_insns_count c2 + class_indy cf"
    using ensuresD(2) [OF ensures_members m] pool by blast
  then show "pool_ok (cd_pool cf)" "cd_pool cf \<noteq> []" "info (cd_pool cf ! 0) = Cp_invalid"
    "members_wf (cd_pool cf) cf" "indy_insns_count c = indy_insns_count ctx + class_indy cf"
    using pool pool_indy [OF p] c1 by auto
qed

lemma same_members_wf:
  assumes s: "list_all2 same_but_method P Q" and wf: "members_wf P cf"
  shows "members_wf Q (cf\<lparr>cd_state := st, cd_pool := p, cd_indy_insns_count := n, cd_indy_insns := sl\<rparr>)"
proof -
  have a: "agree P Q" using same_agree [OF s] by (simp add: agree_nat_def)
  have p: "points_to P = points_to Q" by (intro ext) (rule agree_points_to [OF a])
  have "cd_self cf < length P" "info (P ! cd_self cf) = Cp_class (cd_name cf)"
    using wf by (auto simp: members_wf_def points_to_def)
  then have "info (Q ! cd_self cf) = Cp_class (cd_name cf)"
    using s by (auto simp: list_all2_conv_all_nth same_but_method_def)
  then show ?thesis
    using wf by (simp add: members_wf_def p agree_members [OF a] agree_attr_wf [OF a] cong del: if_weak_cong)
qed

lemma class_parts:
  assumes "parse_class ctx bs = Inr (cf, c, b)"
  obtains body pool slots where "parse_class_body ctx bs = Inr (body, c, b)" "b = []"
    "link_bootstrap_methods (cd_attributes body) (cd_pool body) = Inr pool"
    "store_indy_insns (indy_pointers (cd_methods body)) 0 (replicate (indy_insns_count c) None) = Inr slots"
    "cf = body\<lparr>cd_state := CD_STATE_LOADED, cd_pool := pool, cd_indy_insns_count := indy_insns_count c,
       cd_indy_insns := slots\<rparr>"
  using assms unfolding parse_class_def pbind_Inr finish_class_def by (auto split: if_splits sum.splits)

section \<open>Properties\<close>

text \<open>A class \<open>A\<close> that is its own superclass, with a native method \<open>m()V\<close>.\<close>

definition sample_class_bytes :: "u8 list" where
  "sample_class_bytes =
     [0xCA, 0xFE, 0xBA, 0xBE, 0, 0, 0, 52, 0, 5,
      1, 0, 1, 0x41, 7, 0, 1, 1, 0, 1, 0x6d, 1, 0, 3, 0x28, 0x29, 0x56,
      0, 0x20, 0, 2, 0, 2, 0, 0, 0, 0, 0, 1, 1, 1, 0, 3, 0, 4, 0, 0, 0, 0]"

text \<open>The zeroed \<open>classdesc\<close> a caller passes.\<close>

definition blank_class :: classdesc where
  "blank_class = \<lparr>cd_state = CD_STATE_LINKAGE_ERROR, cd_pool = [], cd_name = [], cd_self = 0,
     cd_super_class = None, cd_nest_host = None, cd_access_flags = 0, cd_interfaces = [], cd_fields = [],
     cd_methods = [], cd_source_file = None, cd_inner_classes = None, cd_attributes = [],
     cd_indy_insns_count = 0, cd_indy_insns = []\<rparr>"

text \<open>C8: what \<open>parse_classfile\<close> accepts is well formed as a whole. The pool is consistent and
  every \<open>invokedynamic\<close> entry points into the table of the \<open>BootstrapMethods\<close> attribute; the class
  is named by a class entry; there is a superclass entry unless the class is a module or
  \<open>java/lang/Object\<close>; every interface is a class entry; descriptors of fields and methods are the
  parses of their texts; each method knows its index and its (last) \<open>Code\<close> attribute; and all
  attributes, those of fields, methods and code included, are well formed.\<close>

theorem parsed_class_well_formed:
  assumes "parse_classfile bytes result = (PARSE_SUCCESS, cf, e)"
  shows "pool_ok (cd_pool cf) \<and> members_wf (cd_pool cf) cf \<and> cd_state cf = CD_STATE_LOADED \<and> e = None \<and>
    (\<forall>j < length (cd_pool cf). bootstrap_ok (cd_attributes cf) (info (cd_pool cf ! j)))"
proof -
  from assms obtain c b where p: "parse_class initial_ctx bytes = Inr (cf, c, b)" and e: "e = None"
    by (auto simp: parse_classfile_def split: sum.splits)
  from class_parts [OF p] obtain body pool slots where
    body: "parse_class_body initial_ctx bytes = Inr (body, c, b)"
    and l: "link_bootstrap_methods (cd_attributes body) (cd_pool body) = Inr pool"
    and cf: "cf = body\<lparr>cd_state := CD_STATE_LOADED, cd_pool := pool,
      cd_indy_insns_count := indy_insns_count c, cd_indy_insns := slots\<rparr>"
    by metis
  note ok = class_body_ok [OF body]
  note lp = link_pool_ok [OF l ok(2,3)]
  show ?thesis
    using same_pool_ok [OF lp(1) ok(1)] same_members_wf [OF lp(1) ok(4)] lp(2) e unfolding cf by simp
qed

lemma sample_class_parses:
  "case parse_class initial_ctx sample_class_bytes of
     Inl e \<Rightarrow> False
   | Inr (cf, c, b) \<Rightarrow> cd_name cf = ''A'' \<and> length (cd_methods cf) = 1"
  by code_simp

theorem parsed_class_well_formed_witness:
  "case parse_classfile sample_class_bytes blank_class of
     (r, cf, e) \<Rightarrow> r = PARSE_SUCCESS \<and> cd_name cf = ''A'' \<and> members_wf (cd_pool cf) cf"
proof -
  obtain cf c b where p: "parse_class initial_ctx sample_class_bytes = Inr (cf, c, b)" "cd_name cf = ''A''"
    using sample_class_parses by (auto split: sum.splits)
  then have "parse_classfile sample_class_bytes blank_class = (PARSE_SUCCESS, cf, None)"
    by (simp add: parse_classfile_def)
  then show ?thesis using parsed_class_well_formed [of sample_class_bytes blank_class cf None] p(2) by simp
qed

text \<open>the table of \<open>invokedynamic\<close> instructions is large enough. The counter the attribute
  parsers keep equals the number of such instructions in all attributes of the class, so the
  \<open>DCHECK\<close> in the loop that fills the table cannot fail; the table starts with a pointer to each
  instruction of each method's code, in order, and what the counter counts beyond them (in code
  that no method refers to) remains null.\<close>

theorem indy_table_filled:
  assumes "parse_class_body ctx bs = Inr (cf, c, b)" and "indy_insns_count ctx = 0"
  shows "indy_insns_count c = class_indy cf \<and> length (indy_pointers (cd_methods cf)) \<le> class_indy cf \<and>
    store_indy_insns (indy_pointers (cd_methods cf)) 0 (replicate (indy_insns_count c) None) =
      Inr (map Some (indy_pointers (cd_methods cf)) @
           replicate (class_indy cf - length (indy_pointers (cd_methods cf))) None) \<and>
    (\<forall>(i, j) \<in> set (indy_pointers (cd_methods cf)). i < length (cd_methods cf) \<and>
       (\<exists>body. method_code (cd_methods cf ! i) = Some body \<and> j < length (code body) \<and>
          kind (code body ! j) = insn_invokedynamic))"
proof -
  note ok = class_body_ok [OF assms(1)]
  have n: "indy_insns_count c = class_indy cf" using ok(5) assms(2) by simp
  have "length (indy_pointers (cd_methods cf)) \<le> sum_list (map method_indy (cd_methods cf))"
    using ok(4) by (intro indy_pointers_bound [of _ "cd_pool cf"]) (simp add: members_wf_def)
  then have le: "length (indy_pointers (cd_methods cf)) \<le> class_indy cf" by (simp add: class_indy_def)
  have "i < length (cd_methods cf) \<and>
      (\<exists>body. method_code (cd_methods cf ! i) = Some body \<and> j < length (code body) \<and>
         kind (code body ! j) = insn_invokedynamic)"
    if "(i, j) \<in> set (indy_pointers (cd_methods cf))" for i j
    using indy_pointers_sound [OF that] .
  then show ?thesis
    using n le store_indy_insns_ok [of 0 "indy_pointers (cd_methods cf)" "replicate (indy_insns_count c) None"]
    by auto
qed

lemma sample_body_parses:
  "case parse_class_body initial_ctx sample_class_bytes of
     Inl e \<Rightarrow> False
   | Inr (cf, c, b) \<Rightarrow> cd_name cf = ''A''"
  by code_simp

theorem indy_table_filled_witness:
  "case parse_class_body initial_ctx sample_class_bytes of
     Inl e \<Rightarrow> False
   | Inr (cf, c, b) \<Rightarrow> indy_insns_count c = class_indy cf"
  using sample_body_parses indy_table_filled [of initial_ctx sample_class_bytes]
  by (auto simp: initial_ctx_def split: sum.splits)

text \<open>a class file is self-delimiting and nothing may follow it: when the parser accepts some
  bytes it rejects every proper extension of them, with the message about trailing bytes, and
  leaves the class in the linkage-error state.\<close>

theorem trailing_bytes_rejected:
  assumes "parse_classfile bytes result = (PARSE_SUCCESS, cf, e)" and "extra \<noteq> []"
  shows "parse_classfile (bytes @ extra) result' =
    (PARSE_ERR, result'\<lparr>cd_state := CD_STATE_LINKAGE_ERROR\<rparr>,
     Some (Format_static ''Trailing bytes in classfile''))"
proof -
  from assms obtain c b where p: "parse_class initial_ctx bytes = Inr (cf, c, b)"
    by (auto simp: parse_classfile_def split: sum.splits)
  from class_parts [OF p] obtain body where "parse_class_body initial_ctx bytes = Inr (body, c, [])" by metis
  then have "parse_class_body initial_ctx (bytes @ extra) = Inr (body, c, extra)"
    using streamsD [OF streams_body, of initial_ctx bytes body c "[]" extra] by simp
  then show ?thesis
    using assms(2) by (simp add: parse_classfile_def parse_class_def pbind_def finish_class_def)
qed

theorem trailing_bytes_rejected_witness:
  "fst (parse_classfile (sample_class_bytes @ [0]) blank_class) = PARSE_ERR"
proof -
  obtain cf c b where "parse_class initial_ctx sample_class_bytes = Inr (cf, c, b)"
    using sample_class_parses by (auto split: sum.splits)
  then have "parse_classfile sample_class_bytes blank_class = (PARSE_SUCCESS, cf, None)"
    by (simp add: parse_classfile_def)
  then show ?thesis using trailing_bytes_rejected [of sample_class_bytes blank_class cf None "[0]" blank_class] by simp
qed

end
