(* ===== verification/Stack_Map_Table.thy ===== *)
theory Stack_Map_Table
  imports Classfile
begin

text \<open>
  Model of \<open>vm/stackmaptable.c\<close>: the iterator over the frames of a \<open>StackMapTable\<close> attribute. The
  buffers \<open>locals\<close> and \<open>stack\<close> are lists of the length the code allocates, one more than the limit
  of the method; an access outside them is the error \<open>Out_of_bounds\<close>, so that the memory safety of
  the iterator is a statement about the model. The second half specifies the frames of the class
  file format and relates the two: on an encoded frame the iterator computes what the
  specification says.
\<close>

section \<open>Types\<close>

abbreviation (input) STACK_MAP_FRAME_VALIDATION_TYPE_TOP :: u8 where "STACK_MAP_FRAME_VALIDATION_TYPE_TOP \<equiv> 0"
abbreviation (input) STACK_MAP_FRAME_VALIDATION_TYPE_INTEGER :: u8 where "STACK_MAP_FRAME_VALIDATION_TYPE_INTEGER \<equiv> 1"
abbreviation (input) STACK_MAP_FRAME_VALIDATION_TYPE_FLOAT :: u8 where "STACK_MAP_FRAME_VALIDATION_TYPE_FLOAT \<equiv> 2"
abbreviation (input) STACK_MAP_FRAME_VALIDATION_TYPE_DOUBLE :: u8 where "STACK_MAP_FRAME_VALIDATION_TYPE_DOUBLE \<equiv> 3"
abbreviation (input) STACK_MAP_FRAME_VALIDATION_TYPE_LONG :: u8 where "STACK_MAP_FRAME_VALIDATION_TYPE_LONG \<equiv> 4"
abbreviation (input) STACK_MAP_FRAME_VALIDATION_TYPE_NULL :: u8 where "STACK_MAP_FRAME_VALIDATION_TYPE_NULL \<equiv> 5"
abbreviation (input) STACK_MAP_FRAME_VALIDATION_TYPE_UNINIT_THIS :: u8 where "STACK_MAP_FRAME_VALIDATION_TYPE_UNINIT_THIS \<equiv> 6"
abbreviation (input) STACK_MAP_FRAME_VALIDATION_TYPE_OBJECT :: u8 where "STACK_MAP_FRAME_VALIDATION_TYPE_OBJECT \<equiv> 7"
abbreviation (input) STACK_MAP_FRAME_VALIDATION_TYPE_UNINIT :: u8 where "STACK_MAP_FRAME_VALIDATION_TYPE_UNINIT \<equiv> 8"

text \<open>The \<open>name\<close> pointer also marks the implicit tops.\<close>

datatype type_name = No_name | Name_of slice | Implicit_mark

record validation_type =
  vt_kind :: u8
  vt_name :: type_name

text \<open>A fresh cell of a buffer: \<open>calloc\<close> makes it an explicit top.\<close>

definition zero_type :: validation_type where
  "zero_type = \<lparr>vt_kind = STACK_MAP_FRAME_VALIDATION_TYPE_TOP, vt_name = No_name\<rparr>"

definition implicit_top :: validation_type where
  "implicit_top = \<lparr>vt_kind = STACK_MAP_FRAME_VALIDATION_TYPE_TOP, vt_name = Implicit_mark\<rparr>"

datatype smt_error = Smt_error string | Out_of_bounds | Null_error_pointer

text \<open>The public part of the iterator and its \<open>impl\<close> in one record; \<open>code\<close> only serves for its two
  limits.\<close>

record smt_iterator =
  it_pc :: int
  it_stack :: "validation_type list"
  it_stack_size :: int
  it_locals :: "validation_type list"
  it_locals_size :: int
  it_max_locals :: nat
  it_max_stack :: nat
  it_table :: "u8 list"
  it_has_next :: bool
  it_is_first :: bool

section \<open>The iterator\<close>

definition allocate_validation_buffer :: "nat \<Rightarrow> validation_type list" where
  "allocate_validation_buffer count = replicate (count + 1) zero_type"

definition get_slot :: "validation_type list \<Rightarrow> int \<Rightarrow> smt_error + validation_type" where
  "get_slot buf i = (if 0 \<le> i \<and> i < int (length buf) then Inr (buf ! nat i) else Inl Out_of_bounds)"

definition put_slot ::
    "validation_type list \<Rightarrow> int \<Rightarrow> validation_type \<Rightarrow> smt_error + validation_type list" where
  "put_slot buf i t = (if 0 \<le> i \<and> i < int (length buf) then Inr (buf[nat i := t]) else Inl Out_of_bounds)"

fun type_to_validation_type :: "type_kind \<Rightarrow> u8" where
  "type_to_validation_type TYPE_KIND_REFERENCE = STACK_MAP_FRAME_VALIDATION_TYPE_OBJECT"
| "type_to_validation_type TYPE_KIND_INT = STACK_MAP_FRAME_VALIDATION_TYPE_INTEGER"
| "type_to_validation_type TYPE_KIND_LONG = STACK_MAP_FRAME_VALIDATION_TYPE_LONG"
| "type_to_validation_type TYPE_KIND_FLOAT = STACK_MAP_FRAME_VALIDATION_TYPE_FLOAT"
| "type_to_validation_type TYPE_KIND_DOUBLE = STACK_MAP_FRAME_VALIDATION_TYPE_DOUBLE"
| "type_to_validation_type _ = STACK_MAP_FRAME_VALIDATION_TYPE_TOP"

definition is_wide_kind :: "type_kind \<Rightarrow> bool" where
  "is_wide_kind k \<longleftrightarrow> k = TYPE_KIND_DOUBLE \<or> k = TYPE_KIND_LONG"

text \<open>The loop over the arguments, from \<open>local_i\<close> on.\<close>

fun init_args :: "type_kind list \<Rightarrow> int \<Rightarrow> validation_type list \<Rightarrow> smt_error + (validation_type list \<times> int)" where
  "init_args [] local_i buf = Inr (buf, local_i)"
| "init_args (k # ks) local_i buf =
     rbind (get_slot buf local_i) (\<lambda>t.
     rbind (put_slot buf local_i (if k = TYPE_KIND_REFERENCE
              then \<lparr>vt_kind = type_to_validation_type k, vt_name = No_name\<rparr>
              else t\<lparr>vt_kind := type_to_validation_type k\<rparr>)) (\<lambda>buf.
     if is_wide_kind k
     then rbind (put_slot buf (local_i + 1) implicit_top) (\<lambda>buf. init_args ks (local_i + 2) buf)
     else init_args ks (local_i + 1) buf))"

definition init_locals :: "slice \<Rightarrow> cp_method \<Rightarrow> nat \<Rightarrow> smt_error + (validation_type list \<times> int)" where
  "init_locals my_class_name method locals_limit =
     (let buf = allocate_validation_buffer locals_limit in
      rbind (if m_access_flags method AND ACCESS_STATIC = 0
             then rbind (put_slot buf 0
                    \<lparr>vt_kind = (if m_is_ctor method then STACK_MAP_FRAME_VALIDATION_TYPE_UNINIT_THIS
                               else STACK_MAP_FRAME_VALIDATION_TYPE_OBJECT),
                     vt_name = Name_of my_class_name\<rparr>) (\<lambda>buf. Inr (buf, 1))
             else Inr (buf, 0)) (\<lambda>(buf, local_i).
      init_args (map repr_kind (args (m_descriptor method))) local_i buf))"

definition stack_map_frame_iterator_has_next :: "smt_iterator \<Rightarrow> bool" where
  "stack_map_frame_iterator_has_next iter = it_has_next iter"

definition read_u8 :: "u8 list \<Rightarrow> smt_error + (u8 \<times> u8 list)" where
  "read_u8 table =
     (case table of [] \<Rightarrow> Inl (Smt_error ''Unexpected end of stackmaptable'') | b # bs \<Rightarrow> Inr (b, bs))"

definition read_u16 :: "u8 list \<Rightarrow> smt_error + (u16 \<times> u8 list)" where
  "read_u16 table =
     (if length table < 2 then Inl (Smt_error ''Unexpected end of stackmaptable'')
      else Inr (push_bit 8 (ucast (table ! 0)) OR ucast (table ! 1), drop 2 table))"

text \<open>The type, whether it is wide, and what is left of the table.\<close>

definition read_verification_type :: "u8 list \<Rightarrow> smt_error + (validation_type \<times> bool \<times> u8 list)" where
  "read_verification_type table =
     rbind (read_u8 table) (\<lambda>(k, table).
     if k > STACK_MAP_FRAME_VALIDATION_TYPE_UNINIT then Inl (Smt_error ''Invalid verification type'')
     else rbind (if k = STACK_MAP_FRAME_VALIDATION_TYPE_OBJECT \<or> k = STACK_MAP_FRAME_VALIDATION_TYPE_UNINIT
                 then rbind (read_u16 table) (\<lambda>(index, table). Inr table)
                 else Inr table) (\<lambda>table.
          Inr (\<lparr>vt_kind = k, vt_name = No_name\<rparr>,
               k = STACK_MAP_FRAME_VALIDATION_TYPE_DOUBLE \<or> k = STACK_MAP_FRAME_VALIDATION_TYPE_LONG, table)))"

definition increment_pc :: "u16 \<Rightarrow> smt_iterator \<Rightarrow> smt_iterator" where
  "increment_pc offset_delta iter =
     (if it_is_first iter
      then iter\<lparr>it_pc := it_pc iter + uint offset_delta, it_is_first := False\<rparr>
      else iter\<lparr>it_pc := it_pc iter + uint offset_delta + 1\<rparr>)"

definition is_implicit_top :: "validation_type \<Rightarrow> bool" where
  "is_implicit_top t \<longleftrightarrow> vt_kind t = STACK_MAP_FRAME_VALIDATION_TYPE_TOP \<and> vt_name t = Implicit_mark"

fun chop_locals :: "nat \<Rightarrow> validation_type list \<Rightarrow> int \<Rightarrow> smt_error + int" where
  "chop_locals 0 buf locals_size = Inr locals_size"
| "chop_locals (Suc pop_count) buf locals_size =
     rbind (get_slot buf (locals_size - 1)) (\<lambda>t.
     let locals_size = (if is_implicit_top t then locals_size - 2 else locals_size - 1) in
     if locals_size < 0 then Inl (Smt_error ''chop_frame underflow'')
     else chop_locals pop_count buf locals_size)"

text \<open>The loop of \<open>append_frame\<close> and that of the locals of \<open>full_frame\<close>, which differ in the message
  only. The slot is written by \<open>read_verification_type\<close>.\<close>

fun push_locals :: "nat \<Rightarrow> string \<Rightarrow> smt_iterator \<Rightarrow> smt_error + smt_iterator" where
  "push_locals 0 overflow iter = Inr iter"
| "push_locals (Suc additional) overflow iter =
     rbind (read_verification_type (it_table iter)) (\<lambda>(t, is_wide, table).
     rbind (put_slot (it_locals iter) (it_locals_size iter) t) (\<lambda>locals.
     rbind (if is_wide
            then rbind (put_slot locals (it_locals_size iter + 1) implicit_top)
                   (\<lambda>locals. Inr (locals, it_locals_size iter + 2))
            else Inr (locals, it_locals_size iter + 1)) (\<lambda>(locals, locals_size).
     if locals_size > int (it_max_locals iter) then Inl (Smt_error overflow)
     else push_locals additional overflow
            (iter\<lparr>it_locals := locals, it_locals_size := locals_size, it_table := table\<rparr>))))"

fun push_stack :: "nat \<Rightarrow> smt_iterator \<Rightarrow> smt_error + smt_iterator" where
  "push_stack 0 iter = Inr iter"
| "push_stack (Suc num_stack) iter =
     rbind (read_verification_type (it_table iter)) (\<lambda>(t, is_wide, table).
     rbind (put_slot (it_stack iter) (it_stack_size iter) t) (\<lambda>stack.
     if it_stack_size iter + 1 > int (it_max_stack iter) then Inl (Smt_error ''full_frame stack overflow'')
     else push_stack num_stack
            (iter\<lparr>it_stack := stack, it_stack_size := it_stack_size iter + 1, it_table := table\<rparr>)))"

text \<open>One branch per kind of frame; each gives the offset and the iterator.\<close>

definition same_locals_1_frame :: "u8 \<Rightarrow> smt_iterator \<Rightarrow> smt_error + (u16 \<times> smt_iterator)" where
  "same_locals_1_frame frame_kind iter =
     rbind (if frame_kind = 247 then read_u16 (it_table iter)
            else Inr (ucast (frame_kind - 64), it_table iter)) (\<lambda>(offset_delta, table).
     rbind (read_verification_type table) (\<lambda>(t, is_wide, table).
     rbind (put_slot (it_stack iter) 0 t) (\<lambda>stack.
     Inr (offset_delta, iter\<lparr>it_stack := stack, it_stack_size := 1, it_table := table\<rparr>))))"

definition chop_frame :: "u8 \<Rightarrow> smt_iterator \<Rightarrow> smt_error + (u16 \<times> smt_iterator)" where
  "chop_frame frame_kind iter =
     rbind (chop_locals (251 - unat frame_kind) (it_locals iter) (it_locals_size iter)) (\<lambda>locals_size.
     rbind (read_u16 (it_table iter)) (\<lambda>(offset_delta, table).
     Inr (offset_delta, iter\<lparr>it_locals_size := locals_size, it_stack_size := 0, it_table := table\<rparr>)))"

definition same_frame_extended :: "smt_iterator \<Rightarrow> smt_error + (u16 \<times> smt_iterator)" where
  "same_frame_extended iter =
     rbind (read_u16 (it_table iter)) (\<lambda>(offset_delta, table).
     Inr (offset_delta, iter\<lparr>it_stack_size := 0, it_table := table\<rparr>))"

definition append_frame :: "u8 \<Rightarrow> smt_iterator \<Rightarrow> smt_error + (u16 \<times> smt_iterator)" where
  "append_frame frame_kind iter =
     rbind (read_u16 (it_table iter)) (\<lambda>(offset_delta, table).
     rbind (push_locals (unat frame_kind - 251) ''append_frame locals overflow''
              (iter\<lparr>it_stack_size := 0, it_table := table\<rparr>)) (\<lambda>iter.
     Inr (offset_delta, iter)))"

definition full_frame :: "smt_iterator \<Rightarrow> smt_error + (u16 \<times> smt_iterator)" where
  "full_frame iter =
     rbind (read_u16 (it_table iter)) (\<lambda>(offset_delta, table).
     rbind (read_u16 table) (\<lambda>(num_locals, table).
     rbind (push_locals (unat num_locals) ''full_frame locals overflow''
              (iter\<lparr>it_locals_size := 0, it_stack_size := 0, it_table := table\<rparr>)) (\<lambda>iter.
     rbind (read_u16 (it_table iter)) (\<lambda>(num_stack, table).
     rbind (push_stack (unat num_stack) (iter\<lparr>it_table := table\<rparr>)) (\<lambda>iter.
     Inr (offset_delta, iter))))))"

definition read_frame :: "u8 \<Rightarrow> smt_iterator \<Rightarrow> smt_error + (u16 \<times> smt_iterator)" where
  "read_frame frame_kind iter =
     (if frame_kind \<le> 63 then Inr (ucast frame_kind, iter\<lparr>it_stack_size := 0\<rparr>)
      else if 64 \<le> frame_kind \<and> frame_kind \<le> 127 \<or> frame_kind = 247 then same_locals_1_frame frame_kind iter
      else if 128 \<le> frame_kind \<and> frame_kind \<le> 246 then Inl (Smt_error ''Reserved frame kind'')
      else if 248 \<le> frame_kind \<and> frame_kind \<le> 250 then chop_frame frame_kind iter
      else if frame_kind = 251 then same_frame_extended iter
      else if 252 \<le> frame_kind \<and> frame_kind \<le> 254 then append_frame frame_kind iter
      else full_frame iter)"

definition stack_map_frame_iterator_next :: "smt_iterator \<Rightarrow> smt_error + smt_iterator" where
  "stack_map_frame_iterator_next iter =
     rbind (read_u8 (it_table iter)) (\<lambda>(frame_kind, table).
     rbind (read_frame frame_kind (iter\<lparr>it_table := table\<rparr>)) (\<lambda>(offset_delta, iter).
     if it_stack_size iter > int (it_max_stack iter) \<or> it_locals_size iter > int (it_max_locals iter)
     then Inl (Smt_error ''Stack map frame overflow'')
     else Inr (increment_pc offset_delta (iter\<lparr>it_has_next := it_table iter \<noteq> []\<rparr>))))"

text \<open>The table of the first \<open>StackMapTable\<close> attribute of the code, if there is one.\<close>

fun find_smt :: "attribute list \<Rightarrow> u8 list option" where
  "find_smt [] = None"
| "find_smt (a # as) = (case attr_data a of Attr_stack_map_table _ table \<Rightarrow> Some table | _ \<Rightarrow> find_smt as)"

definition start_iterator :: "attribute_code \<Rightarrow> validation_type list \<Rightarrow> int \<Rightarrow> smt_iterator" where
  "start_iterator c locals locals_size =
     \<lparr>it_pc = 0, it_stack = allocate_validation_buffer (unat (max_stack c)), it_stack_size = 0,
      it_locals = locals, it_locals_size = locals_size,
      it_max_locals = unat (max_locals c), it_max_stack = unat (max_stack c),
      it_table = (case find_smt (code_attributes c) of None \<Rightarrow> [] | Some t \<Rightarrow> t),
      it_has_next = (find_smt (code_attributes c) \<noteq> None), it_is_first = True\<rparr>"

text \<open>A first \<open>same_frame\<close> with offset 0 is skipped; \<open>next\<close> is called there without a place for its
  message.\<close>

definition skip_zero_frame :: "smt_iterator \<Rightarrow> smt_error + smt_iterator" where
  "skip_zero_frame iter =
     (if it_table iter \<noteq> [] \<and> it_table iter ! 0 = 0
      then (case stack_map_frame_iterator_next iter of
              Inl (Smt_error _) \<Rightarrow> Inl Null_error_pointer
            | r \<Rightarrow> r)
      else Inr iter)"

definition stack_map_frame_iterator_init ::
    "slice \<Rightarrow> cp_method \<Rightarrow> attribute_code \<Rightarrow> smt_error + smt_iterator" where
  "stack_map_frame_iterator_init my_class_name method c =
     rbind (init_locals my_class_name method (unat (max_locals c))) (\<lambda>(locals, locals_size).
     skip_zero_frame (start_iterator c locals locals_size))"

section \<open>Frames of the class file format\<close>

text \<open>A verification type as the file has it: the tag, and the index that follows tags 7 and 8.\<close>

type_synonym smt_type = "u8 \<times> u16"

datatype smt_frame =
    Same u16
  | Same_locals_1 u16 smt_type
  | Chop nat u16
  | Append u16 "smt_type list"
  | Full u16 "smt_type list" "smt_type list"

definition encode_u16 :: "u16 \<Rightarrow> u8 list" where
  "encode_u16 w = [ucast (drop_bit 8 w), ucast w]"

definition encode_type :: "smt_type \<Rightarrow> u8 list" where
  "encode_type t = fst t # (if fst t = 7 \<or> fst t = 8 then encode_u16 (snd t) else [])"

abbreviation encode_types :: "smt_type list \<Rightarrow> u8 list" where
  "encode_types ts \<equiv> concat (map encode_type ts)"

inductive frame_bytes :: "smt_frame \<Rightarrow> u8 list \<Rightarrow> bool" where
  same: "d \<le> 63 \<Longrightarrow> frame_bytes (Same d) [ucast d]"
| same_extended: "frame_bytes (Same d) (251 # encode_u16 d)"
| same_1: "d \<le> 63 \<Longrightarrow> frame_bytes (Same_locals_1 d t) ((ucast d + 64) # encode_type t)"
| same_1_extended: "frame_bytes (Same_locals_1 d t) (247 # encode_u16 d @ encode_type t)"
| chop: "1 \<le> k \<Longrightarrow> k \<le> 3 \<Longrightarrow> frame_bytes (Chop k d) ((251 - of_nat k) # encode_u16 d)"
| append: "1 \<le> length ts \<Longrightarrow> length ts \<le> 3 \<Longrightarrow>
    frame_bytes (Append d ts) ((251 + of_nat (length ts)) # encode_u16 d @ encode_types ts)"
| full: "length ts < 65536 \<Longrightarrow> length ss < 65536 \<Longrightarrow>
    frame_bytes (Full d ts ss)
      (255 # encode_u16 d @ encode_u16 (of_nat (length ts)) @ encode_types ts @
       encode_u16 (of_nat (length ss)) @ encode_types ss)"

fun frame_delta :: "smt_frame \<Rightarrow> u16" where
  "frame_delta (Same d) = d"
| "frame_delta (Same_locals_1 d t) = d"
| "frame_delta (Chop k d) = d"
| "frame_delta (Append d ts) = d"
| "frame_delta (Full d ts ss) = d"

definition type_of :: "smt_type \<Rightarrow> validation_type" where
  "type_of t = \<lparr>vt_kind = fst t, vt_name = No_name\<rparr>"

text \<open>The locals after a frame, one entry per variable, and the stack.\<close>

fun frame_locals :: "smt_frame \<Rightarrow> validation_type list \<Rightarrow> validation_type list" where
  "frame_locals (Chop k d) ls = take (length ls - k) ls"
| "frame_locals (Append d ts) ls = ls @ map type_of ts"
| "frame_locals (Full d ts ss) ls = map type_of ts"
| "frame_locals f ls = ls"

fun frame_stack :: "smt_frame \<Rightarrow> validation_type list" where
  "frame_stack (Same_locals_1 d t) = [type_of t]"
| "frame_stack (Full d ts ss) = map type_of ss"
| "frame_stack f = []"

fun frame_types :: "smt_frame \<Rightarrow> smt_type list" where
  "frame_types (Same_locals_1 d t) = [t]"
| "frame_types (Append d ts) = ts"
| "frame_types (Full d ts ss) = ts @ ss"
| "frame_types f = []"

text \<open>A variable of a wide type takes two slots.\<close>

definition wide_type :: "validation_type \<Rightarrow> bool" where
  "wide_type t \<longleftrightarrow> vt_kind t = 3 \<or> vt_kind t = 4"

definition slots :: "validation_type \<Rightarrow> validation_type list" where
  "slots t = (if wide_type t then [t, implicit_top] else [t])"

abbreviation expand :: "validation_type list \<Rightarrow> validation_type list" where
  "expand ls \<equiv> concat (map slots ls)"

text \<open>What the format requires of a frame in a method with the given limits.\<close>

definition frame_fits :: "nat \<Rightarrow> nat \<Rightarrow> validation_type list \<Rightarrow> smt_frame \<Rightarrow> bool" where
  "frame_fits locals_limit stack_limit ls f \<longleftrightarrow>
     (\<forall>t \<in> set (frame_types f). fst t \<le> 8) \<and> (\<forall>k d. f = Chop k d \<longrightarrow> k \<le> length ls) \<and>
     length (expand (frame_locals f ls)) \<le> locals_limit \<and> length (frame_stack f) \<le> stack_limit"

section \<open>The invariant\<close>

definition it_inv :: "smt_iterator \<Rightarrow> validation_type list \<Rightarrow> bool" where
  "it_inv iter ls \<longleftrightarrow>
     length (it_locals iter) = it_max_locals iter + 1 \<and> length (it_stack iter) = it_max_stack iter + 1 \<and>
     it_locals_size iter = int (length (expand ls)) \<and> length (expand ls) \<le> it_max_locals iter \<and>
     take (length (expand ls)) (it_locals iter) = expand ls \<and> (\<forall>t \<in> set ls. \<not> is_implicit_top t)"

lemma implicit_top_is [simp]: "is_implicit_top implicit_top" "\<not> is_implicit_top (type_of t)"
  by (simp_all add: is_implicit_top_def implicit_top_def type_of_def)

lemma type_of_wide [simp]: "wide_type (type_of t) \<longleftrightarrow> fst t = 3 \<or> fst t = 4"
  by (simp add: wide_type_def type_of_def)

section \<open>Reading\<close>

lemma u16_bytes: "push_bit 8 (ucast (ucast (drop_bit 8 w) :: u8)) OR ucast (ucast w :: u8) = (w :: u16)"
  by (rule bit_word_eqI) (auto simp: bit_simps)

lemma read_u8_Cons [simp]: "read_u8 (b # bs) = Inr (b, bs)"
  by (simp add: read_u8_def)

lemma read_u16_encode [simp]: "read_u16 (encode_u16 w @ bs) = Inr (w, bs)"
  by (simp add: read_u16_def encode_u16_def u16_bytes)

lemma read_type_encode:
  assumes "fst t \<le> 8"
  shows "read_verification_type (encode_type t @ bs) = Inr (type_of t, wide_type (type_of t), bs)"
  using assms by (auto simp: read_verification_type_def encode_type_def type_of_def wide_type_def)

lemma put_slot_ok: "0 \<le> i \<Longrightarrow> i < int (length buf) \<Longrightarrow> put_slot buf i t = Inr (buf[nat i := t])"
  by (simp add: put_slot_def)

lemma put_slot_nat: "n < length buf \<Longrightarrow> put_slot buf (int n) t = Inr (buf[n := t])"
  by (simp add: put_slot_def)

lemma get_slot_last: "0 < n \<Longrightarrow> n \<le> length buf \<Longrightarrow> get_slot buf (int n - 1) = Inr (buf ! (n - 1))"
  by (auto simp: get_slot_def nat_diff_distrib)

section \<open>Chopping\<close>

lemma expand_snoc: "expand (ls @ [t]) = expand ls @ slots t"
  by simp

lemma chop_last:
  assumes "take (length (expand (ls @ [t]))) buf = expand (ls @ [t])" and "length (expand (ls @ [t])) \<le> length buf"
    and "\<not> is_implicit_top t"
  shows "\<exists>u. get_slot buf (int (length (expand (ls @ [t]))) - 1) = Inr u \<and>
    (if is_implicit_top u then int (length (expand (ls @ [t]))) - 2 else int (length (expand (ls @ [t]))) - 1) =
      int (length (expand ls))"
proof -
  let ?n = "length (expand (ls @ [t]))"
  have pos: "0 < ?n" by (simp add: slots_def)
  have "buf ! (?n - 1) = expand (ls @ [t]) ! (?n - 1)"
    using assms(1) pos by (metis diff_less nth_take zero_less_one)
  also have "\<dots> = last (expand (ls @ [t]))" using pos by (metis last_conv_nth length_greater_0_conv)
  finally have l: "buf ! (?n - 1) = last (slots t)" by (simp add: slots_def)
  have "get_slot buf (int ?n - 1) = Inr (buf ! (?n - 1))"
    by (rule get_slot_last [OF pos assms(2)])
  then show ?thesis using l assms(3) by (auto simp: slots_def)
qed

lemma chop_locals_exact:
  assumes "take (length (expand ls)) buf = expand ls" and "length (expand ls) \<le> length buf"
    and "\<forall>t \<in> set ls. \<not> is_implicit_top t"
  shows "chop_locals k buf (int (length (expand ls))) =
    (if k \<le> length ls then Inr (int (length (expand (take (length ls - k) ls)))) else Inl Out_of_bounds)"
  using assms
proof (induction k arbitrary: ls)
  case (Suc k)
  show ?case
  proof (cases ls rule: rev_cases)
    case Nil
    then show ?thesis by (simp add: get_slot_def)
  next
    case (snoc us t)
    from Suc.prems snoc have p: "take (length (expand us)) buf = expand us" "length (expand us) \<le> length buf"
      "\<forall>t \<in> set us. \<not> is_implicit_top t"
      by (auto simp: take_add dest: arg_cong [where f = "take (length (expand us))"])
    from Suc.prems snoc obtain u where "get_slot buf (int (length (expand ls)) - 1) = Inr u"
      "(if is_implicit_top u then int (length (expand ls)) - 2 else int (length (expand ls)) - 1) =
        int (length (expand us))"
      using chop_last [of us t buf] by auto
    then have "chop_locals (Suc k) buf (int (length (expand ls))) = chop_locals k buf (int (length (expand us)))"
      by (simp add: Let_def del: concat_append map_append)
    then show ?thesis using Suc.IH [OF p] snoc by auto
  qed
qed simp

section \<open>Pushing\<close>

text \<open>The slots of one variable are written behind those of the others.\<close>

lemma take_update_prefix:
  assumes "take n buf = xs" and "n < length buf"
  shows "take (Suc n) (buf[n := t]) = xs @ [t]"
proof -
  have "take (Suc n) (buf[n := t]) = take n (buf[n := t]) @ [t]"
    using assms(2) by (simp add: take_Suc_conv_app_nth)
  then show ?thesis using assms(1) by simp
qed

lemma it_inv_push1:
  assumes "it_inv iter ls" and "\<not> wide_type t" and "\<not> is_implicit_top t"
    and "length (expand ls) < it_max_locals iter"
  shows "it_inv (iter\<lparr>it_locals := (it_locals iter)[length (expand ls) := t],
    it_locals_size := it_locals_size iter + 1, it_table := table\<rparr>) (ls @ [t])"
  using assms take_update_prefix [of "length (expand ls)" "it_locals iter" "expand ls" t]
  by (simp add: it_inv_def slots_def)

lemma it_inv_push2:
  assumes "it_inv iter ls" and "wide_type t" and "\<not> is_implicit_top t"
    and "length (expand ls) + 1 < it_max_locals iter"
  shows "it_inv (iter\<lparr>it_locals := (it_locals iter)[length (expand ls) := t, Suc (length (expand ls)) := implicit_top],
    it_locals_size := it_locals_size iter + 2, it_table := table\<rparr>) (ls @ [t])"
proof -
  let ?n = "length (expand ls)" and ?b = "it_locals iter"
  have n: "?n < length ?b" "Suc ?n < length ?b" using assms by (auto simp: it_inv_def)
  have "take (Suc ?n) (?b[?n := t]) = expand ls @ [t]"
    using take_update_prefix [OF _ n(1)] assms(1) by (simp add: it_inv_def)
  then have "take (Suc (Suc ?n)) (?b[?n := t, Suc ?n := implicit_top]) = expand ls @ [t] @ [implicit_top]"
    using take_update_prefix [of "Suc ?n" "?b[?n := t]"] n(2) by simp
  then show ?thesis using assms by (simp add: it_inv_def slots_def)
qed

lemma it_inv_sizes:
  assumes "it_inv iter ls"
  shows "it_locals_size iter = int (length (expand ls))" "length (it_locals iter) = it_max_locals iter + 1"
    "length (expand ls) \<le> it_max_locals iter"
  using assms by (simp_all add: it_inv_def)

text \<open>Every type pushed that fits: the loop runs through.\<close>

lemma push_locals_fits:
  assumes "it_inv iter ls" and "\<forall>t \<in> set ts. fst t \<le> 8" and "it_table iter = encode_types ts @ rest"
    and "length (expand (ls @ map type_of ts)) \<le> it_max_locals iter"
  shows "\<exists>buf. push_locals (length ts) msg iter =
      Inr (iter\<lparr>it_locals := buf, it_locals_size := int (length (expand (ls @ map type_of ts))), it_table := rest\<rparr>) \<and>
    it_inv (iter\<lparr>it_locals := buf, it_locals_size := int (length (expand (ls @ map type_of ts))), it_table := rest\<rparr>)
      (ls @ map type_of ts)"
  using assms
proof (induction ts arbitrary: iter ls)
  case Nil
  have "iter = iter\<lparr>it_locals := it_locals iter, it_locals_size := int (length (expand ls)), it_table := rest\<rparr>"
    using Nil it_inv_sizes(1) [OF Nil.prems(1)] by simp
  then show ?case using Nil.prems(1) by (intro exI [of _ "it_locals iter"]) simp
next
  case (Cons t ts)
  let ?n = "length (expand ls)" and ?b = "it_locals iter"
  note sz = it_inv_sizes [OF Cons.prems(1)]
  have rd: "read_verification_type (it_table iter) =
      Inr (type_of t, wide_type (type_of t), encode_types ts @ rest)"
    using Cons.prems(2,3) read_type_encode [of t "encode_types ts @ rest"] by simp
  have room: "?n + length (slots (type_of t)) + length (expand (map type_of ts)) \<le> it_max_locals iter"
    using Cons.prems(4) by simp
  define iter' where "iter' = (if wide_type (type_of t)
    then iter\<lparr>it_locals := ?b[?n := type_of t, Suc ?n := implicit_top], it_locals_size := it_locals_size iter + 2,
      it_table := encode_types ts @ rest\<rparr>
    else iter\<lparr>it_locals := ?b[?n := type_of t], it_locals_size := it_locals_size iter + 1,
      it_table := encode_types ts @ rest\<rparr>)"
  have step: "push_locals (length (t # ts)) msg iter = push_locals (length ts) msg iter'"
  proof (cases "wide_type (type_of t)")
    case True
    then have "?n + 2 \<le> it_max_locals iter" using room by (simp add: slots_def)
    then show ?thesis using True sz put_slot_nat [of ?n ?b] put_slot_nat [of "Suc ?n" "?b[?n := type_of t]"]
      by (simp add: rd iter'_def add.commute)
  next
    case False
    then have "?n + 1 \<le> it_max_locals iter" using room by (simp add: slots_def)
    then show ?thesis using False sz put_slot_nat [of ?n ?b] by (simp add: rd iter'_def)
  qed
  have "it_inv iter' (ls @ [type_of t])"
    using it_inv_push1 [OF Cons.prems(1), of "type_of t"] it_inv_push2 [OF Cons.prems(1), of "type_of t"] room
    by (auto simp: iter'_def slots_def split: if_splits)
  moreover have "it_max_locals iter' = it_max_locals iter" "it_table iter' = encode_types ts @ rest"
    by (simp_all add: iter'_def)
  ultimately obtain buf where
    "push_locals (length ts) msg iter' =
      Inr (iter'\<lparr>it_locals := buf, it_locals_size := int (length (expand (ls @ map type_of (t # ts)))), it_table := rest\<rparr>)"
    "it_inv (iter'\<lparr>it_locals := buf, it_locals_size := int (length (expand (ls @ map type_of (t # ts)))), it_table := rest\<rparr>)
      (ls @ map type_of (t # ts))"
    using Cons.IH [of iter' "ls @ [type_of t]"] Cons.prems(2,4) by auto
  then show ?case unfolding step by (intro exI [of _ buf]) (auto simp: iter'_def split: if_splits)
qed

lemma push_stack_fits:
  assumes "\<forall>t \<in> set ts. fst t \<le> 8" and "it_table iter = encode_types ts @ rest"
    and "it_stack_size iter = int n" "take n (it_stack iter) = xs" "length xs = n"
    and "length (it_stack iter) = it_max_stack iter + 1" and "n + length ts \<le> it_max_stack iter"
  shows "\<exists>buf. push_stack (length ts) iter =
      Inr (iter\<lparr>it_stack := buf, it_stack_size := int (n + length ts), it_table := rest\<rparr>) \<and>
    length buf = it_max_stack iter + 1 \<and> take (n + length ts) buf = xs @ map type_of ts"
  using assms
proof (induction ts arbitrary: iter n xs)
  case Nil
  then show ?case by (intro exI [of _ "it_stack iter"]) simp
next
  case (Cons t ts)
  let ?b = "(it_stack iter)[n := type_of t]"
  let ?iter = "iter\<lparr>it_stack := ?b, it_stack_size := int (Suc n), it_table := encode_types ts @ rest\<rparr>"
  have n: "n < length (it_stack iter)" using Cons.prems(6,7) by simp
  have rd: "read_verification_type (it_table iter) =
      Inr (type_of t, wide_type (type_of t), encode_types ts @ rest)"
    using Cons.prems(1,2) read_type_encode [of t "encode_types ts @ rest"] by simp
  have step: "push_stack (length (t # ts)) iter = push_stack (length ts) ?iter"
    using Cons.prems(3,7) put_slot_nat [OF n] by (simp add: rd add.commute)
  have "take (Suc n) (it_stack ?iter) = xs @ [type_of t]"
    using take_update_prefix [OF Cons.prems(4) n] by simp
  then obtain buf where "push_stack (length ts) ?iter =
      Inr (?iter\<lparr>it_stack := buf, it_stack_size := int (Suc n + length ts), it_table := rest\<rparr>)"
    "length buf = it_max_stack iter + 1" "take (Suc n + length ts) buf = (xs @ [type_of t]) @ map type_of ts"
    using Cons.IH [of ?iter "Suc n" "xs @ [type_of t]"] Cons.prems by auto
  then show ?case unfolding step by (intro exI [of _ buf]) simp
qed

section \<open>One frame\<close>

text \<open>What a branch of \<open>read_frame\<close> owes for the frame.\<close>

definition frame_done :: "smt_iterator \<Rightarrow> smt_frame \<Rightarrow> validation_type list \<Rightarrow> u8 list \<Rightarrow> smt_iterator \<Rightarrow> bool" where
  "frame_done iter f ls rest iter' \<longleftrightarrow>
     it_inv iter' (frame_locals f ls) \<and> it_stack_size iter' = int (length (frame_stack f)) \<and>
     take (length (frame_stack f)) (it_stack iter') = frame_stack f \<and> it_table iter' = rest \<and>
     it_pc iter' = it_pc iter \<and> it_is_first iter' = it_is_first iter \<and>
     it_max_locals iter' = it_max_locals iter \<and> it_max_stack iter' = it_max_stack iter"

lemma it_inv_other [simp]:
  "it_inv (iter\<lparr>it_stack_size := a\<rparr>) ls = it_inv iter ls" "it_inv (iter\<lparr>it_table := b\<rparr>) ls = it_inv iter ls"
  "it_inv (iter\<lparr>it_pc := c\<rparr>) ls = it_inv iter ls" "it_inv (iter\<lparr>it_has_next := d\<rparr>) ls = it_inv iter ls"
  "it_inv (iter\<lparr>it_is_first := e\<rparr>) ls = it_inv iter ls"
  by (simp_all add: it_inv_def)

lemma it_inv_empty: "it_inv iter ls \<Longrightarrow> it_inv (iter\<lparr>it_locals_size := 0\<rparr>) []"
  by (simp add: it_inv_def)

lemma it_inv_stack:
  "it_inv iter ls \<Longrightarrow> length buf = it_max_stack iter + 1 \<Longrightarrow> it_inv (iter\<lparr>it_stack := buf\<rparr>) ls"
  by (simp add: it_inv_def)

lemma small_delta:
  assumes "(d :: u16) \<le> 63"
  shows "unat (ucast d :: u8) = unat d" and "unat d \<le> 63" and "unat (ucast d + 64 :: u8) = unat d + 64"
    and "(ucast (ucast d :: u8) :: u16) = d"
proof -
  show d: "unat d \<le> 63" using assms by (simp add: word_le_nat_alt)
  then show u: "unat (ucast d :: u8) = unat d" by (simp add: unsigned_ucast_eq take_bit_nat_eq_self)
  show "unat (ucast d + 64 :: u8) = unat d + 64" using u d by (simp add: unat_word_ariths)
  show "(ucast (ucast d :: u8) :: u16) = d"
    using d by (simp add: word_unat_eq_iff unsigned_ucast_eq unsigned_take_bit_eq take_bit_nat_eq_self)
qed

lemma frame_done_same:
  assumes "it_inv iter ls" and "it_table iter = rest"
  shows "frame_done iter (Same d) ls rest (iter\<lparr>it_stack_size := 0\<rparr>)"
  using assms by (simp add: frame_done_def)

lemma same_1_fits:
  assumes inv: "it_inv iter ls" and fits: "frame_fits (it_max_locals iter) (it_max_stack iter) ls (Same_locals_1 d t)"
    and t: "read_verification_type table = Inr (type_of t, wide_type (type_of t), rest)"
  shows "\<exists>iter'. rbind (put_slot (it_stack iter) 0 (type_of t)) (\<lambda>stack.
      Inr (d, iter\<lparr>it_stack := stack, it_stack_size := 1, it_table := rest\<rparr>)) = Inr (d, iter') \<and>
    frame_done iter (Same_locals_1 d t) ls rest iter'"
proof -
  obtain x xs where b: "it_stack iter = x # xs" using inv by (cases "it_stack iter") (simp_all add: it_inv_def)
  then show ?thesis using inv by (auto simp: put_slot_def frame_done_def it_inv_def)
qed

lemma chop_inv:
  assumes "it_inv iter ls" and "chop_locals k (it_locals iter) (it_locals_size iter) = Inr n"
  shows "it_inv (iter\<lparr>it_locals_size := n\<rparr>) (take (length ls - k) ls)"
proof -
  let ?ls = "take (length ls - k) ls"
  have n: "n = int (length (expand ?ls))"
    using chop_locals_exact [of ls "it_locals iter" k] assms by (auto simp: it_inv_def split: if_splits)
  have "expand ls = expand ?ls @ expand (drop (length ls - k) ls)"
    by (metis append_take_drop_id concat_append map_append)
  then have le: "length (expand ?ls) \<le> length (expand ls)" "take (length (expand ?ls)) (expand ls) = expand ?ls"
    by (metis le_add1 length_append, metis append_eq_conv_conj)
  then have "take (length (expand ?ls)) (it_locals iter) = expand ?ls"
    using assms(1) take_take [of "length (expand ?ls)" "length (expand ls)" "it_locals iter"]
    by (simp add: it_inv_def min_absorb1)
  then show ?thesis using assms(1) n le(1) by (auto simp: it_inv_def dest: in_set_takeD)
qed

lemma chop_fits:
  assumes inv: "it_inv iter ls" and fits: "frame_fits (it_max_locals iter) (it_max_stack iter) ls (Chop k d)"
    and b: "unat b = 251 - k" "k \<le> 3" and t: "it_table iter = encode_u16 d @ rest"
  shows "\<exists>iter'. chop_frame b iter = Inr (d, iter') \<and> frame_done iter (Chop k d) ls rest iter'"
proof -
  let ?ls = "take (length ls - k) ls"
  have k: "k \<le> length ls" using fits by (simp add: frame_fits_def)
  have "chop_locals k (it_locals iter) (it_locals_size iter) = Inr (int (length (expand ?ls)))"
    using chop_locals_exact [of ls "it_locals iter" k] inv k by (simp add: it_inv_def)
  note ch = this
  have "it_inv (iter\<lparr>it_locals_size := int (length (expand ?ls)), it_stack_size := 0, it_table := rest\<rparr>) ?ls"
    using chop_inv [OF inv ch] by (simp add: it_inv_def)
  then show ?thesis using ch b t by (simp add: chop_frame_def frame_done_def)
qed

lemma append_fits:
  assumes inv: "it_inv iter ls" and fits: "frame_fits (it_max_locals iter) (it_max_stack iter) ls (Append d ts)"
    and b: "unat b = 251 + length ts" and t: "it_table iter = encode_u16 d @ encode_types ts @ rest"
  shows "\<exists>iter'. append_frame b iter = Inr (d, iter') \<and> frame_done iter (Append d ts) ls rest iter'"
proof -
  let ?iter = "iter\<lparr>it_stack_size := 0, it_table := encode_types ts @ rest\<rparr>"
  obtain buf where p: "push_locals (length ts) ''append_frame locals overflow'' ?iter =
      Inr (?iter\<lparr>it_locals := buf, it_locals_size := int (length (expand (ls @ map type_of ts))), it_table := rest\<rparr>)"
    "it_inv (?iter\<lparr>it_locals := buf, it_locals_size := int (length (expand (ls @ map type_of ts))), it_table := rest\<rparr>)
      (ls @ map type_of ts)"
    using push_locals_fits [of ?iter ls ts rest] inv fits by (auto simp: frame_fits_def)
  then show ?thesis using b t by (simp add: append_frame_def frame_done_def)
qed

lemma full_fits:
  assumes inv: "it_inv iter ls" and fits: "frame_fits (it_max_locals iter) (it_max_stack iter) ls (Full d ts ss)"
    and len: "length ts < 65536" "length ss < 65536"
    and t: "it_table iter = encode_u16 d @ encode_u16 (of_nat (length ts)) @ encode_types ts @
      encode_u16 (of_nat (length ss)) @ encode_types ss @ rest"
  shows "\<exists>iter'. full_frame iter = Inr (d, iter') \<and> frame_done iter (Full d ts ss) ls rest iter'"
proof -
  let ?rest = "encode_u16 (of_nat (length ss)) @ encode_types ss @ rest"
  let ?i0 = "iter\<lparr>it_locals_size := 0, it_stack_size := 0, it_table := encode_types ts @ ?rest\<rparr>"
  have "it_inv ?i0 []" using it_inv_empty [OF inv] by simp
  then obtain buf where p: "push_locals (length ts) ''full_frame locals overflow'' ?i0 =
      Inr (?i0\<lparr>it_locals := buf, it_locals_size := int (length (expand (map type_of ts))), it_table := ?rest\<rparr>)"
    and i1: "it_inv (?i0\<lparr>it_locals := buf, it_locals_size := int (length (expand (map type_of ts))), it_table := ?rest\<rparr>)
      (map type_of ts)"
    using push_locals_fits [of ?i0 "[]" ts ?rest] fits by (auto simp: frame_fits_def)
  let ?i1 = "?i0\<lparr>it_locals := buf, it_locals_size := int (length (expand (map type_of ts))),
    it_table := encode_types ss @ rest\<rparr>"
  obtain st where q: "push_stack (length ss) ?i1 =
      Inr (?i1\<lparr>it_stack := st, it_stack_size := int (length ss), it_table := rest\<rparr>)"
    "length st = it_max_stack iter + 1" "take (length ss) st = map type_of ss"
    using push_stack_fits [of ss ?i1 rest 0 "[]"] fits inv by (auto simp: frame_fits_def it_inv_def)
  have "it_inv (?i1\<lparr>it_stack := st, it_stack_size := int (length ss), it_table := rest\<rparr>) (map type_of ts)"
    using i1 q(2) by (simp add: it_inv_def)
  then show ?thesis using p q t len by (simp add: full_frame_def frame_done_def)
qed

lemma read_frame_fits:
  assumes "frame_bytes f bytes" and inv: "it_inv iter ls"
    and fits: "frame_fits (it_max_locals iter) (it_max_stack iter) ls f"
    and t: "b # it_table iter = bytes @ rest"
  shows "\<exists>iter'. read_frame b iter = Inr (frame_delta f, iter') \<and> frame_done iter f ls rest iter'"
  using assms(1)
proof cases
  case (same d)
  note small = small_delta [OF same(3)]
  have "b = ucast d" "it_table iter = rest" using t same by simp_all
  moreover have "ucast d \<le> (63 :: u8)" using small by (simp add: word_le_nat_alt)
  ultimately show ?thesis using frame_done_same [OF inv] small(4) same(1) by (simp add: read_frame_def)
next
  case (same_extended d)
  then have "b = 251" "it_table iter = encode_u16 d @ rest" using t by simp_all
  then show ?thesis
    using inv same_extended by (simp add: read_frame_def same_frame_extended_def frame_done_def)
next
  case (same_1 d u)
  note small = small_delta [OF same_1(3)]
  have b: "b = ucast d + 64" "it_table iter = encode_type u @ rest" using t same_1 by simp_all
  then have ub: "unat b = unat d + 64" using small by simp
  have rd: "read_verification_type (it_table iter) = Inr (type_of u, wide_type (type_of u), rest)"
    using b(2) read_type_encode [of u rest] fits same_1(1) by (simp add: frame_fits_def)
  have "unat b \<noteq> unat (247 :: u8)" using ub small(2) by simp
  then have "\<not> b \<le> 63" "64 \<le> b" "b \<le> 127" "b \<noteq> 247" "b - 64 = ucast d"
    using ub small(2) b by (auto simp: word_le_nat_alt)
  then have "read_frame b iter = rbind (put_slot (it_stack iter) 0 (type_of u)) (\<lambda>stack.
      Inr (d, iter\<lparr>it_stack := stack, it_stack_size := 1, it_table := rest\<rparr>))"
    using rd small(4) by (simp add: read_frame_def same_locals_1_frame_def)
  then show ?thesis using same_1_fits [OF inv _ rd] fits same_1(1) by simp
next
  case (same_1_extended d u)
  then have b: "b = 247" "it_table iter = encode_u16 d @ encode_type u @ rest" using t by simp_all
  have rd: "read_verification_type (encode_type u @ rest) = Inr (type_of u, wide_type (type_of u), rest)"
    using read_type_encode [of u rest] fits same_1_extended(1) by (simp add: frame_fits_def)
  have "read_frame b iter = rbind (put_slot (it_stack iter) 0 (type_of u)) (\<lambda>stack.
      Inr (d, iter\<lparr>it_stack := stack, it_stack_size := 1, it_table := rest\<rparr>))"
    using rd b by (simp add: read_frame_def same_locals_1_frame_def)
  then show ?thesis using same_1_fits [OF inv _ rd] fits same_1_extended(1) by simp
next
  case (chop k d)
  then have b: "b = 251 - of_nat k" "it_table iter = encode_u16 d @ rest" using t by simp_all
  have "k = 1 \<or> k = 2 \<or> k = 3" using chop(3,4) by linarith
  then have "b = 250 \<and> k = 1 \<or> b = 249 \<and> k = 2 \<or> b = 248 \<and> k = 3"
    using b(1) by (elim disjE) simp_all
  then have "read_frame b iter = chop_frame b iter \<and> unat b = 251 - k"
    by (elim disjE) (simp_all add: read_frame_def)
  then show ?thesis using chop_fits [OF inv, of k d b rest] fits chop b(2) by simp
next
  case (append ts d)
  then have b: "b = 251 + of_nat (length ts)" "it_table iter = encode_u16 d @ encode_types ts @ rest"
    using t by simp_all
  have "length ts = 1 \<or> length ts = 2 \<or> length ts = 3" using append(3,4) by linarith
  then have "b = 252 \<and> length ts = 1 \<or> b = 253 \<and> length ts = 2 \<or> b = 254 \<and> length ts = 3"
    using b(1) by (elim disjE) simp_all
  then have "read_frame b iter = append_frame b iter \<and> unat b = 251 + length ts"
    by (elim disjE) (simp_all add: read_frame_def)
  then show ?thesis using append_fits [OF inv, of d ts b rest] fits append(1) b(2) by simp
next
  case (full ts ss d)
  then have "b = 255" "it_table iter = encode_u16 d @ encode_u16 (of_nat (length ts)) @ encode_types ts @
      encode_u16 (of_nat (length ss)) @ encode_types ss @ rest"
    using t by simp_all
  then show ?thesis using full_fits [OF inv, of d ts ss rest] fits full by (simp add: read_frame_def)
qed

section \<open>Any table\<close>

lemma read_type_Inr:
  assumes "read_verification_type table = Inr (t, w, table')"
  shows "\<not> is_implicit_top t \<and> w = wide_type t \<and> length table' < length table"
  using assms
  by (auto simp: read_verification_type_def rbind_Inr read_u8_def read_u16_def wide_type_def is_implicit_top_def
      split: list.splits if_splits)

lemma put_slot_Inr: "put_slot buf i t = Inr buf' \<longleftrightarrow> 0 \<le> i \<and> i < int (length buf) \<and> buf' = buf[nat i := t]"
  by (auto simp: put_slot_def)

text \<open>What stays the same while a frame is read.\<close>

definition same_frame_state :: "smt_iterator \<Rightarrow> smt_iterator \<Rightarrow> bool" where
  "same_frame_state iter iter' \<longleftrightarrow>
     it_pc iter' = it_pc iter \<and> it_is_first iter' = it_is_first iter \<and>
     it_max_locals iter' = it_max_locals iter \<and> it_max_stack iter' = it_max_stack iter \<and>
     length (it_table iter') \<le> length (it_table iter)"

lemma push_locals_inv:
  assumes "push_locals n msg iter = Inr iter'" and "it_inv iter ls"
  shows "(\<exists>ls'. it_inv iter' ls') \<and> same_frame_state iter iter' \<and> it_stack_size iter' = it_stack_size iter"
  using assms
proof (induction n arbitrary: iter ls)
  case 0
  then show ?case by (auto simp: same_frame_state_def)
next
  case (Suc n)
  let ?n = "length (expand ls)"
  note sz = it_inv_sizes [OF Suc.prems(2)]
  from Suc.prems(1) obtain t w table where rd: "read_verification_type (it_table iter) = Inr (t, w, table)"
    by (auto simp: rbind_Inr)
  note ty = read_type_Inr [OF rd]
  define iter1 where "iter1 = (if wide_type t
    then iter\<lparr>it_locals := (it_locals iter)[?n := t, Suc ?n := implicit_top],
      it_locals_size := it_locals_size iter + 2, it_table := table\<rparr>
    else iter\<lparr>it_locals := (it_locals iter)[?n := t], it_locals_size := it_locals_size iter + 1,
      it_table := table\<rparr>)"
  have "push_locals n msg iter1 = Inr iter' \<and> it_inv iter1 (ls @ [t])"
  proof (cases "wide_type t")
    case True
    then have r: "push_locals n msg iter1 = Inr iter'" "?n + 2 \<le> it_max_locals iter"
      using Suc.prems(1) ty sz
      by (auto simp: rd rbind_Inr put_slot_Inr iter1_def nat_add_distrib split: if_splits)
    then show ?thesis using it_inv_push2 [OF Suc.prems(2) True] ty True by (simp add: iter1_def)
  next
    case False
    then have r: "push_locals n msg iter1 = Inr iter'" "?n + 1 \<le> it_max_locals iter"
      using Suc.prems(1) ty sz by (auto simp: rd rbind_Inr put_slot_Inr iter1_def split: if_splits)
    then show ?thesis using it_inv_push1 [OF Suc.prems(2) False] ty False by (simp add: iter1_def)
  qed
  then have "(\<exists>ls'. it_inv iter' ls') \<and> same_frame_state iter1 iter' \<and> it_stack_size iter' = it_stack_size iter1"
    using Suc.IH by blast
  then show ?case using ty by (auto simp: same_frame_state_def iter1_def split: if_splits)
qed

lemma push_stack_inv:
  assumes "push_stack n iter = Inr iter'" and "it_inv iter ls" and "0 \<le> it_stack_size iter"
  shows "it_inv iter' ls \<and> same_frame_state iter iter' \<and> 0 \<le> it_stack_size iter'"
  using assms
proof (induction n arbitrary: iter)
  case 0
  then show ?case by (auto simp: same_frame_state_def)
next
  case (Suc n)
  from Suc.prems(1) obtain t w table buf where rd: "read_verification_type (it_table iter) = Inr (t, w, table)"
    and b: "put_slot (it_stack iter) (it_stack_size iter) t = Inr buf"
    and rec: "push_stack n (iter\<lparr>it_stack := buf, it_stack_size := it_stack_size iter + 1, it_table := table\<rparr>) = Inr iter'"
    by (auto simp: rbind_Inr split: if_splits)
  have "length buf = it_max_stack iter + 1" using b Suc.prems(2) by (auto simp: put_slot_Inr it_inv_def)
  then have "it_inv (iter\<lparr>it_stack := buf, it_stack_size := it_stack_size iter + 1, it_table := table\<rparr>) ls"
    using Suc.prems(2) by (simp add: it_inv_def)
  from Suc.IH [OF rec this] show ?case
    using read_type_Inr [OF rd] Suc.prems(3) by (auto simp: same_frame_state_def)
qed

lemma read_u16_Inr: "read_u16 table = Inr (w, table') \<Longrightarrow> length table' \<le> length table"
  by (auto simp: read_u16_def split: if_splits)

lemma read_frame_cases:
  "read_frame b iter = Inr (ucast b, iter\<lparr>it_stack_size := 0\<rparr>) \<or>
   read_frame b iter = same_locals_1_frame b iter \<or> (\<exists>e. read_frame b iter = Inl (Smt_error e)) \<or>
   read_frame b iter = chop_frame b iter \<or> read_frame b iter = same_frame_extended iter \<or>
   read_frame b iter = append_frame b iter \<or> read_frame b iter = full_frame iter"
  unfolding read_frame_def
  by (cases "b \<le> 63"; cases "64 \<le> b \<and> b \<le> 127 \<or> b = 247"; cases "128 \<le> b \<and> b \<le> 246";
      cases "248 \<le> b \<and> b \<le> 250"; cases "b = 251"; cases "252 \<le> b \<and> b \<le> 254";
      simp only: if_True if_False simp_thms; blast)

lemma read_frame_inv:
  assumes r: "read_frame b iter = Inr (d, iter')" and inv: "it_inv iter ls"
  shows "(\<exists>ls'. it_inv iter' ls') \<and> same_frame_state iter iter' \<and> 0 \<le> it_stack_size iter'"
proof -
  consider (same) "iter' = iter\<lparr>it_stack_size := 0\<rparr>" | (one) "same_locals_1_frame b iter = Inr (d, iter')"
    | (chop) "chop_frame b iter = Inr (d, iter')" | (ext) "same_frame_extended iter = Inr (d, iter')"
    | (app) "append_frame b iter = Inr (d, iter')" | (full) "full_frame iter = Inr (d, iter')"
    using read_frame_cases [of b iter] r by fastforce
  then show ?thesis
  proof cases
    case same
    then show ?thesis using inv by (auto simp: same_frame_state_def)
  next
    case one
    then obtain table t w rest buf where
      o: "(if b = 247 then read_u16 (it_table iter) else Inr (ucast (b - 64), it_table iter)) = Inr (d, table)"
      and t: "read_verification_type table = Inr (t, w, rest)" and b: "put_slot (it_stack iter) 0 t = Inr buf"
      and i: "iter' = iter\<lparr>it_stack := buf, it_stack_size := 1, it_table := rest\<rparr>"
      unfolding same_locals_1_frame_def by (auto simp only: rbind_Inr split_paired_Ex prod.case sum.inject prod.inject)
    have "length table \<le> length (it_table iter)" using o by (auto dest: read_u16_Inr split: if_splits)
    moreover have "it_inv iter' ls" using inv b i by (auto simp: it_inv_def put_slot_Inr)
    ultimately show ?thesis using read_type_Inr [OF t] i by (auto simp: same_frame_state_def)
  next
    case chop
    then obtain n table where n: "chop_locals (251 - unat b) (it_locals iter) (it_locals_size iter) = Inr n"
      and t: "read_u16 (it_table iter) = Inr (d, table)"
      and i: "iter' = iter\<lparr>it_locals_size := n, it_stack_size := 0, it_table := table\<rparr>"
      by (auto simp: chop_frame_def rbind_Inr)
    have "it_inv iter' (take (length ls - (251 - unat b)) ls)"
      using chop_inv [OF inv n] i by (simp add: it_inv_def)
    then show ?thesis using i read_u16_Inr [OF t] by (auto simp: same_frame_state_def)
  next
    case ext
    then show ?thesis
      using inv by (auto simp: same_frame_extended_def rbind_Inr same_frame_state_def dest!: read_u16_Inr)
  next
    case app
    then obtain table where t: "read_u16 (it_table iter) = Inr (d, table)"
      and p: "push_locals (unat b - 251) ''append_frame locals overflow'' (iter\<lparr>it_stack_size := 0, it_table := table\<rparr>) = Inr iter'"
      by (auto simp: append_frame_def rbind_Inr)
    have "it_inv (iter\<lparr>it_stack_size := 0, it_table := table\<rparr>) ls" using inv by simp
    from push_locals_inv [OF p this] show ?thesis using read_u16_Inr [OF t] by (auto simp: same_frame_state_def)
  next
    case full
    then obtain t1 n t2 i1 m t3 where t: "read_u16 (it_table iter) = Inr (d, t1)" "read_u16 t1 = Inr (n, t2)"
      "read_u16 (it_table i1) = Inr (m, t3)"
      and p: "push_locals (unat n) ''full_frame locals overflow''
        (iter\<lparr>it_locals_size := 0, it_stack_size := 0, it_table := t2\<rparr>) = Inr i1"
      and q: "push_stack (unat m) (i1\<lparr>it_table := t3\<rparr>) = Inr iter'"
      by (auto simp: full_frame_def rbind_Inr)
    have "it_inv (iter\<lparr>it_locals_size := 0, it_stack_size := 0, it_table := t2\<rparr>) []"
      using it_inv_empty [OF inv] by simp
    from push_locals_inv [OF p this] obtain ls1 where i1: "it_inv i1 ls1"
      "same_frame_state (iter\<lparr>it_locals_size := 0, it_stack_size := 0, it_table := t2\<rparr>) i1" "it_stack_size i1 = 0"
      by auto
    then have "it_inv (i1\<lparr>it_table := t3\<rparr>) ls1" by simp
    from push_stack_inv [OF q this] show ?thesis
      using i1(2,3) read_u16_Inr [OF t(1)] read_u16_Inr [OF t(2)] read_u16_Inr [OF t(3)]
      by (auto simp: same_frame_state_def)
  qed
qed

section \<open>The initial frame\<close>

definition arg_types :: "type_kind list \<Rightarrow> validation_type list" where
  "arg_types ks = map (\<lambda>k. \<lparr>vt_kind = type_to_validation_type k, vt_name = No_name\<rparr>) ks"

definition this_types :: "slice \<Rightarrow> cp_method \<Rightarrow> validation_type list" where
  "this_types my_class_name method =
     (if m_access_flags method AND ACCESS_STATIC = 0
      then [\<lparr>vt_kind = (if m_is_ctor method then STACK_MAP_FRAME_VALIDATION_TYPE_UNINIT_THIS
                       else STACK_MAP_FRAME_VALIDATION_TYPE_OBJECT), vt_name = Name_of my_class_name\<rparr>]
      else [])"

text \<open>The types of the variables on entry.\<close>

definition entry_types :: "slice \<Rightarrow> cp_method \<Rightarrow> validation_type list" where
  "entry_types my_class_name method =
     this_types my_class_name method @ arg_types (map repr_kind (args (m_descriptor method)))"

lemma wide_arg: "wide_type \<lparr>vt_kind = type_to_validation_type k, vt_name = n\<rparr> \<longleftrightarrow> is_wide_kind k"
  by (cases k) (simp_all add: wide_type_def is_wide_kind_def)

lemma take_more: "take n buf = xs @ replicate k z \<Longrightarrow> length xs = m \<Longrightarrow> m \<le> n \<Longrightarrow> take m buf = xs"
  by (metis append_eq_conv_conj min.absorb1 take_take)

lemma init_args_ok:
  assumes "length xs + length (expand (arg_types ks)) \<le> m" and "length buf = m + 1"
    and "buf = xs @ replicate (m + 1 - length xs) zero_type"
  shows "init_args ks (int (length xs)) buf =
    Inr (xs @ expand (arg_types ks) @ replicate (m + 1 - length (xs @ expand (arg_types ks))) zero_type,
         int (length (xs @ expand (arg_types ks))))"
  using assms
proof (induction ks arbitrary: xs buf)
  case Nil
  then show ?case by (simp add: arg_types_def)
next
  case (Cons k ks)
  let ?t = "\<lparr>vt_kind = type_to_validation_type k, vt_name = No_name\<rparr>" and ?n = "length xs"
  have room: "?n + length (slots ?t) + length (expand (arg_types ks)) \<le> m"
    using Cons.prems(1) by (simp add: arg_types_def)
  then have n: "?n < m" by (simp add: slots_def split: if_splits)
  then have rep: "m + 1 - ?n = Suc (m - ?n)" by simp
  have get: "get_slot buf (int ?n) = Inr zero_type"
    using Cons.prems(2,3) n by (simp add: get_slot_def nth_append)
  have new: "(if k = TYPE_KIND_REFERENCE then ?t else zero_type\<lparr>vt_kind := type_to_validation_type k\<rparr>) = ?t"
    by (simp add: zero_type_def)
  have put: "put_slot buf (int ?n) ?t = Inr (xs @ ?t # replicate (m - ?n) zero_type)"
    using Cons.prems(2,3) n rep by (simp add: put_slot_def list_update_append)
  show ?case
  proof (cases "is_wide_kind k")
    case True
    then have sl: "slots ?t = [?t, implicit_top]" by (simp add: slots_def wide_arg)
    with room have "Suc ?n < m" by simp
    then have "m - ?n = Suc (m - Suc ?n)" by simp
    then have "put_slot (xs @ ?t # replicate (m - ?n) zero_type) (int ?n + 1) implicit_top =
        Inr ((xs @ slots ?t) @ replicate (m + 1 - length (xs @ slots ?t)) zero_type)"
      by (simp add: put_slot_def list_update_append nat_add_distrib sl)
    then show ?thesis
      using Cons.IH [of "xs @ slots ?t" "(xs @ slots ?t) @ replicate (m + 1 - length (xs @ slots ?t)) zero_type"]
        room get new put True sl
      by (simp add: arg_types_def add.commute add.left_commute)
  next
    case False
    then have sl: "slots ?t = [?t]" by (simp add: slots_def wide_arg)
    then show ?thesis
      using Cons.IH [of "xs @ slots ?t" "(xs @ slots ?t) @ replicate (m + 1 - length (xs @ slots ?t)) zero_type"]
        room get new put False
      by (simp add: arg_types_def add.commute)
  qed
qed

lemma init_locals_ok:
  assumes "length (expand (entry_types name method)) \<le> m"
  shows "init_locals name method m =
    Inr (expand (entry_types name method) @ replicate (m + 1 - length (expand (entry_types name method))) zero_type,
         int (length (expand (entry_types name method))))"
proof (cases "m_access_flags method AND ACCESS_STATIC = 0")
  case True
  define this where "this = hd (this_types name method)"
  have t: "this_types name method = [this]" and sl: "slots this = [this]"
    using True by (simp_all add: this_def this_types_def slots_def wide_type_def)
  have m: "0 < m" using assms t sl by (simp add: entry_types_def)
  have "put_slot (allocate_validation_buffer m) 0 this = Inr ([this] @ replicate (m + 1 - length [this]) zero_type)"
    by (simp add: put_slot_def allocate_validation_buffer_def)
  moreover have "init_locals name method m =
      rbind (put_slot (allocate_validation_buffer m) 0 this) (\<lambda>buf.
        init_args (map repr_kind (args (m_descriptor method))) 1 buf)"
    using True by (simp add: init_locals_def Let_def this_def this_types_def put_slot_def)
  ultimately show ?thesis
    using init_args_ok [of "[this]" "map repr_kind (args (m_descriptor method))" m] assms t sl
    by (simp add: entry_types_def)
next
  case False
  then show ?thesis
    using init_args_ok [of "[]" "map repr_kind (args (m_descriptor method))" m] assms
    by (simp add: init_locals_def Let_def allocate_validation_buffer_def entry_types_def this_types_def)
qed

lemma entry_types_not_implicit: "t \<in> set (entry_types name method) \<Longrightarrow> \<not> is_implicit_top t"
  by (auto simp: entry_types_def this_types_def arg_types_def is_implicit_top_def)

section \<open>Properties\<close>

definition sample_iterator :: smt_iterator where
  "sample_iterator = \<lparr>it_pc = 0, it_stack = replicate 2 zero_type, it_stack_size = 0,
     it_locals = replicate 4 zero_type, it_locals_size = 0, it_max_locals = 3, it_max_stack = 1,
     it_table = [253, 0, 4, 1, 4], it_has_next = True, it_is_first = True\<rparr>"

text \<open>C15: the iterator decodes every frame of the class file format. From a state whose locals
  represent some variables, on the bytes of a frame that fits the limits of the method, \<open>next\<close>
  succeeds without an access outside its buffers; it consumes exactly the frame, its locals and
  its stack are those the format prescribes (a wide variable followed by an implicit top), and the
  program counter advances by the offset, plus one except for the first frame.\<close>

theorem stack_map_frame_decodes:
  assumes "it_inv iter ls" and "frame_bytes f bytes" and "it_table iter = bytes @ rest"
    and "frame_fits (it_max_locals iter) (it_max_stack iter) ls f"
  shows "\<exists>iter'. stack_map_frame_iterator_next iter = Inr iter' \<and> it_inv iter' (frame_locals f ls) \<and>
    it_stack_size iter' = int (length (frame_stack f)) \<and>
    take (length (frame_stack f)) (it_stack iter') = frame_stack f \<and>
    it_table iter' = rest \<and> stack_map_frame_iterator_has_next iter' = (rest \<noteq> []) \<and>
    it_pc iter' = it_pc iter + uint (frame_delta f) + (if it_is_first iter then 0 else 1)"
proof -
  have "bytes \<noteq> []" using assms(2) by cases simp_all
  then obtain b bs where b: "bytes = b # bs" by (cases bytes) auto
  let ?iter = "iter\<lparr>it_table := bs @ rest\<rparr>"
  have "\<exists>iter'. read_frame b ?iter = Inr (frame_delta f, iter') \<and> frame_done ?iter f ls rest iter'"
    using read_frame_fits [OF assms(2), of ?iter ls b rest] assms(1,4) b by simp
  then obtain i where r: "read_frame b ?iter = Inr (frame_delta f, i)" and d: "frame_done ?iter f ls rest i"
    by blast
  have "it_locals_size i \<le> int (it_max_locals i)" "it_stack_size i \<le> int (it_max_stack i)"
    using d assms(4) it_inv_sizes(1,3) [of i "frame_locals f ls"] by (auto simp: frame_done_def frame_fits_def)
  then have n: "stack_map_frame_iterator_next iter = Inr (increment_pc (frame_delta f) (i\<lparr>it_has_next := it_table i \<noteq> []\<rparr>))"
    using assms(3) b r by (simp add: stack_map_frame_iterator_next_def)
  show ?thesis
    unfolding n using d
    by (simp add: increment_pc_def frame_done_def stack_map_frame_iterator_has_next_def)
qed

lemma sample_iterator_inv: "it_inv sample_iterator []"
  by (simp add: it_inv_def sample_iterator_def)

lemma sample_frame: "frame_bytes (Append 4 [(1, 0), (4, 0)]) [253, 0, 4, 1, 4]"
  using append [of "[(1, 0), (4, 0)]" 4] by (simp add: encode_u16_def encode_type_def)

theorem stack_map_frame_decodes_witness:
  "\<exists>iter'. stack_map_frame_iterator_next sample_iterator = Inr iter' \<and>
    it_inv iter' [type_of (1, 0), type_of (4, 0)] \<and> it_pc iter' = 4"
  using stack_map_frame_decodes [OF sample_iterator_inv sample_frame, of "[]"]
  by (auto simp: sample_iterator_def frame_fits_def slots_def)

text \<open>C27: whatever the table holds, a successful \<open>next\<close> leaves an iterator that satisfies its
  invariant again (sizes within the limits of the method, every wide variable followed by its
  implicit top) and consumes input, so that a loop over \<open>has_next\<close> ends; program counters never
  decrease and increase strictly after the first frame.\<close>

theorem stack_map_next_invariant:
  assumes "it_inv iter ls" and "stack_map_frame_iterator_next iter = Inr iter'"
  shows "(\<exists>ls'. it_inv iter' ls') \<and> 0 \<le> it_stack_size iter' \<and> it_stack_size iter' \<le> int (it_max_stack iter') \<and>
    length (it_table iter') < length (it_table iter) \<and> \<not> it_is_first iter' \<and>
    (if it_is_first iter then it_pc iter \<le> it_pc iter' else it_pc iter < it_pc iter')"
proof -
  from assms(2) obtain b table d i where t: "it_table iter = b # table"
    and r: "read_frame b (iter\<lparr>it_table := table\<rparr>) = Inr (d, i)"
    and i: "it_stack_size i \<le> int (it_max_stack i)"
      "iter' = increment_pc d (i\<lparr>it_has_next := it_table i \<noteq> []\<rparr>)"
    by (auto simp: stack_map_frame_iterator_next_def rbind_Inr read_u8_def split: if_splits list.splits)
  have "(\<exists>ls'. it_inv i ls') \<and> same_frame_state (iter\<lparr>it_table := table\<rparr>) i \<and> 0 \<le> it_stack_size i"
    using read_frame_inv [OF r, of ls] assms(1) by simp
  then show ?thesis using i t by (auto simp: increment_pc_def same_frame_state_def)
qed

lemma sample_next: "\<exists>i. stack_map_frame_iterator_next sample_iterator = Inr i"
proof -
  have "case stack_map_frame_iterator_next sample_iterator of Inl e \<Rightarrow> False | Inr i \<Rightarrow> it_pc i = 4" by code_simp
  then show ?thesis by (auto split: sum.splits)
qed

theorem stack_map_next_invariant_witness:
  "\<exists>iter' ls'. stack_map_frame_iterator_next sample_iterator = Inr iter' \<and> it_inv iter' ls'"
  using sample_next stack_map_next_invariant [OF sample_iterator_inv] by blast

text \<open>a \<open>chop_frame\<close> that removes more variables than there are always reads the slot before
  the buffer of locals: the test for underflow comes after the access, so its message is never
  produced without it.\<close>

theorem chop_reads_before_buffer:
  assumes "it_inv iter ls" and "248 \<le> b" and "b \<le> 250"
  shows "chop_frame b iter = Inl Out_of_bounds \<longleftrightarrow> length ls < 251 - unat b"
  using chop_locals_exact [of ls "it_locals iter" "251 - unat b"] assms
  by (auto simp: chop_frame_def it_inv_def rbind_Inl read_u16_def split: if_splits)

theorem chop_reads_before_buffer_witness: "chop_frame 250 sample_iterator = Inl Out_of_bounds"
  using chop_reads_before_buffer [OF sample_iterator_inv, of 250] by simp

text \<open>the extra cell of the buffer of locals is not enough: a wide variable appended when all
  locals are in use writes its implicit top one cell past the end before the overflow is
  reported.\<close>

theorem append_writes_past_buffer:
  assumes "it_inv iter ls" and "length (expand ls) = it_max_locals iter"
    and "it_table iter = encode_u16 d @ encode_type t @ rest" and "fst t = 3 \<or> fst t = 4"
  shows "append_frame 252 iter = Inl Out_of_bounds"
proof -
  have "fst t \<le> 8" using assms(4) by auto
  then have rd: "read_verification_type (encode_type t @ rest) = Inr (type_of t, True, rest)"
    using read_type_encode [of t rest] assms(4) by simp
  then show ?thesis
    using assms it_inv_sizes [OF assms(1)] by (simp add: append_frame_def put_slot_def)
qed

theorem append_writes_past_buffer_witness:
  "append_frame 252 (sample_iterator\<lparr>it_max_locals := 0, it_locals := [zero_type], it_table := [0, 0, 4]\<rparr>) =
     Inl Out_of_bounds"
  using append_writes_past_buffer
    [of "sample_iterator\<lparr>it_max_locals := 0, it_locals := [zero_type], it_table := [0, 0, 4]\<rparr>" "[]" 0 "(4, 0)" "[]"]
  by (simp add: it_inv_def sample_iterator_def encode_u16_def encode_type_def)

text \<open>for a method whose parameters fit its locals, the iterator starts in a state that
  represents the parameters (\<open>this\<close> first unless the method is static), and a first frame that is
  \<open>same_frame\<close> at offset 0 is skipped without using the missing error pointer.\<close>

theorem stack_map_init_entry_types:
  assumes "length (expand (entry_types name method)) \<le> unat (max_locals c)"
  shows "\<exists>iter. stack_map_frame_iterator_init name method c = Inr iter \<and>
    it_inv iter (entry_types name method) \<and> it_pc iter = 0 \<and> it_stack_size iter = 0"
proof -
  let ?ls = "entry_types name method" and ?m = "unat (max_locals c)"
  define iter where "iter = start_iterator c (expand ?ls @ replicate (?m + 1 - length (expand ?ls)) zero_type)
    (int (length (expand ?ls)))"
  have init: "stack_map_frame_iterator_init name method c = skip_zero_frame iter"
    using init_locals_ok [OF assms] by (simp add: stack_map_frame_iterator_init_def iter_def)
  have iter: "it_inv iter ?ls" "it_pc iter = 0" "it_stack_size iter = 0" "it_is_first iter"
    using assms entry_types_not_implicit
    by (simp_all add: iter_def start_iterator_def it_inv_def allocate_validation_buffer_def)
  show ?thesis
  proof (cases "it_table iter \<noteq> [] \<and> it_table iter ! 0 = 0")
    case True
    then obtain rest where t: "it_table iter = 0 # rest" by (cases "it_table iter") auto
    have "it_locals_size iter \<le> int (it_max_locals iter)" using it_inv_sizes [OF iter(1)] by simp
    then have "stack_map_frame_iterator_next iter =
        Inr (iter\<lparr>it_table := rest, it_stack_size := 0, it_has_next := rest \<noteq> [], it_is_first := False\<rparr>)"
      using iter t by (simp add: stack_map_frame_iterator_next_def read_frame_def increment_pc_def)
    then show ?thesis using iter True init by (simp add: skip_zero_frame_def)
  next
    case False
    then have "skip_zero_frame iter = Inr iter" by (auto simp: skip_zero_frame_def)
    then show ?thesis using iter init by simp
  qed
qed

definition sample_method :: cp_method where
  "sample_method = \<lparr>m_access_flags = 0, m_name = ''f'', m_unparsed_descriptor = ''(JI)V'',
     m_descriptor = \<lparr>args = [\<lparr>base_kind = TYPE_KIND_LONG, repr_kind = TYPE_KIND_LONG, dimensions = 0,
         class_name = None, unparsed = ''J''\<rparr>,
       \<lparr>base_kind = TYPE_KIND_INT, repr_kind = TYPE_KIND_INT, dimensions = 0, class_name = None, unparsed = ''I''\<rparr>],
       return_type = \<lparr>base_kind = TYPE_KIND_VOID, repr_kind = TYPE_KIND_VOID, dimensions = 0,
         class_name = None, unparsed = ''V''\<rparr>\<rparr>,
     m_attributes = [], m_code = None, m_missing_smt = False, m_is_signature_polymorphic = False,
     m_is_ctor = False, m_is_clinit = False, m_my_index = 0\<rparr>"

theorem stack_map_init_entry_types_witness:
  "\<exists>iter. stack_map_frame_iterator_init ''C'' sample_method (Attribute_code 1 4 0 0 [] None None None []) = Inr iter \<and>
    it_inv iter (entry_types ''C'' sample_method)"
  using stack_map_init_entry_types [of "''C''" sample_method "Attribute_code 1 4 0 0 [] None None None []"]
  by (auto simp: entry_types_def this_types_def arg_types_def sample_method_def slots_def wide_type_def)

end
