(* ===== verification/Analysis.thy ===== *)
theory Analysis
  imports Stack_Map_Table "HOL-Library.Multiset"
begin

text \<open>
  Model of the first half of \<open>vm/analysis.c\<close>: the abstract interpretation that runs over the code of
  a method when its class is linked. It checks the types on the operand stack and in the locals,
  renumbers the locals so that a long or a double takes one slot, rewrites the stack instructions
  whose operands are wide, and records for every instruction the reduced kind of the top of the
  stack (by which the interpreter chooses its handler), the stack depth and the types of all
  slots (which the collector scans). The \<open>source\<close> of an entry, which only serves the text of a
  \<open>NullPointerException\<close>, is left out of the entries. The operand stack is a list with its top
  first; the states saved for an instruction are in the order of the C arrays, bottom first.
\<close>

section \<open>Types\<close>

datatype reduced_tos_kind = TOS_VOID | TOS_DOUBLE | TOS_INT | TOS_FLOAT

text \<open>The fields that the analysis fills in. \<open>delta\<close> shares a struct with \<open>index\<close>.\<close>

record analyzed_insn = bytecode_insn +
  tos_before :: reduced_tos_kind
  tos_after :: reduced_tos_kind
  delta :: int

definition sizeof_bytecode_insn :: int where
  "sizeof_bytecode_insn = 32"

definition fresh_insn :: "bytecode_insn \<Rightarrow> analyzed_insn" where
  "fresh_insn i = bytecode_insn.extend i (analyzed_insn.fields TOS_VOID TOS_VOID 0)"

type_synonym type_state = "type_kind list"

record method_analysis_ctx =
  an_stack :: type_state
  an_stack_cap :: nat
  an_locals :: type_state
  an_swizzle :: "int list"
  an_edges :: "(nat \<times> nat) list"
  an_known_stacks :: "type_state option list option"
  an_known_locals :: "type_state option list option"
  an_changed :: bool

text \<open>\<open>Insn_error\<close> is a message returned to the caller. The last three stop the process: a failed
  \<open>CHECK\<close>, an \<open>UNREACHABLE\<close>, and an array access out of bounds.\<close>

datatype analysis_error =
    Insn_error string
  | Smt_failure smt_error
  | Cp_failure format_error
  | Locals_failure
  | Lvt_failure
  | Check_failed
  | Reached_unreachable
  | Bad_index

section \<open>Locals on entry\<close>

definition is_kind_wide :: "type_kind \<Rightarrow> bool" where
  "is_kind_wide k \<longleftrightarrow> k = TYPE_KIND_LONG \<or> k = TYPE_KIND_DOUBLE"

definition is_field_wide :: "field_descriptor \<Rightarrow> bool" where
  "is_field_wide d \<longleftrightarrow> is_kind_wide (base_kind d) \<and> dimensions d = 0"

text \<open>The loop over the arguments; \<open>n\<close> is \<open>!is_static\<close>. Running out of locals before the last
  argument is the jump to \<open>fail\<close>.\<close>

fun args_to_locals ::
    "field_descriptor list \<Rightarrow> nat \<Rightarrow> nat \<Rightarrow> nat \<Rightarrow> nat \<Rightarrow> type_state \<Rightarrow> int list \<Rightarrow> (type_state \<times> int list) option" where
  "args_to_locals [] n maxl i j entries swizzle = Some (entries, swizzle)"
| "args_to_locals (arg # rest) n maxl i j entries swizzle =
     (if j \<ge> maxl then None
      else if is_field_wide arg \<and> j + 1 \<ge> maxl then None
      else args_to_locals rest n maxl (i + 1) (if is_field_wide arg then j + 2 else j + 1)
             (entries[i + n := repr_kind arg]) (swizzle[j := int (i + n)]))"

text \<open>The last loop gives the locals that no argument took the next free indices.\<close>

fun map_rest :: "int \<Rightarrow> int list \<Rightarrow> int list" where
  "map_rest k [] = []"
| "map_rest k (x # xs) = (if x = -1 then k # map_rest (k + 1) xs else x # map_rest k xs)"

definition method_is_static :: "cp_method \<Rightarrow> bool" where
  "method_is_static method \<longleftrightarrow> m_access_flags method AND ACCESS_STATIC \<noteq> 0"

definition locals_on_method_entry :: "cp_method \<Rightarrow> nat \<Rightarrow> (type_state \<times> int list) option" where
  "locals_on_method_entry method maxl =
     (let is_static = method_is_static method;
          n = (if is_static then 0 else 1);
          entries = replicate maxl TYPE_KIND_VOID;
          swizzle = replicate maxl (-1)
      in if \<not> is_static \<and> maxl = 0 then None
         else
           (case args_to_locals (args (m_descriptor method)) n maxl 0 n
                   (if is_static then entries else entries[0 := TYPE_KIND_REFERENCE])
                   (if is_static then swizzle else swizzle[0 := 0]) of
              None \<Rightarrow> None
            | Some (entries, swizzle) \<Rightarrow>
                Some (entries, map_rest (int (length (args (m_descriptor method)) + n)) swizzle)))"

section \<open>Merging states\<close>

text \<open>The new value of \<open>*dst\<close> and whether \<open>ctx->changed\<close> is set.\<close>

definition merge_kind :: "type_kind \<Rightarrow> type_kind \<Rightarrow> type_kind" where
  "merge_kind d s = (if d \<noteq> s \<and> d \<noteq> TYPE_KIND_VOID then TYPE_KIND_VOID else d)"

definition kind_changes :: "type_kind \<Rightarrow> type_kind \<Rightarrow> bool" where
  "kind_changes d s \<longleftrightarrow> d \<noteq> s \<and> d \<noteq> TYPE_KIND_VOID"

definition intersect_analy_stack_state :: "type_state option \<Rightarrow> type_state \<Rightarrow> type_state option \<times> bool" where
  "intersect_analy_stack_state dst src =
     (case dst of
        None \<Rightarrow> (Some src, True)
      | Some d \<Rightarrow> (Some (map2 merge_kind d src), list_ex (case_prod kind_changes) (zip d src)))"

text \<open>Intersecting into entry \<open>i\<close> of one of the arrays \<open>known_stacks\<close> and \<open>known_locals\<close>. The callers
  only use indices of instructions of the method.\<close>

definition intersect_at :: "nat \<Rightarrow> type_state \<Rightarrow> type_state option list \<Rightarrow> type_state option list \<times> bool" where
  "intersect_at i src known =
     (if i < length known
      then (case intersect_analy_stack_state (known ! i) src of (d, c) \<Rightarrow> (known[i := d], c))
      else (known, False))"

definition intersect_stack :: "nat \<Rightarrow> type_state \<Rightarrow> method_analysis_ctx \<Rightarrow> method_analysis_ctx" where
  "intersect_stack i src ctx =
     (case an_known_stacks ctx of
        None \<Rightarrow> ctx
      | Some known \<Rightarrow>
          (case intersect_at i src known of
             (known, c) \<Rightarrow> ctx\<lparr>an_known_stacks := Some known, an_changed := an_changed ctx \<or> c\<rparr>))"

definition intersect_locals :: "nat \<Rightarrow> type_state \<Rightarrow> method_analysis_ctx \<Rightarrow> method_analysis_ctx" where
  "intersect_locals i src ctx =
     (case an_known_locals ctx of
        None \<Rightarrow> ctx
      | Some known \<Rightarrow>
          (case intersect_at i src known of
             (known, c) \<Rightarrow> ctx\<lparr>an_known_locals := Some known, an_changed := an_changed ctx \<or> c\<rparr>))"

text \<open>In the mode with a \<open>StackMapTable\<close> both arrays are null and only the edge is recorded. The
  first check is a \<open>DCHECK\<close>: the parser has put every target inside the code.\<close>

definition push_branch_target ::
    "nat \<Rightarrow> nat \<Rightarrow> nat \<Rightarrow> method_analysis_ctx \<Rightarrow> analysis_error + method_analysis_ctx" where
  "push_branch_target insn_count start target ctx =
     (if target \<ge> insn_count then Inl Check_failed
      else let ctx = ctx\<lparr>an_edges := an_edges ctx @ [(start, target)]\<rparr>
      in Inr (if an_known_stacks ctx \<noteq> None
              then intersect_locals target (an_locals ctx)
                     (intersect_stack target (rev (an_stack ctx)) ctx)
              else ctx))"

fun push_branch_targets ::
    "nat \<Rightarrow> nat \<Rightarrow> nat list \<Rightarrow> method_analysis_ctx \<Rightarrow> analysis_error + method_analysis_ctx" where
  "push_branch_targets insn_count start [] ctx = Inr ctx"
| "push_branch_targets insn_count start (t # ts) ctx =
     rbind (push_branch_target insn_count start t ctx) (push_branch_targets insn_count start ts)"

section \<open>The kind of the top of the stack\<close>

fun reduce_kind :: "type_kind \<Rightarrow> analysis_error + reduced_tos_kind" where
  "reduce_kind TYPE_KIND_FLOAT = Inr TOS_FLOAT"
| "reduce_kind TYPE_KIND_DOUBLE = Inr TOS_DOUBLE"
| "reduce_kind TYPE_KIND_VOID = Inl Reached_unreachable"
| "reduce_kind _ = Inr TOS_INT"

fun calculate_tos_type :: "type_state \<Rightarrow> analysis_error + reduced_tos_kind" where
  "calculate_tos_type [] = Inr TOS_VOID"
| "calculate_tos_type (k # _) = reduce_kind k"

definition calculate_local_modifying_insn_delta :: "nat \<Rightarrow> u32 \<Rightarrow> int" where
  "calculate_local_modifying_insn_delta maxl index = int maxl - sint index"

definition calculate_branch_delta :: "u32 \<Rightarrow> nat \<Rightarrow> int" where
  "calculate_branch_delta index curr_index = (sint index - int curr_index) * sizeof_bytecode_insn"

section \<open>One instruction\<close>

text \<open>\<open>POP_VAL\<close>, \<open>POP_KIND\<close> and \<open>PUSH_ENTRY\<close>. A \<open>void\<close> entry is not pushed, and the parser never
  leaves a \<open>boolean\<close> as the kind of a descriptor.\<close>

fun pop_val :: "type_state \<Rightarrow> analysis_error + (type_kind \<times> type_state)" where
  "pop_val [] = Inl (Insn_error ''Stack underflow:'')"
| "pop_val (k # st) = Inr (k, st)"

definition pop_kind :: "type_kind \<Rightarrow> type_state \<Rightarrow> analysis_error + type_state" where
  "pop_kind k st =
     rbind (pop_val st) (\<lambda>(k', st). if k \<noteq> k' then Inl (Insn_error ''Stack type mismatch:'') else Inr st)"

fun pop_kinds :: "type_kind list \<Rightarrow> type_state \<Rightarrow> analysis_error + type_state" where
  "pop_kinds [] st = Inr st"
| "pop_kinds (k # ks) st = rbind (pop_kind k st) (pop_kinds ks)"

definition push_entry :: "nat \<Rightarrow> type_kind \<Rightarrow> type_state \<Rightarrow> analysis_error + type_state" where
  "push_entry cap k st =
     (if length st = cap then Inl (Insn_error ''Stack overflow:'')
      else if k = TYPE_KIND_VOID then Inr st
      else if k = TYPE_KIND_BOOLEAN then Inl Reached_unreachable
      else Inr (k # st))"

fun push_entries :: "nat \<Rightarrow> type_kind list \<Rightarrow> type_state \<Rightarrow> analysis_error + type_state" where
  "push_entries cap [] st = Inr st"
| "push_entries cap (k # ks) st = rbind (push_entry cap k st) (push_entries cap ks)"

text \<open>The cases that pop fixed kinds, push fixed kinds, and end the state or not: the kinds of the
  group, what it pops, what it pushes, and whether it sets \<open>state_terminated\<close>.\<close>

abbreviation (input) I :: type_kind where "I \<equiv> TYPE_KIND_INT"
abbreviation (input) L :: type_kind where "L \<equiv> TYPE_KIND_LONG"
abbreviation (input) F :: type_kind where "F \<equiv> TYPE_KIND_FLOAT"
abbreviation (input) D :: type_kind where "D \<equiv> TYPE_KIND_DOUBLE"
abbreviation (input) R :: type_kind where "R \<equiv> TYPE_KIND_REFERENCE"

type_synonym effect = "type_kind list \<times> type_kind list \<times> bool"

definition array_effects :: "(insn_code_kind list \<times> effect) list" where
  "array_effects =
     [([insn_nop, insn_ret], [], [], False),
      ([insn_aaload], [I, R], [R], False),
      ([insn_aastore], [R, I, R], [], False),
      ([insn_arraylength], [R], [I], False),
      ([insn_baload, insn_caload, insn_saload, insn_iaload], [I, R], [I], False),
      ([insn_bastore, insn_castore, insn_sastore, insn_iastore], [I, I, R], [], False),
      ([insn_daload], [I, R], [D], False),
      ([insn_dastore], [D, I, R], [], False),
      ([insn_faload], [I, R], [F], False),
      ([insn_fastore], [F, I, R], [], False),
      ([insn_laload], [I, R], [L], False),
      ([insn_lastore], [L, I, R], [], False)]"

definition convert_effects :: "(insn_code_kind list \<times> effect) list" where
  "convert_effects =
     [([insn_d2f], [D], [F], False),
      ([insn_d2i], [D], [I], False),
      ([insn_d2l], [D], [L], False),
      ([insn_f2d], [F], [D], False),
      ([insn_f2i], [F], [I], False),
      ([insn_f2l], [F], [L], False),
      ([insn_i2b, insn_i2c, insn_i2s], [I], [I], False),
      ([insn_i2d], [I], [D], False),
      ([insn_i2f], [I], [F], False),
      ([insn_i2l], [I], [L], False),
      ([insn_l2d], [L], [D], False),
      ([insn_l2f], [L], [F], False),
      ([insn_l2i], [L], [I], False)]"

definition arith_effects :: "(insn_code_kind list \<times> effect) list" where
  "arith_effects =
     [([insn_dadd, insn_ddiv, insn_dmul, insn_drem, insn_dsub], [D, D], [D], False),
      ([insn_dcmpg, insn_dcmpl], [D, D], [I], False),
      ([insn_dneg], [D], [D], False),
      ([insn_fadd, insn_fdiv, insn_fmul, insn_frem, insn_fsub], [F, F], [F], False),
      ([insn_fcmpg, insn_fcmpl], [F, F], [I], False),
      ([insn_fneg], [F], [F], False),
      ([insn_iadd, insn_iand, insn_idiv, insn_imul, insn_irem, insn_ior, insn_ishl, insn_ishr,
        insn_isub, insn_ixor, insn_iushr], [I, I], [I], False),
      ([insn_ineg], [I], [I], False),
      ([insn_ladd, insn_land, insn_ldiv, insn_lmul, insn_lor, insn_lrem, insn_lsub, insn_lxor],
       [L, L], [L], False),
      ([insn_lshl, insn_lshr, insn_lushr], [I, L], [L], False),
      ([insn_lcmp], [L, L], [I], False),
      ([insn_lneg], [L], [L], False)]"

definition misc_effects :: "(insn_code_kind list \<times> effect) list" where
  "misc_effects =
     [([insn_aconst_null], [], [R], False),
      ([insn_areturn], [R], [], True),
      ([insn_athrow], [R], [], True),
      ([insn_dreturn], [D], [], True),
      ([insn_freturn], [F], [], True),
      ([insn_ireturn], [I], [], True),
      ([insn_lreturn], [L], [], True),
      ([insn_return], [], [], True),
      ([insn_monitorenter, insn_monitorexit], [R], [], False),
      ([insn_anewarray, insn_newarray], [I], [R], False),
      ([insn_checkcast], [R], [R], False),
      ([insn_instanceof], [R], [I], False),
      ([insn_new, insn_ldc], [], [R], False),
      ([insn_iconst], [], [I], False),
      ([insn_dconst], [], [D], False),
      ([insn_fconst], [], [F], False),
      ([insn_lconst], [], [L], False)]"

definition effects_of :: "(insn_code_kind list \<times> effect) list \<Rightarrow> (insn_code_kind \<times> effect) list" where
  "effects_of groups = concat (map (\<lambda>(ks, e). map (\<lambda>k. (k, e)) ks) groups)"

definition plain_effects :: "(insn_code_kind \<times> effect) list" where
  "plain_effects = effects_of (array_effects @ convert_effects @ arith_effects @ misc_effects)"

text \<open>The stack instructions that do not look at the kinds beyond their width, and what they are
  rewritten to when an operand is wide.\<close>

definition mismatch :: "analysis_error + 'a" where
  "mismatch = Inl (Insn_error ''Stack type mismatch:'')"

definition push_rewrite ::
    "nat \<Rightarrow> type_kind list \<Rightarrow> type_state \<Rightarrow> insn_code_kind \<Rightarrow> analysis_error + (insn_code_kind \<times> type_state)" where
  "push_rewrite cap ks st k = rbind (push_entries cap ks st) (\<lambda>st. Inr (k, st))"

definition analyze_dup :: "nat \<Rightarrow> type_state \<Rightarrow> analysis_error + (insn_code_kind \<times> type_state)" where
  "analyze_dup cap st = rbind (pop_val st) (\<lambda>(k, _). push_rewrite cap [k] st insn_dup)"

definition analyze_dup_x1 :: "nat \<Rightarrow> type_state \<Rightarrow> analysis_error + (insn_code_kind \<times> type_state)" where
  "analyze_dup_x1 cap st =
     rbind (pop_val st) (\<lambda>(k1, st). rbind (pop_val st) (\<lambda>(k2, st).
     if is_kind_wide k1 \<or> is_kind_wide k2 then mismatch
     else push_rewrite cap [k1, k2, k1] st insn_dup_x1))"

definition analyze_dup_x2 :: "nat \<Rightarrow> type_state \<Rightarrow> analysis_error + (insn_code_kind \<times> type_state)" where
  "analyze_dup_x2 cap st =
     rbind (pop_val st) (\<lambda>(to_dup, st). rbind (pop_val st) (\<lambda>(kind2, st).
     if is_kind_wide to_dup then mismatch
     else if is_kind_wide kind2 then push_rewrite cap [to_dup, kind2, to_dup] st insn_dup_x1
     else rbind (pop_val st) (\<lambda>(kind3, st).
       push_rewrite cap [to_dup, kind3, kind2, to_dup] st insn_dup_x2)))"

definition analyze_dup2 :: "nat \<Rightarrow> type_state \<Rightarrow> analysis_error + (insn_code_kind \<times> type_state)" where
  "analyze_dup2 cap st =
     rbind (pop_val st) (\<lambda>(to_dup, st).
     if is_kind_wide to_dup then push_rewrite cap [to_dup, to_dup] st insn_dup
     else rbind (pop_val st) (\<lambda>(kind2, st).
       if is_kind_wide kind2 then mismatch
       else push_rewrite cap [kind2, to_dup, kind2, to_dup] st insn_dup2))"

definition analyze_dup2_x1 :: "nat \<Rightarrow> type_state \<Rightarrow> analysis_error + (insn_code_kind \<times> type_state)" where
  "analyze_dup2_x1 cap st =
     rbind (pop_val st) (\<lambda>(to_dup, st). rbind (pop_val st) (\<lambda>(kind2, st).
     if is_kind_wide to_dup then push_rewrite cap [to_dup, kind2, to_dup] st insn_dup_x1
     else rbind (pop_val st) (\<lambda>(kind3, st).
       if is_kind_wide kind3 then mismatch
       else push_rewrite cap [kind2, to_dup, kind3, kind2, to_dup] st insn_dup2_x1)))"

definition analyze_dup2_x2 :: "nat \<Rightarrow> type_state \<Rightarrow> analysis_error + (insn_code_kind \<times> type_state)" where
  "analyze_dup2_x2 cap st =
     rbind (pop_val st) (\<lambda>(to_dup, st). rbind (pop_val st) (\<lambda>(kind2, st).
     if is_kind_wide to_dup then
       (if is_kind_wide kind2 then push_rewrite cap [to_dup, kind2, to_dup] st insn_dup_x1
        else rbind (pop_val st) (\<lambda>(kind3, st).
          if is_kind_wide kind3 then mismatch
          else push_rewrite cap [to_dup, kind3, kind2, to_dup] st insn_dup_x2))
     else rbind (pop_val st) (\<lambda>(kind3, st).
       if is_kind_wide kind3 then push_rewrite cap [kind2, to_dup, kind3, kind2, to_dup] st insn_dup2_x1
       else rbind (pop_val st) (\<lambda>(kind4, st).
         if is_kind_wide kind4 then mismatch
         else push_rewrite cap [kind2, to_dup, kind4, kind3, kind2, to_dup] st insn_dup2_x2))))"

definition analyze_pop :: "nat \<Rightarrow> type_state \<Rightarrow> analysis_error + (insn_code_kind \<times> type_state)" where
  "analyze_pop cap st =
     rbind (pop_val st) (\<lambda>(k, st). if is_kind_wide k then mismatch else Inr (insn_pop, st))"

definition analyze_pop2 :: "nat \<Rightarrow> type_state \<Rightarrow> analysis_error + (insn_code_kind \<times> type_state)" where
  "analyze_pop2 cap st =
     rbind (pop_val st) (\<lambda>(k, st).
     if \<not> is_kind_wide k then
       rbind (pop_val st) (\<lambda>(k2, st). if is_kind_wide k2 then mismatch else Inr (insn_pop2, st))
     else Inr (insn_pop, st))"

definition analyze_swap :: "nat \<Rightarrow> type_state \<Rightarrow> analysis_error + (insn_code_kind \<times> type_state)" where
  "analyze_swap cap st =
     rbind (pop_val st) (\<lambda>(k1, st). rbind (pop_val st) (\<lambda>(k2, st).
     if is_kind_wide k1 \<or> is_kind_wide k2 then mismatch
     else push_rewrite cap [k1, k2] st insn_swap))"

definition stack_insns ::
    "(insn_code_kind \<times> (nat \<Rightarrow> type_state \<Rightarrow> analysis_error + (insn_code_kind \<times> type_state))) list" where
  "stack_insns =
     [(insn_dup, analyze_dup), (insn_dup_x1, analyze_dup_x1), (insn_dup_x2, analyze_dup_x2),
      (insn_dup2, analyze_dup2), (insn_dup2_x1, analyze_dup2_x1), (insn_dup2_x2, analyze_dup2_x2),
      (insn_pop, analyze_pop), (insn_pop2, analyze_pop2), (insn_swap, analyze_swap)]"

text \<open>Local accesses. \<open>SWIZZLE_LOCAL\<close> checks the index and, in the last pass, replaces it by the new
  one; before that pass \<open>LOCAL_INDEX\<close> looks it up instead. Either way the entry is the swizzled one.\<close>

definition swizzled_index :: "nat \<Rightarrow> nat \<Rightarrow> method_analysis_ctx \<Rightarrow> analysis_error + nat" where
  "swizzled_index maxl i ctx =
     (if i \<ge> maxl then Inl (Insn_error ''Local overflow:'')
      else if i \<ge> length (an_swizzle ctx) \<or> nat (an_swizzle ctx ! i) \<ge> length (an_locals ctx)
      then Inl Bad_index
      else Inr (nat (an_swizzle ctx ! i)))"

definition local_insn :: "nat \<Rightarrow> bool \<Rightarrow> analyzed_insn \<Rightarrow> u32 \<Rightarrow> nat \<Rightarrow> analyzed_insn" where
  "local_insn maxl do_rewrite insn index li =
     (let index = (if do_rewrite then word_of_nat li else index)
      in insn\<lparr>operand := Index index, delta := calculate_local_modifying_insn_delta maxl index\<rparr>)"

type_synonym insn_result = "analysis_error + (analyzed_insn \<times> method_analysis_ctx \<times> bool)"

definition analyze_load ::
    "nat \<Rightarrow> bool \<Rightarrow> type_kind \<Rightarrow> analyzed_insn \<Rightarrow> u32 \<Rightarrow> method_analysis_ctx \<Rightarrow> insn_result" where
  "analyze_load maxl do_rewrite k insn index ctx =
     rbind (swizzled_index maxl (unat index) ctx) (\<lambda>li.
     rbind (push_entry (an_stack_cap ctx) (an_locals ctx ! li) (an_stack ctx)) (\<lambda>st.
     if an_locals ctx ! li \<noteq> k then Inl (Insn_error ''Local type mismatch:'')
     else Inr (local_insn maxl do_rewrite insn index li, ctx\<lparr>an_stack := st\<rparr>, False)))"

definition analyze_store ::
    "nat \<Rightarrow> bool \<Rightarrow> type_kind \<Rightarrow> analyzed_insn \<Rightarrow> u32 \<Rightarrow> method_analysis_ctx \<Rightarrow> insn_result" where
  "analyze_store maxl do_rewrite k insn index ctx =
     rbind (pop_kind k (an_stack ctx)) (\<lambda>st.
     rbind (swizzled_index maxl (unat index) ctx) (\<lambda>li.
     Inr (local_insn maxl do_rewrite insn index li,
          ctx\<lparr>an_stack := st, an_locals := (an_locals ctx)[li := k]\<rparr>, False)))"

definition analyze_iinc ::
    "nat \<Rightarrow> bool \<Rightarrow> analyzed_insn \<Rightarrow> u16 \<Rightarrow> int \<Rightarrow> method_analysis_ctx \<Rightarrow> insn_result" where
  "analyze_iinc maxl do_rewrite insn index c ctx =
     rbind (swizzled_index maxl (unat index) ctx) (\<lambda>li.
     Inr (if do_rewrite then insn\<lparr>operand := Iinc (word_of_nat li) c\<rparr> else insn, ctx, False))"

definition load_kinds :: "(insn_code_kind \<times> type_kind) list" where
  "load_kinds = [(insn_dload, D), (insn_fload, F), (insn_iload, I), (insn_lload, L), (insn_aload, R)]"

definition store_kinds :: "(insn_code_kind \<times> type_kind) list" where
  "store_kinds = [(insn_dstore, D), (insn_fstore, F), (insn_istore, I), (insn_lstore, L), (insn_astore, R)]"

text \<open>Branches: what is popped, and whether control may fall through.\<close>

definition branch_effects :: "(insn_code_kind \<times> type_kind list \<times> bool) list" where
  "branch_effects =
     (insn_goto, [], True) #
     map (\<lambda>k. (k, [R, R], False)) [insn_if_acmpeq, insn_if_acmpne] @
     map (\<lambda>k. (k, [I, I], False))
       [insn_if_icmpeq, insn_if_icmpne, insn_if_icmplt, insn_if_icmpge, insn_if_icmpgt, insn_if_icmple] @
     map (\<lambda>k. (k, [I], False)) [insn_ifeq, insn_ifne, insn_iflt, insn_ifge, insn_ifgt, insn_ifle] @
     map (\<lambda>k. (k, [R], False)) [insn_ifnonnull, insn_ifnull]"

definition analyze_branch ::
    "nat \<Rightarrow> nat \<Rightarrow> type_kind list \<Rightarrow> bool \<Rightarrow> analyzed_insn \<Rightarrow> u32 \<Rightarrow> method_analysis_ctx \<Rightarrow> insn_result" where
  "analyze_branch insn_count insn_index pops terminates insn index ctx =
     rbind (pop_kinds pops (an_stack ctx)) (\<lambda>st.
     rbind (push_branch_target insn_count insn_index (unat index) (ctx\<lparr>an_stack := st\<rparr>)) (\<lambda>ctx.
     Inr (insn\<lparr>delta := calculate_branch_delta index insn_index\<rparr>, ctx, terminates)))"

definition analyze_jsr :: "nat \<Rightarrow> nat \<Rightarrow> analyzed_insn \<Rightarrow> u32 \<Rightarrow> method_analysis_ctx \<Rightarrow> insn_result" where
  "analyze_jsr insn_count insn_index insn index ctx =
     rbind (push_entry (an_stack_cap ctx) R (an_stack ctx)) (\<lambda>st.
     rbind (push_branch_target insn_count insn_index (unat index) (ctx\<lparr>an_stack := st\<rparr>)) (\<lambda>ctx.
     Inr (insn, ctx, False)))"

definition analyze_switch ::
    "nat \<Rightarrow> nat \<Rightarrow> analyzed_insn \<Rightarrow> int list \<Rightarrow> method_analysis_ctx \<Rightarrow> insn_result" where
  "analyze_switch insn_count insn_index insn targets ctx =
     rbind (pop_kind I (an_stack ctx)) (\<lambda>st.
     rbind (push_branch_targets insn_count insn_index (map nat targets) (ctx\<lparr>an_stack := st\<rparr>)) (\<lambda>ctx.
     Inr (insn, ctx, True)))"

text \<open>Members. The pops of an \<open>invoke\<close> run over the arguments backwards and end with the receiver.\<close>

definition with_stack :: "analyzed_insn \<Rightarrow> method_analysis_ctx \<Rightarrow> analysis_error + type_state \<Rightarrow> insn_result" where
  "with_stack insn ctx r = rbind r (\<lambda>st. Inr (insn, ctx\<lparr>an_stack := st\<rparr>, False))"

definition entry_at :: "constant_pool \<Rightarrow> nat \<Rightarrow> u32 \<Rightarrow> string \<Rightarrow> analysis_error + cp_info" where
  "entry_at pool i kinds reason =
     (if i \<ge> length pool then Inl Bad_index
      else case check_cp_entry (pool ! i) kinds reason of
             Inl e \<Rightarrow> Inl (Cp_failure e)
           | Inr ent \<Rightarrow> Inr (info ent))"

fun field_of :: "cp_info \<Rightarrow> analysis_error + field_descriptor" where
  "field_of (Cp_field_ref _ _ (Some d)) = Inr d"
| "field_of _ = Inl Reached_unreachable"

fun method_of :: "cp_info \<Rightarrow> analysis_error + method_descriptor" where
  "method_of (Cp_method_ref _ _ (Some d)) = Inr d"
| "method_of (Cp_interface_method_ref _ _ (Some d)) = Inr d"
| "method_of (Cp_invoke_dynamic _ _ (Some d)) = Inr d"
| "method_of _ = Inl Reached_unreachable"

definition call_effect :: "nat \<Rightarrow> bool \<Rightarrow> method_descriptor \<Rightarrow> type_state \<Rightarrow> analysis_error + type_state" where
  "call_effect cap has_this d st =
     rbind (pop_kinds (rev (map repr_kind (args d)) @ (if has_this then [R] else [])) st) (\<lambda>st.
     if base_kind (return_type d) \<noteq> TYPE_KIND_VOID then push_entry cap (repr_kind (return_type d)) st
     else Inr st)"

definition analyze_get :: "constant_pool \<Rightarrow> analyzed_insn \<Rightarrow> nat \<Rightarrow> method_analysis_ctx \<Rightarrow> insn_result" where
  "analyze_get pool insn i ctx =
     with_stack insn ctx
       (rbind (if kind insn = insn_getfield then pop_kind R (an_stack ctx) else Inr (an_stack ctx)) (\<lambda>st.
        rbind (entry_at pool i CP_KIND_FIELD_REF ''getstatic/getfield argument'') (\<lambda>ent.
        rbind (field_of ent) (\<lambda>d. push_entry (an_stack_cap ctx) (repr_kind d) st))))"

definition analyze_put :: "analyzed_insn \<Rightarrow> method_analysis_ctx \<Rightarrow> insn_result" where
  "analyze_put insn ctx =
     with_stack insn ctx
       (rbind (pop_val (an_stack ctx)) (\<lambda>(_, st).
        if kind insn = insn_putfield then pop_kind R st else Inr st))"

definition analyze_invoke :: "constant_pool \<Rightarrow> analyzed_insn \<Rightarrow> nat \<Rightarrow> method_analysis_ctx \<Rightarrow> insn_result" where
  "analyze_invoke pool insn i ctx =
     with_stack insn ctx
       (rbind (entry_at pool i (CP_KIND_METHOD_REF OR CP_KIND_INTERFACE_METHOD_REF) ''invoke* argument'') (\<lambda>ent.
        rbind (method_of ent) (\<lambda>d.
        call_effect (an_stack_cap ctx) (kind insn \<noteq> insn_invokestatic) d (an_stack ctx))))"

definition analyze_invokedynamic ::
    "constant_pool \<Rightarrow> analyzed_insn \<Rightarrow> nat \<Rightarrow> method_analysis_ctx \<Rightarrow> insn_result" where
  "analyze_invokedynamic pool insn i ctx =
     with_stack insn ctx
       (rbind (entry_at pool i CP_KIND_INVOKE_DYNAMIC ''invokedynamic argument'') (\<lambda>ent.
        rbind (method_of ent) (\<lambda>d. call_effect (an_stack_cap ctx) False d (an_stack ctx))))"

definition analyze_multianewarray :: "analyzed_insn \<Rightarrow> u8 \<Rightarrow> method_analysis_ctx \<Rightarrow> insn_result" where
  "analyze_multianewarray insn dims ctx =
     with_stack insn ctx
       (rbind (pop_kinds (replicate (unat dims) I) (an_stack ctx)) (push_entry (an_stack_cap ctx) R))"

definition invoke_kinds :: "insn_code_kind list" where
  "invoke_kinds = [insn_invokespecial, insn_invokevirtual, insn_invokeinterface, insn_invokestatic]"

text \<open>The cases that look at the operand.\<close>

definition analyze_operand ::
    "constant_pool \<Rightarrow> nat \<Rightarrow> nat \<Rightarrow> bool \<Rightarrow> nat \<Rightarrow> analyzed_insn \<Rightarrow> method_analysis_ctx \<Rightarrow> insn_result" where
  "analyze_operand pool maxl insn_count do_rewrite insn_index insn ctx =
     (case operand insn of
        Index index \<Rightarrow>
          (case map_of load_kinds (kind insn) of
             Some k \<Rightarrow> analyze_load maxl do_rewrite k insn index ctx
           | None \<Rightarrow>
         (case map_of store_kinds (kind insn) of
             Some k \<Rightarrow> analyze_store maxl do_rewrite k insn index ctx
           | None \<Rightarrow>
         (case map_of branch_effects (kind insn) of
             Some (pops, terminates) \<Rightarrow> analyze_branch insn_count insn_index pops terminates insn index ctx
           | None \<Rightarrow>
          if kind insn = insn_jsr then analyze_jsr insn_count insn_index insn index ctx
          else Inl Reached_unreachable)))
      | Iinc index c \<Rightarrow>
          if kind insn = insn_iinc then analyze_iinc maxl do_rewrite insn index c ctx
          else Inl Reached_unreachable
      | Tableswitch d \<Rightarrow>
          if kind insn = insn_tableswitch
          then analyze_switch insn_count insn_index insn (ts_default_target d # ts_targets d) ctx
          else Inl Reached_unreachable
      | Lookupswitch d \<Rightarrow>
          if kind insn = insn_lookupswitch
          then analyze_switch insn_count insn_index insn (ls_default_target d # ls_targets d) ctx
          else Inl Reached_unreachable
      | Multianewarray _ dims \<Rightarrow>
          if kind insn = insn_multianewarray then analyze_multianewarray insn dims ctx
          else Inl Reached_unreachable
      | Cp i \<Rightarrow>
          if kind insn \<in> {insn_getfield, insn_getstatic} then analyze_get pool insn i ctx
          else if kind insn \<in> {insn_putfield, insn_putstatic} then analyze_put insn ctx
          else if kind insn \<in> set invoke_kinds then analyze_invoke pool insn i ctx
          else if kind insn = insn_invokedynamic then analyze_invokedynamic pool insn i ctx
          else Inl Reached_unreachable
      | _ \<Rightarrow> Inl Reached_unreachable)"

text \<open>The switch of \<open>analyze_instruction\<close>.\<close>

definition analyze_switch_kind ::
    "constant_pool \<Rightarrow> nat \<Rightarrow> nat \<Rightarrow> bool \<Rightarrow> nat \<Rightarrow> analyzed_insn \<Rightarrow> method_analysis_ctx \<Rightarrow> insn_result" where
  "analyze_switch_kind pool maxl insn_count do_rewrite insn_index insn ctx =
     (case map_of plain_effects (kind insn) of
        Some (pops, pushes, terminates) \<Rightarrow>
          rbind (pop_kinds pops (an_stack ctx)) (\<lambda>st.
          rbind (push_entries (an_stack_cap ctx) pushes st) (\<lambda>st.
          Inr (insn, ctx\<lparr>an_stack := st\<rparr>, terminates)))
      | None \<Rightarrow>
     (case map_of stack_insns (kind insn) of
        Some f \<Rightarrow>
          rbind (f (an_stack_cap ctx) (an_stack ctx)) (\<lambda>(k, st).
          Inr (if do_rewrite then insn\<lparr>kind := k\<rparr> else insn, ctx\<lparr>an_stack := st\<rparr>, False))
      | None \<Rightarrow> analyze_operand pool maxl insn_count do_rewrite insn_index insn ctx))"

definition analyze_instruction ::
    "constant_pool \<Rightarrow> nat \<Rightarrow> nat \<Rightarrow> bool \<Rightarrow> nat \<Rightarrow> analyzed_insn \<Rightarrow> method_analysis_ctx \<Rightarrow> insn_result" where
  "analyze_instruction pool maxl insn_count do_rewrite insn_index insn ctx =
     rbind (calculate_tos_type (an_stack ctx)) (\<lambda>before.
     rbind (analyze_switch_kind pool maxl insn_count do_rewrite insn_index (insn\<lparr>tos_before := before\<rparr>) ctx)
       (\<lambda>(insn, ctx, terminated).
     rbind (calculate_tos_type (an_stack ctx)) (\<lambda>after.
     Inr (insn\<lparr>tos_after := after\<rparr>, ctx, terminated))))"

section \<open>Frames and exception handlers\<close>

definition validation_type_kind_to_representation :: "u8 \<Rightarrow> analysis_error + type_kind" where
  "validation_type_kind_to_representation k =
     (if k = STACK_MAP_FRAME_VALIDATION_TYPE_INTEGER then Inr TYPE_KIND_INT
      else if k = STACK_MAP_FRAME_VALIDATION_TYPE_FLOAT then Inr TYPE_KIND_FLOAT
      else if k = STACK_MAP_FRAME_VALIDATION_TYPE_LONG then Inr TYPE_KIND_LONG
      else if k = STACK_MAP_FRAME_VALIDATION_TYPE_DOUBLE then Inr TYPE_KIND_DOUBLE
      else if k \<in> {STACK_MAP_FRAME_VALIDATION_TYPE_OBJECT, STACK_MAP_FRAME_VALIDATION_TYPE_NULL,
                   STACK_MAP_FRAME_VALIDATION_TYPE_UNINIT_THIS, STACK_MAP_FRAME_VALIDATION_TYPE_UNINIT}
      then Inr TYPE_KIND_REFERENCE
      else if k = STACK_MAP_FRAME_VALIDATION_TYPE_TOP then Inr TYPE_KIND_VOID
      else Inl Reached_unreachable)"

fun represent_all :: "validation_type list \<Rightarrow> analysis_error + type_state" where
  "represent_all [] = Inr []"
| "represent_all (v # vs) =
     rbind (validation_type_kind_to_representation (vt_kind v)) (\<lambda>k.
     rbind (represent_all vs) (\<lambda>ks. Inr (k # ks)))"

text \<open>The loop that writes the locals of the frame at their swizzled places; \<open>i\<close> counts them.\<close>

fun place_locals :: "int list \<Rightarrow> nat \<Rightarrow> type_state \<Rightarrow> type_state \<Rightarrow> analysis_error + type_state" where
  "place_locals swizzle i [] locals = Inr locals"
| "place_locals swizzle i (k # ks) locals =
     (if i \<ge> length swizzle \<or> nat (swizzle ! i) \<ge> length locals then Inl Bad_index
      else place_locals swizzle (i + 1) ks (locals[nat (swizzle ! i) := k]))"

definition use_stack_map_frame ::
    "smt_iterator \<Rightarrow> method_analysis_ctx \<Rightarrow> analysis_error + method_analysis_ctx" where
  "use_stack_map_frame iter ctx =
     rbind (represent_all (take (nat (it_stack_size iter)) (it_stack iter))) (\<lambda>st.
     rbind (represent_all (take (nat (it_locals_size iter)) (it_locals iter))) (\<lambda>ls.
     rbind (place_locals (an_swizzle ctx) 0 ls (map (\<lambda>_. TYPE_KIND_VOID) (an_locals ctx))) (\<lambda>locals.
     Inr (ctx\<lparr>an_stack := rev st, an_locals := locals\<rparr>))))"

definition handlers :: "attribute_code \<Rightarrow> exception_table_entry list" where
  "handlers c = (case exception_table c of None \<Rightarrow> [] | Some et \<Rightarrow> et)"

definition fill_exception_handlers :: "attribute_code \<Rightarrow> method_analysis_ctx \<Rightarrow> method_analysis_ctx" where
  "fill_exception_handlers c ctx =
     fold (\<lambda>e. intersect_stack (nat (handler_insn e)) [TYPE_KIND_REFERENCE]) (handlers c) ctx"

definition intersect_exception_handlers ::
    "attribute_code \<Rightarrow> nat \<Rightarrow> method_analysis_ctx \<Rightarrow> method_analysis_ctx" where
  "intersect_exception_handlers c insn_i ctx =
     fold (\<lambda>e ctx. if start_insn e \<le> int insn_i \<and> int insn_i < end_insn e
                   then intersect_locals (nat (handler_insn e)) (an_locals ctx) ctx else ctx)
       (handlers c) ctx"

section \<open>The whole method\<close>

text \<open>What surrounds the analysis of one method: its pool, limits and handlers.\<close>

record analysis_env =
  env_pool :: constant_pool
  env_code :: attribute_code
  env_missing_smt :: bool

definition known_at :: "type_state option list option \<Rightarrow> nat \<Rightarrow> type_state option" where
  "known_at known i =
     (case known of None \<Rightarrow> None | Some xs \<Rightarrow> if i < length xs then xs ! i else None)"

text \<open>The state in which instruction \<open>i\<close> is analysed: the frame of the table at its pc, or, without a
  table, the merge of what is known there.\<close>

definition frame_at_insn ::
    "smt_iterator \<Rightarrow> method_analysis_ctx \<Rightarrow> analysis_error + (smt_iterator \<times> method_analysis_ctx)" where
  "frame_at_insn iter ctx =
     rbind (use_stack_map_frame iter ctx) (\<lambda>ctx.
     if stack_map_frame_iterator_has_next iter
     then (case stack_map_frame_iterator_next iter of
             Inl e \<Rightarrow> Inl (Smt_failure e)
           | Inr iter \<Rightarrow> Inr (iter, ctx))
     else Inr (iter, ctx))"

definition known_at_insn ::
    "attribute_code \<Rightarrow> nat \<Rightarrow> bool \<Rightarrow> method_analysis_ctx \<Rightarrow> analysis_error + method_analysis_ctx" where
  "known_at_insn c i terminated ctx =
     rbind (if terminated
            then (case (known_at (an_known_stacks ctx) i, known_at (an_known_locals ctx) i) of
                    (Some st, Some ls) \<Rightarrow> Inr (ctx\<lparr>an_stack := rev st, an_locals := ls\<rparr>)
                  | _ \<Rightarrow> Inl Check_failed)
            else Inr (intersect_locals i (an_locals ctx) (intersect_stack i (rev (an_stack ctx)) ctx)))
       (\<lambda>ctx. Inr (intersect_exception_handlers c i ctx))"

definition enter_insn ::
    "analysis_env \<Rightarrow> nat \<Rightarrow> analyzed_insn \<Rightarrow> smt_iterator \<Rightarrow> bool \<Rightarrow> method_analysis_ctx \<Rightarrow>
     analysis_error + (smt_iterator \<times> method_analysis_ctx)" where
  "enter_insn env i insn iter terminated ctx =
     (if int (unat (original_pc insn)) = it_pc iter then frame_at_insn iter ctx
      else if env_missing_smt env
      then rbind (known_at_insn (env_code env) i terminated ctx) (\<lambda>ctx. Inr (iter, ctx))
      else Inr (iter, ctx))"

text \<open>\<open>stack_summary\<close>: the types of the stack, bottom first, and of the locals.\<close>

record stack_summary =
  sum_stack :: type_state
  sum_locals :: type_state

definition summary_of :: "method_analysis_ctx \<Rightarrow> stack_summary" where
  "summary_of ctx = \<lparr>sum_stack = rev (an_stack ctx), sum_locals = an_locals ctx\<rparr>"

text \<open>The loop over the instructions from index \<open>i\<close> on.\<close>

fun analyze_insns ::
    "analysis_env \<Rightarrow> bool \<Rightarrow> nat \<Rightarrow> analyzed_insn list \<Rightarrow> smt_iterator \<Rightarrow> bool \<Rightarrow> method_analysis_ctx \<Rightarrow>
     analysis_error + (method_analysis_ctx \<times> (analyzed_insn \<times> stack_summary) list)" where
  "analyze_insns env finished i [] iter terminated ctx = Inr (ctx, [])"
| "analyze_insns env finished i (insn # insns) iter terminated ctx =
     rbind (enter_insn env i insn iter terminated ctx) (\<lambda>(iter, ctx).
     rbind (analyze_instruction (env_pool env) (unat (max_locals (env_code env)))
              (length (code (env_code env))) finished i insn ctx) (\<lambda>(insn', ctx', terminated).
     rbind (analyze_insns env finished (i + 1) insns iter terminated ctx') (\<lambda>(ctx'', rest).
     Inr (ctx'', (insn', summary_of ctx) # rest))))"

text \<open>How much of the known states is still open: the entries that are not filled, then the slots that
  still have a type. A merge that reports a change makes it smaller.\<close>

definition open_slots :: "type_state option list \<Rightarrow> nat" where
  "open_slots known = sum_list (map (\<lambda>k. case k of None \<Rightarrow> 0 | Some st \<Rightarrow> length (filter (\<lambda>t. t \<noteq> TYPE_KIND_VOID) st)) known)"

definition empty_slots :: "type_state option list \<Rightarrow> nat" where
  "empty_slots known = length (filter (\<lambda>k. k = None) known)"

fun known_size :: "type_state option list option \<Rightarrow> nat \<times> nat" where
  "known_size None = (0, 0)"
| "known_size (Some known) = (empty_slots known, open_slots known)"

definition ctx_size :: "method_analysis_ctx \<Rightarrow> nat \<times> nat" where
  "ctx_size ctx =
     (fst (known_size (an_known_stacks ctx)) + fst (known_size (an_known_locals ctx)),
      snd (known_size (an_known_stacks ctx)) + snd (known_size (an_known_locals ctx)))"

definition shrinks :: "(nat \<times> nat) \<Rightarrow> (nat \<times> nat) \<Rightarrow> bool" where
  "shrinks a b \<longleftrightarrow> (a, b) \<in> less_than <*lex*> less_than"

definition settles :: "method_analysis_ctx \<Rightarrow> method_analysis_ctx \<Rightarrow> bool" where
  "settles ctx ctx' \<longleftrightarrow>
     (ctx_size ctx' = ctx_size ctx \<or> shrinks (ctx_size ctx') (ctx_size ctx)) \<and>
     (\<not> an_changed ctx \<and> an_changed ctx' \<longrightarrow> shrinks (ctx_size ctx') (ctx_size ctx)) \<and>
     (an_changed ctx \<longrightarrow> an_changed ctx')"

lemma settles_refl [simp]: "settles ctx ctx"
  by (simp add: settles_def)

lemma shrinks_trans: "shrinks a b \<Longrightarrow> shrinks b c \<Longrightarrow> shrinks a c"
  by (cases a; cases b; cases c) (auto simp: shrinks_def)

lemma settles_trans: "settles a b \<Longrightarrow> settles b c \<Longrightarrow> settles a c"
  unfolding settles_def by (metis shrinks_trans)

lemma settles_stack [simp]:
  "settles ctx (ctx'\<lparr>an_stack := st\<rparr>) = settles ctx ctx'"
  "settles ctx (ctx'\<lparr>an_locals := ls\<rparr>) = settles ctx ctx'"
  "settles ctx (ctx'\<lparr>an_edges := es\<rparr>) = settles ctx ctx'"
  "settles (ctx\<lparr>an_stack := st\<rparr>) ctx' = settles ctx ctx'"
  "settles (ctx\<lparr>an_edges := es\<rparr>) ctx' = settles ctx ctx'"
  "settles (ctx\<lparr>an_locals := ls\<rparr>) ctx' = settles ctx ctx'"
  by (simp_all add: settles_def ctx_size_def)

lemma merge_open:
  "length (filter (\<lambda>t. t \<noteq> TYPE_KIND_VOID) (map2 merge_kind d src)) \<le> length (filter (\<lambda>t. t \<noteq> TYPE_KIND_VOID) d)"
  "list_ex (case_prod kind_changes) (zip d src) \<Longrightarrow>
     length (filter (\<lambda>t. t \<noteq> TYPE_KIND_VOID) (map2 merge_kind d src)) < length (filter (\<lambda>t. t \<noteq> TYPE_KIND_VOID) d)"
proof (induction d src rule: list_induct2')
  case (4 x xs y ys)
  { case 1 then show ?case using 4 by (auto simp: merge_kind_def) }
  { case 2 then show ?case using 4 by (auto simp: merge_kind_def kind_changes_def less_Suc_eq_le) }
qed simp_all

lemma empty_update:
  assumes "i < length known"
  shows "empty_slots (known[i := Some v]) + (if known ! i = None then 1 else 0) = empty_slots known"
    and "open_slots (known[i := k]) + (case known ! i of None \<Rightarrow> 0 | Some st \<Rightarrow> length (filter (\<lambda>t. t \<noteq> TYPE_KIND_VOID) st))
       = open_slots known + (case k of None \<Rightarrow> 0 | Some st \<Rightarrow> length (filter (\<lambda>t. t \<noteq> TYPE_KIND_VOID) st))"
proof -
  have split: "known = take i known @ known ! i # drop (Suc i) known"
    using assms by (rule id_take_nth_drop)
  have upd: "known[i := x] = take i known @ x # drop (Suc i) known" for x
    using assms by (rule upd_conv_take_nth_drop)
  show "empty_slots (known[i := Some v]) + (if known ! i = None then 1 else 0) = empty_slots known"
    unfolding upd by (subst (4) split) (simp add: empty_slots_def)
  show "open_slots (known[i := k]) + (case known ! i of None \<Rightarrow> 0 | Some st \<Rightarrow> length (filter (\<lambda>t. t \<noteq> TYPE_KIND_VOID) st))
       = open_slots known + (case k of None \<Rightarrow> 0 | Some st \<Rightarrow> length (filter (\<lambda>t. t \<noteq> TYPE_KIND_VOID) st))"
    unfolding upd by (subst (4) split) (simp add: open_slots_def)
qed

text \<open>One merge: nothing grows, and a reported change is a strict decrease.\<close>

lemma intersect_at_size:
  assumes "intersect_at i src known = (known', c)"
  shows "empty_slots known' < empty_slots known \<or>
         (empty_slots known' = empty_slots known \<and> open_slots known' \<le> open_slots known \<and>
          (c \<longrightarrow> open_slots known' < open_slots known))"
proof (cases "i < length known")
  case True
  show ?thesis
  proof (cases "known ! i")
    case None
    then show ?thesis
      using assms True empty_update(1) [OF True, of src]
      by (auto simp: intersect_at_def intersect_analy_stack_state_def)
  next
    case (Some d)
    then have k: "known' = known[i := Some (map2 merge_kind d src)]"
      and c: "c = list_ex (case_prod kind_changes) (zip d src)"
      using assms True by (auto simp: intersect_at_def intersect_analy_stack_state_def)
    show ?thesis
      using empty_update(1) [OF True, of "map2 merge_kind d src"]
        empty_update(2) [OF True, of "Some (map2 merge_kind d src)"]
        merge_open(1) [of d src] merge_open(2) [of d src] Some
      unfolding k c by auto
  qed
next
  case False
  then show ?thesis using assms by (simp add: intersect_at_def)
qed

lemma settles_intersect:
  "settles ctx (intersect_stack i src ctx)"
  "settles ctx (intersect_locals i src ctx)"
proof -
  show "settles ctx (intersect_stack i src ctx)"
  proof (cases "an_known_stacks ctx")
    case (Some known)
    obtain known' c where "intersect_at i src known = (known', c)"
      by fastforce
    with Some intersect_at_size [OF this] show ?thesis
      by (auto simp: intersect_stack_def settles_def ctx_size_def shrinks_def)
  qed (simp add: intersect_stack_def)
  show "settles ctx (intersect_locals i src ctx)"
  proof (cases "an_known_locals ctx")
    case (Some known)
    obtain known' c where "intersect_at i src known = (known', c)"
      by fastforce
    with Some intersect_at_size [OF this] show ?thesis
      by (auto simp: intersect_locals_def settles_def ctx_size_def shrinks_def)
  qed (simp add: intersect_locals_def)
qed

lemma settles_branch:
  "push_branch_target n start t ctx = Inr ctx' \<Longrightarrow> settles ctx ctx'"
  by (auto simp: push_branch_target_def Let_def split: if_splits
      intro: settles_trans [OF settles_intersect(1) settles_intersect(2)]
        settles_trans [OF _ settles_trans [OF settles_intersect(1) settles_intersect(2)]])

lemma settles_branches:
  "push_branch_targets n start ts ctx = Inr ctx' \<Longrightarrow> settles ctx ctx'"
  by (induction ts arbitrary: ctx) (auto simp: rbind_Inr dest: settles_branch intro: settles_trans)

lemma settles_handlers: "settles ctx (intersect_exception_handlers c i ctx)"
proof -
  have "settles ctx0 (fold (\<lambda>e ctx. if start_insn e \<le> int i \<and> int i < end_insn e
      then intersect_locals (nat (handler_insn e)) (an_locals ctx) ctx else ctx) es ctx0)" for es ctx0
    by (induction es arbitrary: ctx0) (auto intro: settles_trans [OF settles_intersect(2)])
  then show ?thesis by (simp add: intersect_exception_handlers_def)
qed

lemmas analyze_defs =
  analyze_load_def analyze_store_def analyze_iinc_def analyze_branch_def analyze_jsr_def
  analyze_switch_def analyze_get_def analyze_put_def analyze_invoke_def analyze_invokedynamic_def
  analyze_multianewarray_def with_stack_def

lemma settles_operand:
  "analyze_operand pool maxl n rw i insn ctx = Inr (insn', ctx', t) \<Longrightarrow> settles ctx ctx'"
  by (auto simp: analyze_operand_def analyze_defs rbind_Inr split: insn_operand.splits option.splits if_splits
      dest!: settles_branch settles_branches intro: settles_trans)

lemma settles_instruction:
  "analyze_instruction pool maxl n rw i insn ctx = Inr (insn', ctx', t) \<Longrightarrow> settles ctx ctx'"
  by (auto simp: analyze_instruction_def analyze_switch_kind_def rbind_Inr split: option.splits prod.splits
      dest!: settles_operand)

lemma settles_enter:
  "enter_insn env i insn iter t ctx = Inr (iter', ctx') \<Longrightarrow> settles ctx ctx'"
  by (auto simp: enter_insn_def frame_at_insn_def use_stack_map_frame_def known_at_insn_def rbind_Inr
      split: if_splits sum.splits option.splits prod.splits
      intro: settles_handlers [where ctx = "ctx\<lparr>an_stack := rev x, an_locals := y\<rparr>" for x y, simplified]
        settles_trans [OF settles_trans [OF settles_intersect(1) settles_intersect(2)] settles_handlers])

lemma settles_insns:
  "analyze_insns env fin i insns iter t ctx = Inr (ctx', res) \<Longrightarrow> settles ctx ctx'"
  by (induction insns arbitrary: i iter t ctx ctx' res)
    (fastforce simp: rbind_Inr dest: settles_enter settles_instruction intro: settles_trans)+

text \<open>The loop around the label \<open>analyze\<close>: the passes are repeated while one of them changes a known
  state, then one last pass rewrites the code and records the result.\<close>

function refine ::
    "analysis_env \<Rightarrow> smt_iterator \<Rightarrow> bool \<Rightarrow> analyzed_insn list \<Rightarrow> method_analysis_ctx \<Rightarrow>
     analysis_error + (analyzed_insn \<times> stack_summary) list" where
  "refine env iter finished insns ctx =
     (case analyze_insns env finished 0 insns iter True ctx of
        Inl e \<Rightarrow> Inl e
      | Inr (ctx', result) \<Rightarrow>
          if an_changed ctx' then refine env iter finished (map fst result) (ctx'\<lparr>an_changed := False\<rparr>)
          else if \<not> finished then refine env iter True (map fst result) ctx'
          else Inr result)"
  by pat_completeness auto
termination
proof (relation "inv_image (less_than <*lex*> less_than <*lex*> less_than <*lex*> less_than)
    (\<lambda>(env, iter, finished, insns, ctx).
       (if an_changed ctx then 1 else 0 :: nat, if finished then 0 else 1 :: nat, ctx_size ctx))")
qed (auto simp: settles_def shrinks_def ctx_size_def dest!: settles_insns)

declare refine.simps [simp del]

record code_analysis =
  ca_stack_states :: "stack_summary list"
  ca_insn_index_to_sd :: "u16 list"

fun swizzle_lvt :: "nat \<Rightarrow> int list \<Rightarrow> attribute_lvt_entry list \<Rightarrow> analysis_error + attribute_lvt_entry list" where
  "swizzle_lvt maxl swizzle [] = Inr []"
| "swizzle_lvt maxl swizzle (ent # ents) =
     (if lvt_index ent \<ge> maxl then Inl Lvt_failure
      else if lvt_index ent \<ge> length swizzle then Inl Bad_index
      else rbind (swizzle_lvt maxl swizzle ents) (\<lambda>ents.
        Inr (ent\<lparr>lvt_index := nat (swizzle ! lvt_index ent)\<rparr> # ents)))"

definition lvt_of :: "attribute_code \<Rightarrow> attribute_lvt_entry list" where
  "lvt_of c =
     (case local_variable_table c of
        None \<Rightarrow> []
      | Some k \<Rightarrow>
          (case attr_data (code_attributes c ! k) of Attr_local_variable_table es \<Rightarrow> es | _ \<Rightarrow> []))"

definition initial_analysis_ctx :: "bool \<Rightarrow> attribute_code \<Rightarrow> type_state \<Rightarrow> int list \<Rightarrow> method_analysis_ctx" where
  "initial_analysis_ctx missing_smt c locals swizzle =
     (let unknown = (if missing_smt then Some (replicate (length (code c)) None) else None);
          ctx = \<lparr>an_stack = [], an_stack_cap = unat (max_stack c) + 1, an_locals = locals,
                 an_swizzle = swizzle, an_edges = [], an_known_stacks = unknown,
                 an_known_locals = unknown, an_changed = False\<rparr>
      in if missing_smt then fill_exception_handlers c ctx else ctx)"

definition analysis_of :: "(analyzed_insn \<times> stack_summary) list \<Rightarrow> code_analysis" where
  "analysis_of result =
     \<lparr>ca_stack_states = map snd result,
      ca_insn_index_to_sd = map (\<lambda>(_, s). word_of_nat (length (sum_stack s))) result\<rparr>"

definition analyze_method_code ::
    "constant_pool \<Rightarrow> slice \<Rightarrow> cp_method \<Rightarrow> attribute_code \<Rightarrow>
     analysis_error + (analyzed_insn list \<times> attribute_lvt_entry list \<times> code_analysis)" where
  "analyze_method_code pool my_class_name method c =
     (case locals_on_method_entry method (unat (max_locals c)) of
        None \<Rightarrow> Inl Locals_failure
      | Some (locals, swizzle) \<Rightarrow>
          rbind (swizzle_lvt (unat (max_locals c)) swizzle (lvt_of c)) (\<lambda>lvt.
          rbind (case stack_map_frame_iterator_init my_class_name method c of
                   Inl e \<Rightarrow> Inl (Smt_failure e) | Inr iter \<Rightarrow> Inr iter) (\<lambda>iter.
          rbind (refine \<lparr>env_pool = pool, env_code = c, env_missing_smt = m_missing_smt method\<rparr> iter
                   (\<not> m_missing_smt method) (map fresh_insn (code c))
                   (initial_analysis_ctx (m_missing_smt method) c locals swizzle)) (\<lambda>result.
          Inr (map fst result, lvt, analysis_of result)))))"

section \<open>The renumbering of the locals\<close>

definition formal_width :: "field_descriptor \<Rightarrow> nat" where
  "formal_width a = (if is_field_wide a then 2 else 1)"

definition formal_slot :: "field_descriptor list \<Rightarrow> nat \<Rightarrow> nat" where
  "formal_slot as k = sum_list (map formal_width (take k as))"

text \<open>The part of the table that the arguments fill: the number of each argument in its first formal
  slot, and \<open>-1\<close> in the second slot of a wide one.\<close>

fun arg_slots :: "nat \<Rightarrow> field_descriptor list \<Rightarrow> int list" where
  "arg_slots i [] = []"
| "arg_slots i (a # as) = int i # (if is_field_wide a then [-1] else []) @ arg_slots (i + 1) as"

lemma length_arg_slots: "length (arg_slots i as) = sum_list (map formal_width as)"
  by (induction as arbitrary: i) (simp_all add: formal_width_def)

lemma update_replicate:
  "length pre = i \<Longrightarrow> 0 < m \<Longrightarrow> (pre @ replicate m x)[i := y] = pre @ y # replicate (m - 1) x"
  by (cases m) (auto simp: list_update_append)

lemma args_to_locals_eq:
  assumes "length pre = j" "length pre' = i + n" "j \<le> maxl" "i + n \<le> j"
  shows "args_to_locals as n maxl i j (pre' @ replicate (maxl - (i + n)) TYPE_KIND_VOID)
           (pre @ replicate (maxl - j) (-1)) =
     (if j + sum_list (map formal_width as) \<le> maxl
      then Some (pre' @ map repr_kind as @ replicate (maxl - (i + n + length as)) TYPE_KIND_VOID,
                 pre @ arg_slots (i + n) as @ replicate (maxl - (j + sum_list (map formal_width as))) (-1))
      else None)"
  using assms
proof (induction as arbitrary: i j pre pre')
  case (Cons a as)
  show ?case
  proof (cases "j + formal_width a \<le> maxl")
    case True
    let ?pre = "pre @ int (i + n) # (if is_field_wide a then [-1] else [])"
    have sw: "(pre @ replicate (maxl - j) (-1))[j := int (i + n)] =
        ?pre @ replicate (maxl - (j + formal_width a)) (-1)"
    proof (cases "is_field_wide a")
      case wide: True
      then have "maxl - j = Suc (Suc (maxl - (j + formal_width a)))"
        using True by (simp add: formal_width_def)
      then show ?thesis using wide Cons.prems(1) by (simp add: list_update_append)
    next
      case narrow: False
      then have "maxl - j = Suc (maxl - (j + formal_width a))"
        using True by (simp add: formal_width_def)
      then show ?thesis using narrow Cons.prems(1) by (simp add: list_update_append)
    qed
    have en: "(pre' @ replicate (maxl - (i + n)) TYPE_KIND_VOID)[i + n := repr_kind a] =
        (pre' @ [repr_kind a]) @ replicate (maxl - (Suc i + n)) TYPE_KIND_VOID"
    proof -
      have "maxl - (i + n) = Suc (maxl - (Suc i + n))"
        using True Cons.prems by (simp add: formal_width_def split: if_splits)
      then show ?thesis using Cons.prems(2) by (simp add: list_update_append)
    qed
    have "args_to_locals (a # as) n maxl i j (pre' @ replicate (maxl - (i + n)) TYPE_KIND_VOID)
            (pre @ replicate (maxl - j) (-1)) =
          args_to_locals as n maxl (Suc i) (j + formal_width a)
            ((pre' @ [repr_kind a]) @ replicate (maxl - (Suc i + n)) TYPE_KIND_VOID)
            (?pre @ replicate (maxl - (j + formal_width a)) (-1))"
      using True unfolding args_to_locals.simps sw en
      by (simp add: formal_width_def split: if_splits)
    also have "\<dots> = (if j + formal_width a + sum_list (map formal_width as) \<le> maxl
      then Some ((pre' @ [repr_kind a]) @ map repr_kind as @ replicate (maxl - (Suc i + n + length as)) TYPE_KIND_VOID,
                 ?pre @ arg_slots (Suc i + n) as @
                   replicate (maxl - (j + formal_width a + sum_list (map formal_width as))) (-1))
      else None)"
      using Cons.prems True by (intro Cons.IH) (auto simp: formal_width_def)
    finally show ?thesis by (simp add: add.assoc)
  next
    case False
    then show ?thesis by (auto simp: formal_width_def split: if_splits)
  qed
qed simp

definition receiver_slots :: "cp_method \<Rightarrow> nat" where
  "receiver_slots method = (if method_is_static method then 0 else 1)"

text \<open>The entry state in closed form: the receiver and the arguments in their order, then empty
  locals; it exists exactly when the formal slots of the arguments fit in \<open>max_locals\<close>.\<close>

lemma locals_on_method_entry_eq:
  "locals_on_method_entry method maxl =
     (let as = args (m_descriptor method); n = receiver_slots method
      in if n + sum_list (map formal_width as) \<le> maxl
         then Some (replicate n TYPE_KIND_REFERENCE @ map repr_kind as @
                      replicate (maxl - (n + length as)) TYPE_KIND_VOID,
                    map_rest (int (length as + n))
                      (map int [0..<n] @ arg_slots n as @ replicate (maxl - (n + sum_list (map formal_width as))) (-1)))
         else None)"
proof (cases "method_is_static method")
  case True
  then show ?thesis
    using args_to_locals_eq [of "[]" 0 "[]" 0 0 maxl "args (m_descriptor method)"]
    by (simp add: locals_on_method_entry_def receiver_slots_def Let_def)
next
  case False
  show ?thesis
  proof (cases maxl)
    case 0
    then show ?thesis using False by (simp add: locals_on_method_entry_def receiver_slots_def Let_def)
  next
    case (Suc m)
    then show ?thesis
      using False args_to_locals_eq [of "[0]" 1 "[TYPE_KIND_REFERENCE]" 0 1 maxl "args (m_descriptor method)"]
      by (simp add: locals_on_method_entry_def receiver_slots_def Let_def)
  qed
qed

lemma length_map_rest [simp]: "length (map_rest k xs) = length xs"
  by (induction xs arbitrary: k) simp_all

lemma mset_map_rest:
  "mset (map_rest (int k) xs) =
     mset (filter (\<lambda>x. x \<noteq> -1) xs) + mset (map int [k..<k + length (filter (\<lambda>x. x = -1) xs)])"
proof (induction xs arbitrary: k)
  case (Cons x xs)
  show ?case
  proof (cases "x = -1")
    case True
    then have "mset (map_rest (int k) (x # xs)) = add_mset (int k) (mset (map_rest (int (Suc k)) xs))"
      by (simp add: add.commute)
    also have "\<dots> = mset (filter (\<lambda>x. x \<noteq> -1) xs) +
        mset (map int (k # [Suc k..<Suc k + length (filter (\<lambda>x. x = -1) xs)]))"
      unfolding Cons.IH [of "Suc k"] by simp
    also have "k # [Suc k..<Suc k + length (filter (\<lambda>x. x = -1) xs)] =
        [k..<k + length (filter (\<lambda>x. x = -1) (x # xs))]"
      using True by (simp add: upt_conv_Cons del: upt_Suc)
    finally show ?thesis using True by simp
  qed (simp add: Cons.IH)
qed simp

lemma map_rest_nth: "p < length xs \<Longrightarrow> xs ! p \<noteq> -1 \<Longrightarrow> map_rest k xs ! p = xs ! p"
  by (induction xs arbitrary: k p) (auto simp: nth_Cons split: nat.splits)

lemma filter_arg_slots: "filter (\<lambda>x. x \<noteq> -1) (arg_slots i as) = map int [i..<i + length as]"
  by (induction as arbitrary: i) (simp_all add: upt_conv_Cons del: upt_Suc)

lemma arg_slots_nth:
  "k < length as \<Longrightarrow> formal_slot as k < length (arg_slots i as) \<and> arg_slots i as ! formal_slot as k = int (i + k)"
proof (induction as arbitrary: i k)
  case (Cons a as)
  show ?case
  proof (cases k)
    case (Suc m)
    then show ?thesis
      using Cons.IH [of m "Suc i"] Cons.prems
      by (auto simp: formal_slot_def formal_width_def nth_append)
  qed (simp add: formal_slot_def)
qed simp

lemma filter_length_compl: "length (filter (\<lambda>x. x \<noteq> a) xs) + length (filter (\<lambda>x. x = a) xs) = length xs"
  by (induction xs) simp_all

lemma swizzle_permutation:
  assumes "locals_on_method_entry method maxl = Some (locals, swizzle)"
  shows "mset swizzle = mset (map int [0..<maxl])"
proof -
  let ?as = "args (m_descriptor method)" let ?n = "receiver_slots method"
  let ?xs = "map int [0..<?n] @ arg_slots ?n ?as @ replicate (maxl - (?n + sum_list (map formal_width ?as))) (-1)"
  have fits: "?n + sum_list (map formal_width ?as) \<le> maxl" and
    sw: "swizzle = map_rest (int (length ?as + ?n)) ?xs"
    using assms by (auto simp: locals_on_method_entry_eq Let_def split: if_splits)
  have len: "length ?xs = maxl" using fits by (simp add: length_arg_slots)
  have used: "filter (\<lambda>x. x \<noteq> -1) ?xs = map int [0..<?n + length ?as]"
    by (simp add: filter_arg_slots upt_add_eq_append [of 0] filter_map o_def)
  then have unused: "length (filter (\<lambda>x. x = -1) ?xs) = maxl - (?n + length ?as)"
    using filter_length_compl [of "-1" ?xs] len by simp
  have le: "?n + length ?as \<le> maxl"
    using filter_length_compl [of "-1" ?xs] len unfolding used by simp
  have "mset swizzle = mset (map int [0..<?n + length ?as]) +
      mset (map int [length ?as + ?n..<length ?as + ?n + (maxl - (?n + length ?as))])"
    unfolding sw mset_map_rest used unused ..
  also have "\<dots> = mset (map int ([0..<?n + length ?as] @ [?n + length ?as..<maxl]))"
    using le by (simp add: add.commute)
  also have "[0..<?n + length ?as] @ [?n + length ?as..<maxl] = [0..<maxl]"
    using le upt_add_eq_append [of 0 "?n + length ?as" "maxl - (?n + length ?as)"] by simp
  finally show ?thesis .
qed

lemma swizzle_arguments:
  assumes "locals_on_method_entry method maxl = Some (locals, swizzle)"
    and "k < length (args (m_descriptor method))"
  shows "swizzle ! (receiver_slots method + formal_slot (args (m_descriptor method)) k) = int (receiver_slots method + k)"
    and "locals ! (receiver_slots method + k) = repr_kind (args (m_descriptor method) ! k)"
proof -
  let ?as = "args (m_descriptor method)" let ?n = "receiver_slots method"
  let ?xs = "map int [0..<?n] @ arg_slots ?n ?as @ replicate (maxl - (?n + sum_list (map formal_width ?as))) (-1)"
  have sw: "swizzle = map_rest (int (length ?as + ?n)) ?xs"
    and ls: "locals = replicate ?n TYPE_KIND_REFERENCE @ map repr_kind ?as @
        replicate (maxl - (?n + length ?as)) TYPE_KIND_VOID"
    using assms(1) by (auto simp: locals_on_method_entry_eq Let_def split: if_splits)
  have "?n + formal_slot ?as k < length ?xs" and "?xs ! (?n + formal_slot ?as k) = int (?n + k)"
    using arg_slots_nth [OF assms(2), of ?n] by (simp_all add: nth_append)
  then show "swizzle ! (?n + formal_slot ?as k) = int (?n + k)"
    unfolding sw by (subst map_rest_nth) simp_all
  show "locals ! (?n + k) = repr_kind (?as ! k)"
    unfolding ls using assms(2) by (simp add: nth_append)
qed

lemma locals_length:
  assumes "locals_on_method_entry method maxl = Some (locals, swizzle)"
  shows "length locals = maxl" "length swizzle = maxl"
proof -
  have "length as \<le> sum_list (map formal_width as)" for as
    by (induction as) (auto simp: formal_width_def)
  from this [of "args (m_descriptor method)"] show "length locals = maxl"
    using assms by (auto simp: locals_on_method_entry_eq Let_def split: if_splits)
  show "length swizzle = maxl"
    using assms by (auto simp: locals_on_method_entry_eq Let_def length_arg_slots split: if_splits)
qed

end
