(* ===== verification/Interpreter.thy ===== *)
theory Interpreter
  imports Analysis "HOL-Library.Signed_Division"
begin

text \<open>
  Model of the bytecode handlers of \<open>vm/interpreter2.c\<close> that work on one frame: constants, locals,
  arithmetic, conversions, comparisons, stack instructions, branches, switches, returns, and the
  array instructions. The interpreter keeps the top of the operand stack in a register whose type
  is one of four kinds, and has one table of handlers per kind; the rest of the stack lies in the
  frame. Floats and doubles are their bit patterns; the four operations, remainders and rounding
  conversions of the floating-point unit are parameters (\<open>fpu\<close>), comparison, negation and
  truncation are defined on the patterns.
\<close>

section \<open>State\<close>

text \<open>A \<open>stack_value\<close> is a union of eight bytes. \<open>.l\<close>, \<open>.d\<close> and \<open>.obj\<close> are all of it, \<open>.i\<close> and \<open>.f\<close> its low
  half; assigning the low half leaves the other half alone.\<close>

definition slot_i :: "u64 \<Rightarrow> u32" where
  "slot_i x = ucast x"

definition set_low :: "u64 \<Rightarrow> u32 \<Rightarrow> u64" where
  "set_low x v = (x AND 0xFFFFFFFF00000000) OR ucast v"

text \<open>\<open>(s64)(s32)v\<close>.\<close>

definition sext :: "u32 \<Rightarrow> u64" where
  "sext v = scast v"

datatype tos_value = Tos_void | Tos_int u64 | Tos_float u32 | Tos_double u64

fun tos_kind :: "tos_value \<Rightarrow> reduced_tos_kind" where
  "tos_kind Tos_void = TOS_VOID"
| "tos_kind (Tos_int _) = TOS_INT"
| "tos_kind (Tos_float _) = TOS_FLOAT"
| "tos_kind (Tos_double _) = TOS_DOUBLE"

text \<open>The registers \<open>sp\<close> (as an index into the stack of the frame), \<open>insns\<close> (as an index into the code)
  and \<open>FUEL\<close>, the two arrays of the frame, and the bytes of the heap.\<close>

record interp_state =
  sp :: nat
  pc :: nat
  fuel :: u32
  stack_mem :: "u64 list"
  locals_mem :: "u64 list"
  heap :: "u64 \<Rightarrow> u8"

text \<open>What the program throws from a handler.\<close>

datatype thrown =
    Null_pointer
  | Division_by_zero
  | Array_index_oob int int
  | Array_store
  | Thrown_object u64

text \<open>How a handler ends: with a jump to the handler of the instruction at \<open>pc\<close> in the table of the
  register, with a return value, with an exception, with \<open>RETVAL_FUEL_CHECK\<close> and the frame marked as
  suspended, or by calling into the resolution, allocation, invocation and monitor code of the
  other parts. \<open>No_handler\<close> is a null entry of the jump table.\<close>

datatype outcome =
    Jump tos_value interp_state
  | Return_value u64 interp_state
  | Throws thrown interp_state
  | Refuel interp_state
  | Other_part tos_value interp_state
  | No_handler

record fpu =
  fp_fadd :: "u32 \<Rightarrow> u32 \<Rightarrow> u32"
  fp_fsub :: "u32 \<Rightarrow> u32 \<Rightarrow> u32"
  fp_fmul :: "u32 \<Rightarrow> u32 \<Rightarrow> u32"
  fp_fdiv :: "u32 \<Rightarrow> u32 \<Rightarrow> u32"
  fp_fmodf :: "u32 \<Rightarrow> u32 \<Rightarrow> u32"
  fp_dadd :: "u64 \<Rightarrow> u64 \<Rightarrow> u64"
  fp_dsub :: "u64 \<Rightarrow> u64 \<Rightarrow> u64"
  fp_dmul :: "u64 \<Rightarrow> u64 \<Rightarrow> u64"
  fp_ddiv :: "u64 \<Rightarrow> u64 \<Rightarrow> u64"
  fp_fmod :: "u64 \<Rightarrow> u64 \<Rightarrow> u64"
  fp_float_of_long :: "u64 \<Rightarrow> u32"
  fp_double_of_long :: "u64 \<Rightarrow> u64"
  fp_double_of_float :: "u32 \<Rightarrow> u64"
  fp_float_of_double :: "u64 \<Rightarrow> u32"
  fp_long_of_float :: "u32 \<Rightarrow> u64"

text \<open>What the handlers ask of other parts: the unit, and the check of \<open>aastore\<close>, that the class of the
  value is an instance of the component class of the array.\<close>

record interp_env =
  env_fpu :: fpu
  env_storable :: "u64 \<Rightarrow> u64 \<Rightarrow> bool"

section \<open>Jump tables\<close>

definition jmp_table_void :: "insn_code_kind list" where
  "jmp_table_void =
     [insn_nop, insn_aconst_null, insn_pop, insn_return, insn_getstatic, insn_invokedynamic,
      insn_new, insn_invokevirtual, insn_invokestatic, insn_ldc, insn_dload, insn_fload,
      insn_iload, insn_lload, insn_aload, insn_goto, insn_iconst, insn_dconst, insn_fconst,
      insn_lconst, insn_iinc, insn_invokeinterface, insn_new_resolved,
      insn_invokevtable_monomorphic, insn_invokevtable_polymorphic,
      insn_invokeitable_monomorphic, insn_invokeitable_polymorphic, insn_invokespecial_resolved,
      insn_invokestatic_resolved, insn_invokecallsite, insn_invokesigpoly, insn_getstatic_B,
      insn_getstatic_C, insn_getstatic_S, insn_getstatic_I, insn_getstatic_J, insn_getstatic_F,
      insn_getstatic_D, insn_getstatic_Z, insn_getstatic_L]"

definition jmp_table_double :: "insn_code_kind list" where
  "jmp_table_double =
     [insn_nop, insn_aconst_null, insn_d2f, insn_d2i, insn_d2l, insn_dadd, insn_dastore,
      insn_dcmpg, insn_dcmpl, insn_ddiv, insn_dmul, insn_dneg, insn_dreturn, insn_dsub,
      insn_dup, insn_dup_x1, insn_dup_x2, insn_dup2, insn_dup2_x1, insn_dup2_x2, insn_pop,
      insn_pop2, insn_return, insn_swap, insn_getstatic, insn_invokedynamic, insn_new,
      insn_putfield, insn_putstatic, insn_invokevirtual, insn_invokespecial, insn_invokestatic,
      insn_ldc, insn_dload, insn_fload, insn_iload, insn_lload, insn_dstore, insn_aload,
      insn_goto, insn_iconst, insn_dconst, insn_fconst, insn_lconst, insn_iinc,
      insn_invokeinterface, insn_new_resolved, insn_invokevtable_monomorphic,
      insn_invokevtable_polymorphic, insn_invokeitable_monomorphic,
      insn_invokeitable_polymorphic, insn_invokespecial_resolved, insn_invokestatic_resolved,
      insn_invokecallsite, insn_invokesigpoly, insn_putfield_D, insn_getstatic_B,
      insn_getstatic_C, insn_getstatic_S, insn_getstatic_I, insn_getstatic_J, insn_getstatic_F,
      insn_getstatic_D, insn_getstatic_Z, insn_getstatic_L, insn_putstatic_D, insn_drem,
      insn_pow, insn_sin, insn_cos, insn_tan, insn_sqrt]"

definition jmp_table_int :: "insn_code_kind list" where
  "jmp_table_int =
     [insn_nop, insn_aaload, insn_aastore, insn_aconst_null, insn_areturn, insn_arraylength,
      insn_athrow, insn_baload, insn_bastore, insn_caload, insn_castore, insn_daload, insn_dup,
      insn_dup_x1, insn_dup_x2, insn_dup2, insn_dup2_x1, insn_dup2_x2, insn_faload, insn_i2b,
      insn_i2c, insn_i2d, insn_i2f, insn_i2l, insn_i2s, insn_iadd, insn_iaload, insn_iand,
      insn_iastore, insn_idiv, insn_imul, insn_ineg, insn_ior, insn_irem, insn_ireturn,
      insn_ishl, insn_ishr, insn_isub, insn_iushr, insn_ixor, insn_l2d, insn_l2f, insn_l2i,
      insn_ladd, insn_laload, insn_land, insn_lastore, insn_lcmp, insn_ldiv, insn_lmul,
      insn_lneg, insn_lor, insn_lrem, insn_lreturn, insn_lshl, insn_lshr, insn_lsub, insn_lushr,
      insn_lxor, insn_monitorenter, insn_monitorexit, insn_pop, insn_pop2, insn_return,
      insn_saload, insn_sastore, insn_swap, insn_anewarray, insn_checkcast, insn_getfield,
      insn_getstatic, insn_instanceof, insn_invokedynamic, insn_new, insn_putfield,
      insn_putstatic, insn_invokevirtual, insn_invokespecial, insn_invokestatic, insn_ldc,
      insn_dload, insn_fload, insn_iload, insn_lload, insn_istore, insn_lstore, insn_aload,
      insn_astore, insn_goto, insn_if_acmpeq, insn_if_acmpne, insn_if_icmpeq, insn_if_icmpne,
      insn_if_icmplt, insn_if_icmpge, insn_if_icmpgt, insn_if_icmple, insn_ifeq, insn_ifne,
      insn_iflt, insn_ifge, insn_ifgt, insn_ifle, insn_ifnonnull, insn_ifnull, insn_iconst,
      insn_dconst, insn_fconst, insn_lconst, insn_iinc, insn_invokeinterface,
      insn_multianewarray, insn_newarray, insn_tableswitch, insn_lookupswitch,
      insn_anewarray_resolved, insn_checkcast_resolved, insn_instanceof_resolved,
      insn_new_resolved, insn_invokevtable_monomorphic, insn_invokevtable_polymorphic,
      insn_invokeitable_monomorphic, insn_invokeitable_polymorphic, insn_invokespecial_resolved,
      insn_invokestatic_resolved, insn_invokecallsite, insn_invokesigpoly, insn_getfield_B,
      insn_getfield_C, insn_getfield_S, insn_getfield_I, insn_getfield_J, insn_getfield_F,
      insn_getfield_D, insn_getfield_Z, insn_getfield_L, insn_putfield_B, insn_putfield_C,
      insn_putfield_S, insn_putfield_I, insn_putfield_J, insn_putfield_Z, insn_putfield_L,
      insn_getstatic_B, insn_getstatic_C, insn_getstatic_S, insn_getstatic_I, insn_getstatic_J,
      insn_getstatic_F, insn_getstatic_D, insn_getstatic_Z, insn_getstatic_L, insn_putstatic_B,
      insn_putstatic_C, insn_putstatic_S, insn_putstatic_I, insn_putstatic_J, insn_putstatic_Z,
      insn_putstatic_L]"

definition jmp_table_float :: "insn_code_kind list" where
  "jmp_table_float =
     [insn_nop, insn_aconst_null, insn_dup, insn_dup_x1, insn_dup_x2, insn_dup2, insn_dup2_x1,
      insn_dup2_x2, insn_f2d, insn_f2i, insn_f2l, insn_fadd, insn_fastore, insn_fcmpg,
      insn_fcmpl, insn_fdiv, insn_fmul, insn_fneg, insn_freturn, insn_fsub, insn_pop, insn_pop2,
      insn_return, insn_swap, insn_getstatic, insn_invokedynamic, insn_new, insn_putfield,
      insn_putstatic, insn_invokevirtual, insn_invokespecial, insn_invokestatic, insn_ldc,
      insn_dload, insn_fload, insn_iload, insn_lload, insn_fstore, insn_aload, insn_goto,
      insn_iconst, insn_dconst, insn_fconst, insn_lconst, insn_iinc, insn_invokeinterface,
      insn_new_resolved, insn_invokevtable_monomorphic, insn_invokevtable_polymorphic,
      insn_invokeitable_monomorphic, insn_invokeitable_polymorphic, insn_invokespecial_resolved,
      insn_invokestatic_resolved, insn_invokecallsite, insn_invokesigpoly, insn_putfield_F,
      insn_getstatic_B, insn_getstatic_C, insn_getstatic_S, insn_getstatic_I, insn_getstatic_J,
      insn_getstatic_F, insn_getstatic_D, insn_getstatic_Z, insn_getstatic_L, insn_putstatic_F,
      insn_frem, insn_pow, insn_sin, insn_cos, insn_tan, insn_sqrt]"

fun jmp_table :: "reduced_tos_kind \<Rightarrow> insn_code_kind list" where
  "jmp_table TOS_VOID = jmp_table_void"
| "jmp_table TOS_DOUBLE = jmp_table_double"
| "jmp_table TOS_INT = jmp_table_int"
| "jmp_table TOS_FLOAT = jmp_table_float"

section \<open>Register and stack\<close>

definition peek :: "nat \<Rightarrow> interp_state \<Rightarrow> u64" where
  "peek k st = stack_mem st ! (sp st - k)"

definition poke :: "nat \<Rightarrow> u64 \<Rightarrow> interp_state \<Rightarrow> interp_state" where
  "poke k v st = st\<lparr>stack_mem := (stack_mem st)[sp st - k := v]\<rparr>"

text \<open>\<open>SPILL(tos)\<close>, and the first line of the handlers that \<open>FORWARD_TO_NULLARY\<close> makes. The upper half of
  a spilled float is never read.\<close>

fun spill :: "tos_value \<Rightarrow> interp_state \<Rightarrow> interp_state" where
  "spill Tos_void st = st"
| "spill (Tos_int x) st = poke 1 x st"
| "spill (Tos_float f) st = poke 1 (ucast f) st"
| "spill (Tos_double d) st = poke 1 d st"

text \<open>\<open>NEXT_INT\<close> and its siblings, and the two stack-polymorphic jumps, which load the register as the
  next instruction is annotated.\<close>

definition next_with :: "tos_value \<Rightarrow> interp_state \<Rightarrow> outcome" where
  "next_with t st = Jump t (st\<lparr>pc := pc st + 1\<rparr>)"

abbreviation (input) NEXT_INT :: "u64 \<Rightarrow> interp_state \<Rightarrow> outcome" where
  "NEXT_INT x \<equiv> next_with (Tos_int x)"
abbreviation (input) NEXT_FLOAT :: "u32 \<Rightarrow> interp_state \<Rightarrow> outcome" where
  "NEXT_FLOAT x \<equiv> next_with (Tos_float x)"
abbreviation (input) NEXT_DOUBLE :: "u64 \<Rightarrow> interp_state \<Rightarrow> outcome" where
  "NEXT_DOUBLE x \<equiv> next_with (Tos_double x)"
abbreviation (input) NEXT_VOID :: "interp_state \<Rightarrow> outcome" where
  "NEXT_VOID \<equiv> next_with Tos_void"

fun load_tos :: "reduced_tos_kind \<Rightarrow> u64 \<Rightarrow> tos_value" where
  "load_tos TOS_VOID x = Tos_void"
| "load_tos TOS_INT x = Tos_int x"
| "load_tos TOS_FLOAT x = Tos_float (slot_i x)"
| "load_tos TOS_DOUBLE x = Tos_double x"

definition STACK_POLYMORPHIC_JMP :: "analyzed_insn list \<Rightarrow> interp_state \<Rightarrow> outcome" where
  "STACK_POLYMORPHIC_JMP cd st =
     (if pc st < length cd then Jump (load_tos (tos_before (cd ! pc st)) (peek 1 st)) st else No_handler)"

definition STACK_POLYMORPHIC_NEXT :: "analyzed_insn list \<Rightarrow> interp_state \<Rightarrow> outcome" where
  "STACK_POLYMORPHIC_NEXT cd st = STACK_POLYMORPHIC_JMP cd (st\<lparr>pc := pc st + 1\<rparr>)"

definition drop_sp :: "nat \<Rightarrow> interp_state \<Rightarrow> interp_state" where
  "drop_sp k st = st\<lparr>sp := sp st - k\<rparr>"

definition raise_sp :: "nat \<Rightarrow> interp_state \<Rightarrow> interp_state" where
  "raise_sp k st = st\<lparr>sp := sp st + k\<rparr>"

section \<open>Helper functions\<close>

text \<open>C's \<open>/\<close> and \<open>%\<close> truncate.\<close>

definition java_idiv :: "u32 \<Rightarrow> u32 \<Rightarrow> u32" where
  "java_idiv a b =
     (if a = 0x80000000 \<and> b = 0xFFFFFFFF then 0x80000000 else word_of_int (sint a sdiv sint b))"

definition java_irem :: "u32 \<Rightarrow> u32 \<Rightarrow> u64" where
  "java_irem a b =
     (if a = 0x80000000 \<and> b = 0xFFFFFFFF then 0 else word_of_int (sint a smod sint b))"

definition java_ldiv :: "u64 \<Rightarrow> u64 \<Rightarrow> u64" where
  "java_ldiv a b =
     (if a = 0x8000000000000000 \<and> b = 0xFFFFFFFFFFFFFFFF then 0x8000000000000000
      else word_of_int (sint a sdiv sint b))"

definition java_lrem :: "u64 \<Rightarrow> u64 \<Rightarrow> u64" where
  "java_lrem a b =
     (if a = 0x8000000000000000 \<and> b = 0xFFFFFFFFFFFFFFFF then 0
      else word_of_int (sint a smod sint b))"

text \<open>Floating-point numbers as patterns: NaN, the order (the magnitude with its sign, so that the two
  zeros are equal), and the integer part.\<close>

definition f32_nan :: "u32 \<Rightarrow> bool" where
  "f32_nan x \<longleftrightarrow> x AND 0x7FFFFFFF > 0x7F800000"

definition f64_nan :: "u64 \<Rightarrow> bool" where
  "f64_nan x \<longleftrightarrow> x AND 0x7FFFFFFFFFFFFFFF > 0x7FF0000000000000"

definition f32_key :: "u32 \<Rightarrow> int" where
  "f32_key x = (if bit x 31 then - uint (x AND 0x7FFFFFFF) else uint x)"

definition f64_key :: "u64 \<Rightarrow> int" where
  "f64_key x = (if bit x 63 then - uint (x AND 0x7FFFFFFFFFFFFFFF) else uint x)"

definition f64_trunc :: "u64 \<Rightarrow> int" where
  "f64_trunc x =
     (let e = unat (take_bit 11 (drop_bit 52 x));
          m = uint (take_bit 52 x) + (if e = 0 then 0 else 2 ^ 52);
          e = (if e = 0 then 1 else e);
          v = (if e \<ge> 1075 then m * 2 ^ (e - 1075) else m div 2 ^ (1075 - e))
      in if bit x 63 then - v else v)"

text \<open>The four comparisons of C on a pair of numbers, given NaN and order.\<close>

definition f32_less :: "u32 \<Rightarrow> u32 \<Rightarrow> bool" where
  "f32_less a b \<longleftrightarrow> \<not> f32_nan a \<and> \<not> f32_nan b \<and> f32_key a < f32_key b"

definition f32_equal :: "u32 \<Rightarrow> u32 \<Rightarrow> bool" where
  "f32_equal a b \<longleftrightarrow> \<not> f32_nan a \<and> \<not> f32_nan b \<and> f32_key a = f32_key b"

definition f64_less :: "u64 \<Rightarrow> u64 \<Rightarrow> bool" where
  "f64_less a b \<longleftrightarrow> \<not> f64_nan a \<and> \<not> f64_nan b \<and> f64_key a < f64_key b"

definition f64_equal :: "u64 \<Rightarrow> u64 \<Rightarrow> bool" where
  "f64_equal a b \<longleftrightarrow> \<not> f64_nan a \<and> \<not> f64_nan b \<and> f64_key a = f64_key b"

text \<open>The constants are \<open>(double)INT_MAX\<close>, \<open>(double)INT_MIN\<close>, \<open>(double)(ULLONG_MAX / 2)\<close>, which rounds to
  \<open>2\<^sup>6\<^sup>3\<close>, and \<open>(double)LLONG_MIN\<close>.\<close>

definition double_to_int :: "u64 \<Rightarrow> u32" where
  "double_to_int x =
     (if f64_less 0x41DFFFFFFFC00000 x then 0x7FFFFFFF
      else if f64_less x 0xC1E0000000000000 then 0x80000000
      else if f64_nan x then 0
      else word_of_int (f64_trunc x))"

definition double_to_long :: "u64 \<Rightarrow> u64" where
  "double_to_long x =
     (if f64_less 0x43E0000000000000 x \<or> f64_equal 0x43E0000000000000 x then 0x7FFFFFFFFFFFFFFF
      else if f64_less x 0xC3E0000000000000 then 0x8000000000000000
      else if f64_nan x then 0
      else word_of_int (f64_trunc x))"

definition float_to_int :: "fpu \<Rightarrow> u32 \<Rightarrow> u32" where
  "float_to_int fp x = double_to_int (fp_double_of_float fp x)"

definition float_to_long :: "fpu \<Rightarrow> u32 \<Rightarrow> u64" where
  "float_to_long fp x = double_to_long (fp_double_of_float fp x)"

section \<open>Arithmetic\<close>

definition shift32 :: "u64 \<Rightarrow> nat" where
  "shift32 b = unat (b AND 0x1F)"

definition shift64 :: "u64 \<Rightarrow> nat" where
  "shift64 b = unat (b AND 0x3F)"

text \<open>\<open>INTEGER_BIN_OP\<close>. The result of \<open>ishr\<close> is converted to \<open>u32\<close> and thus zero-extended.\<close>

definition int_bin_ops :: "(insn_code_kind \<times> (u64 \<Rightarrow> u64 \<Rightarrow> u64)) list" where
  "int_bin_ops =
     [(insn_iadd, \<lambda>a b. sext (slot_i a + slot_i b)),
      (insn_ladd, \<lambda>a b. a + b),
      (insn_isub, \<lambda>a b. sext (slot_i a - slot_i b)),
      (insn_lsub, \<lambda>a b. a - b),
      (insn_imul, \<lambda>a b. sext (slot_i a * slot_i b)),
      (insn_lmul, \<lambda>a b. a * b),
      (insn_iand, \<lambda>a b. sext (slot_i a AND slot_i b)),
      (insn_land, \<lambda>a b. a AND b),
      (insn_ior, \<lambda>a b. sext (slot_i a OR slot_i b)),
      (insn_lor, \<lambda>a b. a OR b),
      (insn_ixor, \<lambda>a b. sext (slot_i a XOR slot_i b)),
      (insn_lxor, \<lambda>a b. a XOR b),
      (insn_ishl, \<lambda>a b. sext (push_bit (shift32 b) (slot_i a))),
      (insn_lshl, \<lambda>a b. push_bit (shift64 b) a),
      (insn_ishr, \<lambda>a b. ucast (signed_drop_bit (shift32 b) (slot_i a))),
      (insn_lshr, \<lambda>a b. signed_drop_bit (shift64 b) a),
      (insn_iushr, \<lambda>a b. sext (drop_bit (shift32 b) (slot_i a))),
      (insn_lushr, \<lambda>a b. drop_bit (shift64 b) a)]"

text \<open>\<open>INTEGER_UN_OP\<close>.\<close>

definition int_un_ops :: "fpu \<Rightarrow> (insn_code_kind \<times> (u64 \<Rightarrow> tos_value)) list" where
  "int_un_ops fp =
     [(insn_ineg, \<lambda>a. Tos_int (sext (- slot_i a))),
      (insn_lneg, \<lambda>a. Tos_int (- a)),
      (insn_i2l, \<lambda>a. Tos_int a),
      (insn_i2s, \<lambda>a. Tos_int (scast (ucast a :: u16))),
      (insn_i2b, \<lambda>a. Tos_int (scast (ucast a :: u8))),
      (insn_i2c, \<lambda>a. Tos_int (ucast (ucast a :: u16))),
      (insn_i2f, \<lambda>a. Tos_float (fp_float_of_long fp a)),
      (insn_i2d, \<lambda>a. Tos_double (fp_double_of_long fp a)),
      (insn_l2i, \<lambda>a. Tos_int (sext (slot_i a))),
      (insn_l2f, \<lambda>a. Tos_float (fp_float_of_long fp a)),
      (insn_l2d, \<lambda>a. Tos_double (fp_double_of_long fp a))]"

definition cmp_result :: "bool \<Rightarrow> bool \<Rightarrow> bool \<Rightarrow> int \<Rightarrow> u64" where
  "cmp_result gt lt eq unordered =
     (if gt then 1 else if lt then -1 else if eq then 0 else word_of_int unordered)"

text \<open>\<open>FLOAT_BIN_OP\<close>, with \<open>frem\<close> and \<open>drem\<close>, and the two \<open>UN_OP\<close> macros.\<close>

definition float_bin_ops :: "fpu \<Rightarrow> (insn_code_kind \<times> (u32 \<Rightarrow> u32 \<Rightarrow> tos_value)) list" where
  "float_bin_ops fp =
     [(insn_fadd, \<lambda>a b. Tos_float (fp_fadd fp a b)),
      (insn_fsub, \<lambda>a b. Tos_float (fp_fsub fp a b)),
      (insn_fmul, \<lambda>a b. Tos_float (fp_fmul fp a b)),
      (insn_fdiv, \<lambda>a b. Tos_float (fp_fdiv fp a b)),
      (insn_fcmpg, \<lambda>a b. Tos_int (cmp_result (f32_less b a) (f32_less a b) (f32_equal a b) 1)),
      (insn_fcmpl, \<lambda>a b. Tos_int (cmp_result (f32_less b a) (f32_less a b) (f32_equal a b) (-1))),
      (insn_frem, \<lambda>a b. Tos_float (fp_fmodf fp a b))]"

definition double_bin_ops :: "fpu \<Rightarrow> (insn_code_kind \<times> (u64 \<Rightarrow> u64 \<Rightarrow> tos_value)) list" where
  "double_bin_ops fp =
     [(insn_dadd, \<lambda>a b. Tos_double (fp_dadd fp a b)),
      (insn_dsub, \<lambda>a b. Tos_double (fp_dsub fp a b)),
      (insn_dmul, \<lambda>a b. Tos_double (fp_dmul fp a b)),
      (insn_ddiv, \<lambda>a b. Tos_double (fp_ddiv fp a b)),
      (insn_dcmpg, \<lambda>a b. Tos_int (cmp_result (f64_less b a) (f64_less a b) (f64_equal a b) 1)),
      (insn_dcmpl, \<lambda>a b. Tos_int (cmp_result (f64_less b a) (f64_less a b) (f64_equal a b) (-1))),
      (insn_drem, \<lambda>a b. Tos_double (fp_fmod fp a b))]"

definition float_un_ops :: "fpu \<Rightarrow> (insn_code_kind \<times> (u32 \<Rightarrow> tos_value)) list" where
  "float_un_ops fp =
     [(insn_fneg, \<lambda>a. Tos_float (a XOR 0x80000000)),
      (insn_f2i, \<lambda>a. Tos_int (sext (float_to_int fp a))),
      (insn_f2l, \<lambda>a. Tos_int (float_to_long fp a)),
      (insn_f2d, \<lambda>a. Tos_double (fp_double_of_float fp a))]"

definition double_un_ops :: "fpu \<Rightarrow> (insn_code_kind \<times> (u64 \<Rightarrow> tos_value)) list" where
  "double_un_ops fp =
     [(insn_dneg, \<lambda>a. Tos_double (a XOR 0x8000000000000000)),
      (insn_d2i, \<lambda>a. Tos_int (sext (double_to_int a))),
      (insn_d2l, \<lambda>a. Tos_int (double_to_long a)),
      (insn_d2f, \<lambda>a. Tos_float (fp_float_of_double fp a))]"

text \<open>The four divisions: the divisor is tested, the result computed.\<close>

definition div_ops :: "(insn_code_kind \<times> (u64 \<Rightarrow> bool) \<times> (u64 \<Rightarrow> u64 \<Rightarrow> u64)) list" where
  "div_ops =
     [(insn_idiv, \<lambda>b. slot_i b = 0, \<lambda>a b. sext (java_idiv (slot_i a) (slot_i b))),
      (insn_ldiv, \<lambda>b. b = 0, \<lambda>a b. java_ldiv a b),
      (insn_irem, \<lambda>b. slot_i b = 0, \<lambda>a b. java_irem (slot_i a) (slot_i b)),
      (insn_lrem, \<lambda>b. b = 0, \<lambda>a b. java_lrem a b)]"

definition div_impl :: "(u64 \<Rightarrow> bool) \<Rightarrow> (u64 \<Rightarrow> u64 \<Rightarrow> u64) \<Rightarrow> u64 \<Rightarrow> interp_state \<Rightarrow> outcome" where
  "div_impl is_zero eval tos st =
     (if is_zero tos then Throws Division_by_zero (spill (Tos_int tos) st)
      else NEXT_INT (eval (peek 2 st) tos) (drop_sp 1 st))"

definition lcmp_impl :: "u64 \<Rightarrow> interp_state \<Rightarrow> outcome" where
  "lcmp_impl tos st =
     (let a = sint (peek 2 st); b = sint tos
      in NEXT_INT (if a > b then 1 else if a < b then -1 else 0) (drop_sp 1 st))"

section \<open>Arrays\<close>

fun mem_load :: "nat \<Rightarrow> (u64 \<Rightarrow> u8) \<Rightarrow> u64 \<Rightarrow> u64" where
  "mem_load 0 m a = 0"
| "mem_load (Suc n) m a = ucast (m a) OR push_bit 8 (mem_load n m (a + 1))"

fun mem_store :: "nat \<Rightarrow> u64 \<Rightarrow> u64 \<Rightarrow> (u64 \<Rightarrow> u8) \<Rightarrow> u64 \<Rightarrow> u8" where
  "mem_store 0 a v m = m"
| "mem_store (Suc n) a v m = mem_store n (a + 1) (drop_bit 8 v) (m(a := ucast v))"

text \<open>\<open>sizeof(obj_header)\<close> is 16, and the data is aligned to 16 bytes.\<close>

definition ArrayLength :: "interp_state \<Rightarrow> u64 \<Rightarrow> int" where
  "ArrayLength st array = sint (ucast (mem_load 4 (heap st) (array + 16)) :: u32)"

definition ArrayData :: "u64 \<Rightarrow> u64" where
  "ArrayData array = array + 32"

definition element_address :: "nat \<Rightarrow> u64 \<Rightarrow> int \<Rightarrow> u64" where
  "element_address width array index = ArrayData array + word_of_int (index * int width)"

text \<open>Width of an element and how a load widens it.\<close>

definition array_loads :: "(insn_code_kind \<times> nat \<times> (u64 \<Rightarrow> tos_value)) list" where
  "array_loads =
     [(insn_iaload, 4, \<lambda>x. Tos_int (sext (ucast x))),
      (insn_laload, 8, Tos_int),
      (insn_faload, 4, \<lambda>x. Tos_float (ucast x)),
      (insn_daload, 8, Tos_double),
      (insn_aaload, 8, Tos_int),
      (insn_baload, 1, \<lambda>x. Tos_int (scast (ucast x :: u8))),
      (insn_saload, 2, \<lambda>x. Tos_int (scast (ucast x :: u16))),
      (insn_caload, 2, \<lambda>x. Tos_int (ucast (ucast x :: u16)))]"

definition array_stores :: "(insn_code_kind \<times> nat) list" where
  "array_stores =
     [(insn_iastore, 4), (insn_lastore, 8), (insn_fastore, 4), (insn_dastore, 8),
      (insn_bastore, 1), (insn_sastore, 2), (insn_castore, 2)]"

definition in_bounds :: "interp_state \<Rightarrow> u64 \<Rightarrow> int \<Rightarrow> bool" where
  "in_bounds st array index \<longleftrightarrow> 0 \<le> index \<and> index < ArrayLength st array"

text \<open>\<open>ARRAY_LOAD\<close>: the array lies under the index, which is in the register.\<close>

definition array_load_impl :: "nat \<Rightarrow> (u64 \<Rightarrow> tos_value) \<Rightarrow> u64 \<Rightarrow> interp_state \<Rightarrow> outcome" where
  "array_load_impl width widen tos st =
     (let array = peek 2 st; index = sint (slot_i tos)
      in if array = 0 then Throws Null_pointer st
         else if \<not> in_bounds st array index then Throws (Array_index_oob index (ArrayLength st array)) st
         else next_with (widen (mem_load width (heap st) (element_address width array index))) (drop_sp 1 st))"

text \<open>\<open>ARRAY_STORE\<close>, for any kind of register; \<open>v\<close> is its pattern, of which \<open>width\<close> bytes are stored.\<close>

definition array_store_impl :: "analyzed_insn list \<Rightarrow> nat \<Rightarrow> u64 \<Rightarrow> interp_state \<Rightarrow> outcome" where
  "array_store_impl cd width v st =
     (let array = peek 3 st; index = sint (slot_i (peek 2 st))
      in if array = 0 then Throws Null_pointer st
         else if \<not> in_bounds st array index then Throws (Array_index_oob index (ArrayLength st array)) st
         else STACK_POLYMORPHIC_NEXT cd
                (drop_sp 3 (st\<lparr>heap := mem_store width (element_address width array index) v (heap st)\<rparr>)))"

definition aastore_impl :: "interp_env \<Rightarrow> analyzed_insn list \<Rightarrow> u64 \<Rightarrow> interp_state \<Rightarrow> outcome" where
  "aastore_impl env cd tos st =
     (let array = peek 3 st; index = sint (slot_i (peek 2 st)); spilled = spill (Tos_int tos) st
      in if array = 0 then Throws Null_pointer st
         else if \<not> in_bounds st array index then Throws (Array_index_oob index (ArrayLength st array)) spilled
         else if tos \<noteq> 0 \<and> \<not> env_storable env array tos then Throws Array_store spilled
         else STACK_POLYMORPHIC_NEXT cd
                (drop_sp 3 (st\<lparr>heap := mem_store 8 (element_address 8 array index) tos (heap st)\<rparr>)))"

definition arraylength_impl :: "u64 \<Rightarrow> interp_state \<Rightarrow> outcome" where
  "arraylength_impl tos st =
     (if tos = 0 then Throws Null_pointer st else NEXT_INT (word_of_int (ArrayLength st tos)) st)"

section \<open>Returns and branches\<close>

text \<open>\<open>FUEL_CHECK\<close>: the old value of the counter decides; the rest of the handler runs with the new one.\<close>

definition fuel_check :: "tos_value \<Rightarrow> interp_state \<Rightarrow> (interp_state \<Rightarrow> outcome) \<Rightarrow> outcome" where
  "fuel_check t st k =
     (let st' = st\<lparr>fuel := fuel st - 1\<rparr> in if fuel st = 0 then Refuel (spill t st') else k st')"

text \<open>\<open>delta\<close> counts bytes.\<close>

definition jump_by :: "int \<Rightarrow> interp_state \<Rightarrow> interp_state" where
  "jump_by d st = st\<lparr>pc := nat (int (pc st) + d div sizeof_bytecode_insn)\<rparr>"

definition goto_impl :: "analyzed_insn \<Rightarrow> tos_value \<Rightarrow> interp_state \<Rightarrow> outcome" where
  "goto_impl insn t st = fuel_check t st (\<lambda>st. Jump t (jump_by (delta insn) st))"

definition take_branch :: "analyzed_insn list \<Rightarrow> analyzed_insn \<Rightarrow> bool \<Rightarrow> nat \<Rightarrow> interp_state \<Rightarrow> outcome" where
  "take_branch cd insn taken pops st =
     STACK_POLYMORPHIC_JMP cd
       (drop_sp pops (jump_by (if taken then delta insn else sizeof_bytecode_insn) st))"

definition zero_branches :: "(insn_code_kind \<times> (int \<Rightarrow> bool)) list" where
  "zero_branches =
     [(insn_ifeq, \<lambda>x. x = 0), (insn_ifne, \<lambda>x. x \<noteq> 0), (insn_iflt, \<lambda>x. x < 0), (insn_ifge, \<lambda>x. x \<ge> 0),
      (insn_ifgt, \<lambda>x. x > 0), (insn_ifle, \<lambda>x. x \<le> 0), (insn_ifnull, \<lambda>x. x = 0), (insn_ifnonnull, \<lambda>x. x \<noteq> 0)]"

definition cmp_branches :: "(insn_code_kind \<times> (int \<Rightarrow> int \<Rightarrow> bool)) list" where
  "cmp_branches =
     [(insn_if_icmpeq, \<lambda>a b. a = b), (insn_if_icmpne, \<lambda>a b. a \<noteq> b), (insn_if_icmplt, \<lambda>a b. a < b),
      (insn_if_icmpge, \<lambda>a b. a \<ge> b), (insn_if_icmpgt, \<lambda>a b. a > b), (insn_if_icmple, \<lambda>a b. a \<le> b)]"

definition acmp_branches :: "(insn_code_kind \<times> (u64 \<Rightarrow> u64 \<Rightarrow> bool)) list" where
  "acmp_branches = [(insn_if_acmpeq, \<lambda>a b. a = b), (insn_if_acmpne, \<lambda>a b. a \<noteq> b)]"

definition zero_branch_impl ::
    "analyzed_insn list \<Rightarrow> analyzed_insn \<Rightarrow> (int \<Rightarrow> bool) \<Rightarrow> u64 \<Rightarrow> interp_state \<Rightarrow> outcome" where
  "zero_branch_impl cd insn test tos st =
     fuel_check (Tos_int tos) st (take_branch cd insn (test (sint (slot_i tos))) 1)"

definition cmp_branch_impl ::
    "analyzed_insn list \<Rightarrow> analyzed_insn \<Rightarrow> (int \<Rightarrow> int \<Rightarrow> bool) \<Rightarrow> u64 \<Rightarrow> interp_state \<Rightarrow> outcome" where
  "cmp_branch_impl cd insn test tos st =
     fuel_check (Tos_int tos) st (\<lambda>st.
       take_branch cd insn (test (sint (slot_i (peek 2 st))) (sint (slot_i tos))) 2 st)"

definition acmp_branch_impl ::
    "analyzed_insn list \<Rightarrow> analyzed_insn \<Rightarrow> (u64 \<Rightarrow> u64 \<Rightarrow> bool) \<Rightarrow> u64 \<Rightarrow> interp_state \<Rightarrow> outcome" where
  "acmp_branch_impl cd insn test tos st =
     fuel_check (Tos_int tos) st (\<lambda>st. take_branch cd insn (test (peek 2 st) tos) 2 st)"

text \<open>The switches compute a distance to one before the target and advance by one.\<close>

definition goto_target :: "analyzed_insn list \<Rightarrow> int \<Rightarrow> interp_state \<Rightarrow> outcome" where
  "goto_target cd target st = STACK_POLYMORPHIC_JMP cd (drop_sp 1 (st\<lparr>pc := nat target\<rparr>))"

definition tableswitch_impl ::
    "analyzed_insn list \<Rightarrow> tableswitch_data \<Rightarrow> u64 \<Rightarrow> interp_state \<Rightarrow> outcome" where
  "tableswitch_impl cd d tos st =
     (let index = sint (slot_i tos)
      in goto_target cd
           (if index < ts_low d \<or> index > ts_high d then ts_default_target d
            else ts_targets d ! nat (index - ts_low d)) st)"

fun find_key :: "int list \<Rightarrow> int list \<Rightarrow> int \<Rightarrow> int \<Rightarrow> int" where
  "find_key (k # ks) (t # ts) key dflt = (if k = key then t else find_key ks ts key dflt)"
| "find_key _ _ key dflt = dflt"

definition lookupswitch_impl ::
    "analyzed_insn list \<Rightarrow> lookupswitch_data \<Rightarrow> u64 \<Rightarrow> interp_state \<Rightarrow> outcome" where
  "lookupswitch_impl cd d tos st =
     goto_target cd (find_key (ls_keys d) (ls_targets d) (sint (slot_i tos)) (ls_default_target d)) st"

definition athrow_impl :: "u64 \<Rightarrow> interp_state \<Rightarrow> outcome" where
  "athrow_impl tos st =
     (let st = spill (Tos_int tos) st in if tos = 0 then Throws Null_pointer st else Throws (Thrown_object tos) st)"

section \<open>Locals and constants\<close>

text \<open>\<open>get_local\<close> counts back from the frame, whose locals lie directly before it.\<close>

definition local_index :: "analyzed_insn \<Rightarrow> interp_state \<Rightarrow> nat" where
  "local_index insn st = nat (int (length (locals_mem st)) - delta insn)"

definition get_local :: "analyzed_insn \<Rightarrow> interp_state \<Rightarrow> u64" where
  "get_local insn st = locals_mem st ! local_index insn st"

definition local_loads :: "(insn_code_kind \<times> (u64 \<Rightarrow> tos_value)) list" where
  "local_loads =
     [(insn_iload, \<lambda>x. Tos_int (sext (slot_i x))), (insn_fload, \<lambda>x. Tos_float (slot_i x)),
      (insn_dload, Tos_double), (insn_lload, Tos_int), (insn_aload, Tos_int)]"

definition set_local :: "nat \<Rightarrow> u64 \<Rightarrow> interp_state \<Rightarrow> interp_state" where
  "set_local i v st = st\<lparr>locals_mem := (locals_mem st)[i := v]\<rparr>"

definition local_store_impl :: "analyzed_insn list \<Rightarrow> analyzed_insn \<Rightarrow> u64 \<Rightarrow> interp_state \<Rightarrow> outcome" where
  "local_store_impl cd insn v st =
     STACK_POLYMORPHIC_NEXT cd (drop_sp 1 (set_local (local_index insn st) v st))"

text \<open>\<open>__builtin_add_overflow\<close> on \<open>int\<close> wraps; the register is passed on.\<close>

definition iinc_impl :: "u16 \<Rightarrow> int \<Rightarrow> tos_value \<Rightarrow> interp_state \<Rightarrow> outcome" where
  "iinc_impl index c t st =
     (let x = locals_mem st ! unat index
      in next_with t (set_local (unat index) (set_low x (slot_i x + word_of_int c)) st))"

definition push_impl :: "tos_value \<Rightarrow> interp_state \<Rightarrow> outcome" where
  "push_impl t st = next_with t (raise_sp 1 st)"

definition const_value :: "analyzed_insn \<Rightarrow> tos_value option" where
  "const_value insn =
     (if kind insn = insn_aconst_null then Some (Tos_int 0)
      else case operand insn of
        Integer_imm n \<Rightarrow> if kind insn = insn_iconst \<or> kind insn = insn_lconst then Some (Tos_int (word_of_int n)) else None
      | F_imm f \<Rightarrow> if kind insn = insn_fconst then Some (Tos_float f) else None
      | D_imm d \<Rightarrow> if kind insn = insn_dconst then Some (Tos_double d) else None
      | _ \<Rightarrow> None)"

section \<open>Stack instructions\<close>

text \<open>These run with every value in memory.\<close>

definition pop_impl :: "analyzed_insn list \<Rightarrow> interp_state \<Rightarrow> outcome" where
  "pop_impl cd st = STACK_POLYMORPHIC_NEXT cd (drop_sp 1 st)"

definition pop2_impl :: "analyzed_insn list \<Rightarrow> interp_state \<Rightarrow> outcome" where
  "pop2_impl cd st = STACK_POLYMORPHIC_NEXT cd (drop_sp 2 st)"

definition swap_impl :: "analyzed_insn list \<Rightarrow> interp_state \<Rightarrow> outcome" where
  "swap_impl cd st = STACK_POLYMORPHIC_NEXT cd (poke 2 (peek 1 st) (poke 1 (peek 2 st) st))"

definition dup_x1_impl :: "analyzed_insn list \<Rightarrow> interp_state \<Rightarrow> outcome" where
  "dup_x1_impl cd st =
     (let val1 = peek 1 st; val2 = peek 2 st
      in STACK_POLYMORPHIC_NEXT cd (raise_sp 1 (poke 0 val1 (poke 1 val2 (poke 2 val1 st)))))"

definition dup_x2_impl :: "analyzed_insn list \<Rightarrow> interp_state \<Rightarrow> outcome" where
  "dup_x2_impl cd st =
     (let val1 = peek 1 st; val2 = peek 2 st; val3 = peek 3 st
      in STACK_POLYMORPHIC_NEXT cd (raise_sp 1 (poke 0 val1 (poke 1 val2 (poke 2 val3 (poke 3 val1 st))))))"

definition poke_up :: "nat \<Rightarrow> u64 \<Rightarrow> interp_state \<Rightarrow> interp_state" where
  "poke_up k v st = st\<lparr>stack_mem := (stack_mem st)[sp st + k := v]\<rparr>"

definition dup2_x1_impl :: "analyzed_insn list \<Rightarrow> interp_state \<Rightarrow> outcome" where
  "dup2_x1_impl cd st =
     (let val1 = peek 1 st; val2 = peek 2 st; val3 = peek 3 st
      in STACK_POLYMORPHIC_NEXT cd
           (raise_sp 2 (poke_up 1 val1 (poke 0 val2 (poke 1 val3 (poke 2 val1 (poke 3 val2 st)))))))"

definition dup2_x2_impl :: "analyzed_insn list \<Rightarrow> interp_state \<Rightarrow> outcome" where
  "dup2_x2_impl cd st =
     (let val1 = peek 1 st; val2 = peek 2 st; val3 = peek 3 st; val4 = peek 4 st
      in STACK_POLYMORPHIC_NEXT cd
           (raise_sp 2 (poke_up 1 val1 (poke 0 val2 (poke 1 val3 (poke 2 val4 (poke 3 val1 (poke 4 val2 st))))))))"

text \<open>The forwarded stack instructions and their number of operands.\<close>

definition memory_insns :: "(insn_code_kind \<times> (analyzed_insn list \<Rightarrow> interp_state \<Rightarrow> outcome)) list" where
  "memory_insns =
     [(insn_pop, pop_impl), (insn_pop2, pop2_impl), (insn_swap, swap_impl), (insn_dup_x1, dup_x1_impl),
      (insn_dup_x2, dup_x2_impl), (insn_dup2_x1, dup2_x1_impl), (insn_dup2_x2, dup2_x2_impl)]"

text \<open>\<open>dup\<close> and \<open>dup2\<close> have their own handlers. Those of \<open>dup2\<close> for a float and a double jump on with
  \<open>NEXT_INT(tos)\<close>, which converts the number to an integer and goes to the integer table.\<close>

fun dup_impl :: "tos_value \<Rightarrow> interp_state \<Rightarrow> outcome" where
  "dup_impl Tos_void st = No_handler"
| "dup_impl (Tos_int x) st = NEXT_INT x (raise_sp 1 (poke 1 x st))"
| "dup_impl (Tos_float f) st = NEXT_FLOAT f (raise_sp 1 (poke 1 (set_low (peek 1 st) f) st))"
| "dup_impl (Tos_double d) st = NEXT_DOUBLE d (raise_sp 1 (poke 1 d st))"

definition dup2_memory :: "u64 \<Rightarrow> interp_state \<Rightarrow> interp_state" where
  "dup2_memory v st = (let val2 = peek 2 st in raise_sp 2 (poke 0 val2 (poke 1 v st)))"

fun dup2_impl :: "fpu \<Rightarrow> tos_value \<Rightarrow> interp_state \<Rightarrow> outcome" where
  "dup2_impl fp Tos_void st = No_handler"
| "dup2_impl fp (Tos_int x) st = NEXT_INT x (dup2_memory x st)"
| "dup2_impl fp (Tos_float f) st = NEXT_INT (fp_long_of_float fp f) (dup2_memory (set_low (peek 1 st) f) st)"
| "dup2_impl fp (Tos_double d) st = NEXT_INT (word_of_int (f64_trunc d)) (dup2_memory d st)"

section \<open>Dispatch\<close>

text \<open>The handlers that exist for every kind of register: those with four versions in the source, and
  the ones forwarded to a version without register after a spill.\<close>

definition common_handler ::
    "interp_env \<Rightarrow> analyzed_insn list \<Rightarrow> analyzed_insn \<Rightarrow> tos_value \<Rightarrow> interp_state \<Rightarrow> outcome option" where
  "common_handler env cd insn t st =
     (if kind insn = insn_nop then Some (next_with t st)
      else if kind insn = insn_goto then Some (goto_impl insn t st)
      else if kind insn = insn_dup then Some (dup_impl t st)
      else if kind insn = insn_dup2 then Some (dup2_impl (env_fpu env) t st)
      else if kind insn = insn_return then Some (Return_value 0 (spill t st))
      else if kind insn = insn_iinc then
        (case operand insn of Iinc index c \<Rightarrow> Some (iinc_impl index c t st) | _ \<Rightarrow> Some No_handler)
      else (case map_of local_loads (kind insn) of
              Some f \<Rightarrow> Some (let st = spill t st in push_impl (f (get_local insn st)) st)
            | None \<Rightarrow>
           (case const_value insn of
              Some c \<Rightarrow> Some (push_impl c (spill t st))
            | None \<Rightarrow> map_option (\<lambda>f. f cd (spill t st)) (map_of memory_insns (kind insn)))))"

definition int_store_value :: "insn_code_kind \<Rightarrow> u64 \<Rightarrow> u64 \<Rightarrow> u64 option" where
  "int_store_value k old x =
     (if k = insn_istore then Some (set_low old (slot_i x))
      else if k = insn_lstore \<or> k = insn_astore then Some x
      else None)"

definition int_handler ::
    "interp_env \<Rightarrow> analyzed_insn list \<Rightarrow> analyzed_insn \<Rightarrow> u64 \<Rightarrow> interp_state \<Rightarrow> outcome" where
  "int_handler env cd insn x st =
     (case map_of int_bin_ops (kind insn) of
        Some f \<Rightarrow> NEXT_INT (f (peek 2 st) x) (drop_sp 1 st)
      | None \<Rightarrow>
     (case map_of (int_un_ops (env_fpu env)) (kind insn) of
        Some f \<Rightarrow> next_with (f x) st
      | None \<Rightarrow>
     (case map_of div_ops (kind insn) of
        Some (is_zero, eval) \<Rightarrow> div_impl is_zero eval x st
      | None \<Rightarrow>
     (case map_of array_loads (kind insn) of
        Some (width, widen) \<Rightarrow> array_load_impl width widen x st
      | None \<Rightarrow>
     (case map_of array_stores (kind insn) of
        Some width \<Rightarrow> array_store_impl cd width x st
      | None \<Rightarrow>
     (case map_of zero_branches (kind insn) of
        Some test \<Rightarrow> zero_branch_impl cd insn test x st
      | None \<Rightarrow>
     (case map_of cmp_branches (kind insn) of
        Some test \<Rightarrow> cmp_branch_impl cd insn test x st
      | None \<Rightarrow>
     (case map_of acmp_branches (kind insn) of
        Some test \<Rightarrow> acmp_branch_impl cd insn test x st
      | None \<Rightarrow>
     (case int_store_value (kind insn) (get_local insn st) x of
        Some v \<Rightarrow> local_store_impl cd insn v st
      | None \<Rightarrow>
     if kind insn = insn_lcmp then lcmp_impl x st
     else if kind insn = insn_aastore then aastore_impl env cd x st
     else if kind insn = insn_arraylength then arraylength_impl x st
     else if kind insn = insn_athrow then athrow_impl x st
     else if kind insn = insn_ireturn then Return_value (sext (slot_i x)) (spill (Tos_int x) st)
     else if kind insn = insn_lreturn \<or> kind insn = insn_areturn then Return_value x (spill (Tos_int x) st)
     else (case operand insn of
             Tableswitch d \<Rightarrow> if kind insn = insn_tableswitch then tableswitch_impl cd d x st else No_handler
           | Lookupswitch d \<Rightarrow> if kind insn = insn_lookupswitch then lookupswitch_impl cd d x st else No_handler
           | _ \<Rightarrow> Other_part (Tos_int x) st))))))))))"

definition float_handler ::
    "interp_env \<Rightarrow> analyzed_insn list \<Rightarrow> analyzed_insn \<Rightarrow> u32 \<Rightarrow> interp_state \<Rightarrow> outcome" where
  "float_handler env cd insn x st =
     (case map_of (float_bin_ops (env_fpu env)) (kind insn) of
        Some f \<Rightarrow> next_with (f (slot_i (peek 2 st)) x) (drop_sp 1 st)
      | None \<Rightarrow>
     (case map_of (float_un_ops (env_fpu env)) (kind insn) of
        Some f \<Rightarrow> next_with (f x) st
      | None \<Rightarrow>
     if kind insn = insn_fstore then local_store_impl cd insn (set_low (get_local insn st) x) st
     else if kind insn = insn_fastore then array_store_impl cd 4 (ucast x) st
     else if kind insn = insn_freturn then Return_value (ucast x) (spill (Tos_float x) st)
     else Other_part (Tos_float x) st))"

definition double_handler ::
    "interp_env \<Rightarrow> analyzed_insn list \<Rightarrow> analyzed_insn \<Rightarrow> u64 \<Rightarrow> interp_state \<Rightarrow> outcome" where
  "double_handler env cd insn x st =
     (case map_of (double_bin_ops (env_fpu env)) (kind insn) of
        Some f \<Rightarrow> next_with (f (peek 2 st) x) (drop_sp 1 st)
      | None \<Rightarrow>
     (case map_of (double_un_ops (env_fpu env)) (kind insn) of
        Some f \<Rightarrow> next_with (f x) st
      | None \<Rightarrow>
     if kind insn = insn_dstore then local_store_impl cd insn x st
     else if kind insn = insn_dastore then array_store_impl cd 8 x st
     else if kind insn = insn_dreturn then Return_value x (spill (Tos_double x) st)
     else Other_part (Tos_double x) st))"

fun typed_handler ::
    "interp_env \<Rightarrow> analyzed_insn list \<Rightarrow> analyzed_insn \<Rightarrow> tos_value \<Rightarrow> interp_state \<Rightarrow> outcome" where
  "typed_handler env cd insn Tos_void st = Other_part Tos_void st"
| "typed_handler env cd insn (Tos_int x) st = int_handler env cd insn x st"
| "typed_handler env cd insn (Tos_float x) st = float_handler env cd insn x st"
| "typed_handler env cd insn (Tos_double x) st = double_handler env cd insn x st"

text \<open>One jump through the table of the register's kind.\<close>

definition interp_step :: "interp_env \<Rightarrow> analyzed_insn list \<Rightarrow> tos_value \<Rightarrow> interp_state \<Rightarrow> outcome" where
  "interp_step env cd t st =
     (if pc st \<ge> length cd then No_handler
      else let insn = cd ! pc st
      in if kind insn \<notin> set (jmp_table (tos_kind t)) then No_handler
         else (case common_handler env cd insn t st of
                 Some r \<Rightarrow> r
               | None \<Rightarrow> typed_handler env cd insn t st))"

text \<open>\<open>entry_impl_void\<close>: a frame starts, or resumes after a refuel, with every value in memory.\<close>

definition entry_impl :: "analyzed_insn list \<Rightarrow> interp_state \<Rightarrow> outcome" where
  "entry_impl cd st = STACK_POLYMORPHIC_JMP cd st"

text \<open>The chain of handlers from an instruction until one of them does not jump on; \<open>n\<close> bounds the
  number of instructions.\<close>

fun interp_run :: "interp_env \<Rightarrow> analyzed_insn list \<Rightarrow> nat \<Rightarrow> outcome \<Rightarrow> outcome" where
  "interp_run env cd (Suc n) (Jump t st) = interp_run env cd n (interp_step env cd t st)"
| "interp_run env cd n r = r"

end
