(* ===== verification/Interpreter_Typing.thy ===== *)
theory Interpreter_Typing
  imports Interpreter
begin

text \<open>
  The contract between the analysis and the interpreter: the annotations that \<open>analyze_instruction\<close>
  leaves behind always select an entry of a jump table that is filled.
\<close>

section \<open>Jump tables are complete\<close>

fun kind_tos :: "type_kind \<Rightarrow> reduced_tos_kind" where
  "kind_tos TYPE_KIND_FLOAT = TOS_FLOAT"
| "kind_tos TYPE_KIND_DOUBLE = TOS_DOUBLE"
| "kind_tos _ = TOS_INT"

definition stack_tos :: "type_state \<Rightarrow> reduced_tos_kind" where
  "stack_tos st = (case st of [] \<Rightarrow> TOS_VOID | k # _ \<Rightarrow> kind_tos k)"

lemma calculate_tos_type_Inr: "calculate_tos_type st = Inr t \<Longrightarrow> t = stack_tos st"
  by (cases st rule: calculate_tos_type.cases; cases "hd st") (auto simp: stack_tos_def)

definition handled :: "insn_code_kind \<Rightarrow> type_kind list \<Rightarrow> bool" where
  "handled k pops \<longleftrightarrow>
     (case pops of
        [] \<Rightarrow> list_all (\<lambda>t. k \<in> set (jmp_table t)) [TOS_VOID, TOS_INT, TOS_FLOAT, TOS_DOUBLE]
      | p # _ \<Rightarrow> k \<in> set (jmp_table (kind_tos p)))"

lemmas table_defs = jmp_table_void_def jmp_table_int_def jmp_table_float_def jmp_table_double_def

lemma group_handled:
  "list_all (\<lambda>(ks, pops, _). list_all (\<lambda>k. k = insn_ret \<or> handled k pops) ks) array_effects"
  "list_all (\<lambda>(ks, pops, _). list_all (\<lambda>k. k = insn_ret \<or> handled k pops) ks) convert_effects"
  "list_all (\<lambda>(ks, pops, _). list_all (\<lambda>k. k = insn_ret \<or> handled k pops) ks) arith_effects"
  "list_all (\<lambda>(ks, pops, _). list_all (\<lambda>k. k = insn_ret \<or> handled k pops) ks) misc_effects"
  by (simp_all add: array_effects_def convert_effects_def arith_effects_def misc_effects_def handled_def table_defs)

lemma effects_of_mem: "(k, e) \<in> set (effects_of gs) \<longleftrightarrow> (\<exists>ks. (ks, e) \<in> set gs \<and> k \<in> set ks)"
  by (induction gs) (auto simp: effects_of_def)

lemma plain_handled:
  assumes "map_of plain_effects k = Some (pops, pushes, t)" "k \<noteq> insn_ret"
  shows "handled k pops"
proof -
  obtain ks where "(ks, pops, pushes, t) \<in> set (array_effects @ convert_effects @ arith_effects @ misc_effects)"
    and "k \<in> set ks"
    using map_of_SomeD [OF assms(1)] unfolding plain_effects_def effects_of_mem by blast
  then show ?thesis
    using group_handled assms(2) by (auto simp: list_all_iff)
qed

lemma branch_handled: "map_of branch_effects k = Some (pops, t) \<Longrightarrow> handled k pops"
proof -
  have "list_all (\<lambda>(k, pops, _). handled k pops) branch_effects"
    by (simp add: branch_effects_def handled_def table_defs)
  then show "map_of branch_effects k = Some (pops, t) \<Longrightarrow> handled k pops"
    by (auto simp: list_all_iff dest!: map_of_SomeD)
qed

lemma load_handled: "map_of load_kinds k = Some t \<Longrightarrow> handled k []"
proof -
  have "list_all (\<lambda>(k, _). handled k []) load_kinds"
    by (simp add: load_kinds_def handled_def table_defs)
  then show "map_of load_kinds k = Some t \<Longrightarrow> handled k []"
    by (auto simp: list_all_iff dest!: map_of_SomeD)
qed

lemma store_handled: "map_of store_kinds k = Some t \<Longrightarrow> handled k [t]"
proof -
  have "list_all (\<lambda>(k, t). handled k [t]) store_kinds"
    by (simp add: store_kinds_def handled_def table_defs)
  then show "map_of store_kinds k = Some t \<Longrightarrow> handled k [t]"
    by (auto simp: list_all_iff dest!: map_of_SomeD)
qed

lemma operand_handled:
  "handled insn_iinc []" "handled insn_getstatic []" "handled insn_getfield [TYPE_KIND_REFERENCE]"
  "handled insn_invokestatic []" "handled insn_invokedynamic []" "handled insn_invokevirtual []"
  "handled insn_invokeinterface []"
  "handled insn_tableswitch [TYPE_KIND_INT]" "handled insn_lookupswitch [TYPE_KIND_INT]"
  "handled insn_multianewarray [TYPE_KIND_INT]"
  by (simp_all add: handled_def table_defs)

text \<open>Instructions that find something on the stack: every table but the first has them.\<close>

lemma nonempty_handled:
  "list_all (\<lambda>k. list_all (\<lambda>t. k \<in> set (jmp_table t)) [TOS_INT, TOS_FLOAT, TOS_DOUBLE])
     ([insn_putfield, insn_putstatic, insn_invokespecial] @ map fst stack_insns)"
  by (simp add: stack_insns_def table_defs)

lemma pop_val_Inr: "pop_val st = Inr (k, st') \<longleftrightarrow> st = k # st'"
  by (cases st) auto

lemma pop_kind_Inr: "pop_kind k st = Inr st' \<longleftrightarrow> st = k # st'"
  by (cases st) (auto simp: pop_kind_def)

lemma pop_kinds_Inr: "pop_kinds ks st = Inr st' \<longleftrightarrow> st = ks @ st'"
  by (induction ks arbitrary: st) (auto simp: rbind_Inr pop_kind_Inr)

lemma handled_pops: "handled k pops \<Longrightarrow> pop_kinds pops st = Inr st' \<Longrightarrow> k \<in> set (jmp_table (stack_tos st))"
  by (cases pops; cases "stack_tos st") (auto simp: handled_def pop_kinds_Inr stack_tos_def simp del: pop_kinds.simps)

lemma handled_any: "handled k [] \<Longrightarrow> k \<in> set (jmp_table t)"
  by (cases t) (auto simp: handled_def)

lemma stack_tos_Cons [simp]: "stack_tos (k # st) = kind_tos k"
  by (simp add: stack_tos_def)

lemma nonempty_table:
  assumes "k \<in> set ([insn_putfield, insn_putstatic, insn_invokespecial] @ map fst stack_insns)"
  shows "k \<in> set (jmp_table (kind_tos t))"
  using nonempty_handled assms by (cases t) (auto simp: list_all_iff simp del: jmp_table.simps)

lemma stack_insn_kind:
  assumes "map_of stack_insns k0 = Some f" "f cap st = Inr (k, st')"
  shows "k \<in> set (map fst stack_insns)" "st \<noteq> []"
proof -
  have "f \<in> snd ` set stack_insns"
    using map_of_SomeD [OF assms(1)] by force
  then show "k \<in> set (map fst stack_insns)" "st \<noteq> []"
    using assms(2)
    by (auto simp: stack_insns_def analyze_dup_def analyze_dup_x1_def analyze_dup_x2_def analyze_dup2_def
        analyze_dup2_x1_def analyze_dup2_x2_def analyze_pop_def analyze_pop2_def analyze_swap_def
        push_rewrite_def mismatch_def rbind_Inr pop_val_Inr split: if_splits)
qed

lemma operand_dispatch:
  assumes "analyze_operand pool maxl n rw i insn ctx = Inr (insn', ctx', t)" "kind insn \<noteq> insn_jsr"
    and "\<forall>j. operand insn \<noteq> Multianewarray j 0"
  shows "kind insn' = kind insn" "tos_before insn' = tos_before insn"
    and "kind insn \<in> set (jmp_table (stack_tos (an_stack ctx)))"
proof -
  show "kind insn' = kind insn" "tos_before insn' = tos_before insn"
    using assms by (auto simp: analyze_operand_def analyze_defs rbind_Inr local_insn_def Let_def
        split: insn_operand.splits option.splits if_splits)
  show "kind insn \<in> set (jmp_table (stack_tos (an_stack ctx)))"
  proof (cases "operand insn")
    case (Index w)
    show ?thesis
    proof (cases "map_of load_kinds (kind insn)")
      case (Some k)
      then show ?thesis by (rule load_handled [THEN handled_any])
    next
      case no_load: None
      show ?thesis
      proof (cases "map_of store_kinds (kind insn)")
        case (Some k)
        then show ?thesis
          using assms(1) Index no_load store_handled [OF Some]
          by (auto simp: analyze_operand_def analyze_store_def rbind_Inr pop_kind_Inr handled_def)
      next
        case None
        then show ?thesis
          using assms Index no_load
          by (auto simp: analyze_operand_def analyze_branch_def rbind_Inr split: option.splits
              intro: handled_pops [OF branch_handled])
      qed
    qed
  next
    case (Cp j)
    then consider "kind insn = insn_getstatic" | "kind insn = insn_getfield"
      | "kind insn \<in> {insn_putfield, insn_putstatic}" | "kind insn = insn_invokespecial"
      | "kind insn \<in> {insn_invokevirtual, insn_invokeinterface, insn_invokestatic, insn_invokedynamic}"
      using assms(1) by (fastforce simp: analyze_operand_def invoke_kinds_def split: if_splits)
    then show ?thesis
    proof cases
      case 1 then show ?thesis using handled_any [OF operand_handled(2)] by simp
    next
      case 2 then show ?thesis
        using assms(1) Cp operand_handled(3)
        by (auto simp: analyze_operand_def analyze_get_def with_stack_def rbind_Inr pop_kind_Inr handled_def)
    next
      case 3 then show ?thesis
        using assms(1) Cp nonempty_table [of "kind insn"]
        by (auto simp: analyze_operand_def analyze_put_def with_stack_def rbind_Inr pop_val_Inr)
    next
      case 4
      then have "\<exists>(d :: method_descriptor) st. pop_kinds (rev (map repr_kind (args d)) @ [TYPE_KIND_REFERENCE]) (an_stack ctx) = Inr st"
        using assms(1) Cp
        by (auto simp: analyze_operand_def analyze_invoke_def with_stack_def call_effect_def rbind_Inr invoke_kinds_def
            split: if_splits)
      then obtain y ys where "an_stack ctx = y # ys"
        by (cases "an_stack ctx") (auto simp: pop_kinds_Inr)
      then show ?thesis
        using 4 nonempty_table [of "kind insn" y] by simp
    next
      case 5 then show ?thesis using operand_handled(4-7) [THEN handled_any] by auto
    qed
  next
    case (Multianewarray j dims)
    then show ?thesis
      using assms operand_handled(10)
      by (cases "unat dims") (auto simp: analyze_operand_def analyze_multianewarray_def with_stack_def rbind_Inr
          pop_kind_Inr handled_def unat_eq_0 split: if_splits)
  qed (use assms(1) operand_handled(1,8,9) handled_any in \<open>auto simp: analyze_operand_def analyze_switch_def
         rbind_Inr pop_kind_Inr handled_def split: if_splits\<close>)
qed

lemma kind_dispatch:
  assumes "analyze_switch_kind pool maxl n True i insn ctx = Inr (insn', ctx', t)" "kind insn \<notin> {insn_jsr, insn_ret}"
    and "\<forall>j. operand insn \<noteq> Multianewarray j 0"
  shows "tos_before insn' = tos_before insn" "kind insn' \<in> set (jmp_table (stack_tos (an_stack ctx)))"
proof -
  consider (plain) pops pushes t' where "map_of plain_effects (kind insn) = Some (pops, pushes, t')"
    | (stack) f where "map_of plain_effects (kind insn) = None" "map_of stack_insns (kind insn) = Some f"
    | (operand) "map_of plain_effects (kind insn) = None" "map_of stack_insns (kind insn) = None"
    by (metis option.exhaust prod_cases3)
  then have "tos_before insn' = tos_before insn \<and> kind insn' \<in> set (jmp_table (stack_tos (an_stack ctx)))"
  proof cases
    case plain
    then show ?thesis
      using assms plain_handled [OF plain]
      by (auto simp: analyze_switch_kind_def rbind_Inr intro: handled_pops)
  next
    case stack
    then obtain k st' where f: "f (an_stack_cap ctx) (an_stack ctx) = Inr (k, st')" and insn': "insn' = insn\<lparr>kind := k\<rparr>"
      using assms(1) by (auto simp: analyze_switch_kind_def rbind_Inr)
    obtain y ys where "an_stack ctx = y # ys"
      using stack_insn_kind(2) [OF stack(2) f] by (auto simp: neq_Nil_conv)
    then show ?thesis
      using nonempty_table [of k y] stack_insn_kind(1) [OF stack(2) f] by (simp add: insn')
  next
    case operand
    then show ?thesis
      using assms operand_dispatch [of pool maxl n True i insn ctx insn' ctx' t]
      by (auto simp: analyze_switch_kind_def)
  qed
  then show "tos_before insn' = tos_before insn" "kind insn' \<in> set (jmp_table (stack_tos (an_stack ctx)))"
    by auto
qed

lemma dispatch:
  assumes "analyze_instruction pool maxl n True i insn ctx = Inr (insn', ctx', t)"
    and "kind insn \<notin> {insn_jsr, insn_ret}" "\<forall>j. operand insn \<noteq> Multianewarray j 0"
  shows "tos_before insn' = stack_tos (an_stack ctx)" "tos_after insn' = stack_tos (an_stack ctx')"
    and "kind insn' \<in> set (jmp_table (tos_before insn'))"
proof -
  obtain before after insn'' where before: "calculate_tos_type (an_stack ctx) = Inr before"
    and sw: "analyze_switch_kind pool maxl n True i (insn\<lparr>tos_before := before\<rparr>) ctx = Inr (insn'', ctx', t)"
    and after: "calculate_tos_type (an_stack ctx') = Inr after" and insn': "insn' = insn''\<lparr>tos_after := after\<rparr>"
    using assms(1) by (auto simp: analyze_instruction_def rbind_Inr)
  have "tos_before insn'' = before" "kind insn'' \<in> set (jmp_table (stack_tos (an_stack ctx)))"
    using kind_dispatch [OF sw] assms(2,3) by auto
  then show "tos_before insn' = stack_tos (an_stack ctx)" "tos_after insn' = stack_tos (an_stack ctx')"
    "kind insn' \<in> set (jmp_table (tos_before insn'))"
    using calculate_tos_type_Inr [OF before] calculate_tos_type_Inr [OF after] by (simp_all add: insn')
qed

end
