(* ===== verification/Jvm_Reference.thy ===== *)
theory Jvm_Reference
  imports Interpreter_Typing
begin

text \<open>
  The specification of the interpreter: the operand-stack machine of the Java virtual machine
  specification for the instructions that stay within a frame. Values carry their type, the stack
  is one list, locals have the numbers of the class file, the code is the code of the class file
  before the analysis rewrites it, and there are no registers, tables or fuel.
\<close>

section \<open>Values and frames\<close>

datatype jval = JInt u32 | JLong u64 | JFloat u32 | JDouble u64 | JRef u64

fun jtype :: "jval \<Rightarrow> type_kind" where
  "jtype (JInt _) = TYPE_KIND_INT"
| "jtype (JLong _) = TYPE_KIND_LONG"
| "jtype (JFloat _) = TYPE_KIND_FLOAT"
| "jtype (JDouble _) = TYPE_KIND_DOUBLE"
| "jtype (JRef _) = TYPE_KIND_REFERENCE"

definition category2 :: "jval \<Rightarrow> bool" where
  "category2 v \<longleftrightarrow> is_kind_wide (jtype v)"

record jframe =
  j_stack :: "jval list"
  j_locals :: "nat \<Rightarrow> jval option"
  j_pc :: nat
  j_heap :: "u64 \<Rightarrow> u8"

datatype jresult =
    Continue jframe
  | Returned "jval option"
  | Raised thrown
  | Outside jframe
  | Stuck

section \<open>Operations on values\<close>

definition jint_bin :: "(insn_code_kind \<times> (u32 \<Rightarrow> u32 \<Rightarrow> u32)) list" where
  "jint_bin =
     [(insn_iadd, (+)), (insn_isub, (-)), (insn_imul, (*)), (insn_iand, (AND)), (insn_ior, (OR)), (insn_ixor, (XOR)),
      (insn_ishl, \<lambda>a b. push_bit (unat b mod 32) a),
      (insn_ishr, \<lambda>a b. signed_drop_bit (unat b mod 32) a),
      (insn_iushr, \<lambda>a b. drop_bit (unat b mod 32) a)]"

definition jlong_bin :: "(insn_code_kind \<times> (u64 \<Rightarrow> u64 \<Rightarrow> u64)) list" where
  "jlong_bin =
     [(insn_ladd, (+)), (insn_lsub, (-)), (insn_lmul, (*)), (insn_land, (AND)), (insn_lor, (OR)), (insn_lxor, (XOR))]"

definition jlong_shift :: "(insn_code_kind \<times> (u64 \<Rightarrow> u32 \<Rightarrow> u64)) list" where
  "jlong_shift =
     [(insn_lshl, \<lambda>a b. push_bit (unat b mod 64) a),
      (insn_lshr, \<lambda>a b. signed_drop_bit (unat b mod 64) a),
      (insn_lushr, \<lambda>a b. drop_bit (unat b mod 64) a)]"

definition jint_un :: "fpu \<Rightarrow> (insn_code_kind \<times> (u32 \<Rightarrow> jval)) list" where
  "jint_un fp =
     [(insn_ineg, \<lambda>a. JInt (- a)),
      (insn_i2l, \<lambda>a. JLong (scast a)),
      (insn_i2b, \<lambda>a. JInt (scast (ucast a :: u8))),
      (insn_i2c, \<lambda>a. JInt (ucast (ucast a :: u16))),
      (insn_i2s, \<lambda>a. JInt (scast (ucast a :: u16))),
      (insn_i2f, \<lambda>a. JFloat (fp_float_of_long fp (scast a))),
      (insn_i2d, \<lambda>a. JDouble (fp_double_of_long fp (scast a)))]"

definition jlong_un :: "fpu \<Rightarrow> (insn_code_kind \<times> (u64 \<Rightarrow> jval)) list" where
  "jlong_un fp =
     [(insn_lneg, \<lambda>a. JLong (- a)),
      (insn_l2i, \<lambda>a. JInt (ucast a)),
      (insn_l2f, \<lambda>a. JFloat (fp_float_of_long fp a)),
      (insn_l2d, \<lambda>a. JDouble (fp_double_of_long fp a))]"

text \<open>Comparison: \<open>unordered\<close> is the result when an operand is NaN.\<close>

definition compare_int :: "int \<Rightarrow> int \<Rightarrow> u32" where
  "compare_int a b = (if a < b then -1 else if a = b then 0 else 1)"

definition jfloat_compare :: "u32 \<Rightarrow> u32 \<Rightarrow> u32 \<Rightarrow> u32" where
  "jfloat_compare unordered a b =
     (if f32_nan a \<or> f32_nan b then unordered else compare_int (f32_key a) (f32_key b))"

definition jdouble_compare :: "u32 \<Rightarrow> u64 \<Rightarrow> u64 \<Rightarrow> u32" where
  "jdouble_compare unordered a b =
     (if f64_nan a \<or> f64_nan b then unordered else compare_int (f64_key a) (f64_key b))"

definition jfloat_bin :: "fpu \<Rightarrow> (insn_code_kind \<times> (u32 \<Rightarrow> u32 \<Rightarrow> jval)) list" where
  "jfloat_bin fp =
     [(insn_fadd, \<lambda>a b. JFloat (fp_fadd fp a b)), (insn_fsub, \<lambda>a b. JFloat (fp_fsub fp a b)),
      (insn_fmul, \<lambda>a b. JFloat (fp_fmul fp a b)), (insn_fdiv, \<lambda>a b. JFloat (fp_fdiv fp a b)),
      (insn_frem, \<lambda>a b. JFloat (fp_fmodf fp a b)),
      (insn_fcmpg, \<lambda>a b. JInt (jfloat_compare 1 a b)), (insn_fcmpl, \<lambda>a b. JInt (jfloat_compare (-1) a b))]"

definition jdouble_bin :: "fpu \<Rightarrow> (insn_code_kind \<times> (u64 \<Rightarrow> u64 \<Rightarrow> jval)) list" where
  "jdouble_bin fp =
     [(insn_dadd, \<lambda>a b. JDouble (fp_dadd fp a b)), (insn_dsub, \<lambda>a b. JDouble (fp_dsub fp a b)),
      (insn_dmul, \<lambda>a b. JDouble (fp_dmul fp a b)), (insn_ddiv, \<lambda>a b. JDouble (fp_ddiv fp a b)),
      (insn_drem, \<lambda>a b. JDouble (fp_fmod fp a b)),
      (insn_dcmpg, \<lambda>a b. JInt (jdouble_compare 1 a b)), (insn_dcmpl, \<lambda>a b. JInt (jdouble_compare (-1) a b))]"

definition jfloat_un :: "fpu \<Rightarrow> (insn_code_kind \<times> (u32 \<Rightarrow> jval)) list" where
  "jfloat_un fp =
     [(insn_fneg, \<lambda>a. JFloat (a XOR 0x80000000)), (insn_f2i, \<lambda>a. JInt (float_to_int fp a)),
      (insn_f2l, \<lambda>a. JLong (float_to_long fp a)), (insn_f2d, \<lambda>a. JDouble (fp_double_of_float fp a))]"

definition jdouble_un :: "fpu \<Rightarrow> (insn_code_kind \<times> (u64 \<Rightarrow> jval)) list" where
  "jdouble_un fp =
     [(insn_dneg, \<lambda>a. JDouble (a XOR 0x8000000000000000)), (insn_d2i, \<lambda>a. JInt (double_to_int a)),
      (insn_d2l, \<lambda>a. JLong (double_to_long a)), (insn_d2f, \<lambda>a. JFloat (fp_float_of_double fp a))]"

text \<open>Instructions that replace the top of the stack and cannot fail: \<open>None\<close> when the instruction is not
  one of them or its operands have other types.\<close>

definition int_operation :: "fpu \<Rightarrow> insn_code_kind \<Rightarrow> jval list \<Rightarrow> jval list option" where
  "int_operation fp k st =
     (case st of
        JInt b # JInt a # rest \<Rightarrow>
          (case map_of jint_bin k of
             Some f \<Rightarrow> Some (JInt (f a b) # rest)
           | None \<Rightarrow> map_option (\<lambda>f. f b # JInt a # rest) (map_of (jint_un fp) k))
      | JInt b # JLong a # rest \<Rightarrow>
          (case map_of jlong_shift k of
             Some f \<Rightarrow> Some (JLong (f a b) # rest)
           | None \<Rightarrow> map_option (\<lambda>f. f b # JLong a # rest) (map_of (jint_un fp) k))
      | JInt b # rest \<Rightarrow> map_option (\<lambda>f. f b # rest) (map_of (jint_un fp) k)
      | _ \<Rightarrow> None)"

definition long_operation :: "fpu \<Rightarrow> insn_code_kind \<Rightarrow> jval list \<Rightarrow> jval list option" where
  "long_operation fp k st =
     (case st of
        JLong b # JLong a # rest \<Rightarrow>
          (case map_of jlong_bin k of
             Some f \<Rightarrow> Some (JLong (f a b) # rest)
           | None \<Rightarrow>
          if k = insn_lcmp then Some (JInt (compare_int (sint a) (sint b)) # rest)
          else map_option (\<lambda>f. f b # JLong a # rest) (map_of (jlong_un fp) k))
      | JLong b # rest \<Rightarrow> map_option (\<lambda>f. f b # rest) (map_of (jlong_un fp) k)
      | _ \<Rightarrow> None)"

definition float_operation :: "fpu \<Rightarrow> insn_code_kind \<Rightarrow> jval list \<Rightarrow> jval list option" where
  "float_operation fp k st =
     (case st of
        JFloat b # JFloat a # rest \<Rightarrow>
          (case map_of (jfloat_bin fp) k of
             Some f \<Rightarrow> Some (f a b # rest)
           | None \<Rightarrow> map_option (\<lambda>f. f b # JFloat a # rest) (map_of (jfloat_un fp) k))
      | JFloat b # rest \<Rightarrow> map_option (\<lambda>f. f b # rest) (map_of (jfloat_un fp) k)
      | JDouble b # JDouble a # rest \<Rightarrow>
          (case map_of (jdouble_bin fp) k of
             Some f \<Rightarrow> Some (f a b # rest)
           | None \<Rightarrow> map_option (\<lambda>f. f b # JDouble a # rest) (map_of (jdouble_un fp) k))
      | JDouble b # rest \<Rightarrow> map_option (\<lambda>f. f b # rest) (map_of (jdouble_un fp) k)
      | _ \<Rightarrow> None)"

section \<open>Stack instructions\<close>

text \<open>The forms of the specification, by the category of the values.\<close>

definition stack_operation :: "insn_code_kind \<Rightarrow> jval list \<Rightarrow> jval list option" where
  "stack_operation k st =
     (case st of
        [] \<Rightarrow> None
      | v1 # r1 \<Rightarrow>
          if k = insn_pop then (if category2 v1 then None else Some r1)
          else if k = insn_dup then Some (v1 # v1 # r1)
          else if k = insn_pop2 \<and> category2 v1 then Some r1
          else if k = insn_dup2 \<and> category2 v1 then Some (v1 # v1 # r1)
          else (case r1 of
             [] \<Rightarrow> None
           | v2 # r2 \<Rightarrow>
               if k = insn_pop2 then (if category2 v2 then None else Some r2)
               else if k = insn_swap then (if category2 v1 \<or> category2 v2 then None else Some (v2 # v1 # r2))
               else if k = insn_dup2 then (if category2 v2 then None else Some (v1 # v2 # v1 # v2 # r2))
               else if k = insn_dup_x1 then
                 (if category2 v1 \<or> category2 v2 then None else Some (v1 # v2 # v1 # r2))
               else if k = insn_dup_x2 \<and> category2 v1 then None
               else if k = insn_dup_x2 \<and> category2 v2 then Some (v1 # v2 # v1 # r2)
               else if k = insn_dup2_x1 \<and> category2 v1 then Some (v1 # v2 # v1 # r2)
               else if k = insn_dup2_x2 \<and> category2 v1 \<and> category2 v2 then Some (v1 # v2 # v1 # r2)
               else (case r2 of
                  [] \<Rightarrow> None
                | v3 # r3 \<Rightarrow>
                    if k = insn_dup_x2 then Some (v1 # v2 # v3 # v1 # r3)
                    else if k = insn_dup2_x1 then (if category2 v3 then None else Some (v1 # v2 # v3 # v1 # v2 # r3))
                    else if k = insn_dup2_x2 \<and> category2 v1 then
                      (if category2 v3 then None else Some (v1 # v2 # v3 # v1 # r3))
                    else if k = insn_dup2_x2 \<and> category2 v3 then Some (v1 # v2 # v3 # v1 # v2 # r3)
                    else (case r3 of
                       [] \<Rightarrow> None
                     | v4 # r4 \<Rightarrow>
                         if k = insn_dup2_x2 then
                           (if category2 v4 then None else Some (v1 # v2 # v3 # v4 # v1 # v2 # r4))
                         else None))))"

section \<open>One step\<close>

definition advance :: "jframe \<Rightarrow> jval list \<Rightarrow> jresult" where
  "advance fr st = Continue (fr\<lparr>j_stack := st, j_pc := j_pc fr + 1\<rparr>)"

definition goto_insn :: "jframe \<Rightarrow> jval list \<Rightarrow> nat \<Rightarrow> jresult" where
  "goto_insn fr st target = Continue (fr\<lparr>j_stack := st, j_pc := target\<rparr>)"

definition branch_if :: "jframe \<Rightarrow> jval list \<Rightarrow> u32 \<Rightarrow> bool \<Rightarrow> jresult" where
  "branch_if fr st target taken = goto_insn fr st (if taken then unat target else j_pc fr + 1)"

definition jconst :: "'a bytecode_insn_scheme \<Rightarrow> jval option" where
  "jconst insn =
     (if kind insn = insn_aconst_null then Some (JRef 0)
      else case operand insn of
        Integer_imm n \<Rightarrow> if kind insn = insn_iconst then Some (JInt (word_of_int n))
                        else if kind insn = insn_lconst then Some (JLong (word_of_int n)) else None
      | F_imm f \<Rightarrow> if kind insn = insn_fconst then Some (JFloat f) else None
      | D_imm d \<Rightarrow> if kind insn = insn_dconst then Some (JDouble d) else None
      | _ \<Rightarrow> None)"

definition jint_tests :: "(insn_code_kind \<times> (int \<Rightarrow> bool)) list" where
  "jint_tests =
     [(insn_ifeq, \<lambda>x. x = 0), (insn_ifne, \<lambda>x. x \<noteq> 0), (insn_iflt, \<lambda>x. x < 0), (insn_ifge, \<lambda>x. x \<ge> 0),
      (insn_ifgt, \<lambda>x. x > 0), (insn_ifle, \<lambda>x. x \<le> 0)]"

definition jref_tests :: "(insn_code_kind \<times> (u64 \<Rightarrow> bool)) list" where
  "jref_tests = [(insn_ifnull, \<lambda>r. r = 0), (insn_ifnonnull, \<lambda>r. r \<noteq> 0)]"

definition jump_step :: "jframe \<Rightarrow> insn_code_kind \<Rightarrow> u32 \<Rightarrow> jresult" where
  "jump_step fr k target =
     (if k = insn_goto then goto_insn fr (j_stack fr) (unat target)
      else (case j_stack fr of
        JInt b # rest \<Rightarrow>
          (case map_of jint_tests k of
             Some test \<Rightarrow> branch_if fr rest target (test (sint b))
           | None \<Rightarrow>
          (case (map_of cmp_branches k, rest) of
             (Some test, JInt a # rest) \<Rightarrow> branch_if fr rest target (test (sint a) (sint b))
           | _ \<Rightarrow> Stuck))
      | JRef b # rest \<Rightarrow>
          (case map_of jref_tests k of
             Some test \<Rightarrow> branch_if fr rest target (test b)
           | None \<Rightarrow>
          (case (map_of acmp_branches k, rest) of
             (Some test, JRef a # rest) \<Rightarrow> branch_if fr rest target (test a b)
           | _ \<Rightarrow> Stuck))
      | _ \<Rightarrow> Stuck))"

definition load_step :: "jframe \<Rightarrow> type_kind \<Rightarrow> u32 \<Rightarrow> jresult" where
  "load_step fr t index =
     (case j_locals fr (unat index) of
        Some v \<Rightarrow> if jtype v = t then advance fr (v # j_stack fr) else Stuck
      | None \<Rightarrow> Stuck)"

definition store_step :: "jframe \<Rightarrow> type_kind \<Rightarrow> u32 \<Rightarrow> jresult" where
  "store_step fr t index =
     (case j_stack fr of
        v # rest \<Rightarrow> if jtype v = t then advance (fr\<lparr>j_locals := (j_locals fr)(unat index \<mapsto> v)\<rparr>) rest else Stuck
      | [] \<Rightarrow> Stuck)"

definition iinc_step :: "jframe \<Rightarrow> u16 \<Rightarrow> int \<Rightarrow> jresult" where
  "iinc_step fr index c =
     (case j_locals fr (unat index) of
        Some (JInt a) \<Rightarrow>
          advance (fr\<lparr>j_locals := (j_locals fr)(unat index \<mapsto> JInt (a + word_of_int c))\<rparr>) (j_stack fr)
      | _ \<Rightarrow> Stuck)"

definition switch_step :: "jframe \<Rightarrow> (int \<Rightarrow> int) \<Rightarrow> jresult" where
  "switch_step fr target =
     (case j_stack fr of
        JInt key # rest \<Rightarrow> goto_insn fr rest (nat (target (sint key)))
      | _ \<Rightarrow> Stuck)"

definition table_target :: "tableswitch_data \<Rightarrow> int \<Rightarrow> int" where
  "table_target d key =
     (if ts_low d \<le> key \<and> key \<le> ts_high d then ts_targets d ! nat (key - ts_low d) else ts_default_target d)"

definition lookup_target :: "lookupswitch_data \<Rightarrow> int \<Rightarrow> int" where
  "lookup_target d key =
     (case map_of (zip (ls_keys d) (ls_targets d)) key of Some t \<Rightarrow> t | None \<Rightarrow> ls_default_target d)"

definition operand_step :: "jframe \<Rightarrow> 'a bytecode_insn_scheme \<Rightarrow> jresult" where
  "operand_step fr insn =
     (case operand insn of
        Index w \<Rightarrow>
          (case map_of load_kinds (kind insn) of
             Some t \<Rightarrow> load_step fr t w
           | None \<Rightarrow>
          (case map_of store_kinds (kind insn) of
             Some t \<Rightarrow> store_step fr t w
           | None \<Rightarrow>
          if map_of branch_effects (kind insn) \<noteq> None then jump_step fr (kind insn) w else Stuck))
      | Iinc w c \<Rightarrow> if kind insn = insn_iinc then iinc_step fr w c else Stuck
      | Tableswitch d \<Rightarrow> if kind insn = insn_tableswitch then switch_step fr (table_target d) else Stuck
      | Lookupswitch d \<Rightarrow> if kind insn = insn_lookupswitch then switch_step fr (lookup_target d) else Stuck
      | _ \<Rightarrow> Outside fr)"

text \<open>Divisions. The quotient of the smallest number by \<open>-1\<close> overflows back to that number.\<close>

definition division_step :: "jframe \<Rightarrow> insn_code_kind \<Rightarrow> jresult" where
  "division_step fr k =
     (case j_stack fr of
        JInt b # JInt a # rest \<Rightarrow>
          if k = insn_idiv then
            (if b = 0 then Raised Division_by_zero else advance fr (JInt (word_of_int (sint a sdiv sint b)) # rest))
          else if k = insn_irem then
            (if b = 0 then Raised Division_by_zero else advance fr (JInt (word_of_int (sint a smod sint b)) # rest))
          else Stuck
      | JLong b # JLong a # rest \<Rightarrow>
          if k = insn_ldiv then
            (if b = 0 then Raised Division_by_zero else advance fr (JLong (word_of_int (sint a sdiv sint b)) # rest))
          else if k = insn_lrem then
            (if b = 0 then Raised Division_by_zero else advance fr (JLong (word_of_int (sint a smod sint b)) # rest))
          else Stuck
      | _ \<Rightarrow> Stuck)"

definition return_step :: "jframe \<Rightarrow> insn_code_kind \<Rightarrow> jresult" where
  "return_step fr k =
     (if k = insn_return then Returned None
      else (case j_stack fr of
        v # _ \<Rightarrow>
          if (k, jtype v) \<in> {(insn_ireturn, TYPE_KIND_INT), (insn_lreturn, TYPE_KIND_LONG),
               (insn_freturn, TYPE_KIND_FLOAT), (insn_dreturn, TYPE_KIND_DOUBLE), (insn_areturn, TYPE_KIND_REFERENCE)}
          then Returned (Some v)
          else (case v of
                  JRef r \<Rightarrow> if k = insn_athrow then (if r = 0 then Raised Null_pointer else Raised (Thrown_object r)) else Stuck
                | _ \<Rightarrow> Stuck)
      | [] \<Rightarrow> Stuck))"

definition return_kinds :: "insn_code_kind list" where
  "return_kinds = [insn_return, insn_ireturn, insn_lreturn, insn_freturn, insn_dreturn, insn_areturn, insn_athrow]"

definition division_kinds :: "insn_code_kind list" where
  "division_kinds = [insn_idiv, insn_ldiv, insn_irem, insn_lrem]"

text \<open>Arrays, over the memory of the heap: the length is a 32-bit field, the elements follow.\<close>

definition array_length :: "(u64 \<Rightarrow> u8) \<Rightarrow> u64 \<Rightarrow> int" where
  "array_length h a = sint (ucast (mem_load 4 h (a + 16)) :: u32)"

definition jarray_loads :: "(insn_code_kind \<times> nat \<times> (u64 \<Rightarrow> jval)) list" where
  "jarray_loads =
     [(insn_iaload, 4, \<lambda>x. JInt (ucast x)), (insn_laload, 8, JLong), (insn_faload, 4, \<lambda>x. JFloat (ucast x)),
      (insn_daload, 8, JDouble), (insn_aaload, 8, JRef),
      (insn_baload, 1, \<lambda>x. JInt (scast (ucast x :: u8))),
      (insn_saload, 2, \<lambda>x. JInt (scast (ucast x :: u16))),
      (insn_caload, 2, \<lambda>x. JInt (ucast (ucast x :: u16)))]"

definition jarray_stores :: "(insn_code_kind \<times> nat \<times> type_kind) list" where
  "jarray_stores =
     [(insn_iastore, 4, TYPE_KIND_INT), (insn_lastore, 8, TYPE_KIND_LONG), (insn_fastore, 4, TYPE_KIND_FLOAT),
      (insn_dastore, 8, TYPE_KIND_DOUBLE), (insn_aastore, 8, TYPE_KIND_REFERENCE),
      (insn_bastore, 1, TYPE_KIND_INT), (insn_sastore, 2, TYPE_KIND_INT), (insn_castore, 2, TYPE_KIND_INT)]"

fun jbits :: "jval \<Rightarrow> u64" where
  "jbits (JInt w) = ucast w"
| "jbits (JLong w) = w"
| "jbits (JFloat w) = ucast w"
| "jbits (JDouble w) = w"
| "jbits (JRef w) = w"

definition with_element :: "jframe \<Rightarrow> u64 \<Rightarrow> u32 \<Rightarrow> jresult \<Rightarrow> jresult" where
  "with_element fr a i r =
     (if a = 0 then Raised Null_pointer
      else if 0 \<le> sint i \<and> sint i < array_length (j_heap fr) a then r
      else Raised (Array_index_oob (sint i) (array_length (j_heap fr) a)))"

definition array_step :: "(u64 \<Rightarrow> u64 \<Rightarrow> bool) \<Rightarrow> jframe \<Rightarrow> insn_code_kind \<Rightarrow> jresult" where
  "array_step storable fr k =
     (case map_of jarray_loads k of
        Some (width, widen) \<Rightarrow>
          (case j_stack fr of
             JInt i # JRef a # rest \<Rightarrow>
               with_element fr a i
                 (advance fr (widen (mem_load width (j_heap fr) (element_address width a (sint i))) # rest))
           | _ \<Rightarrow> Stuck)
      | None \<Rightarrow>
     (case map_of jarray_stores k of
        Some (width, t) \<Rightarrow>
          (case j_stack fr of
             v # JInt i # JRef a # rest \<Rightarrow>
               if jtype v \<noteq> t then Stuck
               else with_element fr a i
                 (if k = insn_aastore \<and> jbits v \<noteq> 0 \<and> \<not> storable a (jbits v) then Raised Array_store
                  else advance (fr\<lparr>j_heap := mem_store width (element_address width a (sint i)) (jbits v) (j_heap fr)\<rparr>) rest)
           | _ \<Rightarrow> Stuck)
      | None \<Rightarrow>
          (case j_stack fr of
             JRef a # rest \<Rightarrow>
               if a = 0 then Raised Null_pointer
               else advance fr (JInt (word_of_int (array_length (j_heap fr) a)) # rest)
           | _ \<Rightarrow> Stuck)))"

definition array_kinds :: "insn_code_kind list" where
  "array_kinds = insn_arraylength # map fst jarray_loads @ map fst jarray_stores"

definition operation :: "fpu \<Rightarrow> insn_code_kind \<Rightarrow> jval list \<Rightarrow> jval list option" where
  "operation fp k st =
     (case int_operation fp k st of Some r \<Rightarrow> Some r | None \<Rightarrow>
     (case long_operation fp k st of Some r \<Rightarrow> Some r | None \<Rightarrow>
     (case float_operation fp k st of Some r \<Rightarrow> Some r | None \<Rightarrow> stack_operation k st)))"

definition jvm_step :: "interp_env \<Rightarrow> 'a bytecode_insn_scheme list \<Rightarrow> jframe \<Rightarrow> jresult" where
  "jvm_step env cd fr =
     (if j_pc fr \<ge> length cd then Stuck
      else let insn = cd ! j_pc fr
      in if kind insn = insn_nop then advance fr (j_stack fr)
         else if kind insn \<in> set return_kinds then return_step fr (kind insn)
         else if kind insn \<in> set division_kinds then division_step fr (kind insn)
         else if kind insn \<in> set array_kinds then array_step (env_storable env) fr (kind insn)
         else (case jconst insn of
                 Some v \<Rightarrow> advance fr (v # j_stack fr)
               | None \<Rightarrow>
              (case operation (env_fpu env) (kind insn) (j_stack fr) of
                 Some st \<Rightarrow> advance fr st
               | None \<Rightarrow> operand_step fr insn)))"

end
