(* ===== verification/Interpreter_Refinement.thy ===== *)
theory Interpreter_Refinement
  imports Jvm_Reference
begin

text \<open>
  The interpreter implements the machine of the specification on every method the analysis accepts:
  the register, the memory of the frame and the renumbered locals represent the typed frame, and
  each handler of the rewritten instruction does to the one what the original instruction does to
  the other.
\<close>

section \<open>Representation of values\<close>

text \<open>An \<open>int\<close> on the operand stack is meant to be sign-extended to 64 bits. The weak form of the
  representation (\<open>strict\<close> false) only asks for its low half.\<close>

fun val_rep :: "bool \<Rightarrow> jval \<Rightarrow> u64 \<Rightarrow> bool" where
  "val_rep strict (JInt w) x \<longleftrightarrow> slot_i x = w \<and> (strict \<longrightarrow> x = sext w)"
| "val_rep strict (JLong w) x \<longleftrightarrow> x = w"
| "val_rep strict (JFloat f) x \<longleftrightarrow> slot_i x = f"
| "val_rep strict (JDouble d) x \<longleftrightarrow> x = d"
| "val_rep strict (JRef r) x \<longleftrightarrow> x = r"

fun tos_rep :: "bool \<Rightarrow> jval \<Rightarrow> tos_value \<Rightarrow> bool" where
  "tos_rep strict (JFloat f) t \<longleftrightarrow> t = Tos_float f"
| "tos_rep strict (JDouble d) t \<longleftrightarrow> t = Tos_double d"
| "tos_rep strict v t \<longleftrightarrow> (\<exists>x. t = Tos_int x \<and> val_rep strict v x)"

text \<open>The value above \<open>vs\<close> lies in the slot whose number is the length of \<open>vs\<close>.\<close>

fun mem_rep :: "bool \<Rightarrow> jval list \<Rightarrow> u64 list \<Rightarrow> bool" where
  "mem_rep strict [] mem \<longleftrightarrow> True"
| "mem_rep strict (v # vs) mem \<longleftrightarrow> length vs < length mem \<and> val_rep strict v (mem ! length vs) \<and> mem_rep strict vs mem"

text \<open>All of the stack in memory, and the stack with its top in the register.\<close>

definition memory_rep :: "bool \<Rightarrow> jval list \<Rightarrow> interp_state \<Rightarrow> bool" where
  "memory_rep strict vs st \<longleftrightarrow> sp st = length vs \<and> mem_rep strict vs (stack_mem st)"

definition stack_rep :: "bool \<Rightarrow> jval list \<Rightarrow> tos_value \<Rightarrow> interp_state \<Rightarrow> bool" where
  "stack_rep strict vs t st \<longleftrightarrow>
     sp st = length vs \<and> length vs \<le> length (stack_mem st) \<and>
     (case vs of [] \<Rightarrow> t = Tos_void | v # vs' \<Rightarrow> tos_rep strict v t \<and> mem_rep strict vs' (stack_mem st))"

lemma slot_i_sext [simp]: "slot_i (sext w) = w"
  by (rule bit_word_eqI) (simp add: slot_i_def sext_def bit_simps)

lemma slot_i_ucast [simp]: "slot_i (ucast (w :: u32)) = w"
  by (rule bit_word_eqI) (simp add: slot_i_def bit_simps)

lemma high_mask: "(0xFFFFFFFF00000000 :: u64) = NOT (mask 32)"
  by (simp add: mask_eq_exp_minus_1)

lemma slot_i_set_low [simp]: "slot_i (set_low x v) = v"
  unfolding slot_i_def set_low_def high_mask
  by (rule bit_word_eqI) (auto simp: bit_simps)

lemma mem_rep_length: "mem_rep strict vs mem \<Longrightarrow> length vs \<le> length mem"
  by (cases vs) auto

lemma mem_rep_update [simp]: "length vs \<le> i \<Longrightarrow> mem_rep strict vs (mem[i := x]) = mem_rep strict vs mem"
  by (induction vs) auto

lemma stack_rep_Cons:
  "stack_rep strict (v # vs) t st \<longleftrightarrow>
     sp st = length vs + 1 \<and> length vs < length (stack_mem st) \<and> tos_rep strict v t \<and> mem_rep strict vs (stack_mem st)"
  by (auto simp: stack_rep_def)

lemma stack_rep_Nil [simp]: "stack_rep strict [] t st \<longleftrightarrow> sp st = 0 \<and> t = Tos_void"
  by (auto simp: stack_rep_def)

lemma memory_rep_Cons:
  "memory_rep strict (v # vs) st \<longleftrightarrow>
     sp st = length vs + 1 \<and> length vs < length (stack_mem st) \<and> val_rep strict v (stack_mem st ! length vs) \<and>
     mem_rep strict vs (stack_mem st)"
  by (auto simp: memory_rep_def)

lemma peek_stack:
  assumes "stack_rep strict (v1 # v2 # vs) t st"
  shows "val_rep strict v2 (peek 2 st)"
  using assms by (auto simp: stack_rep_Cons peek_def)

lemma peek_stack3:
  assumes "stack_rep strict (v1 # v2 # v3 # vs) t st"
  shows "val_rep strict v3 (peek 3 st)"
  using assms by (auto simp: stack_rep_Cons peek_def)

lemma spill_stack_mem [simp]:
  "sp (spill t st) = sp st" "pc (spill t st) = pc st" "fuel (spill t st) = fuel st"
  "locals_mem (spill t st) = locals_mem st" "heap (spill t st) = heap st"
  "length (stack_mem (spill t st)) = length (stack_mem st)"
  by (cases t; simp add: poke_def)+

lemma spill_rep: "stack_rep strict vs t st \<Longrightarrow> memory_rep strict vs (spill t st)"
proof (cases vs)
  case (Cons v vs')
  assume "stack_rep strict vs t st"
  then show ?thesis
    using Cons by (cases v) (auto simp: stack_rep_Cons memory_rep_Cons poke_def)
qed (simp add: memory_rep_def stack_rep_def)

lemma tos_kind_rep: "tos_rep strict v t \<Longrightarrow> tos_kind t = kind_tos (jtype v)"
  by (cases v) auto

lemma stack_tos_rep: "stack_rep strict vs t st \<Longrightarrow> tos_kind t = stack_tos (map jtype vs)"
  by (cases vs) (auto simp: stack_tos_def stack_rep_Cons dest: tos_kind_rep)

lemma load_rep:
  assumes "memory_rep strict vs st"
  shows "stack_rep strict vs (load_tos (stack_tos (map jtype vs)) (peek 1 st)) st"
proof (cases vs)
  case Nil
  then show ?thesis using assms by (simp add: memory_rep_def stack_tos_def)
next
  case (Cons v vs')
  then show ?thesis
    using assms by (cases v) (auto simp: memory_rep_Cons stack_rep_Cons peek_def)
qed

lemma stack_rep_state [simp]:
  "stack_rep strict vs t (st\<lparr>pc := p\<rparr>) = stack_rep strict vs t st"
  "stack_rep strict vs t (st\<lparr>heap := h\<rparr>) = stack_rep strict vs t st"
  "stack_rep strict vs t (st\<lparr>fuel := n\<rparr>) = stack_rep strict vs t st"
  "stack_rep strict vs t (st\<lparr>locals_mem := l\<rparr>) = stack_rep strict vs t st"
  by (cases vs; simp add: stack_rep_def)+

lemma unop_rep: "stack_rep strict (v # vs) t st \<Longrightarrow> tos_rep strict r t' \<Longrightarrow> stack_rep strict (r # vs) t' st"
  by (simp add: stack_rep_Cons)

lemma binop_rep:
  "stack_rep strict (v2 # v1 # vs) t st \<Longrightarrow> tos_rep strict r t' \<Longrightarrow> stack_rep strict (r # vs) t' (drop_sp 1 st)"
  by (simp add: stack_rep_Cons drop_sp_def)

section \<open>Operations on values\<close>

text \<open>A handler that continues with the next instruction, leaves locals, heap and position alone and
  represents the stack \<open>vs\<close>.\<close>

definition same_rest :: "interp_state \<Rightarrow> interp_state \<Rightarrow> bool" where
  "same_rest st st' \<longleftrightarrow>
     locals_mem st' = locals_mem st \<and> heap st' = heap st \<and> pc st' = pc st \<and>
     length (stack_mem st') = length (stack_mem st)"

lemma same_rest_simps [simp]:
  "same_rest st st" "same_rest st (drop_sp k st) " "same_rest st (raise_sp k st)" "same_rest st (poke k v st)"
  "same_rest st (spill t st)"
  by (simp_all add: same_rest_def drop_sp_def raise_sp_def poke_def)

definition moves_on :: "outcome \<Rightarrow> bool \<Rightarrow> jval list \<Rightarrow> interp_state \<Rightarrow> bool" where
  "moves_on r strict vs st \<longleftrightarrow> (\<exists>t' st'. r = next_with t' st' \<and> stack_rep strict vs t' st' \<and> same_rest st st')"

lemma moves_onI: "stack_rep strict vs t' st' \<Longrightarrow> same_rest st st' \<Longrightarrow> moves_on (next_with t' st') strict vs st"
  by (auto simp: moves_on_def)

text \<open>The instructions whose weak or strict operands the handlers get wrong.\<close>

definition int_fine :: "bool \<Rightarrow> insn_code_kind \<Rightarrow> bool" where
  "int_fine strict k \<longleftrightarrow> (if strict then k \<noteq> insn_ishr else k \<notin> {insn_i2l, insn_i2f, insn_i2d})"

lemma mask_shifts: "shift32 b = unat (slot_i b) mod 32" "shift64 b = unat (slot_i b) mod 64"
proof -
  have "(b AND 0x1F) = take_bit 5 b" "(b AND 0x3F) = take_bit 6 b"
    by (simp_all add: take_bit_eq_mask mask_eq_exp_minus_1)
  then show "shift32 b = unat (slot_i b) mod 32" "shift64 b = unat (slot_i b) mod 64"
    by (simp_all add: shift32_def shift64_def slot_i_def unsigned_ucast_eq unsigned_take_bit_eq
        flip: take_bit_eq_mod [of 5, simplified] take_bit_eq_mod [of 6, simplified])
qed

lemma int_bin_correct:
  assumes "map_of jint_bin k = Some f"
  shows "\<exists>g. map_of int_bin_ops k = Some g \<and>
      (\<forall>a b. slot_i (g a b) = f (slot_i a) (slot_i b) \<and>
             (k \<noteq> insn_ishr \<longrightarrow> g a b = sext (f (slot_i a) (slot_i b))))"
  using assms by (auto simp: jint_bin_def int_bin_ops_def mask_shifts split: if_splits)

lemma long_bin_correct:
  assumes "map_of jlong_bin k = Some f"
  shows "map_of int_bin_ops k = Some f"
  using assms by (auto simp: jlong_bin_def int_bin_ops_def fun_eq_iff split: if_splits)

lemma long_shift_correct:
  assumes "map_of jlong_shift k = Some f"
  shows "map_of int_bin_ops k = Some (\<lambda>a b. f a (slot_i b))"
  using assms by (auto simp: jlong_shift_def int_bin_ops_def mask_shifts fun_eq_iff split: if_splits)

text \<open>Casts of the low half.\<close>

lemma narrow_low:
  "(ucast (sext w) :: u8) = ucast w" "(ucast (sext w) :: u16) = ucast w"
  by (rule bit_word_eqI; simp add: sext_def bit_simps)+

lemma narrow_slot:
  "slot_i a = w \<Longrightarrow> (ucast a :: u8) = ucast w" "slot_i a = w \<Longrightarrow> (ucast a :: u16) = ucast w"
  by (auto simp: slot_i_def intro!: bit_word_eqI simp: bit_simps)

lemma sext_casts:
  "sext (scast (b :: u8)) = scast b" "sext (scast (s :: u16)) = scast s" "sext (ucast (s :: u16)) = ucast s"
  by (rule bit_word_eqI; auto simp: sext_def bit_simps min_def dest: bit_imp_le_length)+

lemma slot_casts [simp]:
  "slot_i (scast (b :: u8)) = scast b" "slot_i (scast (s :: u16)) = scast s" "slot_i (ucast (s :: u16)) = ucast s"
  by (rule bit_word_eqI; auto simp: slot_i_def bit_simps min_def)+

lemma int_un_correct:
  assumes "map_of (jint_un fp) k = Some f" "slot_i x = w" "strict \<Longrightarrow> x = sext w" "int_fine strict k"
  shows "\<exists>g. map_of int_bin_ops k = None \<and> map_of (int_un_ops fp) k = Some g \<and> tos_rep strict (f w) (g x)"
  using assms
  by (auto simp: jint_un_def int_un_ops_def int_bin_ops_def int_fine_def narrow_low sext_casts
      narrow_slot [OF refl] sext_def [symmetric] split: if_splits)

lemma long_un_correct:
  assumes "map_of (jlong_un fp) k = Some f"
  shows "\<exists>g. map_of int_bin_ops k = None \<and> map_of (int_un_ops fp) k = Some g \<and> tos_rep strict (f w) (g w)"
  using assms by (auto simp: jlong_un_def int_un_ops_def int_bin_ops_def simp flip: slot_i_def split: if_splits)

lemma int_bin_step:
  assumes "map_of jint_bin (kind insn) = Some f" "stack_rep strict (JInt b # JInt a # vs) t st" "int_fine strict (kind insn)"
  shows "moves_on (typed_handler env cd insn t st) strict (JInt (f a b) # vs) st"
proof -
  obtain g where g: "map_of int_bin_ops (kind insn) = Some g"
    "\<And>a b. slot_i (g a b) = f (slot_i a) (slot_i b)"
    "\<And>a b. kind insn \<noteq> insn_ishr \<Longrightarrow> g a b = sext (f (slot_i a) (slot_i b))"
    using int_bin_correct [OF assms(1)] by blast
  obtain x where t: "t = Tos_int x" "slot_i x = b"
    using assms(2) by (auto simp: stack_rep_Cons)
  have "slot_i (peek 2 st) = a" using peek_stack [OF assms(2)] by simp
  then have "tos_rep strict (JInt (f a b)) (Tos_int (g (peek 2 st) x))"
    using g(2,3) t assms(3) by (auto simp: int_fine_def)
  then show ?thesis
    using binop_rep [OF assms(2)] by (auto simp: t g(1) int_handler_def intro: moves_onI)
qed

lemma int_un_step:
  assumes "map_of (jint_un (env_fpu env)) (kind insn) = Some f" "stack_rep strict (JInt b # vs) t st"
    and "int_fine strict (kind insn)"
  shows "moves_on (typed_handler env cd insn t st) strict (f b # vs) st"
proof -
  obtain x where t: "t = Tos_int x" "slot_i x = b" "strict \<Longrightarrow> x = sext b"
    using assms(2) by (auto simp: stack_rep_Cons)
  obtain g where "map_of int_bin_ops (kind insn) = None" "map_of (int_un_ops (env_fpu env)) (kind insn) = Some g"
    "tos_rep strict (f b) (g x)"
    using int_un_correct [OF assms(1) t(2,3) assms(3)] by blast
  then show ?thesis
    using unop_rep [OF assms(2)] by (auto simp: t int_handler_def intro: moves_onI)
qed

lemma long_shift_step:
  assumes "map_of jlong_shift (kind insn) = Some f" "stack_rep strict (JInt b # JLong a # vs) t st"
  shows "moves_on (typed_handler env cd insn t st) strict (JLong (f a b) # vs) st"
proof -
  obtain x where t: "t = Tos_int x" "slot_i x = b"
    using assms(2) by (auto simp: stack_rep_Cons)
  have "peek 2 st = a" using peek_stack [OF assms(2)] by simp
  then show ?thesis
    using binop_rep [OF assms(2), of "JLong (f a b)"] t long_shift_correct [OF assms(1)]
    by (auto simp: int_handler_def intro: moves_onI)
qed

lemma long_bin_step:
  assumes "map_of jlong_bin (kind insn) = Some f" "stack_rep strict (JLong b # JLong a # vs) t st"
  shows "moves_on (typed_handler env cd insn t st) strict (JLong (f a b) # vs) st"
proof -
  have t: "t = Tos_int b" using assms(2) by (auto simp: stack_rep_Cons)
  have "peek 2 st = a" using peek_stack [OF assms(2)] by simp
  then show ?thesis
    using binop_rep [OF assms(2), of "JLong (f a b)"] long_bin_correct [OF assms(1)]
    by (auto simp: t int_handler_def intro: moves_onI)
qed

lemma long_un_step:
  assumes "map_of (jlong_un (env_fpu env)) (kind insn) = Some f" "stack_rep strict (JLong b # vs) t st"
  shows "moves_on (typed_handler env cd insn t st) strict (f b # vs) st"
proof -
  have t: "t = Tos_int b" using assms(2) by (auto simp: stack_rep_Cons)
  obtain g where "map_of int_bin_ops (kind insn) = None" "map_of (int_un_ops (env_fpu env)) (kind insn) = Some g"
    "tos_rep strict (f b) (g b)"
    using long_un_correct [OF assms(1)] by blast
  then show ?thesis
    using unop_rep [OF assms(2)] by (auto simp: t int_handler_def intro: moves_onI)
qed

lemma compare_result:
  "(if a > b then 1 else if a < b then -1 else 0) = sext (compare_int a b)"
  by (simp add: compare_int_def sext_def)

lemma lcmp_step:
  assumes "stack_rep strict (JLong b # JLong a # vs) t st" "kind insn = insn_lcmp"
  shows "moves_on (typed_handler env cd insn t st) strict (JInt (compare_int (sint a) (sint b)) # vs) st"
proof -
  have t: "t = Tos_int b" using assms(1) by (auto simp: stack_rep_Cons)
  have "peek 2 st = a" using peek_stack [OF assms(1)] by simp
  then show ?thesis
    using binop_rep [OF assms(1), of "JInt (compare_int (sint a) (sint b))"] assms(2)
    by (auto simp: t int_handler_def int_bin_ops_def int_un_ops_def div_ops_def array_loads_def array_stores_def
        zero_branches_def cmp_branches_def acmp_branches_def int_store_value_def lcmp_impl_def compare_result Let_def
        intro: moves_onI)
qed

lemma float_compare_result:
  "cmp_result (f32_less b a) (f32_less a b) (f32_equal a b) 1 = sext (jfloat_compare 1 a b)"
  "cmp_result (f32_less b a) (f32_less a b) (f32_equal a b) (-1) = sext (jfloat_compare (-1) a b)"
  "cmp_result (f64_less d c) (f64_less c d) (f64_equal c d) 1 = sext (jdouble_compare 1 c d)"
  "cmp_result (f64_less d c) (f64_less c d) (f64_equal c d) (-1) = sext (jdouble_compare (-1) c d)"
  by (auto simp: cmp_result_def f32_less_def f32_equal_def f64_less_def f64_equal_def jfloat_compare_def
      jdouble_compare_def compare_int_def sext_def)

lemma float_bin_step:
  assumes "map_of (jfloat_bin (env_fpu env)) (kind insn) = Some f" "stack_rep strict (JFloat b # JFloat a # vs) t st"
  shows "moves_on (typed_handler env cd insn t st) strict (f a b # vs) st"
proof -
  have t: "t = Tos_float b" using assms(2) by (auto simp: stack_rep_Cons)
  have a: "slot_i (peek 2 st) = a" using peek_stack [OF assms(2)] by simp
  obtain g where g: "map_of (float_bin_ops (env_fpu env)) (kind insn) = Some g" "tos_rep strict (f a b) (g a b)"
    using assms(1) by (auto simp: jfloat_bin_def float_bin_ops_def float_compare_result split: if_splits)
  then show ?thesis
    using binop_rep [OF assms(2)] by (auto simp: t a float_handler_def intro: moves_onI)
qed

lemma double_bin_step:
  assumes "map_of (jdouble_bin (env_fpu env)) (kind insn) = Some f" "stack_rep strict (JDouble b # JDouble a # vs) t st"
  shows "moves_on (typed_handler env cd insn t st) strict (f a b # vs) st"
proof -
  have t: "t = Tos_double b" using assms(2) by (auto simp: stack_rep_Cons)
  have a: "peek 2 st = a" using peek_stack [OF assms(2)] by simp
  obtain g where g: "map_of (double_bin_ops (env_fpu env)) (kind insn) = Some g" "tos_rep strict (f a b) (g a b)"
    using assms(1) by (auto simp: jdouble_bin_def double_bin_ops_def float_compare_result split: if_splits)
  then show ?thesis
    using binop_rep [OF assms(2)] by (auto simp: t a double_handler_def intro: moves_onI)
qed

lemma float_un_step:
  assumes "map_of (jfloat_un (env_fpu env)) (kind insn) = Some f" "stack_rep strict (JFloat b # vs) t st"
  shows "moves_on (typed_handler env cd insn t st) strict (f b # vs) st"
proof -
  have t: "t = Tos_float b" using assms(2) by (auto simp: stack_rep_Cons)
  obtain g where g: "map_of (float_un_ops (env_fpu env)) (kind insn) = Some g" "tos_rep strict (f b) (g b)"
    and "map_of (float_bin_ops (env_fpu env)) (kind insn) = None"
    using assms(1) by (auto simp: jfloat_un_def float_un_ops_def float_bin_ops_def split: if_splits)
  then show ?thesis
    using unop_rep [OF assms(2)] by (auto simp: t float_handler_def intro: moves_onI)
qed

lemma double_un_step:
  assumes "map_of (jdouble_un (env_fpu env)) (kind insn) = Some f" "stack_rep strict (JDouble b # vs) t st"
  shows "moves_on (typed_handler env cd insn t st) strict (f b # vs) st"
proof -
  have t: "t = Tos_double b" using assms(2) by (auto simp: stack_rep_Cons)
  obtain g where g: "map_of (double_un_ops (env_fpu env)) (kind insn) = Some g" "tos_rep strict (f b) (g b)"
    and "map_of (double_bin_ops (env_fpu env)) (kind insn) = None"
    using assms(1) by (auto simp: jdouble_un_def double_un_ops_def double_bin_ops_def split: if_splits)
  then show ?thesis
    using unop_rep [OF assms(2)] by (auto simp: t double_handler_def intro: moves_onI)
qed

lemma int_operation_step:
  assumes "int_operation (env_fpu env) (kind insn) vs = Some vs'" "stack_rep strict vs t st" "int_fine strict (kind insn)"
  shows "moves_on (typed_handler env cd insn t st) strict vs' st"
  using assms
  by (auto simp: int_operation_def split: list.splits jval.splits option.splits
      intro: int_bin_step int_un_step long_shift_step)

lemma long_operation_step:
  assumes "long_operation (env_fpu env) (kind insn) vs = Some vs'" "stack_rep strict vs t st"
  shows "moves_on (typed_handler env cd insn t st) strict vs' st"
  using assms
  by (auto simp: long_operation_def split: list.splits jval.splits option.splits if_splits
      intro: long_bin_step long_un_step lcmp_step)

lemma float_operation_step:
  assumes "float_operation (env_fpu env) (kind insn) vs = Some vs'" "stack_rep strict vs t st"
  shows "moves_on (typed_handler env cd insn t st) strict vs' st"
  using assms
  by (auto simp: float_operation_def split: list.splits jval.splits option.splits
      intro: float_bin_step float_un_step double_bin_step double_un_step)

section \<open>Stack instructions\<close>

text \<open>A handler that jumps to \<open>p\<close> with the stack \<open>vs\<close>.\<close>

definition jumps :: "outcome \<Rightarrow> bool \<Rightarrow> nat \<Rightarrow> jval list \<Rightarrow> interp_state \<Rightarrow> bool" where
  "jumps r strict p vs st \<longleftrightarrow>
     (\<exists>t' st'. r = Jump t' st' \<and> pc st' = p \<and> stack_rep strict vs t' st' \<and> locals_mem st' = locals_mem st \<and>
        heap st' = heap st \<and> length (stack_mem st') = length (stack_mem st))"

lemma moves_on_jumps: "moves_on r strict vs st \<Longrightarrow> jumps r strict (pc st + 1) vs st"
  by (auto simp: moves_on_def jumps_def next_with_def same_rest_def)

text \<open>The annotation of an instruction fits a stack of values.\<close>

definition fits_at :: "analyzed_insn list \<Rightarrow> nat \<Rightarrow> jval list \<Rightarrow> bool" where
  "fits_at cd p vs \<longleftrightarrow> p < length cd \<and> tos_before (cd ! p) = stack_tos (map jtype vs)"

lemma memory_rep_state [simp]:
  "memory_rep strict vs (st\<lparr>pc := p\<rparr>) = memory_rep strict vs st"
  "memory_rep strict vs (st\<lparr>heap := h\<rparr>) = memory_rep strict vs st"
  "memory_rep strict vs (st\<lparr>fuel := n\<rparr>) = memory_rep strict vs st"
  "memory_rep strict vs (st\<lparr>locals_mem := l\<rparr>) = memory_rep strict vs st"
  by (simp_all add: memory_rep_def)

lemma polymorphic_jump:
  assumes "memory_rep strict vs st'" "fits_at cd (pc st') vs" "locals_mem st' = locals_mem st"
    "heap st' = heap st" "length (stack_mem st') = length (stack_mem st)"
  shows "jumps (STACK_POLYMORPHIC_JMP cd st') strict (pc st') vs st"
  using load_rep [OF assms(1)] assms(2-5) by (auto simp: STACK_POLYMORPHIC_JMP_def jumps_def fits_at_def)

lemma polymorphic_next:
  assumes "memory_rep strict vs st'" "fits_at cd (pc st + 1) vs" "same_rest st st'"
  shows "jumps (STACK_POLYMORPHIC_NEXT cd st') strict (pc st + 1) vs st"
  using polymorphic_jump [of strict vs "st'\<lparr>pc := pc st' + 1\<rparr>" cd st] assms
  by (simp add: STACK_POLYMORPHIC_NEXT_def same_rest_def)

text \<open>What the rewritten instructions do, without a look at categories.\<close>

definition shape :: "insn_code_kind \<Rightarrow> jval list \<Rightarrow> jval list option" where
  "shape k vs =
     (case vs of
        [] \<Rightarrow> None
      | v1 # r1 \<Rightarrow>
          if k = insn_pop then Some r1
          else if k = insn_dup then Some (v1 # v1 # r1)
          else (case r1 of
             [] \<Rightarrow> None
           | v2 # r2 \<Rightarrow>
               if k = insn_pop2 then Some r2
               else if k = insn_swap then Some (v2 # v1 # r2)
               else if k = insn_dup2 then Some (v1 # v2 # v1 # v2 # r2)
               else if k = insn_dup_x1 then Some (v1 # v2 # v1 # r2)
               else (case r2 of
                  [] \<Rightarrow> None
                | v3 # r3 \<Rightarrow>
                    if k = insn_dup_x2 then Some (v1 # v2 # v3 # v1 # r3)
                    else if k = insn_dup2_x1 then Some (v1 # v2 # v3 # v1 # v2 # r3)
                    else (case r3 of
                       [] \<Rightarrow> None
                     | v4 # r4 \<Rightarrow>
                         if k = insn_dup2_x2 then Some (v1 # v2 # v3 # v4 # v1 # v2 # r4) else None))))"

lemma jtype_not [simp]: "jtype v \<noteq> TYPE_KIND_VOID" "jtype v \<noteq> TYPE_KIND_BOOLEAN"
  by (cases v; simp)+

lemma push_entry_jtype: "push_entry cap (jtype v) ts = Inr ts' \<longleftrightarrow> length ts \<noteq> cap \<and> ts' = jtype v # ts"
  by (auto simp: push_entry_def)

lemmas stack_insn_defs =
  analyze_dup_def analyze_dup_x1_def analyze_dup_x2_def analyze_dup2_def analyze_dup2_x1_def analyze_dup2_x2_def
  analyze_pop_def analyze_pop2_def analyze_swap_def

lemmas stack_insn_simps =
  push_rewrite_def mismatch_def rbind_Inr pop_val_Inr push_entry_jtype stack_operation_def category2_def shape_def
  map_eq_Cons_conv

definition rewrites_to :: "insn_code_kind \<Rightarrow> jval list \<Rightarrow> insn_code_kind \<Rightarrow> type_state \<Rightarrow> bool" where
  "rewrites_to k vs k' ts' \<longleftrightarrow>
     (\<exists>vs'. stack_operation k vs = Some vs' \<and> shape k' vs = Some vs' \<and> map jtype vs' = ts')"

lemma rewrite_pop: "analyze_pop cap (map jtype vs) = Inr (k', ts') \<Longrightarrow> rewrites_to insn_pop vs k' ts'"
  by (auto simp: rewrites_to_def analyze_pop_def stack_insn_simps split: if_splits)

lemma rewrite_pop2: "analyze_pop2 cap (map jtype vs) = Inr (k', ts') \<Longrightarrow> rewrites_to insn_pop2 vs k' ts'"
  by (auto simp: rewrites_to_def analyze_pop2_def stack_insn_simps split: if_splits)

lemma rewrite_swap: "analyze_swap cap (map jtype vs) = Inr (k', ts') \<Longrightarrow> rewrites_to insn_swap vs k' ts'"
  by (auto simp: rewrites_to_def analyze_swap_def stack_insn_simps split: if_splits)

lemma rewrite_dup: "analyze_dup cap (map jtype vs) = Inr (k', ts') \<Longrightarrow> rewrites_to insn_dup vs k' ts'"
  by (auto simp: rewrites_to_def analyze_dup_def stack_insn_simps split: if_splits)

lemma rewrite_dup_x1: "analyze_dup_x1 cap (map jtype vs) = Inr (k', ts') \<Longrightarrow> rewrites_to insn_dup_x1 vs k' ts'"
  by (auto simp: rewrites_to_def analyze_dup_x1_def stack_insn_simps split: if_splits)

lemma rewrite_dup_x2: "analyze_dup_x2 cap (map jtype vs) = Inr (k', ts') \<Longrightarrow> rewrites_to insn_dup_x2 vs k' ts'"
  by (auto simp: rewrites_to_def analyze_dup_x2_def stack_insn_simps split: if_splits)

lemma rewrite_dup2: "analyze_dup2 cap (map jtype vs) = Inr (k', ts') \<Longrightarrow> rewrites_to insn_dup2 vs k' ts'"
  by (auto simp: rewrites_to_def analyze_dup2_def stack_insn_simps split: if_splits)

lemma rewrite_dup2_x1: "analyze_dup2_x1 cap (map jtype vs) = Inr (k', ts') \<Longrightarrow> rewrites_to insn_dup2_x1 vs k' ts'"
  by (auto simp: rewrites_to_def analyze_dup2_x1_def stack_insn_simps split: if_splits)

lemma rewrite_dup2_x2: "analyze_dup2_x2 cap (map jtype vs) = Inr (k', ts') \<Longrightarrow> rewrites_to insn_dup2_x2 vs k' ts'"
  by (auto simp: rewrites_to_def analyze_dup2_x2_def stack_insn_simps split: if_splits)

lemma stack_insn_correct:
  assumes "map_of stack_insns k = Some f" "f cap (map jtype vs) = Inr (k', ts')"
  shows "rewrites_to k vs k' ts'"
  using map_of_SomeD [OF assms(1)] assms(2)
  by (auto simp: stack_insns_def intro: rewrite_pop rewrite_pop2 rewrite_swap rewrite_dup rewrite_dup_x1
      rewrite_dup_x2 rewrite_dup2 rewrite_dup2_x1 rewrite_dup2_x2)

lemma mem_rep_Cons:
  "mem_rep strict (v # vs) mem \<longleftrightarrow> length vs < length mem \<and> val_rep strict v (mem ! length vs) \<and> mem_rep strict vs mem"
  by simp

lemmas memory_simps = memory_rep_def peek_def poke_def poke_up_def raise_sp_def drop_sp_def nth_list_update same_rest_def

text \<open>Each handler that works on memory, as a change of the list.\<close>

lemma memory_pop:
  assumes "memory_rep strict (v1 # vs) st" "fits_at cd (pc st + 1) vs"
  shows "jumps (pop_impl cd st) strict (pc st + 1) vs st"
  unfolding pop_impl_def using assms by (intro polymorphic_next) (auto simp: memory_simps)

lemma memory_pop2:
  assumes "memory_rep strict (v1 # v2 # vs) st" "fits_at cd (pc st + 1) vs"
  shows "jumps (pop2_impl cd st) strict (pc st + 1) vs st"
  unfolding pop2_impl_def using assms by (intro polymorphic_next) (auto simp: memory_simps)

lemma memory_swap:
  assumes "memory_rep strict (v1 # v2 # vs) st" "fits_at cd (pc st + 1) (v2 # v1 # vs)"
  shows "jumps (swap_impl cd st) strict (pc st + 1) (v2 # v1 # vs) st"
  unfolding swap_impl_def using assms by (intro polymorphic_next) (auto simp: memory_simps)

lemma memory_dup_x1:
  assumes "memory_rep strict (v1 # v2 # vs) st" "fits_at cd (pc st + 1) (v1 # v2 # v1 # vs)"
    "length (v1 # v2 # v1 # vs) \<le> length (stack_mem st)"
  shows "jumps (dup_x1_impl cd st) strict (pc st + 1) (v1 # v2 # v1 # vs) st"
  unfolding dup_x1_impl_def Let_def using assms by (intro polymorphic_next) (auto simp: memory_simps)

lemma memory_dup_x2:
  assumes "memory_rep strict (v1 # v2 # v3 # vs) st" "fits_at cd (pc st + 1) (v1 # v2 # v3 # v1 # vs)"
    "length (v1 # v2 # v3 # v1 # vs) \<le> length (stack_mem st)"
  shows "jumps (dup_x2_impl cd st) strict (pc st + 1) (v1 # v2 # v3 # v1 # vs) st"
  unfolding dup_x2_impl_def Let_def using assms by (intro polymorphic_next) (auto simp: memory_simps)

lemma memory_dup2_x1:
  assumes "memory_rep strict (v1 # v2 # v3 # vs) st" "fits_at cd (pc st + 1) (v1 # v2 # v3 # v1 # v2 # vs)"
    "length (v1 # v2 # v3 # v1 # v2 # vs) \<le> length (stack_mem st)"
  shows "jumps (dup2_x1_impl cd st) strict (pc st + 1) (v1 # v2 # v3 # v1 # v2 # vs) st"
  unfolding dup2_x1_impl_def Let_def using assms by (intro polymorphic_next) (auto simp: memory_simps)

lemma memory_dup2_x2:
  assumes "memory_rep strict (v1 # v2 # v3 # v4 # vs) st" "fits_at cd (pc st + 1) (v1 # v2 # v3 # v4 # v1 # v2 # vs)"
    "length (v1 # v2 # v3 # v4 # v1 # v2 # vs) \<le> length (stack_mem st)"
  shows "jumps (dup2_x2_impl cd st) strict (pc st + 1) (v1 # v2 # v3 # v4 # v1 # v2 # vs) st"
  unfolding dup2_x2_impl_def Let_def using assms by (intro polymorphic_next) (auto simp: memory_simps)

lemmas memory_steps =
  memory_pop [simplified] memory_pop2 [simplified] memory_swap [simplified] memory_dup_x1 [simplified]
  memory_dup_x2 [simplified] memory_dup2_x1 [simplified] memory_dup2_x2 [simplified]

lemma memory_shape:
  assumes "map_of memory_insns k = Some h" "shape k vs = Some vs'" "memory_rep strict vs st"
    "fits_at cd (pc st + 1) vs'" "length vs' \<le> length (stack_mem st)"
  shows "jumps (h cd st) strict (pc st + 1) vs' st"
  using map_of_SomeD [OF assms(1)] assms(2-5)
  by (auto simp: memory_insns_def shape_def split: list.splits intro!: memory_steps)

lemma push_copy:
  assumes "stack_rep strict (v # vs) t st" "length (v # v # vs) \<le> length (stack_mem st)" "val_rep strict v y"
  shows "moves_on (next_with t (raise_sp 1 (poke 1 y st))) strict (v # v # vs) st"
  using assms by (intro moves_onI) (auto simp: stack_rep_Cons memory_simps)

lemma dup_shape:
  assumes "stack_rep strict (v # vs) t st" "length (v # v # vs) \<le> length (stack_mem st)"
  shows "moves_on (dup_impl t st) strict (v # v # vs) st"
  using assms push_copy [OF assms] by (cases v) (auto simp: stack_rep_Cons)

lemma dup2_shape:
  assumes "stack_rep strict (v1 # v2 # vs) t st" "length (v1 # v2 # v1 # v2 # vs) \<le> length (stack_mem st)"
    "kind_tos (jtype v1) = TOS_INT"
  shows "moves_on (dup2_impl fp t st) strict (v1 # v2 # v1 # v2 # vs) st"
proof -
  obtain x where t: "t = Tos_int x" "val_rep strict v1 x"
    using assms(1,3) by (cases v1) (auto simp: stack_rep_Cons)
  have "stack_rep strict (v1 # v2 # v1 # v2 # vs) t (dup2_memory x st)" "same_rest st (dup2_memory x st)"
    using assms t by (auto simp: stack_rep_Cons dup2_memory_def Let_def memory_simps)
  then show ?thesis
    using moves_onI by (simp add: t)
qed

section \<open>The analysis predicts the types of operations\<close>

lemma int_un_operation:
  "map_of (jint_un fp) k = Some f \<Longrightarrow> int_operation fp k (JInt b # vs) = Some (f b # vs)"
  by (cases vs; cases "hd vs")
    (auto simp: int_operation_def jint_un_def jint_bin_def jlong_shift_def split: if_splits)

lemma int_bin_operation:
  "map_of jint_bin k = Some f \<Longrightarrow> int_operation fp k (JInt b # JInt a # vs) = Some (JInt (f a b) # vs)"
  by (simp add: int_operation_def)

lemma long_shift_operation:
  "map_of jlong_shift k = Some f \<Longrightarrow> int_operation fp k (JInt b # JLong a # vs) = Some (JLong (f a b) # vs)"
  by (simp add: int_operation_def)

lemma long_bin_operation:
  "map_of jlong_bin k = Some f \<Longrightarrow> operation fp k (JLong b # JLong a # vs) = Some (JLong (f a b) # vs)"
  by (simp add: operation_def int_operation_def long_operation_def)

lemma lcmp_operation:
  "operation fp insn_lcmp (JLong b # JLong a # vs) = Some (JInt (compare_int (sint a) (sint b)) # vs)"
  by (simp add: operation_def int_operation_def long_operation_def jlong_bin_def)

lemma long_un_operation:
  "map_of (jlong_un fp) k = Some f \<Longrightarrow> operation fp k (JLong b # vs) = Some (f b # vs)"
  by (cases vs; cases "hd vs")
    (auto simp: operation_def int_operation_def long_operation_def jlong_un_def jlong_bin_def split: if_splits)

lemma float_un_operation:
  "map_of (jfloat_un fp) k = Some f \<Longrightarrow> operation fp k (JFloat b # vs) = Some (f b # vs)"
  by (cases vs; cases "hd vs")
    (auto simp: operation_def int_operation_def long_operation_def float_operation_def jfloat_un_def jfloat_bin_def
      split: if_splits)

lemma double_un_operation:
  "map_of (jdouble_un fp) k = Some f \<Longrightarrow> operation fp k (JDouble b # vs) = Some (f b # vs)"
  by (cases vs; cases "hd vs")
    (auto simp: operation_def int_operation_def long_operation_def float_operation_def jdouble_un_def jdouble_bin_def
      split: if_splits)

lemma float_bin_operation:
  "map_of (jfloat_bin fp) k = Some f \<Longrightarrow> operation fp k (JFloat b # JFloat a # vs) = Some (f a b # vs)"
  "map_of (jdouble_bin fp) k = Some g \<Longrightarrow> operation fp k (JDouble d # JDouble c # vs) = Some (g c d # vs)"
  by (simp_all add: operation_def int_operation_def long_operation_def float_operation_def)

lemma int_operations:
  "map_of (jint_un fp) k = Some f \<Longrightarrow> operation fp k (JInt b # vs) = Some (f b # vs)"
  "map_of jint_bin k = Some g \<Longrightarrow> operation fp k (JInt b # JInt a # vs) = Some (JInt (g a b) # vs)"
  "map_of jlong_shift k = Some h \<Longrightarrow> operation fp k (JInt b # JLong c # vs) = Some (JLong (h c b) # vs)"
  by (simp_all add: operation_def int_un_operation int_bin_operation long_shift_operation)

lemmas operation_cases =
  int_operations long_bin_operation long_un_operation float_un_operation double_un_operation float_bin_operation
  lcmp_operation

lemma jtype_eqs:
  "jtype v = TYPE_KIND_INT \<longleftrightarrow> (\<exists>w. v = JInt w)"
  "jtype v = TYPE_KIND_LONG \<longleftrightarrow> (\<exists>w. v = JLong w)"
  "jtype v = TYPE_KIND_FLOAT \<longleftrightarrow> (\<exists>w. v = JFloat w)"
  "jtype v = TYPE_KIND_DOUBLE \<longleftrightarrow> (\<exists>w. v = JDouble w)"
  "jtype v = TYPE_KIND_REFERENCE \<longleftrightarrow> (\<exists>w. v = JRef w)"
  by (cases v; simp)+

definition predicted :: "fpu \<Rightarrow> insn_code_kind \<Rightarrow> type_kind list \<Rightarrow> type_kind list \<Rightarrow> bool" where
  "predicted fp k pops pushes \<longleftrightarrow>
     (\<forall>ops vs. map jtype ops = pops \<longrightarrow>
        (\<exists>rs. operation fp k (ops @ vs) = Some (rs @ vs) \<and> map jtype rs = pushes))"

lemma predictedI:
  assumes "\<And>ops vs. map jtype ops = pops \<Longrightarrow> \<exists>r. operation fp k (ops @ vs) = Some (r # vs) \<and> jtype r = b"
  shows "predicted fp k pops [b]"
  unfolding predicted_def
proof (intro allI impI)
  fix ops vs assume "map jtype ops = pops"
  from assms [OF this, of vs] obtain r where "operation fp k (ops @ vs) = Some ([r] @ vs)" "map jtype [r] = [b]"
    by auto
  then show "\<exists>rs. operation fp k (ops @ vs) = Some (rs @ vs) \<and> map jtype rs = [b]"
    by (intro exI [of _ "[r]"] conjI)
qed

lemma predicted_un:
  "(\<And>v vs. jtype v = a \<Longrightarrow> \<exists>r. operation fp k (v # vs) = Some (r # vs) \<and> jtype r = b) \<Longrightarrow> predicted fp k [a] [b]"
  by (rule predictedI) (auto simp: map_eq_Cons_conv)

lemma predicted_bin:
  "(\<And>v w vs. jtype v = a \<Longrightarrow> jtype w = b \<Longrightarrow> \<exists>r. operation fp k (v # w # vs) = Some (r # vs) \<and> jtype r = c)
    \<Longrightarrow> predicted fp k [a, b] [c]"
  by (rule predictedI) (auto simp: map_eq_Cons_conv)

lemmas operation_tables =
  jint_un_def jint_bin_def jlong_shift_def jlong_bin_def jlong_un_def jfloat_un_def jdouble_un_def jfloat_bin_def
  jdouble_bin_def

lemma convert_predicted:
  "list_all (\<lambda>(ks, pops, pushes, t). list_all (\<lambda>k. predicted fp k pops pushes \<and> \<not> t) ks) convert_effects"
  by (auto simp: convert_effects_def jtype_eqs operation_cases operation_tables intro!: predicted_un)

lemma arith_predicted:
  "list_all (\<lambda>(ks, pops, pushes, t). list_all (\<lambda>k. k \<in> set division_kinds \<or> predicted fp k pops pushes \<and> \<not> t) ks)
     arith_effects"
  by (auto simp: arith_effects_def division_kinds_def jtype_eqs operation_cases operation_tables
      intro!: predicted_un predicted_bin)

end
