(* ===== verification/Handler_Simulation.thy ===== *)
theory Handler_Simulation
  imports Interpreter_Refinement
begin

text \<open>
  The relation between the frames of the interpreter and of the machine of the specification, and
  one simulation lemma for each group of handlers: divisions, branches and switches, arrays,
  constants, locals and returns.
\<close>

section \<open>Frames\<close>

text \<open>The renumbering is a permutation of the locals.\<close>

definition swizzle_ok :: "int list \<Rightarrow> nat \<Rightarrow> bool" where
  "swizzle_ok swz n \<longleftrightarrow> length swz = n \<and> mset swz = mset (map int [0..<n])"

definition swz_at :: "int list \<Rightarrow> nat \<Rightarrow> nat" where
  "swz_at swz i = nat (swz ! i)"

text \<open>Local \<open>i\<close> of the class file lies in slot \<open>swz_at swz i\<close>; the analysis knows its type or nothing.\<close>

definition locals_rep :: "int list \<Rightarrow> type_state \<Rightarrow> (nat \<Rightarrow> jval option) \<Rightarrow> u64 list \<Rightarrow> bool" where
  "locals_rep swz ls jl mem \<longleftrightarrow>
     length mem = length ls \<and>
     (\<forall>i<length swz. ls ! swz_at swz i \<noteq> TYPE_KIND_VOID \<longrightarrow>
        (\<exists>v. jl i = Some v \<and> jtype v = ls ! swz_at swz i \<and> val_rep False v (mem ! swz_at swz i)))"

definition frame_rep ::
    "bool \<Rightarrow> int list \<Rightarrow> type_state \<Rightarrow> type_state \<Rightarrow> jframe \<Rightarrow> tos_value \<Rightarrow> interp_state \<Rightarrow> bool" where
  "frame_rep strict swz ts ls fr t st \<longleftrightarrow>
     map jtype (j_stack fr) = ts \<and> stack_rep strict (j_stack fr) t st \<and>
     locals_rep swz ls (j_locals fr) (locals_mem st) \<and> pc st = j_pc fr \<and> heap st = j_heap fr"

text \<open>A suspended frame: everything is in memory, and the instruction has not been executed.\<close>

definition suspended_rep ::
    "bool \<Rightarrow> int list \<Rightarrow> type_state \<Rightarrow> type_state \<Rightarrow> jframe \<Rightarrow> interp_state \<Rightarrow> bool" where
  "suspended_rep strict swz ts ls fr st \<longleftrightarrow>
     map jtype (j_stack fr) = ts \<and> memory_rep strict (j_stack fr) st \<and>
     locals_rep swz ls (j_locals fr) (locals_mem st) \<and> pc st = j_pc fr \<and> heap st = j_heap fr"

lemma swizzle_elem:
  assumes "swizzle_ok swz n" "i < n"
  shows "swz ! i \<in> int ` {0..<n}"
proof -
  have "set swz = set (map int [0..<n])"
    using assms(1) unfolding swizzle_ok_def by (metis mset_eq_setD)
  then show ?thesis
    using assms nth_mem [of i swz] by (auto simp: swizzle_ok_def)
qed

lemma swizzle_at: "swizzle_ok swz n \<Longrightarrow> i < n \<Longrightarrow> swz_at swz i < n"
  using swizzle_elem [of swz n i] by (auto simp: swz_at_def)

lemma swizzle_inj:
  assumes "swizzle_ok swz n" "i < n" "j < n" "swz_at swz i = swz_at swz j"
  shows "i = j"
proof -
  have "distinct swz"
    using assms(1) by (metis swizzle_ok_def distinct_map distinct_upt inj_on_of_nat mset_eq_imp_distinct_iff)
  moreover have "swz ! i = swz ! j"
    using assms(4) swizzle_elem [OF assms(1,2)] swizzle_elem [OF assms(1,3)] by (auto simp: swz_at_def)
  ultimately show ?thesis
    using assms(1-3) by (simp add: nth_eq_iff_index_eq swizzle_ok_def)
qed

lemma locals_rep_get:
  assumes "locals_rep swz ls jl mem" "i < length swz" "ls ! swz_at swz i = k" "k \<noteq> TYPE_KIND_VOID"
  obtains v where "jl i = Some v" "jtype v = k" "val_rep False v (mem ! swz_at swz i)"
  using assms unfolding locals_rep_def by blast

lemma locals_rep_set:
  assumes rep: "locals_rep swz ls jl mem" and ok: "swizzle_ok swz (length ls)" and i: "i < length ls"
    and v: "val_rep False v x"
  shows "locals_rep swz (ls[swz_at swz i := jtype v]) (jl(i \<mapsto> v)) (mem[swz_at swz i := x])"
  unfolding locals_rep_def
proof (intro conjI allI impI)
  show "length (mem[swz_at swz i := x]) = length (ls[swz_at swz i := jtype v])"
    using rep by (simp add: locals_rep_def)
  fix j assume j: "j < length swz"
    and ty: "ls[swz_at swz i := jtype v] ! swz_at swz j \<noteq> TYPE_KIND_VOID"
  have at: "swz_at swz i < length ls" using ok i by (rule swizzle_at)
  show "\<exists>w. (jl(i \<mapsto> v)) j = Some w \<and> jtype w = ls[swz_at swz i := jtype v] ! swz_at swz j \<and>
      val_rep False w (mem[swz_at swz i := x] ! swz_at swz j)"
  proof (cases "j = i")
    case True
    then show ?thesis using at v rep by (simp add: locals_rep_def)
  next
    case False
    then have "swz_at swz j \<noteq> swz_at swz i"
      using swizzle_inj [OF ok] i j ok by (auto simp: swizzle_ok_def)
    then show ?thesis using rep j ty False by (simp add: locals_rep_def)
  qed
qed

section \<open>Divisions\<close>

lemma java_idiv_eq: "java_idiv a b = word_of_int (sint a sdiv sint b)"
  by (simp add: java_idiv_def)

lemma java_ldiv_eq: "java_ldiv a b = word_of_int (sint a sdiv sint b)"
  by (simp add: java_ldiv_def)

lemma smod_one [simp]: "(x :: int) smod 1 = 0"
  by (simp add: smod_int_alt_def)

lemma java_lrem_eq: "java_lrem a b = word_of_int (sint a smod sint b)"
  by (simp add: java_lrem_def)

lemma sint_u32_range: "- (2 ^ 31) \<le> sint (a :: u32)" "sint (a :: u32) < 2 ^ 31"
  using sint_greater_eq [of a] sint_less [of a] by simp_all

lemma java_irem_eq: "java_irem a b = sext (word_of_int (sint a smod sint b))"
proof -
  have "- (2 ^ 31) \<le> sint a smod sint b" "sint a smod sint b < 2 ^ 31"
    using smod_int_range [of "sint b" "sint a"] smod_int_compares sint_u32_range [of a] sint_u32_range [of b]
    by (cases "sint b = 0"; auto)+
  then have "sint (word_of_int (sint a smod sint b) :: u32) = sint a smod sint b"
    by (simp add: sint_sbintrunc' signed_take_bit_int_eq_self)
  then show ?thesis
    by (simp add: java_irem_def sext_def scast_eq)
qed

lemma int_division_sim:
  assumes "stack_rep strict (JInt b # JInt a # vs) t st" "kind insn = insn_idiv \<or> kind insn = insn_irem"
  shows "b = 0 \<Longrightarrow> typed_handler env cd insn t st = Throws Division_by_zero (spill t st)"
    and "b \<noteq> 0 \<Longrightarrow> moves_on (typed_handler env cd insn t st) strict
      (JInt (word_of_int (if kind insn = insn_idiv then sint a sdiv sint b else sint a smod sint b)) # vs) st"
proof -
  obtain x where t: "t = Tos_int x" "slot_i x = b"
    using assms(1) by (auto simp: stack_rep_Cons)
  have a: "slot_i (peek 2 st) = a" using peek_stack [OF assms(1)] by simp
  show "b = 0 \<Longrightarrow> typed_handler env cd insn t st = Throws Division_by_zero (spill t st)"
    using assms(2) t
    by (auto simp: int_handler_def int_bin_ops_def int_un_ops_def div_ops_def div_impl_def)
  show "b \<noteq> 0 \<Longrightarrow> moves_on (typed_handler env cd insn t st) strict
      (JInt (word_of_int (if kind insn = insn_idiv then sint a sdiv sint b else sint a smod sint b)) # vs) st"
    using assms(2) t a binop_rep [OF assms(1)]
    by (auto simp: int_handler_def int_bin_ops_def int_un_ops_def div_ops_def div_impl_def java_idiv_eq java_irem_eq
        intro!: moves_onI)
qed

lemma long_division_sim:
  assumes "stack_rep strict (JLong b # JLong a # vs) t st" "kind insn = insn_ldiv \<or> kind insn = insn_lrem"
  shows "b = 0 \<Longrightarrow> typed_handler env cd insn t st = Throws Division_by_zero (spill t st)"
    and "b \<noteq> 0 \<Longrightarrow> moves_on (typed_handler env cd insn t st) strict
      (JLong (word_of_int (if kind insn = insn_ldiv then sint a sdiv sint b else sint a smod sint b)) # vs) st"
proof -
  have t: "t = Tos_int b" using assms(1) by (auto simp: stack_rep_Cons)
  have a: "peek 2 st = a" using peek_stack [OF assms(1)] by simp
  show "b = 0 \<Longrightarrow> typed_handler env cd insn t st = Throws Division_by_zero (spill t st)"
    using assms(2)
    by (auto simp: t int_handler_def int_bin_ops_def int_un_ops_def div_ops_def div_impl_def)
  show "b \<noteq> 0 \<Longrightarrow> moves_on (typed_handler env cd insn t st) strict
      (JLong (word_of_int (if kind insn = insn_ldiv then sint a sdiv sint b else sint a smod sint b)) # vs) st"
    using assms(2) a binop_rep [OF assms(1)]
    by (auto simp: t int_handler_def int_bin_ops_def int_un_ops_def div_ops_def div_impl_def java_ldiv_eq java_lrem_eq
        intro!: moves_onI)
qed

section \<open>Branches\<close>

lemma drop_rep:
  "stack_rep strict (v # vs) t st \<Longrightarrow> memory_rep strict vs (drop_sp 1 st)"
  "stack_rep strict (v # w # vs) t st \<Longrightarrow> memory_rep strict vs (drop_sp 2 st)"
  "stack_rep strict (v # w # u # vs) t st \<Longrightarrow> memory_rep strict vs (drop_sp 3 st)"
  by (auto simp: stack_rep_Cons memory_rep_def drop_sp_def)

text \<open>A branch jumps, or asks for fuel with the frame as it was.\<close>

definition goes_to :: "outcome \<Rightarrow> bool \<Rightarrow> nat \<Rightarrow> jval list \<Rightarrow> jval list \<Rightarrow> interp_state \<Rightarrow> bool" where
  "goes_to r strict p vs vs0 st \<longleftrightarrow>
     jumps r strict p vs st \<or>
     (\<exists>st'. r = Refuel st' \<and> fuel st = 0 \<and> memory_rep strict vs0 st' \<and> same_rest st st')"

lemma fuel_check_goes:
  assumes "stack_rep strict vs0 t st" "jumps (k (st\<lparr>fuel := fuel st - 1\<rparr>)) strict p vs (st\<lparr>fuel := fuel st - 1\<rparr>)"
  shows "goes_to (fuel_check t st k) strict p vs vs0 st"
  using assms spill_rep [of strict vs0 t "st\<lparr>fuel := fuel st - 1\<rparr>"]
  by (auto simp: fuel_check_def goes_to_def jumps_def same_rest_def Let_def)

lemma sint_small:
  assumes "unat (w :: u32) < 2 ^ 31"
  shows "sint w = int (unat w)"
proof -
  have "int (unat w) < int (2 ^ 31)" using assms by (simp only: of_nat_less_iff)
  then have "uint w < 2 ^ 31" by simp
  moreover have "- (2 ^ 31) \<le> uint w" by (rule order_trans [of _ 0]) simp_all
  ultimately show ?thesis by (simp add: sint_uint signed_take_bit_int_eq_self)
qed

lemma branch_delta:
  assumes "unat w < n" "n < 2 ^ 31" "delta insn = calculate_branch_delta w (pc st)"
  shows "jump_by (delta insn) st = st\<lparr>pc := unat w\<rparr>"
proof -
  have "sint w = int (unat w)"
    using assms(1,2) by (intro sint_small) simp
  then show ?thesis
    by (simp add: jump_by_def assms(3) calculate_branch_delta_def sizeof_bytecode_insn_def)
qed

lemma take_branch_jumps:
  assumes "memory_rep strict vs (drop_sp m st)" "fits_at cd (if taken then unat w else pc st + 1) vs"
    "unat w < length cd" "length cd < 2 ^ 31" "delta insn = calculate_branch_delta w (pc st)"
  shows "jumps (take_branch cd insn taken m st) strict (if taken then unat w else pc st + 1) vs st"
proof -
  let ?p = "if taken then unat w else pc st + 1"
  have "jump_by (if taken then delta insn else sizeof_bytecode_insn) st = st\<lparr>pc := ?p\<rparr>"
    using branch_delta [OF assms(3-5)] by (simp add: jump_by_def sizeof_bytecode_insn_def nat_add_distrib)
  moreover have "memory_rep strict vs (drop_sp m (st\<lparr>pc := ?p\<rparr>))"
    using assms(1) by (simp add: drop_sp_def memory_rep_def)
  ultimately show ?thesis
    using polymorphic_jump [of strict vs "drop_sp m (st\<lparr>pc := ?p\<rparr>)" cd st] assms(2)
    by (simp add: take_branch_def drop_sp_def)
qed

text \<open>The facts about an instruction that branches to \<open>w\<close>.\<close>

definition branch_ok :: "analyzed_insn list \<Rightarrow> analyzed_insn \<Rightarrow> u32 \<Rightarrow> jval list \<Rightarrow> interp_state \<Rightarrow> bool" where
  "branch_ok cd insn w vs st \<longleftrightarrow>
     unat w < length cd \<and> length cd < 2 ^ 31 \<and> delta insn = calculate_branch_delta w (pc st) \<and>
     fits_at cd (unat w) vs \<and> fits_at cd (pc st + 1) vs"

lemma branch_goes:
  assumes "stack_rep strict vs0 t st" "memory_rep strict vs (drop_sp m st)" "branch_ok cd insn w vs st"
  shows "goes_to (fuel_check t st (take_branch cd insn taken m)) strict (if taken then unat w else pc st + 1) vs vs0 st"
proof (rule fuel_check_goes [OF assms(1)])
  show "jumps (take_branch cd insn taken m (st\<lparr>fuel := fuel st - 1\<rparr>)) strict
     (if taken then unat w else pc st + 1) vs (st\<lparr>fuel := fuel st - 1\<rparr>)"
    using take_branch_jumps [of strict vs m "st\<lparr>fuel := fuel st - 1\<rparr>" cd taken w insn] assms(2,3)
    by (auto simp: branch_ok_def drop_sp_def memory_rep_def)
qed

lemma int_branch_sim:
  assumes "map_of jint_tests (kind insn) = Some test" "stack_rep strict (JInt b # vs) t st" "branch_ok cd insn w vs st"
  shows "goes_to (typed_handler env cd insn t st) strict (if test (sint b) then unat w else pc st + 1) vs (JInt b # vs) st"
proof -
  obtain x where t: "t = Tos_int x" "slot_i x = b" using assms(2) by (auto simp: stack_rep_Cons)
  have "typed_handler env cd insn t st = fuel_check t st (take_branch cd insn (test (sint b)) 1)"
    using assms(1) t
    by (auto simp: jint_tests_def int_handler_def int_bin_ops_def int_un_ops_def div_ops_def array_loads_def
        array_stores_def zero_branches_def zero_branch_impl_def split: if_splits)
  then show ?thesis using branch_goes [OF assms(2) drop_rep(1) [OF assms(2)] assms(3)] by simp
qed

lemma ref_branch_sim:
  assumes "map_of jref_tests (kind insn) = Some test" "stack_rep strict (JRef b # vs) t st" "branch_ok cd insn w vs st"
    "slot_i b = 0 \<longrightarrow> b = 0"
  shows "goes_to (typed_handler env cd insn t st) strict (if test b then unat w else pc st + 1) vs (JRef b # vs) st"
proof -
  have t: "t = Tos_int b" using assms(2) by (auto simp: stack_rep_Cons)
  have "sint (slot_i b) = 0 \<longleftrightarrow> b = 0"
    using assms(4) by (auto simp: slot_i_def signed_eq_0_iff)
  then have "typed_handler env cd insn t st = fuel_check t st (take_branch cd insn (test b) 1)"
    using assms(1)
    by (auto simp: t jref_tests_def int_handler_def int_bin_ops_def int_un_ops_def div_ops_def array_loads_def
        array_stores_def zero_branches_def zero_branch_impl_def split: if_splits)
  then show ?thesis using branch_goes [OF assms(2) drop_rep(1) [OF assms(2)] assms(3)] by simp
qed

lemma cmp_branch_sim:
  assumes "map_of cmp_branches (kind insn) = Some test" "stack_rep strict (JInt b # JInt a # vs) t st"
    "branch_ok cd insn w vs st"
  shows "goes_to (typed_handler env cd insn t st) strict (if test (sint a) (sint b) then unat w else pc st + 1) vs
     (JInt b # JInt a # vs) st"
proof -
  obtain x where t: "t = Tos_int x" "slot_i x = b" using assms(2) by (auto simp: stack_rep_Cons)
  have a: "slot_i (peek 2 st) = a" using peek_stack [OF assms(2)] by simp
  have "typed_handler env cd insn t st = cmp_branch_impl cd insn test x st"
    using assms(1) t
    by (auto simp: int_handler_def int_bin_ops_def int_un_ops_def div_ops_def array_loads_def
        array_stores_def zero_branches_def cmp_branches_def split: if_splits)
  also have "\<dots> = fuel_check t st (take_branch cd insn (test (sint a) (sint b)) 2)"
    using t a by (simp add: cmp_branch_impl_def fuel_check_def Let_def peek_def)
  finally show ?thesis using branch_goes [OF assms(2) drop_rep(2) [OF assms(2)] assms(3)] by simp
qed

lemma acmp_branch_sim:
  assumes "map_of acmp_branches (kind insn) = Some test" "stack_rep strict (JRef b # JRef a # vs) t st"
    "branch_ok cd insn w vs st"
  shows "goes_to (typed_handler env cd insn t st) strict (if test a b then unat w else pc st + 1) vs
     (JRef b # JRef a # vs) st"
proof -
  have t: "t = Tos_int b" using assms(2) by (auto simp: stack_rep_Cons)
  have a: "peek 2 st = a" using peek_stack [OF assms(2)] by simp
  have "typed_handler env cd insn t st = acmp_branch_impl cd insn test b st"
    using assms(1) t
    by (auto simp: int_handler_def int_bin_ops_def int_un_ops_def div_ops_def array_loads_def
        array_stores_def zero_branches_def cmp_branches_def acmp_branches_def split: if_splits)
  also have "\<dots> = fuel_check t st (take_branch cd insn (test a b) 2)"
    using t a by (simp add: acmp_branch_impl_def fuel_check_def Let_def peek_def)
  finally show ?thesis using branch_goes [OF assms(2) drop_rep(2) [OF assms(2)] assms(3)] by simp
qed

lemma goto_sim:
  assumes "stack_rep strict vs t st" "unat w < length cd" "length cd < 2 ^ 31"
    "delta insn = calculate_branch_delta w (pc st)"
  shows "goes_to (goto_impl insn t st) strict (unat w) vs vs st"
  unfolding goto_impl_def
  using assms(1) branch_delta [OF assms(2,3), of insn "st\<lparr>fuel := fuel st - 1\<rparr>"] assms(4)
  by (intro fuel_check_goes) (auto simp: jumps_def)

lemma find_key_eq:
  "length ks = length ts \<Longrightarrow> find_key ks ts key d = (case map_of (zip ks ts) key of Some t \<Rightarrow> t | None \<Rightarrow> d)"
  by (induction ks ts rule: list_induct2) auto

lemma goto_target_jumps:
  assumes "stack_rep strict (v # vs) t st" "fits_at cd (nat target) vs"
  shows "jumps (goto_target cd target st) strict (nat target) vs st"
  unfolding goto_target_def
  using polymorphic_jump [of strict vs "drop_sp 1 (st\<lparr>pc := nat target\<rparr>)" cd st] drop_rep(1) [OF assms(1)] assms(2)
  by (simp add: drop_sp_def memory_rep_def)

lemmas int_tables =
  int_bin_ops_def int_un_ops_def div_ops_def array_loads_def array_stores_def zero_branches_def cmp_branches_def
  acmp_branches_def int_store_value_def

lemma switch_handler:
  "kind insn = insn_tableswitch \<Longrightarrow> operand insn = Tableswitch d \<Longrightarrow>
     int_handler env cd insn x st = tableswitch_impl cd d x st"
  "kind insn = insn_lookupswitch \<Longrightarrow> operand insn = Lookupswitch e \<Longrightarrow>
     int_handler env cd insn x st = lookupswitch_impl cd e x st"
  by (simp_all add: int_handler_def int_tables)

lemma switch_sim:
  assumes "stack_rep strict (JInt b # vs) t st"
  shows "operand insn = Tableswitch d \<Longrightarrow> kind insn = insn_tableswitch \<Longrightarrow>
      fits_at cd (nat (table_target d (sint b))) vs \<Longrightarrow>
      jumps (typed_handler env cd insn t st) strict (nat (table_target d (sint b))) vs st"
    and "operand insn = Lookupswitch e \<Longrightarrow> kind insn = insn_lookupswitch \<Longrightarrow> length (ls_keys e) = length (ls_targets e) \<Longrightarrow>
      fits_at cd (nat (lookup_target e (sint b))) vs \<Longrightarrow>
      jumps (typed_handler env cd insn t st) strict (nat (lookup_target e (sint b))) vs st"
proof -
  obtain x where t: "t = Tos_int x" "slot_i x = b" using assms(1) by (auto simp: stack_rep_Cons)
  have table: "tableswitch_impl cd d x st = goto_target cd (table_target d (sint b)) st"
    by (auto simp: tableswitch_impl_def t table_target_def Let_def)
  show "operand insn = Tableswitch d \<Longrightarrow> kind insn = insn_tableswitch \<Longrightarrow>
      fits_at cd (nat (table_target d (sint b))) vs \<Longrightarrow>
      jumps (typed_handler env cd insn t st) strict (nat (table_target d (sint b))) vs st"
    using goto_target_jumps [OF assms(1), of cd "table_target d (sint b)"] switch_handler(1) table by (simp add: t)
  show "operand insn = Lookupswitch e \<Longrightarrow> kind insn = insn_lookupswitch \<Longrightarrow> length (ls_keys e) = length (ls_targets e) \<Longrightarrow>
      fits_at cd (nat (lookup_target e (sint b))) vs \<Longrightarrow>
      jumps (typed_handler env cd insn t st) strict (nat (lookup_target e (sint b))) vs st"
    using goto_target_jumps [OF assms(1), of cd "lookup_target e (sint b)"] switch_handler(2)
    by (simp add: lookupswitch_impl_def t lookup_target_def find_key_eq)
qed

section \<open>Arrays\<close>

lemma ArrayLength_eq [simp]: "ArrayLength st a = array_length (heap st) a"
  by (simp add: ArrayLength_def array_length_def)

lemma in_bounds_eq [simp]: "in_bounds st a i \<longleftrightarrow> 0 \<le> i \<and> i < array_length (heap st) a"
  by (simp add: in_bounds_def)

lemma array_load_lookup:
  assumes "map_of jarray_loads k = Some (width, widen)"
  shows "\<exists>wd. map_of array_loads k = Some (width, wd) \<and> (\<forall>x. tos_rep strict (widen x) (wd x)) \<and>
      map_of int_bin_ops k = None \<and> map_of (int_un_ops fp) k = None \<and> map_of div_ops k = None"
  using assms
  by (auto simp: jarray_loads_def array_loads_def int_bin_ops_def int_un_ops_def div_ops_def sext_casts
      split: if_splits)

lemma array_load_sim:
  assumes "map_of jarray_loads (kind insn) = Some (width, widen)" "stack_rep strict (JInt i # JRef a # vs) t st"
  shows "a = 0 \<Longrightarrow> typed_handler env cd insn t st = Throws Null_pointer st"
    and "a \<noteq> 0 \<Longrightarrow> \<not> (0 \<le> sint i \<and> sint i < array_length (heap st) a) \<Longrightarrow>
      typed_handler env cd insn t st = Throws (Array_index_oob (sint i) (array_length (heap st) a)) st"
    and "a \<noteq> 0 \<Longrightarrow> 0 \<le> sint i \<and> sint i < array_length (heap st) a \<Longrightarrow>
      moves_on (typed_handler env cd insn t st) strict
        (widen (mem_load width (heap st) (element_address width a (sint i))) # vs) st"
proof -
  obtain x where t: "t = Tos_int x" "slot_i x = i" using assms(2) by (auto simp: stack_rep_Cons)
  have a: "peek 2 st = a" using peek_stack [OF assms(2)] by simp
  obtain wd where wd: "map_of array_loads (kind insn) = Some (width, wd)" "\<And>x. tos_rep strict (widen x) (wd x)"
    and h: "typed_handler env cd insn t st = array_load_impl width wd x st"
    using array_load_lookup [OF assms(1), of strict "env_fpu env"] by (auto simp: t int_handler_def)
  show "a = 0 \<Longrightarrow> typed_handler env cd insn t st = Throws Null_pointer st"
    "a \<noteq> 0 \<Longrightarrow> \<not> (0 \<le> sint i \<and> sint i < array_length (heap st) a) \<Longrightarrow>
      typed_handler env cd insn t st = Throws (Array_index_oob (sint i) (array_length (heap st) a)) st"
    unfolding h by (auto simp: array_load_impl_def a t(2) Let_def)
  show "a \<noteq> 0 \<Longrightarrow> 0 \<le> sint i \<and> sint i < array_length (heap st) a \<Longrightarrow>
      moves_on (typed_handler env cd insn t st) strict
        (widen (mem_load width (heap st) (element_address width a (sint i))) # vs) st"
    unfolding h using binop_rep [OF assms(2) wd(2)] by (auto simp: array_load_impl_def a t(2) Let_def intro!: moves_onI)
qed

lemma mem_store_cong: "take_bit (8 * n) x = take_bit (8 * n) y \<Longrightarrow> mem_store n a x m = mem_store n a y m"
proof (induction n arbitrary: a x y m)
  case (Suc n)
  have low: "(ucast (take_bit (8 * Suc n) z) :: u8) = ucast z" for z :: u64
    by (rule bit_word_eqI) (auto simp: bit_simps)
  have c: "(ucast x :: u8) = ucast y"
    by (metis Suc.prems low)
  have d: "take_bit (8 * n) (drop_bit 8 x) = take_bit (8 * n) (drop_bit 8 y)"
  proof -
    have "drop_bit 8 (take_bit (8 * Suc n) z) = take_bit (8 * n) (drop_bit 8 z)" for z :: u64
      by (simp add: drop_bit_take_bit)
    then show ?thesis by (metis Suc.prems)
  qed
  show ?case unfolding mem_store.simps c by (rule Suc.IH [OF d])
qed simp

lemma low_store: "slot_i x = w \<Longrightarrow> n \<le> 4 \<Longrightarrow> mem_store n a x m = mem_store n a (ucast w) m"
  by (rule mem_store_cong, rule bit_eqI) (auto simp: slot_i_def bit_simps)

text \<open>Every store handler but that of \<open>aastore\<close> is \<open>array_store_impl\<close> on the pattern of the value.\<close>

lemma store_handler:
  "map_of array_stores (kind insn) = Some w \<Longrightarrow> kind insn \<notin> {insn_fastore, insn_dastore} \<Longrightarrow>
     int_handler env cd insn x st = array_store_impl cd w x st"
  by (auto simp: array_stores_def int_handler_def int_bin_ops_def int_un_ops_def div_ops_def array_loads_def
      split: if_splits)

lemma float_store_handler:
  "kind insn = insn_fastore \<Longrightarrow> float_handler env cd insn f st = array_store_impl cd 4 (ucast f) st"
  "kind insn = insn_dastore \<Longrightarrow> double_handler env cd insn d st = array_store_impl cd 8 d st"
  by (simp_all add: float_handler_def double_handler_def float_bin_ops_def float_un_ops_def double_bin_ops_def
      double_un_ops_def)

lemma array_store_kinds:
  assumes "map_of jarray_stores k = Some (width, ty)"
  shows "map_of array_stores k = (if k = insn_aastore then None else Some width)"
    and "ty = TYPE_KIND_FLOAT \<longleftrightarrow> k = insn_fastore" "ty = TYPE_KIND_DOUBLE \<longleftrightarrow> k = insn_dastore"
    and "ty = TYPE_KIND_INT \<Longrightarrow> width \<le> 4" "k = insn_fastore \<Longrightarrow> width = 4" "k = insn_dastore \<Longrightarrow> width = 8"
    and "ty = TYPE_KIND_REFERENCE \<longleftrightarrow> k = insn_aastore" "k = insn_aastore \<Longrightarrow> width = 8"
  using assms by (auto simp: jarray_stores_def array_stores_def split: if_splits)

lemma array_store_lookup:
  assumes "map_of jarray_stores (kind insn) = Some (width, jtype v)" "stack_rep strict (v # vs) t st"
    "kind insn \<noteq> insn_aastore"
  shows "\<exists>x. typed_handler env cd insn t st = array_store_impl cd width x st \<and>
      (\<forall>a m. mem_store width a x m = mem_store width a (jbits v) m)"
proof -
  note facts = array_store_kinds [OF assms(1)]
  from assms(2) have rep: "tos_rep strict v t" by (simp add: stack_rep_Cons)
  show ?thesis
  proof (cases v)
    case (JInt w)
    then obtain x where x: "t = Tos_int x" "slot_i x = w" using rep by auto
    have "kind insn \<notin> {insn_fastore, insn_dastore}" using facts(2,3) JInt by auto
    then have "typed_handler env cd insn t st = array_store_impl cd width x st"
      using store_handler [of insn width] facts(1) assms(3) by (simp add: x)
    then show ?thesis using low_store [OF x(2) facts(4)] JInt by auto
  next
    case (JLong w)
    then have "kind insn \<notin> {insn_fastore, insn_dastore}" using facts(2,3) by auto
    then have "typed_handler env cd insn t st = array_store_impl cd width w st"
      using store_handler [of insn width] facts(1) assms(3) rep JLong by simp
    then show ?thesis using JLong by auto
  next
    case (JFloat w)
    then have "kind insn = insn_fastore" "width = 4" using facts by auto
    then show ?thesis using JFloat rep float_store_handler(1) by auto
  next
    case (JDouble w)
    then have "kind insn = insn_dastore" "width = 8" using facts by auto
    then show ?thesis using JDouble rep float_store_handler(2) by auto
  next
    case (JRef r)
    then show ?thesis using facts(7) assms(3) by simp
  qed
qed

lemma array_store_sim:
  fixes env :: interp_env
  assumes "map_of jarray_stores (kind insn) = Some (width, jtype v)" "stack_rep strict (v # JInt i # JRef a # vs) t st"
    "fits_at cd (pc st + 1) vs"
  defines "h \<equiv> mem_store width (element_address width a (sint i)) (jbits v) (heap st)"
  defines "blocked \<equiv> kind insn = insn_aastore \<and> jbits v \<noteq> 0 \<and> \<not> env_storable env a (jbits v)"
  shows "a = 0 \<Longrightarrow> \<exists>st'. typed_handler env cd insn t st = Throws Null_pointer st'"
    and "a \<noteq> 0 \<Longrightarrow> \<not> (0 \<le> sint i \<and> sint i < array_length (heap st) a) \<Longrightarrow>
      \<exists>st'. typed_handler env cd insn t st = Throws (Array_index_oob (sint i) (array_length (heap st) a)) st'"
    and "a \<noteq> 0 \<Longrightarrow> 0 \<le> sint i \<and> sint i < array_length (heap st) a \<Longrightarrow> blocked \<Longrightarrow>
      \<exists>st'. typed_handler env cd insn t st = Throws Array_store st'"
    and "a \<noteq> 0 \<Longrightarrow> 0 \<le> sint i \<and> sint i < array_length (heap st) a \<Longrightarrow> \<not> blocked \<Longrightarrow>
      jumps (typed_handler env cd insn t st) strict (pc st + 1) vs (st\<lparr>heap := h\<rparr>)"
proof -
  have i: "slot_i (peek 2 st) = i" and a: "peek 3 st = a"
    using peek_stack [OF assms(2)] peek_stack3 [OF assms(2)] by simp_all
  have step: "jumps (STACK_POLYMORPHIC_NEXT cd (drop_sp 3 (st\<lparr>heap := h\<rparr>))) strict (pc st + 1) vs (st\<lparr>heap := h\<rparr>)"
    using polymorphic_next [of strict vs "drop_sp 3 (st\<lparr>heap := h\<rparr>)" cd "st\<lparr>heap := h\<rparr>"] drop_rep(3) [OF assms(2)] assms(3)
    by (simp add: drop_sp_def memory_rep_def same_rest_def)
  let ?goals = "(a = 0 \<longrightarrow> (\<exists>st'. typed_handler env cd insn t st = Throws Null_pointer st')) \<and>
    (a \<noteq> 0 \<longrightarrow> \<not> (0 \<le> sint i \<and> sint i < array_length (heap st) a) \<longrightarrow>
      (\<exists>st'. typed_handler env cd insn t st = Throws (Array_index_oob (sint i) (array_length (heap st) a)) st')) \<and>
    (a \<noteq> 0 \<longrightarrow> 0 \<le> sint i \<and> sint i < array_length (heap st) a \<longrightarrow>
      (blocked \<longrightarrow> (\<exists>st'. typed_handler env cd insn t st = Throws Array_store st')) \<and>
      (\<not> blocked \<longrightarrow> jumps (typed_handler env cd insn t st) strict (pc st + 1) vs (st\<lparr>heap := h\<rparr>)))"
  have ?goals
  proof (cases "kind insn = insn_aastore")
    case True
    then obtain r where v: "v = JRef r" "t = Tos_int r" and w: "width = 8"
      using assms(1,2) by (cases v) (auto simp: jarray_stores_def stack_rep_Cons)
    have "typed_handler env cd insn t st = aastore_impl env cd r st"
      using True by (simp add: v int_handler_def int_tables)
    then show ?thesis
      using step by (auto simp: aastore_impl_def Let_def i a v w h_def blocked_def True)
  next
    case False
    then obtain x where "typed_handler env cd insn t st = array_store_impl cd width x st"
      "\<And>a m. mem_store width a x m = mem_store width a (jbits v) m"
      using array_store_lookup [OF assms(1,2) False, of env cd] by blast
    then show ?thesis
      using step False by (auto simp: array_store_impl_def Let_def i a h_def blocked_def)
  qed
  then show "a = 0 \<Longrightarrow> \<exists>st'. typed_handler env cd insn t st = Throws Null_pointer st'"
    "a \<noteq> 0 \<Longrightarrow> \<not> (0 \<le> sint i \<and> sint i < array_length (heap st) a) \<Longrightarrow>
      \<exists>st'. typed_handler env cd insn t st = Throws (Array_index_oob (sint i) (array_length (heap st) a)) st'"
    "a \<noteq> 0 \<Longrightarrow> 0 \<le> sint i \<and> sint i < array_length (heap st) a \<Longrightarrow> blocked \<Longrightarrow>
      \<exists>st'. typed_handler env cd insn t st = Throws Array_store st'"
    "a \<noteq> 0 \<Longrightarrow> 0 \<le> sint i \<and> sint i < array_length (heap st) a \<Longrightarrow> \<not> blocked \<Longrightarrow>
      jumps (typed_handler env cd insn t st) strict (pc st + 1) vs (st\<lparr>heap := h\<rparr>)"
    by blast+
qed

lemma arraylength_sim:
  assumes "kind insn = insn_arraylength" "stack_rep strict (JRef a # vs) t st"
  shows "a = 0 \<Longrightarrow> typed_handler env cd insn t st = Throws Null_pointer st"
    and "a \<noteq> 0 \<Longrightarrow> moves_on (typed_handler env cd insn t st) strict (JInt (word_of_int (array_length (heap st) a)) # vs) st"
proof -
  have t: "t = Tos_int a" using assms(2) by (auto simp: stack_rep_Cons)
  have h: "typed_handler env cd insn t st = arraylength_impl a st"
    using assms(1) by (simp add: t int_handler_def int_tables)
  have len: "word_of_int (array_length m b) = sext (word_of_int (array_length m b))" for m b
    by (simp add: array_length_def sext_def)
  show "a = 0 \<Longrightarrow> typed_handler env cd insn t st = Throws Null_pointer st"
    unfolding h by (simp add: arraylength_impl_def)
  have "tos_rep strict (JInt (word_of_int (array_length (heap st) a))) (Tos_int (word_of_int (array_length (heap st) a)))"
    unfolding len by simp
  from unop_rep [OF assms(2) this]
  show "a \<noteq> 0 \<Longrightarrow> moves_on (typed_handler env cd insn t st) strict (JInt (word_of_int (array_length (heap st) a)) # vs) st"
    unfolding h by (simp add: arraylength_impl_def moves_onI)
qed

section \<open>Constants, locals and returns\<close>

text \<open>What the parser guarantees of an operand: an \<open>int\<close> immediate fits in 32 bits, the tables of a
  switch have their announced lengths, \<open>multianewarray\<close> has a dimension, and only the instructions
  that need one have an operand of another form.\<close>

definition outside_kinds :: "insn_code_kind list" where
  "outside_kinds =
     [insn_monitorenter, insn_monitorexit, insn_anewarray, insn_newarray, insn_checkcast, insn_instanceof, insn_new,
      insn_ldc]"

definition operand_wf :: "analyzed_insn \<Rightarrow> bool" where
  "operand_wf insn \<longleftrightarrow>
     (case operand insn of
        Integer_imm n \<Rightarrow> kind insn = insn_iconst \<and> - (2 ^ 31) \<le> n \<and> n < 2 ^ 31 \<or> kind insn = insn_lconst
      | F_imm _ \<Rightarrow> kind insn = insn_fconst
      | D_imm _ \<Rightarrow> kind insn = insn_dconst
      | Lookupswitch d \<Rightarrow> kind insn = insn_lookupswitch \<and> length (ls_keys d) = length (ls_targets d)
      | Tableswitch d \<Rightarrow> kind insn = insn_tableswitch \<and> int (length (ts_targets d)) = ts_high d - ts_low d + 1
      | Multianewarray _ dims \<Rightarrow> kind insn = insn_multianewarray \<and> dims \<noteq> 0
      | Index _ \<Rightarrow> kind insn \<in> set (map fst load_kinds @ map fst store_kinds @ map fst branch_effects @ [insn_jsr, insn_ret])
      | Iinc _ _ \<Rightarrow> kind insn = insn_iinc
      | _ \<Rightarrow> kind insn \<notin> {insn_iconst, insn_lconst, insn_fconst, insn_dconst})"

lemma push_moves_on:
  assumes "stack_rep strict vs t st" "tos_rep strict v c" "length vs < length (stack_mem st)"
  shows "moves_on (push_impl c (spill t st)) strict (v # vs) st"
  unfolding push_impl_def
proof (rule moves_onI)
  show "stack_rep strict (v # vs) c (raise_sp 1 (spill t st))"
    using spill_rep [OF assms(1)] assms(2,3) by (auto simp: stack_rep_Cons memory_rep_def raise_sp_def)
  show "same_rest st (raise_sp 1 (spill t st))"
    by (simp add: same_rest_def raise_sp_def)
qed

lemma sext_of_int: "- (2 ^ 31) \<le> n \<Longrightarrow> n < 2 ^ 31 \<Longrightarrow> word_of_int n = sext (word_of_int n)"
proof -
  assume "- (2 ^ 31) \<le> n" "n < 2 ^ 31"
  then have "sint (word_of_int n :: u32) = n"
    by (simp add: sint_sbintrunc' signed_take_bit_int_eq_self)
  then show ?thesis by (simp add: sext_def scast_eq)
qed

lemma slot_i_of_int: "- (2 ^ 31) \<le> n \<Longrightarrow> n < 2 ^ 31 \<Longrightarrow> slot_i (word_of_int n) = word_of_int n"
  using sext_of_int [of n] by (metis slot_i_sext)

lemma const_correct:
  assumes "jconst insn = Some v" "kind insn' = kind insn" "operand insn' = operand insn" "operand_wf insn"
  shows "\<exists>c. const_value insn' = Some c \<and> tos_rep strict v c"
proof (cases "operand insn")
  case (Integer_imm n)
  then show ?thesis
    using assms sext_of_int [of n] slot_i_of_int [of n]
    by (auto simp: jconst_def const_value_def operand_wf_def split: if_splits)
qed (use assms in \<open>auto simp: jconst_def const_value_def split: if_splits\<close>)

lemma load_correct:
  assumes "map_of load_kinds k = Some (jtype v)" "val_rep False v x"
  shows "\<exists>f. map_of local_loads k = Some f \<and> tos_rep strict v (f x)"
  using assms by (cases v) (auto simp: load_kinds_def local_loads_def split: if_splits)

lemma local_index_eq:
  assumes "delta insn = calculate_local_modifying_insn_delta maxl (word_of_nat li)" "li < maxl" "maxl < 2 ^ 31"
    "length (locals_mem st) = maxl"
  shows "local_index insn st = li"
proof -
  have "unat (word_of_nat li :: u32) = li"
    using assms(2,3) by (simp add: unsigned_of_nat take_bit_nat_eq_self)
  then have "sint (word_of_nat li :: u32) = int li"
    using assms(2,3) by (simp add: sint_small)
  then show ?thesis
    using assms(4) by (simp add: local_index_def assms(1) calculate_local_modifying_insn_delta_def)
qed

lemma int_store_handler:
  "kind insn \<in> {insn_istore, insn_lstore, insn_astore} \<Longrightarrow>
     int_handler env cd insn x st =
       local_store_impl cd insn (if kind insn = insn_istore then set_low (get_local insn st) (slot_i x) else x) st"
  by (auto simp: int_handler_def int_tables)

lemma other_store_handler:
  "kind insn = insn_fstore \<Longrightarrow> float_handler env cd insn f st = local_store_impl cd insn (set_low (get_local insn st) f) st"
  "kind insn = insn_dstore \<Longrightarrow> double_handler env cd insn d st = local_store_impl cd insn d st"
  by (simp_all add: float_handler_def double_handler_def float_bin_ops_def float_un_ops_def double_bin_ops_def
      double_un_ops_def)

lemma store_kind_types:
  assumes "map_of store_kinds k = Some ty"
  shows "ty = TYPE_KIND_INT \<longleftrightarrow> k = insn_istore" "ty = TYPE_KIND_FLOAT \<longleftrightarrow> k = insn_fstore"
    "ty = TYPE_KIND_DOUBLE \<longleftrightarrow> k = insn_dstore" "ty = TYPE_KIND_LONG \<longleftrightarrow> k = insn_lstore"
    "ty = TYPE_KIND_REFERENCE \<longleftrightarrow> k = insn_astore"
  using assms by (auto simp: store_kinds_def split: if_splits)

lemma local_store_lookup:
  assumes "map_of store_kinds (kind insn) = Some (jtype v)" "stack_rep strict (v # vs) t st"
  shows "\<exists>x. typed_handler env cd insn t st = local_store_impl cd insn x st \<and> val_rep False v x"
proof -
  have rep: "tos_rep strict v t" using assms(2) by (simp add: stack_rep_Cons)
  note types = store_kind_types [OF assms(1)]
  show ?thesis
    using rep types by (cases v) (auto simp: int_store_handler other_store_handler)
qed

lemma local_store_sim:
  assumes "map_of store_kinds (kind insn) = Some (jtype v)" "stack_rep strict (v # vs) t st"
    "fits_at cd (pc st + 1) vs"
  shows "\<exists>x. val_rep False v x \<and>
     jumps (typed_handler env cd insn t st) strict (pc st + 1) vs (set_local (local_index insn st) x st)"
proof -
  obtain x where x: "typed_handler env cd insn t st = local_store_impl cd insn x st" "val_rep False v x"
    using local_store_lookup [OF assms(1,2)] by blast
  let ?st = "set_local (local_index insn st) x st"
  have "jumps (local_store_impl cd insn x st) strict (pc st + 1) vs ?st"
    using polymorphic_next [of strict vs "drop_sp 1 ?st" cd ?st] drop_rep(1) [OF assms(2)] assms(3)
    by (simp add: local_store_impl_def set_local_def drop_sp_def memory_rep_def same_rest_def)
  then show ?thesis using x by auto
qed

lemma int_return_handler:
  "kind insn = insn_ireturn \<Longrightarrow> int_handler env cd insn x st = Return_value (sext (slot_i x)) (spill (Tos_int x) st)"
  "kind insn = insn_lreturn \<or> kind insn = insn_areturn \<Longrightarrow> int_handler env cd insn x st = Return_value x (spill (Tos_int x) st)"
  "kind insn = insn_athrow \<Longrightarrow> int_handler env cd insn x st = athrow_impl x st"
  "kind insn = insn_freturn \<Longrightarrow> float_handler env cd insn f st = Return_value (ucast f) (spill (Tos_float f) st)"
  "kind insn = insn_dreturn \<Longrightarrow> double_handler env cd insn x st = Return_value x (spill (Tos_double x) st)"
  by (auto simp: int_handler_def int_tables float_handler_def double_handler_def float_bin_ops_def float_un_ops_def
      double_bin_ops_def double_un_ops_def)

definition common_kinds :: "insn_code_kind list" where
  "common_kinds =
     [insn_nop, insn_goto, insn_dup, insn_dup2, insn_return, insn_iinc, insn_aconst_null, insn_iconst, insn_lconst,
      insn_fconst, insn_dconst] @ map fst local_loads @ map fst memory_insns"

lemma common_None: "kind insn \<notin> set common_kinds \<Longrightarrow> common_handler env cd insn t st = None"
  by (simp add: common_handler_def common_kinds_def const_value_def local_loads_def memory_insns_def
      split: insn_operand.split)

end
