(* ===== verification/Interpreter_Simulation.thy ===== *)
theory Interpreter_Simulation
  imports Handler_Simulation
begin

text \<open>
  The interpreter implements the machine of the specification: one instruction of an analysed method
  goes from related states to related states, and so does a whole execution.
\<close>

section \<open>The relation\<close>

text \<open>Position \<open>p\<close> is annotated for a stack of the types \<open>ts\<close>.\<close>

definition annotated :: "analyzed_insn list \<Rightarrow> nat \<Rightarrow> type_state \<Rightarrow> bool" where
  "annotated cd p ts \<longleftrightarrow> p < length cd \<and> tos_before (cd ! p) = stack_tos ts"

lemma annotated_fits: "annotated cd p (map jtype vs) = fits_at cd p vs"
  by (simp add: annotated_def fits_at_def)

definition branch_targets :: "'a bytecode_insn_scheme \<Rightarrow> nat list" where
  "branch_targets insn =
     (case operand insn of
        Index w \<Rightarrow> if map_of branch_effects (kind insn) = None then [] else [unat w]
      | Tableswitch d \<Rightarrow> map nat (ts_default_target d # ts_targets d)
      | Lookupswitch d \<Rightarrow> map nat (ls_default_target d # ls_targets d)
      | _ \<Rightarrow> [])"

text \<open>Instruction \<open>i\<close> of the class file is \<open>insn\<close>; the analysis, in the state \<open>ctx\<close>, has rewritten it to
  what lies at \<open>i\<close> and gone on with \<open>ctx'\<close>; where control goes next is annotated accordingly.\<close>

definition analysed_at ::
    "constant_pool \<Rightarrow> analyzed_insn list \<Rightarrow> nat \<Rightarrow> analyzed_insn \<Rightarrow> method_analysis_ctx \<Rightarrow> method_analysis_ctx \<Rightarrow> bool" where
  "analysed_at pool cd i insn ctx ctx' \<longleftrightarrow>
     i < length cd \<and> length cd < 2 ^ 31 \<and>
     length (an_locals ctx) \<le> 0xFFFF \<and> swizzle_ok (an_swizzle ctx) (length (an_locals ctx)) \<and>
     operand_wf insn \<and> kind insn \<notin> {insn_jsr, insn_ret} \<and>
     (\<exists>term. analyze_instruction pool (length (an_locals ctx)) (length cd) True i insn ctx = Inr (cd ! i, ctx', term) \<and>
        (\<not> term \<longrightarrow> annotated cd (i + 1) (an_stack ctx'))) \<and>
     (\<forall>p\<in>set (branch_targets insn). annotated cd p (an_stack ctx'))"

text \<open>The operands on which the handlers agree with the specification.\<close>

definition fine :: "bool \<Rightarrow> method_analysis_ctx \<Rightarrow> analyzed_insn \<Rightarrow> jframe \<Rightarrow> bool" where
  "fine strict ctx insn fr \<longleftrightarrow>
     int_fine strict (kind insn) \<and>
     (kind insn \<in> {insn_ifnull, insn_ifnonnull} \<longrightarrow> (\<forall>r vs. j_stack fr = JRef r # vs \<longrightarrow> slot_i r = 0 \<longrightarrow> r = 0)) \<and>
     (kind insn = insn_dup2 \<longrightarrow> (\<forall>f vs. j_stack fr \<noteq> JFloat f # vs)) \<and>
     (\<forall>w c. operand insn = Iinc w c \<longrightarrow> an_locals ctx ! swz_at (an_swizzle ctx) (unat w) = TYPE_KIND_INT)"

definition simulated ::
    "bool \<Rightarrow> method_analysis_ctx \<Rightarrow> method_analysis_ctx \<Rightarrow> jframe \<Rightarrow> tos_value \<Rightarrow> interp_state \<Rightarrow> jresult \<Rightarrow> outcome \<Rightarrow> bool" where
  "simulated strict ctx ctx' fr t st r out \<longleftrightarrow>
     (case r of
        Continue fr' \<Rightarrow>
          (\<exists>t' st'. out = Jump t' st' \<and> length (stack_mem st') = length (stack_mem st) \<and>
             frame_rep strict (an_swizzle ctx) (an_stack ctx') (an_locals ctx') fr' t' st') \<or>
          (\<exists>st'. out = Refuel st' \<and> fuel st = 0 \<and> length (stack_mem st') = length (stack_mem st) \<and>
             suspended_rep strict (an_swizzle ctx) (an_stack ctx) (an_locals ctx) fr st')
      | Returned None \<Rightarrow> \<exists>st'. out = Return_value 0 st'
      | Returned (Some v) \<Rightarrow> \<exists>x st'. out = Return_value x st' \<and> val_rep True v x
      | Raised e \<Rightarrow> \<exists>st'. out = Throws e st'
      | Outside fr' \<Rightarrow> fr' = fr \<and> out = Other_part t st
      | Stuck \<Rightarrow> False)"

section \<open>Ways to continue\<close>

abbreviation rep :: "bool \<Rightarrow> method_analysis_ctx \<Rightarrow> jframe \<Rightarrow> tos_value \<Rightarrow> interp_state \<Rightarrow> bool" where
  "rep strict ctx \<equiv> frame_rep strict (an_swizzle ctx) (an_stack ctx) (an_locals ctx)"

lemma sim_jumps:
  assumes "jumps out strict (j_pc fr') (j_stack fr') st0" "map jtype (j_stack fr') = an_stack ctx'"
    "locals_rep (an_swizzle ctx) (an_locals ctx') (j_locals fr') (locals_mem st0)" "heap st0 = j_heap fr'"
    "length (stack_mem st0) = length (stack_mem st)"
  shows "simulated strict ctx ctx' fr t st (Continue fr') out"
  using assms by (auto simp: simulated_def jumps_def frame_rep_def)

lemma sim_advance_jumps:
  assumes "jumps out strict (pc st + 1) vs' st" "rep strict ctx fr t st" "map jtype vs' = an_stack ctx'"
    "an_locals ctx' = an_locals ctx"
  shows "simulated strict ctx ctx' fr t st (advance fr vs') out"
  unfolding advance_def using assms by (intro sim_jumps [of _ _ _ st]) (auto simp: frame_rep_def)

lemma sim_advance:
  assumes "moves_on out strict vs' st" "rep strict ctx fr t st" "map jtype vs' = an_stack ctx'"
    "an_locals ctx' = an_locals ctx"
  shows "simulated strict ctx ctx' fr t st (advance fr vs') out"
  using sim_advance_jumps [OF moves_on_jumps [OF assms(1)] assms(2-4)] .

lemma sim_goto:
  assumes "goes_to out strict p vs' (j_stack fr) st" "rep strict ctx fr t st" "map jtype vs' = an_stack ctx'"
    "an_locals ctx' = an_locals ctx"
  shows "simulated strict ctx ctx' fr t st (goto_insn fr vs' p) out"
  using assms
  by (auto simp: simulated_def goto_insn_def goes_to_def jumps_def frame_rep_def suspended_rep_def same_rest_def)

section \<open>What the analysis did\<close>

text \<open>The handler that runs.\<close>

definition handler_of ::
    "interp_env \<Rightarrow> analyzed_insn list \<Rightarrow> analyzed_insn \<Rightarrow> tos_value \<Rightarrow> interp_state \<Rightarrow> outcome" where
  "handler_of env cd insn t st =
     (case common_handler env cd insn t st of Some r \<Rightarrow> r | None \<Rightarrow> typed_handler env cd insn t st)"

lemma analysed_switch:
  assumes "analysed_at pool cd i insn ctx ctx'"
  obtains before insn'' after t where
    "analyze_switch_kind pool (length (an_locals ctx)) (length cd) True i (insn\<lparr>tos_before := before\<rparr>) ctx = Inr (insn'', ctx', t)"
    "cd ! i = insn''\<lparr>tos_after := after\<rparr>" "\<not> t \<longrightarrow> annotated cd (i + 1) (an_stack ctx')"
proof -
  from assms obtain t where "analyze_instruction pool (length (an_locals ctx)) (length cd) True i insn ctx = Inr (cd ! i, ctx', t)"
    and next_ok: "\<not> t \<longrightarrow> annotated cd (i + 1) (an_stack ctx')"
    by (auto simp: analysed_at_def)
  then obtain before insn'' after where
    "analyze_switch_kind pool (length (an_locals ctx)) (length cd) True i (insn\<lparr>tos_before := before\<rparr>) ctx = Inr (insn'', ctx', t)"
    and "insn''\<lparr>tos_after := after\<rparr> = cd ! i"
    by (auto simp: analyze_instruction_def rbind_Inr)
  then show thesis using next_ok by (intro that [OF _ sym]) auto
qed

lemma no_zero_dims: "operand_wf insn \<Longrightarrow> \<forall>j. operand insn \<noteq> Multianewarray j 0"
  by (auto simp: operand_wf_def)

lemma step_handler:
  assumes "analysed_at pool cd (j_pc fr) insn ctx ctx'" "rep strict ctx fr t st"
  shows "interp_step env cd t st = handler_of env cd (cd ! j_pc fr) t st"
proof -
  obtain tm where "analyze_instruction pool (length (an_locals ctx)) (length cd) True (j_pc fr) insn ctx = Inr (cd ! j_pc fr, ctx', tm)"
    "kind insn \<notin> {insn_jsr, insn_ret}" "\<forall>j. operand insn \<noteq> Multianewarray j 0" "j_pc fr < length cd"
    using assms(1) no_zero_dims by (auto simp: analysed_at_def)
  note d = dispatch [OF this(1-3)] and bound = this(4)
  have "tos_kind t = stack_tos (an_stack ctx)"
    using assms(2) stack_tos_rep by (auto simp: frame_rep_def)
  then have "kind (cd ! j_pc fr) \<in> set (jmp_table (tos_kind t))"
    using d(1,3) by simp
  moreover have "pc st = j_pc fr" using assms(2) by (simp add: frame_rep_def)
  ultimately show ?thesis
    using bound by (simp add: interp_step_def handler_of_def Let_def)
qed

text \<open>Instructions with a fixed effect are not rewritten.\<close>

lemma plain_inv:
  assumes "analysed_at pool cd i insn ctx ctx'" "map_of plain_effects (kind insn) = Some (pops, pushes, t)"
  obtains st where "kind (cd ! i) = kind insn" "operand (cd ! i) = operand insn" "an_stack ctx = pops @ st"
    "push_entries (an_stack_cap ctx) pushes st = Inr (an_stack ctx')" "an_locals ctx' = an_locals ctx"
    "\<not> t \<longrightarrow> annotated cd (i + 1) (an_stack ctx')"
proof (rule analysed_switch [OF assms(1)])
  fix before insn'' after t'
  assume sw: "analyze_switch_kind pool (length (an_locals ctx)) (length cd) True i (insn\<lparr>tos_before := before\<rparr>) ctx = Inr (insn'', ctx', t')"
    and at: "cd ! i = insn''\<lparr>tos_after := after\<rparr>" "\<not> t' \<longrightarrow> annotated cd (i + 1) (an_stack ctx')"
  from sw obtain st where "an_stack ctx = pops @ st" "push_entries (an_stack_cap ctx) pushes st = Inr (an_stack ctx')"
    "an_locals ctx' = an_locals ctx" "insn'' = insn\<lparr>tos_before := before\<rparr>" "t' = t"
    using assms(2) by (auto simp: analyze_switch_kind_def rbind_Inr pop_kinds_Inr)
  then show thesis using at by (intro that) auto
qed

lemma push_one:
  "push_entries cap [k] st = Inr st' \<Longrightarrow> k \<notin> {TYPE_KIND_VOID, TYPE_KIND_BOOLEAN} \<Longrightarrow> st' = k # st"
  by (auto simp: push_entry_def rbind_Inr split: if_splits)

text \<open>A stack of the types \<open>pops @ ts\<close> splits.\<close>

lemma stack_split:
  assumes "map jtype vs = pops @ ts"
  obtains ops ws where "vs = ops @ ws" "map jtype ops = pops" "map jtype ws = ts"
proof (rule that)
  show "vs = take (length pops) vs @ drop (length pops) vs" by simp
  show "map jtype (take (length pops) vs) = pops" "map jtype (drop (length pops) vs) = ts"
    using assms by (simp_all add: take_map [symmetric] drop_map [symmetric])
qed

section \<open>Plain instructions\<close>

text \<open>What the groups below share: the place, the relation, and the capacity of the frame.\<close>

definition situation ::
    "bool \<Rightarrow> constant_pool \<Rightarrow> analyzed_insn list \<Rightarrow> analyzed_insn \<Rightarrow> method_analysis_ctx \<Rightarrow> method_analysis_ctx \<Rightarrow>
     jframe \<Rightarrow> tos_value \<Rightarrow> interp_state \<Rightarrow> bool" where
  "situation strict pool cd insn ctx ctx' fr t st \<longleftrightarrow>
     analysed_at pool cd (j_pc fr) insn ctx ctx' \<and> rep strict ctx fr t st \<and> fine strict ctx insn fr \<and>
     length (an_stack ctx') \<le> length (stack_mem st)"

definition simulates ::
    "bool \<Rightarrow> interp_env \<Rightarrow> analyzed_insn list \<Rightarrow> analyzed_insn list \<Rightarrow> method_analysis_ctx \<Rightarrow> method_analysis_ctx \<Rightarrow>
     jframe \<Rightarrow> tos_value \<Rightarrow> interp_state \<Rightarrow> bool" where
  "simulates strict env orig cd ctx ctx' fr t st \<longleftrightarrow>
     simulated strict ctx ctx' fr t st (jvm_step env orig fr) (handler_of env cd (cd ! j_pc fr) t st)"

text \<open>The kinds with an operation on the top of the stack, and none of the others.\<close>

definition ordinary :: "insn_code_kind \<Rightarrow> bool" where
  "ordinary k \<longleftrightarrow> k \<notin> set (return_kinds @ array_kinds @ common_kinds @ division_kinds)"

lemma ordinary_not:
  assumes "ordinary k"
  shows "k \<noteq> insn_nop" "k \<notin> set return_kinds" "k \<notin> set division_kinds" "k \<notin> set array_kinds"
    "k \<notin> set common_kinds" "stack_operation k vs = None"
  using assms
  by (auto simp: ordinary_def common_kinds_def memory_insns_def stack_operation_def split: list.splits)

lemma jconst_None:
  "kind insn \<notin> {insn_aconst_null, insn_iconst, insn_lconst, insn_fconst, insn_dconst} \<Longrightarrow> jconst insn = None"
  by (auto simp: jconst_def split: insn_operand.splits)

lemma ordinary_const: "ordinary (kind insn) \<Longrightarrow> jconst insn = None"
  by (rule jconst_None) (auto simp: ordinary_def common_kinds_def)

lemma operation_moves:
  assumes "operation (env_fpu env) (kind insn) vs = Some vs'" "stack_operation (kind insn) vs = None"
    "stack_rep strict vs t st" "int_fine strict (kind insn)"
  shows "moves_on (typed_handler env cd insn t st) strict vs' st"
  using assms int_operation_step [of env insn vs vs' strict t st cd] long_operation_step [of env insn vs vs' strict t st cd]
    float_operation_step [of env insn vs vs' strict t st cd]
  by (auto simp: operation_def split: option.splits)

lemma effects_ordinary:
  "list_all (\<lambda>(ks, _). list_all (\<lambda>k. ordinary k \<or> k \<in> set division_kinds) ks) (convert_effects @ arith_effects)"
  by (simp add: convert_effects_def arith_effects_def ordinary_def return_kinds_def array_kinds_def common_kinds_def
      division_kinds_def jarray_loads_def jarray_stores_def local_loads_def memory_insns_def)

lemma convert_arith_cases:
  assumes "(k, pops, pushes, t) \<in> set (effects_of (convert_effects @ arith_effects))"
  shows "k \<in> set division_kinds \<or> ordinary k \<and> predicted fp k pops pushes \<and> \<not> t"
proof -
  obtain ks where "(ks, pops, pushes, t) \<in> set (convert_effects @ arith_effects)" "k \<in> set ks"
    using assms unfolding effects_of_mem by blast
  then show ?thesis
    using effects_ordinary convert_predicted [of fp] arith_predicted [of fp] by (fastforce simp: list_all_iff)
qed

text \<open>What a plain instruction leaves on the stack has the types the analysis says.\<close>

lemma push_types:
  assumes "push_entries cap pushes ts = Inr ts'" "list_all (\<lambda>k. k \<notin> {TYPE_KIND_VOID, TYPE_KIND_BOOLEAN}) pushes"
  shows "ts' = rev pushes @ ts"
  using assms
  by (induction pushes arbitrary: ts) (auto simp: push_entry_def rbind_Inr split: if_splits)

lemma plain_mem:
  assumes "map_of plain_effects k = Some (pops, pushes, t)"
  obtains ks where "(ks, pops, pushes, t) \<in> set (array_effects @ convert_effects @ arith_effects @ misc_effects)"
    "k \<in> set ks"
  using map_of_SomeD [OF assms] unfolding plain_effects_def effects_of_mem by blast

lemma plain_pushes:
  assumes "map_of plain_effects k = Some (pops, pushes, t)"
  shows "length pushes \<le> 1" "list_all (\<lambda>k. k \<notin> {TYPE_KIND_VOID, TYPE_KIND_BOOLEAN}) pushes"
proof -
  have "list_all (\<lambda>(ks, pops, pushes, t). length pushes \<le> 1 \<and>
      list_all (\<lambda>k. k \<notin> {TYPE_KIND_VOID, TYPE_KIND_BOOLEAN}) pushes)
     (array_effects @ convert_effects @ arith_effects @ misc_effects)"
    by (simp add: array_effects_def convert_effects_def arith_effects_def misc_effects_def)
  moreover obtain ks where "(ks, pops, pushes, t) \<in> set (array_effects @ convert_effects @ arith_effects @ misc_effects)"
    using assms by (rule plain_mem)
  ultimately have "(\<lambda>(ks, pops, pushes, t). length pushes \<le> 1 \<and>
      list_all (\<lambda>k. k \<notin> {TYPE_KIND_VOID, TYPE_KIND_BOOLEAN}) pushes) (ks, pops, pushes, t)"
    unfolding list_all_iff by (rule bspec)
  then show "length pushes \<le> 1" "list_all (\<lambda>k. k \<notin> {TYPE_KIND_VOID, TYPE_KIND_BOOLEAN}) pushes" by auto
qed

text \<open>All there is to know about a plain instruction, in terms of values.\<close>

lemma plain_values:
  assumes "situation strict pool cd insn ctx ctx' fr t st" "map_of plain_effects (kind insn) = Some (pops, pushes, tm)"
  obtains ops vs where "j_stack fr = ops @ vs" "map jtype ops = pops"
    "an_stack ctx' = pushes @ map jtype vs" "an_locals ctx' = an_locals ctx"
    "kind (cd ! j_pc fr) = kind insn" "operand (cd ! j_pc fr) = operand insn"
    "\<not> tm \<longrightarrow> annotated cd (j_pc fr + 1) (an_stack ctx')"
proof -
  obtain ts where inv: "kind (cd ! j_pc fr) = kind insn" "operand (cd ! j_pc fr) = operand insn"
    "an_stack ctx = pops @ ts" "push_entries (an_stack_cap ctx) pushes ts = Inr (an_stack ctx')"
    "an_locals ctx' = an_locals ctx" "\<not> tm \<longrightarrow> annotated cd (j_pc fr + 1) (an_stack ctx')"
    using plain_inv [OF _ assms(2)] assms(1) unfolding situation_def by metis
  have "map jtype (j_stack fr) = pops @ ts"
    using assms(1) inv(3) by (simp add: situation_def frame_rep_def)
  then obtain ops vs where split: "j_stack fr = ops @ vs" "map jtype ops = pops" "map jtype vs = ts"
    by (rule stack_split)
  have "rev pushes = pushes"
    using plain_pushes [OF assms(2)] by (cases pushes) auto
  then have "an_stack ctx' = pushes @ map jtype vs"
    using push_types [OF inv(4)] plain_pushes [OF assms(2)] split(3) by simp
  then show thesis using inv split by (intro that)
qed

section \<open>The groups of plain instructions\<close>

text \<open>The two sides at the current instruction.\<close>

definition at_pc :: "analyzed_insn list \<Rightarrow> jframe \<Rightarrow> analyzed_insn \<Rightarrow> bool" where
  "at_pc orig fr insn \<longleftrightarrow> j_pc fr < length orig \<and> orig ! j_pc fr = insn"

lemma handler_typed: "kind insn \<notin> set common_kinds \<Longrightarrow> handler_of env cd insn t st = typed_handler env cd insn t st"
  by (simp add: handler_of_def common_None)

lemma situation_rep:
  "situation strict pool cd insn ctx ctx' fr t st \<Longrightarrow> rep strict ctx fr t st"
  "situation strict pool cd insn ctx ctx' fr t st \<Longrightarrow> stack_rep strict (j_stack fr) t st"
  "situation strict pool cd insn ctx ctx' fr t st \<Longrightarrow> fine strict ctx insn fr"
  "situation strict pool cd insn ctx ctx' fr t st \<Longrightarrow> length (an_stack ctx') \<le> length (stack_mem st)"
  "situation strict pool cd insn ctx ctx' fr t st \<Longrightarrow> pc st = j_pc fr"
  "situation strict pool cd insn ctx ctx' fr t st \<Longrightarrow> heap st = j_heap fr"
  "situation strict pool cd insn ctx ctx' fr t st \<Longrightarrow> operand_wf insn"
  by (auto simp: situation_def frame_rep_def analysed_at_def)

lemma sim_ordinary:
  assumes sit: "situation strict pool cd insn ctx ctx' fr t st" and at: "at_pc orig fr insn"
    and plain: "map_of plain_effects (kind insn) = Some (pops, pushes, tm)"
    and ord: "ordinary (kind insn)" and pred: "predicted (env_fpu env) (kind insn) pops pushes"
  shows "simulates strict env orig cd ctx ctx' fr t st"
proof -
  obtain ops vs where v: "j_stack fr = ops @ vs" "map jtype ops = pops" "an_stack ctx' = pushes @ map jtype vs"
    "an_locals ctx' = an_locals ctx" "kind (cd ! j_pc fr) = kind insn"
    using plain_values [OF sit plain] by metis
  obtain rs where rs: "operation (env_fpu env) (kind insn) (ops @ vs) = Some (rs @ vs)" "map jtype rs = pushes"
    using pred v(2) unfolding predicted_def by blast
  have "jvm_step env orig fr = advance fr (rs @ vs)"
    using at rs(1) ordinary_not [OF ord] ordinary_const [OF ord] v(1)
    by (simp add: jvm_step_def at_pc_def Let_def)
  moreover have "moves_on (handler_of env cd (cd ! j_pc fr) t st) strict (rs @ vs) st"
    using operation_moves [of env "cd ! j_pc fr" "ops @ vs" "rs @ vs" strict t st cd] rs(1) ordinary_not [OF ord]
      situation_rep [OF sit] v(1,5) by (simp add: handler_typed fine_def)
  ultimately show ?thesis
    using sim_advance situation_rep(1) [OF sit] rs(2) v(3,4) by (simp add: simulates_def)
qed

lemma division_not_common: "k \<in> set division_kinds \<Longrightarrow> k \<notin> set common_kinds \<and> k \<notin> set return_kinds \<and> k \<noteq> insn_nop"
  by (auto simp: division_kinds_def common_kinds_def local_loads_def memory_insns_def return_kinds_def)

lemma division_effects:
  assumes "map_of plain_effects k = Some (pops, pushes, tm)" "k \<in> set division_kinds"
  shows "pops = [TYPE_KIND_INT, TYPE_KIND_INT] \<and> pushes = [TYPE_KIND_INT] \<and> (k = insn_idiv \<or> k = insn_irem) \<or>
    pops = [TYPE_KIND_LONG, TYPE_KIND_LONG] \<and> pushes = [TYPE_KIND_LONG] \<and> (k = insn_ldiv \<or> k = insn_lrem)"
  using assms
  by (auto simp: division_kinds_def plain_effects_def effects_of_def array_effects_def convert_effects_def
      arith_effects_def misc_effects_def)

lemma sim_raised: "\<exists>st'. out = Throws e st' \<Longrightarrow> simulated strict ctx ctx' fr t st (Raised e) out"
  by (simp add: simulated_def)

lemma sim_division:
  assumes sit: "situation strict pool cd insn ctx ctx' fr t st" and at: "at_pc orig fr insn"
    and plain: "map_of plain_effects (kind insn) = Some (pops, pushes, tm)" and k: "kind insn \<in> set division_kinds"
  shows "simulates strict env orig cd ctx ctx' fr t st"
proof -
  let ?insn = "cd ! j_pc fr"
  obtain ops vs where v: "j_stack fr = ops @ vs" "map jtype ops = pops" "an_stack ctx' = pushes @ map jtype vs"
    "an_locals ctx' = an_locals ctx" "kind ?insn = kind insn"
    using plain_values [OF sit plain] by metis
  note rep = situation_rep [OF sit]
  have step: "jvm_step env orig fr = division_step fr (kind insn)"
    using at k division_not_common [OF k] by (simp add: jvm_step_def at_pc_def Let_def)
  have h: "handler_of env cd ?insn t st = typed_handler env cd ?insn t st"
    using division_not_common [OF k] v(5) by (simp add: handler_typed)
  note sims = sim_advance [OF _ rep(1) _ v(4)] sim_raised
  from division_effects [OF plain k] consider
      "pops = [TYPE_KIND_INT, TYPE_KIND_INT]" "pushes = [TYPE_KIND_INT]" "kind insn = insn_idiv \<or> kind insn = insn_irem"
    | "pops = [TYPE_KIND_LONG, TYPE_KIND_LONG]" "pushes = [TYPE_KIND_LONG]" "kind insn = insn_ldiv \<or> kind insn = insn_lrem"
    by blast
  then show ?thesis
  proof cases
    assume pops: "pops = [TYPE_KIND_INT, TYPE_KIND_INT]" "pushes = [TYPE_KIND_INT]"
      and kind: "kind insn = insn_idiv \<or> kind insn = insn_irem"
    then obtain b a where ops: "j_stack fr = JInt b # JInt a # vs"
      using v(1,2) by (auto simp: map_eq_Cons_conv jtype_eqs)
    have "stack_rep strict (JInt b # JInt a # vs) t st" "kind ?insn = insn_idiv \<or> kind ?insn = insn_irem"
      using rep(2) ops kind v(5) by simp_all
    note d = int_division_sim [OF this, of env cd, folded h]
    show ?thesis
      using kind d v(3,5) pops(2)
      by (cases "b = 0") (auto simp: simulates_def step division_step_def ops intro!: sims)
  next
    assume pops: "pops = [TYPE_KIND_LONG, TYPE_KIND_LONG]" "pushes = [TYPE_KIND_LONG]"
      and kind: "kind insn = insn_ldiv \<or> kind insn = insn_lrem"
    then obtain b a where ops: "j_stack fr = JLong b # JLong a # vs"
      using v(1,2) by (auto simp: map_eq_Cons_conv jtype_eqs)
    have "stack_rep strict (JLong b # JLong a # vs) t st" "kind ?insn = insn_ldiv \<or> kind ?insn = insn_lrem"
      using rep(2) ops kind v(5) by simp_all
    note d = long_division_sim [OF this, of env cd, folded h]
    show ?thesis
      using kind d v(3,5) pops(2)
      by (cases "b = 0") (auto simp: simulates_def step division_step_def ops intro!: sims)
  qed
qed

lemma array_not_common: "k \<in> set array_kinds \<Longrightarrow>
    k \<notin> set common_kinds \<and> k \<notin> set return_kinds \<and> k \<notin> set division_kinds \<and> k \<noteq> insn_nop"
proof -
  have "list_all (\<lambda>k. k \<notin> set common_kinds \<and> k \<notin> set return_kinds \<and> k \<notin> set division_kinds \<and> k \<noteq> insn_nop) array_kinds"
    by (simp add: array_kinds_def jarray_loads_def jarray_stores_def common_kinds_def local_loads_def memory_insns_def
        return_kinds_def division_kinds_def)
  then show "k \<in> set array_kinds \<Longrightarrow>
    k \<notin> set common_kinds \<and> k \<notin> set return_kinds \<and> k \<notin> set division_kinds \<and> k \<noteq> insn_nop"
    by (auto simp: list_all_iff)
qed

definition array_effect :: "insn_code_kind \<Rightarrow> type_kind list \<Rightarrow> type_kind list \<Rightarrow> bool \<Rightarrow> bool" where
  "array_effect k pops pushes tm \<longleftrightarrow> \<not> tm \<and>
     ((\<exists>width widen. map_of jarray_loads k = Some (width, widen) \<and> pops = [TYPE_KIND_INT, TYPE_KIND_REFERENCE] \<and>
         (\<forall>x. pushes = [jtype (widen x)])) \<or>
      (\<exists>width ty. map_of jarray_loads k = None \<and> map_of jarray_stores k = Some (width, ty) \<and>
         pops = [ty, TYPE_KIND_INT, TYPE_KIND_REFERENCE] \<and> pushes = []) \<or>
      k = insn_arraylength \<and> pops = [TYPE_KIND_REFERENCE] \<and> pushes = [TYPE_KIND_INT])"

lemma array_effects_fit:
  "list_all (\<lambda>k. case map_of plain_effects k of Some (pops, pushes, tm) \<Rightarrow> array_effect k pops pushes tm | None \<Rightarrow> False)
     array_kinds"
  by (simp add: array_kinds_def jarray_loads_def jarray_stores_def plain_effects_def effects_of_def array_effects_def
      convert_effects_def arith_effects_def misc_effects_def array_effect_def)

lemma sim_array:
  assumes sit: "situation strict pool cd insn ctx ctx' fr t st" and at: "at_pc orig fr insn"
    and plain: "map_of plain_effects (kind insn) = Some (pops, pushes, tm)" and k: "kind insn \<in> set array_kinds"
  shows "simulates strict env orig cd ctx ctx' fr t st"
proof -
  let ?insn = "cd ! j_pc fr"
  obtain ops vs where v: "j_stack fr = ops @ vs" "map jtype ops = pops" "an_stack ctx' = pushes @ map jtype vs"
    "an_locals ctx' = an_locals ctx" "kind ?insn = kind insn" "\<not> tm \<longrightarrow> annotated cd (j_pc fr + 1) (an_stack ctx')"
    using plain_values [OF sit plain] by metis
  note rep = situation_rep [OF sit]
  have step: "jvm_step env orig fr = array_step (env_storable env) fr (kind insn)"
    using at k array_not_common [OF k] by (simp add: jvm_step_def at_pc_def Let_def)
  have h: "handler_of env cd ?insn t st = typed_handler env cd ?insn t st"
    using array_not_common [OF k] v(5) by (simp add: handler_typed)
  note sims = sim_advance [OF _ rep(1) _ v(4)] sim_raised
  have "array_effect (kind insn) pops pushes tm"
    using array_effects_fit k plain by (auto simp: list_all_iff split: option.splits)
  then consider
      (load) width widen where "map_of jarray_loads (kind insn) = Some (width, widen)"
        "pops = [TYPE_KIND_INT, TYPE_KIND_REFERENCE]" "\<And>x. pushes = [jtype (widen x)]"
    | (store) width ty where "map_of jarray_loads (kind insn) = None" "map_of jarray_stores (kind insn) = Some (width, ty)"
        "pops = [ty, TYPE_KIND_INT, TYPE_KIND_REFERENCE]" "pushes = []" "\<not> tm"
    | (len) "kind insn = insn_arraylength" "pops = [TYPE_KIND_REFERENCE]" "pushes = [TYPE_KIND_INT]"
    unfolding array_effect_def by blast
  then show ?thesis
  proof cases
    case load
    then obtain i a where ops: "j_stack fr = JInt i # JRef a # vs"
      using v(1,2) by (auto simp: map_eq_Cons_conv jtype_eqs)
    have "map_of jarray_loads (kind ?insn) = Some (width, widen)" "stack_rep strict (JInt i # JRef a # vs) t st"
      using load(1) rep(2) ops v(5) by simp_all
    note d = array_load_sim [OF this, of env cd, folded h]
    show ?thesis
      using d v(3) load(1,3) rep(6)
      by (auto simp: simulates_def step array_step_def with_element_def ops intro!: sims)
  next
    case len
    then obtain a where ops: "j_stack fr = JRef a # vs"
      using v(1,2) by (auto simp: map_eq_Cons_conv jtype_eqs)
    have none: "map_of jarray_loads (kind insn) = None" "map_of jarray_stores (kind insn) = None"
      by (simp_all add: len(1) jarray_loads_def jarray_stores_def)
    have "kind ?insn = insn_arraylength" "stack_rep strict (JRef a # vs) t st"
      using len(1) rep(2) ops v(5) by simp_all
    note d = arraylength_sim [OF this, of env cd, folded h]
    show ?thesis
      using d v(3) len(3) rep(6)
      by (auto simp: simulates_def step array_step_def none ops intro!: sims)
  next
    case store
    then obtain x i a where ops: "j_stack fr = x # JInt i # JRef a # vs" and x: "jtype x = ty"
      using v(1,2) by (auto simp: map_eq_Cons_conv jtype_eqs)
    have pre: "map_of jarray_stores (kind ?insn) = Some (width, jtype x)" "stack_rep strict (x # JInt i # JRef a # vs) t st"
      "fits_at cd (pc st + 1) vs"
      using store rep(2,5) ops v(3,5,6) x by (simp_all flip: annotated_fits)
    note d = array_store_sim [OF pre, of env, folded h, unfolded v(5)]
    let ?h = "mem_store width (element_address width a (sint i)) (jbits x) (heap st)"
    have cont: "jumps (handler_of env cd ?insn t st) strict (pc st + 1) vs (st\<lparr>heap := ?h\<rparr>) \<Longrightarrow>
      simulated strict ctx ctx' fr t st (advance (fr\<lparr>j_heap := ?h\<rparr>) vs) (handler_of env cd ?insn t st)"
      unfolding advance_def
      using rep(1,5) v(3,4) store(4)
      by (intro sim_jumps [of _ _ _ "st\<lparr>heap := ?h\<rparr>"]) (auto simp: frame_rep_def)
    show ?thesis
      using d cont store(1,2) x rep(6)
      by (auto simp: simulates_def step array_step_def with_element_def ops intro!: sim_raised)
  qed
qed

definition const_kinds :: "insn_code_kind list" where
  "const_kinds = [insn_aconst_null, insn_iconst, insn_lconst, insn_fconst, insn_dconst]"

text \<open>The effects of the remaining plain instructions.\<close>

lemma misc_effects_fit:
  "list_all (\<lambda>(k, ty). map_of plain_effects k = Some ([], [ty], False))
     [(insn_aconst_null, TYPE_KIND_REFERENCE), (insn_iconst, TYPE_KIND_INT), (insn_lconst, TYPE_KIND_LONG),
      (insn_fconst, TYPE_KIND_FLOAT), (insn_dconst, TYPE_KIND_DOUBLE)]"
  "map_of plain_effects insn_nop = Some ([], [], False)"
  "map_of plain_effects insn_return = Some ([], [], True)"
  "list_all (\<lambda>(k, ty). map_of plain_effects k = Some ([ty], [], True))
     [(insn_ireturn, TYPE_KIND_INT), (insn_lreturn, TYPE_KIND_LONG), (insn_freturn, TYPE_KIND_FLOAT),
      (insn_dreturn, TYPE_KIND_DOUBLE), (insn_areturn, TYPE_KIND_REFERENCE), (insn_athrow, TYPE_KIND_REFERENCE)]"
  by (simp_all add: plain_effects_def effects_of_def array_effects_def convert_effects_def arith_effects_def
      misc_effects_def)

lemma const_operand:
  assumes "operand_wf insn" "kind insn \<in> set const_kinds" "map_of plain_effects (kind insn) = Some (pops, pushes, tm)"
  obtains v where "jconst insn = Some v" "pops = []" "pushes = [jtype v]"
  using assms misc_effects_fit(1)
  by (cases "operand insn")
    (auto simp: operand_wf_def const_kinds_def jconst_def load_kinds_def store_kinds_def branch_effects_def)

lemma const_handler:
  assumes "const_value insn = Some c" "kind insn \<in> set const_kinds"
  shows "handler_of env cd insn t st = push_impl c (spill t st)"
  using assms
  by (auto simp: handler_of_def common_handler_def const_kinds_def local_loads_def)

lemma const_not_others: "k \<in> set const_kinds \<Longrightarrow>
    k \<notin> set return_kinds \<and> k \<notin> set division_kinds \<and> k \<notin> set array_kinds \<and> k \<noteq> insn_nop"
  by (auto simp: const_kinds_def return_kinds_def division_kinds_def array_kinds_def jarray_loads_def jarray_stores_def)

lemma sim_const:
  assumes sit: "situation strict pool cd insn ctx ctx' fr t st" and at: "at_pc orig fr insn"
    and plain: "map_of plain_effects (kind insn) = Some (pops, pushes, tm)" and k: "kind insn \<in> set const_kinds"
  shows "simulates strict env orig cd ctx ctx' fr t st"
proof -
  let ?insn = "cd ! j_pc fr"
  note rep = situation_rep [OF sit]
  obtain c where c: "jconst insn = Some c" "pops = []" "pushes = [jtype c]"
    using const_operand [OF rep(7) k plain] by blast
  obtain vs where v: "j_stack fr = vs" "an_stack ctx' = jtype c # map jtype vs" "an_locals ctx' = an_locals ctx"
    "kind ?insn = kind insn" "operand ?insn = operand insn"
    using plain_values [OF sit plain] c(2,3) by (metis append_Cons append_Nil list.map_disc_iff)
  obtain u where u: "const_value ?insn = Some u" "tos_rep strict c u"
    using const_correct [OF c(1) v(4,5) rep(7)] by blast
  have "jvm_step env orig fr = advance fr (c # vs)"
    using at c(1) const_not_others [OF k] v(1) by (simp add: jvm_step_def at_pc_def Let_def)
  moreover have "moves_on (handler_of env cd ?insn t st) strict (c # vs) st"
    using push_moves_on [OF rep(2) u(2)] const_handler [OF u(1)] k v(1,2,4) rep(4) by simp
  ultimately show ?thesis
    using sim_advance rep(1) v(2,3) by (simp add: simulates_def)
qed

lemma sim_nop:
  assumes sit: "situation strict pool cd insn ctx ctx' fr t st" and at: "at_pc orig fr insn" and k: "kind insn = insn_nop"
  shows "simulates strict env orig cd ctx ctx' fr t st"
proof -
  obtain vs where v: "j_stack fr = vs" "an_stack ctx' = map jtype vs" "an_locals ctx' = an_locals ctx"
    "kind (cd ! j_pc fr) = insn_nop"
    using plain_values [OF sit misc_effects_fit(2) [folded k]] k by (metis append_Nil list.map_disc_iff)
  have "moves_on (handler_of env cd (cd ! j_pc fr) t st) strict vs st"
    using situation_rep(2) [OF sit] v(1,4) by (auto simp: handler_of_def common_handler_def intro: moves_onI)
  moreover have "jvm_step env orig fr = advance fr vs"
    using at k v(1) by (simp add: jvm_step_def at_pc_def Let_def)
  ultimately show ?thesis
    using sim_advance situation_rep(1) [OF sit] v(2,3) by (simp add: simulates_def)
qed

lemma sim_return:
  assumes sit: "situation strict pool cd insn ctx ctx' fr t st" and at: "at_pc orig fr insn"
    and plain: "map_of plain_effects (kind insn) = Some (pops, pushes, tm)" and k: "kind insn \<in> set return_kinds"
  shows "simulates strict env orig cd ctx ctx' fr t st"
proof -
  let ?insn = "cd ! j_pc fr"
  obtain ops vs where v: "j_stack fr = ops @ vs" "map jtype ops = pops" "kind ?insn = kind insn"
    using plain_values [OF sit plain] by metis
  note rep = situation_rep(2) [OF sit]
  have step: "jvm_step env orig fr = return_step fr (kind insn)"
    using at k by (auto simp: jvm_step_def at_pc_def Let_def return_kinds_def)
  show ?thesis
  proof (cases "kind insn = insn_return")
    case True
    then show ?thesis
      using v(3) by (simp add: simulates_def step return_step_def simulated_def handler_of_def common_handler_def)
  next
    case False
    then have "(kind insn, hd pops) \<in> {(insn_ireturn, TYPE_KIND_INT), (insn_lreturn, TYPE_KIND_LONG),
       (insn_freturn, TYPE_KIND_FLOAT), (insn_dreturn, TYPE_KIND_DOUBLE), (insn_areturn, TYPE_KIND_REFERENCE),
       (insn_athrow, TYPE_KIND_REFERENCE)} \<and> length pops = 1"
      using k plain misc_effects_fit(4) by (auto simp: return_kinds_def)
    then obtain x where ops: "ops = [x]" and x: "(kind insn, jtype x) \<in> {(insn_ireturn, TYPE_KIND_INT),
       (insn_lreturn, TYPE_KIND_LONG), (insn_freturn, TYPE_KIND_FLOAT), (insn_dreturn, TYPE_KIND_DOUBLE),
       (insn_areturn, TYPE_KIND_REFERENCE), (insn_athrow, TYPE_KIND_REFERENCE)}"
      using v(2) by (cases ops) auto
    have h: "handler_of env cd ?insn u st = typed_handler env cd ?insn u st" for u
      using False k v(3)
      by (intro handler_typed) (auto simp: return_kinds_def common_kinds_def local_loads_def memory_insns_def)
    show ?thesis
      using x rep v(1,3) ops False
      by (cases x) (auto simp: simulates_def step return_step_def simulated_def h int_return_handler athrow_impl_def
          stack_rep_Cons)
  qed
qed

text \<open>The instructions of the other parts: the interpreter leaves with register and frame unchanged.\<close>

definition table_kinds :: "insn_code_kind list" where
  "table_kinds =
     map fst int_bin_ops @ map fst div_ops @ map fst array_loads @ map fst array_stores @ map fst zero_branches @
     map fst cmp_branches @ map fst acmp_branches @
     [insn_ineg, insn_lneg, insn_i2l, insn_i2s, insn_i2b, insn_i2c, insn_i2f, insn_i2d, insn_l2i, insn_l2f, insn_l2d,
      insn_istore, insn_lstore, insn_astore, insn_lcmp, insn_aastore, insn_arraylength, insn_athrow, insn_ireturn,
      insn_lreturn, insn_areturn, insn_fadd, insn_fsub, insn_fmul, insn_fdiv, insn_frem, insn_fcmpg, insn_fcmpl,
      insn_fneg, insn_f2i, insn_f2l, insn_f2d, insn_fstore, insn_fastore, insn_freturn, insn_dadd, insn_dsub,
      insn_dmul, insn_ddiv, insn_drem, insn_dcmpg, insn_dcmpl, insn_dneg, insn_d2i, insn_d2l, insn_d2f, insn_dstore,
      insn_dastore, insn_dreturn, insn_tableswitch, insn_lookupswitch]"

lemma map_of_not: "k \<notin> set (map fst xs) \<Longrightarrow> map_of xs k = None"
  by (simp add: map_of_eq_None_iff)

lemma typed_outside:
  assumes "kind insn \<notin> set table_kinds" "\<forall>d. operand insn \<noteq> Tableswitch d" "\<forall>d. operand insn \<noteq> Lookupswitch d"
  shows "typed_handler env cd insn t st = Other_part t st"
proof -
  have tables: "map_of int_bin_ops (kind insn) = None" "map_of div_ops (kind insn) = None"
    "map_of array_loads (kind insn) = None" "map_of array_stores (kind insn) = None"
    "map_of zero_branches (kind insn) = None" "map_of cmp_branches (kind insn) = None"
    "map_of acmp_branches (kind insn) = None"
    using assms(1) by (auto simp: table_kinds_def intro!: map_of_not)
  have others: "map_of (int_un_ops fp) (kind insn) = None" "map_of (float_bin_ops fp) (kind insn) = None"
    "map_of (float_un_ops fp) (kind insn) = None" "map_of (double_bin_ops fp) (kind insn) = None"
    "map_of (double_un_ops fp) (kind insn) = None" "int_store_value (kind insn) y x = None" for fp x y
    using assms(1)
    by (simp_all add: table_kinds_def int_un_ops_def float_bin_ops_def float_un_ops_def double_bin_ops_def
        double_un_ops_def int_store_value_def)
  have rest: "kind insn \<notin> {insn_lcmp, insn_aastore, insn_arraylength, insn_athrow, insn_ireturn, insn_lreturn,
    insn_areturn, insn_fstore, insn_fastore, insn_freturn, insn_dstore, insn_dastore, insn_dreturn}"
    using assms(1) by (simp add: table_kinds_def)
  show ?thesis
    using assms(2,3) rest
    by (cases t) (auto simp: int_handler_def float_handler_def double_handler_def tables others split: insn_operand.splits)
qed

lemma operation_stack: "k \<notin> set table_kinds \<Longrightarrow> operation fp k vs = stack_operation k vs"
proof -
  assume "k \<notin> set table_kinds"
  then have tables: "map_of jint_bin k = None" "map_of jlong_bin k = None" "map_of jlong_shift k = None"
    "map_of (jint_un fp) k = None" "map_of (jlong_un fp) k = None" "map_of (jfloat_bin fp) k = None"
    "map_of (jfloat_un fp) k = None" "map_of (jdouble_bin fp) k = None" "map_of (jdouble_un fp) k = None"
    "k \<noteq> insn_lcmp"
    by (simp_all add: table_kinds_def int_bin_ops_def operation_tables)
  then have "int_operation fp k vs = None" "long_operation fp k vs = None" "float_operation fp k vs = None"
    by (simp_all add: int_operation_def long_operation_def float_operation_def split: list.split jval.split)
  then show ?thesis by (simp add: operation_def)
qed

lemma operation_None:
  assumes "k \<notin> set table_kinds" "k \<notin> set common_kinds"
  shows "operation fp k vs = None"
proof -
  have "stack_operation k vs = None"
    using assms(2) by (auto simp: common_kinds_def memory_insns_def stack_operation_def split: list.splits)
  then show ?thesis using operation_stack [OF assms(1)] by simp
qed

text \<open>Kinds that both machines hand over.\<close>

definition handed_over :: "insn_code_kind list" where
  "handed_over =
     outside_kinds @ [insn_getfield, insn_getstatic, insn_putfield, insn_putstatic, insn_invokedynamic,
       insn_multianewarray] @ invoke_kinds"

lemma handed_over_not:
  "list_all (\<lambda>k. k \<notin> set table_kinds \<and> k \<notin> set common_kinds \<and> k \<notin> set return_kinds \<and> k \<notin> set division_kinds \<and>
     k \<notin> set array_kinds) handed_over"
  by (simp add: handed_over_def outside_kinds_def invoke_kinds_def table_kinds_def int_bin_ops_def div_ops_def array_loads_def
      array_stores_def zero_branches_def cmp_branches_def acmp_branches_def common_kinds_def local_loads_def memory_insns_def
      return_kinds_def division_kinds_def array_kinds_def jarray_loads_def jarray_stores_def)

lemma sim_handed_over:
  assumes at: "at_pc orig fr insn" and k: "kind insn \<in> set handed_over"
    and same: "kind (cd ! j_pc fr) = kind insn" "operand (cd ! j_pc fr) = operand insn"
    and wf: "operand_wf insn"
  shows "simulates strict env orig cd ctx ctx' fr t st"
proof -
  have not: "kind insn \<notin> set table_kinds" "kind insn \<notin> set common_kinds" "kind insn \<notin> set return_kinds"
    "kind insn \<notin> set division_kinds" "kind insn \<notin> set array_kinds"
    using handed_over_not k by (auto simp: list_all_iff)
  have op: "\<And>w. operand insn \<noteq> Index w" "\<And>w c. operand insn \<noteq> Iinc w c" "\<And>d. operand insn \<noteq> Tableswitch d"
    "\<And>d. operand insn \<noteq> Lookupswitch d"
    using wf k
    by (auto simp: operand_wf_def handed_over_def outside_kinds_def invoke_kinds_def load_kinds_def store_kinds_def
        branch_effects_def)
  have "jconst insn = None"
    by (rule jconst_None) (use not(2) in \<open>auto simp: common_kinds_def\<close>)
  moreover have "kind insn \<noteq> insn_nop" using not(2) by (auto simp: common_kinds_def)
  ultimately have "jvm_step env orig fr = Outside fr"
    using at not op operation_None [OF not(1,2)]
    by (auto simp: jvm_step_def at_pc_def Let_def operand_step_def split: insn_operand.splits)
  moreover have "handler_of env cd (cd ! j_pc fr) t st = Other_part t st"
    using typed_outside [of "cd ! j_pc fr" env cd t st] handler_typed [of "cd ! j_pc fr"] same not op by simp
  ultimately show ?thesis by (simp add: simulates_def simulated_def)
qed

text \<open>Together: every plain instruction is simulated.\<close>

lemma plain_kinds:
  assumes "map_of plain_effects k = Some (pops, pushes, t)" "k \<noteq> insn_ret"
  shows "k = insn_nop \<or> k \<in> set array_kinds \<or> k \<in> set division_kinds \<or>
    ordinary k \<and> predicted fp k pops pushes \<or> k \<in> set return_kinds \<or> k \<in> set const_kinds \<or> k \<in> set handed_over"
proof -
  have mem: "(k, pops, pushes, t) \<in> set (effects_of array_effects) \<or>
     (k, pops, pushes, t) \<in> set (effects_of (convert_effects @ arith_effects)) \<or>
     (k, pops, pushes, t) \<in> set (effects_of misc_effects)"
    using map_of_SomeD [OF assms(1)] by (auto simp: plain_effects_def effects_of_def)
  have groups: "list_all (\<lambda>(k, _). k \<in> {insn_nop, insn_ret} \<or> k \<in> set array_kinds) (effects_of array_effects)"
    "list_all (\<lambda>(k, _). k \<in> set return_kinds \<or> k \<in> set const_kinds \<or> k \<in> set handed_over) (effects_of misc_effects)"
    by (simp_all add: effects_of_def array_effects_def misc_effects_def array_kinds_def jarray_loads_def jarray_stores_def
        return_kinds_def const_kinds_def handed_over_def outside_kinds_def)
  then show ?thesis
    using mem assms(2) convert_arith_cases [of k pops pushes t fp] unfolding list_all_iff by fast
qed

lemma sim_plain:
  assumes "situation strict pool cd insn ctx ctx' fr t st" "at_pc orig fr insn"
    and "map_of plain_effects (kind insn) = Some (pops, pushes, tm)"
  shows "simulates strict env orig cd ctx ctx' fr t st"
proof -
  have "kind insn \<noteq> insn_ret" using assms(1) by (simp add: situation_def analysed_at_def)
  from plain_kinds [OF assms(3) this, of "env_fpu env"] show ?thesis
    using assms sim_nop sim_array sim_division sim_ordinary sim_return sim_const sim_handed_over
      plain_values [OF assms(1,3)] situation_rep(7) by metis
qed

end
