(* ===== verification/Interpreter_Correctness.thy ===== *)
theory Interpreter_Correctness
  imports Interpreter_Simulation
begin

text \<open>
  The remaining groups of instructions (stack instructions, locals, branches and switches, members),
  the theorem that one instruction of an analysed method is simulated, and its extension to whole
  executions through a locale for forward simulations.
\<close>

section \<open>Stack instructions\<close>

lemma stack_kinds_not:
  "list_all (\<lambda>k. k \<notin> set return_kinds \<and> k \<notin> set division_kinds \<and> k \<notin> set array_kinds \<and> k \<notin> set const_kinds \<and>
     k \<noteq> insn_nop \<and> k \<notin> set table_kinds) (map fst stack_insns)"
  by (simp add: stack_insns_def table_kinds_def int_bin_ops_def div_ops_def array_loads_def array_stores_def
      zero_branches_def cmp_branches_def acmp_branches_def return_kinds_def division_kinds_def array_kinds_def
      jarray_loads_def jarray_stores_def const_kinds_def)

text \<open>The rewritten instruction is \<open>dup2\<close> only where the original is and its operand is narrow.\<close>

lemma rewritten_dup2:
  assumes "map_of stack_insns k = Some f" "f cap ts = Inr (insn_dup2, ts')"
  shows "k = insn_dup2 \<and> (\<exists>a r. ts = a # r \<and> \<not> is_kind_wide a)"
  using map_of_SomeD [OF assms(1)] assms(2)
  by (auto simp: stack_insns_def stack_insn_defs push_rewrite_def mismatch_def rbind_Inr pop_val_Inr split: if_splits)

lemma jumps_spill [simp]: "jumps r strict p vs (spill t st) = jumps r strict p vs st"
  by (simp add: jumps_def)

lemma memory_handler:
  assumes "map_of memory_insns (kind insn) = Some h"
  shows "handler_of env cd insn t st = h cd (spill t st)"
  using assms
  by (auto simp: handler_of_def common_handler_def memory_insns_def local_loads_def const_value_def
      split: if_splits insn_operand.split)

lemma dup_handlers:
  "kind insn = insn_dup \<Longrightarrow> handler_of env cd insn t st = dup_impl t st"
  "kind insn = insn_dup2 \<Longrightarrow> handler_of env cd insn t st = dup2_impl (env_fpu env) t st"
  by (simp_all add: handler_of_def common_handler_def)

lemma shape_jumps:
  assumes "shape (kind insn) vs = Some vs'" "stack_rep strict vs t st" "fits_at cd (pc st + 1) vs'"
    "length vs' \<le> length (stack_mem st)" "kind insn \<in> set (map fst stack_insns)"
    "kind insn = insn_dup2 \<longrightarrow> kind_tos (jtype (hd vs)) = TOS_INT"
  shows "jumps (handler_of env cd insn t st) strict (pc st + 1) vs' st"
proof -
  consider "kind insn = insn_dup" | "kind insn = insn_dup2" | h where "map_of memory_insns (kind insn) = Some h"
    using assms(5) by (auto simp: stack_insns_def memory_insns_def)
  then show ?thesis
  proof cases
    case 1
    then obtain v ws where "vs = v # ws" "vs' = v # v # ws"
      using assms(1) by (auto simp: shape_def split: list.splits)
    then show ?thesis
      using dup_shape [of strict v ws t st] assms(2,4) by (simp add: dup_handlers(1) [OF 1] moves_on_jumps [simplified])
  next
    case 2
    then obtain v w ws where "vs = v # w # ws" "vs' = v # w # v # w # ws"
      using assms(1) by (auto simp: shape_def split: list.splits)
    then show ?thesis
      using dup2_shape [of strict v w ws t st] assms(2,4,6) 2 by (simp add: dup_handlers(2) [OF 2] moves_on_jumps [simplified])
  next
    case 3
    then show ?thesis
      using memory_shape [OF 3 assms(1) spill_rep [OF assms(2)], of cd] assms(3,4) by (simp add: memory_handler)
  qed
qed

lemma sim_stack:
  assumes sit: "situation strict pool cd insn ctx ctx' fr t st" and at: "at_pc orig fr insn"
    and plain: "map_of plain_effects (kind insn) = None" and stack: "map_of stack_insns (kind insn) = Some f"
  shows "simulates strict env orig cd ctx ctx' fr t st"
proof -
  let ?insn = "cd ! j_pc fr"
  note rep = situation_rep [OF sit]
  have types: "an_stack ctx = map jtype (j_stack fr)" using rep(1) by (simp add: frame_rep_def)
  have "analysed_at pool cd (j_pc fr) insn ctx ctx'" using sit by (simp add: situation_def)
  then obtain before insn'' after tm where
    sw: "analyze_switch_kind pool (length (an_locals ctx)) (length cd) True (j_pc fr) (insn\<lparr>tos_before := before\<rparr>) ctx = Inr (insn'', ctx', tm)"
    and ins: "?insn = insn''\<lparr>tos_after := after\<rparr>" and next_ok: "\<not> tm \<longrightarrow> annotated cd (j_pc fr + 1) (an_stack ctx')"
    by (rule analysed_switch)
  obtain k' where k': "f (an_stack_cap ctx) (an_stack ctx) = Inr (k', an_stack ctx')" "kind ?insn = k'"
    "an_locals ctx' = an_locals ctx" "\<not> tm"
    using sw plain stack ins by (auto simp: analyze_switch_kind_def rbind_Inr)
  obtain vs' where vs': "stack_operation (kind insn) (j_stack fr) = Some vs'" "shape k' (j_stack fr) = Some vs'"
    "map jtype vs' = an_stack ctx'"
    using stack_insn_correct [OF stack k'(1) [unfolded types]] unfolding rewrites_to_def by blast
  have in_stack: "kind insn \<in> set (map fst stack_insns)" "k' \<in> set (map fst stack_insns)"
    using stack stack_insn_kind(1) [OF stack k'(1)] map_of_SomeD by force+
  have not: "kind insn \<notin> set return_kinds" "kind insn \<notin> set division_kinds" "kind insn \<notin> set array_kinds"
    "kind insn \<notin> set const_kinds" "kind insn \<noteq> insn_nop" "kind insn \<notin> set table_kinds"
    using stack_kinds_not in_stack(1) unfolding list_all_iff by blast+
  have "jconst insn = None"
    using not(4) by (intro jconst_None) (auto simp: const_kinds_def)
  then have "jvm_step env orig fr = advance fr vs'"
    using at not operation_stack [OF not(6)] vs'(1) by (simp add: jvm_step_def at_pc_def Let_def)
  moreover have "jumps (handler_of env cd ?insn t st) strict (pc st + 1) vs' st"
  proof (rule shape_jumps)
    show "shape (kind ?insn) (j_stack fr) = Some vs'" "kind ?insn \<in> set (map fst stack_insns)"
      using vs'(2) k'(2) in_stack(2) by simp_all
    show "fits_at cd (pc st + 1) vs'"
      using next_ok k'(4) vs'(3) rep(5) by (simp flip: annotated_fits)
    show "length vs' \<le> length (stack_mem st)"
      using rep(4) vs'(3) by (metis length_map)
    show "kind ?insn = insn_dup2 \<longrightarrow> kind_tos (jtype (hd (j_stack fr))) = TOS_INT"
    proof
      assume "kind ?insn = insn_dup2"
      then have "kind insn = insn_dup2" "\<exists>a r. an_stack ctx = a # r \<and> \<not> is_kind_wide a"
        using rewritten_dup2 [OF stack, of "an_stack_cap ctx" "an_stack ctx" "an_stack ctx'"] k'(1,2) by simp_all
      then obtain v vs where "j_stack fr = v # vs" "\<not> is_kind_wide (jtype v)" "\<forall>g. v \<noteq> JFloat g"
        using types rep(3) by (auto simp: fine_def map_eq_Cons_conv)
      then show "kind_tos (jtype (hd (j_stack fr))) = TOS_INT"
        by (cases v) (auto simp: is_kind_wide_def)
    qed
  qed (rule rep(2))
  ultimately show ?thesis
    using sim_advance_jumps rep(1) vs'(3) k'(3) by (simp add: simulates_def)
qed

section \<open>Locals\<close>

lemma operand_inv:
  assumes "analysed_at pool cd i insn ctx ctx'" "map_of plain_effects (kind insn) = None"
    "map_of stack_insns (kind insn) = None"
  obtains before insn'' after tm where
    "analyze_operand pool (length (an_locals ctx)) (length cd) True i (insn\<lparr>tos_before := before\<rparr>) ctx = Inr (insn'', ctx', tm)"
    "cd ! i = insn''\<lparr>tos_after := after\<rparr>" "\<not> tm \<longrightarrow> annotated cd (i + 1) (an_stack ctx')"
  using assms(2,3) by (rule_tac analysed_switch [OF assms(1)]) (auto simp: analyze_switch_kind_def intro: that)

lemma swizzled_index_Inr:
  "swizzled_index maxl i ctx = Inr li \<Longrightarrow> i < maxl \<and> li = swz_at (an_swizzle ctx) i \<and> li < length (an_locals ctx)"
  by (auto simp: swizzled_index_def swz_at_def split: if_splits)

text \<open>Local accesses, after the analysis: index \<open>w\<close> of the class file, slot \<open>li\<close> of the frame.\<close>

lemma load_inv:
  assumes "analysed_at pool cd i insn ctx ctx'" "map_of plain_effects (kind insn) = None"
    "map_of stack_insns (kind insn) = None" "operand insn = Index w" "map_of load_kinds (kind insn) = Some k"
  shows "unat w < length (an_locals ctx)" "an_locals ctx ! swz_at (an_swizzle ctx) (unat w) = k"
    "an_stack ctx' = k # an_stack ctx" "an_locals ctx' = an_locals ctx" "kind (cd ! i) = kind insn"
    "delta (cd ! i) =
       calculate_local_modifying_insn_delta (length (an_locals ctx)) (word_of_nat (swz_at (an_swizzle ctx) (unat w)))"
proof -
  have "k \<notin> {TYPE_KIND_VOID, TYPE_KIND_BOOLEAN}"
    using assms(5) by (auto simp: load_kinds_def split: if_splits)
  then have "unat w < length (an_locals ctx) \<and> an_locals ctx ! swz_at (an_swizzle ctx) (unat w) = k \<and>
    an_stack ctx' = k # an_stack ctx \<and> an_locals ctx' = an_locals ctx \<and> kind (cd ! i) = kind insn \<and>
    delta (cd ! i) =
      calculate_local_modifying_insn_delta (length (an_locals ctx)) (word_of_nat (swz_at (an_swizzle ctx) (unat w)))"
    using assms(4,5)
    by (rule_tac operand_inv [OF assms(1-3)])
      (auto simp: analyze_operand_def analyze_load_def rbind_Inr local_insn_def Let_def push_entry_def
        dest!: swizzled_index_Inr split: if_splits)
  then show "unat w < length (an_locals ctx)" "an_locals ctx ! swz_at (an_swizzle ctx) (unat w) = k"
    "an_stack ctx' = k # an_stack ctx" "an_locals ctx' = an_locals ctx" "kind (cd ! i) = kind insn"
    "delta (cd ! i) =
       calculate_local_modifying_insn_delta (length (an_locals ctx)) (word_of_nat (swz_at (an_swizzle ctx) (unat w)))"
    by auto
qed

lemma store_inv:
  assumes "analysed_at pool cd i insn ctx ctx'" "map_of plain_effects (kind insn) = None"
    "map_of stack_insns (kind insn) = None" "operand insn = Index w" "map_of load_kinds (kind insn) = None"
    "map_of store_kinds (kind insn) = Some k"
  shows "unat w < length (an_locals ctx)" "an_stack ctx = k # an_stack ctx'"
    "an_locals ctx' = (an_locals ctx)[swz_at (an_swizzle ctx) (unat w) := k]" "kind (cd ! i) = kind insn"
    "delta (cd ! i) =
       calculate_local_modifying_insn_delta (length (an_locals ctx)) (word_of_nat (swz_at (an_swizzle ctx) (unat w)))"
    "annotated cd (i + 1) (an_stack ctx')"
proof -
  have "unat w < length (an_locals ctx) \<and> an_stack ctx = k # an_stack ctx' \<and>
    an_locals ctx' = (an_locals ctx)[swz_at (an_swizzle ctx) (unat w) := k] \<and> kind (cd ! i) = kind insn \<and>
    delta (cd ! i) =
      calculate_local_modifying_insn_delta (length (an_locals ctx)) (word_of_nat (swz_at (an_swizzle ctx) (unat w))) \<and>
    annotated cd (i + 1) (an_stack ctx')"
    using assms(4-6)
    by (rule_tac operand_inv [OF assms(1-3)])
      (auto simp: analyze_operand_def analyze_store_def rbind_Inr local_insn_def Let_def pop_kind_Inr
        dest!: swizzled_index_Inr)
  then show "unat w < length (an_locals ctx)" "an_stack ctx = k # an_stack ctx'"
    "an_locals ctx' = (an_locals ctx)[swz_at (an_swizzle ctx) (unat w) := k]" "kind (cd ! i) = kind insn"
    "delta (cd ! i) =
       calculate_local_modifying_insn_delta (length (an_locals ctx)) (word_of_nat (swz_at (an_swizzle ctx) (unat w)))"
    "annotated cd (i + 1) (an_stack ctx')"
    by auto
qed

lemma iinc_inv:
  assumes "analysed_at pool cd i insn ctx ctx'" "map_of plain_effects (kind insn) = None"
    "map_of stack_insns (kind insn) = None" "operand insn = Iinc w c"
  shows "unat w < length (an_locals ctx)" "ctx' = ctx" "kind (cd ! i) = insn_iinc" "kind insn = insn_iinc"
    "operand (cd ! i) = Iinc (word_of_nat (swz_at (an_swizzle ctx) (unat w))) c"
proof -
  have "unat w < length (an_locals ctx) \<and> ctx' = ctx \<and> kind (cd ! i) = insn_iinc \<and> kind insn = insn_iinc \<and>
    operand (cd ! i) = Iinc (word_of_nat (swz_at (an_swizzle ctx) (unat w))) c"
    using assms(4)
    by (rule_tac operand_inv [OF assms(1-3)])
      (auto simp: analyze_operand_def analyze_iinc_def rbind_Inr dest!: swizzled_index_Inr split: if_splits)
  then show "unat w < length (an_locals ctx)" "ctx' = ctx" "kind (cd ! i) = insn_iinc" "kind insn = insn_iinc"
    "operand (cd ! i) = Iinc (word_of_nat (swz_at (an_swizzle ctx) (unat w))) c"
    by auto
qed

text \<open>The renumbering at a situation.\<close>

lemma situation_locals:
  assumes "situation strict pool cd insn ctx ctx' fr t st"
  shows "analysed_at pool cd (j_pc fr) insn ctx ctx'" "swizzle_ok (an_swizzle ctx) (length (an_locals ctx))"
    "locals_rep (an_swizzle ctx) (an_locals ctx) (j_locals fr) (locals_mem st)"
    "length (locals_mem st) = length (an_locals ctx)" "length (an_swizzle ctx) = length (an_locals ctx)"
    "length (an_locals ctx) < 2 ^ 16"
  using assms by (auto simp: situation_def frame_rep_def analysed_at_def locals_rep_def swizzle_ok_def)

lemma local_slot:
  assumes "situation strict pool cd insn ctx ctx' fr t st" "i < length (an_locals ctx)"
    "delta insn' = calculate_local_modifying_insn_delta (length (an_locals ctx)) (word_of_nat (swz_at (an_swizzle ctx) i))"
    "locals_mem st' = locals_mem st"
  shows "local_index insn' st' = swz_at (an_swizzle ctx) i"
proof (rule local_index_eq [OF assms(3)])
  show "swz_at (an_swizzle ctx) i < length (an_locals ctx)"
    using swizzle_at [OF situation_locals(2) [OF assms(1)] assms(2)] .
  show "length (an_locals ctx) < 2 ^ 31" "length (locals_mem st') = length (an_locals ctx)"
    using situation_locals(4,6) [OF assms(1)] assms(4) by simp_all
qed

text \<open>An instruction of these kinds reaches the last case of the machine.\<close>

lemma operand_kinds_not:
  "list_all (\<lambda>k. k \<notin> set return_kinds \<and> k \<notin> set division_kinds \<and> k \<notin> set array_kinds \<and> k \<notin> set const_kinds \<and>
     k \<noteq> insn_nop \<and> k \<notin> set (map fst stack_insns) \<and> stack_operation k [] = None)
   (insn_iinc # insn_tableswitch # insn_lookupswitch # map fst load_kinds @ map fst store_kinds @ map fst branch_effects)"
  by (simp add: load_kinds_def store_kinds_def branch_effects_def stack_insns_def return_kinds_def division_kinds_def
      array_kinds_def jarray_loads_def jarray_stores_def const_kinds_def stack_operation_def)

lemma operand_no_operation:
  "list_all (\<lambda>k. operation fp k vs = None)
    (insn_iinc # insn_tableswitch # insn_lookupswitch # map fst load_kinds @ map fst store_kinds @ map fst branch_effects)"
proof -
  have "list_all (\<lambda>k. map_of jint_bin k = None \<and> map_of jlong_bin k = None \<and> map_of jlong_shift k = None \<and>
      map_of (jint_un fp) k = None \<and> map_of (jlong_un fp) k = None \<and> map_of (jfloat_bin fp) k = None \<and>
      map_of (jfloat_un fp) k = None \<and> map_of (jdouble_bin fp) k = None \<and> map_of (jdouble_un fp) k = None \<and>
      k \<noteq> insn_lcmp \<and> k \<notin> set (map fst stack_insns))
    (insn_iinc # insn_tableswitch # insn_lookupswitch # map fst load_kinds @ map fst store_kinds @ map fst branch_effects)"
    by (simp add: load_kinds_def store_kinds_def branch_effects_def operation_tables stack_insns_def)
  then show ?thesis
  proof (rule list.pred_mono_strong)
    fix k
    assume k: "map_of jint_bin k = None \<and> map_of jlong_bin k = None \<and> map_of jlong_shift k = None \<and>
      map_of (jint_un fp) k = None \<and> map_of (jlong_un fp) k = None \<and> map_of (jfloat_bin fp) k = None \<and>
      map_of (jfloat_un fp) k = None \<and> map_of (jdouble_bin fp) k = None \<and> map_of (jdouble_un fp) k = None \<and>
      k \<noteq> insn_lcmp \<and> k \<notin> set (map fst stack_insns)"
    then have "int_operation fp k vs = None" "long_operation fp k vs = None" "float_operation fp k vs = None"
      by (simp_all add: int_operation_def long_operation_def float_operation_def split: list.split jval.split)
    moreover have "stack_operation k vs = None"
      using k by (auto simp: stack_insns_def stack_operation_def split: list.splits)
    ultimately show "operation fp k vs = None" by (simp add: operation_def)
  qed
qed

lemma jvm_operand_step:
  assumes "at_pc orig fr insn"
    "kind insn \<in> set (insn_iinc # insn_tableswitch # insn_lookupswitch # map fst load_kinds @ map fst store_kinds @
       map fst branch_effects)"
  shows "jvm_step env orig fr = operand_step fr insn"
proof -
  have not: "kind insn \<notin> set return_kinds \<and> kind insn \<notin> set division_kinds \<and> kind insn \<notin> set array_kinds \<and>
     kind insn \<notin> set const_kinds \<and> kind insn \<noteq> insn_nop"
    using operand_kinds_not assms(2) unfolding list_all_iff by blast
  have "operation (env_fpu env) (kind insn) (j_stack fr) = None"
    using operand_no_operation [of "env_fpu env" "j_stack fr"] assms(2) unfolding list_all_iff by blast
  moreover have "jconst insn = None"
    using not by (intro jconst_None) (auto simp: const_kinds_def)
  ultimately show ?thesis
    using assms(1) not by (simp add: jvm_step_def at_pc_def Let_def)
qed

lemma sim_load:
  assumes sit: "situation strict pool cd insn ctx ctx' fr t st" and at: "at_pc orig fr insn"
    and not: "map_of plain_effects (kind insn) = None" "map_of stack_insns (kind insn) = None"
    and op: "operand insn = Index w" "map_of load_kinds (kind insn) = Some k"
  shows "simulates strict env orig cd ctx ctx' fr t st"
proof -
  let ?insn = "cd ! j_pc fr" and ?li = "swz_at (an_swizzle ctx) (unat w)"
  note inv = load_inv [OF situation_locals(1) [OF sit] not op] and locals = situation_locals [OF sit]
    and rep = situation_rep [OF sit]
  have "k \<noteq> TYPE_KIND_VOID" "kind insn \<in> set (map fst load_kinds)"
    using op(2) by (auto simp: load_kinds_def split: if_splits)
  then obtain v where v: "j_locals fr (unat w) = Some v" "jtype v = k" "val_rep False v (locals_mem st ! ?li)"
    using locals_rep_get [OF locals(3) _ inv(2)] inv(1) locals(5) by (metis locals(5))
  have "jvm_step env orig fr = advance fr (v # j_stack fr)"
    using jvm_operand_step [OF at] op v(1,2) \<open>kind insn \<in> set (map fst load_kinds)\<close>
    by (simp add: operand_step_def load_step_def)
  moreover have "moves_on (handler_of env cd ?insn t st) strict (v # j_stack fr) st"
  proof -
    obtain f where f: "map_of local_loads (kind insn) = Some f" "tos_rep strict v (f (locals_mem st ! ?li))"
      using load_correct [of "kind insn" v "locals_mem st ! ?li" strict] op(2) v(2,3) by auto
    have "handler_of env cd ?insn t st = push_impl (f (locals_mem st ! ?li)) (spill t st)"
      using f(1) inv(5) local_slot [OF sit inv(1) inv(6), of "spill t st"]
      by (auto simp: handler_of_def common_handler_def local_loads_def Let_def get_local_def split: if_splits)
    moreover have "length (j_stack fr) < length (stack_mem st)"
      using rep(1,4) inv(3) by (auto simp: frame_rep_def dest: arg_cong [of _ _ length])
    ultimately show ?thesis using push_moves_on [OF rep(2) f(2)] by simp
  qed
  moreover have "map jtype (v # j_stack fr) = an_stack ctx'"
    using inv(3) v(2) rep(1) by (simp add: frame_rep_def)
  ultimately show ?thesis
    using sim_advance rep(1) inv(4) by (simp add: simulates_def)
qed

text \<open>A handler that writes one local and goes on.\<close>

lemma sim_local:
  assumes sit: "situation strict pool cd insn ctx ctx' fr t st" and i: "i < length (an_locals ctx)"
    and jumps: "jumps out strict (pc st + 1) vs (set_local (swz_at (an_swizzle ctx) i) x st)"
    and types: "map jtype vs = an_stack ctx'" "an_locals ctx' = (an_locals ctx)[swz_at (an_swizzle ctx) i := jtype v]"
    and v: "val_rep False v x"
  shows "simulated strict ctx ctx' fr t st (advance (fr\<lparr>j_locals := (j_locals fr)(i \<mapsto> v)\<rparr>) vs) out"
  unfolding advance_def
proof (rule sim_jumps [of _ _ _ "set_local (swz_at (an_swizzle ctx) i) x st"])
  let ?fr = "fr\<lparr>j_locals := (j_locals fr)(i \<mapsto> v)\<rparr>"
  have "locals_rep (an_swizzle ctx) (an_locals ctx') ((j_locals fr)(i \<mapsto> v)) ((locals_mem st)[swz_at (an_swizzle ctx) i := x])"
    unfolding types(2) using locals_rep_set [OF situation_locals(3,2) [OF sit] i v] .
  then show "locals_rep (an_swizzle ctx) (an_locals ctx') (j_locals (?fr\<lparr>j_stack := vs, j_pc := j_pc ?fr + 1\<rparr>))
      (locals_mem (set_local (swz_at (an_swizzle ctx) i) x st))"
    by (simp add: set_local_def)
qed (use jumps types(1) situation_rep(5,6) [OF sit] in \<open>simp_all add: set_local_def\<close>)

lemma sim_store:
  assumes sit: "situation strict pool cd insn ctx ctx' fr t st" and at: "at_pc orig fr insn"
    and not: "map_of plain_effects (kind insn) = None" "map_of stack_insns (kind insn) = None"
    and op: "operand insn = Index w" "map_of load_kinds (kind insn) = None" "map_of store_kinds (kind insn) = Some k"
  shows "simulates strict env orig cd ctx ctx' fr t st"
proof -
  let ?insn = "cd ! j_pc fr" and ?li = "swz_at (an_swizzle ctx) (unat w)"
  note inv = store_inv [OF situation_locals(1) [OF sit] not op] and locals = situation_locals [OF sit]
    and rep = situation_rep [OF sit]
  have k: "kind insn \<in> set (map fst store_kinds)"
    using op(3) map_of_SomeD by force
  obtain v vs where v: "j_stack fr = v # vs" "jtype v = k" "map jtype vs = an_stack ctx'"
    using inv(2) rep(1) by (auto simp: frame_rep_def map_eq_Cons_conv)
  have step: "jvm_step env orig fr = advance (fr\<lparr>j_locals := (j_locals fr)(unat w \<mapsto> v)\<rparr>) vs"
    using jvm_operand_step [OF at] op v(1,2) k by (simp add: operand_step_def store_step_def)
  have "kind ?insn \<notin> set common_kinds"
    using k inv(4) by (auto simp: store_kinds_def common_kinds_def local_loads_def memory_insns_def)
  then have h: "handler_of env cd ?insn t st = typed_handler env cd ?insn t st" by (rule handler_typed)
  have "map_of store_kinds (kind ?insn) = Some (jtype v)" "stack_rep strict (v # vs) t st" "fits_at cd (pc st + 1) vs"
    using op(3) inv(4,6) v rep(2,5) by (simp_all flip: annotated_fits)
  then obtain x where x: "val_rep False v x"
    "jumps (typed_handler env cd ?insn t st) strict (pc st + 1) vs (set_local (local_index ?insn st) x st)"
    using local_store_sim by blast
  have li: "local_index ?insn st = ?li" using local_slot [OF sit inv(1) inv(5)] by simp
  show ?thesis
    unfolding simulates_def step h using x li inv(3) v(2,3) by (intro sim_local [OF sit inv(1)]) simp_all
qed

lemma sim_iinc:
  assumes sit: "situation strict pool cd insn ctx ctx' fr t st" and at: "at_pc orig fr insn"
    and not: "map_of plain_effects (kind insn) = None" "map_of stack_insns (kind insn) = None"
    and op: "operand insn = Iinc w c"
  shows "simulates strict env orig cd ctx ctx' fr t st"
proof -
  let ?insn = "cd ! j_pc fr" and ?li = "swz_at (an_swizzle ctx) (unat w)"
  note inv = iinc_inv [OF situation_locals(1) [OF sit] not op] and locals = situation_locals [OF sit]
    and rep = situation_rep [OF sit]
  have ty: "an_locals ctx ! ?li = TYPE_KIND_INT" using rep(3) op by (simp add: fine_def)
  obtain v where v: "j_locals fr (unat w) = Some v" "jtype v = TYPE_KIND_INT" "val_rep False v (locals_mem st ! ?li)"
    using locals_rep_get [OF locals(3) _ ty] inv(1) locals(5) by (metis locals(5) type_kind.distinct)
  then obtain a where a: "v = JInt a" "slot_i (locals_mem st ! ?li) = a" by (cases v) auto
  let ?v = "JInt (a + word_of_int c)" and ?x = "set_low (locals_mem st ! ?li) (a + word_of_int c)"
  have step: "jvm_step env orig fr = advance (fr\<lparr>j_locals := (j_locals fr)(unat w \<mapsto> ?v)\<rparr>) (j_stack fr)"
    using jvm_operand_step [OF at] op inv(4) v(1) a(1) by (simp add: operand_step_def iinc_step_def)
  have "?li < 2 ^ 16"
    using swizzle_at [OF locals(2) inv(1)] locals(6) by simp
  then have "unat (word_of_nat ?li :: u16) = ?li"
    by (simp add: unsigned_of_nat take_bit_nat_eq_self)
  then have h: "handler_of env cd ?insn t st = next_with t (set_local ?li ?x st)"
    using inv(3,5) a(2) by (simp add: handler_of_def common_handler_def iinc_impl_def Let_def)
  have lsame: "(an_locals ctx)[?li := TYPE_KIND_INT] = an_locals ctx" using ty by (metis list_update_id)
  have "jumps (next_with t (set_local ?li ?x st)) strict (pc st + 1) (j_stack fr) (set_local ?li ?x st)"
    using rep(2) by (simp add: jumps_def next_with_def set_local_def)
  then show ?thesis
    unfolding simulates_def step h
    using inv(2) lsame rep(1) by (intro sim_local [OF sit inv(1), where x = ?x and v = ?v]) (simp_all add: frame_rep_def)
qed

section \<open>Branches and switches\<close>

lemma push_branch_target_keeps:
  "push_branch_target n i tgt ctx = Inr ctx' \<Longrightarrow>
     an_stack ctx' = an_stack ctx \<and> an_locals ctx' = an_locals ctx \<and> an_swizzle ctx' = an_swizzle ctx \<and> tgt < n"
  by (auto simp: push_branch_target_def Let_def intersect_locals_def intersect_stack_def split: if_splits option.splits
      prod.splits)

lemma push_branch_targets_keep:
  "push_branch_targets n i tgts ctx = Inr ctx' \<Longrightarrow>
     an_stack ctx' = an_stack ctx \<and> an_locals ctx' = an_locals ctx \<and> an_swizzle ctx' = an_swizzle ctx"
  by (induction tgts arbitrary: ctx) (auto simp: rbind_Inr dest!: push_branch_target_keeps)

lemma branch_inv:
  assumes "analysed_at pool cd i insn ctx ctx'" "map_of plain_effects (kind insn) = None"
    "map_of stack_insns (kind insn) = None" "operand insn = Index w" "map_of load_kinds (kind insn) = None"
    "map_of store_kinds (kind insn) = None" "map_of branch_effects (kind insn) = Some (pops, tm)"
  shows "unat w < length cd" "an_stack ctx = pops @ an_stack ctx'" "an_locals ctx' = an_locals ctx"
    "kind (cd ! i) = kind insn" "delta (cd ! i) = calculate_branch_delta w i" "annotated cd (unat w) (an_stack ctx')"
    "\<not> tm \<longrightarrow> annotated cd (i + 1) (an_stack ctx')" "length cd < 2 ^ 31"
proof -
  have "unat w < length cd \<and> an_stack ctx = pops @ an_stack ctx' \<and> an_locals ctx' = an_locals ctx \<and>
    kind (cd ! i) = kind insn \<and> delta (cd ! i) = calculate_branch_delta w i \<and>
    (\<not> tm \<longrightarrow> annotated cd (i + 1) (an_stack ctx'))"
    using assms(4-7)
    by (rule_tac operand_inv [OF assms(1-3)])
      (auto simp: analyze_operand_def analyze_branch_def rbind_Inr pop_kinds_Inr dest!: push_branch_target_keeps)
  moreover have "annotated cd (unat w) (an_stack ctx')" "length cd < 2 ^ 31"
    using assms(1,4,7) by (auto simp: analysed_at_def branch_targets_def)
  ultimately show "unat w < length cd" "an_stack ctx = pops @ an_stack ctx'" "an_locals ctx' = an_locals ctx"
    "kind (cd ! i) = kind insn" "delta (cd ! i) = calculate_branch_delta w i" "annotated cd (unat w) (an_stack ctx')"
    "\<not> tm \<longrightarrow> annotated cd (i + 1) (an_stack ctx')" "length cd < 2 ^ 31"
    by auto
qed

lemma branch_table:
  assumes "map_of branch_effects k = Some (pops, tm)"
  obtains (goto) "k = insn_goto" "pops = []"
    | (int) test where "k \<noteq> insn_goto" "map_of jint_tests k = Some test" "pops = [TYPE_KIND_INT]" "\<not> tm"
    | (cmp) test where "k \<noteq> insn_goto" "map_of jint_tests k = None" "map_of cmp_branches k = Some test"
        "pops = [TYPE_KIND_INT, TYPE_KIND_INT]" "\<not> tm"
    | (ref) test where "k \<noteq> insn_goto" "map_of jref_tests k = Some test" "pops = [TYPE_KIND_REFERENCE]" "\<not> tm"
    | (acmp) test where "k \<noteq> insn_goto" "map_of jref_tests k = None" "map_of acmp_branches k = Some test"
        "pops = [TYPE_KIND_REFERENCE, TYPE_KIND_REFERENCE]" "\<not> tm"
proof -
  have "list_all (\<lambda>(k, pops, tm). k = insn_goto \<and> pops = [] \<or>
     k \<noteq> insn_goto \<and> \<not> tm \<and>
      (map_of jint_tests k \<noteq> None \<and> pops = [TYPE_KIND_INT] \<or>
       map_of jint_tests k = None \<and> map_of cmp_branches k \<noteq> None \<and> pops = [TYPE_KIND_INT, TYPE_KIND_INT] \<or>
       map_of jref_tests k \<noteq> None \<and> pops = [TYPE_KIND_REFERENCE] \<or>
       map_of jref_tests k = None \<and> map_of acmp_branches k \<noteq> None \<and> pops = [TYPE_KIND_REFERENCE, TYPE_KIND_REFERENCE]))
     branch_effects"
    by (simp add: branch_effects_def jint_tests_def cmp_branches_def jref_tests_def acmp_branches_def)
  from this [unfolded list_all_iff, THEN bspec, OF map_of_SomeD [OF assms]] show thesis
    using goto int cmp ref acmp by auto
qed

lemma branch_not_common:
  "k \<in> set (map fst branch_effects) \<Longrightarrow> k \<noteq> insn_goto \<Longrightarrow> k \<notin> set common_kinds"
  by (auto simp: branch_effects_def common_kinds_def local_loads_def memory_insns_def)

lemma sim_branch:
  assumes sit: "situation strict pool cd insn ctx ctx' fr t st" and at: "at_pc orig fr insn"
    and not: "map_of plain_effects (kind insn) = None" "map_of stack_insns (kind insn) = None"
    and op: "operand insn = Index w" "map_of load_kinds (kind insn) = None" "map_of store_kinds (kind insn) = None"
      "map_of branch_effects (kind insn) = Some (pops, tm)"
  shows "simulates strict env orig cd ctx ctx' fr t st"
proof -
  let ?insn = "cd ! j_pc fr"
  note inv = branch_inv [OF situation_locals(1) [OF sit] not op] and rep = situation_rep [OF sit]
  have k: "kind insn \<in> set (map fst branch_effects)"
    using op(4) map_of_SomeD by force
  have step: "jvm_step env orig fr = jump_step fr (kind insn) w"
    using jvm_operand_step [OF at] op k by (simp add: operand_step_def)
  have h: "kind insn \<noteq> insn_goto \<Longrightarrow> handler_of env cd ?insn u st = typed_handler env cd ?insn u st" for u
    using branch_not_common [OF k] inv(4) by (simp add: handler_typed)
  have "map jtype (j_stack fr) = pops @ an_stack ctx'"
    using inv(2) rep(1) by (simp add: frame_rep_def)
  then obtain ops vs where v: "j_stack fr = ops @ vs" "map jtype ops = pops" "map jtype vs = an_stack ctx'"
    by (rule stack_split)
  have ok: "\<not> tm \<Longrightarrow> branch_ok cd ?insn w vs st"
    using inv rep(5) v(3) by (simp add: branch_ok_def flip: annotated_fits)
  have sim: "goes_to (handler_of env cd ?insn t st) strict p vs (j_stack fr) st \<Longrightarrow> jvm_step env orig fr = goto_insn fr vs p \<Longrightarrow>
      simulates strict env orig cd ctx ctx' fr t st" for p
    using sim_goto [OF _ rep(1) v(3) inv(3)] by (simp add: simulates_def)
  from op(4) show ?thesis
  proof (cases rule: branch_table)
    case goto
    have "delta ?insn = calculate_branch_delta w (pc st)" using inv(5) rep(5) by simp
    from goto_sim [OF rep(2) inv(1,8) this] show ?thesis
      using goto v inv(4) by (intro sim [of "unat w"])
        (simp_all add: step jump_step_def handler_of_def common_handler_def)
  next
    case (int test)
    then obtain b where b: "j_stack fr = JInt b # vs" using v(1,2) by (auto simp: map_eq_Cons_conv jtype_eqs)
    show ?thesis
      using int_branch_sim [of ?insn test strict b vs t st cd w env, unfolded rep(5)] int inv(4) rep(2,5) ok b h
      by (intro sim [of "if test (sint b) then unat w else j_pc fr + 1"])
        (simp_all add: step jump_step_def branch_if_def split del: if_split)
  next
    case (cmp test)
    then obtain b a where b: "j_stack fr = JInt b # JInt a # vs" using v(1,2) by (auto simp: map_eq_Cons_conv jtype_eqs)
    show ?thesis
      using cmp_branch_sim [of ?insn test strict b a vs t st cd w env, unfolded rep(5)] cmp inv(4) rep(2,5) ok b h
      by (intro sim [of "if test (sint a) (sint b) then unat w else j_pc fr + 1"])
        (simp_all add: step jump_step_def branch_if_def split del: if_split)
  next
    case (ref test)
    then obtain b where b: "j_stack fr = JRef b # vs" using v(1,2) by (auto simp: map_eq_Cons_conv jtype_eqs)
    have "slot_i b = 0 \<longrightarrow> b = 0"
      using rep(3) ref(2) b by (auto simp: fine_def jref_tests_def split: if_splits)
    then show ?thesis
      using ref_branch_sim [of ?insn test strict b vs t st cd w env, unfolded rep(5)] ref inv(4) rep(2,5) ok b h
      by (intro sim [of "if test b then unat w else j_pc fr + 1"]) (simp_all add: step jump_step_def branch_if_def split del: if_split)
  next
    case (acmp test)
    then obtain b a where b: "j_stack fr = JRef b # JRef a # vs" using v(1,2) by (auto simp: map_eq_Cons_conv jtype_eqs)
    show ?thesis
      using acmp_branch_sim [of ?insn test strict b a vs t st cd w env, unfolded rep(5)] acmp inv(4) rep(2,5) ok b h
      by (intro sim [of "if test a b then unat w else j_pc fr + 1"]) (simp_all add: step jump_step_def branch_if_def split del: if_split)
  qed
qed

lemma switch_inv:
  assumes "analysed_at pool cd i insn ctx ctx'" "map_of plain_effects (kind insn) = None"
    "map_of stack_insns (kind insn) = None"
    and op: "operand insn = Tableswitch d \<and> k0 = insn_tableswitch \<or> operand insn = Lookupswitch e \<and> k0 = insn_lookupswitch"
  shows "kind insn = k0" "an_stack ctx = TYPE_KIND_INT # an_stack ctx'" "an_locals ctx' = an_locals ctx"
    "kind (cd ! i) = kind insn" "operand (cd ! i) = operand insn"
proof -
  have "kind insn = k0 \<and> an_stack ctx = TYPE_KIND_INT # an_stack ctx' \<and> an_locals ctx' = an_locals ctx \<and>
    kind (cd ! i) = kind insn \<and> operand (cd ! i) = operand insn"
    using op
    by (rule_tac operand_inv [OF assms(1-3)])
      (auto simp: analyze_operand_def analyze_switch_def rbind_Inr pop_kind_Inr simp del: push_branch_targets.simps
        dest!: push_branch_targets_keep split: if_splits)
  then show "kind insn = k0" "an_stack ctx = TYPE_KIND_INT # an_stack ctx'" "an_locals ctx' = an_locals ctx"
    "kind (cd ! i) = kind insn" "operand (cd ! i) = operand insn"
    by auto
qed

lemma switch_target_in:
  "operand insn = Tableswitch d \<Longrightarrow> operand_wf insn \<Longrightarrow> nat (table_target d key) \<in> set (branch_targets insn)"
  "operand insn = Lookupswitch e \<Longrightarrow> operand_wf insn \<Longrightarrow> nat (lookup_target e key) \<in> set (branch_targets insn)"
proof -
  show "nat (table_target d key) \<in> set (branch_targets insn)" if "operand insn = Tableswitch d" "operand_wf insn"
    using that by (auto simp: branch_targets_def table_target_def operand_wf_def)
  show "nat (lookup_target e key) \<in> set (branch_targets insn)" if "operand insn = Lookupswitch e" "operand_wf insn"
    using that by (auto simp: branch_targets_def lookup_target_def split: option.split dest!: map_of_SomeD set_zip_rightD)
qed

lemma sim_switch:
  assumes sit: "situation strict pool cd insn ctx ctx' fr t st" and at: "at_pc orig fr insn"
    and not: "map_of plain_effects (kind insn) = None" "map_of stack_insns (kind insn) = None"
    and op: "operand insn = Tableswitch d \<and> k0 = insn_tableswitch \<or> operand insn = Lookupswitch e \<and> k0 = insn_lookupswitch"
  shows "simulates strict env orig cd ctx ctx' fr t st"
proof -
  let ?insn = "cd ! j_pc fr"
  note inv = switch_inv [OF situation_locals(1) [OF sit] not op] and rep = situation_rep [OF sit]
  obtain b vs where b: "j_stack fr = JInt b # vs" and ty: "map jtype vs = an_stack ctx'"
    using inv(2) rep(1) by (auto simp: frame_rep_def map_eq_Cons_conv jtype_eqs)
  have stack: "stack_rep strict (JInt b # vs) t st" using rep(2) b by simp
  define target where "target = (case operand insn of Tableswitch d \<Rightarrow> table_target d (sint b) | _ \<Rightarrow> lookup_target e (sint b))"
  have "nat target \<in> set (branch_targets insn)"
    using op switch_target_in [OF _ rep(7)] by (auto simp: target_def)
  then have fits: "fits_at cd (nat target) vs"
    using situation_locals(1) [OF sit] ty by (simp add: analysed_at_def flip: annotated_fits)
  have "kind ?insn \<notin> set common_kinds"
    using inv(1,4) op by (auto simp: common_kinds_def local_loads_def memory_insns_def)
  moreover have "length (ls_keys e) = length (ls_targets e)" if "operand insn = Lookupswitch e"
    using rep(7) that by (simp add: operand_wf_def)
  ultimately have "jumps (handler_of env cd ?insn t st) strict (nat target) vs st"
    using switch_sim [OF stack, of ?insn] op inv(1,4,5) fits by (auto simp: handler_typed target_def)
  moreover have "jvm_step env orig fr = goto_insn fr vs (nat target)"
    using jvm_operand_step [OF at] op inv(1) b by (auto simp: operand_step_def switch_step_def target_def)
  ultimately show ?thesis
    using sim_goto [of _ strict "nat target" vs fr st ctx t ctx'] rep(1) ty inv(3) by (simp add: simulates_def goes_to_def)
qed

section \<open>One instruction\<close>

lemma sim_members:
  assumes sit: "situation strict pool cd insn ctx ctx' fr t st" and at: "at_pc orig fr insn"
    and not: "map_of plain_effects (kind insn) = None" "map_of stack_insns (kind insn) = None"
    and op: "(\<exists>j. operand insn = Cp j) \<or> (\<exists>j dims. operand insn = Multianewarray j dims)"
  shows "simulates strict env orig cd ctx ctx' fr t st"
proof -
  have "kind insn \<in> set handed_over \<and> kind (cd ! j_pc fr) = kind insn \<and> operand (cd ! j_pc fr) = operand insn"
    using op
    by (rule_tac operand_inv [OF situation_locals(1) [OF sit] not])
      (auto simp: analyze_operand_def analyze_get_def analyze_put_def analyze_invoke_def analyze_invokedynamic_def
        analyze_multianewarray_def with_stack_def rbind_Inr handed_over_def split: if_splits)
  then show ?thesis
    using sim_handed_over [OF at] situation_rep(7) [OF sit] by blast
qed

text \<open>The analysis has rejected everything else.\<close>

lemma operand_forms:
  assumes "analysed_at pool cd i insn ctx ctx'" "map_of plain_effects (kind insn) = None"
    "map_of stack_insns (kind insn) = None"
  shows "(\<exists>w. operand insn = Index w \<and>
       (map_of load_kinds (kind insn) \<noteq> None \<or> map_of store_kinds (kind insn) \<noteq> None \<or>
        map_of branch_effects (kind insn) \<noteq> None)) \<or>
     (\<exists>w c. operand insn = Iinc w c) \<or> (\<exists>d. operand insn = Tableswitch d) \<or> (\<exists>d. operand insn = Lookupswitch d) \<or>
     (\<exists>j. operand insn = Cp j) \<or> (\<exists>j dims. operand insn = Multianewarray j dims)"
proof -
  have "kind insn \<noteq> insn_jsr" using assms(1) by (simp add: analysed_at_def)
  then show ?thesis
    by (rule_tac operand_inv [OF assms]) (cases "operand insn"; force simp: analyze_operand_def split: option.splits)
qed

lemma simulates_instruction:
  assumes sit: "situation strict pool cd insn ctx ctx' fr t st" and at: "at_pc orig fr insn"
  shows "simulates strict env orig cd ctx ctx' fr t st"
proof -
  consider (plain) e where "map_of plain_effects (kind insn) = Some e"
    | (stack) f where "map_of plain_effects (kind insn) = None" "map_of stack_insns (kind insn) = Some f"
    | (operand) "map_of plain_effects (kind insn) = None" "map_of stack_insns (kind insn) = None"
    by blast
  then show ?thesis
  proof cases
    case plain
    then show ?thesis using sim_plain [OF sit at] by (cases e) auto
  next
    case stack
    then show ?thesis by (rule sim_stack [OF sit at])
  next
    case operand
    note sims = sim_load [OF sit at operand] sim_store [OF sit at operand] sim_branch [OF sit at operand]
      sim_iinc [OF sit at operand] sim_switch [OF sit at operand] sim_members [OF sit at operand]
    show ?thesis
      using operand_forms [OF situation_locals(1) [OF sit] operand]
      by (elim disjE exE conjE)
        (use sims in \<open>metis not_None_eq surj_pair | blast\<close>)+
  qed
qed

section \<open>Simulations\<close>

text \<open>A machine as a step function that goes on (\<open>Inl\<close>) or stops (\<open>Inr\<close>), and at most \<open>n\<close> of its steps.\<close>

fun iterate :: "('s \<Rightarrow> 's + 'r) \<Rightarrow> nat \<Rightarrow> 's \<Rightarrow> 's + 'r" where
  "iterate step 0 s = Inl s"
| "iterate step (Suc n) s = (case step s of Inl s' \<Rightarrow> iterate step n s' | Inr r \<Rightarrow> Inr r)"

text \<open>The contract: from related states, and as long as the abstract state is \<open>ok\<close>, one step of the concrete
  machine goes to related states, stops with a related result, or pauses before the abstract step.\<close>

locale forward_simulation =
  fixes astep :: "'a \<Rightarrow> 'a + 'ra" and cstep :: "'c \<Rightarrow> 'c + 'rc" and related :: "'a \<Rightarrow> 'c \<Rightarrow> bool"
    and ok :: "'a \<Rightarrow> bool" and ended :: "'ra \<Rightarrow> 'rc \<Rightarrow> bool" and paused :: "'a \<Rightarrow> 'rc \<Rightarrow> bool"
  assumes simulation: "related a c \<Longrightarrow> ok a \<Longrightarrow>
      (\<exists>r. cstep c = Inr r \<and> paused a r) \<or>
      (case astep a of Inl a' \<Rightarrow> \<exists>c'. cstep c = Inl c' \<and> related a' c' | Inr ra \<Rightarrow> \<exists>rc. cstep c = Inr rc \<and> ended ra rc)"
begin

definition run_related :: "'a + 'ra \<Rightarrow> 'c + 'rc \<Rightarrow> bool" where
  "run_related x y \<longleftrightarrow>
     (case x of Inl a \<Rightarrow> (\<exists>c. y = Inl c \<and> related a c) | Inr ra \<Rightarrow> (\<exists>rc. y = Inr rc \<and> ended ra rc))"

lemma iterate_simulation:
  assumes "related a c" "\<And>k a'. k < n \<Longrightarrow> iterate astep k a = Inl a' \<Longrightarrow> ok a'"
  shows "run_related (iterate astep n a) (iterate cstep n c) \<or>
     (\<exists>k a' r. k < n \<and> iterate astep k a = Inl a' \<and> iterate cstep n c = Inr r \<and> paused a' r)"
  using assms
proof (induction n arbitrary: a c)
  case 0
  then show ?case by (simp add: run_related_def)
next
  case (Suc n)
  have "ok a" using Suc.prems(2) [of 0 a] by simp
  from simulation [OF Suc.prems(1) this] consider
      (pause) r where "cstep c = Inr r" "paused a r"
    | (step) a' c' where "astep a = Inl a'" "cstep c = Inl c'" "related a' c'"
    | (stop) ra rc where "astep a = Inr ra" "cstep c = Inr rc" "ended ra rc"
    by (cases "astep a") auto
  then show ?case
  proof cases
    case pause
    then have "iterate astep 0 a = Inl a" "iterate cstep (Suc n) c = Inr r" by simp_all
    then show ?thesis using pause(2) by blast
  next
    case step
    have IH: "run_related (iterate astep n a') (iterate cstep n c') \<or>
      (\<exists>k b r. k < n \<and> iterate astep k a' = Inl b \<and> iterate cstep n c' = Inr r \<and> paused b r)"
    proof (rule Suc.IH [OF step(3)])
      fix k b
      assume "k < n" "iterate astep k a' = Inl b"
      then show "ok b" using Suc.prems(2) [of "Suc k" b] step(1) by simp
    qed
    have lift: "iterate astep (Suc k) a = iterate astep k a'" "iterate cstep (Suc k) c = iterate cstep k c'" for k
      using step(1,2) by simp_all
    from IH show ?thesis
      unfolding lift by (metis Suc_less_eq lift(1))
  next
    case stop
    then show ?thesis by (simp add: run_related_def)
  qed
qed

end

section \<open>Whole executions\<close>

definition jvm_next :: "interp_env \<Rightarrow> analyzed_insn list \<Rightarrow> jframe \<Rightarrow> jframe + jresult" where
  "jvm_next env orig fr = (case jvm_step env orig fr of Continue fr' \<Rightarrow> Inl fr' | r \<Rightarrow> Inr r)"

definition interp_next ::
    "interp_env \<Rightarrow> analyzed_insn list \<Rightarrow> tos_value \<times> interp_state \<Rightarrow> tos_value \<times> interp_state + outcome" where
  "interp_next env cd c = (case interp_step env cd (fst c) (snd c) of Jump t st \<Rightarrow> Inl (t, st) | r \<Rightarrow> Inr r)"

lemma interp_run_stop: "(\<forall>t st. r \<noteq> Jump t st) \<Longrightarrow> interp_run env cd n r = r"
  by (cases r; cases n) auto

lemma interp_run_iterate:
  "interp_run env cd n (Jump t st) =
     (case iterate (interp_next env cd) n (t, st) of Inl (t', st') \<Rightarrow> Jump t' st' | Inr r \<Rightarrow> r)"
proof (induction n arbitrary: t st)
  case (Suc n)
  show ?case
    using Suc by (cases "interp_step env cd t st") (simp_all add: interp_next_def interp_run_stop)
qed simp

text \<open>Control falls through to the next instruction after all but these.\<close>

definition falls_through :: "insn_code_kind \<Rightarrow> bool" where
  "falls_through k \<longleftrightarrow> k \<notin> set (insn_goto # insn_tableswitch # insn_lookupswitch # return_kinds)"

lemma falls_kinds:
  "k = insn_nop \<or> k \<in> set division_kinds \<or> k \<in> set array_kinds \<or> k \<in> set const_kinds \<or> k = insn_iinc \<or>
    k \<in> set (map fst load_kinds @ map fst store_kinds) \<Longrightarrow> falls_through k"
proof -
  have "list_all falls_through
     (insn_nop # division_kinds @ array_kinds @ const_kinds @ insn_iinc # map fst load_kinds @ map fst store_kinds)"
    by (simp add: falls_through_def return_kinds_def division_kinds_def array_kinds_def jarray_loads_def
        jarray_stores_def const_kinds_def load_kinds_def store_kinds_def)
  then show "k = insn_nop \<or> k \<in> set division_kinds \<or> k \<in> set array_kinds \<or> k \<in> set const_kinds \<or> k = insn_iinc \<or>
    k \<in> set (map fst load_kinds @ map fst store_kinds) \<Longrightarrow> falls_through k"
    unfolding list_all_iff by auto
qed

lemma advance_pc: "advance fr vs = Continue fr' \<Longrightarrow> j_pc fr' = j_pc fr + 1"
  by (auto simp: advance_def)

lemma goto_pc: "goto_insn fr vs p = Continue fr' \<Longrightarrow> j_pc fr' = p"
  by (auto simp: goto_insn_def)

lemma jump_successor:
  assumes "jump_step fr k w = Continue fr'" "map_of branch_effects k \<noteq> None"
  shows "falls_through k \<and> j_pc fr' = j_pc fr + 1 \<or> j_pc fr' = unat w"
proof -
  have "k \<noteq> insn_goto \<Longrightarrow> falls_through k"
    using assms(2) by (auto simp: falls_through_def branch_effects_def return_kinds_def split: if_splits)
  then show ?thesis
    using assms(1)
    by (auto simp: jump_step_def branch_if_def dest!: goto_pc split: if_splits list.splits jval.splits option.splits)
qed

lemma operand_successor:
  assumes "operand_step fr insn = Continue fr'" "operand_wf insn"
  shows "falls_through (kind insn) \<and> j_pc fr' = j_pc fr + 1 \<or> j_pc fr' \<in> set (branch_targets insn)"
proof (cases "operand insn")
  case (Index w)
  consider k where "map_of load_kinds (kind insn) = Some k"
    | k where "map_of load_kinds (kind insn) = None" "map_of store_kinds (kind insn) = Some k"
    | "map_of load_kinds (kind insn) = None" "map_of store_kinds (kind insn) = None"
    by blast
  then show ?thesis
  proof cases
    case 1
    then have "falls_through (kind insn)" by (intro falls_kinds) (auto dest: map_of_SomeD intro: rev_image_eqI)
    then show ?thesis
      using assms(1) Index 1 by (auto simp: operand_step_def load_step_def dest!: advance_pc split: option.splits if_splits)
  next
    case 2
    then have "falls_through (kind insn)" by (intro falls_kinds) (auto dest: map_of_SomeD intro: rev_image_eqI)
    then show ?thesis
      using assms(1) Index 2 by (auto simp: operand_step_def store_step_def dest!: advance_pc split: list.splits if_splits)
  next
    case 3
    then show ?thesis
      using assms(1) Index jump_successor [of fr "kind insn" w fr']
      by (auto simp: operand_step_def branch_targets_def split: if_splits)
  qed
next
  case (Iinc w c)
  then show ?thesis
    using assms(1) falls_kinds [of "kind insn"]
    by (auto simp: operand_step_def iinc_step_def dest!: advance_pc split: if_splits option.splits jval.splits)
next
  case (Tableswitch d)
  then show ?thesis
    using assms switch_target_in(1) [OF Tableswitch assms(2)]
    by (auto simp: operand_step_def switch_step_def dest!: goto_pc split: if_splits list.splits jval.splits)
next
  case (Lookupswitch d)
  then show ?thesis
    using assms switch_target_in(2) [OF Lookupswitch assms(2)]
    by (auto simp: operand_step_def switch_step_def dest!: goto_pc split: if_splits list.splits jval.splits)
qed (use assms(1) in \<open>auto simp: operand_step_def\<close>)

lemma jvm_successor:
  assumes "jvm_step env orig fr = Continue fr'" "orig ! j_pc fr = insn" "operand_wf insn"
  shows "falls_through (kind insn) \<and> j_pc fr' = j_pc fr + 1 \<or> j_pc fr' \<in> set (branch_targets insn)"
proof -
  note one = advance_pc and falls = falls_kinds
  have at: "j_pc fr < length orig" using assms(1) by (auto simp: jvm_step_def split: if_splits)
  consider (nop) "kind insn = insn_nop" | (ret) "kind insn \<in> set return_kinds" | (div) "kind insn \<in> set division_kinds"
    | (arr) "kind insn \<in> set array_kinds"
    | (other) "kind insn \<noteq> insn_nop" "kind insn \<notin> set return_kinds" "kind insn \<notin> set division_kinds"
        "kind insn \<notin> set array_kinds"
    by blast
  then show ?thesis
  proof cases
    case nop
    then show ?thesis using assms(1,2) at one falls by (auto simp: jvm_step_def Let_def)
  next
    case ret
    then have "jvm_step env orig fr = return_step fr (kind insn)"
      using assms(2) at by (auto simp: jvm_step_def Let_def return_kinds_def)
    then show ?thesis
      using assms(1) by (auto simp: return_step_def split: if_splits list.splits jval.splits)
  next
    case div
    then have "division_step fr (kind insn) = Continue fr'"
      using assms(1,2) at division_not_common by (auto simp: jvm_step_def Let_def)
    then show ?thesis
      using falls [of "kind insn"] div by (auto simp: division_step_def dest!: one split: if_splits list.splits jval.splits)
  next
    case arr
    then have "array_step (env_storable env) fr (kind insn) = Continue fr'"
      using assms(1,2) at array_not_common by (auto simp: jvm_step_def Let_def)
    then show ?thesis
      using falls [of "kind insn"] arr
      by (auto simp: array_step_def with_element_def dest!: one split: if_splits list.splits jval.splits option.splits)
  next
    case other
    then have step: "(case jconst insn of Some v \<Rightarrow> advance fr (v # j_stack fr)
        | None \<Rightarrow> (case operation (env_fpu env) (kind insn) (j_stack fr) of Some st \<Rightarrow> advance fr st
                   | None \<Rightarrow> operand_step fr insn)) = Continue fr'"
      using assms(1,2) at by (simp add: jvm_step_def Let_def)
    show ?thesis
    proof (cases "jconst insn")
      case (Some v)
      then have "kind insn \<in> set const_kinds" using jconst_None [of insn] by (auto simp: const_kinds_def)
      then show ?thesis using step Some falls one by auto
    next
      case no_const: None
      show ?thesis
      proof (cases "operation (env_fpu env) (kind insn) (j_stack fr)")
        case (Some st)
        then have "kind insn \<notin> {insn_goto, insn_tableswitch, insn_lookupswitch}"
          using operand_no_operation [of "env_fpu env" "j_stack fr"] by (auto simp: branch_effects_def)
        then show ?thesis
          using step no_const Some other(2) one by (auto simp: falls_through_def)
      next
        case None
        then have "operand_step fr insn = Continue fr'" using step no_const by simp
        then show ?thesis by (rule operand_successor [OF _ assms(3)])
      qed
    qed
  qed
qed

text \<open>The states before the instructions fit together: what holds after one holds before its successors,
  except that a local may be forgotten.\<close>

definition flows :: "method_analysis_ctx \<Rightarrow> method_analysis_ctx \<Rightarrow> bool" where
  "flows ctx' ctx \<longleftrightarrow>
     an_stack ctx = an_stack ctx' \<and> length (an_locals ctx) = length (an_locals ctx') \<and>
     list_all2 (\<lambda>k k'. k = TYPE_KIND_VOID \<or> k = k') (an_locals ctx) (an_locals ctx')"

definition verified_code ::
    "constant_pool \<Rightarrow> analyzed_insn list \<Rightarrow> analyzed_insn list \<Rightarrow> method_analysis_ctx list \<Rightarrow> nat \<Rightarrow> bool" where
  "verified_code pool orig cd ctxs cap \<longleftrightarrow>
     length orig = length cd \<and> length ctxs = length cd \<and>
     (\<forall>i<length cd. an_swizzle (ctxs ! i) = an_swizzle (ctxs ! 0) \<and>
        (\<exists>ctx'. analysed_at pool cd i (orig ! i) (ctxs ! i) ctx' \<and> length (an_stack ctx') \<le> cap \<and>
           (falls_through (kind (orig ! i)) \<longrightarrow> i + 1 < length cd \<and> flows ctx' (ctxs ! (i + 1))) \<and>
           (\<forall>p\<in>set (branch_targets (orig ! i)). p < length cd \<and> flows ctx' (ctxs ! p))))"

definition runs_as ::
    "bool \<Rightarrow> constant_pool \<Rightarrow> analyzed_insn list \<Rightarrow> analyzed_insn list \<Rightarrow> method_analysis_ctx list \<Rightarrow> nat \<Rightarrow>
     jframe \<Rightarrow> tos_value \<times> interp_state \<Rightarrow> bool" where
  "runs_as strict pool orig cd ctxs cap fr c \<longleftrightarrow>
     verified_code pool orig cd ctxs cap \<and> j_pc fr < length cd \<and> cap \<le> length (stack_mem (snd c)) \<and>
     rep strict (ctxs ! j_pc fr) fr (fst c) (snd c)"

definition fine_at :: "bool \<Rightarrow> analyzed_insn list \<Rightarrow> method_analysis_ctx list \<Rightarrow> jframe \<Rightarrow> bool" where
  "fine_at strict orig ctxs fr \<longleftrightarrow> fine strict (ctxs ! j_pc fr) (orig ! j_pc fr) fr"

definition ended_with :: "bool \<Rightarrow> method_analysis_ctx list \<Rightarrow> jresult \<Rightarrow> outcome \<Rightarrow> bool" where
  "ended_with strict ctxs r out \<longleftrightarrow>
     (case r of
        Returned None \<Rightarrow> \<exists>st. out = Return_value 0 st
      | Returned (Some v) \<Rightarrow> \<exists>x st. out = Return_value x st \<and> val_rep True v x
      | Raised e \<Rightarrow> \<exists>st. out = Throws e st
      | Outside fr \<Rightarrow> \<exists>t st. out = Other_part t st \<and> rep strict (ctxs ! j_pc fr) fr t st
      | _ \<Rightarrow> False)"

definition suspended_at :: "bool \<Rightarrow> method_analysis_ctx list \<Rightarrow> jframe \<Rightarrow> outcome \<Rightarrow> bool" where
  "suspended_at strict ctxs fr out \<longleftrightarrow>
     (\<exists>st. out = Refuel st \<and>
        suspended_rep strict (an_swizzle (ctxs ! j_pc fr)) (an_stack (ctxs ! j_pc fr)) (an_locals (ctxs ! j_pc fr)) fr st)"

lemma flows_rep:
  assumes "frame_rep strict swz (an_stack ctx') (an_locals ctx') fr t st" "flows ctx' ctx" "an_swizzle ctx = swz"
    "swizzle_ok swz (length (an_locals ctx'))"
  shows "rep strict ctx fr t st"
proof -
  have "an_locals ctx ! j = TYPE_KIND_VOID \<or> an_locals ctx ! j = an_locals ctx' ! j" if "j < length (an_locals ctx')" for j
    using assms(2) that by (simp add: flows_def list_all2_conv_all_nth)
  moreover have "swz_at swz i < length (an_locals ctx')" if "i < length swz" for i
    using swizzle_at [OF assms(4)] that assms(4) by (simp add: swizzle_ok_def)
  ultimately have "locals_rep swz (an_locals ctx) (j_locals fr) (locals_mem st)"
    using assms(1,2) unfolding frame_rep_def locals_rep_def flows_def by metis
  then show ?thesis
    using assms(1-3) by (simp add: frame_rep_def flows_def)
qed

text \<open>One instruction, in the words of the locale.\<close>

lemma running_situation:
  assumes "runs_as strict pool orig cd ctxs cap fr (t, st)" "fine_at strict orig ctxs fr"
  obtains ctx' where "situation strict pool cd (orig ! j_pc fr) (ctxs ! j_pc fr) ctx' fr t st"
    "at_pc orig fr (orig ! j_pc fr)" "cap \<le> length (stack_mem st)" "verified_code pool orig cd ctxs cap"
    "\<And>p. falls_through (kind (orig ! j_pc fr)) \<and> p = j_pc fr + 1 \<or> p \<in> set (branch_targets (orig ! j_pc fr)) \<Longrightarrow>
       p < length cd \<and> flows ctx' (ctxs ! p)"
  using assms by (force simp: runs_as_def verified_code_def situation_def fine_at_def at_pc_def)

lemma verified_swizzle:
  assumes "verified_code pool orig cd ctxs cap" "i < length cd" "j < length cd"
  shows "an_swizzle (ctxs ! i) = an_swizzle (ctxs ! j)" "swizzle_ok (an_swizzle (ctxs ! i)) (length (an_locals (ctxs ! i)))"
  using assms by (auto simp: verified_code_def analysed_at_def)

lemma running_step:
  assumes run: "runs_as strict pool orig cd ctxs cap fr c" and fine: "fine_at strict orig ctxs fr"
  shows "(\<exists>r. interp_next env cd c = Inr r \<and> suspended_at strict ctxs fr r) \<or>
     (case jvm_next env orig fr of
        Inl fr' \<Rightarrow> \<exists>c'. interp_next env cd c = Inl c' \<and> runs_as strict pool orig cd ctxs cap fr' c'
      | Inr r \<Rightarrow> \<exists>out. interp_next env cd c = Inr out \<and> ended_with strict ctxs r out)"
proof -
  obtain t st where c: "c = (t, st)" by (cases c)
  let ?ctx = "ctxs ! j_pc fr"
  from run [unfolded c] fine obtain ctx' where sit: "situation strict pool cd (orig ! j_pc fr) ?ctx ctx' fr t st"
    and at: "at_pc orig fr (orig ! j_pc fr)" and cap: "cap \<le> length (stack_mem st)"
    and ver: "verified_code pool orig cd ctxs cap"
    and succ: "\<And>p. falls_through (kind (orig ! j_pc fr)) \<and> p = j_pc fr + 1 \<or> p \<in> set (branch_targets (orig ! j_pc fr)) \<Longrightarrow>
       p < length cd \<and> flows ctx' (ctxs ! p)"
    by (rule running_situation) blast
  have sim: "simulated strict ?ctx ctx' fr t st (jvm_step env orig fr) (interp_step env cd t st)"
    using simulates_instruction [OF sit at] step_handler [OF situation_locals(1) situation_rep(1), OF sit sit]
    by (simp add: simulates_def)
  show ?thesis
  proof (cases "jvm_step env orig fr")
    case (Continue fr')
    have p: "j_pc fr' < length cd" "flows ctx' (ctxs ! j_pc fr')"
      using succ jvm_successor [OF Continue refl situation_rep(7) [OF sit]] by blast+
    from sim Continue consider
        (jump) t' st' where "interp_step env cd t st = Jump t' st'" "length (stack_mem st') = length (stack_mem st)"
          "frame_rep strict (an_swizzle ?ctx) (an_stack ctx') (an_locals ctx') fr' t' st'"
      | (refuel) st' where "interp_step env cd t st = Refuel st'"
          "suspended_rep strict (an_swizzle ?ctx) (an_stack ?ctx) (an_locals ?ctx) fr st'"
      by (auto simp: simulated_def)
    then show ?thesis
    proof cases
      case jump
      have here: "j_pc fr < length cd" using run by (simp add: runs_as_def)
      have "rep strict (ctxs ! j_pc fr') fr' t' st'"
        using verified_swizzle [OF ver p(1) here] p(2) by (intro flows_rep [OF jump(3) p(2)]) (auto simp: flows_def)
      then have "runs_as strict pool orig cd ctxs cap fr' (t', st')"
        using ver p(1) cap jump(2) by (simp add: runs_as_def)
      then show ?thesis
        using jump(1) Continue by (simp add: interp_next_def jvm_next_def c)
    next
      case refuel
      then show ?thesis by (auto simp: interp_next_def c suspended_at_def)
    qed
  next
    case (Returned v)
    then show ?thesis using sim by (cases v) (auto simp: simulated_def interp_next_def jvm_next_def c ended_with_def)
  next
    case (Raised e)
    then show ?thesis using sim by (auto simp: simulated_def interp_next_def jvm_next_def c ended_with_def)
  next
    case (Outside fr')
    then show ?thesis
      using sim situation_rep(1) [OF sit]
      by (auto simp: simulated_def interp_next_def jvm_next_def c ended_with_def)
  next
    case Stuck
    then show ?thesis using sim by (simp add: simulated_def)
  qed
qed

interpretation exec: forward_simulation "jvm_next env orig" "interp_next env cd" "runs_as strict pool orig cd ctxs cap"
    "fine_at strict orig ctxs" "ended_with strict ctxs" "suspended_at strict ctxs"
  for env orig cd strict pool ctxs cap
  by unfold_locales (rule running_step)

text \<open>A suspended frame is entered again with every value in memory.\<close>

lemma resume_rep:
  assumes "suspended_rep strict (an_swizzle ctx) (an_stack ctx) (an_locals ctx) fr st" "analysed_at pool cd (j_pc fr) insn ctx ctx'"
  obtains t where "entry_impl cd st = Jump t st" "rep strict ctx fr t st"
proof -
  obtain tm where "analyze_instruction pool (length (an_locals ctx)) (length cd) True (j_pc fr) insn ctx = Inr (cd ! j_pc fr, ctx', tm)"
    "kind insn \<notin> {insn_jsr, insn_ret}" "\<forall>j. operand insn \<noteq> Multianewarray j 0" "j_pc fr < length cd"
    using assms(2) no_zero_dims by (auto simp: analysed_at_def)
  then have "tos_before (cd ! j_pc fr) = stack_tos (map jtype (j_stack fr))" "pc st < length cd" "pc st = j_pc fr"
    using dispatch(1) assms(1) by (auto simp: suspended_rep_def)
  then show thesis
    using load_rep [of strict "j_stack fr" st] assms(1)
    by (intro that [of "load_tos (stack_tos (map jtype (j_stack fr))) (peek 1 st)"])
      (auto simp: entry_impl_def STACK_POLYMORPHIC_JMP_def suspended_rep_def frame_rep_def)
qed

end
