(* ===== verification/Analysis_Result.thy ===== *)
theory Analysis_Result
  imports Interpreter_Typing
begin

text \<open>
  What \<open>analyze_method_code\<close> returns: every instruction is the rewritten form of the instruction of
  the class file, analysed in the state that is recorded for it, with the renumbering of the method.
\<close>

section \<open>What a pass leaves alone\<close>

text \<open>A state of a method with a \<open>StackMapTable\<close>: nothing is merged.\<close>

definition unmerged :: "nat \<Rightarrow> method_analysis_ctx \<Rightarrow> bool" where
  "unmerged maxl ctx \<longleftrightarrow>
     length (an_locals ctx) = maxl \<and> an_known_stacks ctx = None \<and> an_known_locals ctx = None \<and> \<not> an_changed ctx"

definition keeps :: "nat \<Rightarrow> method_analysis_ctx \<Rightarrow> method_analysis_ctx \<Rightarrow> bool" where
  "keeps maxl ctx ctx' \<longleftrightarrow>
     an_swizzle ctx' = an_swizzle ctx \<and> an_stack_cap ctx' = an_stack_cap ctx \<and> (unmerged maxl ctx \<longrightarrow> unmerged maxl ctx')"

lemma keeps_refl [simp]: "keeps maxl ctx ctx"
  by (simp add: keeps_def)

lemma keeps_trans: "keeps maxl a b \<Longrightarrow> keeps maxl b c \<Longrightarrow> keeps maxl a c"
  by (simp add: keeps_def)

lemma keeps_updates [simp]:
  "keeps maxl ctx (ctx'\<lparr>an_stack := st\<rparr>) = keeps maxl ctx ctx'"
  "keeps maxl ctx (ctx'\<lparr>an_edges := es\<rparr>) = keeps maxl ctx ctx'"
  "keeps maxl (ctx\<lparr>an_stack := st\<rparr>) ctx' = keeps maxl ctx ctx'"
  "keeps maxl (ctx\<lparr>an_edges := es\<rparr>) ctx' = keeps maxl ctx ctx'"
  by (simp_all add: keeps_def unmerged_def)

lemma keeps_locals: "length ls = length (an_locals ctx) \<Longrightarrow> keeps maxl ctx (ctx\<lparr>an_stack := st, an_locals := ls\<rparr>)"
  by (simp add: keeps_def unmerged_def)

lemma keeps_intersect [simp]: "keeps maxl ctx (intersect_stack i st ctx)" "keeps maxl ctx (intersect_locals i ls ctx)"
  by (auto simp: intersect_stack_def intersect_locals_def keeps_def unmerged_def split: option.split prod.split)

lemma keeps_branch: "push_branch_target n i tgt ctx = Inr ctx' \<Longrightarrow> keeps maxl ctx ctx'"
proof -
  assume "push_branch_target n i tgt ctx = Inr ctx'"
  moreover have "keeps maxl ctx (intersect_locals tgt ls (intersect_stack tgt st (ctx\<lparr>an_edges := es\<rparr>)))" for ls st es
    using keeps_trans [OF keeps_intersect(1) [of maxl "ctx\<lparr>an_edges := es\<rparr>" tgt st] keeps_intersect(2)] by simp
  ultimately show "keeps maxl ctx ctx'"
    by (auto simp: push_branch_target_def Let_def split: if_splits)
qed

lemma keeps_branches: "push_branch_targets n i tgts ctx = Inr ctx' \<Longrightarrow> keeps maxl ctx ctx'"
  by (induction tgts arbitrary: ctx) (auto simp: rbind_Inr dest: keeps_branch intro: keeps_trans)

lemma keeps_handlers: "keeps maxl ctx (intersect_exception_handlers c i ctx)"
proof -
  have "keeps maxl ctx0 (fold (\<lambda>e ctx. if start_insn e \<le> int i \<and> int i < end_insn e
     then intersect_locals (nat (handler_insn e)) (an_locals ctx) ctx else ctx) es ctx0)" for es ctx0
    by (induction es arbitrary: ctx0) (auto intro: keeps_trans [OF keeps_intersect(2)])
  then show ?thesis by (simp add: intersect_exception_handlers_def)
qed

text \<open>One instruction.\<close>

lemma keeps_operand:
  "analyze_operand pool maxl' n rw i insn ctx = Inr (insn', ctx', t) \<Longrightarrow> keeps maxl ctx ctx'"
  by (auto simp: analyze_operand_def analyze_defs rbind_Inr split: insn_operand.splits option.splits if_splits
      dest!: keeps_branch [where maxl = maxl] keeps_branches [where maxl = maxl] intro: keeps_locals keeps_trans)

lemma keeps_instruction:
  "analyze_instruction pool maxl' n rw i insn ctx = Inr (insn', ctx', t) \<Longrightarrow> keeps maxl ctx ctx'"
  by (auto simp: analyze_instruction_def analyze_switch_kind_def rbind_Inr split: option.splits prod.splits
      dest!: keeps_operand [where maxl = maxl])

lemma place_locals_length: "place_locals swz i ks ls = Inr ls' \<Longrightarrow> length ls' = length ls"
  by (induction ks arbitrary: i ls) (auto split: if_splits)

lemma keeps_frame:
  assumes "use_stack_map_frame iter ctx = Inr ctx'"
  shows "keeps maxl ctx ctx'"
  using assms place_locals_length
  by (auto simp: use_stack_map_frame_def rbind_Inr dest!: place_locals_length intro: keeps_locals)

lemma keeps_known:
  assumes "known_at_insn c i t ctx = Inr ctx'"
  shows "keeps maxl ctx ctx'"
proof (cases t)
  case True
  then obtain st ls where st: "known_at (an_known_stacks ctx) i = Some st"
    and ctx': "ctx' = intersect_exception_handlers c i (ctx\<lparr>an_stack := rev st, an_locals := ls\<rparr>)"
    using assms by (auto simp: known_at_insn_def rbind_Inr split: option.splits)
  have "keeps maxl ctx (ctx\<lparr>an_stack := rev st, an_locals := ls\<rparr>)"
    using st by (auto simp: keeps_def unmerged_def known_at_def)
  then show ?thesis
    unfolding ctx' using keeps_handlers keeps_trans by blast
next
  case False
  then have "ctx' = intersect_exception_handlers c i (intersect_locals i (an_locals ctx) (intersect_stack i (rev (an_stack ctx)) ctx))"
    using assms by (simp add: known_at_insn_def)
  then show ?thesis
    using keeps_trans [OF keeps_trans [OF keeps_intersect(1) keeps_intersect(2)] keeps_handlers] by simp
qed

lemma keeps_enter:
  assumes "enter_insn env i insn iter t ctx = Inr (iter', ctx')"
  shows "keeps maxl ctx ctx'"
proof -
  consider "use_stack_map_frame iter ctx = Inr ctx'" | "known_at_insn (env_code env) i t ctx = Inr ctx'" | "ctx' = ctx"
    using assms by (auto simp: enter_insn_def frame_at_insn_def rbind_Inr split: if_splits sum.splits)
  then show ?thesis
    using keeps_frame keeps_known by cases auto
qed

section \<open>The passes\<close>

text \<open>Instruction \<open>k\<close> of a pass over \<open>insns\<close> that starts at \<open>i\<close>.\<close>

definition analysed_insn ::
    "analysis_env \<Rightarrow> bool \<Rightarrow> nat \<Rightarrow> int list \<Rightarrow> nat \<Rightarrow> nat \<Rightarrow> analyzed_insn \<Rightarrow> analyzed_insn \<times> stack_summary \<Rightarrow> bool" where
  "analysed_insn env fin maxl swizzle cap i insn res \<longleftrightarrow>
     (\<exists>ctx ctx' t. analyze_instruction (env_pool env) (unat (max_locals (env_code env))) (length (code (env_code env)))
          fin i insn ctx = Inr (fst res, ctx', t) \<and>
        summary_of ctx = snd res \<and> an_swizzle ctx = swizzle \<and> an_stack_cap ctx = cap \<and> unmerged maxl ctx)"

lemma analyze_insns_records:
  assumes "analyze_insns env fin i insns iter t ctx = Inr (ctx', res)" "unmerged maxl ctx"
  shows "keeps maxl ctx ctx' \<and> length res = length insns \<and>
    (\<forall>k<length insns. analysed_insn env fin maxl (an_swizzle ctx) (an_stack_cap ctx) (i + k) (insns ! k) (res ! k))"
  using assms
proof (induction insns arbitrary: i iter t ctx ctx' res)
  case (Cons insn insns)
  from Cons.prems(1) obtain iter1 ctx1 insn1 ctx2 t1 rest where
    enter: "enter_insn env i insn iter t ctx = Inr (iter1, ctx1)"
    and an: "analyze_instruction (env_pool env) (unat (max_locals (env_code env))) (length (code (env_code env)))
        fin i insn ctx1 = Inr (insn1, ctx2, t1)"
    and more: "analyze_insns env fin (i + 1) insns iter1 t1 ctx2 = Inr (ctx', rest)"
    and res: "res = (insn1, summary_of ctx1) # rest"
    by (auto simp: rbind_Inr)
  have k1: "keeps maxl ctx ctx1" using enter by (rule keeps_enter)
  have k2: "keeps maxl ctx1 ctx2" using an by (rule keeps_instruction)
  have wf: "unmerged maxl ctx1" "unmerged maxl ctx2"
    using k1 k2 Cons.prems(2) by (auto simp: keeps_def)
  have same: "an_swizzle ctx2 = an_swizzle ctx" "an_stack_cap ctx2 = an_stack_cap ctx" "an_swizzle ctx1 = an_swizzle ctx"
    "an_stack_cap ctx1 = an_stack_cap ctx"
    using k1 k2 by (auto simp: keeps_def)
  note IH = Cons.IH [OF more wf(2), unfolded same]
  have "analysed_insn env fin maxl (an_swizzle ctx) (an_stack_cap ctx) i insn (insn1, summary_of ctx1)"
    using an wf(1) same by (auto simp: analysed_insn_def)
  then have "analysed_insn env fin maxl (an_swizzle ctx) (an_stack_cap ctx) (i + k) ((insn # insns) ! k) (res ! k)"
    if "k < length (insn # insns)" for k
    using IH that res by (cases k) auto
  then show ?case
    using IH keeps_trans [OF keeps_trans [OF k1 k2]] res by auto
qed auto

text \<open>Nothing changes, so the first pass is the last.\<close>

lemma refine_one_pass:
  assumes "refine env iter True insns ctx = Inr res" "unmerged maxl ctx"
  shows "length res = length insns \<and>
     (\<forall>k<length insns. analysed_insn env True maxl (an_swizzle ctx) (an_stack_cap ctx) k (insns ! k) (res ! k))"
proof -
  from assms(1) obtain ctx' result where pass: "analyze_insns env True 0 insns iter True ctx = Inr (ctx', result)"
    by (subst (asm) refine.simps) (auto split: sum.splits)
  have "\<not> an_changed ctx'"
    using analyze_insns_records [OF pass assms(2)] assms(2) by (simp add: keeps_def unmerged_def)
  then have "res = result"
    using assms(1) pass by (subst (asm) refine.simps) simp
  then show ?thesis
    using analyze_insns_records [OF pass assms(2)] by simp
qed

section \<open>The whole analysis\<close>

text \<open>The state in which an instruction was analysed, as the recorded types give it.\<close>

definition state_ctx :: "nat \<Rightarrow> int list \<Rightarrow> stack_summary \<Rightarrow> method_analysis_ctx" where
  "state_ctx cap swizzle s =
     \<lparr>an_stack = rev (sum_stack s), an_stack_cap = cap, an_locals = sum_locals s, an_swizzle = swizzle, an_edges = [],
      an_known_stacks = None, an_known_locals = None, an_changed = False\<rparr>"

lemma state_ctx_eq:
  assumes "unmerged maxl ctx" "summary_of ctx = s" "an_swizzle ctx = swizzle" "an_stack_cap ctx = cap"
  shows "ctx = (state_ctx cap swizzle s)\<lparr>an_edges := an_edges ctx\<rparr>" "length (sum_locals s) = maxl"
  using assms by (cases ctx; auto simp: state_ctx_def summary_of_def unmerged_def)+

text \<open>The edges recorded so far are not read, so the state is arbitrary in them.\<close>

lemma analysis_records:
  assumes "analyze_method_code pool nm method c = Inr (cd, lvt, an)" "\<not> m_missing_smt method"
    and "locals_on_method_entry method (unat (max_locals c)) = Some (locals, swizzle)"
  shows "length cd = length (code c)" "length (ca_stack_states an) = length (code c)"
    "k < length (code c) \<Longrightarrow> \<exists>es ctx' t. analyze_instruction pool (unat (max_locals c)) (length cd) True k (fresh_insn (code c ! k))
        ((state_ctx (unat (max_stack c) + 1) swizzle (ca_stack_states an ! k))\<lparr>an_edges := es\<rparr>) = Inr (cd ! k, ctx', t) \<and>
      length (sum_locals (ca_stack_states an ! k)) = unat (max_locals c)"
proof -
  let ?env = "\<lparr>env_pool = pool, env_code = c, env_missing_smt = False\<rparr>"
  let ?ctx = "initial_analysis_ctx False c locals swizzle"
  obtain iter result where ref: "refine ?env iter True (map fresh_insn (code c)) ?ctx = Inr result"
    and cd: "cd = map fst result" and an: "an = analysis_of result"
    using assms(1-3) by (auto simp: analyze_method_code_def rbind_Inr)
  have "unmerged (unat (max_locals c)) ?ctx"
    using locals_length [OF assms(3)] by (simp add: initial_analysis_ctx_def unmerged_def)
  note all = refine_one_pass [OF ref this]
  then show len: "length cd = length (code c)" "length (ca_stack_states an) = length (code c)"
    by (simp_all add: cd an analysis_of_def)
  assume k: "k < length (code c)"
  have "analysed_insn ?env True (unat (max_locals c)) swizzle (unat (max_stack c) + 1) k (fresh_insn (code c ! k)) (result ! k)"
    using all k by (simp add: initial_analysis_ctx_def)
  then obtain ctx ctx' t where an_k: "analyze_instruction pool (unat (max_locals c)) (length (code c)) True k (fresh_insn (code c ! k)) ctx
        = Inr (fst (result ! k), ctx', t)"
    and ctx: "summary_of ctx = snd (result ! k)" "an_swizzle ctx = swizzle" "an_stack_cap ctx = unat (max_stack c) + 1"
      "unmerged (unat (max_locals c)) ctx"
    by (auto simp: analysed_insn_def)
  have "fst (result ! k) = cd ! k" "snd (result ! k) = ca_stack_states an ! k"
    using all k by (simp_all add: cd an analysis_of_def)
  then show "\<exists>es ctx' t. analyze_instruction pool (unat (max_locals c)) (length cd) True k (fresh_insn (code c ! k))
        ((state_ctx (unat (max_stack c) + 1) swizzle (ca_stack_states an ! k))\<lparr>an_edges := es\<rparr>) = Inr (cd ! k, ctx', t) \<and>
      length (sum_locals (ca_stack_states an ! k)) = unat (max_locals c)"
    using an_k state_ctx_eq [OF ctx(4,1,2,3)] len(1) by metis
qed

end
