(* ===== verification/Method_Correctness.thy ===== *)
theory Method_Correctness
  imports Interpreter_Correctness Analysis_Result
begin

text \<open>
  The composition of the analysis and the interpreter: on a method whose recorded states agree along
  its control flow, the interpreter runs the rewritten code as the specification runs the code of the
  class file.
\<close>

section \<open>From the analysis to verified code\<close>

definition same_types :: "method_analysis_ctx \<Rightarrow> stack_summary \<Rightarrow> bool" where
  "same_types ctx s \<longleftrightarrow>
     rev (sum_stack s) = an_stack ctx \<and>
     list_all2 (\<lambda>k k'. k = TYPE_KIND_VOID \<or> k = k') (sum_locals s) (an_locals ctx)"

text \<open>The check that a verifier makes and the analysis leaves out: the state after an instruction is the
  state recorded at its successors, which may know less about the locals.\<close>

definition frames_agree ::
    "constant_pool \<Rightarrow> attribute_code \<Rightarrow> int list \<Rightarrow> analyzed_insn list \<Rightarrow> stack_summary list \<Rightarrow> bool" where
  "frames_agree pool c swizzle cd states \<longleftrightarrow>
     (\<forall>k<length cd. \<forall>es ctx' t.
        analyze_instruction pool (unat (max_locals c)) (length cd) True k (fresh_insn (code c ! k))
          ((state_ctx (unat (max_stack c) + 1) swizzle (states ! k))\<lparr>an_edges := es\<rparr>) = Inr (cd ! k, ctx', t) \<longrightarrow>
        length (an_stack ctx') \<le> unat (max_stack c) \<and>
        (\<not> t \<longrightarrow> k + 1 < length cd \<and> same_types ctx' (states ! (k + 1))) \<and>
        (\<forall>p\<in>set (branch_targets (code c ! k)). p < length cd \<and> same_types ctx' (states ! p)))"

definition parsed_code :: "attribute_code \<Rightarrow> bool" where
  "parsed_code c \<longleftrightarrow>
     length (code c) < 2 ^ 31 \<and>
     list_all (\<lambda>insn. operand_wf (fresh_insn insn) \<and> kind insn \<notin> {insn_jsr, insn_ret}) (code c)"

lemma fresh_insn_simps [simp]:
  "kind (fresh_insn i) = kind i" "operand (fresh_insn i) = operand i" "original_pc (fresh_insn i) = original_pc i"
  by (cases i; simp add: fresh_insn_def bytecode_insn.defs analyzed_insn.defs)+

lemma branch_targets_fresh [simp]: "branch_targets (fresh_insn i) = branch_targets i"
  by (cases "operand i") (simp_all add: branch_targets_def)

lemma terminates_kinds:
  assumes "analyze_instruction pool maxl n True i insn ctx = Inr (insn', ctx', True)" "kind insn \<notin> {insn_jsr, insn_ret}"
  shows "\<not> falls_through (kind insn)"
proof -
  have plain: "list_all (\<lambda>(k, _, _, t). t \<longrightarrow> k \<in> set return_kinds) plain_effects"
    by (simp add: plain_effects_def effects_of_def array_effects_def convert_effects_def arith_effects_def
        misc_effects_def return_kinds_def)
  have branch: "list_all (\<lambda>(k, _, t). t \<longrightarrow> k = insn_goto) branch_effects"
    by (simp add: branch_effects_def)
  obtain before insn'' where sw: "analyze_switch_kind pool maxl n True i (insn\<lparr>tos_before := before\<rparr>) ctx = Inr (insn'', ctx', True)"
    using assms(1) by (auto simp: analyze_instruction_def rbind_Inr)
  consider (plain) pops pushes where "map_of plain_effects (kind insn) = Some (pops, pushes, True)"
    | (operand) "analyze_operand pool maxl n True i (insn\<lparr>tos_before := before\<rparr>) ctx = Inr (insn'', ctx', True)"
    using sw by (auto simp: analyze_switch_kind_def rbind_Inr split: option.splits)
  then show ?thesis
  proof cases
    case plain
    from \<open>list_all _ plain_effects\<close> [unfolded list_all_iff, THEN bspec, OF map_of_SomeD [OF plain]]
    show ?thesis by (auto simp: falls_through_def)
  next
    case operand
    have "kind insn \<in> {insn_goto, insn_tableswitch, insn_lookupswitch}"
      using operand branch
      by (auto simp: analyze_operand_def analyze_defs rbind_Inr list_all_iff dest!: map_of_SomeD
          split: insn_operand.splits option.splits if_splits)
    then show ?thesis by (auto simp: falls_through_def)
  qed
qed

lemma locals_small: "unat (w :: u16) \<le> 0xFFFF"
  using unsigned_less [of w, where ?'a = nat] by simp

text \<open>The states of the analysis, one for each instruction.\<close>

definition code_states :: "attribute_code \<Rightarrow> int list \<Rightarrow> stack_summary list \<Rightarrow> method_analysis_ctx list" where
  "code_states c swizzle = map (state_ctx (unat (max_stack c) + 1) swizzle)"

lemma flows_same_types: "same_types ctx' s \<Longrightarrow> flows ctx' ((state_ctx cap swizzle s)\<lparr>an_edges := es\<rparr>)"
  by (auto simp: same_types_def flows_def state_ctx_def list_all2_lengthD)

definition up_to_edges :: "method_analysis_ctx \<Rightarrow> method_analysis_ctx \<Rightarrow> bool" where
  "up_to_edges ctx ctx0 \<longleftrightarrow> (\<exists>es. ctx = ctx0\<lparr>an_edges := es\<rparr>)"

lemma verified_from_analysis:
  assumes an: "analyze_method_code pool nm method c = Inr (cd, lvt, an)" "\<not> m_missing_smt method"
    and entry: "locals_on_method_entry method (unat (max_locals c)) = Some (locals, swizzle)"
    and code: "parsed_code c" "frames_agree pool c swizzle cd (ca_stack_states an)"
  shows "\<exists>ctxs. verified_code pool (map fresh_insn (code c)) cd ctxs (unat (max_stack c)) \<and>
     list_all2 up_to_edges ctxs (code_states c swizzle (ca_stack_states an))"
proof -
  let ?states = "ca_stack_states an" and ?maxl = "unat (max_locals c)"
  let ?ctx = "\<lambda>k es. (state_ctx (unat (max_stack c) + 1) swizzle (?states ! k))\<lparr>an_edges := es\<rparr>"
  note rec = analysis_records [OF an entry]
  have "\<forall>k<length (code c). \<exists>x. analyze_instruction pool ?maxl (length cd) True k (fresh_insn (code c ! k)) (?ctx k (fst x))
      = Inr (cd ! k, fst (snd x), snd (snd x)) \<and> length (sum_locals (?states ! k)) = ?maxl"
    using rec(3) by simp
  then obtain xs where xs: "length xs = length (code c)"
    "\<forall>k<length (code c). analyze_instruction pool ?maxl (length cd) True k (fresh_insn (code c ! k)) (?ctx k (fst (xs ! k)))
      = Inr (cd ! k, fst (snd (xs ! k)), snd (snd (xs ! k))) \<and> length (sum_locals (?states ! k)) = ?maxl"
    unfolding Skolem_list_nth by blast
  define ctxs where "ctxs = map (\<lambda>k. ?ctx k (fst (xs ! k))) [0..<length cd]"
  let ?ctx' = "\<lambda>k. fst (snd (xs ! k))" and ?t = "\<lambda>k. snd (snd (xs ! k))"
  have ctxs: "ctxs ! k = ?ctx k (fst (xs ! k))" if "k < length cd" for k
    using that by (simp add: ctxs_def)
  have all: "analyze_instruction pool ?maxl (length cd) True k (fresh_insn (code c ! k)) (ctxs ! k) = Inr (cd ! k, ?ctx' k, ?t k)"
    "length (an_locals (ctxs ! k)) = ?maxl" "an_swizzle (ctxs ! k) = swizzle" if "k < length cd" for k
    using xs(2) that rec(1) ctxs [OF that] by (auto simp: state_ctx_def)
  have wf: "operand_wf (fresh_insn (code c ! k))" "kind (code c ! k) \<notin> {insn_jsr, insn_ret}" if "k < length cd" for k
    using code(1) that rec(1) by (simp_all add: parsed_code_def list_all_length)
  have swz: "swizzle_ok swizzle ?maxl"
    using swizzle_permutation [OF entry] locals_length(2) [OF entry] by (simp add: swizzle_ok_def)
  have agree: "length (an_stack (?ctx' k)) \<le> unat (max_stack c)"
    "\<not> ?t k \<Longrightarrow> k + 1 < length cd \<and> same_types (?ctx' k) (?states ! (k + 1))"
    "\<And>p. p \<in> set (branch_targets (code c ! k)) \<Longrightarrow> p < length cd \<and> same_types (?ctx' k) (?states ! p)"
    if k: "k < length cd" for k
    using code(2) [unfolded frames_agree_def, rule_format, OF k, of "fst (xs ! k)" "?ctx' k" "?t k"] all(1) [OF k]
      ctxs [OF k] by auto
  have annot: "annotated cd p (an_stack ctx')" if p: "p < length cd" "same_types ctx' (?states ! p)" for p ctx'
  proof -
    have "tos_before (cd ! p) = stack_tos (an_stack (ctxs ! p))"
      using dispatch(1) [OF all(1) [OF p(1)]] wf [OF p(1)] no_zero_dims by fastforce
    then show ?thesis using p ctxs [OF p(1)] by (simp add: annotated_def same_types_def state_ctx_def)
  qed
  have at: "analysed_at pool cd k (fresh_insn (code c ! k)) (ctxs ! k) (?ctx' k)" if k: "k < length cd" for k
    unfolding analysed_at_def
  proof (intro conjI ballI)
    show "length cd < 2 ^ 31" using code(1) rec(1) by (simp add: parsed_code_def)
    show "\<exists>term. analyze_instruction pool (length (an_locals (ctxs ! k))) (length cd) True k (fresh_insn (code c ! k)) (ctxs ! k) =
        Inr (cd ! k, ?ctx' k, term) \<and> (\<not> term \<longrightarrow> annotated cd (k + 1) (an_stack (?ctx' k)))"
      using all(1,2) [OF k] agree(2) [OF k] annot by (intro exI [of _ "?t k"]) auto
    show "annotated cd p (an_stack (?ctx' k))" if "p \<in> set (branch_targets (fresh_insn (code c ! k)))" for p
      using agree(3) [OF k] annot that by simp
  qed (use k all [OF k] wf [OF k] swz locals_small [of "max_locals c"] in simp_all)
  have flow: "flows (?ctx' k) (ctxs ! p)" if "p < length cd" "same_types (?ctx' k) (?states ! p)" for k p
    using flows_same_types [OF that(2)] ctxs [OF that(1)] by simp
  have falls: "\<not> ?t k" if k: "k < length cd" "falls_through (kind (code c ! k))" for k
    using terminates_kinds [of pool ?maxl "length cd" k "fresh_insn (code c ! k)" "ctxs ! k"] all(1) [OF k(1)]
      wf(2) [OF k(1)] k(2) by (cases "?t k") auto
  have "verified_code pool (map fresh_insn (code c)) cd ctxs (unat (max_stack c))"
    unfolding verified_code_def
  proof (intro conjI allI impI)
    fix k assume k: "k < length cd"
    show "an_swizzle (ctxs ! k) = an_swizzle (ctxs ! 0)"
      using all(3) [OF k] all(3) [of 0] k by (cases cd) simp_all
    show "\<exists>ctx'. analysed_at pool cd k (map fresh_insn (code c) ! k) (ctxs ! k) ctx' \<and>
        length (an_stack ctx') \<le> unat (max_stack c) \<and>
        (falls_through (kind (map fresh_insn (code c) ! k)) \<longrightarrow> k + 1 < length cd \<and> flows ctx' (ctxs ! (k + 1))) \<and>
        (\<forall>p\<in>set (branch_targets (map fresh_insn (code c) ! k)). p < length cd \<and> flows ctx' (ctxs ! p))"
      using at [OF k] agree [OF k] falls [OF k] flow k rec(1) by (intro exI [of _ "?ctx' k"]) auto
  qed (use rec in \<open>simp_all add: ctxs_def\<close>)
  moreover have "list_all2 up_to_edges ctxs (code_states c swizzle ?states)"
    using rec(1,2) ctxs by (auto simp: list_all2_conv_all_nth code_states_def up_to_edges_def ctxs_def)
  ultimately show ?thesis by blast
qed

section \<open>Execution of an analysed method\<close>

text \<open>The relations read only the types and the renumbering.\<close>

lemma up_to_edges_rep:
  assumes "list_all2 up_to_edges ctxs cs" "p < length cs"
  shows "rep strict (ctxs ! p) fr t st = rep strict (cs ! p) fr t st"
    "fine strict (ctxs ! p) insn fr = fine strict (cs ! p) insn fr"
    "suspended_rep strict (an_swizzle (ctxs ! p)) (an_stack (ctxs ! p)) (an_locals (ctxs ! p)) fr st' =
     suspended_rep strict (an_swizzle (cs ! p)) (an_stack (cs ! p)) (an_locals (cs ! p)) fr st'"
proof -
  obtain es where "ctxs ! p = (cs ! p)\<lparr>an_edges := es\<rparr>"
    using assms by (auto simp: list_all2_conv_all_nth up_to_edges_def)
  then show "rep strict (ctxs ! p) fr t st = rep strict (cs ! p) fr t st"
    "fine strict (ctxs ! p) insn fr = fine strict (cs ! p) insn fr"
    "suspended_rep strict (an_swizzle (ctxs ! p)) (an_stack (ctxs ! p)) (an_locals (ctxs ! p)) fr st' =
     suspended_rep strict (an_swizzle (cs ! p)) (an_stack (cs ! p)) (an_locals (cs ! p)) fr st'"
    by (simp_all add: fine_def)
qed

text \<open>All that an execution needs to know about its method.\<close>

definition analysed_method ::
    "constant_pool \<Rightarrow> cp_method \<Rightarrow> attribute_code \<Rightarrow> analyzed_insn list \<Rightarrow> method_analysis_ctx list \<Rightarrow> bool" where
  "analysed_method pool method c cd cs \<longleftrightarrow>
     \<not> m_missing_smt method \<and> parsed_code c \<and>
     (\<exists>nm lvt an locals swizzle.
        analyze_method_code pool nm method c = Inr (cd, lvt, an) \<and>
        locals_on_method_entry method (unat (max_locals c)) = Some (locals, swizzle) \<and>
        frames_agree pool c swizzle cd (ca_stack_states an) \<and>
        cs = code_states c swizzle (ca_stack_states an))"

lemma analysed_verified:
  assumes "analysed_method pool method c cd cs"
  obtains ctxs where "verified_code pool (map fresh_insn (code c)) cd ctxs (unat (max_stack c))"
    "list_all2 up_to_edges ctxs cs" "length cd = length (code c)" "length cs = length (code c)"
proof -
  from assms obtain nm lvt an locals swizzle where
    a: "analyze_method_code pool nm method c = Inr (cd, lvt, an)" "\<not> m_missing_smt method"
    and b: "locals_on_method_entry method (unat (max_locals c)) = Some (locals, swizzle)"
    and c: "parsed_code c" "frames_agree pool c swizzle cd (ca_stack_states an)"
    and cs: "cs = code_states c swizzle (ca_stack_states an)"
    by (auto simp: analysed_method_def)
  show thesis
    using verified_from_analysis [OF a b c] analysis_records(1,2) [OF a b] cs
    by (auto simp: code_states_def intro: that)
qed

text \<open>The frames that the execution of the specification goes through have operands on which the handlers
  agree with it.\<close>

definition fine_run :: "bool \<Rightarrow> interp_env \<Rightarrow> attribute_code \<Rightarrow> method_analysis_ctx list \<Rightarrow> nat \<Rightarrow> jframe \<Rightarrow> bool" where
  "fine_run strict env c cs n fr \<longleftrightarrow>
     (\<forall>k<n. \<forall>fr'. iterate (jvm_next env (map fresh_insn (code c))) k fr = Inl fr' \<longrightarrow>
        fine strict (cs ! j_pc fr') (fresh_insn (code c ! j_pc fr')) fr')"

lemma jvm_next_pc:
  assumes "verified_code pool orig cd ctxs cap" "jvm_next env orig fr = Inl fr'" "j_pc fr < length cd"
  shows "j_pc fr' < length cd"
proof -
  have step: "jvm_step env orig fr = Continue fr'"
    using assms(2) by (auto simp: jvm_next_def split: jresult.splits)
  have "operand_wf (orig ! j_pc fr)" using assms(1,3) by (auto simp: verified_code_def analysed_at_def)
  from jvm_successor [OF step refl this] show ?thesis
    using assms(1,3) by (auto simp: verified_code_def)
qed

lemma iterate_pc:
  assumes "verified_code pool orig cd ctxs cap" "iterate (jvm_next env orig) k fr = Inl fr'" "j_pc fr < length cd"
  shows "j_pc fr' < length cd"
  using assms(2,3)
proof (induction k arbitrary: fr)
  case (Suc k)
  then obtain fr1 where "jvm_next env orig fr = Inl fr1" "iterate (jvm_next env orig) k fr1 = Inl fr'"
    by (auto split: sum.splits)
  then show ?case using Suc.IH jvm_next_pc [OF assms(1)] Suc.prems(2) by blast
qed simp

lemma advance_not_outside [simp]: "advance fr vs \<noteq> Outside fr'" "goto_insn fr vs p \<noteq> Outside fr'"
  by (simp_all add: advance_def goto_insn_def)

lemma operand_outside: "operand_step fr insn = Outside fr' \<Longrightarrow> fr' = fr"
  by (auto simp: operand_step_def load_step_def store_step_def jump_step_def iinc_step_def switch_step_def branch_if_def
      split: insn_operand.splits option.splits list.splits jval.splits if_splits)

lemma jvm_outside: "jvm_step env orig fr = Outside fr' \<Longrightarrow> fr' = fr"
  by (auto simp: jvm_step_def Let_def return_step_def division_step_def array_step_def with_element_def
      dest!: operand_outside split: option.splits list.splits jval.splits if_splits)

lemma iterate_outside:
  assumes "verified_code pool orig cd ctxs cap" "iterate (jvm_next env orig) n fr = Inr (Outside fr')" "j_pc fr < length cd"
  shows "j_pc fr' < length cd"
  using assms(2,3)
proof (induction n arbitrary: fr)
  case (Suc n)
  show ?case
  proof (cases "jvm_next env orig fr")
    case (Inl fr1)
    then show ?thesis using Suc.IH [of fr1] Suc.prems jvm_next_pc [OF assms(1) Inl] by simp
  next
    case (Inr r)
    then have "jvm_step env orig fr = Outside fr'"
      using Suc.prems(1) by (auto simp: jvm_next_def split: jresult.splits)
    then show ?thesis using jvm_outside Suc.prems(2) by blast
  qed
qed simp

lemma method_run:
  assumes analysed: "analysed_method pool method c cd cs"
    and start: "j_pc fr < length (code c)" "unat (max_stack c) \<le> length (stack_mem st)" "rep strict (cs ! j_pc fr) fr t st"
    and fine: "fine_run strict env c cs n fr"
  shows "(case iterate (jvm_next env (map fresh_insn (code c))) n fr of
       Inl fr' \<Rightarrow> \<exists>t' st'. interp_run env cd n (Jump t st) = Jump t' st' \<and> rep strict (cs ! j_pc fr') fr' t' st'
     | Inr r \<Rightarrow> ended_with strict cs r (interp_run env cd n (Jump t st))) \<or>
     (\<exists>k<n. \<exists>fr'. iterate (jvm_next env (map fresh_insn (code c))) k fr = Inl fr' \<and>
        suspended_at strict cs fr' (interp_run env cd n (Jump t st)))"
proof -
  let ?orig = "map fresh_insn (code c)"
  obtain ctxs where ver: "verified_code pool ?orig cd ctxs (unat (max_stack c))"
    and edges: "list_all2 up_to_edges ctxs cs" and len: "length cd = length (code c)" "length cs = length (code c)"
    using analysed by (rule analysed_verified)
  note same = up_to_edges_rep [OF edges]
  have pcs: "j_pc fr' < length (code c)" if "iterate (jvm_next env ?orig) k fr = Inl fr'" for k fr'
    using iterate_pc [OF ver that] start(1) len by simp
  have run: "runs_as strict pool ?orig cd ctxs (unat (max_stack c)) fr (t, st)"
    using ver start len same(1) by (simp add: runs_as_def)
  have ok: "fine_at strict ?orig ctxs fr'" if "k < n" "iterate (jvm_next env ?orig) k fr = Inl fr'" for k fr'
    using fine that pcs [OF that(2)] same(2) len by (simp add: fine_run_def fine_at_def)
  have ended: "ended_with strict cs r out"
    if "ended_with strict ctxs r out" "iterate (jvm_next env ?orig) n fr = Inr r" for r out
    using that iterate_outside [OF ver, of env n fr] start(1) len same(1)
    by (cases r) (auto simp: ended_with_def)
  have suspended: "suspended_at strict cs fr' out" if "suspended_at strict ctxs fr' out" "j_pc fr' < length (code c)" for fr' out
    using that same(3) len by (simp add: suspended_at_def)
  from exec.iterate_simulation [OF run ok] show ?thesis
  proof
    assume "exec.run_related strict pool ?orig cd ctxs (unat (max_stack c))
      (iterate (jvm_next env ?orig) n fr) (iterate (interp_next env cd) n (t, st))"
    then have "case iterate (jvm_next env ?orig) n fr of
       Inl fr' \<Rightarrow> \<exists>t' st'. interp_run env cd n (Jump t st) = Jump t' st' \<and> rep strict (cs ! j_pc fr') fr' t' st'
     | Inr r \<Rightarrow> ended_with strict cs r (interp_run env cd n (Jump t st))"
      using ended pcs same(1) len
      by (auto simp: exec.run_related_def interp_run_iterate runs_as_def split: sum.splits)
    then show ?thesis by blast
  next
    assume "\<exists>k fr' r. k < n \<and> iterate (jvm_next env ?orig) k fr = Inl fr' \<and> iterate (interp_next env cd) n (t, st) = Inr r \<and>
      suspended_at strict ctxs fr' r"
    then show ?thesis
      using suspended pcs by (fastforce simp: interp_run_iterate)
  qed
qed

lemma method_resume:
  assumes "analysed_method pool method c cd cs" "j_pc fr < length (code c)" "suspended_at strict cs fr (Refuel st)"
  shows "\<exists>t. entry_impl cd st = Jump t st \<and> rep strict (cs ! j_pc fr) fr t st"
proof -
  obtain ctxs where ver: "verified_code pool (map fresh_insn (code c)) cd ctxs (unat (max_stack c))"
    and edges: "list_all2 up_to_edges ctxs cs" and len: "length cd = length (code c)" "length cs = length (code c)"
    using assms(1) by (rule analysed_verified)
  have "suspended_rep strict (an_swizzle (ctxs ! j_pc fr)) (an_stack (ctxs ! j_pc fr)) (an_locals (ctxs ! j_pc fr)) fr st"
    using assms(2,3) up_to_edges_rep(3) [OF edges] len by (simp add: suspended_at_def)
  moreover obtain ctx' where "analysed_at pool cd (j_pc fr) (map fresh_insn (code c) ! j_pc fr) (ctxs ! j_pc fr) ctx'"
    using ver assms(2) len by (auto simp: verified_code_def)
  ultimately show ?thesis
    using resume_rep up_to_edges_rep(1) [OF edges] assms(2) len by metis
qed

end
