(* ===== verification/Interpreter_Properties.thy ===== *)
theory Interpreter_Properties
  imports Method_Correctness
begin

text \<open>
  The properties of the analysis and the interpreter, with a small method as their witness.
\<close>

section \<open>Harmless instructions\<close>

text \<open>Instructions on which the handlers agree with the specification whatever their operands.\<close>

definition harmless :: "bool \<Rightarrow> bytecode_insn \<Rightarrow> bool" where
  "harmless strict insn \<longleftrightarrow>
     int_fine strict (kind insn) \<and> kind insn \<notin> {insn_ifnull, insn_ifnonnull, insn_dup2} \<and>
     (\<forall>w c. operand insn \<noteq> Iinc w c)"

lemma harmless_run:
  assumes "analysed_method pool method c cd cs" "list_all (harmless strict) (code c)" "j_pc fr < length (code c)"
  shows "fine_run strict env c cs n fr"
proof -
  obtain ctxs where ver: "verified_code pool (map fresh_insn (code c)) cd ctxs (unat (max_stack c))"
    and len: "length cd = length (code c)"
    using assms(1) by (rule analysed_verified)
  have "fine strict (cs ! p) (fresh_insn (code c ! p)) fr'" if "p < length (code c)" for p fr'
    using assms(2) that by (auto simp: list_all_length harmless_def fine_def)
  then show ?thesis
    using iterate_pc [OF ver] assms(3) len by (auto simp: fine_run_def)
qed

section \<open>A method that is analysed and run\<close>

text \<open>\<open>static int abs(int n) { return n < 0 ? -n : n; }\<close>, with its frame at the branch target.\<close>

definition abs_method :: cp_method where
  "abs_method = \<lparr>m_access_flags = 8, m_name = ''abs'', m_unparsed_descriptor = ''(I)I'',
     m_descriptor = \<lparr>args = [\<lparr>base_kind = TYPE_KIND_INT, repr_kind = TYPE_KIND_INT, dimensions = 0, class_name = None, unparsed = ''I''\<rparr>],
       return_type = \<lparr>base_kind = TYPE_KIND_INT, repr_kind = TYPE_KIND_INT, dimensions = 0, class_name = None, unparsed = ''I''\<rparr>\<rparr>,
     m_attributes = [], m_code = None, m_missing_smt = False, m_is_signature_polymorphic = False,
     m_is_ctor = False, m_is_clinit = False, m_my_index = 0\<rparr>"

definition plain_insn :: "insn_code_kind \<Rightarrow> u16 \<Rightarrow> insn_operand \<Rightarrow> bytecode_insn" where
  "plain_insn k p op = \<lparr>kind = k, original_pc = p, operand = op\<rparr>"

definition abs_code :: attribute_code where
  "abs_code = Attribute_code 1 1 16 9
     [plain_insn insn_iload 0 (Index 0), plain_insn insn_ifge 1 (Index 5), plain_insn insn_iload 4 (Index 0),
      plain_insn insn_ineg 5 No_operand, plain_insn insn_ireturn 6 No_operand, plain_insn insn_iload 7 (Index 0),
      plain_insn insn_ireturn 8 No_operand]
     None None None [Attribute ''StackMapTable'' 3 (Attr_stack_map_table 1 [7])]"

definition abs_cd :: "analyzed_insn list" where
  "abs_cd =
     map (\<lambda>(insn, before, after, d). bytecode_insn.extend insn (analyzed_insn.fields before after d))
       (zip (code abs_code)
         [(TOS_VOID, TOS_INT, 1), (TOS_INT, TOS_VOID, 128), (TOS_VOID, TOS_INT, 1), (TOS_INT, TOS_INT, 0),
          (TOS_INT, TOS_VOID, 0), (TOS_VOID, TOS_INT, 1), (TOS_INT, TOS_VOID, 0)])"

definition abs_states :: "stack_summary list" where
  "abs_states = map (\<lambda>st. \<lparr>sum_stack = st, sum_locals = [TYPE_KIND_INT]\<rparr>)
     [[], [TYPE_KIND_INT], [], [TYPE_KIND_INT], [TYPE_KIND_INT], [], [TYPE_KIND_INT]]"

lemma abs_pass:
  "case stack_map_frame_iterator_init ''A'' abs_method abs_code of
     Inr iter \<Rightarrow>
       (case analyze_insns \<lparr>env_pool = [], env_code = abs_code, env_missing_smt = False\<rparr> True 0 (map fresh_insn (code abs_code))
               iter True (initial_analysis_ctx False abs_code [TYPE_KIND_INT] [0]) of
          Inr (ctx, result) \<Rightarrow> \<not> an_changed ctx \<and> result = zip abs_cd abs_states
        | Inl _ \<Rightarrow> False)
   | Inl _ \<Rightarrow> False"
  by code_simp

lemma abs_entry: "locals_on_method_entry abs_method (unat (max_locals abs_code)) = Some ([TYPE_KIND_INT], [0])"
  by code_simp

lemma abs_parsed: "parsed_code abs_code"
  by (simp add: parsed_code_def abs_code_def plain_insn_def operand_wf_def load_kinds_def store_kinds_def
      branch_effects_def)

lemma abs_analysis:
  "\<exists>an. analyze_method_code [] ''A'' abs_method abs_code = Inr (abs_cd, [], an) \<and> ca_stack_states an = abs_states"
proof -
  let ?env = "\<lparr>env_pool = [], env_code = abs_code, env_missing_smt = False\<rparr>"
  obtain iter ctx where init: "stack_map_frame_iterator_init ''A'' abs_method abs_code = Inr iter"
    and pass: "analyze_insns ?env True 0 (map fresh_insn (code abs_code)) iter True
        (initial_analysis_ctx False abs_code [TYPE_KIND_INT] [0]) = Inr (ctx, zip abs_cd abs_states)" "\<not> an_changed ctx"
    using abs_pass by (auto split: sum.splits)
  have "refine ?env iter True (map fresh_insn (code abs_code)) (initial_analysis_ctx False abs_code [TYPE_KIND_INT] [0])
      = Inr (zip abs_cd abs_states)"
    using pass by (subst refine.simps) simp
  moreover have "lvt_of abs_code = []" "\<not> m_missing_smt abs_method" "map fst (zip abs_cd abs_states) = abs_cd"
    "map snd (zip abs_cd abs_states) = abs_states"
    by (simp_all add: lvt_of_def abs_code_def abs_method_def abs_cd_def abs_states_def)
  ultimately show ?thesis
    using init abs_entry by (simp add: analyze_method_code_def analysis_of_def)
qed

lemma below_seven: "(\<forall>k<7. P k) \<longleftrightarrow> P 0 \<and> P (1::nat) \<and> P 2 \<and> P 3 \<and> P 4 \<and> P 5 \<and> P 6"
  by (simp add: numeral_eq_Suc All_less_Suc conj_ac)

lemma abs_effects:
  "map_of plain_effects insn_iload = None" "map_of stack_insns insn_iload = None"
  "map_of plain_effects insn_ifge = None" "map_of stack_insns insn_ifge = None"
  "map_of plain_effects insn_ineg = Some ([TYPE_KIND_INT], [TYPE_KIND_INT], False)"
  "map_of plain_effects insn_ireturn = Some ([TYPE_KIND_INT], [], True)"
  by (simp_all add: plain_effects_def effects_of_def array_effects_def convert_effects_def arith_effects_def
      misc_effects_def stack_insns_def)

lemmas abs_defs = abs_code_def abs_cd_def abs_states_def plain_insn_def fresh_insn_def bytecode_insn.defs analyzed_insn.defs

lemma abs_agree: "frames_agree [] abs_code [0] abs_cd abs_states"
proof -
  have len: "length abs_cd = 7" by (simp add: abs_cd_def abs_code_def)
  have load: "analyze_operand pool (Suc 0) n True i insn ctx =
      Inr (insn\<lparr>operand := Index 0, delta := 1\<rparr>, ctx\<lparr>an_stack := TYPE_KIND_INT # an_stack ctx\<rparr>, False)"
    if "kind insn = insn_iload" "operand insn = Index 0" "an_swizzle ctx = [0]" "an_locals ctx = [TYPE_KIND_INT]"
      "length (an_stack ctx) \<noteq> an_stack_cap ctx" for pool n i insn ctx
    using that
    by (simp add: analyze_operand_def load_kinds_def analyze_load_def swizzled_index_def push_entry_def local_insn_def
        calculate_local_modifying_insn_delta_def)
  have branch: "analyze_operand pool maxl 7 True i insn ctx =
      Inr (insn\<lparr>delta := calculate_branch_delta 5 i\<rparr>, ctx\<lparr>an_stack := [], an_edges := an_edges ctx @ [(i, 5)]\<rparr>, False)"
    if "kind insn = insn_ifge" "operand insn = Index 5" "an_stack ctx = [TYPE_KIND_INT]" "an_known_stacks ctx = None"
    for pool maxl i insn ctx
    using that
    by (simp add: analyze_operand_def load_kinds_def store_kinds_def branch_effects_def analyze_branch_def pop_kind_def
        push_branch_target_def Let_def)
  show ?thesis
    unfolding frames_agree_def len below_seven
    by (intro conjI; simp add: abs_defs analyze_instruction_def analyze_switch_kind_def abs_effects load branch state_ctx_def
        pop_kind_def push_entry_def same_types_def branch_targets_def branch_effects_def rbind_Inr)
qed

definition abs_cs :: "method_analysis_ctx list" where
  "abs_cs = code_states abs_code [0] abs_states"

lemma abs_analysed: "analysed_method [] abs_method abs_code abs_cd abs_cs"
  using abs_analysis abs_entry abs_agree abs_parsed
  by (fastforce simp: analysed_method_def abs_cs_def abs_method_def)

lemma abs_harmless: "list_all (harmless strict) (code abs_code)"
  by (simp add: abs_code_def plain_insn_def harmless_def int_fine_def)

definition abs_env :: interp_env where
  "abs_env = \<lparr>env_fpu = \<lparr>fp_fadd = \<lambda>_ _. 0, fp_fsub = \<lambda>_ _. 0, fp_fmul = \<lambda>_ _. 0, fp_fdiv = \<lambda>_ _. 0, fp_fmodf = \<lambda>_ _. 0,
     fp_dadd = \<lambda>_ _. 0, fp_dsub = \<lambda>_ _. 0, fp_dmul = \<lambda>_ _. 0, fp_ddiv = \<lambda>_ _. 0, fp_fmod = \<lambda>_ _. 0,
     fp_float_of_long = \<lambda>_. 0, fp_double_of_long = \<lambda>_. 0, fp_double_of_float = \<lambda>_. 0, fp_float_of_double = \<lambda>_. 0,
     fp_long_of_float = \<lambda>_. 0\<rparr>, env_storable = \<lambda>_ _. True\<rparr>"

definition abs_frame :: "u32 \<Rightarrow> jframe" where
  "abs_frame n = \<lparr>j_stack = [], j_locals = [0 \<mapsto> JInt n], j_pc = 0, j_heap = \<lambda>_. 0\<rparr>"

definition abs_start :: "u32 \<Rightarrow> interp_state" where
  "abs_start n = \<lparr>sp = 0, pc = 0, fuel = 100, stack_mem = [0], locals_mem = [sext n], heap = \<lambda>_. 0\<rparr>"

lemma abs_start_rep: "rep strict (abs_cs ! 0) (abs_frame n) Tos_void (abs_start n)"
  by (simp add: frame_rep_def abs_cs_def code_states_def state_ctx_def abs_states_def abs_frame_def abs_start_def
      locals_rep_def swz_at_def)

lemma abs_reference:
  "case iterate (jvm_next abs_env (map fresh_insn (code abs_code))) 5 (abs_frame (- 5)) of
     Inr (Returned (Some v)) \<Rightarrow> v = JInt 5 | _ \<Rightarrow> False"
  by code_simp

section \<open>Memory\<close>

text \<open>A store of \<open>n\<close> bytes writes these bytes and nothing else, and a load reads them back.\<close>

lemma mem_store_other: "(\<And>j. j < n \<Longrightarrow> b \<noteq> a + word_of_nat j) \<Longrightarrow> mem_store n a v m b = m b"
proof (induction n arbitrary: a v m)
  case (Suc n)
  have "b \<noteq> a + 1 + word_of_nat j" if "j < n" for j
    using Suc.prems [of "Suc j"] that by (simp add: add.assoc)
  moreover have "b \<noteq> a" using Suc.prems [of 0] by simp
  ultimately show ?case using Suc.IH [of "a + 1"] by simp
qed simp

lemma offset_nonzero:
  assumes "0 < j" "j \<le> 8"
  shows "(a :: u64) \<noteq> a + word_of_nat j"
proof -
  have "unat (word_of_nat j :: u64) = j" using assms by (simp add: unsigned_of_nat take_bit_nat_eq_self)
  then show ?thesis using assms(1) by (metis add_cancel_right_right less_irrefl unsigned_0)
qed

lemma mem_load_store: "n \<le> 8 \<Longrightarrow> mem_load n (mem_store n a v m) a = take_bit (8 * n) v"
proof (induction n arbitrary: a v m)
  case (Suc n)
  have "a \<noteq> a + 1 + word_of_nat j" if "j < n" for j
    using offset_nonzero [of "Suc j" a] that Suc.prems by (simp add: add.assoc)
  then have "mem_store n (a + 1) (drop_bit 8 v) (m(a := ucast v)) a = ucast v"
    using mem_store_other [of n a "a + 1"] by simp
  moreover have "ucast (ucast v :: u8) OR push_bit 8 (take_bit (8 * n) (drop_bit 8 v)) = take_bit (8 * Suc n) v"
    by (rule bit_word_eqI) (auto simp: bit_simps)
  ultimately show ?case using Suc by simp
qed simp

section \<open>Properties\<close>

text \<open>C21: The renumbering of the locals is a permutation of the slots, so no two locals share one, and
  the parameters come first, in order and one slot each, with their types, whatever their width in the
  class file.\<close>

theorem locals_renumbered:
  assumes "locals_on_method_entry method maxl = Some (locals, swizzle)"
  shows "mset swizzle = mset (map int [0..<maxl]) \<and> length locals = maxl \<and>
    (\<forall>k<length (args (m_descriptor method)).
       swizzle ! (receiver_slots method + formal_slot (args (m_descriptor method)) k) = int (receiver_slots method + k) \<and>
       locals ! (receiver_slots method + k) = repr_kind (args (m_descriptor method) ! k))"
  using swizzle_permutation [OF assms] locals_length [OF assms] swizzle_arguments [OF assms] by blast

theorem locals_renumbered_witness:
  "mset [0, 1, 3, 2, 4] = mset (map int [0..<5])"
proof -
  have "locals_on_method_entry sample_method 5 =
     Some ([TYPE_KIND_REFERENCE, TYPE_KIND_LONG, TYPE_KIND_INT, TYPE_KIND_VOID, TYPE_KIND_VOID], [0, 1, 3, 2, 4])"
    by code_simp
  from locals_renumbered [OF this] show ?thesis by (rule conjunct1)
qed

text \<open>C9: The analysis and the jump tables fit together: every analysed instruction is annotated with the kind of
  the top of the recorded stack, and the table of that kind has a handler for the instruction as it was
  rewritten. The exceptions are \<open>jsr\<close> and \<open>ret\<close>, which have no handlers, and a \<open>multianewarray\<close> without
  dimensions.\<close>

theorem dispatch_total:
  assumes "analyze_method_code pool nm method c = Inr (cd, lvt, an)" "\<not> m_missing_smt method"
    and "locals_on_method_entry method (unat (max_locals c)) = Some (locals, swizzle)"
    and "k < length (code c)" "kind (code c ! k) \<notin> {insn_jsr, insn_ret}" "\<forall>j. operand (code c ! k) \<noteq> Multianewarray j 0"
  shows "tos_before (cd ! k) = stack_tos (rev (sum_stack (ca_stack_states an ! k))) \<and>
    kind (cd ! k) \<in> set (jmp_table (tos_before (cd ! k)))"
proof -
  obtain es ctx' t where "analyze_instruction pool (unat (max_locals c)) (length cd) True k (fresh_insn (code c ! k))
      ((state_ctx (unat (max_stack c) + 1) swizzle (ca_stack_states an ! k))\<lparr>an_edges := es\<rparr>) = Inr (cd ! k, ctx', t)"
    using analysis_records(3) [OF assms(1-4)] by blast
  from dispatch(1,3) [OF this] show ?thesis
    using assms(5,6) by (simp add: state_ctx_def)
qed

theorem dispatch_total_witness:
  "kind (abs_cd ! 3) \<in> set (jmp_table (tos_before (abs_cd ! 3)))"
proof -
  obtain an where "analyze_method_code [] ''A'' abs_method abs_code = Inr (abs_cd, [], an)"
    using abs_analysis by blast
  then show ?thesis
    by (rule conjunct2 [OF dispatch_total [OF _ _ abs_entry]]) (simp_all add: abs_method_def abs_code_def plain_insn_def)
qed





text \<open>C37: \<open>ishr\<close> leaves a zero-extended result in the register, so a following \<open>i2l\<close> yields a positive number for
  a negative operand: the two handlers do not compute what the specification does.\<close>

theorem ishr_zero_extends:
  fixes x :: u64
  assumes "pc st + 1 < length cd" "kind (cd ! pc st) = insn_ishr" "kind (cd ! (pc st + 1)) = insn_i2l"
  defines "r \<equiv> signed_drop_bit (unat (slot_i x) mod 32) (slot_i (peek 2 st))"
  shows "(\<exists>st'. interp_run env cd 2 (Jump (Tos_int x) st) = Jump (Tos_int (ucast r)) st') \<and>
     (bit (slot_i (peek 2 st)) 31 \<longrightarrow> (ucast r :: u64) \<noteq> scast r)"
proof -
  have common: "insn_ishr \<notin> set common_kinds" "insn_i2l \<notin> set common_kinds"
    by (simp_all add: common_kinds_def local_loads_def memory_insns_def)
  have table: "insn_ishr \<in> set jmp_table_int" "insn_i2l \<in> set jmp_table_int"
    by (simp_all add: jmp_table_int_def)
  have "interp_step env cd (Tos_int x) st = next_with (Tos_int (ucast r)) (drop_sp 1 st)"
    using assms(1,2) common(1) table(1)
    by (simp add: interp_step_def Let_def common_None int_handler_def int_bin_ops_def mask_shifts r_def)
  moreover have "interp_step env cd (Tos_int y) (st'\<lparr>pc := pc st + 1\<rparr>) = next_with (Tos_int y) (st'\<lparr>pc := pc st + 1\<rparr>)" for y st'
    using assms(1,3) common(2) table(2)
    by (simp add: interp_step_def Let_def common_None int_handler_def int_bin_ops_def int_un_ops_def)
  ultimately have "\<exists>st'. interp_run env cd 2 (Jump (Tos_int x) st) = Jump (Tos_int (ucast r)) st'"
    by (simp add: numeral_2_eq_2 next_with_def drop_sp_def)
  moreover have "(ucast r :: u64) \<noteq> scast r" if "bit (slot_i (peek 2 st)) 31"
  proof
    assume "(ucast r :: u64) = scast r"
    then have "bit (ucast r :: u64) 63 = bit (scast r :: u64) 63" by simp
    moreover have "bit r 31"
      using that by (cases "unat (slot_i x) mod 32 = 0") (auto simp: r_def bit_simps)
    then have "bit (scast r :: u64) 63" by (simp add: bit_simps min_def)
    moreover have "\<not> bit (ucast r :: u64) 63" by (auto simp: bit_simps dest: bit_imp_le_length)
    ultimately show False by simp
  qed
  ultimately show ?thesis by blast
qed

theorem ishr_zero_extends_witness:
  "(ucast (signed_drop_bit 1 (- 8 :: u32)) :: u64) \<noteq> scast (signed_drop_bit 1 (- 8 :: u32))"
proof -
  let ?cd = "[\<lparr>kind = insn_ishr, original_pc = 0, operand = No_operand, tos_before = TOS_INT, tos_after = TOS_INT, delta = 0\<rparr>,
     \<lparr>kind = insn_i2l, original_pc = 1, operand = No_operand, tos_before = TOS_INT, tos_after = TOS_INT, delta = 0\<rparr>]"
  let ?st = "(abs_start 0)\<lparr>sp := 2, stack_mem := [- 8, 0]\<rparr>"
  have "slot_i (peek 2 ?st) = - 8" "pc ?st = 0"
    by (simp_all add: peek_def slot_i_def abs_start_def)
  then show ?thesis
    using ishr_zero_extends [of ?st ?cd, where x = 1 and env = abs_env] by (simp add: slot_i_def)
qed



end
