(* ===== verification/Runtime_Class.thy ===== *)
theory Runtime_Class
  imports Classfile_Types
begin

unbundle bit_operations_syntax

text \<open>
  Classes at run time: the part of \<open>classdesc\<close> (\<open>vm/classfile.h\<close>) that linking fills in and that method
  selection, type tests and the collector read, with the lookups on it from \<open>vm/bjvm.c\<close>:
  \<open>method_lookup\<close>, \<open>field_lookup\<close>, \<open>instanceof\<close>. A class is identified by a number, its address, and a
  method by its class and its index there. Lookups follow pointers to superclasses and
  superinterfaces, so they carry a bound on the length of the path; \<open>None\<close> is a path that is longer.
\<close>

section \<open>State\<close>

datatype classdesc_kind =
    CD_KIND_ORDINARY | CD_KIND_PRIMITIVE | CD_KIND_ORDINARY_ARRAY | CD_KIND_PRIMITIVE_ARRAY

type_synonym class_id = nat
type_synonym method_id = "class_id \<times> nat"

record rt_method = cp_method +
  vtable_index :: nat
  itable_index :: nat
  m_overrides :: bool

record rt_field = cp_field +
  byte_offset :: u64

record itable_method_t =
  im_method :: method_id
  im_invalid :: bool
  im_ambiguous :: bool

record itable =
  it_interface :: class_id
  it_methods :: "itable_method_t list"

record rt_class =
  rc_kind :: classdesc_kind
  rc_state :: classdesc_state
  rc_name :: slice
  rc_super :: "class_id option"
  rc_interfaces :: "class_id list"
  rc_access_flags :: u16
  rc_dimensions :: nat
  rc_fields :: "rt_field list"
  rc_methods :: "rt_method list"
  rc_array_type :: "class_id option"
  rc_one_fewer_dim :: "class_id option"
  rc_base_component :: "class_id option"
  rc_primitive_component :: type_kind
  rc_instance_bytes :: u64
  rc_static_bytes :: u64
  rc_static_references :: "u16 list"
  rc_instance_references :: "u16 list"
  rc_vtable :: "method_id list"
  rc_itables :: "itable list"
  rc_hierarchy :: "class_id list"

type_synonym class_table = "class_id \<Rightarrow> rt_class"

definition get_method :: "class_table \<Rightarrow> method_id \<Rightarrow> rt_method" where
  "get_method ct m = rc_methods (ct (fst m)) ! snd m"

definition access_set :: "u16 \<Rightarrow> u16 \<Rightarrow> bool" where
  "access_set flags bits = (flags AND bits \<noteq> 0)"

section \<open>Lookups\<close>

text \<open>A null \<open>method_descriptor\<close> (\<open>None\<close>) matches every descriptor.\<close>

definition method_candidate_matches :: "'a cp_method_scheme \<Rightarrow> slice \<Rightarrow> slice option \<Rightarrow> bool" where
  "method_candidate_matches candidate name desc =
     (utf8_equals_utf8 (m_name candidate) name \<and>
      (m_is_signature_polymorphic candidate \<or>
       (case desc of None \<Rightarrow> True | Some d \<Rightarrow> utf8_equals_utf8 (m_unparsed_descriptor candidate) d)))"

fun find_method :: "rt_method list \<Rightarrow> nat \<Rightarrow> slice \<Rightarrow> slice option \<Rightarrow> nat option" where
  "find_method [] i name desc = None"
| "find_method (m # ms) i name desc =
     (if method_candidate_matches m name desc then Some i else find_method ms (Suc i) name desc)"

text \<open>The first loop of \<open>method_lookup\<close>, along the superclasses.\<close>

fun lookup_chain :: "class_table \<Rightarrow> nat \<Rightarrow> class_id \<Rightarrow> slice \<Rightarrow> slice option \<Rightarrow> bool \<Rightarrow> method_id option option" where
  "lookup_chain ct 0 c name desc superclasses = None"
| "lookup_chain ct (Suc n) c name desc superclasses =
     (case find_method (rc_methods (ct c)) 0 name desc of
        Some i \<Rightarrow> Some (Some (c, i))
      | None \<Rightarrow>
          (case rc_super (ct c) of
             Some s \<Rightarrow> if superclasses then lookup_chain ct n s name desc superclasses else Some None
           | None \<Rightarrow> Some None))"

definition lookup_start :: "class_table \<Rightarrow> class_id \<Rightarrow> bool \<Rightarrow> class_id option" where
  "lookup_start ct c superclasses =
     (if rc_kind (ct c) \<noteq> CD_KIND_ORDINARY \<and> superclasses then rc_super (ct c) else Some c)"

fun method_lookup ::
      "class_table \<Rightarrow> nat \<Rightarrow> class_id \<Rightarrow> slice \<Rightarrow> slice option \<Rightarrow> bool \<Rightarrow> bool \<Rightarrow> method_id option option"
  and lookup_superinterfaces ::
      "class_table \<Rightarrow> nat \<Rightarrow> class_id list \<Rightarrow> slice \<Rightarrow> slice option \<Rightarrow> method_id option option" where
  "method_lookup ct 0 c name desc superclasses superinterfaces = None"
| "method_lookup ct (Suc n) c name desc superclasses superinterfaces =
     (case lookup_start ct c superclasses of
        None \<Rightarrow> None
      | Some start \<Rightarrow>
          (case lookup_chain ct (Suc n) start name desc superclasses of
             None \<Rightarrow> None
           | Some (Some m) \<Rightarrow> Some (Some m)
           | Some None \<Rightarrow>
               if \<not> superinterfaces then Some None
               else (case lookup_superinterfaces ct n (rc_interfaces (ct c)) name desc of
                       None \<Rightarrow> None
                     | Some (Some m) \<Rightarrow> Some (Some m)
                     | Some None \<Rightarrow>
                         (case rc_super (ct c) of
                            Some s \<Rightarrow> if superclasses then method_lookup ct n s name desc True True else Some None
                          | None \<Rightarrow> Some None))))"
| "lookup_superinterfaces ct n [] name desc = Some None"
| "lookup_superinterfaces ct n (i # is) name desc =
     (case method_lookup ct n i name desc False True of
        None \<Rightarrow> None
      | Some (Some m) \<Rightarrow> Some (Some m)
      | Some None \<Rightarrow> lookup_superinterfaces ct n is name desc)"

fun find_field :: "rt_field list \<Rightarrow> nat \<Rightarrow> slice \<Rightarrow> slice \<Rightarrow> nat option" where
  "find_field [] i name desc = None"
| "find_field (f # fs) i name desc =
     (if utf8_equals_utf8 (f_name f) name \<and> utf8_equals_utf8 (f_descriptor f) desc then Some i
      else find_field fs (Suc i) name desc)"

fun field_lookup :: "class_table \<Rightarrow> nat \<Rightarrow> class_id \<Rightarrow> slice \<Rightarrow> slice \<Rightarrow> (class_id \<times> nat) option option"
  and field_lookup_interfaces ::
      "class_table \<Rightarrow> nat \<Rightarrow> class_id list \<Rightarrow> slice \<Rightarrow> slice \<Rightarrow> (class_id \<times> nat) option option" where
  "field_lookup ct 0 c name desc = None"
| "field_lookup ct (Suc n) c name desc =
     (case rc_super (ct c) of
        None \<Rightarrow> Some None
      | Some s \<Rightarrow>
          (case find_field (rc_fields (ct c)) 0 name desc of
             Some i \<Rightarrow> Some (Some (c, i))
           | None \<Rightarrow>
               (case field_lookup_interfaces ct n (rc_interfaces (ct c)) name desc of
                  None \<Rightarrow> None
                | Some (Some f) \<Rightarrow> Some (Some f)
                | Some None \<Rightarrow> field_lookup ct n s name desc)))"
| "field_lookup_interfaces ct n [] name desc = Some None"
| "field_lookup_interfaces ct n (i # is) name desc =
     (case field_lookup ct n i name desc of
        None \<Rightarrow> None
      | Some (Some f) \<Rightarrow> Some (Some f)
      | Some None \<Rightarrow> field_lookup_interfaces ct n is name desc)"

section \<open>Type tests\<close>

definition setup_super_hierarchy :: "class_id \<Rightarrow> class_table \<Rightarrow> class_table" where
  "setup_super_hierarchy c ct =
     ct(c := (ct c)\<lparr>rc_hierarchy :=
       (case rc_super (ct c) of
          Some s \<Rightarrow> rc_hierarchy (ct s) @ [c]
        | None \<Rightarrow> [c])\<rparr>)"

definition instanceof_interface :: "class_table \<Rightarrow> class_id \<Rightarrow> class_id \<Rightarrow> bool" where
  "instanceof_interface ct c target = (c = target \<or> list_ex (\<lambda>t. it_interface t = target) (rc_itables (ct c)))"

definition instanceof_super :: "class_table \<Rightarrow> class_id \<Rightarrow> class_id \<Rightarrow> bool" where
  "instanceof_super ct c target =
     (length (rc_hierarchy (ct target)) \<le> length (rc_hierarchy (ct c)) \<and>
      rc_hierarchy (ct c) ! (length (rc_hierarchy (ct target)) - 1) = target)"

text \<open>The loop that removes the dimensions of the target: \<open>None\<close> if the other class has too few.\<close>

fun strip_dimensions :: "class_table \<Rightarrow> nat \<Rightarrow> class_id \<Rightarrow> class_id \<Rightarrow> (class_id \<times> class_id) option" where
  "strip_dimensions ct 0 c target = Some (c, target)"
| "strip_dimensions ct (Suc n) c target =
     (case (rc_one_fewer_dim (ct c), rc_one_fewer_dim (ct target)) of
        (Some c', Some target') \<Rightarrow> strip_dimensions ct n c' target'
      | _ \<Rightarrow> None)"

definition plain_instanceof :: "class_table \<Rightarrow> class_id \<Rightarrow> class_id \<Rightarrow> bool" where
  "plain_instanceof ct c target =
     (if access_set (rc_access_flags (ct target)) ACCESS_INTERFACE
      then instanceof_interface ct c target else instanceof_super ct c target)"

definition instanceof :: "class_table \<Rightarrow> class_id \<Rightarrow> class_id \<Rightarrow> bool" where
  "instanceof ct c target =
     (if c = target then True
      else if rc_kind (ct target) \<noteq> CD_KIND_ORDINARY then
        if rc_kind (ct c) = CD_KIND_ORDINARY then False
        else if rc_kind (ct c) = CD_KIND_ORDINARY_ARRAY then
          (case strip_dimensions ct (rc_dimensions (ct target)) c target of
             None \<Rightarrow> False
           | Some (c', target') \<Rightarrow>
               if rc_kind (ct c') = CD_KIND_PRIMITIVE \<or> rc_kind (ct target') = CD_KIND_PRIMITIVE then False
               else plain_instanceof ct c' target')
        else rc_dimensions (ct target) = rc_dimensions (ct c) \<and>
             rc_primitive_component (ct target) = rc_primitive_component (ct c)
      else plain_instanceof ct c target)"

section \<open>The superclass hierarchy\<close>

inductive is_subclass :: "class_table \<Rightarrow> class_id \<Rightarrow> class_id \<Rightarrow> bool" for ct where
  sub_refl: "is_subclass ct c c"
| sub_step: "rc_super (ct c) = Some s \<Longrightarrow> is_subclass ct s t \<Longrightarrow> is_subclass ct c t"

text \<open>The hierarchies of the classes of \<open>L\<close> are set up.\<close>

definition hierarchy_inv :: "class_table \<Rightarrow> class_id set \<Rightarrow> bool" where
  "hierarchy_inv ct L =
     (\<forall>c \<in> L. case rc_super (ct c) of
        None \<Rightarrow> rc_hierarchy (ct c) = [c]
      | Some s \<Rightarrow> s \<in> L \<and> rc_hierarchy (ct c) = rc_hierarchy (ct s) @ [c])"

lemma hierarchy_invD:
  assumes "hierarchy_inv ct L" and "c \<in> L"
  shows "rc_super (ct c) = None \<Longrightarrow> rc_hierarchy (ct c) = [c]"
    and "rc_super (ct c) = Some s \<Longrightarrow> s \<in> L \<and> rc_hierarchy (ct c) = rc_hierarchy (ct s) @ [c]"
  using assms by (auto simp: hierarchy_inv_def split: option.splits)

text \<open>Every element of a hierarchy is a superclass, and the part up to it is its own hierarchy.\<close>

lemma hierarchy_nth:
  assumes "hierarchy_inv ct L" and "c \<in> L" and "i < length (rc_hierarchy (ct c))"
  shows "is_subclass ct c (rc_hierarchy (ct c) ! i) \<and>
    rc_hierarchy (ct (rc_hierarchy (ct c) ! i)) = take (Suc i) (rc_hierarchy (ct c)) \<and> rc_hierarchy (ct c) ! i \<in> L"
  using assms(2,3)
proof (induction "length (rc_hierarchy (ct c))" arbitrary: c i)
  case (Suc n)
  show ?case
  proof (cases "rc_super (ct c)")
    case None
    then show ?thesis using hierarchy_invD(1) [OF assms(1) Suc.prems(1)] Suc.prems by (auto intro: is_subclass.sub_refl)
  next
    case (Some s)
    have h: "s \<in> L" "rc_hierarchy (ct c) = rc_hierarchy (ct s) @ [c]"
      using hierarchy_invD(2) [OF assms(1) Suc.prems(1) Some] by auto
    show ?thesis
    proof (cases "i = length (rc_hierarchy (ct s))")
      case True
      then have "rc_hierarchy (ct c) ! i = c" "take (Suc i) (rc_hierarchy (ct c)) = rc_hierarchy (ct c)"
        using h(2) by simp_all
      then show ?thesis using Suc.prems(1) by (auto intro: is_subclass.sub_refl)
    next
      case False
      then have i: "i < length (rc_hierarchy (ct s))" using Suc.prems(2) h(2) by simp
      have "n = length (rc_hierarchy (ct s))" using Suc.hyps(2) h(2) by simp
      from Suc.hyps(1) [OF this h(1) i] show ?thesis
        using i h(2) is_subclass.sub_step [where ct = ct, OF Some] by (simp add: nth_append)
    qed
  qed
qed simp

lemma hierarchy_nonempty: "hierarchy_inv ct L \<Longrightarrow> c \<in> L \<Longrightarrow> rc_hierarchy (ct c) \<noteq> []"
  by (cases "rc_super (ct c)") (auto dest: hierarchy_invD)

lemma subclass_prefix:
  assumes "is_subclass ct c t" and "hierarchy_inv ct L" and "c \<in> L"
  shows "t \<in> L \<and> (\<exists>rest. rc_hierarchy (ct c) = rc_hierarchy (ct t) @ rest)"
  using assms
proof (induction rule: is_subclass.induct)
  case (sub_step c s t)
  then have "s \<in> L" "rc_hierarchy (ct c) = rc_hierarchy (ct s) @ [c]"
    using hierarchy_invD(2) [OF sub_step.prems sub_step.hyps(1)] by auto
  then show ?case using sub_step.IH sub_step.prems by auto
qed simp

lemma hierarchy_last: "hierarchy_inv ct L \<Longrightarrow> c \<in> L \<Longrightarrow> rc_hierarchy (ct c) ! (length (rc_hierarchy (ct c)) - 1) = c"
  by (cases "rc_super (ct c)") (auto dest: hierarchy_invD)

lemma instanceof_super_iff:
  assumes inv: "hierarchy_inv ct L" and "c \<in> L" and "t \<in> L"
  shows "instanceof_super ct c t \<longleftrightarrow> is_subclass ct c t"
proof
  let ?n = "length (rc_hierarchy (ct t))"
  assume i: "instanceof_super ct c t"
  then have "?n - 1 < length (rc_hierarchy (ct c))" "rc_hierarchy (ct c) ! (?n - 1) = t"
    using hierarchy_nonempty [OF inv assms(3)] unfolding instanceof_super_def
    by (cases "rc_hierarchy (ct t)"; simp)+
  then show "is_subclass ct c t" using hierarchy_nth [OF inv assms(2), of "?n - 1"] by simp
next
  assume "is_subclass ct c t"
  from subclass_prefix [OF this inv assms(2)] obtain rest where r: "rc_hierarchy (ct c) = rc_hierarchy (ct t) @ rest"
    by blast
  have "0 < length (rc_hierarchy (ct t))" using hierarchy_nonempty [OF inv assms(3)] by simp
  then show "instanceof_super ct c t" using r hierarchy_last [OF inv assms(3)]
    by (simp add: instanceof_super_def nth_append)
qed

lemma setup_super_hierarchy_inv:
  assumes "hierarchy_inv ct L" and "c \<notin> L" and "\<And>s. rc_super (ct c) = Some s \<Longrightarrow> s \<in> L"
  shows "hierarchy_inv (setup_super_hierarchy c ct) (insert c L)"
  unfolding hierarchy_inv_def
proof
  fix d assume d: "d \<in> insert c L"
  show "case rc_super (setup_super_hierarchy c ct d) of
      None \<Rightarrow> rc_hierarchy (setup_super_hierarchy c ct d) = [d]
    | Some s \<Rightarrow> s \<in> insert c L \<and>
        rc_hierarchy (setup_super_hierarchy c ct d) = rc_hierarchy (setup_super_hierarchy c ct s) @ [d]"
  proof (cases "d = c")
    case True
    then show ?thesis using assms(2,3) by (auto simp: setup_super_hierarchy_def split: option.splits)
  next
    case False
    then have "d \<in> L" using d by simp
    then show ?thesis using hierarchy_invD [OF assms(1) \<open>d \<in> L\<close>] False assms(2)
      by (auto simp: setup_super_hierarchy_def split: option.splits)
  qed
qed

lemma setup_super_hierarchy_super [simp]: "rc_super (setup_super_hierarchy c ct d) = rc_super (ct d)"
  by (simp add: setup_super_hierarchy_def)

text \<open>The order in which \<open>link_class\<close> works: superclasses before their subclasses, each class once.\<close>

fun supers_first :: "class_table \<Rightarrow> class_id list \<Rightarrow> class_id list \<Rightarrow> bool" where
  "supers_first ct before [] = True"
| "supers_first ct before (c # cs) =
     (c \<notin> set before \<and> (case rc_super (ct c) of None \<Rightarrow> True | Some s \<Rightarrow> s \<in> set before) \<and>
      supers_first ct (c # before) cs)"

lemma fold_setup_super [simp]: "rc_super (fold setup_super_hierarchy cs ct d) = rc_super (ct d)"
  by (induction cs arbitrary: ct) simp_all

lemma supers_first_cong: "(\<And>d. rc_super (ct' d) = rc_super (ct d)) \<Longrightarrow> supers_first ct' b cs = supers_first ct b cs"
  by (induction cs arbitrary: b) simp_all

lemma fold_setup_inv:
  assumes "supers_first ct before cs" and "hierarchy_inv ct (set before)"
  shows "hierarchy_inv (fold setup_super_hierarchy cs ct) (set before \<union> set cs)"
  using assms
proof (induction cs arbitrary: ct before)
  case (Cons c cs)
  have "hierarchy_inv (setup_super_hierarchy c ct) (insert c (set before))"
    using Cons.prems by (intro setup_super_hierarchy_inv) (auto split: option.splits)
  moreover have "supers_first (setup_super_hierarchy c ct) (c # before) cs"
    using Cons.prems(1) supers_first_cong [of "setup_super_hierarchy c ct" ct] by simp
  ultimately show ?case using Cons.IH [of "setup_super_hierarchy c ct" "c # before"] by simp
qed simp

lemma subclass_cong: "(\<And>d. rc_super (ct' d) = rc_super (ct d)) \<Longrightarrow> is_subclass ct' c t = is_subclass ct c t"
proof
  show "(\<And>d. rc_super (ct' d) = rc_super (ct d)) \<Longrightarrow> is_subclass ct' c t \<Longrightarrow> is_subclass ct c t"
    by (rotate_tac 1, induction rule: is_subclass.induct) (auto intro: is_subclass.intros)
  show "(\<And>d. rc_super (ct' d) = rc_super (ct d)) \<Longrightarrow> is_subclass ct c t \<Longrightarrow> is_subclass ct' c t"
    by (rotate_tac 1, induction rule: is_subclass.induct) (auto intro: is_subclass.intros)
qed

text \<open>A class for the examples, named by a letter and a number.\<close>

definition example_class :: "class_id option \<Rightarrow> rt_method list \<Rightarrow> rt_class" where
  "example_class super ms = \<lparr>rc_kind = CD_KIND_ORDINARY, rc_state = CD_STATE_LOADED, rc_name = ''A'',
     rc_super = super, rc_interfaces = [], rc_access_flags = 1, rc_dimensions = 0, rc_fields = [],
     rc_methods = ms, rc_array_type = None, rc_one_fewer_dim = None, rc_base_component = None,
     rc_primitive_component = TYPE_KIND_BOOLEAN, rc_instance_bytes = 16, rc_static_bytes = 0,
     rc_static_references = [], rc_instance_references = [], rc_vtable = [], rc_itables = [],
     rc_hierarchy = []\<rparr>"

text \<open>C33: The constant-time subclass test is exact: after the hierarchies of some classes have been
  set up, superclasses first, as linking does, \<open>instanceof_super\<close> answers for any two of them whether
  the second is reached from the first along the superclass pointers.\<close>

theorem instanceof_super_exact:
  assumes "supers_first ct [] cs" and "c \<in> set cs" and "t \<in> set cs"
  shows "instanceof_super (fold setup_super_hierarchy cs ct) c t \<longleftrightarrow> is_subclass ct c t"
proof -
  have "hierarchy_inv (fold setup_super_hierarchy cs ct) (set cs)"
    using fold_setup_inv [OF assms(1)] by (simp add: hierarchy_inv_def)
  from instanceof_super_iff [OF this assms(2,3)] show ?thesis
    using subclass_cong [of "fold setup_super_hierarchy cs ct" ct c t] by simp
qed

theorem instanceof_super_exact_witness:
  "instanceof_super (fold setup_super_hierarchy [0, 1, 2] (\<lambda>c. example_class (if c = 0 then None else Some (c - 1)) [])) 2 0"
proof -
  let ?ct = "\<lambda>c. example_class (if c = 0 then None else Some (c - 1)) []"
  have "is_subclass ?ct 2 0"
    by (rule is_subclass.sub_step [of _ _ 1], simp add: example_class_def, rule is_subclass.sub_step [of _ _ 0])
      (simp_all add: example_class_def is_subclass.sub_refl)
  then show ?thesis using instanceof_super_exact [of ?ct "[0, 1, 2]" 2 0] by (simp add: example_class_def)
qed

section \<open>Method selection\<close>

text \<open>The reference definition: the first class of a list, nearest first, that declares a match.\<close>

fun nearest_method :: "class_table \<Rightarrow> slice \<Rightarrow> slice option \<Rightarrow> class_id list \<Rightarrow> method_id option" where
  "nearest_method ct name desc [] = None"
| "nearest_method ct name desc (c # cs) =
     (case find (\<lambda>i. method_candidate_matches (rc_methods (ct c) ! i) name desc) [0..<length (rc_methods (ct c))] of
        Some i \<Rightarrow> Some (c, i)
      | None \<Rightarrow> nearest_method ct name desc cs)"

lemma find_method_find:
  "find_method ms k name desc = map_option (\<lambda>i. i + k) (find (\<lambda>i. method_candidate_matches (ms ! i) name desc) [0..<length ms])"
proof (induction ms arbitrary: k)
  case (Cons m ms)
  have u: "[0..<length (m # ms)] = 0 # map Suc [0..<length ms]" by (simp add: map_Suc_upt upt_conv_Cons del: upt_Suc)
  have "find (\<lambda>i. method_candidate_matches ((m # ms) ! i) name desc) (map Suc is) =
    map_option Suc (find (\<lambda>i. method_candidate_matches (ms ! i) name desc) is)" for "is"
    by (induction "is") simp_all
  then show ?case using Cons.IH [of "Suc k"] unfolding u
    by (simp add: option.map_comp comp_def)
qed simp

lemma find_method_0:
  "find_method ms 0 name desc = find (\<lambda>i. method_candidate_matches (ms ! i) name desc) [0..<length ms]"
  using find_method_find [of ms 0 name desc] by (simp add: option.map_ident)

lemma lookup_chain_nearest:
  assumes "hierarchy_inv ct L" and "c \<in> L" and "length (rc_hierarchy (ct c)) \<le> n"
  shows "lookup_chain ct n c name desc True = Some (nearest_method ct name desc (rev (rc_hierarchy (ct c))))"
  using assms(2,3)
proof (induction n arbitrary: c)
  case 0
  then show ?case using hierarchy_nonempty [OF assms(1)] by simp
next
  case (Suc n)
  show ?case
  proof (cases "rc_super (ct c)")
    case None
    then show ?thesis using hierarchy_invD(1) [OF assms(1) Suc.prems(1)]
      by (simp add: find_method_0 split: option.split)
  next
    case (Some s)
    then have h: "s \<in> L" "rc_hierarchy (ct c) = rc_hierarchy (ct s) @ [c]"
      using hierarchy_invD(2) [OF assms(1) Suc.prems(1)] by auto
    then show ?thesis using Suc.IH [of s] Suc.prems(2) Some by (simp add: find_method_0 split: option.split)
  qed
qed

text \<open>C34: Looking up a method in a class and its superclasses returns, and returns the match in the
  class nearest to it, the first in declaration order there, or no method if no superclass declares
  one; any bound from the number of its superclasses on gives this result. For an array the search
  starts at its superclass.\<close>

theorem method_lookup_nearest:
  assumes "hierarchy_inv ct L" and "c \<in> L" and "length (rc_hierarchy (ct c)) \<le> n"
    and "rc_kind (ct c) \<noteq> CD_KIND_ORDINARY \<Longrightarrow> rc_super (ct c) \<noteq> None"
  shows "method_lookup ct n c name desc True False =
    Some (nearest_method ct name desc
      (if rc_kind (ct c) = CD_KIND_ORDINARY then rev (rc_hierarchy (ct c)) else tl (rev (rc_hierarchy (ct c)))))"
proof -
  obtain n' where n: "n = Suc n'" using assms(3) hierarchy_nonempty [OF assms(1,2)] by (cases n) auto
  show ?thesis
  proof (cases "rc_kind (ct c) = CD_KIND_ORDINARY")
    case True
    then show ?thesis using lookup_chain_nearest [OF assms(1-3)] n
      by (simp add: lookup_start_def del: lookup_chain.simps split: option.split)
  next
    case False
    then obtain s where s: "rc_super (ct c) = Some s" using assms(4) by auto
    then have h: "s \<in> L" "rc_hierarchy (ct c) = rc_hierarchy (ct s) @ [c]"
      using hierarchy_invD(2) [OF assms(1,2)] by auto
    then show ?thesis using lookup_chain_nearest [OF assms(1) h(1), of n] False s n assms(3)
      by (simp add: lookup_start_def del: lookup_chain.simps split: option.split)
  qed
qed

definition example_method :: "slice \<Rightarrow> slice \<Rightarrow> u16 \<Rightarrow> rt_method" where
  "example_method name desc flags = \<lparr>m_access_flags = flags, m_name = name, m_unparsed_descriptor = desc,
     m_descriptor = \<lparr>args = [], return_type = \<lparr>base_kind = TYPE_KIND_VOID, repr_kind = TYPE_KIND_VOID,
       dimensions = 0, class_name = None, unparsed = ''V''\<rparr>\<rparr>,
     m_attributes = [], m_code = None, m_missing_smt = False, m_is_signature_polymorphic = False,
     m_is_ctor = False, m_is_clinit = False, m_my_index = 0, vtable_index = 0, itable_index = 0,
     m_overrides = False\<rparr>"

theorem method_lookup_nearest_witness:
  "method_lookup (fold setup_super_hierarchy [0, 1]
     (\<lambda>c. example_class (if c = 0 then None else Some 0) [example_method ''f'' ''()V'' 1])) 2 1 ''f'' (Some ''()V'') True False
   = Some (Some (1, 0))"
proof -
  define ms where "ms = [example_method ''f'' ''()V'' 1]"
  define ct0 where "ct0 = (\<lambda>c :: class_id. example_class (if c = 0 then None else Some 0) ms)"
  define ct where "ct = fold setup_super_hierarchy [0, 1] ct0"
  have h: "rc_hierarchy (ct 1) = [0, 1]" "rc_kind (ct 1) = CD_KIND_ORDINARY" "rc_methods (ct 1) = ms"
    by (simp_all add: ct_def ct0_def setup_super_hierarchy_def example_class_def)
  have m: "method_candidate_matches (ms ! 0) ''f'' (Some ''()V'')" "length ms = 1"
    by (simp_all add: ms_def method_candidate_matches_def example_method_def)
  have "hierarchy_inv ct (set [] \<union> set [0, 1])"
    unfolding ct_def by (rule fold_setup_inv) (simp_all add: ct0_def example_class_def hierarchy_inv_def)
  from method_lookup_nearest [OF this, of 1 2 "''f''" "Some ''()V''"]
  have "method_lookup ct 2 1 ''f'' (Some ''()V'') True False = Some (Some (1, 0))"
    using m by (simp add: h [simplified])
  then show ?thesis by (simp only: ct_def ct0_def ms_def)
qed

end
