(* ===== verification/Vtable.thy ===== *)
theory Vtable
  imports Runtime_Class
begin

unbundle bit_operations_syntax

text \<open>
  Model of \<open>vm/vtable.c\<close>: the virtual method table and the interface tables of a class, built when it is
  linked. The two hash tables that are local to \<open>setup_itables\<close> are finite maps from identifiers,
  which is what the hash table refines. The bound \<open>n\<close> is that of \<open>method_lookup\<close>.
\<close>

section \<open>Overriding\<close>

text \<open>\<open>strrchr (name, '/')\<close>: the number of characters before the last slash.\<close>

fun last_slash :: "nat \<Rightarrow> slice \<Rightarrow> nat option \<Rightarrow> nat option" where
  "last_slash i [] found = found"
| "last_slash i (c # cs) found = last_slash (Suc i) cs (if c = CHR ''/'' then Some i else found)"

definition same_runtime_package :: "rt_class \<Rightarrow> rt_class \<Rightarrow> bool" where
  "same_runtime_package a b =
     (case (last_slash 0 (rc_name a) None, last_slash 0 (rc_name b) None) of
        (Some i, Some j) \<Rightarrow> i = j \<and> memcmp_eq (rc_name a) (rc_name b) i
      | (None, None) \<Rightarrow> True
      | _ \<Rightarrow> False)"

abbreviation (input) ACCESS_PUBLIC :: u16 where "ACCESS_PUBLIC \<equiv> 0x0001"
abbreviation (input) ACCESS_PROTECTED :: u16 where "ACCESS_PROTECTED \<equiv> 0x0004"

definition method_overrides :: "class_table \<Rightarrow> method_id option \<Rightarrow> method_id \<Rightarrow> bool" where
  "method_overrides ct overriding overridden =
     (case overriding of
        None \<Rightarrow> False
      | Some m \<Rightarrow>
          if access_set (m_access_flags (get_method ct m)) ACCESS_PRIVATE then False
          else if \<not> access_set (m_access_flags (get_method ct m)) (ACCESS_PROTECTED OR ACCESS_PUBLIC)
          then same_runtime_package (ct (fst m)) (ct (fst overridden))
          else True)"

definition vtable_include :: "rt_method \<Rightarrow> bool" where
  "vtable_include m =
     (\<not> m_is_ctor m \<and> \<not> m_is_clinit m \<and> \<not> access_set (m_access_flags m) ACCESS_STATIC \<and> \<not> m_overrides m)"

definition itable_include :: "rt_method \<Rightarrow> bool" where
  "itable_include m =
     (\<not> m_is_ctor m \<and> \<not> m_is_clinit m \<and> \<not> access_set (m_access_flags m) ACCESS_STATIC)"

section \<open>The virtual method table\<close>

definition update_method :: "method_id \<Rightarrow> (rt_method \<Rightarrow> rt_method) \<Rightarrow> class_table \<Rightarrow> class_table" where
  "update_method m f ct =
     ct(fst m := (ct (fst m))\<lparr>rc_methods := (rc_methods (ct (fst m)))[snd m := f (get_method ct m)]\<rparr>)"

definition push_vtable :: "class_id \<Rightarrow> method_id \<Rightarrow> class_table \<Rightarrow> class_table" where
  "push_vtable c m ct = ct(c := (ct c)\<lparr>rc_vtable := rc_vtable (ct c) @ [m]\<rparr>)"

text \<open>\<open>method_lookup(cd, name, descriptor, false, false)\<close>.\<close>

definition declared_method :: "class_table \<Rightarrow> class_id \<Rightarrow> rt_method \<Rightarrow> method_id option" where
  "declared_method ct c m =
     map_option (\<lambda>i. (c, i)) (find_method (rc_methods (ct c)) 0 (m_name m) (Some (m_unparsed_descriptor m)))"

lemma declared_method_lookup:
  "method_lookup ct (Suc n) c (m_name m) (Some (m_unparsed_descriptor m)) False False = Some (declared_method ct c m)"
  by (simp add: lookup_start_def declared_method_def split: option.splits)

text \<open>One iteration of the loop over the vtable of the superclass.\<close>

definition inherit_method :: "class_id \<Rightarrow> method_id \<Rightarrow> class_table \<Rightarrow> class_table" where
  "inherit_method c m ct =
     (let r = declared_method ct c (get_method ct m) in
      case r of
        Some r \<Rightarrow>
          if method_overrides ct (Some r) m
          then push_vtable c r
                 (update_method r (\<lambda>x. x\<lparr>vtable_index := vtable_index (get_method ct m), m_overrides := True\<rparr>) ct)
          else push_vtable c m ct
      | None \<Rightarrow> push_vtable c m ct)"

text \<open>One iteration of the loop that adds the methods that override nothing.\<close>

definition add_method :: "class_id \<Rightarrow> nat \<Rightarrow> class_table \<Rightarrow> class_table" where
  "add_method c i ct =
     (if vtable_include (get_method ct (c, i))
      then push_vtable c (c, i)
             (update_method (c, i) (\<lambda>x. x\<lparr>vtable_index := length (rc_vtable (ct c))\<rparr>) ct)
      else ct)"

definition inherit_vtable :: "class_id \<Rightarrow> class_table \<Rightarrow> class_table" where
  "inherit_vtable c ct =
     (case rc_super (ct c) of
        None \<Rightarrow> ct
      | Some s \<Rightarrow> fold (inherit_method c) (rc_vtable (ct s)) ct)"

definition extend_vtable :: "class_id \<Rightarrow> class_table \<Rightarrow> class_table" where
  "extend_vtable c ct = fold (add_method c) [0..<length (rc_methods (ct c))] ct"

section \<open>Interface tables\<close>

definition make_itable_method :: "class_table \<Rightarrow> method_id \<Rightarrow> itable_method_t" where
  "make_itable_method ct m =
     \<lparr>im_method = m, im_invalid = access_set (m_access_flags (get_method ct m)) ACCESS_ABSTRACT, im_ambiguous = False\<rparr>"

definition mark_ambiguous :: "itable_method_t \<Rightarrow> itable_method_t" where
  "mark_ambiguous e = e\<lparr>im_invalid := True, im_ambiguous := True\<rparr>"

text \<open>\<open>stpncpy (dst, src, n)\<close> copies at most \<open>n\<close> characters, pads with zeros up to \<open>n\<close>, and returns the end
  of what it copied.\<close>

definition stpncpy :: "slice \<Rightarrow> nat \<Rightarrow> slice" where
  "stpncpy src n = take n src"

text \<open>\<open>identify\<close> writes into the scratch buffer, of which it has \<open>len\<close> bytes, and leaves the length of
  the identifier in \<open>scratch->len\<close>, where the next call finds it.\<close>

definition identify :: "nat \<Rightarrow> 'a cp_method_scheme \<Rightarrow> slice \<times> nat" where
  "identify len m =
     (let name = stpncpy (m_name m) len;
          desc = stpncpy (m_unparsed_descriptor m) (len + 1 - (length name + 1));
          ident = name @ [CHR '':''] @ desc
      in (ident, length ident))"

text \<open>The index after the last byte that \<open>identify\<close> writes, padding included.\<close>

definition identify_extent :: "nat \<Rightarrow> 'a cp_method_scheme \<Rightarrow> nat" where
  "identify_extent len m =
     (let name = stpncpy (m_name m) len in
      max (length name + 1) (length name + 1 + (len + 1 - (length name + 1))))"

type_synonym conflict_state = "nat \<times> (slice \<rightharpoonup> method_id) \<times> (slice \<rightharpoonup> unit)"

text \<open>One entry of a superinterface table in the search for conflicts.\<close>

definition discover :: "class_table \<Rightarrow> itable_method_t \<Rightarrow> conflict_state \<Rightarrow> conflict_state" where
  "discover ct ref = (\<lambda>(len, discovered, ambiguous).
     let underlying = im_method ref in
     if \<not> access_set (rc_access_flags (ct (fst underlying))) ACCESS_INTERFACE then (len, discovered, ambiguous)
     else case identify len (get_method ct underlying) of
            (ident, len) \<Rightarrow>
              (case discovered ident of
                 Some existing \<Rightarrow>
                   if existing \<noteq> underlying \<or> im_ambiguous ref
                   then (len, discovered, ambiguous(ident \<mapsto> ()))
                   else (len, discovered, ambiguous)
               | None \<Rightarrow>
                   if im_ambiguous ref then (len, discovered, ambiguous(ident \<mapsto> ()))
                   else (len, discovered(ident \<mapsto> underlying), ambiguous)))"

text \<open>The superinterfaces, then the superclass.\<close>

definition super_itables :: "class_table \<Rightarrow> class_id \<Rightarrow> class_id \<Rightarrow> itable list" where
  "super_itables ct super c =
     concat (map (\<lambda>i. rc_itables (ct i)) (rc_interfaces (ct c) @ [super]))"

definition conflicts :: "class_table \<Rightarrow> class_id \<Rightarrow> class_id \<Rightarrow> slice \<rightharpoonup> unit" where
  "conflicts ct super c =
     snd (snd (fold (discover ct) (concat (map it_methods (super_itables ct super c)))
       (1024, Map.empty, Map.empty)))"

text \<open>One iteration of the loop of \<open>merge_itable\<close>.\<close>

definition merge_entry ::
    "class_table \<Rightarrow> nat \<Rightarrow> (slice \<rightharpoonup> unit) \<Rightarrow> class_id \<Rightarrow> nat \<Rightarrow> itable_method_t \<Rightarrow> itable_method_t \<Rightarrow>
       (nat \<times> itable_method_t) option" where
  "merge_entry ct n poisoned c len d s =
     (let d_abs = access_set (m_access_flags (get_method ct (im_method d))) ACCESS_ABSTRACT;
          result = (if d_abs \<or> d = s then s else d);
          d_method = get_method ct (im_method d)
      in case identify len d_method of
           (identifier, len) \<Rightarrow>
             let result = (if poisoned identifier \<noteq> None then mark_ambiguous result else result) in
             case method_lookup ct n c (m_name d_method) (Some (m_unparsed_descriptor d_method)) True False of
               None \<Rightarrow> None
             | Some maybe_overrides \<Rightarrow>
                 Some (len, if method_overrides ct maybe_overrides (im_method d)
                            then make_itable_method ct (the maybe_overrides) else result))"

fun merge_entries ::
    "class_table \<Rightarrow> nat \<Rightarrow> (slice \<rightharpoonup> unit) \<Rightarrow> class_id \<Rightarrow> nat \<Rightarrow> itable_method_t list \<Rightarrow> itable_method_t list \<Rightarrow>
       itable_method_t list option" where
  "merge_entries ct n poisoned c len (d # ds) (s # ss) =
     (case merge_entry ct n poisoned c len d s of
        None \<Rightarrow> None
      | Some (len, e) \<Rightarrow> map_option (\<lambda>es. e # es) (merge_entries ct n poisoned c len ds ss))"
| "merge_entries ct n poisoned c len ds ss = Some ds"

definition merge_itable :: "class_table \<Rightarrow> nat \<Rightarrow> (slice \<rightharpoonup> unit) \<Rightarrow> class_id \<Rightarrow> itable \<Rightarrow> itable \<Rightarrow> itable option" where
  "merge_itable ct n poisoned c dst src =
     map_option (\<lambda>ms. dst\<lparr>it_methods := ms\<rparr>)
       (merge_entries ct n poisoned c 1024 (it_methods dst) (it_methods src))"

fun find_itable :: "itable list \<Rightarrow> nat \<Rightarrow> class_id \<Rightarrow> nat option" where
  "find_itable [] k i = None"
| "find_itable (t # ts) k i = (if it_interface t = i then Some k else find_itable ts (Suc k) i)"

text \<open>One superinterface table: merge it with what the class has, or with a copy of itself.\<close>

definition merge_into ::
    "class_table \<Rightarrow> nat \<Rightarrow> (slice \<rightharpoonup> unit) \<Rightarrow> class_id \<Rightarrow> itable \<Rightarrow> itable list option \<Rightarrow> itable list option" where
  "merge_into ct n poisoned c src tables =
     (case tables of
        None \<Rightarrow> None
      | Some ts \<Rightarrow>
          let ts' = (case find_itable ts 0 (it_interface src) of Some _ \<Rightarrow> ts | None \<Rightarrow> ts @ [src]);
              k = (case find_itable ts 0 (it_interface src) of Some k \<Rightarrow> k | None \<Rightarrow> length ts)
          in map_option (\<lambda>t. ts'[k := t]) (merge_itable ct n poisoned c (ts' ! k) src))"

definition setup_itables :: "class_table \<Rightarrow> nat \<Rightarrow> class_id \<Rightarrow> class_id \<Rightarrow> itable list option" where
  "setup_itables ct n super c =
     fold (merge_into ct n (conflicts ct super c) c) (super_itables ct super c) (Some [])"

text \<open>The table of the class itself if it is an interface.\<close>

definition add_own_method :: "class_id \<Rightarrow> nat \<Rightarrow> class_table \<times> itable_method_t list \<Rightarrow> class_table \<times> itable_method_t list" where
  "add_own_method c i = (\<lambda>(ct, ms).
     if itable_include (get_method ct (c, i))
     then (update_method (c, i) (\<lambda>x. x\<lparr>itable_index := length ms\<rparr>) ct, ms @ [make_itable_method ct (c, i)])
     else (ct, ms))"

definition own_itable :: "class_id \<Rightarrow> class_table \<Rightarrow> class_table" where
  "own_itable c ct =
     (if access_set (rc_access_flags (ct c)) ACCESS_INTERFACE
      then case fold (add_own_method c) [0..<length (rc_methods (ct c))] (ct, []) of
             (ct, ms) \<Rightarrow> ct(c := (ct c)\<lparr>rc_itables := rc_itables (ct c) @ [\<lparr>it_interface = c, it_methods = ms\<rparr>]\<rparr>)
      else ct)"

definition set_up_function_tables :: "nat \<Rightarrow> class_id \<Rightarrow> class_table \<Rightarrow> class_table option" where
  "set_up_function_tables n c ct =
     (case rc_super (ct c) of
        None \<Rightarrow> Some (extend_vtable c (own_itable c ct))
      | Some s \<Rightarrow>
          let ct = inherit_vtable c ct in
          case setup_itables ct n s c of
            None \<Rightarrow> None
          | Some ts \<Rightarrow> Some (extend_vtable c (own_itable c (ct(c := (ct c)\<lparr>rc_itables := ts\<rparr>)))))"

section \<open>Lookup in the tables\<close>

definition vtable_lookup :: "class_table \<Rightarrow> class_id \<Rightarrow> nat \<Rightarrow> method_id" where
  "vtable_lookup ct c index = rc_vtable (ct c) ! index"

definition itable_lookup :: "class_table \<Rightarrow> class_id \<Rightarrow> class_id \<Rightarrow> nat \<Rightarrow> method_id option" where
  "itable_lookup ct c iface index =
     (case find_itable (rc_itables (ct c)) 0 iface of
        None \<Rightarrow> None
      | Some k \<Rightarrow>
          let m = it_methods (rc_itables (ct c) ! k) ! index in
          if im_invalid m then None else Some (im_method m))"

section \<open>What the class file says of a method\<close>

text \<open>Names, descriptors and flags are not touched when the tables are built: the part of a method
  that comes from the class file is \<open>cp_method.truncate\<close>.\<close>

lemma candidate_truncate:
  "method_candidate_matches (cp_method.truncate m) name desc = method_candidate_matches m name desc"
  by (cases desc) (simp_all add: method_candidate_matches_def cp_method.truncate_def)

lemma truncate_sig:
  assumes "cp_method.truncate m = cp_method.truncate m'"
  shows "m_name m = m_name m'" "m_unparsed_descriptor m = m_unparsed_descriptor m'"
    "m_access_flags m = m_access_flags m'" "m_is_ctor m = m_is_ctor m'" "m_is_clinit m = m_is_clinit m'"
    "m_is_signature_polymorphic m = m_is_signature_polymorphic m'"
  using assms by (simp_all add: cp_method.truncate_def)

lemma itable_include_truncate:
  "cp_method.truncate m = cp_method.truncate m' \<Longrightarrow> itable_include m = itable_include m'"
  using truncate_sig(3-5) [of m m'] by (simp add: itable_include_def)

lemma find_method_truncate:
  "map cp_method.truncate ms = map cp_method.truncate ms' \<Longrightarrow> find_method ms k name desc = find_method ms' k name desc"
proof (induction ms arbitrary: ms' k)
  case (Cons m ms)
  then obtain m' ms'' where "ms' = m' # ms''" "cp_method.truncate m = cp_method.truncate m'"
    "map cp_method.truncate ms = map cp_method.truncate ms''" by (cases ms') auto
  then show ?case using Cons.IH candidate_truncate [of m name desc] candidate_truncate [of m' name desc] by simp
qed simp

lemma find_method_Some:
  "find_method ms k name desc = Some i \<Longrightarrow> k \<le> i \<and> i - k < length ms \<and> method_candidate_matches (ms ! (i - k)) name desc"
proof (induction ms arbitrary: k)
  case (Cons m ms)
  show ?case
  proof (cases "method_candidate_matches m name desc")
    case False
    then have i: "Suc k \<le> i" "i - Suc k < length ms" "method_candidate_matches (ms ! (i - Suc k)) name desc"
      using Cons.IH [of "Suc k"] Cons.prems by auto
    then have "i - k = Suc (i - Suc k)" by simp
    then show ?thesis using i by simp
  qed (use Cons.prems in simp)
qed simp

section \<open>The shape of the virtual method table\<close>

text \<open>What stands in the table of \<open>c\<close> where its superclass has \<open>m\<close>.\<close>

definition dispatch :: "class_table \<Rightarrow> class_id \<Rightarrow> method_id \<Rightarrow> method_id" where
  "dispatch ct c m =
     (case declared_method ct c (get_method ct m) of
        Some r \<Rightarrow> if method_overrides ct (Some r) m then r else m
      | None \<Rightarrow> m)"

text \<open>Every method in the table records an index at which the table has it.\<close>

definition vtable_wf :: "class_table \<Rightarrow> class_id \<Rightarrow> bool" where
  "vtable_wf ct c =
     (\<forall>m \<in> set (rc_vtable (ct c)). snd m < length (rc_methods (ct (fst m))) \<and>
        vtable_index (get_method ct m) < length (rc_vtable (ct c)) \<and>
        rc_vtable (ct c) ! vtable_index (get_method ct m) = m)"

text \<open>The class tables agree but for the class \<open>c\<close>, and there in what the class file says.\<close>

definition same_sigs :: "class_id \<Rightarrow> class_table \<Rightarrow> class_table \<Rightarrow> bool" where
  "same_sigs c ct ct' =
     ((\<forall>d. d \<noteq> c \<longrightarrow> ct' d = ct d) \<and> rc_name (ct' c) = rc_name (ct c) \<and> rc_super (ct' c) = rc_super (ct c) \<and>
      map cp_method.truncate (rc_methods (ct' c)) = map cp_method.truncate (rc_methods (ct c)))"

lemma same_sigs_refl [simp]: "same_sigs c ct ct"
  by (simp add: same_sigs_def)

lemma same_sigs_trans: "same_sigs c ct ct' \<Longrightarrow> same_sigs c ct' ct'' \<Longrightarrow> same_sigs c ct ct''"
  by (simp add: same_sigs_def)

lemma same_sigs_length: "same_sigs c ct ct' \<Longrightarrow> length (rc_methods (ct' d)) = length (rc_methods (ct d))"
  by (cases "d = c") (auto simp: same_sigs_def dest: map_eq_imp_length_eq)

lemma same_sigs_method:
  assumes "same_sigs c ct ct'" and "snd m < length (rc_methods (ct (fst m)))"
  shows "cp_method.truncate (get_method ct' m) = cp_method.truncate (get_method ct m)"
proof (cases "fst m = c")
  case True
  have l: "length (rc_methods (ct' c)) = length (rc_methods (ct c))" using same_sigs_length [OF assms(1)] .
  have "map cp_method.truncate (rc_methods (ct' c)) ! snd m = map cp_method.truncate (rc_methods (ct c)) ! snd m"
    using assms(1) by (simp add: same_sigs_def)
  then show ?thesis using assms(2) True l by (simp add: get_method_def)
next
  case False
  then show ?thesis using assms(1) by (simp add: same_sigs_def get_method_def)
qed

lemma same_sigs_other: "same_sigs c ct ct' \<Longrightarrow> fst m \<noteq> c \<Longrightarrow> get_method ct' m = get_method ct m"
  by (simp add: same_sigs_def get_method_def)

lemma declared_method_sigs:
  assumes "same_sigs c ct ct'"
  shows "declared_method ct' c m = declared_method ct c m"
  using find_method_truncate [of "rc_methods (ct' c)" "rc_methods (ct c)"] assms
  by (simp add: declared_method_def same_sigs_def)

lemma declared_method_valid:
  "declared_method ct c m = Some r \<Longrightarrow> fst r = c \<and> snd r < length (rc_methods (ct c))"
  by (auto simp: declared_method_def dest!: find_method_Some)

lemma method_overrides_sigs:
  assumes "same_sigs c ct ct'" and "snd r < length (rc_methods (ct (fst r)))"
  shows "method_overrides ct' (Some r) m = method_overrides ct (Some r) m"
proof -
  have "rc_name (ct' d) = rc_name (ct d)" for d using assms(1) by (cases "d = c") (auto simp: same_sigs_def)
  then have "same_runtime_package (ct' d) (ct' e) = same_runtime_package (ct d) (ct e)" for d e
    unfolding same_runtime_package_def by metis
  then show ?thesis using truncate_sig(3) [OF same_sigs_method [OF assms]] by (simp add: method_overrides_def)
qed

lemma update_method_sigs:
  assumes "\<And>x. cp_method.truncate (f x) = cp_method.truncate x"
  shows "same_sigs (fst m) ct (update_method m f ct)"
proof -
  have "map cp_method.truncate (ms[i := f (ms ! i)]) = map cp_method.truncate ms" for i ms
    using assms by (cases "i < length ms") (simp_all add: list_eq_iff_nth_eq nth_list_update list_update_beyond)
  then show ?thesis by (simp add: same_sigs_def update_method_def get_method_def)
qed

lemma push_vtable_sigs: "same_sigs c ct (push_vtable c m ct)"
  by (simp add: same_sigs_def push_vtable_def)

text \<open>The state after the entries \<open>processed\<close> of the superclass table.\<close>

definition inherit_inv :: "class_id \<Rightarrow> class_table \<Rightarrow> class_table \<Rightarrow> method_id list \<Rightarrow> bool" where
  "inherit_inv c ct0 ct processed =
     (same_sigs c ct0 ct \<and> rc_vtable (ct c) = map (dispatch ct0 c) processed \<and>
      (\<forall>i < length (rc_methods (ct0 c)).
         if (c, i) \<in> dispatch ct0 c ` set processed
         then m_overrides (get_method ct (c, i)) \<and>
              (\<exists>m \<in> set processed. dispatch ct0 c m = (c, i) \<and>
                 vtable_index (get_method ct (c, i)) = vtable_index (get_method ct0 m))
         else \<not> m_overrides (get_method ct (c, i))))"

lemma get_method_push [simp]: "get_method (push_vtable c m ct) r = get_method ct r"
  by (simp add: get_method_def push_vtable_def)

lemma get_method_update:
  "snd m < length (rc_methods (ct (fst m))) \<Longrightarrow>
     get_method (update_method m f ct) r = (if r = m then f (get_method ct m) else get_method ct r)"
  by (cases m; cases r) (auto simp: get_method_def update_method_def)

lemma inherit_method_eq:
  assumes "same_sigs c ct0 ct" and "fst m \<noteq> c"
  shows "inherit_method c m ct = push_vtable c (dispatch ct0 c m)
    (if fst (dispatch ct0 c m) = c
     then update_method (dispatch ct0 c m) (\<lambda>x. x\<lparr>vtable_index := vtable_index (get_method ct0 m), m_overrides := True\<rparr>) ct
     else ct)"
proof (cases "declared_method ct0 c (get_method ct0 m)")
  case None
  then show ?thesis using assms(2)
    by (simp add: inherit_method_def dispatch_def same_sigs_other [OF assms] declared_method_sigs [OF assms(1)])
next
  case (Some r)
  then have r: "fst r = c" "snd r < length (rc_methods (ct0 c))" using declared_method_valid [OF Some] by auto
  then have "method_overrides ct (Some r) m = method_overrides ct0 (Some r) m"
    using method_overrides_sigs [OF assms(1)] by simp
  then show ?thesis using assms(2) r Some
    by (simp add: inherit_method_def dispatch_def same_sigs_other [OF assms] declared_method_sigs [OF assms(1)])
qed

lemma dispatch_own:
  assumes "fst (dispatch ct c m) = c" and "fst m \<noteq> c"
  shows "snd (dispatch ct c m) < length (rc_methods (ct c))"
  using assms declared_method_valid [of ct c "get_method ct m"]
  by (auto simp: dispatch_def split: option.splits if_splits)

lemma vtable_of_update [simp]: "rc_vtable (update_method m f ct c) = rc_vtable (ct c)"
  by (simp add: update_method_def)

lemma inherit_step:
  assumes inv: "inherit_inv c ct0 ct processed" and "fst m \<noteq> c"
  shows "inherit_inv c ct0 (inherit_method c m ct) (processed @ [m])"
proof -
  let ?r = "dispatch ct0 c m"
  let ?f = "\<lambda>x. x\<lparr>vtable_index := vtable_index (get_method ct0 m), m_overrides := True\<rparr>"
  have sig: "same_sigs c ct0 ct" using inv by (simp add: inherit_inv_def)
  note eq = inherit_method_eq [OF sig assms(2)]
  show ?thesis
  proof (cases "fst ?r = c")
    case False
    then have r: "(c, i) \<noteq> ?r" for i by (metis fst_conv)
    have "same_sigs c ct0 (inherit_method c m ct)" using same_sigs_trans [OF sig push_vtable_sigs] False by (simp add: eq)
    moreover have "get_method (inherit_method c m ct) x = get_method ct x" for x using False by (simp add: eq)
    moreover have "rc_vtable (inherit_method c m ct c) = map (dispatch ct0 c) (processed @ [m])"
      using inv False by (simp add: eq inherit_inv_def push_vtable_def)
    ultimately show ?thesis using inv r unfolding inherit_inv_def by auto
  next
    case True
    have r: "snd ?r < length (rc_methods (ct (fst ?r)))"
      using dispatch_own [OF True assms(2)] same_sigs_length [OF sig, of c] True by simp
    have "same_sigs c ct (update_method ?r ?f ct)"
      using update_method_sigs [of ?f ?r ct] True by (simp add: cp_method.truncate_def)
    then have s: "same_sigs c ct0 (push_vtable c ?r (update_method ?r ?f ct))"
      using same_sigs_trans [OF same_sigs_trans [OF sig]] push_vtable_sigs by blast
    have g: "get_method (inherit_method c m ct) x = (if x = ?r then ?f (get_method ct ?r) else get_method ct x)" for x
      using get_method_update [of ?r ct ?f x, OF r] True by (simp add: eq)
    have v: "rc_vtable (inherit_method c m ct c) = map (dispatch ct0 c) (processed @ [m])"
      using inv True by (simp add: eq inherit_inv_def push_vtable_def)
    show ?thesis unfolding inherit_inv_def
    proof (intro conjI allI impI)
      show "same_sigs c ct0 (inherit_method c m ct)" using s True by (simp add: eq)
      show "rc_vtable (inherit_method c m ct c) = map (dispatch ct0 c) (processed @ [m])" by (rule v)
      fix i assume i: "i < length (rc_methods (ct0 c))"
      show "if (c, i) \<in> dispatch ct0 c ` set (processed @ [m])
        then m_overrides (get_method (inherit_method c m ct) (c, i)) \<and>
             (\<exists>m' \<in> set (processed @ [m]). dispatch ct0 c m' = (c, i) \<and>
                vtable_index (get_method (inherit_method c m ct) (c, i)) = vtable_index (get_method ct0 m'))
        else \<not> m_overrides (get_method (inherit_method c m ct) (c, i))"
      proof (cases "(c, i) = ?r")
        case True
        then show ?thesis by (auto simp: g)
      next
        case False
        then show ?thesis using inv i by (auto simp: g inherit_inv_def)
      qed
    qed
  qed
qed

lemma inherit_fold:
  assumes "inherit_inv c ct0 ct processed" and "\<forall>m \<in> set ms. fst m \<noteq> c"
  shows "inherit_inv c ct0 (fold (inherit_method c) ms ct) (processed @ ms)"
  using assms
proof (induction ms arbitrary: ct processed)
  case (Cons m ms)
  then show ?case using inherit_step [of c ct0 ct processed m] by fastforce
qed simp

text \<open>The table that the loop over the superclass table leaves is well formed.\<close>

lemma inherited_index:
  assumes inv: "inherit_inv c ct0 ct (rc_vtable (ct0 s))" and wf: "vtable_wf ct0 s"
    and own: "\<forall>m \<in> set (rc_vtable (ct0 s)). fst m \<noteq> c" and m: "m \<in> set (rc_vtable (ct c))"
  shows "snd m < length (rc_methods (ct (fst m))) \<and> vtable_index (get_method ct m) < length (rc_vtable (ct c)) \<and>
    rc_vtable (ct c) ! vtable_index (get_method ct m) = m"
proof -
  let ?vt = "rc_vtable (ct0 s)"
  have vt: "rc_vtable (ct c) = map (dispatch ct0 c) ?vt" and sig: "same_sigs c ct0 ct"
    using inv by (simp_all add: inherit_inv_def)
  obtain m0 where m0: "m0 \<in> set ?vt" "m = dispatch ct0 c m0" using m vt by auto
  have nth: "vtable_index (get_method ct0 x) < length ?vt \<and> ?vt ! vtable_index (get_method ct0 x) = x \<and>
    snd x < length (rc_methods (ct0 (fst x)))" if "x \<in> set ?vt" for x
    using wf that by (auto simp: vtable_wf_def)
  show ?thesis
  proof (cases "fst m = c")
    case True
    then have c: "m = (c, snd m)" by (metis prod.collapse)
    have i: "snd m < length (rc_methods (ct0 c))"
      using dispatch_own [of ct0 c m0] True m0 own by simp
    have "(c, snd m) \<in> dispatch ct0 c ` set ?vt" using m0 c by auto
    then obtain x where x: "x \<in> set ?vt" "dispatch ct0 c x = m"
      "vtable_index (get_method ct m) = vtable_index (get_method ct0 x)"
      using inv i c unfolding inherit_inv_def by metis
    then show ?thesis using nth [OF x(1)] i same_sigs_length [OF sig, of c] vt True by simp
  next
    case False
    have "m = m0" using False m0 declared_method_valid [of ct0 c "get_method ct0 m0"]
      by (auto simp: dispatch_def split: option.splits if_splits)
    moreover from this have "get_method ct m = get_method ct0 m0" using same_sigs_other [OF sig False] by simp
    ultimately show ?thesis using nth [OF m0(1)] m0(2) vt same_sigs_length [OF sig] by simp
  qed
qed

text \<open>Adding the other methods.\<close>

definition extend_inv :: "class_id \<Rightarrow> class_table \<Rightarrow> class_table \<Rightarrow> nat \<Rightarrow> bool" where
  "extend_inv c ct0 ct k =
     (same_sigs c ct0 ct \<and> vtable_wf ct c \<and> (\<exists>new. rc_vtable (ct c) = rc_vtable (ct0 c) @ new) \<and>
      (\<forall>i < k. itable_include (get_method ct0 (c, i)) \<and> (m_overrides (get_method ct0 (c, i)) \<longrightarrow> (c, i) \<in> set (rc_vtable (ct0 c)))
         \<longrightarrow> (c, i) \<in> set (rc_vtable (ct c))) \<and>
      (\<forall>i. k \<le> i \<longrightarrow> get_method ct (c, i) = get_method ct0 (c, i) \<and> ((c, i) \<in> set (rc_vtable (ct c)) \<longrightarrow> (c, i) \<in> set (rc_vtable (ct0 c)))))"

lemma vtable_wf_push:
  assumes wf: "vtable_wf ct c" and i: "i < length (rc_methods (ct c))" and new: "(c, i) \<notin> set (rc_vtable (ct c))"
  shows "vtable_wf (push_vtable c (c, i) (update_method (c, i) (\<lambda>x. x\<lparr>vtable_index := length (rc_vtable (ct c))\<rparr>) ct)) c"
proof -
  define ct' where "ct' = push_vtable c (c, i) (update_method (c, i) (\<lambda>x. x\<lparr>vtable_index := length (rc_vtable (ct c))\<rparr>) ct)"
  have v: "rc_vtable (ct' c) = rc_vtable (ct c) @ [(c, i)]" by (simp add: ct'_def push_vtable_def)
  have g: "get_method ct' r = (if r = (c, i) then (get_method ct r)\<lparr>vtable_index := length (rc_vtable (ct c))\<rparr>
    else get_method ct r)" for r
    using get_method_update [of "(c, i)" ct "\<lambda>x. x\<lparr>vtable_index := length (rc_vtable (ct c))\<rparr>" r] i by (simp add: ct'_def)
  have l: "length (rc_methods (ct' d)) = length (rc_methods (ct d))" for d
    by (simp add: ct'_def push_vtable_def update_method_def)
  have "vtable_wf ct' c" unfolding vtable_wf_def
  proof
    fix m assume "m \<in> set (rc_vtable (ct' c))"
    then consider "m = (c, i)" | "m \<in> set (rc_vtable (ct c))" "m \<noteq> (c, i)" using v by auto
    then show "snd m < length (rc_methods (ct' (fst m))) \<and> vtable_index (get_method ct' m) < length (rc_vtable (ct' c)) \<and>
      rc_vtable (ct' c) ! vtable_index (get_method ct' m) = m"
    proof cases
      case 1
      then show ?thesis using i by (simp add: g v l)
    next
      case 2
      then show ?thesis using wf by (auto simp: g v l vtable_wf_def nth_append)
    qed
  qed
  then show ?thesis by (simp add: ct'_def)
qed

lemma extend_step:
  assumes inv: "extend_inv c ct0 ct k" and k: "k < length (rc_methods (ct0 c))"
    and marked: "\<And>i. (c, i) \<in> set (rc_vtable (ct0 c)) \<Longrightarrow> m_overrides (get_method ct0 (c, i))"
  shows "extend_inv c ct0 (add_method c k ct) (Suc k)"
proof -
  have sig: "same_sigs c ct0 ct" and wf: "vtable_wf ct c" and g: "get_method ct (c, k) = get_method ct0 (c, k)"
    using inv by (auto simp: extend_inv_def)
  let ?f = "\<lambda>x. x\<lparr>vtable_index := length (rc_vtable (ct c))\<rparr>"
  have len: "k < length (rc_methods (ct c))" using k same_sigs_length [OF sig, of c] by simp
  show ?thesis
  proof (cases "vtable_include (get_method ct (c, k))")
    case False
    then have "itable_include (get_method ct0 (c, k)) \<Longrightarrow> m_overrides (get_method ct0 (c, k))"
      using g by (auto simp: vtable_include_def itable_include_def)
    then show ?thesis using inv False by (auto simp: extend_inv_def add_method_def less_Suc_eq)
  next
    case True
    define ct' where "ct' = push_vtable c (c, k) (update_method (c, k) ?f ct)"
    have new: "(c, k) \<notin> set (rc_vtable (ct c))"
      using inv True marked [of k] g by (auto simp: extend_inv_def vtable_include_def)
    have s: "same_sigs c ct0 ct'"
      using same_sigs_trans [OF same_sigs_trans [OF sig] push_vtable_sigs] update_method_sigs [of ?f "(c, k)" ct]
      by (simp add: cp_method.truncate_def ct'_def)
    have v: "rc_vtable (ct' c) = rc_vtable (ct c) @ [(c, k)]" by (simp add: push_vtable_def ct'_def)
    have gm: "get_method ct' r = (if r = (c, k) then ?f (get_method ct r) else get_method ct r)" for r
      using get_method_update [of "(c, k)" ct ?f r] len by (simp add: ct'_def)
    have "add_method c k ct = ct'" using True by (simp add: add_method_def ct'_def)
    moreover have "vtable_wf ct' c" using vtable_wf_push [OF wf len new] by (simp add: ct'_def)
    moreover obtain new where "rc_vtable (ct c) = rc_vtable (ct0 c) @ new" using inv by (auto simp: extend_inv_def)
    ultimately show ?thesis using inv s unfolding extend_inv_def by (auto simp: v gm less_Suc_eq)
  qed
qed

lemma extend_fold:
  assumes "extend_inv c ct0 ct0 0" and "k \<le> length (rc_methods (ct0 c))"
    and "\<And>i. (c, i) \<in> set (rc_vtable (ct0 c)) \<Longrightarrow> m_overrides (get_method ct0 (c, i))"
  shows "extend_inv c ct0 (fold (add_method c) [0..<k] ct0) k"
  using assms(2) by (induction k) (auto intro: extend_step assms)

text \<open>The interface tables do not interfere.\<close>

definition same_vtables :: "class_id \<Rightarrow> class_table \<Rightarrow> class_table \<Rightarrow> bool" where
  "same_vtables c ct ct' =
     (same_sigs c ct ct' \<and> rc_vtable (ct' c) = rc_vtable (ct c) \<and>
      (\<forall>r. vtable_index (get_method ct' r) = vtable_index (get_method ct r) \<and>
           m_overrides (get_method ct' r) = m_overrides (get_method ct r)))"

lemma own_fold_keeps:
  assumes "same_vtables c ct0 (fst s)" and "\<forall>i \<in> set is. i < length (rc_methods (ct0 c))"
  shows "same_vtables c ct0 (fst (fold (add_own_method c) is s))"
  using assms
proof (induction "is" arbitrary: s)
  case (Cons i "is")
  obtain ct ms where s: "s = (ct, ms)" by (cases s)
  let ?f = "\<lambda>x. x\<lparr>itable_index := length ms\<rparr>"
  have sig: "same_sigs c ct0 ct" using Cons.prems(1) s by (simp add: same_vtables_def)
  have i: "snd (c, i) < length (rc_methods (ct (fst (c, i))))"
    using Cons.prems(2) same_sigs_length [OF sig, of c] by simp
  have "same_sigs c ct0 (update_method (c, i) ?f ct)"
    using same_sigs_trans [OF sig] update_method_sigs [of ?f "(c, i)" ct] by (simp add: cp_method.truncate_def)
  then have "same_vtables c ct0 (update_method (c, i) ?f ct)"
    using Cons.prems(1) s get_method_update [of "(c, i)" ct ?f, OF i] by (auto simp: same_vtables_def)
  then have "same_vtables c ct0 (fst (add_own_method c i s))"
    using Cons.prems(1) s by (auto simp: add_own_method_def)
  then show ?case using Cons.IH Cons.prems(2) by simp
qed simp

lemma own_itable_keeps: "same_vtables c ct (own_itable c ct)"
proof -
  let ?r = "fold (add_own_method c) [0..<length (rc_methods (ct c))] (ct, [])"
  have "same_vtables c ct (fst ?r)"
    by (rule own_fold_keeps) (auto simp: same_vtables_def)
  then have "same_vtables c ct ((fst ?r)(c := (fst ?r c)\<lparr>rc_itables := t\<rparr>))" for t
    by (simp add: same_vtables_def same_sigs_def get_method_def)
  then show ?thesis by (simp add: own_itable_def case_prod_beta) (simp add: same_vtables_def)
qed

lemma same_vtables_itables: "same_vtables c ct (ct(c := (ct c)\<lparr>rc_itables := ts\<rparr>))"
  by (simp add: same_vtables_def same_sigs_def get_method_def)

lemma same_vtables_trans: "same_vtables c ct ct' \<Longrightarrow> same_vtables c ct' ct'' \<Longrightarrow> same_vtables c ct ct''"
  using same_sigs_trans by (auto simp: same_vtables_def)

lemma vtable_wf_same:
  assumes "same_vtables c ct ct'" and "vtable_wf ct c"
  shows "vtable_wf ct' c"
proof -
  have "same_sigs c ct ct'" using assms(1) by (simp add: same_vtables_def)
  from same_sigs_length [OF this] show ?thesis using assms by (auto simp: same_vtables_def vtable_wf_def)
qed

section \<open>Properties\<close>

text \<open>C6: Virtual dispatch. If the table of the superclass is well formed (every method in it records
  an index at which the table has it), so is the table of a class after its tables have been set
  up; it keeps the layout of the superclass, with each inherited method replaced exactly where the
  class declares a method of the same name and descriptor that passes the test for overriding; and
  every instance method of the class is in the table, at the index recorded for it.\<close>

theorem vtable_dispatch:
  assumes set_up: "set_up_function_tables n c ct = Some ct'" and super: "rc_super (ct c) = Some s"
    and wf: "vtable_wf ct s" and own: "\<forall>m \<in> set (rc_vtable (ct s)). fst m \<noteq> c"
    and fresh: "rc_vtable (ct c) = []" "\<forall>m \<in> set (rc_methods (ct c)). \<not> m_overrides m"
  shows "vtable_wf ct' c \<and>
    (\<forall>k < length (rc_vtable (ct s)). vtable_lookup ct' c k = dispatch ct c (vtable_lookup ct s k)) \<and>
    (\<forall>i < length (rc_methods (ct c)). itable_include (get_method ct (c, i)) \<longrightarrow>
       vtable_lookup ct' c (vtable_index (get_method ct' (c, i))) = (c, i))"
proof -
  define ct1 where "ct1 = inherit_vtable c ct"
  obtain ts where ct': "ct' = extend_vtable c (own_itable c (ct1(c := (ct1 c)\<lparr>rc_itables := ts\<rparr>)))"
    using set_up super by (auto simp: set_up_function_tables_def ct1_def Let_def split: option.splits)
  define ct2 where "ct2 = own_itable c (ct1(c := (ct1 c)\<lparr>rc_itables := ts\<rparr>))"
  have "inherit_inv c ct ct []"
    using fresh by (auto simp: inherit_inv_def get_method_def dest: nth_mem)
  then have inh: "inherit_inv c ct ct1 (rc_vtable (ct s))"
    using inherit_fold [of c ct ct "[]" "rc_vtable (ct s)"] own super by (simp add: ct1_def inherit_vtable_def)
  then have sig1: "same_sigs c ct ct1" and vt1: "rc_vtable (ct1 c) = map (dispatch ct c) (rc_vtable (ct s))"
    by (simp_all add: inherit_inv_def)
  have same: "same_vtables c ct1 ct2"
    unfolding ct2_def by (rule same_vtables_trans [OF same_vtables_itables own_itable_keeps])
  have wf1: "vtable_wf ct1 c" using inherited_index [OF inh wf own] by (simp add: vtable_wf_def)
  have sig2: "same_sigs c ct ct2" and vt2: "rc_vtable (ct2 c) = map (dispatch ct c) (rc_vtable (ct s))"
    using same_sigs_trans [OF sig1] same vt1 by (simp_all add: same_vtables_def)
  have wf2: "vtable_wf ct2 c" by (rule vtable_wf_same [OF same wf1])
  have marked: "m_overrides (get_method ct2 (c, i)) = ((c, i) \<in> set (rc_vtable (ct2 c)))"
    if "i < length (rc_methods (ct c))" for i
    using inh that same vt2 unfolding inherit_inv_def same_vtables_def by (metis set_map)
  have valid: "i < length (rc_methods (ct c))" if "(c, i) \<in> set (rc_vtable (ct2 c))" for i
    using wf2 that same_sigs_length [OF sig2, of c] by (auto simp: vtable_wf_def)
  have "ct' = fold (add_method c) [0..<length (rc_methods (ct2 c))] ct2"
    by (simp add: ct' ct2_def extend_vtable_def)
  moreover have "extend_inv c ct2 ct2 0" using wf2 by (simp add: extend_inv_def)
  ultimately have "extend_inv c ct2 ct' (length (rc_methods (ct2 c)))"
    using extend_fold [of c ct2 "length (rc_methods (ct2 c))"] marked valid by simp
  then obtain new where new: "rc_vtable (ct' c) = rc_vtable (ct2 c) @ new" and wf': "vtable_wf ct' c"
    and all: "\<And>i. i < length (rc_methods (ct c)) \<Longrightarrow> itable_include (get_method ct2 (c, i)) \<Longrightarrow>
      (m_overrides (get_method ct2 (c, i)) \<longrightarrow> (c, i) \<in> set (rc_vtable (ct2 c))) \<Longrightarrow> (c, i) \<in> set (rc_vtable (ct' c))"
    using same_sigs_length [OF sig2, of c] by (auto simp: extend_inv_def)
  have "(c, i) \<in> set (rc_vtable (ct' c))" if "i < length (rc_methods (ct c))" "itable_include (get_method ct (c, i))" for i
    using all [OF that(1)] marked [OF that(1)] that
      itable_include_truncate [OF same_sigs_method [OF sig2, of "(c, i)"]] by simp
  then show ?thesis using wf' new vt2 by (auto simp: vtable_wf_def vtable_lookup_def nth_append)
qed

lemma inherit_vtable_itables:
  "map rc_itables (map (inherit_vtable c ct) ds) = map rc_itables (map ct ds)"
proof -
  have "rc_itables (inherit_method c m t d) = rc_itables (t d)" for m t d
    by (auto simp: inherit_method_def Let_def push_vtable_def update_method_def split: option.split)
  then have "rc_itables (fold (inherit_method c) ms t d) = rc_itables (t d)" for ms t d
    by (induction ms arbitrary: t) simp_all
  then show ?thesis by (simp add: inherit_vtable_def split: option.split)
qed

theorem vtable_dispatch_witness:
  "\<exists>ct'. set_up_function_tables 2 1 (\<lambda>c. (example_class (if c = 0 then None else Some 0)
     [example_method ''f'' ''()V'' 1])\<lparr>rc_vtable := if c = 0 then [(0, 0)] else []\<rparr>) = Some ct' \<and>
   vtable_lookup ct' 1 0 = (1, 0)"
proof -
  define ms where "ms = [example_method ''f'' ''()V'' 1]"
  define ct where "ct = (\<lambda>c :: class_id. (example_class (if c = 0 then None else Some 0) ms)
    \<lparr>rc_vtable := if c = 0 then [(0, 0)] else []\<rparr>)"
  have ct: "rc_super (ct 1) = Some 0" "rc_vtable (ct 0) = [(0, 0)]" "rc_vtable (ct 1) = []"
    "rc_methods (ct c) = ms" "rc_itables (ct c) = []" "rc_interfaces (ct c) = []" for c
    by (simp_all add: ct_def example_class_def)
  have m: "method_candidate_matches (ms ! 0) (m_name (ms ! 0)) (Some (m_unparsed_descriptor (ms ! 0)))"
    "\<not> access_set (m_access_flags (ms ! 0)) ACCESS_PRIVATE"
    "access_set (m_access_flags (ms ! 0)) (ACCESS_PROTECTED OR ACCESS_PUBLIC)" "length ms = 1"
    "\<not> m_overrides (ms ! 0)" "vtable_index (ms ! 0) = 0"
    by (simp_all add: ms_def method_candidate_matches_def example_method_def access_set_def)
  have ms: "ms = [ms ! 0]" by (simp add: ms_def)
  have "rc_itables (inherit_vtable 1 ct d) = []" for d
    using inherit_vtable_itables [of 1 ct "[d]"] ct(5) by simp
  then have "super_itables (inherit_vtable 1 ct) 0 1 = []" by (simp add: super_itables_def)
  then obtain ct' where s: "set_up_function_tables 2 1 ct = Some ct'"
    using ct(1) by (simp add: set_up_function_tables_def setup_itables_def Let_def)
  have g: "get_method ct (c, 0) = ms ! 0" for c by (simp add: get_method_def ct(4))
  have "find_method ms 0 (m_name (ms ! 0)) (Some (m_unparsed_descriptor (ms ! 0))) = Some 0"
    by (subst ms) (simp add: m(1))
  then have "declared_method ct 1 (get_method ct (0, 0)) = Some (1, 0)"
    by (simp add: declared_method_def g ct(4))
  moreover have "method_overrides ct (Some (1, 0)) (0, 0)"
    using m(2,3) by (simp add: method_overrides_def g)
  ultimately have d: "dispatch ct 1 (0, 0) = (1, 0)" by (simp add: dispatch_def)
  have "vtable_wf ct 0" by (simp add: vtable_wf_def ct(2,4) g m(4,6))
  moreover have "\<forall>x \<in> set (rc_methods (ct 1)). \<not> m_overrides x" unfolding ct(4) by (subst ms) (simp add: m(5))
  ultimately have "\<forall>k < length (rc_vtable (ct 0)). vtable_lookup ct' 1 k = dispatch ct 1 (vtable_lookup ct 0 k)"
    using vtable_dispatch [OF s ct(1)] ct(2,3) by simp
  then have "vtable_lookup ct' 1 0 = (1, 0)" using ct(2) d by (simp add: vtable_lookup_def)
  then show ?thesis using s by (auto simp: ct_def ms_def)
qed

text \<open>The full identifier of a method.\<close>

definition full_identifier :: "'a cp_method_scheme \<Rightarrow> slice" where
  "full_identifier m = m_name m @ [CHR '':''] @ m_unparsed_descriptor m"

lemma identify_full:
  assumes "length (full_identifier m) \<le> len + 1"
  shows "identify len m = (full_identifier m, length (full_identifier m))"
  using assms by (simp add: identify_def stpncpy_def full_identifier_def Let_def)

lemma identify_extent_eq: "identify_extent len m = len + 1"
  by (simp add: identify_extent_def stpncpy_def Let_def)

text \<open>C35: \<open>identify\<close> leaves the length of one identifier as the size of the buffer for the next. With
  \<open>len\<close> bytes it returns the identifier \<open>name:descriptor\<close> if that has at most \<open>len + 1\<close> characters;
  otherwise it returns \<open>len + 1\<close> characters, which differ from the identifier, and the next call has
  one byte more. It always writes \<open>len + 1\<close> bytes. So after a method with a shorter identifier, two
  methods that differ late get cut to the same length, and after an identifier of more than 1024
  characters the next call writes behind the 1025 bytes of the buffer.\<close>

theorem identify_not_injective:
  assumes "identify 1024 m1 = (ident1, len1)" and "identify len1 m2 = (ident2, len2)"
  shows "(length (full_identifier m1) \<le> 1024 \<longrightarrow> ident1 = full_identifier m1) \<and>
    (length (full_identifier m2) \<le> len1 + 1 \<longrightarrow> ident2 = full_identifier m2 \<and> len2 = length ident2) \<and>
    (length (full_identifier m2) > len1 + 1 \<longrightarrow> ident2 \<noteq> full_identifier m2 \<and> length ident2 = len1 + 1 \<and> len2 = len1 + 1) \<and>
    (identify_extent len1 m2 > 1025 \<longleftrightarrow> length (full_identifier m1) > 1024)"
proof -
  have l: "length (fst (identify len m)) = min (len + 1) (length (full_identifier m))"
    "snd (identify len m) = length (fst (identify len m))" for len and m :: "'c cp_method_scheme"
    by (simp_all add: identify_def stpncpy_def full_identifier_def Let_def)
  have "len1 = min 1025 (length (full_identifier m1))" using l(1,2) [of 1024 m1] assms(1) by simp
  moreover have "length ident2 = min (len1 + 1) (length (full_identifier m2))" "len2 = length ident2"
    using l(1,2) [of len1 m2] assms(2) by simp_all
  ultimately show ?thesis using identify_full [of m1 1024] identify_full [of m2 len1] assms
    by (auto simp: identify_extent_eq)
qed

theorem identify_not_injective_witness:
  "snd (identify 1024 (example_method ''a'' ''()V'' 1)) = 5 \<and>
   fst (identify 5 (example_method ''foo'' ''(LString;)V'' 1)) \<noteq> full_identifier (example_method ''foo'' ''(LString;)V'' 1)"
proof -
  have 1: "identify 1024 (example_method ''a'' ''()V'' 1) = (''a:()V'', 5)"
    by (simp add: identify_def stpncpy_def example_method_def)
  have "length (full_identifier (example_method ''foo'' ''(LString;)V'' 1)) > 5 + 1"
    by (simp add: full_identifier_def example_method_def)
  then show ?thesis
    using identify_not_injective [OF 1, of "example_method ''foo'' ''(LString;)V'' 1"] 1 by (metis prod.collapse snd_conv)
qed

text \<open>A consequence: four default methods of one interface, with four different identifiers, and the
  class that implements it finds two of them ambiguous.\<close>

definition example_interface :: "rt_method list" where
  "example_interface = [example_method ''a'' ''()V'' 1, example_method ''foo'' ''(LString;)V'' 1,
     example_method ''b'' ''()V'' 1, example_method ''foo'' ''(LObject;)V'' 1]"

definition example_implements :: class_table where
  "example_implements c =
     (if c = 2 then (example_class (Some 0) example_interface)\<lparr>rc_access_flags := ACCESS_INTERFACE,
        rc_itables := [\<lparr>it_interface = 2, it_methods = map (\<lambda>i. \<lparr>im_method = (2, i), im_invalid = False,
          im_ambiguous = False\<rparr>) [0, 1, 2, 3]\<rparr>]\<rparr>
      else if c = 1 then (example_class (Some 0) [])\<lparr>rc_interfaces := [2]\<rparr>
      else example_class None [])"

lemma spurious_ambiguity:
  "distinct (map full_identifier example_interface) \<and> conflicts example_implements 0 1 ''foo:(L'' = Some ()"
proof
  show "distinct (map full_identifier example_interface)"
    by (simp add: example_interface_def full_identifier_def example_method_def)
  have t: "concat (map it_methods (super_itables example_implements 0 1)) =
    map (\<lambda>i. \<lparr>im_method = (2, i), im_invalid = False, im_ambiguous = False\<rparr>) [0, 1, 2, 3]"
    by (simp add: super_itables_def example_implements_def example_class_def)
  have f: "access_set (rc_access_flags (example_implements 2)) ACCESS_INTERFACE"
    by (simp add: example_implements_def access_set_def)
  have g: "get_method example_implements (2, i) = example_interface ! i" for i
    by (simp add: example_implements_def get_method_def example_class_def)
  show "conflicts example_implements 0 1 ''foo:(L'' = Some ()"
    unfolding conflicts_def t
    by (simp add: discover_def f g example_interface_def identify_def stpncpy_def example_method_def)
qed

text \<open>The test for overriding looks at the flags of the overriding method only, where the Java Virtual
  Machine Specification (5.4.5) looks at those of the overridden one: a public method replaces a
  private method of the superclass of the same name.\<close>

lemma private_overridden:
  assumes "access_set (m_access_flags (get_method ct r)) ACCESS_PUBLIC"
    and "\<not> access_set (m_access_flags (get_method ct r)) ACCESS_PRIVATE"
    and "declared_method ct c (get_method ct m) = Some r"
    and "access_set (m_access_flags (get_method ct m)) ACCESS_PRIVATE"
  shows "dispatch ct c m = r"
proof -
  have "access_set f ACCESS_PUBLIC \<Longrightarrow> access_set f (ACCESS_PROTECTED OR ACCESS_PUBLIC)" for f
    unfolding access_set_def by (metis and.right_neutral bit.conj_disj_distrib or_eq_0_iff)
  then show ?thesis using assms by (simp add: dispatch_def method_overrides_def)
qed

end
