(* ===== verification/Linkage.thy ===== *)
theory Linkage
  imports Vtable "HOL-Library.Multiset"
begin

unbundle bit_operations_syntax

text \<open>
  Model of \<open>vm/linkage.c\<close>: where \<open>link_class\<close> places the fields of a class in instances and in static
  memory, and which slots hold references. The size of a pointer, 4 or 8, is the argument \<open>p\<close>, the entry
  of the class in the table \<open>class_padding\<close> the argument \<open>padding\<close>.
\<close>

section \<open>Placing fields\<close>

text \<open>\<open>None\<close> is \<open>UNREACHABLE()\<close>.\<close>

definition sizeof_type_kind :: "nat \<Rightarrow> type_kind \<Rightarrow> nat option" where
  "sizeof_type_kind p k =
     (case k of
        TYPE_KIND_BYTE \<Rightarrow> Some 1 | TYPE_KIND_BOOLEAN \<Rightarrow> Some 1
      | TYPE_KIND_CHAR \<Rightarrow> Some 2 | TYPE_KIND_SHORT \<Rightarrow> Some 2
      | TYPE_KIND_FLOAT \<Rightarrow> Some 4 | TYPE_KIND_INT \<Rightarrow> Some 4
      | TYPE_KIND_REFERENCE \<Rightarrow> Some p
      | TYPE_KIND_DOUBLE \<Rightarrow> Some 8 | TYPE_KIND_LONG \<Rightarrow> Some 8
      | TYPE_KIND_VOID \<Rightarrow> None)"

text \<open>The result and the new value of \<open>*current\<close>.\<close>

definition place_field :: "u64 \<Rightarrow> u64 \<Rightarrow> u64 \<times> u64" where
  "place_field current sz = (let c = align_up current sz in (c, c + sz))"

definition allocate_field :: "nat \<Rightarrow> u64 \<Rightarrow> type_kind \<Rightarrow> (u64 \<times> u64) option" where
  "allocate_field p current k =
     (case k of
        TYPE_KIND_BOOLEAN \<Rightarrow> Some (current, current + 1)
      | TYPE_KIND_BYTE \<Rightarrow> Some (current, current + 1)
      | TYPE_KIND_CHAR \<Rightarrow> Some (place_field current 2)
      | TYPE_KIND_SHORT \<Rightarrow> Some (place_field current 2)
      | TYPE_KIND_FLOAT \<Rightarrow> Some (place_field current 4)
      | TYPE_KIND_INT \<Rightarrow> Some (place_field current 4)
      | TYPE_KIND_DOUBLE \<Rightarrow> Some (place_field current 8)
      | TYPE_KIND_LONG \<Rightarrow> Some (place_field current 8)
      | TYPE_KIND_REFERENCE \<Rightarrow> Some (place_field current (if p = 4 then 4 else 8))
      | TYPE_KIND_VOID \<Rightarrow> None)"

abbreviation field_kind :: "rt_field \<Rightarrow> type_kind" where
  "field_kind f \<equiv> repr_kind (f_parsed_descriptor f)"

abbreviation field_static :: "rt_field \<Rightarrow> bool" where
  "field_static f \<equiv> access_set (f_access_flags f) ACCESS_STATIC"

text \<open>\<open>__builtin_ctz\<close> of a size.\<close>

definition size_bucket :: "nat \<Rightarrow> nat" where
  "size_bucket sz = (if sz = 1 then 0 else if sz = 2 then 1 else if sz = 4 then 2 else 3)"

fun fill_buckets :: "nat \<Rightarrow> rt_field list \<Rightarrow> nat \<Rightarrow> (nat \<Rightarrow> nat list) \<Rightarrow> (nat \<Rightarrow> nat list) option" where
  "fill_buckets p [] i buckets = Some buckets"
| "fill_buckets p (f # fs) i buckets =
     (case sizeof_type_kind p (field_kind f) of
        None \<Rightarrow> None
      | Some sz \<Rightarrow>
          let b = size_bucket sz in fill_buckets p fs (Suc i) (buckets(b := buckets b @ [i])))"

definition reorder_fields_for_compactness :: "nat \<Rightarrow> rt_field list \<Rightarrow> nat list option" where
  "reorder_fields_for_compactness p flds =
     map_option (\<lambda>b. b 3 @ b 2 @ b 1 @ b 0) (fill_buckets p flds 0 (\<lambda>_. []))"

text \<open>The first loop over the fields, in the given order.\<close>

fun assign_offsets :: "nat \<Rightarrow> nat list \<Rightarrow> u64 \<Rightarrow> u64 \<Rightarrow> rt_field list \<Rightarrow> (u64 \<times> u64 \<times> rt_field list) option" where
  "assign_offsets p [] static_offset nonstatic_offset flds = Some (static_offset, nonstatic_offset, flds)"
| "assign_offsets p (i # is) static_offset nonstatic_offset flds =
     (let f = flds ! i in
      case allocate_field p (if field_static f then static_offset else nonstatic_offset) (field_kind f) of
        None \<Rightarrow> None
      | Some (offset, next_offset) \<Rightarrow>
          assign_offsets p is (if field_static f then next_offset else static_offset)
            (if field_static f then nonstatic_offset else next_offset) (flds[i := f\<lparr>byte_offset := offset\<rparr>]))"

definition reference_slot :: "nat \<Rightarrow> rt_field \<Rightarrow> u16" where
  "reference_slot p f = ucast (byte_offset f div of_nat p)"

text \<open>The second loop: store the slots of the reference fields, in declaration order.\<close>

fun store_slots :: "nat \<Rightarrow> rt_field list \<Rightarrow> nat \<Rightarrow> nat \<Rightarrow> u16 list \<Rightarrow> u16 list \<Rightarrow> u16 list \<times> u16 list" where
  "store_slots p [] static_refs_c nonstatic_refs_c sslots islots = (sslots, islots)"
| "store_slots p (f # fs) static_refs_c nonstatic_refs_c sslots islots =
     (if field_kind f = TYPE_KIND_REFERENCE then
        if field_static f
        then store_slots p fs (Suc static_refs_c) nonstatic_refs_c (sslots[static_refs_c := reference_slot p f]) islots
        else store_slots p fs static_refs_c (Suc nonstatic_refs_c) sslots (islots[nonstatic_refs_c := reference_slot p f])
      else store_slots p fs static_refs_c nonstatic_refs_c sslots islots)"

definition count_refs :: "bool \<Rightarrow> rt_field list \<Rightarrow> nat" where
  "count_refs static flds =
     length (filter (\<lambda>f. field_kind f = TYPE_KIND_REFERENCE \<and> field_static f = static) flds)"

definition obj_header_size :: "nat \<Rightarrow> u64" where
  "obj_header_size p = 8 + of_nat p"

text \<open>The part of \<open>link_class\<close> that lays out the class. \<open>padding\<close> is the entry of the class in
  \<open>class_padding\<close>; a class that has one keeps the order of its fields.\<close>

definition layout_class :: "nat \<Rightarrow> u64 option \<Rightarrow> rt_class option \<Rightarrow> rt_class \<Rightarrow> rt_class option" where
  "layout_class p padding super cd =
     (let base = (case super of Some s \<Rightarrow> rc_instance_bytes s | None \<Rightarrow> obj_header_size p)
                 + (case padding of Some b \<Rightarrow> b | None \<Rightarrow> 0);
          super_refs = (case super of Some s \<Rightarrow> rc_instance_references s | None \<Rightarrow> []);
          n = length (rc_fields cd)
      in case (if padding \<noteq> None then Some [0..<n] else reorder_fields_for_compactness p (rc_fields cd)) of
           None \<Rightarrow> None
         | Some order \<Rightarrow>
             (case assign_offsets p order 0 base (rc_fields cd) of
                None \<Rightarrow> None
              | Some (static_offset, nonstatic_offset, flds) \<Rightarrow>
                  let sslots = replicate (count_refs True flds) 0;
                      islots = super_refs @ replicate (count_refs False flds) 0
                  in case store_slots p flds 0 (length super_refs) sslots islots of
                       (srefs, irefs) \<Rightarrow>
                         Some (cd\<lparr>rc_fields := flds, rc_static_references := srefs, rc_instance_references := irefs,
                                 rc_static_bytes := static_offset, rc_instance_bytes := nonstatic_offset\<rparr>)))"

section \<open>Offsets\<close>

lemma place_field_ok:
  assumes "place_field current (2 ^ k) = (offset, next_offset)" and "k \<le> 3" and "unat current + 16 < 2 ^ 64"
  shows "unat current \<le> unat offset \<and> 2 ^ k dvd unat offset \<and> unat next_offset = unat offset + 2 ^ k \<and>
    unat next_offset \<le> unat current + 15"
proof -
  have k: "(2 :: nat) ^ k \<le> 8" using power_increasing [OF assms(2), of "2 :: nat"] by simp
  have o: "offset = align_up current (2 ^ k)" "next_offset = offset + 2 ^ k"
    using assms(1) by (auto simp: place_field_def Let_def)
  have b: "unat current \<le> unat offset" "unat offset < unat current + 2 ^ k" "2 ^ k dvd unat offset"
    unfolding o(1) using assms(2,3) k by (intro align_up_bounds; simp)+
  have "unat (2 ^ k :: u64) = 2 ^ k" using assms(2) by (simp add: unat_pow2)
  then have "unat next_offset = unat offset + 2 ^ k"
    using b k assms(3) unfolding o(2) by (subst unat_plus_simple [THEN iffD1]) (simp_all add: no_olen_add_nat)
  then show ?thesis using b k by linarith
qed

lemma sizeof_cases:
  "sizeof_type_kind p k = Some sz \<Longrightarrow> p = 4 \<or> p = 8 \<Longrightarrow> \<exists>j \<le> 3. sz = 2 ^ j"
  by (cases k)
    (auto simp: sizeof_type_kind_def intro: exI [of _ 0] exI [of _ 1] exI [of _ 2] exI [of _ 3])

lemma allocate_field_eq:
  "p = 4 \<or> p = 8 \<Longrightarrow> allocate_field p current k =
     map_option (\<lambda>sz. if sz = 1 then (current, current + 1) else place_field current (of_nat sz)) (sizeof_type_kind p k)"
  by (cases k) (auto simp: allocate_field_def sizeof_type_kind_def)

lemma place_1_ok: "unat (current :: u64) + 16 < 2 ^ 64 \<Longrightarrow> unat (current + 1) = unat current + 1"
  by (simp add: unat_word_ariths)

lemma allocate_field_ok:
  assumes "allocate_field p current k = Some (offset, next_offset)" and "p = 4 \<or> p = 8"
    and "unat current + 16 < 2 ^ 64"
  obtains sz where "sizeof_type_kind p k = Some sz" "unat current \<le> unat offset" "sz dvd unat offset"
    "unat next_offset = unat offset + sz" "unat next_offset \<le> unat current + 15"
proof -
  obtain sz where sz: "sizeof_type_kind p k = Some sz"
    and o: "(offset, next_offset) = (if sz = 1 then (current, current + 1) else place_field current (of_nat sz))"
    using assms(1) unfolding allocate_field_eq [OF assms(2)] by auto
  have "unat current \<le> unat offset \<and> sz dvd unat offset \<and> unat next_offset = unat offset + sz \<and>
    unat next_offset \<le> unat current + 15"
  proof (cases "sz = 1")
    case True
    then show ?thesis using o place_1_ok [OF assms(3)] by simp
  next
    case False
    then obtain j where j: "sz = 2 ^ j" "j \<le> 3" using sizeof_cases [OF sz assms(2)] by blast
    then have "place_field current (2 ^ j) = (offset, next_offset)" using o False by simp
    from place_field_ok [OF this j(2) assms(3)] show ?thesis using j(1) by simp
  qed
  then show thesis using that [OF sz] by blast
qed

section \<open>Layout\<close>

definition field_bytes :: "nat \<Rightarrow> rt_field \<Rightarrow> nat" where
  "field_bytes p f = (case sizeof_type_kind p (field_kind f) of Some sz \<Rightarrow> sz | None \<Rightarrow> 0)"

definition field_end :: "nat \<Rightarrow> rt_field \<Rightarrow> nat" where
  "field_end p f = unat (byte_offset f) + field_bytes p f"

definition fields_disjoint :: "nat \<Rightarrow> rt_field \<Rightarrow> rt_field \<Rightarrow> bool" where
  "fields_disjoint p f g = (field_end p f \<le> unat (byte_offset g) \<or> field_end p g \<le> unat (byte_offset f))"

text \<open>The fields with an index in \<open>placed\<close> have their place.\<close>

definition field_placed :: "nat \<Rightarrow> nat \<Rightarrow> u64 \<Rightarrow> u64 \<Rightarrow> rt_field \<Rightarrow> bool" where
  "field_placed p base so no f =
     (field_bytes p f dvd unat (byte_offset f) \<and>
      (if field_static f then field_end p f \<le> unat so
       else base \<le> unat (byte_offset f) \<and> field_end p f \<le> unat no))"

definition placed_inv :: "nat \<Rightarrow> nat \<Rightarrow> nat set \<Rightarrow> u64 \<Rightarrow> u64 \<Rightarrow> rt_field list \<Rightarrow> bool" where
  "placed_inv p base placed so no flds =
     ((\<forall>i \<in> placed. i < length flds \<and> field_placed p base so no (flds ! i)) \<and>
      (\<forall>i \<in> placed. \<forall>j \<in> placed. i \<noteq> j \<and> field_static (flds ! i) = field_static (flds ! j) \<longrightarrow>
         fields_disjoint p (flds ! i) (flds ! j)))"

lemma field_placed_mono:
  "field_placed p base so no f \<Longrightarrow> unat so \<le> unat so' \<Longrightarrow> unat no \<le> unat no' \<Longrightarrow> field_placed p base so' no' f"
  by (auto simp: field_placed_def split: if_splits)

lemma placed_step:
  assumes inv: "placed_inv p base placed so no flds" and i: "i \<notin> placed" "i < length flds"
    and p: "p = 4 \<or> p = 8" and base: "base \<le> unat no" and f: "f = flds ! i"
    and alloc: "allocate_field p (if field_static f then so else no) (field_kind f) = Some (offset, next_offset)"
    and room: "unat so + 16 < 2 ^ 64" "unat no + 16 < 2 ^ 64"
    and so': "so' = (if field_static f then next_offset else so)" and no': "no' = (if field_static f then no else next_offset)"
  shows "placed_inv p base (insert i placed) so' no' (flds[i := f\<lparr>byte_offset := offset\<rparr>]) \<and>
    unat so \<le> unat so' \<and> unat so' \<le> unat so + 15 \<and> unat no \<le> unat no' \<and> unat no' \<le> unat no + 15"
proof -
  define cur where "cur = (if field_static f then so else no)"
  define g where "g = f\<lparr>byte_offset := offset\<rparr>"
  have "unat cur + 16 < 2 ^ 64" using room by (simp add: cur_def)
  from allocate_field_ok [OF alloc [folded cur_def] p this] obtain sz where
    sz: "sizeof_type_kind p (field_kind f) = Some sz" "unat cur \<le> unat offset" "sz dvd unat offset"
      "unat next_offset = unat offset + sz" "unat next_offset \<le> unat cur + 15" by blast
  have g: "field_bytes p g = sz" "byte_offset g = offset" "field_end p g = unat next_offset"
    "field_static g = field_static f" using sz by (simp_all add: g_def field_bytes_def field_end_def)
  have le: "unat so \<le> unat so'" "unat so' \<le> unat so + 15" "unat no \<le> unat no'" "unat no' \<le> unat no + 15"
    using sz so' no' by (auto simp: cur_def)
  have new: "field_placed p base so' no' g"
    using g sz so' no' base by (auto simp: field_placed_def cur_def)
  have old: "field_placed p base so' no' (flds ! j)" "j < length flds" if "j \<in> placed" for j
    using inv that le field_placed_mono by (auto simp: placed_inv_def)
  have apart: "fields_disjoint p g (flds ! j) \<and> fields_disjoint p (flds ! j) g"
    if "j \<in> placed" "field_static (flds ! j) = field_static f" for j
  proof -
    have "field_placed p base so no (flds ! j)" using inv that by (auto simp: placed_inv_def)
    then have "field_end p (flds ! j) \<le> unat cur" using that(2) by (auto simp: field_placed_def cur_def split: if_splits)
    then show ?thesis using sz(2) g(2) by (auto simp: fields_disjoint_def)
  qed
  have "placed_inv p base (insert i placed) so' no' (flds[i := g])"
    unfolding placed_inv_def
  proof (intro conjI ballI impI)
    fix j assume "j \<in> insert i placed"
    then show "j < length (flds[i := g])" "field_placed p base so' no' (flds[i := g] ! j)"
      using i new old by (auto simp: nth_list_update)
  next
    fix j k assume jk: "j \<in> insert i placed" "k \<in> insert i placed"
      "j \<noteq> k \<and> field_static (flds[i := g] ! j) = field_static (flds[i := g] ! k)"
    then consider "j = i" "k \<in> placed" | "k = i" "j \<in> placed" | "j \<in> placed" "k \<in> placed" "j \<noteq> i" "k \<noteq> i" by auto
    then show "fields_disjoint p (flds[i := g] ! j) (flds[i := g] ! k)"
    proof cases
      case 1
      then show ?thesis using jk(3) i apart g(4) by (auto simp: nth_list_update)
    next
      case 2
      then show ?thesis using jk(3) i apart g(4) by (auto simp: nth_list_update)
    next
      case 3
      then show ?thesis using inv jk(3) by (simp add: placed_inv_def)
    qed
  qed
  then show ?thesis using le by (simp add: g_def)
qed

lemma assign_offsets_inv:
  assumes "assign_offsets p is so no flds = Some (so', no', flds')" and "placed_inv p base placed so no flds"
    and "distinct is" and "set is \<inter> placed = {}" and "\<forall>i \<in> set is. i < length flds"
    and "p = 4 \<or> p = 8" and "base \<le> unat no"
    and "unat so + 16 * length is < 2 ^ 64" and "unat no + 16 * length is < 2 ^ 64"
  shows "placed_inv p base (placed \<union> set is) so' no' flds' \<and> length flds' = length flds \<and>
    map cp_field.truncate flds' = map cp_field.truncate flds"
  using assms
proof (induction "is" arbitrary: so no flds placed)
  case (Cons i "is")
  let ?f = "flds ! i"
  obtain offset next_offset where a:
    "allocate_field p (if field_static ?f then so else no) (field_kind ?f) = Some (offset, next_offset)"
    and rec: "assign_offsets p is (if field_static ?f then next_offset else so)
      (if field_static ?f then no else next_offset) (flds[i := ?f\<lparr>byte_offset := offset\<rparr>]) = Some (so', no', flds')"
    using Cons.prems(1) by (auto simp: Let_def split: option.splits)
  have room: "unat so + 16 < 2 ^ 64" "unat no + 16 < 2 ^ 64" using Cons.prems(8,9) by simp_all
  have i: "i \<notin> placed" "i < length flds" using Cons.prems(4,5) by simp_all
  note step = placed_step [OF Cons.prems(2) i Cons.prems(6,7) refl a room refl refl]
  have t: "map cp_field.truncate (flds[i := ?f\<lparr>byte_offset := offset\<rparr>]) = map cp_field.truncate flds"
    using i(2) by (simp add: list_eq_iff_nth_eq nth_list_update cp_field.truncate_def)
  show ?case
    using Cons.IH [OF rec, of "insert i placed"] step Cons.prems t by simp
qed simp

lemma truncate_field:
  assumes "cp_field.truncate f = cp_field.truncate g"
  shows "f_access_flags f = f_access_flags g" "f_parsed_descriptor f = f_parsed_descriptor g"
  using assms by (simp_all add: cp_field.truncate_def)

text \<open>The order is a permutation of the indices.\<close>

lemma fill_buckets_perm:
  assumes "fill_buckets p fs i b = Some b'" and "p = 4 \<or> p = 8"
  shows "mset (b' 3 @ b' 2 @ b' 1 @ b' 0) = mset (b 3 @ b 2 @ b 1 @ b 0) + mset [i..<i + length fs]"
  using assms(1)
proof (induction fs arbitrary: i b)
  case (Cons f fs)
  then obtain sz where sz: "sizeof_type_kind p (field_kind f) = Some sz"
    and rec: "fill_buckets p fs (Suc i) (b(size_bucket sz := b (size_bucket sz) @ [i])) = Some b'"
    by (auto simp: Let_def split: option.splits)
  have u: "[i..<i + length (f # fs)] = i # [Suc i..<Suc i + length fs]" by (simp add: upt_conv_Cons del: upt_Suc)
  have "size_bucket sz \<in> {0, 1, 2, 3}" by (simp add: size_bucket_def)
  then show ?case using Cons.IH [OF rec] unfolding u by auto
qed simp

lemma layout_order:
  assumes "(if c then Some [0..<n] else reorder_fields_for_compactness p flds) = Some order"
    and "n = length flds" and "p = 4 \<or> p = 8"
  shows "distinct order \<and> set order = {..<n} \<and> length order = n"
proof -
  have "mset order = mset [0..<n]"
    using assms fill_buckets_perm [of p flds 0 "\<lambda>_. []"]
    by (auto simp: reorder_fields_for_compactness_def split: if_splits)
  then show ?thesis using mset_eq_imp_distinct_iff mset_eq_setD mset_eq_length
    by (metis atLeast_upt distinct_upt diff_zero length_upt)
qed

lemma store_slots_exact:
  assumes "length ss = cs + count_refs True fs" and "length is = ci + count_refs False fs"
  shows "store_slots p fs cs ci ss is =
    (take cs ss @ map (reference_slot p) (filter (\<lambda>f. field_kind f = TYPE_KIND_REFERENCE \<and> field_static f) fs),
     take ci is @ map (reference_slot p) (filter (\<lambda>f. field_kind f = TYPE_KIND_REFERENCE \<and> \<not> field_static f) fs))"
  using assms
proof (induction fs arbitrary: cs ci ss "is")
  case Nil
  then show ?case by (simp add: count_refs_def)
next
  case (Cons f fs)
  show ?case
  proof (cases "field_kind f = TYPE_KIND_REFERENCE")
    case False
    then show ?thesis using Cons by (simp add: count_refs_def)
  next
    case ref: True
    show ?thesis
    proof (cases "field_static f")
      case True
      then have "cs < length ss" using Cons.prems ref by (simp add: count_refs_def)
      then have "take (Suc cs) (ss[cs := x]) = take cs ss @ [x]" for x by (simp add: take_Suc_conv_app_nth)
      then show ?thesis using Cons True ref by (simp add: count_refs_def)
    next
      case False
      then have "ci < length is" using Cons.prems ref by (simp add: count_refs_def)
      then have "take (Suc ci) (is[ci := x]) = take ci is @ [x]" for x by (simp add: take_Suc_conv_app_nth)
      then show ?thesis using Cons False ref by (simp add: count_refs_def)
    qed
  qed
qed

text \<open>Where the fields of the class itself start.\<close>

definition layout_base :: "nat \<Rightarrow> u64 option \<Rightarrow> rt_class option \<Rightarrow> u64" where
  "layout_base p padding super =
     (case super of Some s \<Rightarrow> rc_instance_bytes s | None \<Rightarrow> obj_header_size p)
     + (case padding of Some b \<Rightarrow> b | None \<Rightarrow> 0)"

lemma layout_parts:
  assumes "layout_class p padding super cd = Some cd'" and "p = 4 \<or> p = 8"
    and "unat (layout_base p padding super) + 16 * length (rc_fields cd) < 2 ^ 64"
  shows "placed_inv p (unat (layout_base p padding super)) {..<length (rc_fields cd)}
      (rc_static_bytes cd') (rc_instance_bytes cd') (rc_fields cd') \<and>
    map cp_field.truncate (rc_fields cd') = map cp_field.truncate (rc_fields cd) \<and>
    rc_static_references cd' = map (reference_slot p)
      (filter (\<lambda>f. field_kind f = TYPE_KIND_REFERENCE \<and> field_static f) (rc_fields cd')) \<and>
    rc_instance_references cd' = (case super of Some s \<Rightarrow> rc_instance_references s | None \<Rightarrow> []) @ map (reference_slot p)
      (filter (\<lambda>f. field_kind f = TYPE_KIND_REFERENCE \<and> \<not> field_static f) (rc_fields cd'))"
proof -
  let ?n = "length (rc_fields cd)" and ?base = "layout_base p padding super"
  let ?refs = "case super of Some s \<Rightarrow> rc_instance_references s | None \<Rightarrow> []"
  obtain order so no flds where
    o: "(if padding \<noteq> None then Some [0..<?n] else reorder_fields_for_compactness p (rc_fields cd)) = Some order"
    and a: "assign_offsets p order 0 ?base (rc_fields cd) = Some (so, no, flds)"
    and cd': "cd' = (case store_slots p flds 0 (length ?refs) (replicate (count_refs True flds) 0)
        (?refs @ replicate (count_refs False flds) 0) of (srefs, irefs) \<Rightarrow>
        cd\<lparr>rc_fields := flds, rc_static_references := srefs, rc_instance_references := irefs,
           rc_static_bytes := so, rc_instance_bytes := no\<rparr>)"
    using assms(1) unfolding layout_class_def Let_def layout_base_def [symmetric]
    by (auto split: option.splits prod.splits)
  note order = layout_order [OF o refl assms(2)]
  have "placed_inv p (unat ?base) ({} \<union> set order) so no flds \<and> length flds = ?n \<and>
    map cp_field.truncate flds = map cp_field.truncate (rc_fields cd)"
    by (rule assign_offsets_inv [OF a]) (use order assms(2,3) in \<open>auto simp: placed_inv_def\<close>)
  then show ?thesis using order store_slots_exact [of "replicate (count_refs True flds) 0" 0 flds
      "?refs @ replicate (count_refs False flds) 0" "length ?refs" p]
    by (simp add: cd' del: Un_empty_left)
qed

lemma word_div_exact:
  assumes "p dvd unat (b :: u64)" and "p = 4 \<or> p = 8" and "unat b < 65536 * p"
  shows "unat (ucast (b div of_nat p) :: u16) * p = unat b"
proof -
  have "unat (of_nat p :: u64) = p" using assms(2) by auto
  then have d: "unat (b div of_nat p) = unat b div p" by (simp add: unat_div)
  have "unat b div p < 65536" using assms(3) by (simp add: less_mult_imp_div_less mult.commute)
  then have "unat (ucast (b div of_nat p) :: u16) = unat b div p"
    by (simp add: unsigned_ucast_eq d take_bit_eq_mod)
  then show ?thesis using assms(1) by simp
qed

lemma reference_slot_exact:
  assumes "field_placed p base so no f" and "field_kind f = TYPE_KIND_REFERENCE" and "p = 4 \<or> p = 8"
    and "if field_static f then unat so \<le> 65536 * p else unat no \<le> 65536 * p"
  shows "unat (reference_slot p f) * p = unat (byte_offset f)"
proof -
  have b: "field_bytes p f = p" using assms(2) by (simp add: field_bytes_def sizeof_type_kind_def)
  have "p dvd unat (byte_offset f)" using assms(1) b by (simp add: field_placed_def)
  moreover have "unat (byte_offset f) < 65536 * p"
    using assms(1,3,4) b by (auto simp: field_placed_def field_end_def split: if_splits)
  ultimately show ?thesis using word_div_exact assms(3) by (simp add: reference_slot_def)
qed

section \<open>Properties of the layout\<close>

definition example_field :: "type_kind \<Rightarrow> rt_field" where
  "example_field k = \<lparr>f_access_flags = 1, f_name = ''f'', f_descriptor = [], f_attributes = [],
     f_parsed_descriptor = \<lparr>base_kind = k, repr_kind = k, dimensions = 0, class_name = None, unparsed = []\<rparr>,
     byte_offset = 0\<rparr>"

definition example_layout :: "rt_class" where
  "example_layout = (example_class None [])\<lparr>rc_fields :=
     [example_field TYPE_KIND_BOOLEAN, example_field TYPE_KIND_REFERENCE, example_field TYPE_KIND_INT]\<rparr>"

lemma example_layout_result:
  "layout_class 8 None None example_layout = Some (example_layout\<lparr>rc_fields :=
     [(example_field TYPE_KIND_BOOLEAN)\<lparr>byte_offset := 28\<rparr>, (example_field TYPE_KIND_REFERENCE)\<lparr>byte_offset := 16\<rparr>,
      (example_field TYPE_KIND_INT)\<lparr>byte_offset := 24\<rparr>],
     rc_static_references := [], rc_instance_references := [2], rc_static_bytes := 0, rc_instance_bytes := 29\<rparr>)"
  by (simp add: layout_class_def example_layout_def example_class_def example_field_def obj_header_size_def
      reorder_fields_for_compactness_def sizeof_type_kind_def size_bucket_def allocate_field_def
      place_field_def align_up_def access_set_def count_refs_def reference_slot_def Let_def)

text \<open>C11: Fields do not overlap. In the layout that linking computes, whatever the kinds of the fields,
  whether they are sorted by size or kept in order, each field is aligned to its size; the instance
  fields lie behind the superclass part (or the object header) and before \<open>instance_bytes\<close>, the static
  fields lie within the static memory; and two instance fields, or two static fields, share no byte.
  Pointers have 4 or 8 bytes, and the sizes must not exceed the range of \<open>size_t\<close>.\<close>

theorem fields_do_not_overlap:
  assumes "layout_class p padding super cd = Some cd'" and "p = 4 \<or> p = 8"
    and "unat (layout_base p padding super) + 16 * length (rc_fields cd) < 2 ^ 64"
  shows "length (rc_fields cd') = length (rc_fields cd) \<and>
    (\<forall>i < length (rc_fields cd).
       field_placed p (unat (layout_base p padding super)) (rc_static_bytes cd') (rc_instance_bytes cd') (rc_fields cd' ! i)) \<and>
    (\<forall>i < length (rc_fields cd). \<forall>j < length (rc_fields cd).
       i \<noteq> j \<and> field_static (rc_fields cd' ! i) = field_static (rc_fields cd' ! j) \<longrightarrow>
       fields_disjoint p (rc_fields cd' ! i) (rc_fields cd' ! j))"
proof -
  note parts = layout_parts [OF assms]
  from parts have "length (rc_fields cd') = length (rc_fields cd)" by (metis length_map)
  with parts show ?thesis by (simp add: placed_inv_def)
qed

theorem fields_do_not_overlap_witness:
  "\<exists>cd'. layout_class 8 None None example_layout = Some cd' \<and> fields_disjoint 8 (rc_fields cd' ! 0) (rc_fields cd' ! 1)"
proof -
  have "unat (layout_base 8 None None) + 16 * length (rc_fields example_layout) < 2 ^ 64"
    by (simp add: layout_base_def obj_header_size_def example_layout_def)
  moreover obtain cd' where r: "layout_class 8 None None example_layout = Some cd'"
    and "field_static (rc_fields cd' ! 0) = field_static (rc_fields cd' ! 1)"
    using example_layout_result by (simp add: example_field_def)
  moreover have "length (rc_fields example_layout) = 3" by (simp add: example_layout_def)
  ultimately have "fields_disjoint 8 (rc_fields cd' ! 0) (rc_fields cd' ! 1)"
    using fields_do_not_overlap [OF r, THEN conjunct2, THEN conjunct2, THEN spec, of 0] by simp
  then show ?thesis using r by blast
qed

text \<open>C36: The collector finds every reference. The slots of the superclass come first, unchanged; the
  others are, in declaration order, exactly the reference fields of the instance, and a slot times the
  size of a pointer is the offset of its field, as long as an instance has at most 65536 pointers (a
  slot has 16 bits). The same holds for the static fields.\<close>

theorem reference_slots_exact:
  assumes "layout_class p padding super cd = Some cd'" and "p = 4 \<or> p = 8"
    and "unat (layout_base p padding super) + 16 * length (rc_fields cd) < 2 ^ 64"
    and "unat (rc_instance_bytes cd') \<le> 65536 * p" and "unat (rc_static_bytes cd') \<le> 65536 * p"
    and "super_refs = (case super of Some s \<Rightarrow> rc_instance_references s | None \<Rightarrow> [])"
  shows "take (length super_refs) (rc_instance_references cd') = super_refs \<and>
    map (\<lambda>s. unat s * p) (drop (length super_refs) (rc_instance_references cd')) =
      map (\<lambda>f. unat (byte_offset f)) (filter (\<lambda>f. field_kind f = TYPE_KIND_REFERENCE \<and> \<not> field_static f) (rc_fields cd')) \<and>
    map (\<lambda>s. unat s * p) (rc_static_references cd') =
      map (\<lambda>f. unat (byte_offset f)) (filter (\<lambda>f. field_kind f = TYPE_KIND_REFERENCE \<and> field_static f) (rc_fields cd'))"
proof -
  note parts = layout_parts [OF assms(1-3)]
  have len: "length (rc_fields cd') = length (rc_fields cd)" using parts by (metis length_map)
  have placed: "placed_inv p (unat (layout_base p padding super)) {..<length (rc_fields cd)}
      (rc_static_bytes cd') (rc_instance_bytes cd') (rc_fields cd')" using parts by blast
  have slot: "unat (reference_slot p f) * p = unat (byte_offset f)"
    if f: "f \<in> set (rc_fields cd')" and k: "field_kind f = TYPE_KIND_REFERENCE" for f
  proof -
    obtain i where "i < length (rc_fields cd)" "f = rc_fields cd' ! i"
      using f len by (auto simp: in_set_conv_nth)
    then have "field_placed p (unat (layout_base p padding super)) (rc_static_bytes cd') (rc_instance_bytes cd') f"
      using placed by (simp add: placed_inv_def)
    then show ?thesis by (rule reference_slot_exact) (use k assms(2,4,5) in simp_all)
  qed
  have slots: "map (\<lambda>s. unat s * p) (map (reference_slot p) (filter (\<lambda>f. field_kind f = TYPE_KIND_REFERENCE \<and> P f) (rc_fields cd'))) =
    map (\<lambda>f. unat (byte_offset f)) (filter (\<lambda>f. field_kind f = TYPE_KIND_REFERENCE \<and> P f) (rc_fields cd'))" for P
    unfolding map_map by (rule map_cong) (auto simp: slot)
  from parts have s: "rc_static_references cd' = map (reference_slot p)
      (filter (\<lambda>f. field_kind f = TYPE_KIND_REFERENCE \<and> field_static f) (rc_fields cd'))"
    and i: "rc_instance_references cd' = super_refs @ map (reference_slot p)
      (filter (\<lambda>f. field_kind f = TYPE_KIND_REFERENCE \<and> \<not> field_static f) (rc_fields cd'))"
    unfolding assms(6) by blast+
  show ?thesis unfolding s i slots by (simp add: slot)
qed

theorem reference_slots_exact_witness:
  "\<exists>cd'. layout_class 8 None None example_layout = Some cd' \<and>
     map (\<lambda>s. unat s * 8) (rc_instance_references cd') = [16]"
proof -
  have "unat (layout_base 8 None None) + 16 * length (rc_fields example_layout) < 2 ^ 64"
    by (simp add: layout_base_def obj_header_size_def example_layout_def)
  from reference_slots_exact [OF example_layout_result _ this, of "[]"] show ?thesis
    using example_layout_result by (simp add: example_field_def access_set_def)
qed

end
