(* ===== verification/Field_Access.thy ===== *)
theory Field_Access
  imports Interpreter_Properties Linkage
begin

unbundle bit_operations_syntax

text \<open>
  Field access in \<open>vm/interpreter2.c\<close> and \<open>vm/bjvm.c\<close>: the resolution of \<open>getfield\<close>, \<open>putfield\<close>, \<open>getstatic\<close>
  and \<open>putstatic\<close>, the handlers of their resolved forms, and the accesses that natives use. Pointers have
  8 bytes. Loading, linking and initialising the class that a field reference names are parameters; a
  suspension during initialisation resumes at the same place and is not modelled. The theory joins
  the layout of \<open>Linkage\<close> and the interpreter: an access touches the bytes of its field and no others.
\<close>

section \<open>Resolved instructions\<close>

text \<open>The fields \<open>ic\<close> and \<open>ic2\<close> of an instruction: the address of a static field, the offset of an
  instance field. (For an instance field the code also keeps a pointer to the field in \<open>ic\<close>, which no
  handler reads.)\<close>

record inline_cache =
  ic :: u64
  ic2 :: u64

text \<open>\<open>None\<close> is \<open>UNREACHABLE()\<close>.\<close>

definition getstatic_putstatic_resolved_kind :: "bool \<Rightarrow> type_kind \<Rightarrow> insn_code_kind option" where
  "getstatic_putstatic_resolved_kind putstatic k =
     (case k of
        TYPE_KIND_BOOLEAN \<Rightarrow> Some (if putstatic then insn_putstatic_B else insn_getstatic_B)
      | TYPE_KIND_CHAR \<Rightarrow> Some (if putstatic then insn_putstatic_C else insn_getstatic_C)
      | TYPE_KIND_FLOAT \<Rightarrow> Some (if putstatic then insn_putstatic_F else insn_getstatic_F)
      | TYPE_KIND_DOUBLE \<Rightarrow> Some (if putstatic then insn_putstatic_D else insn_getstatic_D)
      | TYPE_KIND_BYTE \<Rightarrow> Some (if putstatic then insn_putstatic_B else insn_getstatic_B)
      | TYPE_KIND_SHORT \<Rightarrow> Some (if putstatic then insn_putstatic_S else insn_getstatic_S)
      | TYPE_KIND_INT \<Rightarrow> Some (if putstatic then insn_putstatic_I else insn_getstatic_I)
      | TYPE_KIND_LONG \<Rightarrow> Some (if putstatic then insn_putstatic_J else insn_getstatic_J)
      | TYPE_KIND_REFERENCE \<Rightarrow> Some (if putstatic then insn_putstatic_L else insn_getstatic_L)
      | TYPE_KIND_VOID \<Rightarrow> None)"

definition getfield_putfield_resolved_kind :: "bool \<Rightarrow> type_kind \<Rightarrow> insn_code_kind option" where
  "getfield_putfield_resolved_kind putfield k =
     (case k of
        TYPE_KIND_BOOLEAN \<Rightarrow> Some (if putfield then insn_putfield_B else insn_getfield_B)
      | TYPE_KIND_CHAR \<Rightarrow> Some (if putfield then insn_putfield_C else insn_getfield_C)
      | TYPE_KIND_FLOAT \<Rightarrow> Some (if putfield then insn_putfield_F else insn_getfield_F)
      | TYPE_KIND_DOUBLE \<Rightarrow> Some (if putfield then insn_putfield_D else insn_getfield_D)
      | TYPE_KIND_BYTE \<Rightarrow> Some (if putfield then insn_putfield_B else insn_getfield_B)
      | TYPE_KIND_SHORT \<Rightarrow> Some (if putfield then insn_putfield_S else insn_getfield_S)
      | TYPE_KIND_INT \<Rightarrow> Some (if putfield then insn_putfield_I else insn_getfield_I)
      | TYPE_KIND_LONG \<Rightarrow> Some (if putfield then insn_putfield_J else insn_getfield_J)
      | TYPE_KIND_REFERENCE \<Rightarrow> Some (if putfield then insn_putfield_L else insn_getfield_L)
      | TYPE_KIND_VOID \<Rightarrow> None)"

text \<open>The loads: how many bytes, and how they fill the register.\<close>

definition getstatic_loads :: "(insn_code_kind \<times> nat \<times> (u64 \<Rightarrow> tos_value)) list" where
  "getstatic_loads =
     [(insn_getstatic_L, 8, Tos_int),
      (insn_getstatic_F, 4, \<lambda>x. Tos_float (ucast x)),
      (insn_getstatic_D, 8, Tos_double),
      (insn_getstatic_J, 8, Tos_int),
      (insn_getstatic_I, 4, \<lambda>x. Tos_int (sext (ucast x))),
      (insn_getstatic_S, 2, \<lambda>x. Tos_int (scast (ucast x :: u16))),
      (insn_getstatic_C, 2, \<lambda>x. Tos_int (ucast (ucast x :: u16))),
      (insn_getstatic_B, 1, \<lambda>x. Tos_int (scast (ucast x :: u8))),
      (insn_getstatic_Z, 1, \<lambda>x. Tos_int (scast (ucast x :: u8)))]"

definition getfield_loads :: "(insn_code_kind \<times> nat \<times> (u64 \<Rightarrow> tos_value)) list" where
  "getfield_loads =
     [(insn_getfield_B, 1, \<lambda>x. Tos_int (scast (ucast x :: u8))),
      (insn_getfield_C, 2, \<lambda>x. Tos_int (ucast (ucast x :: u16))),
      (insn_getfield_S, 2, \<lambda>x. Tos_int (scast (ucast x :: u16))),
      (insn_getfield_I, 4, \<lambda>x. Tos_int (sext (ucast x))),
      (insn_getfield_J, 8, Tos_int),
      (insn_getfield_F, 4, \<lambda>x. Tos_float (ucast x)),
      (insn_getfield_D, 8, Tos_double),
      (insn_getfield_L, 8, Tos_int),
      (insn_getfield_Z, 1, \<lambda>x. Tos_int (scast (ucast x :: u8)))]"

text \<open>The stores from the integer register; those of \<open>F\<close> and \<open>D\<close> follow in \<open>field_handler\<close>. The checks that a
  stored boolean is 0 or 1 exist in debug builds only.\<close>

definition putstatic_stores :: "(insn_code_kind \<times> nat) list" where
  "putstatic_stores =
     [(insn_putstatic_B, 1), (insn_putstatic_C, 2), (insn_putstatic_S, 2), (insn_putstatic_I, 4),
      (insn_putstatic_J, 8), (insn_putstatic_L, 8), (insn_putstatic_Z, 1)]"

definition putfield_stores :: "(insn_code_kind \<times> nat) list" where
  "putfield_stores =
     [(insn_putfield_B, 1), (insn_putfield_C, 2), (insn_putfield_S, 2), (insn_putfield_I, 4),
      (insn_putfield_J, 8), (insn_putfield_L, 8), (insn_putfield_Z, 1)]"

definition getstatic_impl :: "nat \<Rightarrow> (u64 \<Rightarrow> tos_value) \<Rightarrow> inline_cache \<Rightarrow> tos_value \<Rightarrow> interp_state \<Rightarrow> outcome" where
  "getstatic_impl width widen c t st =
     (let st = spill t st in push_impl (widen (mem_load width (heap st) (ic c))) st)"

definition putstatic_impl :: "analyzed_insn list \<Rightarrow> nat \<Rightarrow> u64 \<Rightarrow> inline_cache \<Rightarrow> interp_state \<Rightarrow> outcome" where
  "putstatic_impl cd width v c st =
     STACK_POLYMORPHIC_NEXT cd (drop_sp 1 (st\<lparr>heap := mem_store width (ic c) v (heap st)\<rparr>))"

definition getfield_impl :: "nat \<Rightarrow> (u64 \<Rightarrow> tos_value) \<Rightarrow> inline_cache \<Rightarrow> u64 \<Rightarrow> interp_state \<Rightarrow> outcome" where
  "getfield_impl width widen c tos st =
     (if tos = 0 then Throws Null_pointer st
      else next_with (widen (mem_load width (heap st) (tos + ic2 c))) st)"

definition putfield_impl :: "analyzed_insn list \<Rightarrow> nat \<Rightarrow> u64 \<Rightarrow> inline_cache \<Rightarrow> interp_state \<Rightarrow> outcome" where
  "putfield_impl cd width v c st =
     (let obj = peek 2 st
      in if obj = 0 then Throws Null_pointer st
         else STACK_POLYMORPHIC_NEXT cd (drop_sp 2 (st\<lparr>heap := mem_store width (obj + ic2 c) v (heap st)\<rparr>)))"

text \<open>\<open>None\<close>: not a resolved field instruction for this register.\<close>

definition int_field_handler ::
    "analyzed_insn list \<Rightarrow> inline_cache \<Rightarrow> insn_code_kind \<Rightarrow> u64 \<Rightarrow> interp_state \<Rightarrow> outcome option" where
  "int_field_handler cd c k x st =
     (case map_of getfield_loads k of
        Some (width, widen) \<Rightarrow> Some (getfield_impl width widen c x st)
      | None \<Rightarrow>
     (case map_of putstatic_stores k of
        Some width \<Rightarrow> Some (putstatic_impl cd width x c st)
      | None \<Rightarrow> map_option (\<lambda>width. putfield_impl cd width x c st) (map_of putfield_stores k)))"

definition field_handler ::
    "analyzed_insn list \<Rightarrow> inline_cache \<Rightarrow> insn_code_kind \<Rightarrow> tos_value \<Rightarrow> interp_state \<Rightarrow> outcome option" where
  "field_handler cd c k t st =
     (if k \<notin> set (jmp_table (tos_kind t)) then None
      else case map_of getstatic_loads k of
        Some (width, widen) \<Rightarrow> Some (getstatic_impl width widen c t st)
      | None \<Rightarrow>
          (case t of
             Tos_void \<Rightarrow> None
           | Tos_int x \<Rightarrow> int_field_handler cd c k x st
           | Tos_float f \<Rightarrow>
               if k = insn_putstatic_F then Some (putstatic_impl cd 4 (ucast f) c st)
               else if k = insn_putfield_F then Some (putfield_impl cd 4 (ucast f) c st)
               else None
           | Tos_double d \<Rightarrow>
               if k = insn_putstatic_D then Some (putstatic_impl cd 8 d c st)
               else if k = insn_putfield_D then Some (putfield_impl cd 8 d c st)
               else None))"

section \<open>Resolution\<close>

text \<open>How resolving an instruction ends: an exception is pending, the result is an error although no
  exception is pending, or the instruction is rewritten.\<close>

datatype resolution =
    Null_receiver
  | Class_failed
  | Incompatible_class_change
  | Failed_without_exception
  | Reached_end
  | Resolved insn_code_kind inline_cache

text \<open>What a field reference needs of the rest: \<open>fe_class\<close> is the class that \<open>resolve_class\<close> and \<open>link_class\<close> (or
  \<open>initialize_class\<close>) yield, if they raise nothing; \<open>fe_statics\<close> the address of the static fields of a class;
  \<open>fe_depth\<close> bounds the depth of the hierarchy.\<close>

record field_env =
  fe_classes :: class_table
  fe_class :: "nat \<Rightarrow> class_id option"
  fe_statics :: "class_id \<Rightarrow> u64"
  fe_depth :: nat

text \<open>A \<open>cp_field_info\<close>: the index of the class, name, descriptor and its parse.\<close>

record field_ref =
  fr_class :: nat
  fr_name :: slice
  fr_descriptor :: slice
  fr_parsed :: field_descriptor

definition resolve_field :: "field_env \<Rightarrow> field_ref \<Rightarrow> resolution + rt_field" where
  "resolve_field env r =
     (case fe_class env (fr_class r) of
        None \<Rightarrow> Inl Class_failed
      | Some c \<Rightarrow>
          (case field_lookup (fe_classes env) (fe_depth env) c (fr_name r) (fr_descriptor r) of
             None \<Rightarrow> Inl Reached_end
           | Some None \<Rightarrow> Inl Failed_without_exception
           | Some (Some (d, i)) \<Rightarrow> Inr (rc_fields (fe_classes env d) ! i)))"

definition resolve_getfield_putfield :: "field_env \<Rightarrow> field_ref \<Rightarrow> bool \<Rightarrow> interp_state \<Rightarrow> resolution" where
  "resolve_getfield_putfield env r putfield st =
     (if peek (if putfield then 2 else 1) st = 0 then Null_receiver
      else case resolve_field env r of
             Inl e \<Rightarrow> e
           | Inr f \<Rightarrow>
               if field_static f then Incompatible_class_change
               else (case getfield_putfield_resolved_kind putfield (repr_kind (fr_parsed r)) of
                       None \<Rightarrow> Reached_end
                     | Some k \<Rightarrow> Resolved k \<lparr>ic = 0, ic2 = byte_offset f\<rparr>))"

definition resolve_getstatic_putstatic :: "field_env \<Rightarrow> field_ref \<Rightarrow> bool \<Rightarrow> resolution" where
  "resolve_getstatic_putstatic env r putstatic =
     (case fe_class env (fr_class r) of
        None \<Rightarrow> Class_failed
      | Some c \<Rightarrow>
          (case field_lookup (fe_classes env) (fe_depth env) c (fr_name r) (fr_descriptor r) of
             None \<Rightarrow> Reached_end
           | Some None \<Rightarrow> Incompatible_class_change
           | Some (Some (d, i)) \<Rightarrow>
               let f = rc_fields (fe_classes env d) ! i
               in if \<not> field_static f then Incompatible_class_change
                  else (case getstatic_putstatic_resolved_kind putstatic (repr_kind (fr_parsed r)) of
                          None \<Rightarrow> Reached_end
                        | Some k \<Rightarrow> Resolved k \<lparr>ic = fe_statics env d + byte_offset f, ic2 = 0\<rparr>)))"

definition resolve_insn :: "field_env \<Rightarrow> field_ref \<Rightarrow> insn_code_kind \<Rightarrow> interp_state \<Rightarrow> resolution" where
  "resolve_insn env r k st =
     (if k = insn_getstatic \<or> k = insn_putstatic then resolve_getstatic_putstatic env r (k = insn_putstatic)
      else if k = insn_getfield \<or> k = insn_putfield then resolve_getfield_putfield env r (k = insn_putfield) st
      else Reached_end)"

text \<open>The jump after \<open>TryResolve\<close>, to the same instruction.\<close>

definition retry :: "analyzed_insn list \<Rightarrow> insn_code_kind \<Rightarrow> interp_state \<Rightarrow> outcome" where
  "retry cd k st =
     (if k = insn_getstatic then Jump Tos_void st
      else if k = insn_getfield then Jump (Tos_int (peek 1 st)) st
      else STACK_POLYMORPHIC_JMP cd st)"

text \<open>The four handlers. \<open>TryResolve\<close> looks for a pending exception and not at the result of
  \<open>resolve_insn\<close>, so an error without an exception leads back to the instruction as it is.\<close>

definition unresolved_field_step ::
    "field_env \<Rightarrow> field_ref \<Rightarrow> analyzed_insn list \<Rightarrow> inline_cache list \<Rightarrow> tos_value \<Rightarrow> interp_state \<Rightarrow>
     resolution + (outcome \<times> analyzed_insn list \<times> inline_cache list)" where
  "unresolved_field_step env r cd caches t st =
     (let st = spill t st; i = pc st; k = kind (cd ! i)
      in case resolve_insn env r k st of
           Resolved k' c \<Rightarrow>
             let cd' = cd[i := (cd ! i)\<lparr>kind := k'\<rparr>] in Inr (retry cd' k st, cd', caches[i := c])
         | Failed_without_exception \<Rightarrow> Inr (retry cd k st, cd, caches)
         | e \<Rightarrow> Inl e)"

text \<open>The natives read and write fields through a switch on the kind. The unset half of a \<open>stack_value\<close> is
  whatever it was (\<open>old\<close>).\<close>

definition store_stack_value :: "u64 \<Rightarrow> u64 \<Rightarrow> type_kind \<Rightarrow> (u64 \<Rightarrow> u8) \<Rightarrow> (u64 \<Rightarrow> u8) option" where
  "store_stack_value loc v k h =
     (case k of
        TYPE_KIND_BOOLEAN \<Rightarrow> Some (mem_store 1 loc (ucast (slot_i v)) h)
      | TYPE_KIND_BYTE \<Rightarrow> Some (mem_store 1 loc (ucast (slot_i v)) h)
      | TYPE_KIND_CHAR \<Rightarrow> Some (mem_store 2 loc (ucast (slot_i v)) h)
      | TYPE_KIND_SHORT \<Rightarrow> Some (mem_store 2 loc (ucast (slot_i v)) h)
      | TYPE_KIND_FLOAT \<Rightarrow> Some (mem_store 4 loc (ucast (slot_i v)) h)
      | TYPE_KIND_DOUBLE \<Rightarrow> Some (mem_store 8 loc v h)
      | TYPE_KIND_INT \<Rightarrow> Some (mem_store 4 loc (ucast (slot_i v)) h)
      | TYPE_KIND_LONG \<Rightarrow> Some (mem_store 8 loc v h)
      | TYPE_KIND_REFERENCE \<Rightarrow> Some (mem_store 8 loc v h)
      | TYPE_KIND_VOID \<Rightarrow> None)"

definition load_stack_value :: "u64 \<Rightarrow> u64 \<Rightarrow> type_kind \<Rightarrow> (u64 \<Rightarrow> u8) \<Rightarrow> u64 option" where
  "load_stack_value old loc k h =
     (case k of
        TYPE_KIND_BOOLEAN \<Rightarrow> Some (set_low old (scast (ucast (mem_load 1 h loc) :: u8)))
      | TYPE_KIND_BYTE \<Rightarrow> Some (set_low old (scast (ucast (mem_load 1 h loc) :: u8)))
      | TYPE_KIND_CHAR \<Rightarrow> Some (set_low old (ucast (ucast (mem_load 2 h loc) :: u16)))
      | TYPE_KIND_SHORT \<Rightarrow> Some (set_low old (scast (ucast (mem_load 2 h loc) :: u16)))
      | TYPE_KIND_FLOAT \<Rightarrow> Some (set_low old (ucast (mem_load 4 h loc)))
      | TYPE_KIND_DOUBLE \<Rightarrow> Some (mem_load 8 h loc)
      | TYPE_KIND_INT \<Rightarrow> Some (set_low old (ucast (mem_load 4 h loc)))
      | TYPE_KIND_LONG \<Rightarrow> Some (mem_load 8 h loc)
      | TYPE_KIND_REFERENCE \<Rightarrow> Some (mem_load 8 h loc)
      | TYPE_KIND_VOID \<Rightarrow> None)"

definition set_field :: "u64 \<Rightarrow> rt_field \<Rightarrow> u64 \<Rightarrow> (u64 \<Rightarrow> u8) \<Rightarrow> (u64 \<Rightarrow> u8) option" where
  "set_field obj f v h = store_stack_value (obj + byte_offset f) v (field_kind f) h"

definition set_static_field :: "u64 \<Rightarrow> rt_field \<Rightarrow> u64 \<Rightarrow> (u64 \<Rightarrow> u8) \<Rightarrow> (u64 \<Rightarrow> u8) option" where
  "set_static_field statics f v h = store_stack_value (statics + byte_offset f) v (field_kind f) h"

definition get_field :: "u64 \<Rightarrow> u64 \<Rightarrow> rt_field \<Rightarrow> (u64 \<Rightarrow> u8) \<Rightarrow> u64 option" where
  "get_field old obj f h = load_stack_value old (obj + byte_offset f) (field_kind f) h"

section \<open>What the resolved handlers do\<close>

definition kind_width :: "type_kind \<Rightarrow> nat" where
  "kind_width k = (case sizeof_type_kind 8 k of Some n \<Rightarrow> n | None \<Rightarrow> 0)"

fun tos_bits :: "tos_value \<Rightarrow> u64" where
  "tos_bits Tos_void = 0"
| "tos_bits (Tos_int x) = x"
| "tos_bits (Tos_float f) = ucast f"
| "tos_bits (Tos_double d) = d"

text \<open>The register after a load of the bytes \<open>x\<close> of a field.\<close>

fun field_value :: "type_kind \<Rightarrow> u64 \<Rightarrow> tos_value" where
  "field_value TYPE_KIND_FLOAT x = Tos_float (ucast x)"
| "field_value TYPE_KIND_DOUBLE x = Tos_double x"
| "field_value TYPE_KIND_INT x = Tos_int (sext (ucast x))"
| "field_value TYPE_KIND_SHORT x = Tos_int (scast (ucast x :: u16))"
| "field_value TYPE_KIND_CHAR x = Tos_int (ucast (ucast x :: u16))"
| "field_value TYPE_KIND_BYTE x = Tos_int (scast (ucast x :: u8))"
| "field_value TYPE_KIND_BOOLEAN x = Tos_int (scast (ucast x :: u8))"
| "field_value _ x = Tos_int x"

definition fits_kind :: "type_kind \<Rightarrow> tos_value \<Rightarrow> bool" where
  "fits_kind k t \<longleftrightarrow> reduce_kind k = Inr (tos_kind t)"

lemmas field_tables = getstatic_loads_def getfield_loads_def putstatic_stores_def putfield_stores_def
  jmp_table_void_def jmp_table_int_def jmp_table_float_def jmp_table_double_def

lemma fits_kind_cases:
  assumes "fits_kind k t"
  obtains x where "t = Tos_int x" "k \<notin> {TYPE_KIND_FLOAT, TYPE_KIND_DOUBLE, TYPE_KIND_VOID}"
  | f where "t = Tos_float f" "k = TYPE_KIND_FLOAT"
  | d where "t = Tos_double d" "k = TYPE_KIND_DOUBLE"
  using assms by (cases t; cases k) (auto simp: fits_kind_def)

lemma getfield_resolved:
  assumes "getfield_putfield_resolved_kind False k = Some kd"
  shows "field_handler cd c kd (Tos_int obj) st = Some (getfield_impl (kind_width k) (field_value k) c obj st)"
  using assms
  by (cases k) (auto simp: getfield_putfield_resolved_kind_def field_handler_def int_field_handler_def
      kind_width_def sizeof_type_kind_def field_tables getfield_impl_def)

lemma putfield_resolved:
  assumes "getfield_putfield_resolved_kind True k = Some kd" "fits_kind k t"
  shows "field_handler cd c kd t st = Some (putfield_impl cd (kind_width k) (tos_bits t) c st)"
  using assms(2)
proof (cases rule: fits_kind_cases)
  case (1 x)
  then show ?thesis using assms(1)
    by (cases k) (auto simp: getfield_putfield_resolved_kind_def field_handler_def int_field_handler_def
        kind_width_def sizeof_type_kind_def field_tables)
qed (use assms(1) in \<open>auto simp: getfield_putfield_resolved_kind_def field_handler_def kind_width_def
      sizeof_type_kind_def field_tables\<close>)

lemma getstatic_resolved:
  assumes "getstatic_putstatic_resolved_kind False k = Some kd"
  shows "field_handler cd c kd t st = Some (getstatic_impl (kind_width k) (field_value k) c t st)"
  using assms
  by (cases k; cases t) (auto simp: getstatic_putstatic_resolved_kind_def field_handler_def kind_width_def
      sizeof_type_kind_def field_tables getstatic_impl_def)

lemma putstatic_resolved:
  assumes "getstatic_putstatic_resolved_kind True k = Some kd" "fits_kind k t"
  shows "field_handler cd c kd t st = Some (putstatic_impl cd (kind_width k) (tos_bits t) c st)"
  using assms(2)
proof (cases rule: fits_kind_cases)
  case (1 x)
  then show ?thesis using assms(1)
    by (cases k) (auto simp: getstatic_putstatic_resolved_kind_def field_handler_def int_field_handler_def
        kind_width_def sizeof_type_kind_def field_tables)
qed (use assms(1) in \<open>auto simp: getstatic_putstatic_resolved_kind_def field_handler_def kind_width_def
      sizeof_type_kind_def field_tables\<close>)

section \<open>Memory\<close>

lemma mem_load_cong: "(\<And>j. j < n \<Longrightarrow> h (b + word_of_nat j) = h' (b + word_of_nat j)) \<Longrightarrow> mem_load n h b = mem_load n h' b"
proof (induction n arbitrary: b)
  case (Suc n)
  have "mem_load n h (b + 1) = mem_load n h' (b + 1)"
    using Suc.prems [of "Suc _"] by (intro Suc.IH) (simp add: add.assoc)
  then show ?case using Suc.prems [of 0] by simp
qed simp

lemma address_unat:
  fixes a :: u64
  assumes "unat a + n < 2 ^ 64" "j \<le> n"
  shows "unat (a + word_of_nat j) = unat a + j"
proof -
  have "unat (word_of_nat j :: u64) = j"
    using assms by (simp add: unsigned_of_nat take_bit_nat_eq_self)
  then show ?thesis using assms by (simp add: unat_plus_simple [THEN iffD1] no_olen_add_nat)
qed

lemma addresses_apart:
  fixes a b :: u64
  assumes "unat a + m \<le> unat b \<or> unat b + n \<le> unat a" "unat a + m < 2 ^ 64" "unat b + n < 2 ^ 64" "i < m" "j < n"
  shows "b + word_of_nat j \<noteq> a + word_of_nat i"
proof
  assume "b + word_of_nat j = a + word_of_nat i"
  then have "unat b + j = unat a + i"
    using address_unat [OF assms(2), of i] address_unat [OF assms(3), of j] assms(4,5) by simp
  then show False using assms by linarith
qed

lemma mem_load_store_apart:
  assumes "unat a + m \<le> unat b \<or> unat b + n \<le> unat a" "unat a + m < 2 ^ 64" "unat b + n < 2 ^ 64"
  shows "mem_load n (mem_store m a v h) b = mem_load n h b"
  using addresses_apart [OF assms] by (intro mem_load_cong mem_store_other) blast

text \<open>A store outside a range leaves it alone.\<close>

lemma mem_store_outside:
  assumes "unat a + m < 2 ^ 64" "unat b < unat a \<or> unat a + m \<le> unat b"
  shows "mem_store m a v h b = h b"
proof (rule mem_store_other)
  fix j assume "j < m"
  then have "unat (a + word_of_nat j) = unat a + j" by (intro address_unat [OF assms(1)]) simp
  then show "b \<noteq> a + word_of_nat j" using assms(2) \<open>j < m\<close> by auto
qed

section \<open>Fields in memory\<close>

lemma kind_width_field: "field_bytes 8 f = kind_width (field_kind f)"
  by (simp add: field_bytes_def kind_width_def)

lemma kind_width_small: "kind_width k \<le> 8"
  by (cases k) (simp_all add: kind_width_def sizeof_type_kind_def)

lemma field_value_take_bit: "fits_kind k t \<Longrightarrow> field_value k (take_bit (8 * kind_width k) v) = field_value k v"
proof -
  have *: "(ucast (take_bit 32 v) :: u32) = ucast v" "(ucast (take_bit 16 v) :: u16) = ucast v"
    "(ucast (take_bit 8 v) :: u8) = ucast v" "take_bit 64 v = v"
    by (auto intro!: bit_word_eqI simp: bit_simps)
  show "fits_kind k t \<Longrightarrow> field_value k (take_bit (8 * kind_width k) v) = field_value k v"
    by (cases k) (simp_all add: * kind_width_def sizeof_type_kind_def fits_kind_def)
qed

text \<open>Where the fields of an instance lie: within the object, and apart from each other.\<close>

lemma instance_field_range:
  assumes "layout_class 8 padding super cd = Some cd'"
    and "unat (layout_base 8 padding super) + 16 * length (rc_fields cd) < 2 ^ 64"
    and "i < length (rc_fields cd)" "\<not> field_static (rc_fields cd' ! i)"
    and "unat obj + unat (rc_instance_bytes cd') < 2 ^ 64"
  defines "f \<equiv> rc_fields cd' ! i"
  shows "unat (obj + byte_offset f) = unat obj + unat (byte_offset f)"
    "unat (layout_base 8 padding super) \<le> unat (byte_offset f)"
    "unat (byte_offset f) + kind_width (field_kind f) \<le> unat (rc_instance_bytes cd')"
proof -
  have "field_placed 8 (unat (layout_base 8 padding super)) (rc_static_bytes cd') (rc_instance_bytes cd') f"
    using layout_parts [OF assms(1) _ assms(2)] assms(3) by (simp add: placed_inv_def f_def)
  then show r: "unat (layout_base 8 padding super) \<le> unat (byte_offset f)"
    "unat (byte_offset f) + kind_width (field_kind f) \<le> unat (rc_instance_bytes cd')"
    using assms(4) by (simp_all add: field_placed_def field_end_def kind_width_field f_def)
  then show "unat (obj + byte_offset f) = unat obj + unat (byte_offset f)"
    using assms(5) by (intro unat_plus_simple [THEN iffD1]) (simp add: no_olen_add_nat)
qed

lemma putfield_jumps:
  assumes "putfield_impl cd w v c st = Jump t' st'"
  shows "peek 2 st \<noteq> 0" "heap st' = mem_store w (peek 2 st + ic2 c) v (heap st)"
  using assms by (auto simp: putfield_impl_def Let_def STACK_POLYMORPHIC_NEXT_def STACK_POLYMORPHIC_JMP_def drop_sp_def
      split: if_splits)

text \<open>The executions of an unresolved instruction that lead back to it: register, state and code after \<open>n\<close> of
  them.\<close>

fun field_retries ::
    "field_env \<Rightarrow> field_ref \<Rightarrow> nat \<Rightarrow> analyzed_insn list \<Rightarrow> inline_cache list \<Rightarrow> tos_value \<Rightarrow> interp_state \<Rightarrow>
     (tos_value \<times> interp_state \<times> analyzed_insn list) option" where
  "field_retries env r 0 cd caches t st = Some (t, st, cd)"
| "field_retries env r (Suc n) cd caches t st =
     (case unresolved_field_step env r cd caches t st of
        Inr (Jump t st, cd, caches) \<Rightarrow> field_retries env r n cd caches t st
      | _ \<Rightarrow> None)"

lemma spill_spill [simp]: "spill t (spill t st) = spill t st"
  by (cases t) (simp_all add: poke_def)

lemma spill_frame [simp]: "pc (spill t st) = pc st" "sp (spill t st) = sp st" "length (stack_mem (spill t st)) = length (stack_mem st)"
  by (cases t; simp add: poke_def)+

text \<open>What a spill leaves is loaded back.\<close>

lemma load_spilled:
  assumes "t \<noteq> Tos_void" "0 < sp st" "sp st \<le> length (stack_mem st)"
  shows "load_tos (tos_kind t) (peek 1 (spill t st)) = t"
  using assms by (cases t) (simp_all add: poke_def peek_def slot_i_ucast)

text \<open>An object at 4096 of the class \<open>example_layout\<close>, and \<open>putfield\<close> of its \<open>int\<close> field, which lies at 24.\<close>

definition field_insn :: "insn_code_kind \<Rightarrow> reduced_tos_kind \<Rightarrow> analyzed_insn" where
  "field_insn k tos = \<lparr>kind = k, original_pc = 0, operand = No_operand, tos_before = tos, tos_after = TOS_VOID, delta = 0\<rparr>"

definition put_code :: "analyzed_insn list" where
  "put_code = [field_insn insn_putfield_I TOS_INT, field_insn insn_return TOS_VOID]"

definition put_state :: interp_state where
  "put_state = \<lparr>sp = 2, pc = 0, fuel = 9, stack_mem = [4096, 7], locals_mem = [], heap = \<lambda>_. 0\<rparr>"

definition after_put :: interp_state where
  "after_put = put_state\<lparr>sp := 0, pc := 1, heap := mem_store 4 4120 7 (\<lambda>_. 0)\<rparr>"

lemma put_runs:
  "field_handler put_code \<lparr>ic = 0, ic2 = 24\<rparr> insn_putfield_I (Tos_int 7) put_state = Some (Jump Tos_void after_put)"
  by (simp add: field_handler_def int_field_handler_def field_tables putfield_impl_def put_state_def after_put_def
      put_code_def field_insn_def peek_def drop_sp_def STACK_POLYMORPHIC_NEXT_def STACK_POLYMORPHIC_JMP_def Let_def)

section \<open>Properties of field access\<close>

text \<open>C12: Writing a field writes this field only. Take two instance fields \<open>i\<close> and \<open>j\<close> of a class as linking
  lays it out, and an object of that class. If \<open>putfield\<close> of \<open>i\<close> goes on to the next instruction, the
  object is not null, no byte outside its fields has changed, and \<open>getfield\<close> of \<open>j\<close> on it yields the
  value just written, narrowed to the kind of the field, when \<open>j\<close> is \<open>i\<close>, and what it yielded before
  otherwise.\<close>

theorem field_write_isolated:
  assumes "layout_class 8 padding super cd = Some cd'"
    and "unat (layout_base 8 padding super) + 16 * length (rc_fields cd) < 2 ^ 64"
    and "i < length (rc_fields cd)" "\<not> field_static (rc_fields cd' ! i)"
    and "j < length (rc_fields cd)" "\<not> field_static (rc_fields cd' ! j)"
    and "unat (peek 2 st) + unat (rc_instance_bytes cd') < 2 ^ 64"
  defines "f \<equiv> rc_fields cd' ! i" and "g \<equiv> rc_fields cd' ! j"
  assumes "getfield_putfield_resolved_kind True (field_kind f) = Some kp" "fits_kind (field_kind f) t"
    and "field_handler ins \<lparr>ic = x, ic2 = byte_offset f\<rparr> kp t st = Some (Jump t' st')"
    and "getfield_putfield_resolved_kind False (field_kind g) = Some kg" "heap s = heap st'"
  shows "peek 2 st \<noteq> 0 \<and>
    (\<forall>b. unat b < unat (peek 2 st) + unat (layout_base 8 padding super) \<or>
         unat (peek 2 st) + unat (rc_instance_bytes cd') \<le> unat b \<longrightarrow> heap st' b = heap st b) \<and>
    field_handler ins' \<lparr>ic = y, ic2 = byte_offset g\<rparr> kg (Tos_int (peek 2 st)) s =
      Some (next_with (if i = j then field_value (field_kind f) (tos_bits t)
        else field_value (field_kind g) (mem_load (kind_width (field_kind g)) (heap st) (peek 2 st + byte_offset g))) s)"
proof -
  define obj where "obj = peek 2 st"
  have put: "putfield_impl ins (kind_width (field_kind f)) (tos_bits t) \<lparr>ic = x, ic2 = byte_offset f\<rparr> st = Jump t' st'"
    using putfield_resolved [OF assms(10,11)] assms(12) by simp
  have obj: "obj \<noteq> 0" and h: "heap st' = mem_store (kind_width (field_kind f)) (obj + byte_offset f) (tos_bits t) (heap st)"
    using putfield_jumps [OF put] by (simp_all add: obj_def)
  note f = instance_field_range [OF assms(1-4,7), folded f_def obj_def]
  note g = instance_field_range [OF assms(1,2,5,6,7), folded g_def obj_def]
  note size = assms(7) [folded obj_def]
  have loaded: "field_value (field_kind g) (mem_load (kind_width (field_kind g)) (heap s) (obj + byte_offset g)) =
    (if i = j then field_value (field_kind f) (tos_bits t)
     else field_value (field_kind g) (mem_load (kind_width (field_kind g)) (heap st) (obj + byte_offset g)))"
  proof (cases "i = j")
    case True
    then show ?thesis
      using mem_load_store [OF kind_width_small] field_value_take_bit [OF assms(11)] by (simp add: assms(14) h f_def g_def)
  next
    case False
    then have "fields_disjoint 8 f g"
      using layout_parts [OF assms(1) _ assms(2)] assms(3-6) by (simp add: placed_inv_def f_def g_def)
    then show ?thesis
      using mem_load_store_apart [of "obj + byte_offset f" "kind_width (field_kind f)" "obj + byte_offset g" "kind_width (field_kind g)"]
        False f g size by (simp add: assms(14) h fields_disjoint_def field_end_def kind_width_field)
  qed
  have "heap st' b = heap st b" if "unat b < unat obj + unat (layout_base 8 padding super) \<or>
      unat obj + unat (rc_instance_bytes cd') \<le> unat b" for b
    unfolding h using that f size by (intro mem_store_outside) linarith+
  then show ?thesis
    using obj loaded getfield_resolved [OF assms(13)] by (simp add: getfield_impl_def obj_def)
qed

theorem field_write_isolated_witness:
  "field_handler [] \<lparr>ic = 0, ic2 = 24\<rparr> insn_getfield_I (Tos_int 4096) after_put = Some (next_with (Tos_int 7) after_put)"
proof -
  have "unat (layout_base 8 None None) + 16 * length (rc_fields example_layout) < 2 ^ 64"
    by (simp add: layout_base_def obj_header_size_def example_layout_def)
  then show ?thesis
    using field_write_isolated [OF example_layout_result, where i = 2 and j = 2 and x = 0 and y = 0 and t = "Tos_int 7"
        and st = put_state and st' = after_put and s = after_put and t' = Tos_void and ins = put_code and ins' = "[]"
        and kp = insn_putfield_I and kg = insn_getfield_I] put_runs
    by (simp add: example_layout_def example_field_def put_state_def peek_def access_set_def fits_kind_def sext_def
        getfield_putfield_resolved_kind_def)
qed

text \<open>C32: The accesses that natives use and those of the interpreter are the same: \<open>set_field\<close> leaves the heap
  that \<open>putfield\<close> leaves, and \<open>get_field\<close> returns the value that \<open>getfield\<close> puts into the register (for
  the kinds of four bytes and less, in the low half of the slot).\<close>

theorem native_access_agrees:
  assumes "getfield_putfield_resolved_kind True (field_kind f) = Some kp" "fits_kind (field_kind f) t"
    and "getfield_putfield_resolved_kind False (field_kind f) = Some kg"
    and "field_handler ins \<lparr>ic = x, ic2 = byte_offset f\<rparr> kp t st = Some (Jump t' st')"
    and "field_handler ins' \<lparr>ic = y, ic2 = byte_offset f\<rparr> kg (Tos_int obj) s = Some (Jump r s')"
  shows "set_field (peek 2 st) f (tos_bits t) (heap st) = Some (heap st') \<and>
    (\<exists>v. get_field old obj f (heap s) = Some v \<and> slot_i v = slot_i (tos_bits r) \<and>
         (kind_width (field_kind f) = 8 \<longrightarrow> v = tos_bits r))"
proof
  have put: "putfield_impl ins (kind_width (field_kind f)) (tos_bits t) \<lparr>ic = x, ic2 = byte_offset f\<rparr> st = Jump t' st'"
    using putfield_resolved [OF assms(1,2)] assms(4) by simp
  have low: "mem_store n a (ucast (slot_i v)) m = mem_store n a v m" if "n \<le> 4" for n a v m
    using low_store [OF refl that] by metis
  have byte: "(ucast (ucast (slot_i v) :: u64) :: u8) = ucast v" for v
    by (rule bit_word_eqI) (simp add: slot_i_def bit_simps)
  show "set_field (peek 2 st) f (tos_bits t) (heap st) = Some (heap st')"
    using putfield_jumps(2) [OF put] assms(1)
    by (cases "field_kind f") (simp_all add: set_field_def store_stack_value_def low byte kind_width_def sizeof_type_kind_def
        getfield_putfield_resolved_kind_def)
  have "r = field_value (field_kind f) (mem_load (kind_width (field_kind f)) (heap s) (obj + byte_offset f))"
    using getfield_resolved [OF assms(3)] assms(5) by (auto simp: getfield_impl_def next_with_def split: if_splits)
  then show "\<exists>v. get_field old obj f (heap s) = Some v \<and> slot_i v = slot_i (tos_bits r) \<and>
         (kind_width (field_kind f) = 8 \<longrightarrow> v = tos_bits r)"
    using assms(3)
    by (cases "field_kind f") (simp_all add: get_field_def load_stack_value_def kind_width_def sizeof_type_kind_def
        getfield_putfield_resolved_kind_def slot_casts)
qed

theorem native_access_agrees_witness:
  "set_field 4096 ((example_field TYPE_KIND_INT)\<lparr>byte_offset := 24\<rparr>) 7 (\<lambda>_. 0) = Some (heap after_put)"
proof -
  have "\<exists>r s'. field_handler [] \<lparr>ic = 0, ic2 = 24\<rparr> insn_getfield_I (Tos_int 4096) after_put = Some (Jump r s')"
    by (simp add: field_handler_def int_field_handler_def field_tables getfield_impl_def next_with_def)
  then obtain r s' where "field_handler [] \<lparr>ic = 0, ic2 = 24\<rparr> insn_getfield_I (Tos_int 4096) after_put = Some (Jump r s')"
    by blast
  then show ?thesis
    using native_access_agrees [of "(example_field TYPE_KIND_INT)\<lparr>byte_offset := 24\<rparr>" insn_putfield_I "Tos_int 7"
        insn_getfield_I put_code 0 put_state Tos_void after_put "[]" 0 4096 after_put r s'] put_runs
    by (simp add: example_field_def put_state_def peek_def fits_kind_def getfield_putfield_resolved_kind_def)
qed

text \<open>C38: An access to an instance field that does not exist never ends. \<open>resolve_field\<close> reports an error but
  raises no exception, \<open>TryResolve\<close> looks for an exception only and jumps back to the same instruction:
  however often it is executed, code, register and frame stay the same, and no fuel is used.\<close>

theorem missing_field_spins:
  assumes "pc st < length cd" "kind (cd ! pc st) = k" "k = insn_getfield \<and> t = Tos_int x \<or> k = insn_putfield"
    and "tos_before (cd ! pc st) = tos_kind t" "t \<noteq> Tos_void" "0 < sp st" "sp st \<le> length (stack_mem st)"
    and "peek (if k = insn_putfield then 2 else 1) (spill t st) \<noteq> 0"
    and "fe_class env (fr_class r) = Some c"
    and "field_lookup (fe_classes env) (fe_depth env) c (fr_name r) (fr_descriptor r) = Some None"
  shows "field_retries env r n cd caches t st = Some (t, if n = 0 then st else spill t st, cd)"
proof -
  have "resolve_insn env r k (spill t st) = Failed_without_exception"
    using assms(3,8-10) by (auto simp: resolve_insn_def resolve_getfield_putfield_def resolve_field_def)
  moreover have "retry cd k (spill t st) = Jump t (spill t st)"
    using assms(1,3,4) load_spilled [OF assms(5-7)] by (auto simp: retry_def STACK_POLYMORPHIC_JMP_def)
  ultimately have step: "unresolved_field_step env r cd caches t s = Inr (Jump t (spill t st), cd, caches)"
    if "spill t s = spill t st" for s
  proof -
    have "pc (spill t s) = pc st" using that by simp
    then show ?thesis using that assms(2) \<open>resolve_insn env r k (spill t st) = Failed_without_exception\<close>
      \<open>retry cd k (spill t st) = Jump t (spill t st)\<close> by (simp add: unresolved_field_step_def Let_def)
  qed
  have spins: "field_retries env r m cd caches t (spill t st) = Some (t, spill t st, cd)" for m
    by (induction m) (simp_all add: step)
  show ?thesis by (cases n) (simp_all add: step spins)
qed

theorem missing_field_spins_witness:
  "field_retries \<lparr>fe_classes = \<lambda>_. example_class None [], fe_class = \<lambda>_. Some 0, fe_statics = \<lambda>_. 0, fe_depth = 1\<rparr>
     \<lparr>fr_class = 0, fr_name = ''f'', fr_descriptor = ''I'', fr_parsed = f_parsed_descriptor (example_field TYPE_KIND_INT)\<rparr>
     1000 [field_insn insn_getfield TOS_INT] [] (Tos_int 4096) (put_state\<lparr>sp := 1, stack_mem := [0]\<rparr>) =
   Some (Tos_int 4096, spill (Tos_int 4096) (put_state\<lparr>sp := 1, stack_mem := [0]\<rparr>), [field_insn insn_getfield TOS_INT])"
  by (subst missing_field_spins [where k = insn_getfield and x = 4096 and c = 0])
    (simp_all add: put_state_def field_insn_def example_class_def peek_def poke_def)

end
