(* ===== verification/Control_Flow.thy ===== *)
theory Control_Flow
  imports Analysis
begin

text \<open>
  Model of the second half of \<open>vm/analysis.c\<close>, which prepares methods for the compiler: the division of the
  code into basic blocks, the depth-first numbering, the dominator tree, and the test whether the
  control-flow graph is reducible. A graph is the list of the successor lists of its blocks.
\<close>

section \<open>Graphs\<close>

type_synonym graph = "nat list list"

definition edges :: "graph \<Rightarrow> (nat \<times> nat) set" where
  "edges g = {(u, v). u < length g \<and> v \<in> set (g ! u)}"

definition graph_wf :: "graph \<Rightarrow> bool" where
  "graph_wf g \<longleftrightarrow> list_all (list_all (\<lambda>v. v < length g)) g"

lemma graph_wfD: "graph_wf g \<Longrightarrow> u < length g \<Longrightarrow> v \<in> set (g ! u) \<Longrightarrow> v < length g"
  using nth_mem [of u g] by (auto simp: graph_wf_def list_all_iff)

lemma edges_bound: "graph_wf g \<Longrightarrow> (u, v) \<in> edges g \<Longrightarrow> u < length g \<and> v < length g"
  by (auto simp: edges_def dest: graph_wfD)

lemma edges_reach_bound: "(u, v) \<in> (edges g)\<^sup>* \<Longrightarrow> graph_wf g \<Longrightarrow> u < length g \<Longrightarrow> v < length g"
  by (induction rule: rtrancl_induct) (auto dest: edges_bound)

section \<open>Basic blocks\<close>

record basic_block =
  my_index :: nat
  start_index :: nat
  block_insn_count :: nat
  block_next :: "nat list"
  is_backedge :: "bool list"
  block_prev :: "nat list"
  dfs_pre :: nat
  dfs_post :: nat
  idom :: nat
  idominates :: "nat list"
  idom_pre :: nat
  idom_post :: nat
  is_loop_header :: bool
  nothrow_accessible :: bool

definition is_branch :: "insn_code_kind \<Rightarrow> bool" where
  "is_branch k \<longleftrightarrow> insn_goto \<le> k \<and> k \<le> insn_ifnull"

text \<open>The targets an instruction marks; \<open>None\<close> is a read of a member of the operand that is not set.\<close>

definition insn_targets :: "nat \<Rightarrow> analyzed_insn \<Rightarrow> nat list option" where
  "insn_targets i insn =
     (if is_branch (kind insn) then
        (case operand insn of
           Index t \<Rightarrow> Some (unat t # (if kind insn \<noteq> insn_goto then [i + 1] else []))
         | _ \<Rightarrow> None)
      else if kind insn = insn_tableswitch then
        (case operand insn of
           Tableswitch d \<Rightarrow> Some (map nat (ts_default_target d # ts_targets d))
         | _ \<Rightarrow> None)
      else if kind insn = insn_lookupswitch then
        (case operand insn of
           Lookupswitch d \<Rightarrow> Some (map nat (ls_default_target d # ls_targets d))
         | _ \<Rightarrow> None)
      else Some [])"

fun mark_targets :: "nat \<Rightarrow> analyzed_insn list \<Rightarrow> nat list option" where
  "mark_targets i [] = Some []"
| "mark_targets i (insn # insns) =
     (case (insn_targets i insn, mark_targets (i + 1) insns) of
        (Some ts, Some rest) \<Rightarrow> Some (ts @ rest)
      | _ \<Rightarrow> None)"

text \<open>The array \<open>ts\<close> has \<open>max_formal_pc\<close> elements; it is sorted and loses its duplicates.\<close>

definition block_starts :: "int \<Rightarrow> analyzed_insn list \<Rightarrow> nat list option" where
  "block_starts max_pc cd =
     (case mark_targets 0 cd of
        None \<Rightarrow> None
      | Some ts \<Rightarrow> if int (length (0 # ts)) > max_pc then None else Some (remdups_adj (sort (0 # ts))))"

definition block_length :: "nat \<Rightarrow> nat list \<Rightarrow> nat \<Rightarrow> nat" where
  "block_length insn_count ts i =
     (if i + 1 < length ts then ts ! (i + 1) - ts ! i else insn_count - ts ! i)"

text \<open>\<open>FIND_TARGET_BLOCK\<close>: \<open>bsearch\<close> in the sorted array.\<close>

fun find_target_block :: "nat list \<Rightarrow> nat \<Rightarrow> nat option" where
  "find_target_block [] x = None"
| "find_target_block (t # ts) x = (if t = x then Some 0 else map_option Suc (find_target_block ts x))"

fun find_target_blocks :: "nat list \<Rightarrow> nat list \<Rightarrow> nat list option" where
  "find_target_blocks ts [] = Some []"
| "find_target_blocks ts (x # xs) =
     (case (find_target_block ts x, find_target_blocks ts xs) of
        (Some b, Some bs) \<Rightarrow> Some (b # bs)
      | _ \<Rightarrow> None)"

text \<open>The edges of block \<open>i\<close>, from its last instruction. The last instruction of an empty block is the one
  before its start.\<close>

definition block_edges :: "analyzed_insn list \<Rightarrow> nat list \<Rightarrow> nat \<Rightarrow> nat list option" where
  "block_edges cd ts i =
     (let l = ts ! i + block_length (length cd) ts i - 1;
          last = cd ! l;
          fall = (if i + 1 < length ts then [i + 1] else [])
      in if l \<ge> length cd then None
         else if is_branch (kind last) then
           (case operand last of
              Index t \<Rightarrow>
                map_option (\<lambda>b. b # (if kind last = insn_goto then [] else fall)) (find_target_block ts (unat t))
            | _ \<Rightarrow> None)
         else if kind last = insn_tableswitch then
           (case operand last of
              Tableswitch d \<Rightarrow> find_target_blocks ts (map nat (ts_default_target d # ts_targets d))
            | _ \<Rightarrow> None)
         else if kind last = insn_lookupswitch then
           (case operand last of
              Lookupswitch d \<Rightarrow> find_target_blocks ts (map nat (ls_default_target d # ls_targets d))
            | _ \<Rightarrow> None)
         else Some fall)"

fun all_edges :: "analyzed_insn list \<Rightarrow> nat list \<Rightarrow> nat list \<Rightarrow> graph option" where
  "all_edges cd ts [] = Some []"
| "all_edges cd ts (i # is) =
     (case (block_edges cd ts i, all_edges cd ts is) of
        (Some es, Some g) \<Rightarrow> Some (es # g)
      | _ \<Rightarrow> None)"

lemma count_unmarked_less:
  "i < length xs \<Longrightarrow> \<not> xs ! i \<Longrightarrow> length (filter Not (xs[i := True])) < length (filter Not xs)"
proof (induction xs arbitrary: i)
  case (Cons x xs)
  then show ?case by (cases i) simp_all
qed simp

text \<open>\<open>dfs_nothrow_accessible\<close>, with the calls that are still to be made as a list.\<close>

function dfs_nothrow_accessible :: "graph \<Rightarrow> nat list \<Rightarrow> bool list \<Rightarrow> bool list" where
  "dfs_nothrow_accessible g [] accessible = accessible"
| "dfs_nothrow_accessible g (i # todo) accessible =
     (if i < length accessible \<and> \<not> accessible ! i
      then dfs_nothrow_accessible g (g ! i @ todo) (accessible[i := True])
      else dfs_nothrow_accessible g todo accessible)"
  by pat_completeness auto

termination
  by (relation "(\<lambda>(g, todo, accessible). length (filter Not accessible)) <*mlex*> measure (\<lambda>(g, todo, accessible). length todo)")
    (auto simp: wf_mlex mlex_iff count_unmarked_less)

text \<open>The blocks that are kept get the new number \<open>ts[i] = j++\<close>; \<open>prev\<close> is filled in the order of the
  edges.\<close>

definition new_number :: "bool list \<Rightarrow> nat \<Rightarrow> nat" where
  "new_number accessible i = length (filter id (take i accessible))"

definition kept_blocks :: "bool list \<Rightarrow> nat list" where
  "kept_blocks accessible = filter (\<lambda>i. accessible ! i) [0..<length accessible]"

fun push_prev :: "nat \<Rightarrow> nat list \<Rightarrow> graph \<Rightarrow> graph" where
  "push_prev b [] preds = preds"
| "push_prev b (v # vs) preds = push_prev b vs (preds[v := preds ! v @ [b]])"

fun push_prevs :: "nat \<Rightarrow> graph \<Rightarrow> graph \<Rightarrow> graph" where
  "push_prevs b [] preds = preds"
| "push_prevs b (vs # g) preds = push_prevs (Suc b) g (push_prev b vs preds)"

definition make_block :: "nat \<Rightarrow> nat \<Rightarrow> nat \<Rightarrow> nat list \<Rightarrow> nat list \<Rightarrow> basic_block" where
  "make_block i start n succs preds =
     \<lparr>my_index = i, start_index = start, block_insn_count = n, block_next = succs,
      is_backedge = replicate (length succs) False, block_prev = preds, dfs_pre = 0, dfs_post = 0, idom = 0,
      idominates = [], idom_pre = 0, idom_post = 0, is_loop_header = False, nothrow_accessible = True\<rparr>"

definition scan_basic_blocks :: "int \<Rightarrow> analyzed_insn list \<Rightarrow> basic_block list option" where
  "scan_basic_blocks max_pc cd =
     (case block_starts max_pc cd of
        None \<Rightarrow> None
      | Some ts \<Rightarrow>
          (case all_edges cd ts [0..<length ts] of
             None \<Rightarrow> None
           | Some g \<Rightarrow>
               let accessible = dfs_nothrow_accessible g [0] (replicate (length ts) False);
                   kept = kept_blocks accessible;
                   succs = map (\<lambda>i. map (new_number accessible) (g ! i)) kept;
                   preds = push_prevs 0 succs (replicate (length kept) [])
               in Some (map (\<lambda>j. make_block j (ts ! (kept ! j)) (block_length (length cd) ts (kept ! j)) (succs ! j) (preds ! j))
                          [0..<length kept])))"

definition graph_of :: "basic_block list \<Rightarrow> graph" where
  "graph_of bs = map block_next bs"

section \<open>The search marks what is reachable\<close>

lemma dfs_step [simp]:
  "dfs_nothrow_accessible g [] accessible = accessible"
  "i < length accessible \<Longrightarrow> \<not> accessible ! i \<Longrightarrow>
     dfs_nothrow_accessible g (i # todo) accessible = dfs_nothrow_accessible g (g ! i @ todo) (accessible[i := True])"
  "i < length accessible \<longrightarrow> accessible ! i \<Longrightarrow>
     dfs_nothrow_accessible g (i # todo) accessible = dfs_nothrow_accessible g todo accessible"
  by auto

declare dfs_nothrow_accessible.simps(2) [simp del]

lemma length_dfs [simp]: "length (dfs_nothrow_accessible g todo accessible) = length accessible"
  by (induction g todo accessible rule: dfs_nothrow_accessible.induct) (simp_all add: dfs_nothrow_accessible.simps(2))

lemma dfs_keeps:
  "i < length accessible \<Longrightarrow> accessible ! i \<Longrightarrow> dfs_nothrow_accessible g todo accessible ! i"
  by (induction g todo accessible rule: dfs_nothrow_accessible.induct) (auto simp: nth_list_update dfs_nothrow_accessible.simps(2))

lemma dfs_sound:
  assumes "v < length accessible" "dfs_nothrow_accessible g todo accessible ! v" "length accessible = length g"
  shows "accessible ! v \<or> (\<exists>u \<in> set todo. (u, v) \<in> (edges g)\<^sup>*)"
  using assms
proof (induction g todo accessible rule: dfs_nothrow_accessible.induct)
  case (2 g i todo accessible)
  show ?case
  proof (cases "i < length accessible \<and> \<not> accessible ! i")
    case True
    then have "accessible[i := True] ! v \<or> (\<exists>u \<in> set (g ! i @ todo). (u, v) \<in> (edges g)\<^sup>*)"
      using 2 by simp
    moreover have "(i, v) \<in> (edges g)\<^sup>*" if "u \<in> set (g ! i)" "(u, v) \<in> (edges g)\<^sup>*" for u
      using that True 2(5) by (auto simp: edges_def intro: converse_rtrancl_into_rtrancl)
    moreover have "accessible[i := True] ! v \<Longrightarrow> v = i \<or> accessible ! v" by (cases "v = i") simp_all
    ultimately show ?thesis by auto
  next
    case False
    then show ?thesis using 2 by auto
  qed
qed simp

text \<open>As long as the successors of marked nodes are marked or still to be visited, the result is closed.\<close>

lemma dfs_closed:
  assumes "graph_wf g" "length accessible = length g" "\<forall>u \<in> set todo. u < length g"
    and "\<forall>u < length g. accessible ! u \<longrightarrow> (\<forall>v \<in> set (g ! u). accessible ! v \<or> v \<in> set todo)"
  defines "r \<equiv> dfs_nothrow_accessible g todo accessible"
  shows "(\<forall>u \<in> set todo. r ! u) \<and> (\<forall>u < length g. r ! u \<longrightarrow> (\<forall>v \<in> set (g ! u). r ! v))"
  using assms(1-4) unfolding r_def
proof (induction g todo accessible rule: dfs_nothrow_accessible.induct)
  case (2 g i todo accessible)
  show ?case
  proof (cases "i < length accessible \<and> \<not> accessible ! i")
    case True
    have "(\<forall>u \<in> set (g ! i @ todo). dfs_nothrow_accessible g (g ! i @ todo) (accessible[i := True]) ! u) \<and>
      (\<forall>u < length g. dfs_nothrow_accessible g (g ! i @ todo) (accessible[i := True]) ! u \<longrightarrow>
        (\<forall>v \<in> set (g ! u). dfs_nothrow_accessible g (g ! i @ todo) (accessible[i := True]) ! v))"
    proof (rule 2(1) [OF True])
      show "\<forall>u \<in> set (g ! i @ todo). u < length g" using 2(3,4,5) True by (auto dest: graph_wfD)
      show "\<forall>u < length g. accessible[i := True] ! u \<longrightarrow>
          (\<forall>v \<in> set (g ! u). accessible[i := True] ! v \<or> v \<in> set (g ! i @ todo))"
      proof (intro allI impI ballI)
        fix u v assume u: "u < length g" "accessible[i := True] ! u" "v \<in> set (g ! u)"
        show "accessible[i := True] ! v \<or> v \<in> set (g ! i @ todo)"
        proof (cases "u = i \<or> v = i")
          case False
          then have "accessible ! u" using u(2) by simp
          then have "accessible ! v \<or> v \<in> set (i # todo)" using 2(6) u(1,3) by blast
          then show ?thesis using False by auto
        qed (use u True in auto)
      qed
    qed (use 2 in simp_all)
    then show ?thesis using True dfs_keeps [of i "accessible[i := True]"] by auto
  next
    case False
    then show ?thesis using 2 dfs_keeps [of i accessible g todo] by auto
  qed
qed simp

lemma dfs_reachable:
  assumes "graph_wf g" "v < length g" "0 < length g"
  shows "dfs_nothrow_accessible g [0] (replicate (length g) False) ! v \<longleftrightarrow> (0, v) \<in> (edges g)\<^sup>*"
proof
  let ?r = "dfs_nothrow_accessible g [0] (replicate (length g) False)"
  show "?r ! v \<Longrightarrow> (0, v) \<in> (edges g)\<^sup>*"
    using dfs_sound [of v "replicate (length g) False" g "[0]"] assms by simp
  have closed: "?r ! 0" "\<And>u v. u < length g \<Longrightarrow> ?r ! u \<Longrightarrow> v \<in> set (g ! u) \<Longrightarrow> ?r ! v"
    using dfs_closed [OF assms(1), of "replicate (length g) False" "[0]"] assms(3) by simp_all
  show "(0, v) \<in> (edges g)\<^sup>* \<Longrightarrow> ?r ! v"
    by (induction rule: rtrancl_induct) (use closed in \<open>auto simp: edges_def\<close>)
qed

section \<open>Renumbering\<close>

lemma kept_blocks_snoc: "kept_blocks (acc @ [b]) = kept_blocks acc @ (if b then [length acc] else [])"
  by (auto simp: kept_blocks_def nth_append intro: filter_cong)

lemma length_kept: "length (kept_blocks acc) = length (filter id acc)"
  by (induction acc rule: rev_induct) (simp_all add: kept_blocks_snoc, simp add: kept_blocks_def)

lemma kept_new_number:
  assumes "i < length acc" "acc ! i"
  shows "new_number acc i < length (kept_blocks acc) \<and> kept_blocks acc ! new_number acc i = i"
  using assms
proof (induction acc rule: rev_induct)
  case (snoc b acc)
  show ?case
  proof (cases "i < length acc")
    case True
    then have "new_number (acc @ [b]) i = new_number acc i" by (simp add: new_number_def)
    then show ?thesis using snoc True by (simp add: kept_blocks_snoc nth_append)
  next
    case False
    then have "i = length acc" "b" using snoc.prems by (simp_all add: nth_append)
    then show ?thesis by (simp add: kept_blocks_snoc new_number_def length_kept nth_append)
  qed
qed simp

lemma new_number_kept:
  assumes "j < length (kept_blocks acc)"
  shows "kept_blocks acc ! j < length acc \<and> acc ! (kept_blocks acc ! j) \<and> new_number acc (kept_blocks acc ! j) = j"
proof -
  let ?k = "kept_blocks acc ! j"
  have "?k \<in> set (kept_blocks acc)" using assms by simp
  then have k: "?k < length acc" "acc ! ?k" by (auto simp: kept_blocks_def)
  have "distinct (kept_blocks acc)" by (simp add: kept_blocks_def)
  then have "new_number acc ?k = j"
    using kept_new_number [OF k] assms nth_eq_iff_index_eq [of "kept_blocks acc" "new_number acc ?k" j] by simp
  then show ?thesis using k by simp
qed

lemma kept_sorted: "sorted_wrt (<) (kept_blocks acc)"
  by (simp add: kept_blocks_def sorted_wrt_filter)

lemma length_push_prev [simp]: "length (push_prev b vs preds) = length preds"
  by (induction b vs preds rule: push_prev.induct) simp_all

lemma count_push_prev:
  "list_all (\<lambda>v. v < length preds) vs \<Longrightarrow> v < length preds \<Longrightarrow>
     count_list (push_prev b vs preds ! v) a = count_list (preds ! v) a + (if a = b then count_list vs v else 0)"
  by (induction b vs preds rule: push_prev.induct) (auto simp: nth_list_update)

lemma count_push_prevs:
  "list_all (list_all (\<lambda>v. v < length preds)) g \<Longrightarrow> v < length preds \<Longrightarrow>
     count_list (push_prevs b g preds ! v) a =
     count_list (preds ! v) a + (if b \<le> a \<and> a < b + length g then count_list (g ! (a - b)) v else 0)"
proof (induction b g preds rule: push_prevs.induct)
  case (2 b vs g preds)
  then show ?case using count_push_prev [of preds vs v b a]
    by (cases "a = b") (auto simp: nth_Cons' Suc_diff_le Suc_le_eq)
qed simp

section \<open>The graph of the blocks\<close>

lemma find_target_block_Some: "find_target_block ts x = Some b \<Longrightarrow> b < length ts \<and> ts ! b = x"
  by (induction ts arbitrary: b) (auto split: if_splits)

lemma find_target_blocks_Some: "find_target_blocks ts xs = Some bs \<Longrightarrow> list_all (\<lambda>b. b < length ts) bs"
  by (induction xs arbitrary: bs) (auto split: option.splits dest: find_target_block_Some)

lemma block_edges_bound: "block_edges cd ts i = Some es \<Longrightarrow> list_all (\<lambda>b. b < length ts) es"
  by (auto simp: block_edges_def Let_def split: if_splits insn_operand.splits option.splits
      dest: find_target_block_Some find_target_blocks_Some)

lemma all_edges_Some:
  "all_edges cd ts is = Some g \<Longrightarrow> length g = length is \<and> list_all (list_all (\<lambda>b. b < length ts)) g"
  by (induction "is" arbitrary: g) (auto split: option.splits dest: block_edges_bound)

lemma marked_subset:
  "mark_targets i cd = Some ts \<Longrightarrow> k < length cd \<Longrightarrow> insn_targets (i + k) (cd ! k) = Some xs \<Longrightarrow> set xs \<subseteq> set ts"
proof (induction cd arbitrary: i k ts)
  case (Cons insn cd)
  then show ?case
  proof (cases k)
    case (Suc m)
    then show ?thesis using Cons.prems Cons.IH [of "i + 1" _ m] by (auto split: option.splits)
  qed (auto split: option.splits)
qed simp

lemma strictly_sorted: "sorted xs \<Longrightarrow> distinct_adj xs \<Longrightarrow> sorted_wrt (<) (xs :: nat list)"
  by (induction xs rule: induct_list012) (auto simp: le_less)

lemma sorted_gap:
  fixes ts :: "nat list"
  assumes "sorted_wrt (<) ts" "i < k" "k < length ts"
  shows "ts ! i < ts ! (i + 1)" "ts ! (i + 1) \<le> ts ! k"
  using assms by (simp add: sorted_wrt_iff_nth_less)
    (cases "i + 1 = k"; use assms in \<open>simp add: sorted_wrt_iff_nth_less less_imp_le\<close>)

lemma block_starts_ok:
  assumes "block_starts max_pc cd = Some ts"
  shows "ts \<noteq> []" "sorted_wrt (<) ts" "ts ! 0 = 0"
    and "k < length cd \<Longrightarrow> insn_targets k (cd ! k) = Some xs \<Longrightarrow> set xs \<subseteq> set ts"
proof -
  obtain us where us: "mark_targets 0 cd = Some us" and ts: "ts = remdups_adj (sort (0 # us))"
    using assms by (auto simp: block_starts_def split: option.splits if_splits)
  have s: "set ts = insert 0 (set us)" by (simp add: ts set_insort_key)
  show ne: "ts \<noteq> []" using s by auto
  show sorted: "sorted_wrt (<) ts"
    unfolding ts by (intro strictly_sorted sorted_remdups_adj sorted_sort distinct_adj_remdups_adj)
  have "0 \<in> set ts" using s by simp
  then show "ts ! 0 = 0"
    using sorted by (cases ts) auto
  show "set xs \<subseteq> set ts" if "k < length cd" "insn_targets k (cd ! k) = Some xs"
    using marked_subset [OF us that(1)] that(2) s by auto
qed

text \<open>No marked instruction lies strictly inside a block.\<close>

lemma nothing_inside:
  assumes "sorted_wrt (<) ts" "i < length ts" "x \<in> set ts" "ts ! i < x"
  shows "x \<ge> ts ! i + block_length n ts i \<or> n \<le> x"
proof -
  obtain k where k: "k < length ts" "x = ts ! k" using assms(3) by (auto simp: in_set_conv_nth)
  have "i < k"
    using assms(1,2,4) k sorted_wrt_nth_less [OF assms(1), of k i] by (cases k i rule: linorder_cases) auto
  then show ?thesis using sorted_gap [OF assms(1), of i k] k by (simp add: block_length_def)
qed

text \<open>What a successful scan has computed.\<close>

lemma scan_parts:
  assumes "scan_basic_blocks max_pc cd = Some bs"
  obtains ts g where "block_starts max_pc cd = Some ts" "graph_wf g" "length g = length ts"
    and "length bs = length (kept_blocks (dfs_nothrow_accessible g [0] (replicate (length ts) False)))"
    and "\<And>j. j < length bs \<Longrightarrow> let acc = dfs_nothrow_accessible g [0] (replicate (length ts) False);
           succs = map (\<lambda>i. map (new_number acc) (g ! i)) (kept_blocks acc)
         in bs ! j = make_block j (ts ! (kept_blocks acc ! j)) (block_length (length cd) ts (kept_blocks acc ! j))
              (succs ! j) (push_prevs 0 succs (replicate (length bs) []) ! j)"
proof -
  obtain ts g where ts: "block_starts max_pc cd = Some ts" and g: "all_edges cd ts [0..<length ts] = Some g"
    using assms by (auto simp: scan_basic_blocks_def split: option.splits)
  have len: "length g = length ts" "graph_wf g" using all_edges_Some [OF g] by (simp_all add: graph_wf_def)
  show thesis
    using assms ts g len by (intro that [of ts g]) (auto simp: scan_basic_blocks_def Let_def)
qed

text \<open>The kept blocks are those reachable from the entry; renumbering keeps edges and reachability.\<close>

lemma renumbered_graph:
  assumes "graph_wf g" "0 < length g"
  defines "acc \<equiv> dfs_nothrow_accessible g [0] (replicate (length g) False)"
  defines "g' \<equiv> map (\<lambda>i. map (new_number acc) (g ! i)) (kept_blocks acc)"
  shows "graph_wf g'" "new_number acc 0 = 0" "kept_blocks acc \<noteq> []" "kept_blocks acc ! 0 = 0"
    and "j < length g' \<Longrightarrow> (0, j) \<in> (edges g')\<^sup>*"
proof -
  have acc: "length acc = length g" by (simp add: acc_def)
  have reach: "acc ! v \<longleftrightarrow> (0, v) \<in> (edges g)\<^sup>*" if "v < length g" for v
    unfolding acc_def using dfs_reachable [OF assms(1) that assms(2)] .
  have succ: "v < length acc \<and> acc ! v" if "u < length g" "acc ! u" "v \<in> set (g ! u)" for u v
  proof -
    have "v < length g" using graph_wfD [OF assms(1) that(1,3)] .
    moreover have "(0, v) \<in> (edges g)\<^sup>*"
      by (rule rtrancl_into_rtrancl [of 0 u]) (use that reach [of u] in \<open>simp_all add: edges_def\<close>)
    ultimately show ?thesis using reach acc by simp
  qed
  have zero: "acc ! 0" using reach [OF assms(2)] by simp
  show n0: "new_number acc 0 = 0" by (simp add: new_number_def)
  show k0: "kept_blocks acc \<noteq> []" "kept_blocks acc ! 0 = 0"
    using kept_new_number [of 0 acc] zero acc assms(2) n0 by auto
  show "graph_wf g'"
    unfolding graph_wf_def list_all_length [of _ g']
  proof (intro allI impI)
    fix j assume j: "j < length g'"
    let ?u = "kept_blocks acc ! j"
    have "?u < length g" "acc ! ?u" using new_number_kept [of j acc] j acc by (simp_all add: g'_def)
    then show "list_all (\<lambda>v. v < length g') (g' ! j)"
      using succ kept_new_number [of _ acc] j by (simp add: g'_def list_all_iff)
  qed
  have "(0, v) \<in> (edges g)\<^sup>* \<Longrightarrow> (0, new_number acc v) \<in> (edges g')\<^sup>*" for v
  proof (induction rule: rtrancl_induct)
    case (step u v)
    have u: "u < length g" "v \<in> set (g ! u)" using step(2) by (auto simp: edges_def)
    have k: "new_number acc u < length (kept_blocks acc)" "kept_blocks acc ! new_number acc u = u"
      using kept_new_number [of u acc] reach [OF u(1)] step(1) u(1) acc by auto
    then have "(new_number acc u, new_number acc v) \<in> edges g'"
      using u(2) by (simp add: edges_def g'_def)
    then show ?case by (rule rtrancl_into_rtrancl [OF step(3)])
  qed (simp add: n0)
  then show "(0, j) \<in> (edges g')\<^sup>*" if "j < length g'"
    using new_number_kept [of j acc] that reach acc by (simp add: g'_def) metis
qed


section \<open>Depth-first numbering\<close>

text \<open>The arrays of \<open>compute_dominator_tree\<close> that \<open>get_dfs_tree\<close> fills; \<open>-1\<close> marks blocks not yet numbered.\<close>

record dfs_tree =
  block_to_pre :: "int list"
  pre_to_block :: "nat list"
  dt_parent :: "nat list"
  preorder_clock :: nat
  postorder_clock :: nat
  dt_blocks :: "basic_block list"

text \<open>The first argument bounds the depth of the recursion.\<close>

fun get_dfs_tree :: "nat \<Rightarrow> nat \<Rightarrow> dfs_tree \<Rightarrow> dfs_tree option"
  and get_dfs_trees :: "nat \<Rightarrow> nat \<Rightarrow> nat list \<Rightarrow> dfs_tree \<Rightarrow> dfs_tree option" where
  "get_dfs_tree 0 i t = None"
| "get_dfs_tree (Suc n) i t =
     (let c = preorder_clock t;
          t = t\<lparr>pre_to_block := (pre_to_block t)[c := i], block_to_pre := (block_to_pre t)[i := int c],
                preorder_clock := c + 1, dt_blocks := (dt_blocks t)[i := (dt_blocks t ! i)\<lparr>dfs_pre := c\<rparr>]\<rparr>
      in case get_dfs_trees n i (block_next (dt_blocks t ! i)) t of
           None \<Rightarrow> None
         | Some t \<Rightarrow>
             Some (t\<lparr>dt_blocks := (dt_blocks t)[i := (dt_blocks t ! i)\<lparr>dfs_post := postorder_clock t\<rparr>],
                     postorder_clock := postorder_clock t + 1\<rparr>))"
| "get_dfs_trees n i [] t = Some t"
| "get_dfs_trees n i (v # vs) t =
     (if block_to_pre t ! v = -1
      then (case get_dfs_tree n v (t\<lparr>dt_parent := (dt_parent t)[v := i]\<rparr>) of
              None \<Rightarrow> None
            | Some t \<Rightarrow> get_dfs_trees n i vs t)
      else get_dfs_trees n i vs t)"

section \<open>The dominator tree\<close>

text \<open>\<open>root = F[root] = F[F[root]]\<close> until \<open>F[root] == root\<close>.\<close>

fun find_root :: "nat \<Rightarrow> nat list \<Rightarrow> nat \<Rightarrow> (nat \<times> nat list) option" where
  "find_root 0 forest root = None"
| "find_root (Suc n) forest root =
     (if forest ! root = root then Some (root, forest)
      else let r = forest ! (forest ! root) in find_root n (forest[root := r]) r)"

text \<open>The \<open>do\<close> loop from \<open>prev\<close> to \<open>root\<close>, with the numbers of the semidominators.\<close>

fun walk_to_root :: "nat \<Rightarrow> int list \<Rightarrow> nat list \<Rightarrow> nat list \<Rightarrow> nat \<Rightarrow> nat \<Rightarrow> int \<Rightarrow> int option" where
  "walk_to_root 0 b2p parent semidom prev root sd = None"
| "walk_to_root (Suc n) b2p parent semidom prev root sd =
     (let sd = min sd (b2p ! (semidom ! prev)); prev = parent ! prev
      in if prev = root then Some sd else walk_to_root n b2p parent semidom prev root sd)"

definition INT_MAX :: int where "INT_MAX = 2147483647"

text \<open>The loop over the predecessors of block \<open>i\<close>, whose number is \<open>p\<close>.\<close>

fun semidominator :: "nat \<Rightarrow> int list \<Rightarrow> nat list \<Rightarrow> nat list \<Rightarrow> nat \<Rightarrow> nat \<Rightarrow> nat list \<Rightarrow> nat list \<Rightarrow> int \<Rightarrow>
     (int \<times> nat list) option" where
  "semidominator n b2p parent semidom i p [] forest sd = Some (sd, forest)"
| "semidominator n b2p parent semidom i p (prev # prevs) forest sd =
     (if prev = i then semidominator n b2p parent semidom i p prevs forest sd
      else if b2p ! prev < int p then semidominator n b2p parent semidom i p prevs forest (min sd (b2p ! prev))
      else case find_root n forest prev of
             None \<Rightarrow> None
           | Some (root, forest) \<Rightarrow>
               (case walk_to_root n b2p parent semidom prev root sd of
                  None \<Rightarrow> None
                | Some sd \<Rightarrow> semidominator n b2p parent semidom i p prevs forest sd))"

text \<open>The loop over the blocks in reverse order of their numbers \<open>ps\<close>; \<open>doms\<close> are the lists \<open>idominates\<close>.\<close>

fun semidominators :: "nat \<Rightarrow> dfs_tree \<Rightarrow> nat list \<Rightarrow> nat list \<Rightarrow> nat list \<Rightarrow> graph \<Rightarrow> (nat list \<times> graph) option" where
  "semidominators n t [] forest semidom doms = Some (semidom, doms)"
| "semidominators n t (p # ps) forest semidom doms =
     (let i = pre_to_block t ! p
      in case semidominator n (block_to_pre t) (dt_parent t) semidom i p (block_prev (dt_blocks t ! i)) forest INT_MAX of
           None \<Rightarrow> None
         | Some (sd, forest) \<Rightarrow>
             if sd \<ge> int (length (pre_to_block t)) then None
             else let s = pre_to_block t ! nat sd
                  in semidominators n t ps (forest[i := dt_parent t ! i]) (semidom[i := s]) (doms[s := doms ! s @ [i]]))"

text \<open>The walk from \<open>walk\<close> up to block \<open>i\<close>. The comment asks for the minimum of the semidominators; the code
  compares the numbers of the blocks themselves.\<close>

fun relative_dominator :: "nat \<Rightarrow> int list \<Rightarrow> nat list \<Rightarrow> nat \<Rightarrow> nat \<Rightarrow> int \<Rightarrow> nat \<Rightarrow> nat option" where
  "relative_dominator 0 b2p parent i walk mn r = None"
| "relative_dominator (Suc n) b2p parent i walk mn r =
     (if walk = i then Some r
      else if b2p ! walk < mn then relative_dominator n b2p parent i (parent ! walk) (b2p ! walk) walk
      else relative_dominator n b2p parent i (parent ! walk) mn r)"

fun relative_dominators :: "nat \<Rightarrow> dfs_tree \<Rightarrow> nat \<Rightarrow> nat list \<Rightarrow> nat list \<Rightarrow> nat list option" where
  "relative_dominators n t i [] reldom = Some reldom"
| "relative_dominators n t i (w # ws) reldom =
     (case relative_dominator n (block_to_pre t) (dt_parent t) i w INT_MAX (reldom ! w) of
        None \<Rightarrow> None
      | Some r \<Rightarrow> relative_dominators n t i ws (reldom[w := r]))"

fun all_relative_dominators :: "nat \<Rightarrow> dfs_tree \<Rightarrow> graph \<Rightarrow> nat list \<Rightarrow> nat list \<Rightarrow> nat list option" where
  "all_relative_dominators n t doms [] reldom = Some reldom"
| "all_relative_dominators n t doms (i # is) reldom =
     (case relative_dominators n t i (doms ! i) reldom of
        None \<Rightarrow> None
      | Some reldom \<Rightarrow> all_relative_dominators n t doms is reldom)"

text \<open>The last pass, in the order of the numbers.\<close>

fun immediate_dominators :: "dfs_tree \<Rightarrow> nat list \<Rightarrow> nat list \<Rightarrow> nat list \<Rightarrow> basic_block list \<Rightarrow> basic_block list" where
  "immediate_dominators t semidom reldom [] bs = bs"
| "immediate_dominators t semidom reldom (p # ps) bs =
     (let i = pre_to_block t ! p;
          d = (if i = reldom ! i then semidom ! i else idom (bs ! (reldom ! i)));
          bs = bs[i := (bs ! i)\<lparr>idom := d\<rparr>]
      in immediate_dominators t semidom reldom ps (bs[d := (bs ! d)\<lparr>idominates := idominates (bs ! d) @ [i]\<rparr>]))"

fun idom_dfs :: "nat \<Rightarrow> nat \<Rightarrow> bool list \<times> nat \<times> basic_block list \<Rightarrow> (bool list \<times> nat \<times> basic_block list) option"
  and idom_dfss :: "nat \<Rightarrow> nat list \<Rightarrow> bool list \<times> nat \<times> basic_block list \<Rightarrow> (bool list \<times> nat \<times> basic_block list) option" where
  "idom_dfs 0 i s = None"
| "idom_dfs (Suc n) i (visited, clock, bs) =
     (case idom_dfss n (idominates (bs ! i)) (visited[i := True], clock + 1, bs[i := (bs ! i)\<lparr>idom_pre := clock\<rparr>]) of
        None \<Rightarrow> None
      | Some (visited, clock, bs) \<Rightarrow> Some (visited, clock + 1, bs[i := (bs ! i)\<lparr>idom_post := clock\<rparr>]))"
| "idom_dfss n [] s = Some s"
| "idom_dfss n (v # vs) (visited, clock, bs) =
     (if \<not> visited ! v
      then (case idom_dfs n v (visited, clock, bs) of None \<Rightarrow> None | Some s \<Rightarrow> idom_dfss n vs s)
      else idom_dfss n vs (visited, clock, bs))"

definition compute_dominator_tree :: "basic_block list \<Rightarrow> basic_block list option" where
  "compute_dominator_tree bs =
     (let m = length bs; n = m + 1;
          t = \<lparr>block_to_pre = replicate m (-1), pre_to_block = replicate m 0, dt_parent = replicate m 0,
               preorder_clock = 0, postorder_clock = 0, dt_blocks = bs\<rparr>
      in case get_dfs_tree n 0 t of
           None \<Rightarrow> None
         | Some t \<Rightarrow>
             (case semidominators n t (rev [1..<m]) [0..<m] (replicate m 0) (map idominates bs) of
                None \<Rightarrow> None
              | Some (semidom, doms) \<Rightarrow>
                  (case all_relative_dominators n t doms [1..<m] (replicate m 0) of
                     None \<Rightarrow> None
                   | Some reldom \<Rightarrow>
                       let bs = map (\<lambda>b. b\<lparr>idominates := []\<rparr>) (dt_blocks t);
                           bs = immediate_dominators t semidom reldom [1..<m] bs
                       in map_option (\<lambda>(visited, clock, bs). bs) (idom_dfs n 0 (replicate m False, 1, bs)))))"

definition query_dominance :: "basic_block \<Rightarrow> basic_block \<Rightarrow> bool" where
  "query_dominance dominator dominated \<longleftrightarrow>
     idom_pre dominator \<le> idom_pre dominated \<and> idom_post dominator \<ge> idom_post dominated"

section \<open>Reducibility\<close>

text \<open>\<open>visited\<close> is 0 for new blocks, 1 for those on the path and 2 for finished ones. The result is whether a
  cycle was found; the first argument bounds the depth.\<close>

fun forward_edges_form_a_cycle :: "nat \<Rightarrow> basic_block list \<Rightarrow> nat \<Rightarrow> nat list \<Rightarrow> (bool \<times> nat list) option"
  and edges_form_a_cycle :: "nat \<Rightarrow> basic_block list \<Rightarrow> (nat \<times> bool) list \<Rightarrow> nat list \<Rightarrow> (bool \<times> nat list) option" where
  "forward_edges_form_a_cycle 0 bs i visited = None"
| "forward_edges_form_a_cycle (Suc n) bs i visited =
     (case edges_form_a_cycle n bs (zip (block_next (bs ! i)) (is_backedge (bs ! i))) (visited[i := 1]) of
        None \<Rightarrow> None
      | Some (True, visited) \<Rightarrow> Some (True, visited)
      | Some (False, visited) \<Rightarrow> Some (False, visited[i := 2]))"
| "edges_form_a_cycle n bs [] visited = Some (False, visited)"
| "edges_form_a_cycle n bs ((v, backedge) # es) visited =
     (if backedge then edges_form_a_cycle n bs es visited
      else if visited ! v = 0 then
        (case forward_edges_form_a_cycle n bs v visited of
           None \<Rightarrow> None
         | Some (True, visited) \<Rightarrow> Some (True, visited)
         | Some (False, visited) \<Rightarrow> edges_form_a_cycle n bs es visited)
      else if visited ! v = 1 then Some (True, visited)
      else edges_form_a_cycle n bs es visited)"

text \<open>The first loop, over the edges of block \<open>i\<close>: \<open>k\<close> is the position in \<open>next\<close>.\<close>

fun mark_backedges :: "nat \<Rightarrow> nat \<Rightarrow> nat list \<Rightarrow> basic_block list \<Rightarrow> basic_block list" where
  "mark_backedges i k [] bs = bs"
| "mark_backedges i k (v # vs) bs =
     (let q = query_dominance (bs ! v) (bs ! i);
          bs = bs[i := (bs ! i)\<lparr>is_backedge := (is_backedge (bs ! i))[k := q]\<rparr>]
      in mark_backedges i (k + 1) vs (bs[v := (bs ! v)\<lparr>is_loop_header := is_loop_header (bs ! v) \<or> q\<rparr>]))"

definition attempt_reduce_cfg :: "basic_block list \<Rightarrow> (bool \<times> basic_block list) option" where
  "attempt_reduce_cfg bs =
     (let bs = fold (\<lambda>i bs. mark_backedges i 0 (block_next (bs ! i)) bs) [0..<length bs] bs
      in map_option (\<lambda>(fail, visited). (fail, bs))
           (forward_edges_form_a_cycle (length bs + 1) bs 0 (replicate (length bs) 0)))"

section \<open>The dominator tree is not the dominator tree\<close>

text \<open>The code of a method: two-way switches as the ends of blocks 0, 1 and 4, gotos as blocks 2 and 3.\<close>

definition switch_insns :: "nat \<Rightarrow> int \<Rightarrow> int \<Rightarrow> bytecode_insn list" where
  "switch_insns pc target0 target =
     [\<lparr>kind = insn_iconst, original_pc = of_nat pc, operand = Integer_imm 0\<rparr>,
      \<lparr>kind = insn_tableswitch, original_pc = of_nat (pc + 1),
        operand = Tableswitch \<lparr>ts_default_target = target0, ts_low = 0, ts_high = 0, ts_targets = [target]\<rparr>\<rparr>]"

definition goto_insns :: "nat \<Rightarrow> u32 \<Rightarrow> bytecode_insn list" where
  "goto_insns pc target = [\<lparr>kind = insn_goto, original_pc = of_nat pc, operand = Index target\<rparr>]"

definition crossing_code :: "analyzed_insn list" where
  "crossing_code = map fresh_insn
     (switch_insns 0 6 5 @ switch_insns 20 2 5 @ goto_insns 40 6 @ goto_insns 43 4 @ switch_insns 46 2 4)"

definition crossing_graph :: graph where
  "crossing_graph = [[4, 3], [1, 3], [4], [2], [1, 2]]"

text \<open>Block \<open>d\<close> dominates \<open>v\<close>: no path from the entry reaches \<open>v\<close> without passing through \<open>d\<close>.\<close>

definition dominates :: "graph \<Rightarrow> nat \<Rightarrow> nat \<Rightarrow> bool" where
  "dominates g d v \<longleftrightarrow> v = d \<or> (0, v) \<notin> (edges g \<inter> {(u, w). u \<noteq> d})\<^sup>*"

section \<open>The reducibility test\<close>

definition forward_rel :: "basic_block list \<Rightarrow> (nat \<times> nat) set" where
  "forward_rel bs = {(u, v). u < length bs \<and> (v, False) \<in> set (zip (block_next (bs ! u)) (is_backedge (bs ! u)))}"

definition zeros :: "nat list \<Rightarrow> nat" where
  "zeros visited = card {v. v < length visited \<and> visited ! v = 0}"

text \<open>Finished blocks lead to finished blocks only and are on no cycle.\<close>

definition coloured :: "(nat \<times> nat) set \<Rightarrow> nat list \<Rightarrow> bool" where
  "coloured E visited \<longleftrightarrow> (\<forall>v < length visited. visited ! v \<le> 2 \<and>
     (visited ! v = 2 \<longrightarrow> (v, v) \<notin> E\<^sup>+ \<and> (\<forall>w. (v, w) \<in> E \<longrightarrow> visited ! w = 2)))"

definition progresses :: "nat list \<Rightarrow> nat list \<Rightarrow> bool" where
  "progresses visited visited' \<longleftrightarrow> length visited' = length visited \<and>
     (\<forall>v < length visited. (visited' ! v = 1 \<longleftrightarrow> visited ! v = 1) \<and> (visited ! v = 2 \<longrightarrow> visited' ! v = 2))"

lemma progresses_refl [simp]: "progresses visited visited"
  by (simp add: progresses_def)

lemma progresses_trans: "progresses a b \<Longrightarrow> progresses b c \<Longrightarrow> progresses a c"
  by (simp add: progresses_def)

lemma colouredD:
  assumes "coloured E visited" "v < length visited"
  shows "visited ! v = 0 \<or> visited ! v = 1 \<or> visited ! v = 2"
    and "visited ! v = 2 \<Longrightarrow> (v, v) \<notin> E\<^sup>+" and "visited ! v = 2 \<Longrightarrow> (v, w) \<in> E \<Longrightarrow> visited ! w = 2"
proof -
  have "visited ! v \<le> 2" using assms by (simp add: coloured_def)
  then show "visited ! v = 0 \<or> visited ! v = 1 \<or> visited ! v = 2" by linarith
  show "visited ! v = 2 \<Longrightarrow> (v, v) \<notin> E\<^sup>+" "visited ! v = 2 \<Longrightarrow> (v, w) \<in> E \<Longrightarrow> visited ! w = 2"
    using assms by (simp_all add: coloured_def)
qed

lemma zeros_mono:
  assumes "progresses a b" "coloured E a"
  shows "zeros b \<le> zeros a"
  unfolding zeros_def
proof (rule card_mono)
  have "a ! v = 0" if "v < length b" "b ! v = 0" for v
    using colouredD(1) [OF assms(2), of v] assms(1) that by (auto simp: progresses_def)
  then show "{v. v < length b \<and> b ! v = 0} \<subseteq> {v. v < length a \<and> a ! v = 0}"
    using assms(1) by (auto simp: progresses_def)
qed simp

lemma zeros_le: "zeros visited \<le> length visited"
  using card_mono [of "{..<length visited}" "{v. v < length visited \<and> visited ! v = 0}"] by (auto simp: zeros_def)

lemma zeros_enter:
  assumes "i < length visited" "visited ! i = 0"
  shows "zeros visited = Suc (zeros (visited[i := 1]))"
proof -
  have "{v. v < length visited \<and> visited ! v = 0} =
      insert i {v. v < length (visited[i := 1]) \<and> visited[i := 1] ! v = 0}"
    using assms by (auto simp: nth_list_update split: if_splits)
  then show ?thesis using assms by (simp add: zeros_def)
qed

text \<open>What a search from block \<open>i\<close> that leaves the targets \<open>vs\<close> finished has found out.\<close>

definition searched :: "(nat \<times> nat) set \<Rightarrow> nat \<Rightarrow> nat list \<Rightarrow> nat set \<Rightarrow> (bool \<times> nat list) option \<Rightarrow> bool" where
  "searched E i visited vs r \<longleftrightarrow>
     (case r of
        None \<Rightarrow> False
      | Some (True, visited') \<Rightarrow> \<exists>v. (i, v) \<in> E\<^sup>* \<and> (v, v) \<in> E\<^sup>+
      | Some (False, visited') \<Rightarrow> coloured E visited' \<and> progresses visited visited' \<and> (\<forall>v \<in> vs. visited' ! v = 2))"

lemma coloured_enter:
  assumes "coloured E visited" "i < length visited" "visited ! i = 0"
  shows "coloured E (visited[i := 1])"
  unfolding coloured_def
proof (intro allI impI conjI)
  fix v assume v: "v < length (visited[i := 1])"
  show "visited[i := 1] ! v \<le> 2"
    using colouredD(1) [OF assms(1), of v] v by (cases "v = i") auto
  assume two: "visited[i := 1] ! v = 2"
  then have old: "visited ! v = 2" using v by (cases "v = i") simp_all
  show "(v, v) \<notin> E\<^sup>+" using colouredD(2) [OF assms(1) _ old] v by simp
  show "visited[i := 1] ! w = 2" if "(v, w) \<in> E" for w
    using colouredD(3) [OF assms(1) _ old that] v assms(3) by (cases "w = i") simp_all
qed

lemma coloured_leave:
  assumes "coloured E visited" "visited ! i = 1" "\<forall>w. (i, w) \<in> E \<longrightarrow> visited ! w = 2" "E \<subseteq> {..<length visited} \<times> {..<length visited}"
  shows "coloured E (visited[i := 2])"
proof -
  have closed: "(v, w) \<in> E\<^sup>* \<Longrightarrow> visited ! v = 2 \<Longrightarrow> visited ! w = 2" for v w
  proof (induction rule: rtrancl_induct)
    case (step u w)
    have "u < length visited" using step(2) assms(4) by auto
    then show ?case using colouredD(3) [OF assms(1), of u w] step by simp
  qed simp
  have "(i, i) \<notin> E\<^sup>+"
  proof
    assume "(i, i) \<in> E\<^sup>+"
    then obtain w where "(i, w) \<in> E" "(w, i) \<in> E\<^sup>*" by (auto dest: tranclD)
    then show False using closed [of w i] assms(2,3) by simp
  qed
  moreover have "visited[i := 2] ! w = 2" if "(v, w) \<in> E" "v = i \<or> visited ! v = 2" for v w
  proof (cases "w = i")
    case True
    then show ?thesis using that assms(4) by auto
  next
    case False
    have "v < length visited" using that(1) assms(4) by auto
    then show ?thesis using that False assms(3) colouredD(3) [OF assms(1), of v w] by auto
  qed
  moreover have "visited ! v = 2" if "v \<noteq> i" "visited[i := 2] ! v = 2" for v using that by simp
  moreover have "(v, v) \<notin> E\<^sup>+" if "v < length visited" "visited ! v = 2" for v
    using colouredD(2) [OF assms(1)] that by blast
  moreover have "visited[i := 2] ! v \<le> 2" if "v < length visited" for v
    using colouredD(1) [OF assms(1) that] that by (cases "v = i") auto
  ultimately show ?thesis unfolding coloured_def length_list_update by metis
qed

lemma searched_True: "searched E i visited vs (Some (True, u)) \<longleftrightarrow> (\<exists>v. (i, v) \<in> E\<^sup>* \<and> (v, v) \<in> E\<^sup>+)"
  by (simp add: searched_def)

lemma searched_False:
  "searched E i visited vs (Some (False, u)) \<longleftrightarrow> coloured E u \<and> progresses visited u \<and> (\<forall>v \<in> vs. u ! v = 2)"
  by (simp add: searched_def)

lemma searched_cases:
  assumes "searched E i visited vs r"
  obtains u where "r = Some (True, u)" "\<exists>v. (i, v) \<in> E\<^sup>* \<and> (v, v) \<in> E\<^sup>+"
  | u where "r = Some (False, u)" "coloured E u" "progresses visited u" "\<forall>v \<in> vs. u ! v = 2"
  using assms by (auto simp: searched_def split: option.splits prod.splits bool.splits)

definition path_to :: "(nat \<times> nat) set \<Rightarrow> nat list \<Rightarrow> nat \<Rightarrow> bool" where
  "path_to E visited i \<longleftrightarrow> coloured E visited \<and> (\<forall>v < length visited. visited ! v = 1 \<longrightarrow> (v, i) \<in> E\<^sup>*)"

lemma path_to_extends: "path_to E visited i \<Longrightarrow> progresses visited u \<Longrightarrow> coloured E u \<Longrightarrow> path_to E u i"
  by (auto simp: path_to_def progresses_def)

lemma path_to_enter: "path_to E visited i \<Longrightarrow> i < length visited \<Longrightarrow> visited ! i = 0 \<Longrightarrow> path_to E (visited[i := 1]) i"
  using coloured_enter [of E visited i] by (auto simp: path_to_def nth_list_update)

lemma path_to_step: "path_to E visited i \<Longrightarrow> (i, v) \<in> E \<Longrightarrow> path_to E visited v"
  by (auto simp: path_to_def intro: rtrancl_into_rtrancl)

lemma search_exact:
  fixes bs n
  assumes E: "forward_rel bs \<subseteq> {..<length bs} \<times> {..<length bs}"
  shows "length visited = length bs \<Longrightarrow> i < length bs \<Longrightarrow> visited ! i = 0 \<Longrightarrow> path_to (forward_rel bs) visited i \<Longrightarrow>
      zeros visited \<le> n \<Longrightarrow>
      searched (forward_rel bs) i visited {i} (forward_edges_form_a_cycle n bs i visited)"
    and "length visited = length bs \<Longrightarrow> i < length bs \<Longrightarrow> visited ! i = 1 \<Longrightarrow> path_to (forward_rel bs) visited i \<Longrightarrow>
      zeros visited \<le> n \<Longrightarrow> \<forall>v. (v, False) \<in> set es \<longrightarrow> (i, v) \<in> forward_rel bs \<Longrightarrow>
      searched (forward_rel bs) i visited {v. (v, False) \<in> set es} (edges_form_a_cycle n bs es visited)"
  using E
proof (induction n bs i visited and n bs es visited arbitrary: and i
    rule: forward_edges_form_a_cycle_edges_form_a_cycle.induct)
  case (1 bs i visited)
  then show ?case using zeros_enter [of i visited] by simp
next
  case (2 n bs i visited)
  let ?es = "zip (block_next (bs ! i)) (is_backedge (bs ! i))"
  have "searched (forward_rel bs) i (visited[i := 1]) {v. (v, False) \<in> set ?es}
      (edges_form_a_cycle n bs ?es (visited[i := 1]))"
  proof (rule "2.IH")
    show "path_to (forward_rel bs) (visited[i := 1]) i" by (rule path_to_enter) (use "2.prems" in simp_all)
    show "zeros (visited[i := 1]) \<le> n" using "2.prems" zeros_enter [of i visited] by simp
    show "\<forall>v. (v, False) \<in> set ?es \<longrightarrow> (i, v) \<in> forward_rel bs" using "2.prems" by (simp add: forward_rel_def)
  qed (use "2.prems" in simp_all)
  then show ?case
  proof (cases rule: searched_cases)
    case (2 u)
    have len: "length u = length bs" "u ! i = 1"
      using 2(3) "2.prems" by (auto simp: progresses_def)
    have "coloured (forward_rel bs) (u[i := 2])"
      by (rule coloured_leave) (use 2 "2.prems" len in \<open>auto simp: forward_rel_def\<close>)
    then show ?thesis
      using 2 "2.prems" len by (auto simp: searched_False progresses_def nth_list_update)
  qed (simp add: searched_True)
next
  case (3 n bs visited)
  then show ?case by (simp add: searched_False path_to_def)
next
  case (4 n bs v backedge es visited)
  have rest: "searched (forward_rel bs) i visited {x. (x, False) \<in> set ((v, backedge) # es)} (edges_form_a_cycle n bs es u)"
    if "progresses visited u" "coloured (forward_rel bs) u" "backedge \<or> u ! v = 2"
      "searched (forward_rel bs) i u {v. (v, False) \<in> set es} (edges_form_a_cycle n bs es u)" for u
    using that(4)
  proof (cases rule: searched_cases)
    case (2 w)
    have "w ! v = 2" if "\<not> backedge"
    proof -
      have "v < length u" using that "4.prems" \<open>progresses visited u\<close> by (auto simp: progresses_def)
      then show ?thesis using that 2(3) \<open>backedge \<or> u ! v = 2\<close> by (simp add: progresses_def)
    qed
    then show ?thesis
      using 2 progresses_trans [OF that(1) 2(3)] by (auto simp: searched_False)
  qed (simp add: searched_True)
  have later: "searched (forward_rel bs) i u {v. (v, False) \<in> set es} (edges_form_a_cycle n bs es u)"
    if "progresses visited u" "coloured (forward_rel bs) u"
      "\<And>i. length u = length bs \<Longrightarrow> i < length bs \<Longrightarrow> u ! i = 1 \<Longrightarrow> path_to (forward_rel bs) u i \<Longrightarrow>
         zeros u \<le> n \<Longrightarrow> \<forall>v. (v, False) \<in> set es \<longrightarrow> (i, v) \<in> forward_rel bs \<Longrightarrow>
         forward_rel bs \<subseteq> {..<length bs} \<times> {..<length bs} \<Longrightarrow>
         searched (forward_rel bs) i u {v. (v, False) \<in> set es} (edges_form_a_cycle n bs es u)" for u
  proof (rule that(3))
    show "path_to (forward_rel bs) u i" using path_to_extends that "4.prems" by blast
    show "zeros u \<le> n" using zeros_mono [OF that(1), of "forward_rel bs"] "4.prems" by (simp add: path_to_def)
  qed (use that(1) "4.prems" in \<open>auto simp: progresses_def\<close>)
  have colour: "coloured (forward_rel bs) visited" using "4.prems" by (simp add: path_to_def)
  consider (skipped) "backedge" | (new) "\<not> backedge" "visited ! v = 0" | (path) "\<not> backedge" "visited ! v = 1"
    | (finished) "\<not> backedge" "visited ! v \<noteq> 0" "visited ! v \<noteq> 1" by blast
  then show ?case
  proof cases
    case skipped
    then show ?thesis using rest [of visited] later [of visited] colour "4.IH" by simp
  next
    case new
    have "(i, v) \<in> forward_rel bs" using new "4.prems" by simp
    then have "searched (forward_rel bs) v visited {v} (forward_edges_form_a_cycle n bs v visited)"
      by (intro "4.IH"(2)) (use new "4.prems" path_to_step in auto)
    then show ?thesis
    proof (cases rule: searched_cases)
      case (1 u)
      then show ?thesis using new \<open>(i, v) \<in> forward_rel bs\<close>
        by (auto simp: searched_True intro: converse_rtrancl_into_rtrancl)
    next
      case (2 u)
      then show ?thesis using new rest [of u] later [of u] "4.IH"(3) by simp
    qed
  next
    case path
    have "(i, v) \<in> forward_rel bs" "(v, i) \<in> (forward_rel bs)\<^sup>*"
      using path "4.prems" by (auto simp: path_to_def)
    then show ?thesis using path by (auto simp: searched_True intro: rtrancl_into_trancl1)
  next
    case finished
    have "(i, v) \<in> forward_rel bs" using finished "4.prems"(6) by simp
    then have "v < length visited" using "4.prems"(1,7) by auto
    then have "visited ! v = 2" using colouredD(1) [OF colour, of v] finished by simp
    then show ?thesis using finished rest [of visited] later [of visited] colour "4.IH" by simp
  qed
qed


text \<open>The fields that the first loop reads are not changed by it.\<close>

definition same_links :: "basic_block list \<Rightarrow> basic_block list \<Rightarrow> bool" where
  "same_links bs bs' \<longleftrightarrow> length bs' = length bs \<and> (\<forall>x < length bs. block_next (bs' ! x) = block_next (bs ! x) \<and>
     idom_pre (bs' ! x) = idom_pre (bs ! x) \<and> idom_post (bs' ! x) = idom_post (bs ! x))"

lemma same_links_refl [simp]: "same_links bs bs"
  by (simp add: same_links_def)

lemma same_links_trans: "same_links a b \<Longrightarrow> same_links b c \<Longrightarrow> same_links a c"
  by (simp add: same_links_def)

lemma same_links_dominance:
  "same_links bs bs' \<Longrightarrow> u < length bs \<Longrightarrow> v < length bs \<Longrightarrow>
     query_dominance (bs' ! u) (bs' ! v) = query_dominance (bs ! u) (bs ! v)"
  by (simp add: same_links_def query_dominance_def)

lemma mark_backedges_ok:
  assumes "i < length bs" "list_all (\<lambda>v. v < length bs) vs" "length (is_backedge (bs ! i)) = k + length vs"
  shows "same_links bs (mark_backedges i k vs bs) \<and> (\<forall>x < length bs.
      is_backedge (mark_backedges i k vs bs ! x) =
        (if x = i then take k (is_backedge (bs ! i)) @ map (\<lambda>v. query_dominance (bs ! v) (bs ! i)) vs else is_backedge (bs ! x)) \<and>
      is_loop_header (mark_backedges i k vs bs ! x) =
        (is_loop_header (bs ! x) \<or> x \<in> set vs \<and> query_dominance (bs ! x) (bs ! i)))"
  using assms
proof (induction vs arbitrary: k bs)
  case (Cons v vs)
  let ?q = "query_dominance (bs ! v) (bs ! i)"
  define b1 where "b1 = bs[i := (bs ! i)\<lparr>is_backedge := (is_backedge (bs ! i))[k := ?q]\<rparr>]"
  define b2 where "b2 = b1[v := (b1 ! v)\<lparr>is_loop_header := is_loop_header (b1 ! v) \<or> ?q\<rparr>]"
  have v: "v < length bs" using Cons.prems by simp
  have len: "length b1 = length bs" "length b2 = length bs" by (simp_all add: b1_def b2_def)
  have links: "same_links bs b2"
    using Cons.prems v by (auto simp: same_links_def b1_def b2_def nth_list_update)
  have bk: "is_backedge (b2 ! x) = (if x = i then (is_backedge (bs ! i))[k := ?q] else is_backedge (bs ! x))"
    and header: "is_loop_header (b2 ! x) = (is_loop_header (bs ! x) \<or> x = v \<and> ?q)" if "x < length bs" for x
    using that Cons.prems v by (auto simp: b1_def b2_def nth_list_update)
  have eq: "mark_backedges i k (v # vs) bs = mark_backedges i (k + 1) vs b2"
    by (simp add: Let_def b1_def b2_def)
  have dom: "query_dominance (b2 ! u) (b2 ! i) = query_dominance (bs ! u) (bs ! i)" if "u < length bs" for u
    using same_links_dominance [OF links that Cons.prems(1)] .
  have dom_map: "map (\<lambda>v. query_dominance (b2 ! v) (b2 ! i)) vs = map (\<lambda>v. query_dominance (bs ! v) (bs ! i)) vs"
    using Cons.prems(2) dom by (simp add: list_all_iff)
  have ih: "same_links b2 (mark_backedges i (k + 1) vs b2) \<and> (\<forall>x < length bs.
      is_backedge (mark_backedges i (k + 1) vs b2 ! x) =
        (if x = i then take (k + 1) (is_backedge (b2 ! i)) @ map (\<lambda>v. query_dominance (bs ! v) (bs ! i)) vs else is_backedge (b2 ! x)) \<and>
      is_loop_header (mark_backedges i (k + 1) vs b2 ! x) =
        (is_loop_header (b2 ! x) \<or> x \<in> set vs \<and> query_dominance (bs ! x) (bs ! i)))"
    using Cons.IH [of b2 "k + 1"] Cons.prems len bk dom dom_map by simp
  have "take (k + 1) ((is_backedge (bs ! i))[k := ?q]) = take k (is_backedge (bs ! i)) @ [?q]"
    using Cons.prems(3) by (simp add: take_Suc_conv_app_nth)
  then show ?case
    unfolding eq using ih same_links_trans [OF links] bk header Cons.prems(1) by auto
qed simp

lemma mark_all_ok:
  assumes "graph_wf (graph_of bs)" "\<forall>i < length bs. length (is_backedge (bs ! i)) = length (block_next (bs ! i))" "m \<le> length bs"
  defines "bs' \<equiv> fold (\<lambda>i bs. mark_backedges i 0 (block_next (bs ! i)) bs) [0..<m] bs"
  shows "same_links bs bs' \<and> (\<forall>x < length bs.
      is_backedge (bs' ! x) = (if x < m then map (\<lambda>v. query_dominance (bs ! v) (bs ! x)) (block_next (bs ! x)) else is_backedge (bs ! x)) \<and>
      is_loop_header (bs' ! x) =
        (is_loop_header (bs ! x) \<or> (\<exists>i < m. x \<in> set (block_next (bs ! i)) \<and> query_dominance (bs ! x) (bs ! i))))"
  using assms(3) unfolding bs'_def
proof (induction m)
  case (Suc m)
  define b where "b = fold (\<lambda>i bs. mark_backedges i 0 (block_next (bs ! i)) bs) [0..<m] bs"
  have m: "m < length bs" using Suc.prems by simp
  note ih = Suc.IH [OF less_imp_le [OF m], folded b_def]
  have links: "same_links bs b" "length b = length bs" "block_next (b ! m) = block_next (bs ! m)"
    using ih m by (simp_all add: same_links_def)
  have nxt: "list_all (\<lambda>v. v < length bs) (block_next (bs ! m))"
    using assms(1) m by (auto simp: graph_wf_def graph_of_def list_all_length)
  have step: "same_links b (mark_backedges m 0 (block_next (bs ! m)) b) \<and> (\<forall>x < length b.
      is_backedge (mark_backedges m 0 (block_next (bs ! m)) b ! x) =
        (if x = m then take 0 (is_backedge (b ! m)) @ map (\<lambda>v. query_dominance (b ! v) (b ! m)) (block_next (bs ! m)) else is_backedge (b ! x)) \<and>
      is_loop_header (mark_backedges m 0 (block_next (bs ! m)) b ! x) =
        (is_loop_header (b ! x) \<or> x \<in> set (block_next (bs ! m)) \<and> query_dominance (b ! x) (b ! m)))"
    by (rule mark_backedges_ok) (use m links nxt ih assms(2) in simp_all)
  have dom: "query_dominance (b ! u) (b ! m) = query_dominance (bs ! u) (bs ! m)" if "u < length bs" for u
    using same_links_dominance [OF links(1) that m] .
  have dom_map: "map (\<lambda>v. query_dominance (b ! v) (b ! m)) (block_next (bs ! m)) = map (\<lambda>v. query_dominance (bs ! v) (bs ! m)) (block_next (bs ! m))"
    using nxt dom by (simp add: list_all_iff)
  show ?case
    using step ih links dom dom_map same_links_trans [OF links(1)]
    by (auto simp flip: b_def simp: less_Suc_eq)
qed simp

text \<open>The edges that are not marked as back edges, by what \<open>query_dominance\<close> says.\<close>

definition forward_edges :: "basic_block list \<Rightarrow> (nat \<times> nat) set" where
  "forward_edges bs = {(u, v) \<in> edges (graph_of bs). \<not> query_dominance (bs ! v) (bs ! u)}"

lemma zip_map_False: "(v, False) \<in> set (zip xs (map f xs)) \<longleftrightarrow> v \<in> set xs \<and> \<not> f v"
  by (induction xs) auto

lemma forward_rel_marked:
  assumes "same_links bs bs'"
    and "\<forall>x < length bs. is_backedge (bs' ! x) = map (\<lambda>v. query_dominance (bs ! v) (bs ! x)) (block_next (bs ! x))"
  shows "forward_rel bs' = forward_edges bs"
  using assms by (auto simp: forward_rel_def forward_edges_def edges_def graph_of_def same_links_def zip_map_False)



text \<open>The control-flow graph cannot be reduced: removing the edges to dominators leaves a cycle.\<close>

definition irreducible :: "graph \<Rightarrow> bool" where
  "irreducible g \<longleftrightarrow> (\<exists>v. (0, v) \<in> {(u, w) \<in> edges g. \<not> dominates g w u}\<^sup>* \<and>
     (v, v) \<in> {(u, w) \<in> edges g. \<not> dominates g w u}\<^sup>+)"

lemma not_dominatesI: "v \<noteq> d \<Longrightarrow> (0, v) \<in> (edges g \<inter> {(u, w). u \<noteq> d})\<^sup>* \<Longrightarrow> \<not> dominates g d v"
  by (simp add: dominates_def)

lemma crossing_not_dominated:
  "\<not> dominates crossing_graph 4 2" "\<not> dominates crossing_graph 2 4" "\<not> dominates crossing_graph 4 0"
proof -
  have e: "(0, 3) \<in> edges crossing_graph" "(3, 2) \<in> edges crossing_graph" "(0, 4) \<in> edges crossing_graph"
    by (simp_all add: edges_def crossing_graph_def)
  show "\<not> dominates crossing_graph 4 2"
    by (rule not_dominatesI, simp, rule rtrancl_trans [of 0 3], (rule r_into_rtrancl, simp add: e)+)
  show "\<not> dominates crossing_graph 2 4"
    by (rule not_dominatesI, simp, rule r_into_rtrancl, simp add: e)
  show "\<not> dominates crossing_graph 4 0"
    by (rule not_dominatesI) simp_all
qed

text \<open>C39: The dominator tree is not always the dominator tree. For a method of 64 bytes the computed tree says
  that block 4 dominates block 2, although the path 0, 3, 2 avoids block 4; the edges 2 to 4 and 4 to 2
  form a cycle that is entered at both blocks, so the graph is irreducible, yet the test accepts it. The
  walk for the relative dominators compares the numbers of the blocks instead of those of their
  semidominators.\<close>

theorem dominator_tree_wrong:
  "\<exists>bs bs'. Option.bind (scan_basic_blocks 64 crossing_code) compute_dominator_tree = Some bs \<and>
    graph_of bs = crossing_graph \<and> query_dominance (bs ! 4) (bs ! 2) \<and> \<not> dominates crossing_graph 4 2 \<and>
    attempt_reduce_cfg bs = Some (False, bs') \<and> irreducible crossing_graph"
proof -
  have "map_option (\<lambda>bs. (graph_of bs = crossing_graph, query_dominance (bs ! 4) (bs ! 2), map_option fst (attempt_reduce_cfg bs)))
      (Option.bind (scan_basic_blocks 64 crossing_code) compute_dominator_tree) = Some (True, True, Some False)"
    by code_simp
  then obtain bs bs' where "Option.bind (scan_basic_blocks 64 crossing_code) compute_dominator_tree = Some bs"
    "graph_of bs = crossing_graph" "query_dominance (bs ! 4) (bs ! 2)" "attempt_reduce_cfg bs = Some (False, bs')"
    by (auto simp: map_option_case split: option.splits)
  moreover have "irreducible crossing_graph"
    unfolding irreducible_def
  proof (intro exI conjI)
    have e: "(0, 4) \<in> edges crossing_graph" "(4, 2) \<in> edges crossing_graph" "(2, 4) \<in> edges crossing_graph"
      by (simp_all add: edges_def crossing_graph_def)
    show "(0, 4) \<in> {(u, w) \<in> edges crossing_graph. \<not> dominates crossing_graph w u}\<^sup>*"
      by (rule r_into_rtrancl) (simp add: e crossing_not_dominated)
    show "(4, 4) \<in> {(u, w) \<in> edges crossing_graph. \<not> dominates crossing_graph w u}\<^sup>+"
      by (rule trancl_into_trancl2 [of 4 2], simp add: e crossing_not_dominated, rule r_into_trancl,
        simp add: e crossing_not_dominated)
  qed
  ultimately show ?thesis using crossing_not_dominated(1) by blast
qed


section \<open>Jumps inside a block\<close>

text \<open>The body of \<open>do { try { f(); break; } catch (E e) { } } while (true)\<close>: the call, a jump out of the loop,
  the handler with its jump back, and the return.\<close>

definition retry_code :: "analyzed_insn list" where
  "retry_code = map fresh_insn
     ([\<lparr>kind = insn_invokestatic, original_pc = 0, operand = Cp 1\<rparr>] @ goto_insns 3 4 @
      [\<lparr>kind = insn_astore, original_pc = 6, operand = Index 0\<rparr>] @ goto_insns 7 0 @
      [\<lparr>kind = insn_return, original_pc = 10, operand = No_operand\<rparr>])"


end
