(* ===== verification/Pointer_Sort.thy ===== *)
theory Pointer_Sort
  imports Prelude "HOL-Library.Multiset"
begin

text \<open>
  Model of the two array routines of \<open>vm/gc.c\<close>: \<open>quicksort_pointers\<close>, which sorts the addresses of the
  live objects in place, and \<open>binary_search_for_pointer\<close>, which finds one. Addresses are natural
  numbers and indices are integers, as the right index can become \<open>-1\<close>; \<open>None\<close> is an access outside
  the array.
\<close>

section \<open>Quicksort\<close>

definition swap_at :: "nat list \<Rightarrow> int \<Rightarrow> int \<Rightarrow> nat list" where
  "swap_at ptrs i j = ptrs[nat i := ptrs ! nat j, nat j := ptrs ! nat i]"

function scan_left :: "nat list \<Rightarrow> nat \<Rightarrow> int \<Rightarrow> int option" where
  "scan_left ptrs pivot left =
     (if left < 0 \<or> left \<ge> int (length ptrs) then None
      else if ptrs ! nat left < pivot then scan_left ptrs pivot (left + 1) else Some left)"
  by pat_completeness auto
termination by (relation "measure (\<lambda>(ptrs, pivot, left). nat (int (length ptrs) - left))") auto

function scan_right :: "nat list \<Rightarrow> nat \<Rightarrow> int \<Rightarrow> int option" where
  "scan_right ptrs pivot right =
     (if right < 0 \<or> right \<ge> int (length ptrs) then None
      else if ptrs ! nat right > pivot then scan_right ptrs pivot (right - 1) else Some right)"
  by pat_completeness auto
termination by (relation "measure (\<lambda>(ptrs, pivot, right). nat (right + 1))") auto

declare scan_left.simps [simp del] scan_right.simps [simp del]

lemma scan_left_ge: "scan_left ptrs pivot left = Some l \<Longrightarrow> left \<le> l"
  by (induction ptrs pivot left rule: scan_left.induct) (subst (asm) (2) scan_left.simps, fastforce split: if_splits)

lemma scan_right_le: "scan_right ptrs pivot right = Some r \<Longrightarrow> r \<le> right"
  by (induction ptrs pivot right rule: scan_right.induct) (subst (asm) (2) scan_right.simps, fastforce split: if_splits)

text \<open>The outer loop. When the scans have crossed, it ends.\<close>

function partition_loop :: "nat list \<Rightarrow> nat \<Rightarrow> int \<Rightarrow> int \<Rightarrow> (nat list \<times> int \<times> int) option" where
  "partition_loop ptrs pivot left right =
     (if left \<le> right
      then case scan_left ptrs pivot left of
             None \<Rightarrow> None
           | Some l \<Rightarrow>
               (case scan_right ptrs pivot right of
                  None \<Rightarrow> None
                | Some r \<Rightarrow>
                    if l \<le> r then partition_loop (swap_at ptrs l r) pivot (l + 1) (r - 1)
                    else partition_loop ptrs pivot l r)
      else Some (ptrs, left, right))"
  by pat_completeness auto
termination
  by (relation "measure (\<lambda>(ptrs, pivot, left, right). nat (right - left + 1))")
    (auto dest!: scan_left_ge scan_right_le)

declare partition_loop.simps [simp del]

lemma scan_left_found:
  assumes "0 \<le> left" and "left \<le> k" and "k < int (length ptrs)" and "ptrs ! nat k \<ge> pivot"
  shows "\<exists>l. scan_left ptrs pivot left = Some l \<and> left \<le> l \<and> l \<le> k \<and> ptrs ! nat l \<ge> pivot \<and>
    (\<forall>i. left \<le> i \<and> i < l \<longrightarrow> ptrs ! nat i < pivot)"
  using assms
proof (induction ptrs pivot left rule: scan_left.induct)
  case (1 ptrs pivot left)
  show ?case
  proof (cases "ptrs ! nat left < pivot")
    case True
    then have "left \<noteq> k" using 1(5) by auto
    then obtain l where l: "scan_left ptrs pivot (left + 1) = Some l" "left + 1 \<le> l" "l \<le> k" "ptrs ! nat l \<ge> pivot"
      "\<forall>i. left + 1 \<le> i \<and> i < l \<longrightarrow> ptrs ! nat i < pivot"
      using 1(1) True 1(2-5) by auto
    have "ptrs ! nat i < pivot" if "left \<le> i" "i < l" for i
      using l(5) True that by (cases "i = left") auto
    then show ?thesis using l True 1(2-4) by (auto simp: scan_left.simps [of ptrs pivot left])
  next
    case False
    then show ?thesis using 1(2-4) by (auto simp: scan_left.simps [of ptrs pivot left])
  qed
qed

lemma scan_right_found:
  assumes "0 \<le> k" and "k \<le> right" and "right < int (length ptrs)" and "ptrs ! nat k \<le> pivot"
  shows "\<exists>r. scan_right ptrs pivot right = Some r \<and> r \<le> right \<and> k \<le> r \<and> ptrs ! nat r \<le> pivot \<and>
    (\<forall>i. r < i \<and> i \<le> right \<longrightarrow> ptrs ! nat i > pivot)"
  using assms
proof (induction ptrs pivot right rule: scan_right.induct)
  case (1 ptrs pivot right)
  show ?case
  proof (cases "ptrs ! nat right > pivot")
    case True
    then have "right \<noteq> k" using 1(5) by auto
    then obtain r where r: "scan_right ptrs pivot (right - 1) = Some r" "r \<le> right - 1" "k \<le> r" "ptrs ! nat r \<le> pivot"
      "\<forall>i. r < i \<and> i \<le> right - 1 \<longrightarrow> ptrs ! nat i > pivot"
      using 1(1) True 1(2-5) by auto
    have "ptrs ! nat i > pivot" if "r < i" "i \<le> right" for i
      using r(5) True that by (cases "i = right") auto
    then show ?thesis using r True 1(2-4) by (auto simp: scan_right.simps [of ptrs pivot right])
  next
    case False
    then show ?thesis using 1(2-4) by (auto simp: scan_right.simps [of ptrs pivot right])
  qed
qed

text \<open>The invariant of the outer loop: what is left of \<open>left\<close> is at most the pivot, what is right of
  \<open>right\<close> is at least the pivot, and both scans have a place to stop.\<close>

definition part_inv :: "nat list \<Rightarrow> nat \<Rightarrow> int \<Rightarrow> int \<Rightarrow> bool" where
  "part_inv ptrs pivot left right =
     (0 \<le> left \<and> right < int (length ptrs) \<and> left \<le> int (length ptrs) \<and> - 1 \<le> right \<and>
      (\<forall>i. 0 \<le> i \<and> i < left \<longrightarrow> ptrs ! nat i \<le> pivot) \<and>
      (\<forall>i. right < i \<and> i < int (length ptrs) \<longrightarrow> ptrs ! nat i \<ge> pivot) \<and>
      (left \<le> right \<longrightarrow> (\<exists>k \<ge> left. k < int (length ptrs) \<and> ptrs ! nat k \<ge> pivot) \<and>
                        (\<exists>k \<ge> 0. k \<le> right \<and> ptrs ! nat k \<le> pivot)))"

lemma length_swap [simp]: "length (swap_at ptrs i j) = length ptrs"
  by (simp add: swap_at_def)

lemma mset_swap_at:
  assumes "0 \<le> i" "i < int (length ptrs)" "0 \<le> j" "j < int (length ptrs)"
  shows "mset (swap_at ptrs i j) = mset ptrs"
  unfolding swap_at_def by (rule mset_swap) (use assms in auto)

lemma nth_swap_at:
  assumes "0 \<le> l" "l \<le> r" "r < int (length ptrs)" "0 \<le> i" "i < int (length ptrs)"
  shows "swap_at ptrs l r ! nat i = (if i = r then ptrs ! nat l else if i = l then ptrs ! nat r else ptrs ! nat i)"
  using assms by (auto simp: swap_at_def nth_list_update nat_eq_iff)

lemma part_step:
  assumes inv: "part_inv ptrs pivot left right" and "left \<le> right"
    and l: "left \<le> l" "ptrs ! nat l \<ge> pivot" "\<forall>i. left \<le> i \<and> i < l \<longrightarrow> ptrs ! nat i < pivot"
    and r: "r \<le> right" "ptrs ! nat r \<le> pivot" "\<forall>i. r < i \<and> i \<le> right \<longrightarrow> ptrs ! nat i > pivot"
    and lr: "l \<le> r"
  shows "part_inv (swap_at ptrs l r) pivot (l + 1) (r - 1)"
proof -
  let ?n = "int (length ptrs)"
  have b: "0 \<le> left" "right < ?n" using inv by (auto simp: part_inv_def)
  have s: "swap_at ptrs l r ! nat i = (if i = r then ptrs ! nat l else if i = l then ptrs ! nat r else ptrs ! nat i)"
    if "0 \<le> i" "i < ?n" for i
    using nth_swap_at [of l r ptrs i] b l(1) r(1) lr that by simp
  have lo: "ptrs ! nat i \<le> pivot" if "0 \<le> i" "i < l" for i
    using inv that l(3) unfolding part_inv_def by (cases "i < left") (auto simp: less_imp_le)
  have hi: "ptrs ! nat i \<ge> pivot" if "r < i" "i < ?n" for i
    using inv that r(3) unfolding part_inv_def by (cases "i \<le> right") (auto simp: less_imp_le)
  have "swap_at ptrs l r ! nat i \<le> pivot" if "0 \<le> i" "i < l + 1" for i
    using that lo r(2) lr b r(1) by (cases "i = l") (auto simp: s)
  moreover have "swap_at ptrs l r ! nat i \<ge> pivot" if "r - 1 < i" "i < ?n" for i
    using that hi l(2) lr b l(1) by (cases "i = r") (auto simp: s)
  moreover have "swap_at ptrs l r ! nat r \<ge> pivot" "l + 1 \<le> r - 1 \<Longrightarrow> swap_at ptrs l r ! nat l \<le> pivot"
    using l(1,2) r(1,2) lr b by (auto simp: s)
  ultimately show ?thesis unfolding part_inv_def using b l(1) r(1) lr by (auto intro: exI [of _ r] exI [of _ l])
qed

lemma part_cross:
  assumes inv: "part_inv ptrs pivot left right" and "left \<le> right"
    and l: "left \<le> l" "l \<le> int (length ptrs)" "\<forall>i. left \<le> i \<and> i < l \<longrightarrow> ptrs ! nat i < pivot"
    and r: "r \<le> right" "- 1 \<le> r" "\<forall>i. r < i \<and> i \<le> right \<longrightarrow> ptrs ! nat i > pivot"
    and lr: "\<not> l \<le> r"
  shows "part_inv ptrs pivot l r"
proof -
  have lo: "ptrs ! nat i \<le> pivot" if "0 \<le> i" "i < l" for i
    using inv that l(3) unfolding part_inv_def by (cases "i < left") (auto simp: less_imp_le)
  have hi: "ptrs ! nat i \<ge> pivot" if "r < i" "i < int (length ptrs)" for i
    using inv that r(3) unfolding part_inv_def by (cases "i \<le> right") (auto simp: less_imp_le)
  show ?thesis unfolding part_inv_def using inv l(1,2) r(1,2) lr lo hi by (auto simp: part_inv_def)
qed

text \<open>The loop returns, never leaves the array, and splits it at the pivot.\<close>

lemma partition_loop_ok:
  assumes "part_inv ptrs pivot left right"
  shows "\<exists>ys l r. partition_loop ptrs pivot left right = Some (ys, l, r) \<and> mset ys = mset ptrs \<and>
    part_inv ys pivot l r \<and> r < l \<and> left \<le> l \<and> r \<le> right"
  using assms
proof (induction ptrs pivot left right rule: partition_loop.induct)
  case (1 ptrs pivot left right)
  show ?case
  proof (cases "left \<le> right")
    case False
    then show ?thesis using 1(3) by (simp add: partition_loop.simps [of ptrs pivot left right])
  next
    case True
    let ?n = "int (length ptrs)"
    have b: "0 \<le> left" "right < ?n" using 1(3) by (auto simp: part_inv_def)
    obtain k1 k2 where k: "left \<le> k1" "k1 < ?n" "ptrs ! nat k1 \<ge> pivot" "0 \<le> k2" "k2 \<le> right" "ptrs ! nat k2 \<le> pivot"
      using 1(3) True by (auto simp: part_inv_def)
    obtain l where l: "scan_left ptrs pivot left = Some l" "left \<le> l" "l \<le> k1" "ptrs ! nat l \<ge> pivot"
      "\<forall>i. left \<le> i \<and> i < l \<longrightarrow> ptrs ! nat i < pivot" using scan_left_found [OF b(1) k(1-3)] by blast
    obtain r where r: "scan_right ptrs pivot right = Some r" "r \<le> right" "k2 \<le> r" "ptrs ! nat r \<le> pivot"
      "\<forall>i. r < i \<and> i \<le> right \<longrightarrow> ptrs ! nat i > pivot" using scan_right_found [OF k(4,5) b(2) k(6)] by blast
    show ?thesis
    proof (cases "l \<le> r")
      case lr: True
      have inv: "part_inv (swap_at ptrs l r) pivot (l + 1) (r - 1)"
        by (rule part_step [OF 1(3) True l(2,4,5) r(2,4,5) lr])
      have "mset (swap_at ptrs l r) = mset ptrs" using mset_swap_at [of l ptrs r] l r b k lr by simp
      moreover have "partition_loop ptrs pivot left right = partition_loop (swap_at ptrs l r) pivot (l + 1) (r - 1)"
        using True l(1) r(1) lr by (simp add: partition_loop.simps [of ptrs pivot left right])
      ultimately show ?thesis using 1(1) [OF True l(1) r(1) lr inv] l(2) r(2) by fastforce
    next
      case lr: False
      have inv: "part_inv ptrs pivot l r"
        by (rule part_cross [OF 1(3) True l(2) _ l(5) r(2) _ r(5) lr]) (use l(3) k r(3) in auto)
      moreover have "partition_loop ptrs pivot left right = partition_loop ptrs pivot l r"
        using True l(1) r(1) lr by (simp add: partition_loop.simps [of ptrs pivot left right])
      ultimately show ?thesis using 1(2) [OF True l(1) r(1) lr inv] l(2) r(2) by fastforce
    qed
  qed
qed

text \<open>The first round swaps, because the pivot is in the array; so both parts are shorter.\<close>

lemma partition_shrinks:
  assumes "1 < length ptrs" and "k < length ptrs"
  shows "\<exists>ys l r. partition_loop ptrs (ptrs ! k) 0 (int (length ptrs) - 1) = Some (ys, l, r) \<and> mset ys = mset ptrs \<and>
    part_inv ys (ptrs ! k) l r \<and> r < l \<and> 1 \<le> l \<and> r \<le> int (length ptrs) - 2"
proof -
  let ?p = "ptrs ! k" and ?n = "int (length ptrs)"
  have inv: "part_inv ptrs ?p 0 (?n - 1)" using assms by (auto simp: part_inv_def intro!: exI [of _ "int k"])
  obtain l where l: "scan_left ptrs ?p 0 = Some l" "0 \<le> l" "l \<le> int k" "ptrs ! nat l \<ge> ?p"
    "\<forall>i. 0 \<le> i \<and> i < l \<longrightarrow> ptrs ! nat i < ?p" using scan_left_found [of 0 "int k" ptrs ?p] assms by auto
  obtain r where r: "scan_right ptrs ?p (?n - 1) = Some r" "r \<le> ?n - 1" "int k \<le> r" "ptrs ! nat r \<le> ?p"
    "\<forall>i. r < i \<and> i \<le> ?n - 1 \<longrightarrow> ptrs ! nat i > ?p" using scan_right_found [of "int k" "?n - 1" ptrs ?p] assms by auto
  have lr: "l \<le> r" using l r by simp
  have "ptrs \<noteq> []" using assms by auto
  then have "partition_loop ptrs ?p 0 (?n - 1) = partition_loop (swap_at ptrs l r) ?p (l + 1) (r - 1)"
    using l(1) r(1) lr by (subst partition_loop.simps) simp
  moreover have "part_inv (swap_at ptrs l r) ?p (l + 1) (r - 1)"
    by (rule part_step [OF inv _ l(2,4,5) r(2,4,5) lr]) (use \<open>ptrs \<noteq> []\<close> in simp)
  moreover have "mset (swap_at ptrs l r) = mset ptrs" using mset_swap_at [of l ptrs r] l r lr by simp
  ultimately show ?thesis using partition_loop_ok [of "swap_at ptrs l r" ?p "l + 1" "r - 1"] l(2) r(2) by fastforce
qed

function quicksort_pointers :: "nat list \<Rightarrow> nat list option" where
  "quicksort_pointers ptrs =
     (if length ptrs \<le> 1 then Some ptrs
      else case partition_loop ptrs (ptrs ! (length ptrs div 2)) 0 (int (length ptrs) - 1) of
             None \<Rightarrow> None
           | Some (ys, left, right) \<Rightarrow>
               (case quicksort_pointers (take (nat (right + 1)) ys) of
                  None \<Rightarrow> None
                | Some lo \<Rightarrow>
                    (case quicksort_pointers (drop (nat left) ys) of
                       None \<Rightarrow> None
                     | Some hi \<Rightarrow> Some (lo @ drop (nat (right + 1)) (take (nat left) ys) @ hi))))"
  by pat_completeness auto
termination
proof (relation "measure length", goal_cases)
  case 1
  show ?case by simp
next
  case (2 ptrs x ys y left right)
  have l: "1 < length ptrs" "length ptrs div 2 < length ptrs" using 2 by auto
  show ?case using partition_shrinks [OF l] 2 mset_eq_length by fastforce
next
  case (3 ptrs x ys y left right lo)
  have l: "1 < length ptrs" "length ptrs div 2 < length ptrs" using 3 by auto
  show ?case using partition_shrinks [OF l] 3 mset_eq_length by fastforce
qed

declare quicksort_pointers.simps [simp del]

text \<open>What is between the parts equals the pivot, so that the three runs concatenate to a sorted list.\<close>

lemma part_inv_runs:
  assumes inv: "part_inv ys p l r" and "r < l"
  shows "\<forall>x \<in> set (take (nat (r + 1)) ys). x \<le> p" "\<forall>x \<in> set (drop (nat (r + 1)) (take (nat l) ys)). x = p"
    "\<forall>x \<in> set (drop (nat l) ys). p \<le> x"
proof -
  have le: "ys ! i \<le> p" if "i < nat l" for i
    using inv that unfolding part_inv_def by (metis nat_int of_nat_0_le_iff zless_nat_eq_int_zless)
  have ge: "ys ! i \<ge> p" if "nat (r + 1) \<le> i" "i < length ys" for i
  proof -
    have "r < int i" using that(1) by simp
    then show ?thesis using inv that(2) unfolding part_inv_def by (metis nat_int of_nat_less_iff)
  qed
  show "\<forall>x \<in> set (take (nat (r + 1)) ys). x \<le> p" using le \<open>r < l\<close> by (auto simp: in_set_conv_nth)
  have "drop (nat (r + 1)) (take (nat l) ys) ! i = p" if "i < length (drop (nat (r + 1)) (take (nat l) ys))" for i
    using le [of "nat (r + 1) + i"] ge [of "nat (r + 1) + i"] that
    by (simp add: nth_take less_diff_conv add.commute)
  then show "\<forall>x \<in> set (drop (nat (r + 1)) (take (nat l) ys)). x = p" by (metis in_set_conv_nth)
  show "\<forall>x \<in> set (drop (nat l) ys). p \<le> x" using ge \<open>r < l\<close> by (auto simp: in_set_conv_nth)
qed

lemma quicksort_sorts: "\<exists>zs. quicksort_pointers xs = Some zs \<and> sorted zs \<and> mset zs = mset xs"
proof (induction "length xs" arbitrary: xs rule: less_induct)
  case less
  show ?case
  proof (cases "length xs \<le> 1")
    case True
    then show ?thesis by (cases xs) (auto simp: quicksort_pointers.simps)
  next
    case False
    then have k: "1 < length xs" "length xs div 2 < length xs" by auto
    let ?p = "xs ! (length xs div 2)"
    obtain ys l r where part: "partition_loop xs ?p 0 (int (length xs) - 1) = Some (ys, l, r)" "mset ys = mset xs"
      "part_inv ys ?p l r" "r < l" "1 \<le> l" "r \<le> int (length xs) - 2"
      using partition_shrinks [OF k] by blast
    let ?lo = "take (nat (r + 1)) ys" and ?mid = "drop (nat (r + 1)) (take (nat l) ys)" and ?hi = "drop (nat l) ys"
    have len: "length ys = length xs" using part(2) mset_eq_length by blast
    obtain lo where lo: "quicksort_pointers ?lo = Some lo" "sorted lo" "mset lo = mset ?lo"
      using less [of ?lo] part(6) len k by fastforce
    obtain hi where hi: "quicksort_pointers ?hi = Some hi" "sorted hi" "mset hi = mset ?hi"
      using less [of ?hi] part(5) len k by fastforce
    have eq: "quicksort_pointers xs = Some (lo @ ?mid @ hi)"
      using False part(1) lo(1) hi(1) by (simp add: quicksort_pointers.simps [of xs])
    have "ys = ?lo @ ?mid @ ?hi"
      using \<open>r < l\<close> by (metis append.assoc append_take_drop_id min.absorb1 nat_mono take_take add1_zle_eq)
    then have "mset (lo @ ?mid @ hi) = mset xs" using part(2) lo(3) hi(3) by (metis mset_append)
    moreover have "sorted (lo @ ?mid @ hi)"
    proof -
      note runs = part_inv_runs [OF part(3,4)]
      have s: "set lo = set ?lo" "set hi = set ?hi" using lo(3) hi(3) mset_eq_setD by blast+
      have "sorted ?mid" using runs(2) by (simp only: sorted_iff_nth_mono) (metis nth_mem le_refl le_less_trans)
      then show ?thesis using lo(2) hi(2) runs s by (auto simp: sorted_append intro: order_trans)
    qed
    ultimately show ?thesis using eq by blast
  qed
qed

theorem quicksort_pointers_sort: "quicksort_pointers xs = Some (sort xs)"
proof -
  obtain zs where zs: "quicksort_pointers xs = Some zs" "sorted zs" "mset zs = mset xs" using quicksort_sorts by blast
  then have "sort xs = zs" by (intro properties_for_sort) auto
  then show ?thesis using zs(1) by simp
qed

section \<open>Binary search\<close>

text \<open>The result is the index of the element the C function returns the address of. The outer option
  is an access outside the array.\<close>

function search_loop :: "nat \<Rightarrow> nat list \<Rightarrow> int \<Rightarrow> int \<Rightarrow> nat option option" where
  "search_loop ptr ptrs low high =
     (if low \<le> high
      then let mid = (low + high) div 2 in
           if mid < 0 \<or> mid \<ge> int (length ptrs) then None
           else if ptrs ! nat mid = ptr then Some (Some (nat mid))
           else if ptrs ! nat mid < ptr then search_loop ptr ptrs (mid + 1) high
           else search_loop ptr ptrs low (mid - 1)
      else Some None)"
  by pat_completeness auto
termination by (relation "measure (\<lambda>(ptr, ptrs, low, high). nat (high - low + 1))") auto

declare search_loop.simps [simp del]

definition binary_search_for_pointer :: "nat \<Rightarrow> nat list \<Rightarrow> nat option option" where
  "binary_search_for_pointer ptr ptrs = search_loop ptr ptrs 0 (int (length ptrs) - 1)"

lemma search_loop_ok:
  assumes "sorted ptrs" and "0 \<le> low" and "high < int (length ptrs)"
    and "\<forall>i < length ptrs. ptrs ! i = ptr \<longrightarrow> low \<le> int i \<and> int i \<le> high"
  shows "case search_loop ptr ptrs low high of
           None \<Rightarrow> False
         | Some None \<Rightarrow> ptr \<notin> set ptrs
         | Some (Some i) \<Rightarrow> i < length ptrs \<and> ptrs ! i = ptr"
  using assms
proof (induction ptr ptrs low high rule: search_loop.induct)
  case (1 ptr ptrs low high)
  show ?case
  proof (cases "low \<le> high")
    case False
    then show ?thesis using 1(6) by (subst search_loop.simps) (auto simp: in_set_conv_nth)
  next
    case True
    define mid where "mid = (low + high) div 2"
    have m: "low \<le> mid" "mid \<le> high" using True by (auto simp: mid_def)
    have len: "nat mid < length ptrs" using m 1(4,5) by (simp add: nat_less_iff)
    have mono: "ptrs ! i \<le> ptrs ! j" if "i \<le> j" "j < length ptrs" for i j using 1(3) that by (simp add: sorted_nth_mono)
    consider (eq) "ptrs ! nat mid = ptr" | (lt) "ptrs ! nat mid < ptr" | (gt) "ptrs ! nat mid > ptr" by linarith
    then show ?thesis
    proof cases
      case eq
      then show ?thesis using True m 1(4,5) by (subst search_loop.simps) (auto simp: mid_def [symmetric])
    next
      case lt
      have "mid + 1 \<le> int i" if "i < length ptrs" "ptrs ! i = ptr" for i
      proof -
        have "\<not> i \<le> nat mid" using mono [of i "nat mid"] lt len that by auto
        then show ?thesis by simp
      qed
      then show ?thesis using 1(1) [OF True mid_def] lt True m 1(3-6)
        by (subst search_loop.simps) (auto simp: mid_def [symmetric])
    next
      case gt
      have "int i \<le> mid - 1" if "i < length ptrs" "ptrs ! i = ptr" for i
      proof -
        have "\<not> nat mid \<le> i" using mono [of "nat mid" i] gt that by auto
        then show ?thesis by simp
      qed
      then show ?thesis using 1(2) [OF True mid_def] gt True m 1(3-6)
        by (subst search_loop.simps) (auto simp: mid_def [symmetric])
    qed
  qed
qed

text \<open>On a sorted array without duplicates the search returns the index of the element, if there is one.\<close>

lemma search_some:
  assumes "sorted ptrs" and "distinct ptrs" and "i < length ptrs"
  shows "binary_search_for_pointer (ptrs ! i) ptrs = Some (Some i)"
  using search_loop_ok [of ptrs 0 "int (length ptrs) - 1" "ptrs ! i"] assms
  by (auto simp: binary_search_for_pointer_def nth_eq_iff_index_eq split: option.splits)

lemma search_none:
  assumes "sorted ptrs" and "ptr \<notin> set ptrs"
  shows "binary_search_for_pointer ptr ptrs = Some None"
  using search_loop_ok [of ptrs 0 "int (length ptrs) - 1" ptr] assms
  by (auto simp: binary_search_for_pointer_def split: option.splits)

end
