(* ===== verification/Scheduler.thy ===== *)
theory Scheduler
  imports Classfile_Types "HOL-Library.Multiset"
begin

text \<open>
  Model of \<open>vm/roundrobin_scheduler.c\<close>: the queue of threads, the wake-up conditions, the choice of
  the next thread, one step of the scheduler, synchronous execution, and the notifications that
  monitors send. A thread has at most one \<open>thread_info\<close>, so the pointer to it is the identity of
  its thread. The interpreter (\<open>call_interpreter\<close>) is an argument of the definitions that call it; the
  clock is a function from the number of earlier readings to the time in microseconds. The fields
  of the \<open>vm\<close> that the scheduler reads and writes (the list of pending references, the table of
  handles) are part of its state, as is the log of the thread objects whose \<open>eetop\<close> was cleared.
\<close>

section \<open>State\<close>

datatype rr_wakeup_kind =
    RR_WAKEUP_YIELDING | RR_WAKEUP_SLEEP | RR_WAKEUP_REFERENCE_PENDING | RR_THREAD_PARK
  | RR_MONITOR_ENTER_WAITING | RR_MONITOR_WAIT

record rr_wakeup_info =
  wk_kind :: rr_wakeup_kind
  wakeup_us :: u64
  wk_monitor :: nat
  wk_ready :: bool

record vm_thread =
  tid :: int
  thread_obj :: nat
  interrupted :: bool
  unpark_permit :: bool
  daemon :: bool
  fuel :: u32
  yield_at_time :: u64

datatype scheduler_status_t = SCHEDULER_RESULT_DONE | SCHEDULER_RESULT_MORE | SCHEDULER_RESULT_INVAL

record execution_record =
  rec_id :: nat
  rec_status :: scheduler_status_t
  rec_returned :: nat
  rec_js_handle :: int

text \<open>What the scheduler looks at in a call: the method's flags and descriptor, the copied arguments
  and the record to fill in.\<close>

record pending_call =
  call_static :: bool
  call_arg_kinds :: "type_kind list"
  call_return_kind :: type_kind
  call_args :: "nat list"
  call_record :: nat

record thread_info =
  ti_thread :: vm_thread
  call_queue :: "pending_call list"
  wakeup_info :: "rr_wakeup_info option"

record rr_scheduler =
  round_robin :: "thread_info list"
  executions :: "execution_record list"
  preemption_us :: u64
  reference_pending :: bool
  js_handles :: "nat list"
  eetop_cleared :: "nat list"

abbreviation info_tid :: "thread_info \<Rightarrow> int" where
  "info_tid ti \<equiv> tid (ti_thread ti)"

definition rr_scheduler_init :: "bool \<Rightarrow> nat list \<Rightarrow> rr_scheduler" where
  "rr_scheduler_init pending handles =
     \<lparr>round_robin = [], executions = [], preemption_us = 30000, reference_pending = pending,
      js_handles = handles, eetop_cleared = []\<rparr>"

text \<open>A write through a \<open>thread_info\<close> pointer.\<close>

definition update_info :: "int \<Rightarrow> (thread_info \<Rightarrow> thread_info) \<Rightarrow> thread_info list \<Rightarrow> thread_info list" where
  "update_info t f tis = map (\<lambda>ti. if info_tid ti = t then f ti else ti) tis"

section \<open>Notifications\<close>

definition waits_on :: "rr_wakeup_kind \<Rightarrow> nat \<Rightarrow> thread_info \<Rightarrow> bool" where
  "waits_on k monitor ti =
     (case wakeup_info ti of None \<Rightarrow> False | Some w \<Rightarrow> wk_kind w = k \<and> wk_monitor w = monitor)"

definition set_ready :: "thread_info \<Rightarrow> thread_info" where
  "set_ready ti = ti\<lparr>wakeup_info := map_option (\<lambda>w. w\<lparr>wk_ready := True\<rparr>) (wakeup_info ti)\<rparr>"

fun ready_first :: "rr_wakeup_kind \<Rightarrow> nat \<Rightarrow> thread_info list \<Rightarrow> thread_info list" where
  "ready_first k monitor [] = []"
| "ready_first k monitor (ti # tis) =
     (if waits_on k monitor ti then set_ready ti # tis else ti # ready_first k monitor tis)"

definition monitor_notify_one :: "nat \<Rightarrow> thread_info list \<Rightarrow> thread_info list" where
  "monitor_notify_one monitor tis = ready_first RR_MONITOR_WAIT monitor tis"

definition monitor_notify_all :: "nat \<Rightarrow> thread_info list \<Rightarrow> thread_info list" where
  "monitor_notify_all monitor tis =
     map (\<lambda>ti. if waits_on RR_MONITOR_WAIT monitor ti then set_ready ti else ti) tis"

definition monitor_exit_handler :: "nat \<Rightarrow> thread_info list \<Rightarrow> thread_info list" where
  "monitor_exit_handler monitor tis = ready_first RR_MONITOR_ENTER_WAITING monitor tis"

section \<open>Choosing a thread\<close>

definition is_sleeping :: "bool \<Rightarrow> thread_info \<Rightarrow> u64 \<Rightarrow> bool" where
  "is_sleeping pending ti time =
     (case wakeup_info ti of
        None \<Rightarrow> False
      | Some w \<Rightarrow>
          if wk_kind w = RR_WAKEUP_REFERENCE_PENDING then \<not> pending
          else if wk_kind w = RR_WAKEUP_SLEEP \<or>
                  wk_kind w = RR_THREAD_PARK \<and> \<not> unpark_permit (ti_thread ti) \<or>
                  wk_kind w = RR_MONITOR_WAIT \<and> \<not> wk_ready w \<or>
                  wk_kind w = RR_MONITOR_ENTER_WAITING \<and> \<not> wk_ready w
          then \<not> (interrupted (ti_thread ti) \<and> wk_kind w \<noteq> RR_MONITOR_ENTER_WAITING) \<and>
               (wakeup_us w = 0 \<or> wakeup_us w \<ge> time)
          else False)"

text \<open>The first loop of \<open>get_next_thr\<close>: take the thread at the front, put it at the back, stop if it
  is awake. \<open>Some\<close> is the thread it returns.\<close>

fun rotate_awake :: "bool \<Rightarrow> u64 \<Rightarrow> nat \<Rightarrow> thread_info list \<Rightarrow> thread_info option \<times> thread_info list" where
  "rotate_awake pending time 0 tis = (None, tis)"
| "rotate_awake pending time (Suc n) tis =
     (case tis of
        [] \<Rightarrow> (None, [])
      | ti # rest \<Rightarrow>
          if \<not> is_sleeping pending ti time then (Some ti, rest @ [ti])
          else rotate_awake pending time n (rest @ [ti]))"

text \<open>The second loop: the thread with the least wake-up time below \<open>closest\<close>, and its position. All
  threads sleep here, so each has a \<open>wakeup_info\<close>; a null one would be dereferenced.\<close>

fun closest_wakeup ::
    "thread_info list \<Rightarrow> nat \<Rightarrow> thread_info \<Rightarrow> nat \<Rightarrow> u64 \<Rightarrow> (thread_info \<times> nat) option" where
  "closest_wakeup [] i ti best_i closest = Some (ti, best_i)"
| "closest_wakeup (t # ts) i ti best_i closest =
     (case wakeup_info t of
        None \<Rightarrow> None
      | Some w \<Rightarrow>
          if wakeup_us w < closest then closest_wakeup ts (Suc i) t i (wakeup_us w)
          else closest_wakeup ts (Suc i) ti best_i closest)"

text \<open>\<open>None\<close>: an empty queue (the assertion), or a null \<open>wakeup_info\<close>.\<close>

definition get_next_thr :: "bool \<Rightarrow> u64 \<Rightarrow> thread_info list \<Rightarrow> (thread_info \<times> thread_info list) option" where
  "get_next_thr pending time tis =
     (if tis = [] then None
      else case rotate_awake pending time (length tis) tis of
             (Some ti, tis') \<Rightarrow> Some (ti, tis')
           | (None, tis') \<Rightarrow>
               (case closest_wakeup tis' 0 (last tis') 0 (- 1) of
                  None \<Rightarrow> None
                | Some (ti, best_i) \<Rightarrow>
                    Some (ti, take best_i tis' @ drop (Suc best_i) tis' @ [tis' ! best_i])))"

fun may_sleep_loop :: "bool \<Rightarrow> u64 \<Rightarrow> thread_info list \<Rightarrow> u64 \<Rightarrow> u64 option" where
  "may_sleep_loop pending time [] least = Some least"
| "may_sleep_loop pending time (ti # tis) least =
     (if call_queue ti \<noteq> [] then
        if is_sleeping pending ti time then
          (case wakeup_info ti of
             None \<Rightarrow> None
           | Some w \<Rightarrow> may_sleep_loop pending time tis
                         (if wakeup_us w \<noteq> 0 \<and> wakeup_us w < least then wakeup_us w else least))
        else None
      else may_sleep_loop pending time tis least)"

text \<open>\<open>None\<close> of the loop is the early \<open>return 0\<close>.\<close>

definition rr_scheduler_may_sleep_us :: "rr_scheduler \<Rightarrow> u64 \<Rightarrow> u64" where
  "rr_scheduler_may_sleep_us s time =
     (case may_sleep_loop (reference_pending s) time (round_robin s) (- 1) of
        None \<Rightarrow> 0
      | Some least \<Rightarrow> if least > time then least - time else 0)"

definition only_daemons_running :: "thread_info list \<Rightarrow> bool" where
  "only_daemons_running tis = list_all (\<lambda>ti. daemon (ti_thread ti)) tis"

section \<open>A step\<close>

datatype future = Future_ready nat | Future_not_ready "rr_wakeup_info option"

type_synonym interpreter = "vm_thread \<Rightarrow> pending_call \<Rightarrow> rr_scheduler \<Rightarrow> future \<times> rr_scheduler"

definition free_thread_info :: "thread_info \<Rightarrow> rr_scheduler \<Rightarrow> rr_scheduler" where
  "free_thread_info ti s =
     s\<lparr>eetop_cleared := thread_obj (ti_thread ti) # eetop_cleared s,
       round_robin := monitor_notify_all (thread_obj (ti_thread ti)) (round_robin s)\<rparr>"

text \<open>\<open>arrdel\<close> of the first match.\<close>

fun remove_info :: "int \<Rightarrow> thread_info list \<Rightarrow> thread_info list" where
  "remove_info t [] = []"
| "remove_info t (ti # tis) = (if info_tid ti = t then tis else ti # remove_info t tis)"

definition unshift :: "int \<Rightarrow> rr_scheduler \<Rightarrow> rr_scheduler" where
  "unshift t s =
     (let tis = update_info t (\<lambda>ti. ti\<lparr>call_queue := drop 1 (call_queue ti)\<rparr>) (round_robin s) in
      case find (\<lambda>ti. info_tid ti = t) tis of
        None \<Rightarrow> s
      | Some ti \<Rightarrow>
          if call_queue ti = [] then free_thread_info ti (s\<lparr>round_robin := remove_info t tis\<rparr>)
          else s\<lparr>round_robin := tis\<rparr>)"

text \<open>The table of handles, \<open>vm->js_handles\<close>: \<open>0\<close> is the null pointer.\<close>

fun first_null :: "nat list \<Rightarrow> nat \<Rightarrow> nat option" where
  "first_null [] i = None"
| "first_null (h # hs) i = (if h = 0 then Some i else first_null hs (Suc i))"

definition make_js_handle :: "nat \<Rightarrow> nat list \<Rightarrow> int \<times> nat list" where
  "make_js_handle obj handles =
     (case first_null handles 0 of
        Some i \<Rightarrow> (int i, handles[i := obj])
      | None \<Rightarrow> (int (length handles), handles @ [obj]))"

definition drop_js_handle :: "int \<Rightarrow> nat list \<Rightarrow> nat list" where
  "drop_js_handle index handles =
     (if index < 0 \<or> index \<ge> int (length handles) then handles else handles[nat index := 0])"

definition deref_js_handle :: "int \<Rightarrow> nat list \<Rightarrow> nat" where
  "deref_js_handle index handles =
     (if index < 0 \<or> index \<ge> int (length handles) then 0 else handles ! nat index)"

text \<open>\<open>__builtin_add_overflow(time, MICROSECONDS_TO_RUN, ...)\<close>, saturating.\<close>

definition yield_deadline :: "u64 \<Rightarrow> u64 \<Rightarrow> u64" where
  "yield_deadline time quantum = (if uint time + uint quantum < 2 ^ 64 then time + quantum else - 1)"

definition finish_record :: "pending_call \<Rightarrow> nat \<Rightarrow> rr_scheduler \<Rightarrow> rr_scheduler" where
  "finish_record call result s =
     (let (handle, handles) =
        (if call_return_kind call = TYPE_KIND_REFERENCE \<and> result \<noteq> 0
         then make_js_handle result (js_handles s) else (- 1, js_handles s)) in
      s\<lparr>executions := map (\<lambda>r. if rec_id r = call_record call
          then r\<lparr>rec_status := SCHEDULER_RESULT_DONE, rec_returned := result, rec_js_handle := handle\<rparr>
          else r) (executions s),
        js_handles := handles\<rparr>)"

definition after_call ::
    "int \<Rightarrow> pending_call \<Rightarrow> future \<times> rr_scheduler \<Rightarrow> scheduler_status_t \<times> rr_scheduler" where
  "after_call t call = (\<lambda>(fut, s).
     let s' = (case fut of
                 Future_ready result \<Rightarrow> unshift t (finish_record call result s)
               | Future_not_ready w \<Rightarrow>
                   s\<lparr>round_robin := update_info t (\<lambda>ti. ti\<lparr>wakeup_info := w\<rparr>) (round_robin s)\<rparr>) in
     (if round_robin s' = [] \<or> only_daemons_running (round_robin s')
      then SCHEDULER_RESULT_DONE else SCHEDULER_RESULT_MORE, s'))"

text \<open>The chosen thread with its fuel, and after its wake-up.\<close>

definition refuel :: "thread_info \<Rightarrow> thread_info" where
  "refuel ti = ti\<lparr>ti_thread := (ti_thread ti)\<lparr>fuel := 200000\<rparr>\<rparr>"

definition start_slice :: "u64 \<Rightarrow> u64 \<Rightarrow> thread_info \<Rightarrow> thread_info" where
  "start_slice time quantum ti =
     ti\<lparr>wakeup_info := None, ti_thread := (ti_thread ti)\<lparr>yield_at_time := yield_deadline time quantum\<rparr>\<rparr>"

text \<open>The part of \<open>get_next_thr\<close> that the recursion of the step depends on.\<close>

lemma rotate_awake_length: "length (snd (rotate_awake p time n tis)) = length tis"
  by (induction p time n tis rule: rotate_awake.induct) (auto split: list.splits)

lemma closest_wakeup_bound:
  "closest_wakeup ts i ti b c = Some (ti', b') \<Longrightarrow> b' = b \<or> i \<le> b' \<and> b' < i + length ts"
  by (induction ts arbitrary: i ti b c) (fastforce split: option.splits if_splits)+

lemma get_next_thr_length:
  assumes "get_next_thr p time tis = Some (ti, tis')"
  shows "length tis' = length tis"
proof (cases "rotate_awake p time (length tis) tis")
  case (Pair r l)
  have l: "length l = length tis" using rotate_awake_length [of p time "length tis" tis] Pair by simp
  show ?thesis
  proof (cases r)
    case (Some t)
    then show ?thesis using assms Pair l by (simp add: get_next_thr_def split: if_splits)
  next
    case None
    then obtain b where c: "closest_wakeup l 0 (last l) 0 (- 1) = Some (ti, b)"
      and i: "tis' = take b l @ drop (Suc b) l @ [l ! b]" "tis \<noteq> []"
      using assms Pair by (auto simp: get_next_thr_def split: if_splits option.splits)
    then have "b < length l" using closest_wakeup_bound [OF c] l by auto
    then show ?thesis using i l by simp
  qed
qed

function rr_scheduler_step ::
    "interpreter \<Rightarrow> (nat \<Rightarrow> u64) \<Rightarrow> nat \<Rightarrow> rr_scheduler \<Rightarrow> scheduler_status_t \<times> rr_scheduler" where
  "rr_scheduler_step call_interpreter clock n s =
     (if round_robin s = [] \<or> only_daemons_running (round_robin s) then (SCHEDULER_RESULT_DONE, s)
      else let time = clock n in
           case get_next_thr (reference_pending s) (clock (n + 1)) (round_robin s) of
             None \<Rightarrow> (SCHEDULER_RESULT_DONE, s)
           | Some (ti, tis) \<Rightarrow>
               let t = info_tid ti;
                   tis = update_info t refuel tis in
               if is_sleeping (reference_pending s) ti time
               then (SCHEDULER_RESULT_MORE, s\<lparr>round_robin := tis\<rparr>)
               else let ti = start_slice time (preemption_us s) (refuel ti);
                        tis = update_info t (start_slice time (preemption_us s)) tis in
                    (case call_queue ti of
                       [] \<Rightarrow> rr_scheduler_step call_interpreter clock (n + 2)
                              (s\<lparr>round_robin := butlast tis\<rparr>)
                     | call # _ \<Rightarrow>
                         after_call t call
                           (call_interpreter (ti_thread ti) call (s\<lparr>round_robin := tis\<rparr>))))"
  by pat_completeness auto
termination
proof (relation "measure (\<lambda>(c, k, n, s). length (round_robin s))", goal_cases)
  case (2 c k n s)
  then have "round_robin s \<noteq> []" by simp
  then show ?case using 2 by (auto simp: update_info_def dest!: get_next_thr_length)
qed simp

declare rr_scheduler_step.simps [simp del]

section \<open>Calls\<close>

definition get_or_create_thread_info :: "vm_thread \<Rightarrow> thread_info list \<Rightarrow> thread_info list" where
  "get_or_create_thread_info thread tis =
     (if list_ex (\<lambda>ti. info_tid ti = tid thread) tis then tis
      else tis @ [\<lparr>ti_thread = thread, call_queue = [], wakeup_info = None\<rparr>])"

text \<open>The record gets a fresh identity, the address \<open>calloc\<close> returns.\<close>

definition rr_scheduler_run :: "vm_thread \<Rightarrow> pending_call \<Rightarrow> nat \<Rightarrow> rr_scheduler \<Rightarrow> rr_scheduler" where
  "rr_scheduler_run thread call fresh s =
     s\<lparr>round_robin := update_info (tid thread)
          (\<lambda>ti. ti\<lparr>call_queue := call_queue ti @ [call\<lparr>call_record := fresh\<rparr>]\<rparr>)
          (get_or_create_thread_info thread (round_robin s)),
       executions := executions s @ [\<lparr>rec_id = fresh, rec_status = SCHEDULER_RESULT_MORE,
          rec_returned = 0, rec_js_handle = 0\<rparr>]\<rparr>"

text \<open>\<open>arrdelswap\<close> on the first match.\<close>

fun index_of_record :: "nat \<Rightarrow> nat \<Rightarrow> execution_record list \<Rightarrow> nat option" where
  "index_of_record i r [] = None"
| "index_of_record i r (x # xs) = (if rec_id x = r then Some i else index_of_record (Suc i) r xs)"

definition free_execution_record :: "execution_record \<Rightarrow> rr_scheduler \<Rightarrow> rr_scheduler" where
  "free_execution_record r s =
     (let s = (if rec_js_handle r \<noteq> - 1
               then s\<lparr>js_handles := drop_js_handle (rec_js_handle r) (js_handles s)\<rparr> else s) in
      case index_of_record 0 (rec_id r) (executions s) of
        None \<Rightarrow> s
      | Some i \<Rightarrow> s\<lparr>executions := butlast ((executions s)[i := last (executions s)])\<rparr>)"

text \<open>Shutdown: every thread's pending records are freed, then what is left of \<open>executions\<close>.\<close>

definition find_record :: "nat \<Rightarrow> execution_record list \<Rightarrow> execution_record option" where
  "find_record r records = find (\<lambda>x. rec_id x = r) records"

definition free_pending :: "pending_call \<Rightarrow> rr_scheduler \<Rightarrow> rr_scheduler" where
  "free_pending call s =
     (case find_record (call_record call) (executions s) of
        None \<Rightarrow> s | Some r \<Rightarrow> free_execution_record r s)"

definition free_thread_info_shutdown :: "thread_info \<Rightarrow> rr_scheduler \<Rightarrow> rr_scheduler" where
  "free_thread_info_shutdown ti s =
     fold free_pending (call_queue ti) (s\<lparr>eetop_cleared := thread_obj (ti_thread ti) # eetop_cleared s\<rparr>)"

definition rr_scheduler_uninit :: "rr_scheduler \<Rightarrow> rr_scheduler" where
  "rr_scheduler_uninit s =
     (fold free_thread_info_shutdown (round_robin s) s)\<lparr>executions := [], round_robin := []\<rparr>"

text \<open>The loop of \<open>rr_scheduler_execute_immediately\<close>. \<open>call\<close> points to the first cell of the queue; when
  it is compared the first element has been deleted, so the cell holds the next call, or still
  the deleted one when it was the last. \<open>run\<close> is \<open>call_interpreter\<close>, synchronously: whether the call
  completed, and the state after it. The second component of the result lists the records of the
  calls that were executed.\<close>

fun execute_queue ::
    "(pending_call \<Rightarrow> 's \<Rightarrow> bool \<times> 's) \<Rightarrow> nat \<Rightarrow> pending_call list \<Rightarrow> 's \<Rightarrow>
       scheduler_status_t \<times> nat list \<times> pending_call list \<times> 's" where
  "execute_queue run r [] vm = (SCHEDULER_RESULT_DONE, [], [], vm)"
| "execute_queue run r (call # calls) vm =
     (case run call vm of
        (False, vm) \<Rightarrow> (SCHEDULER_RESULT_INVAL, [], call # calls, vm)
      | (True, vm) \<Rightarrow>
          if call_record (case calls of [] \<Rightarrow> call | c # _ \<Rightarrow> c) = r
          then (SCHEDULER_RESULT_DONE, [call_record call], calls, vm)
          else (case execute_queue run r calls vm of
                  (st, done, rest, vm) \<Rightarrow> (st, call_record call # done, rest, vm)))"

definition rr_scheduler_execute_immediately ::
    "(pending_call \<Rightarrow> 's \<Rightarrow> bool \<times> 's) \<Rightarrow> int \<Rightarrow> nat \<Rightarrow> thread_info list \<Rightarrow> 's \<Rightarrow>
       scheduler_status_t \<times> nat list \<times> thread_info list \<times> 's" where
  "rr_scheduler_execute_immediately run t r tis vm =
     (case find (\<lambda>ti. info_tid ti = t) tis of
        None \<Rightarrow> (SCHEDULER_RESULT_DONE, [], tis, vm)
      | Some ti \<Rightarrow>
          (case execute_queue run r (call_queue ti) vm of
             (st, done, rest, vm) \<Rightarrow>
               (st, done, update_info t (\<lambda>ti. ti\<lparr>call_queue := rest\<rparr>) tis, vm)))"

section \<open>Roots for the collector\<close>

definition is_nth_arg_reference :: "pending_call \<Rightarrow> nat \<Rightarrow> bool" where
  "is_nth_arg_reference call i =
     (if call_static call then call_arg_kinds call ! i = TYPE_KIND_REFERENCE
      else i = 0 \<or> call_arg_kinds call ! (i - 1) = TYPE_KIND_REFERENCE)"

definition method_argc :: "pending_call \<Rightarrow> nat" where
  "method_argc call = length (call_arg_kinds call) + (if call_static call then 0 else 1)"

text \<open>The argument cells that are pushed, in order: thread, call, argument.\<close>

definition rr_scheduler_enumerate_gc_roots :: "thread_info list \<Rightarrow> (nat \<times> nat \<times> nat) list" where
  "rr_scheduler_enumerate_gc_roots tis =
     concat (map (\<lambda>i. concat (map (\<lambda>j.
       let call = call_queue (tis ! i) ! j in
       map (\<lambda>k. (i, j, k)) (filter (is_nth_arg_reference call) [0..<method_argc call]))
       [0..<length (call_queue (tis ! i))])) [0..<length tis])"

section \<open>Selection\<close>

lemma rotate_awake_split:
  assumes "n = length tis"
  shows "rotate_awake p time n (tis @ pre) =
    (case dropWhile (\<lambda>ti. is_sleeping p ti time) tis of
       [] \<Rightarrow> (None, pre @ tis)
     | ti # rest \<Rightarrow> (Some ti, rest @ pre @ takeWhile (\<lambda>ti. is_sleeping p ti time) tis @ [ti]))"
  using assms
proof (induction n arbitrary: tis pre)
  case (Suc n)
  then obtain ti rest where t: "tis = ti # rest" "n = length rest" by (cases tis) auto
  note IH = Suc.IH [OF t(2), of "pre @ [ti]"]
  show ?case
  proof (cases "is_sleeping p ti time")
    case True
    then show ?thesis using IH t(1)
      by (cases "dropWhile (\<lambda>ti. is_sleeping p ti time) rest")
        (simp_all only: dropWhile.simps takeWhile.simps rotate_awake.simps list.case append_Cons
          append_Nil append_assoc not_not if_True if_False simp_thms)
  next
    case False
    then show ?thesis using t(1) by simp
  qed
qed simp

lemma get_next_awake:
  assumes "\<exists>ti \<in> set tis. \<not> is_sleeping p ti time"
  obtains asleep ti rest where "tis = asleep @ ti # rest" "\<forall>a \<in> set asleep. is_sleeping p a time"
    "\<not> is_sleeping p ti time" "get_next_thr p time tis = Some (ti, rest @ asleep @ [ti])"
proof -
  let ?P = "\<lambda>ti. is_sleeping p ti time"
  have "dropWhile ?P tis \<noteq> []" using assms by (auto simp: dropWhile_eq_Nil_conv)
  then obtain ti rest where d: "dropWhile ?P tis = ti # rest" by (cases "dropWhile ?P tis") auto
  have t: "tis = takeWhile ?P tis @ ti # rest" using d by (metis takeWhile_dropWhile_id)
  have "\<not> ?P ti" using d by (metis dropWhile_eq_Cons_conv)
  moreover have "get_next_thr p time tis = Some (ti, rest @ takeWhile ?P tis @ [ti])"
    using rotate_awake_split [OF refl, of p time tis "[]"] d assms by (auto simp: get_next_thr_def)
  ultimately show ?thesis using that [of "takeWhile ?P tis" ti rest] t by (auto dest: set_takeWhileD)
qed

lemma closest_wakeup_total:
  assumes "\<forall>t \<in> set ts. wakeup_info t \<noteq> None"
  shows "\<exists>ti' b'. closest_wakeup ts i ti b c = Some (ti', b') \<and> (ti' \<in> set ts \<or> ti' = ti)"
  using assms
proof (induction ts arbitrary: i ti b c)
  case (Cons t ts)
  then obtain w where w: "wakeup_info t = Some w" by auto
  show ?case using Cons.IH [of "Suc i" t i "wakeup_us w"] Cons.IH [of "Suc i" ti b c] Cons.prems w by auto
qed simp

lemma sleeping_has_wakeup: "is_sleeping p ti time \<Longrightarrow> wakeup_info ti \<noteq> None"
  by (cases "wakeup_info ti") (simp_all add: is_sleeping_def)

lemma mset_move_to_back:
  assumes "b < length l"
  shows "mset (take b l @ drop (Suc b) l @ [l ! b]) = mset l"
proof -
  have "mset l = mset (take b l @ l ! b # drop (Suc b) l)" using id_take_nth_drop [OF assms] by simp
  then show ?thesis by simp
qed

lemma get_next_asleep:
  assumes "tis \<noteq> []" and "\<forall>ti \<in> set tis. is_sleeping p ti time"
  obtains ti tis' where "get_next_thr p time tis = Some (ti, tis')" "mset tis' = mset tis" "ti \<in> set tis"
proof -
  have d: "dropWhile (\<lambda>ti. is_sleeping p ti time) tis = []" using assms(2) by simp
  have r: "rotate_awake p time (length tis) tis = (None, tis)"
    using rotate_awake_split [OF refl, of p time tis "[]"] unfolding d by simp
  obtain ti b where c: "closest_wakeup tis 0 (last tis) 0 (- 1) = Some (ti, b)" "ti \<in> set tis"
    using closest_wakeup_total [of tis 0 "last tis" 0 "- 1"] assms sleeping_has_wakeup by (metis last_in_set)
  then have "b < length tis" using closest_wakeup_bound [OF c(1)] assms(1) by auto
  then show ?thesis using that r c assms(1) mset_move_to_back by (auto simp: get_next_thr_def)
qed

text \<open>Consecutive selections while nobody falls asleep or wakes up.\<close>

fun selections :: "bool \<Rightarrow> u64 \<Rightarrow> nat \<Rightarrow> thread_info list \<Rightarrow> thread_info list" where
  "selections p time 0 tis = []"
| "selections p time (Suc k) tis =
     (case get_next_thr p time tis of
        None \<Rightarrow> []
      | Some (ti, tis') \<Rightarrow> ti # selections p time k tis')"

abbreviation awake :: "bool \<Rightarrow> u64 \<Rightarrow> thread_info list \<Rightarrow> thread_info list" where
  "awake p time tis \<equiv> filter (\<lambda>ti. \<not> is_sleeping p ti time) tis"

lemma get_next_rotates:
  assumes "awake p time tis = a # as"
  shows "\<exists>tis'. get_next_thr p time tis = Some (a, tis') \<and> awake p time tis' = as @ [a] \<and> mset tis' = mset tis"
proof -
  have "\<exists>ti \<in> set tis. \<not> is_sleeping p ti time" using assms by (metis filter_False list.distinct(1))
  then obtain xs ti ys where s: "tis = xs @ ti # ys" "\<forall>x \<in> set xs. is_sleeping p x time"
    "\<not> is_sleeping p ti time" "get_next_thr p time tis = Some (ti, ys @ xs @ [ti])"
    by (rule get_next_awake)
  have "awake p time xs = []" using s(2) by simp
  then have "ti = a" "awake p time ys = as" using assms s(1,3) by auto
  then show ?thesis using s \<open>awake p time xs = []\<close> by auto
qed

lemma selections_rotate:
  assumes "awake p time tis \<noteq> []"
  shows "selections p time k tis =
    map (\<lambda>j. awake p time tis ! (j mod length (awake p time tis))) [0..<k]"
  using assms
proof (induction k arbitrary: tis)
  case (Suc k)
  let ?w = "awake p time tis"
  from Suc.prems obtain a as where w: "?w = a # as" by (cases ?w) auto
  obtain tis' where n: "get_next_thr p time tis = Some (a, tis')" and w': "awake p time tis' = as @ [a]"
    using get_next_rotates [OF w] by blast
  have rot: "(as @ [a]) ! (j mod Suc (length as)) = (a # as) ! (Suc j mod Suc (length as))" for j
    using nth_rotate1 [of "j mod Suc (length as)" "a # as"] by (simp add: mod_Suc_eq)
  have "selections p time (Suc k) tis = a # map (\<lambda>j. (as @ [a]) ! (j mod Suc (length as))) [0..<k]"
    using n Suc.IH [of tis'] w' by simp
  also have "\<dots> = map (\<lambda>j. (a # as) ! (j mod Suc (length as))) (0 # map Suc [0..<k])"
    by (simp add: rot)
  also have "0 # map Suc [0..<k] = [0..<Suc k]" by (simp add: map_Suc_upt upt_conv_Cons)
  finally show ?case using w by simp
qed simp

text \<open>The example threads of the witnesses: one awake, one asleep until \<open>t\<close>, each with a queue.\<close>

definition example_thread :: "int \<Rightarrow> vm_thread" where
  "example_thread t = \<lparr>tid = t, thread_obj = nat t, interrupted = False, unpark_permit = False,
     daemon = False, fuel = 0, yield_at_time = 0\<rparr>"

definition example_call :: "nat \<Rightarrow> pending_call" where
  "example_call r = \<lparr>call_static = True, call_arg_kinds = [], call_return_kind = TYPE_KIND_VOID,
     call_args = [], call_record = r\<rparr>"

definition example_info :: "int \<Rightarrow> nat list \<Rightarrow> u64 option \<Rightarrow> thread_info" where
  "example_info t rs sleep = \<lparr>ti_thread = example_thread t, call_queue = map example_call rs,
     wakeup_info = map_option (\<lambda>us. \<lparr>wk_kind = RR_WAKEUP_SLEEP, wakeup_us = us, wk_monitor = 0,
       wk_ready = False\<rparr>) sleep\<rparr>"

lemmas example_defs = example_thread_def example_call_def example_info_def

lemma example_sleeping:
  "is_sleeping p (example_info t rs None) time = False"
  "is_sleeping p (example_info t rs (Some us)) time \<longleftrightarrow> us = 0 \<or> us \<ge> time"
  by (simp_all add: is_sleeping_def example_defs)

text \<open>C19: Round robin is fair: while the set of awake threads does not change, the \<open>k\<close> next selections
  go through the awake threads in queue order, again and again, and no sleeping thread is chosen.
  Any awake thread is therefore selected once in every round of as many selections as there are
  awake threads.\<close>

theorem round_robin_fair:
  assumes "filter (\<lambda>ti. \<not> is_sleeping p ti time) tis = ws" and "ws \<noteq> []"
  shows "selections p time k tis = map (\<lambda>j. ws ! (j mod length ws)) [0..<k]"
  using selections_rotate [of p time tis k] assms by simp

theorem round_robin_fair_witness:
  "selections False 10 3 [example_info 1 [] None, example_info 2 [] (Some 20), example_info 3 [] None]
     = [example_info 1 [] None, example_info 3 [] None, example_info 1 [] None]"
proof -
  have "filter (\<lambda>ti. \<not> is_sleeping False ti 10)
    [example_info 1 [] None, example_info 2 [] (Some 20), example_info 3 [] None] =
    [example_info 1 [] None, example_info 3 [] None]"
    by (simp add: example_sleeping)
  from round_robin_fair [OF this, of 3] show ?thesis by (simp add: upt_rec)
qed

section \<open>Sleeping\<close>

lemma may_sleep_loop_sound:
  assumes "may_sleep_loop p time tis least = Some r"
  shows "r \<le> least \<and> (\<forall>ti \<in> set tis. call_queue ti \<noteq> [] \<longrightarrow>
    is_sleeping p ti time \<and> (\<exists>w. wakeup_info ti = Some w \<and> (wakeup_us w = 0 \<or> r \<le> wakeup_us w)))"
  using assms
proof (induction p time tis least rule: may_sleep_loop.induct)
  case (2 p time ti tis least)
  show ?case
  proof (cases "call_queue ti = []")
    case True
    then show ?thesis using 2 by simp
  next
    case False
    then obtain w where w: "is_sleeping p ti time" "wakeup_info ti = Some w"
      using 2(3) by (auto split: if_splits option.splits)
    let ?l = "if wakeup_us w \<noteq> 0 \<and> wakeup_us w < least then wakeup_us w else least"
    have "may_sleep_loop p time tis ?l = Some r" using 2(3) w False by simp
    from 2(1) [OF False w this] have IH: "r \<le> ?l" "\<forall>ti \<in> set tis. call_queue ti \<noteq> [] \<longrightarrow>
      is_sleeping p ti time \<and> (\<exists>w. wakeup_info ti = Some w \<and> (wakeup_us w = 0 \<or> r \<le> wakeup_us w))"
      by blast+
    from IH(1) have "r \<le> least" "wakeup_us w = 0 \<or> r \<le> wakeup_us w"
      by (auto split: if_splits)
    then show ?thesis using IH(2) w by auto
  qed
qed simp

lemma is_sleeping_until:
  assumes "is_sleeping p ti time" and "wakeup_info ti = Some w" and "wakeup_us w = 0 \<or> t \<le> wakeup_us w"
  shows "is_sleeping p ti t"
  using assms by (simp add: is_sleeping_def split: if_splits)

text \<open>C28: The embedder may sleep for the time that \<open>rr_scheduler_may_sleep_us\<close> returns: if the answer
  is not \<open>0\<close>, every thread with a pending call is asleep now and, as long as no notification comes
  in, stays asleep up to the end of that interval, which does not overflow.\<close>

theorem may_sleep_safe:
  assumes "rr_scheduler_may_sleep_us s time = r" and "0 < r"
    and "ti \<in> set (round_robin s)" and "call_queue ti \<noteq> []"
    and "t \<le> time + r"
  shows "time < time + r \<and> is_sleeping (reference_pending s) ti t"
proof -
  obtain least where l: "may_sleep_loop (reference_pending s) time (round_robin s) (- 1) = Some least"
    and r: "least > time" "r = least - time"
    using assms(1,2) by (auto simp: rr_scheduler_may_sleep_us_def split: option.splits if_splits)
  from may_sleep_loop_sound [OF l] obtain w where
    "is_sleeping (reference_pending s) ti time" "wakeup_info ti = Some w"
    "wakeup_us w = 0 \<or> least \<le> wakeup_us w"
    using assms(3,4) by blast
  moreover have "t \<le> least" using r assms(5) by simp
  ultimately have "is_sleeping (reference_pending s) ti t"
    by (elim disjE) (auto intro: is_sleeping_until order_trans)
  then show ?thesis using r by simp
qed

theorem may_sleep_safe_witness:
  "is_sleeping False (example_info 1 [7] (Some 50)) 40"
proof -
  let ?s = "(rr_scheduler_init False [])\<lparr>round_robin := [example_info 1 [7] (Some 50)]\<rparr>"
  have w: "wakeup_info (example_info 1 [7] (Some 50)) = Some \<lparr>wk_kind = RR_WAKEUP_SLEEP, wakeup_us = 50,
    wk_monitor = 0, wk_ready = False\<rparr>" "call_queue (example_info 1 [7] (Some 50)) \<noteq> []"
    by (simp_all add: example_defs)
  have "rr_scheduler_may_sleep_us ?s 10 = 40"
    by (simp add: rr_scheduler_may_sleep_us_def rr_scheduler_init_def example_sleeping w)
  from may_sleep_safe [OF this, of "example_info 1 [7] (Some 50)" 40] show ?thesis
    by (simp add: w rr_scheduler_init_def)
qed

section \<open>Synchronous execution\<close>

lemma execute_queue_before:
  assumes "\<forall>c vm. fst (run c vm)" and "distinct (map call_record (pre @ c # rest))" and "pre \<noteq> []"
  shows "\<exists>vm'. execute_queue run (call_record c) (pre @ c # rest) vm =
    (SCHEDULER_RESULT_DONE, map call_record pre, c # rest, vm')"
  using assms(2,3)
proof (induction pre arbitrary: vm)
  case (Cons d pre)
  obtain vm1 where run: "run d vm = (True, vm1)" using assms(1) by (metis prod.collapse)
  show ?case
  proof (cases pre)
    case Nil
    then show ?thesis using run by simp
  next
    case (Cons e pre')
    have "call_record e \<noteq> call_record c" using Cons.prems(1) Cons by auto
    moreover obtain vm' where "execute_queue run (call_record c) (pre @ c # rest) vm1 =
      (SCHEDULER_RESULT_DONE, map call_record pre, c # rest, vm')"
      using Cons.IH [of vm1] Cons.prems(1) Cons by auto
    ultimately show ?thesis using run Cons by simp
  qed
qed simp

lemma execute_queue_missing:
  assumes "\<forall>c vm. fst (run c vm)" and "r \<notin> set (map call_record q)"
  shows "\<exists>vm'. execute_queue run r q vm = (SCHEDULER_RESULT_DONE, map call_record q, [], vm')"
  using assms(2)
proof (induction q arbitrary: vm)
  case (Cons d q)
  obtain vm1 where run: "run d vm = (True, vm1)" using assms(1) by (metis prod.collapse)
  obtain vm' where "execute_queue run r q vm1 = (SCHEDULER_RESULT_DONE, map call_record q, [], vm')"
    using Cons by auto
  then show ?case using run Cons.prems by (cases q) auto
qed simp

lemma execute_queue_first:
  assumes "\<forall>c vm. fst (run c vm)" and "distinct (map call_record (c # rest))"
  shows "\<exists>vm'. execute_queue run (call_record c) (c # rest) vm =
    (SCHEDULER_RESULT_DONE, map call_record (c # rest), [], vm')"
proof -
  obtain vm1 where run: "run c vm = (True, vm1)" using assms(1) by (metis prod.collapse)
  obtain vm' where "execute_queue run (call_record c) rest vm1 =
    (SCHEDULER_RESULT_DONE, map call_record rest, [], vm')"
    using execute_queue_missing [OF assms(1), of "call_record c" rest vm1] assms(2) by auto
  then show ?thesis using run assms(2) by (cases rest) auto
qed

text \<open>C29: \<open>rr_scheduler_execute_immediately\<close> is meant to execute the pending calls of the thread up to
  the given record. As written it compares the record after the deletion, through a pointer that
  by then designates the following call: if other calls precede the requested one it executes
  exactly those and reports success with the requested call not executed and still queued, and if
  the requested call is the first it executes every call of the queue.\<close>

theorem execute_immediately_off_by_one:
  assumes "\<forall>c vm. fst (run c vm)" and "distinct (map call_record (pre @ c # rest))"
    and "find (\<lambda>ti. info_tid ti = t) tis = Some ti" and "call_queue ti = pre @ c # rest"
  shows "\<exists>vm'. rr_scheduler_execute_immediately run t (call_record c) tis vm =
    (if pre = []
     then (SCHEDULER_RESULT_DONE, map call_record (c # rest), update_info t (\<lambda>ti. ti\<lparr>call_queue := []\<rparr>) tis, vm')
     else (SCHEDULER_RESULT_DONE, map call_record pre, update_info t (\<lambda>ti. ti\<lparr>call_queue := c # rest\<rparr>) tis, vm'))"
proof (cases "pre = []")
  case True
  then show ?thesis using execute_queue_first [OF assms(1), of c rest vm] assms(2-)
    by (auto simp: rr_scheduler_execute_immediately_def)
next
  case False
  then show ?thesis using execute_queue_before [OF assms(1,2) False, of vm] assms(3,4)
    by (auto simp: rr_scheduler_execute_immediately_def)
qed

theorem execute_immediately_off_by_one_witness:
  "\<exists>vm'. rr_scheduler_execute_immediately (\<lambda>c vm. (True, vm + 1)) 1 9 [example_info 1 [8, 9] None] (0::int) =
     (SCHEDULER_RESULT_DONE, [8], [example_info 1 [9] None], vm')"
  using execute_immediately_off_by_one [of "\<lambda>c vm. (True, vm + 1)" "[example_call 8]" "example_call 9" "[]" 1
      "[example_info 1 [8, 9] None]" "example_info 1 [8, 9] None" "0::int"]
  by (simp add: example_defs update_info_def)

section \<open>The invariant of the queue\<close>

text \<open>Each thread has one \<open>thread_info\<close>; each queued call has a record of its own, which is listed in
  \<open>executions\<close> and whose status is still \<open>SCHEDULER_RESULT_MORE\<close>.\<close>

definition queued :: "thread_info list \<Rightarrow> nat list" where
  "queued tis = concat (map (\<lambda>ti. map call_record (call_queue ti)) tis)"

definition unfinished :: "execution_record list \<Rightarrow> nat \<Rightarrow> bool" where
  "unfinished records r = list_ex (\<lambda>x. rec_id x = r \<and> rec_status x = SCHEDULER_RESULT_MORE) records"

definition scheduler_inv :: "rr_scheduler \<Rightarrow> bool" where
  "scheduler_inv s =
     (distinct (map info_tid (round_robin s)) \<and> distinct (map rec_id (executions s)) \<and>
      distinct (queued (round_robin s)) \<and> list_all (unfinished (executions s)) (queued (round_robin s)))"

definition head_call :: "int \<Rightarrow> pending_call \<Rightarrow> rr_scheduler \<Rightarrow> bool" where
  "head_call t call s = list_ex (\<lambda>ti. info_tid ti = t \<and> take 1 (call_queue ti) = [call]) (round_robin s)"

text \<open>What the scheduler relies on in the interpreter: executing code keeps the invariant (it may
  start threads, notify and queue calls) and does not take the running call from its queue.\<close>

definition interpreter_keeps :: "interpreter \<Rightarrow> bool" where
  "interpreter_keeps call_interpreter =
     (\<forall>thread call s. scheduler_inv s \<and> head_call (tid thread) call s \<longrightarrow>
        scheduler_inv (snd (call_interpreter thread call s)) \<and>
        head_call (tid thread) call (snd (call_interpreter thread call s)))"

lemma interpreter_keepsD:
  assumes "interpreter_keeps call_interpreter" and "scheduler_inv s" and "head_call (tid thread) call s"
  shows "scheduler_inv (snd (call_interpreter thread call s))"
    "head_call (tid thread) call (snd (call_interpreter thread call s))"
  using assms by (auto simp: interpreter_keeps_def)

lemma queued_simps [simp]:
  "queued [] = []" "queued (ti # tis) = map call_record (call_queue ti) @ queued tis"
  "queued (xs @ ys) = queued xs @ queued ys"
  by (simp_all add: queued_def)

lemma queued_mset: "mset xs = mset ys \<Longrightarrow> mset (queued xs) = mset (queued ys)"
proof (induction xs arbitrary: ys)
  case (Cons x xs)
  then have "x \<in> set ys" by (metis list.set_intros(1) mset_eq_setD)
  then obtain as bs where ys: "ys = as @ x # bs" by (meson split_list)
  then have "mset xs = mset (as @ bs)" using Cons.prems by simp
  from Cons.IH [OF this] show ?case using ys by simp
qed simp

lemma scheduler_inv_mset:
  assumes "scheduler_inv s" and "mset tis = mset (round_robin s)"
  shows "scheduler_inv (s\<lparr>round_robin := tis\<rparr>)"
proof -
  have t: "mset (map info_tid tis) = mset (map info_tid (round_robin s))" using assms(2) by simp
  show ?thesis
    using assms(1) mset_eq_imp_distinct_iff [OF t] mset_eq_imp_distinct_iff [OF queued_mset [OF assms(2)]]
      mset_eq_setD [OF queued_mset [OF assms(2)]]
    by (simp add: scheduler_inv_def list_all_iff)
qed

lemma update_info_keeps:
  assumes "\<And>ti. info_tid (f ti) = info_tid ti" and "\<And>ti. call_queue (f ti) = call_queue ti"
  shows "map info_tid (update_info t f tis) = map info_tid tis" "queued (update_info t f tis) = queued tis"
  using assms by (induction tis) (auto simp: update_info_def)

lemma slice_keeps [simp]:
  "info_tid (refuel ti) = info_tid ti" "call_queue (refuel ti) = call_queue ti"
  "daemon (ti_thread (refuel ti)) = daemon (ti_thread ti)"
  "info_tid (start_slice time q ti) = info_tid ti" "call_queue (start_slice time q ti) = call_queue ti"
  by (simp_all add: refuel_def start_slice_def)

lemma scheduler_inv_update:
  assumes "scheduler_inv s" and "\<And>ti. info_tid (f ti) = info_tid ti" and "\<And>ti. call_queue (f ti) = call_queue ti"
  shows "scheduler_inv (s\<lparr>round_robin := update_info t f (round_robin s)\<rparr>)"
  using assms(1) update_info_keeps [of f, OF assms(2,3)] by (simp add: scheduler_inv_def)

lemma scheduler_inv_butlast:
  assumes "scheduler_inv s"
  shows "scheduler_inv (s\<lparr>round_robin := butlast (round_robin s)\<rparr>)"
proof (cases "round_robin s = []")
  case False
  then have r: "round_robin s = butlast (round_robin s) @ [last (round_robin s)]" by simp
  have "distinct (map info_tid (butlast (round_robin s) @ [last (round_robin s)]))"
    "distinct (queued (butlast (round_robin s) @ [last (round_robin s)]))"
    "list_all (unfinished (executions s)) (queued (butlast (round_robin s) @ [last (round_robin s)]))"
    using assms r by (simp_all add: scheduler_inv_def)
  then show ?thesis using assms by (simp add: scheduler_inv_def)
qed (use assms in \<open>simp add: scheduler_inv_def\<close>)

lemma notify_all_keeps [simp]:
  "map info_tid (monitor_notify_all m tis) = map info_tid tis" "queued (monitor_notify_all m tis) = queued tis"
  by (induction tis) (auto simp: monitor_notify_all_def set_ready_def)

lemma update_info_absent: "t \<notin> info_tid ` set tis \<Longrightarrow> update_info t f tis = tis"
  by (induction tis) (auto simp: update_info_def)

lemma remove_info_here:
  "t \<notin> info_tid ` set xs \<Longrightarrow> info_tid ti = t \<Longrightarrow> remove_info t (xs @ ti # ys) = xs @ ys"
  by (induction xs) auto

lemma find_info_here:
  "t \<notin> info_tid ` set xs \<Longrightarrow> info_tid ti = t \<Longrightarrow> find (\<lambda>i. info_tid i = t) (xs @ ti # ys) = Some ti"
  by (induction xs) auto

lemma head_call_split:
  assumes "scheduler_inv s" and "head_call t call s"
  obtains xs ti ys rest where "round_robin s = xs @ ti # ys" "info_tid ti = t" "call_queue ti = call # rest"
    "t \<notin> info_tid ` set xs" "t \<notin> info_tid ` set ys"
proof -
  obtain ti where "ti \<in> set (round_robin s)" and t: "info_tid ti = t" "take 1 (call_queue ti) = [call]"
    using assms(2) by (auto simp: head_call_def list_ex_iff)
  then obtain xs ys where r: "round_robin s = xs @ ti # ys" by (meson split_list)
  obtain rest where "call_queue ti = call # rest" using t(2) by (cases "call_queue ti") auto
  then show ?thesis using that [of xs ti ys rest] r t assms(1) by (auto simp: scheduler_inv_def)
qed

text \<open>After the head call of thread \<open>t\<close> is finished.\<close>

lemma unshift_shape:
  assumes "round_robin s = xs @ ti # ys" "info_tid ti = t" "call_queue ti = call # rest"
    "t \<notin> info_tid ` set xs" "t \<notin> info_tid ` set ys"
  shows "queued (round_robin (unshift t s)) = queued xs @ map call_record rest @ queued ys"
    "mset (map info_tid (round_robin (unshift t s))) \<subseteq># mset (map info_tid (round_robin s))"
    "executions (unshift t s) = executions s"
proof -
  let ?ti = "ti\<lparr>call_queue := rest\<rparr>"
  have u: "update_info t (\<lambda>ti. ti\<lparr>call_queue := drop 1 (call_queue ti)\<rparr>) (round_robin s) = xs @ ?ti # ys"
    using update_info_absent [of t xs] update_info_absent [of t ys] assms
    by (simp add: update_info_def)
  have f: "unshift t s = (if rest = [] then free_thread_info ?ti (s\<lparr>round_robin := xs @ ys\<rparr>)
                          else s\<lparr>round_robin := xs @ ?ti # ys\<rparr>)"
    using u assms find_info_here [of t xs ?ti ys] remove_info_here [of t xs ?ti ys]
    by (simp add: unshift_def) auto
  show "queued (round_robin (unshift t s)) = queued xs @ map call_record rest @ queued ys"
    by (simp add: f free_thread_info_def)
  show "executions (unshift t s) = executions s" by (simp add: f free_thread_info_def)
  show "mset (map info_tid (round_robin (unshift t s))) \<subseteq># mset (map info_tid (round_robin s))"
    by (simp add: f free_thread_info_def assms(1) del: mset_map)
qed

lemma finish_record_executions:
  "executions (finish_record call result s) =
     map (\<lambda>r. if rec_id r = call_record call
       then r\<lparr>rec_status := SCHEDULER_RESULT_DONE, rec_returned := result,
              rec_js_handle := fst (if call_return_kind call = TYPE_KIND_REFERENCE \<and> result \<noteq> 0
                then make_js_handle result (js_handles s) else (- 1, js_handles s))\<rparr> else r) (executions s)"
  "round_robin (finish_record call result s) = round_robin s"
  by (simp_all add: finish_record_def case_prod_beta)

lemma finish_record_unfinished:
  assumes "r \<noteq> call_record call" and "unfinished (executions s) r"
  shows "unfinished (executions (finish_record call result s)) r"
  using assms by (fastforce simp: unfinished_def list_ex_iff finish_record_executions)

lemma finish_record_ids: "map rec_id (executions (finish_record call result s)) = map rec_id (executions s)"
  by (simp add: finish_record_executions)

lemma distinct_mset_subset: "distinct ys \<Longrightarrow> mset xs \<subseteq># mset ys \<Longrightarrow> distinct xs"
  by (metis distinct_append mset_append mset_eq_imp_distinct_iff subset_mset.add_diff_inverse ex_mset)

lemma scheduler_inv_finished:
  assumes inv: "scheduler_inv s" and head: "head_call t call s"
  shows "scheduler_inv (unshift t (finish_record call result s))"
proof -
  obtain xs ti ys rest where sp: "round_robin s = xs @ ti # ys" "info_tid ti = t" "call_queue ti = call # rest"
    "t \<notin> info_tid ` set xs" "t \<notin> info_tid ` set ys"
    using head_call_split [OF assms] .
  let ?f = "finish_record call result s"
  have sp': "round_robin ?f = xs @ ti # ys" using sp(1) by (simp add: finish_record_executions)
  note sh = unshift_shape [OF sp' sp(2-5)]
  have d: "distinct (queued xs @ call_record call # map call_record rest @ queued ys)"
    "list_all (unfinished (executions s)) (queued xs @ map call_record rest @ queued ys)"
    using inv sp(1,3) by (auto simp: scheduler_inv_def)
  have "list_all (unfinished (executions ?f)) (queued xs @ map call_record rest @ queued ys)"
  proof -
    have "call_record call \<notin> set (queued xs @ map call_record rest @ queued ys)" using d(1) by auto
    then show ?thesis using d(2) unfolding list_all_iff by (metis finish_record_unfinished)
  qed
  moreover have "distinct (map info_tid (round_robin (unshift t ?f)))"
    using distinct_mset_subset [OF _ sh(2)] inv by (simp add: scheduler_inv_def finish_record_executions)
  moreover have "distinct (queued xs @ map call_record rest @ queued ys)" using d(1) by auto
  ultimately show ?thesis using inv by (simp add: scheduler_inv_def sh finish_record_ids)
qed

lemma get_next_total:
  assumes "tis \<noteq> []"
  obtains ti tis' where "get_next_thr p time tis = Some (ti, tis')" "mset tis' = mset tis" "ti \<in> set tis"
proof (cases "\<exists>ti \<in> set tis. \<not> is_sleeping p ti time")
  case True
  then obtain xs ti ys where "tis = xs @ ti # ys" "get_next_thr p time tis = Some (ti, ys @ xs @ [ti])"
    by (rule get_next_awake)
  then show ?thesis using that [of ti "ys @ xs @ [ti]"] by simp
next
  case False
  then show ?thesis using get_next_asleep [OF assms, of p time] that by blast
qed

text \<open>No thread is left, or only daemons.\<close>

definition idle :: "rr_scheduler \<Rightarrow> bool" where
  "idle s = (round_robin s = [] \<or> only_daemons_running (round_robin s))"

lemma after_call_keeps:
  assumes "scheduler_inv s" and "head_call t call s"
  shows "scheduler_inv (snd (after_call t call (fut, s))) \<and>
    (fst (after_call t call (fut, s)) =
       (if idle (snd (after_call t call (fut, s))) then SCHEDULER_RESULT_DONE else SCHEDULER_RESULT_MORE))"
  using scheduler_inv_finished [OF assms] scheduler_inv_update [OF assms(1)]
  by (cases fut) (auto simp: after_call_def idle_def Let_def)

lemma daemons_mset: "mset xs = mset ys \<Longrightarrow> only_daemons_running (update_info t refuel xs) = only_daemons_running ys"
proof (drule mset_eq_setD)
  have "only_daemons_running (update_info t refuel xs) = only_daemons_running xs"
    by (induction xs) (auto simp: only_daemons_running_def update_info_def)
  moreover assume "set xs = set ys"
  ultimately show ?thesis by (simp add: only_daemons_running_def list_all_iff)
qed

lemma step_keeps:
  assumes "interpreter_keeps call_interpreter" and "scheduler_inv s"
    and "rr_scheduler_step call_interpreter clock n s = (st, s')"
  shows "scheduler_inv s' \<and> st = (if idle s' then SCHEDULER_RESULT_DONE else SCHEDULER_RESULT_MORE)"
  using assms
proof (induction call_interpreter clock n s rule: rr_scheduler_step.induct)
  case (1 interp clock n s)
  show ?case
  proof (cases "idle s")
    case True
    then show ?thesis using 1(3,4) by (auto simp: rr_scheduler_step.simps [of interp] idle_def)
  next
    case False
    then have ne: "round_robin s \<noteq> []" and nd: "\<not> only_daemons_running (round_robin s)"
      by (auto simp: idle_def)
    obtain ti tis where g: "get_next_thr (reference_pending s) (clock (n + 1)) (round_robin s) = Some (ti, tis)"
      and m: "mset tis = mset (round_robin s)" and ti: "ti \<in> set (round_robin s)"
      using get_next_total [OF ne] .
    let ?t = "info_tid ti"
    let ?tis = "update_info ?t refuel tis"
    let ?sl = "start_slice (clock n) (preemption_us s)"
    have inv1: "scheduler_inv (s\<lparr>round_robin := ?tis\<rparr>)"
      using scheduler_inv_update [OF scheduler_inv_mset [OF 1(3) m], of refuel ?t] by simp
    have inv2: "scheduler_inv (s\<lparr>round_robin := update_info ?t ?sl ?tis\<rparr>)"
      using scheduler_inv_update [OF inv1, of ?sl ?t] by simp
    show ?thesis
    proof (cases "is_sleeping (reference_pending s) ti (clock n)")
      case True
      then have "st = SCHEDULER_RESULT_MORE" "s' = s\<lparr>round_robin := ?tis\<rparr>"
        using 1(4) ne nd g by (simp_all add: rr_scheduler_step.simps [of interp clock n s] Let_def)
      moreover have "\<not> only_daemons_running ?tis" using nd daemons_mset [OF m] by simp
      moreover from this have "?tis \<noteq> []" by (auto simp: only_daemons_running_def)
      ultimately show ?thesis using inv1 by (simp add: idle_def)
    next
      case awake: False
      show ?thesis
      proof (cases "call_queue ti")
        case Nil
        have "rr_scheduler_step interp clock (n + 2) (s\<lparr>round_robin := butlast (update_info ?t ?sl ?tis)\<rparr>) = (st, s')"
          using 1(4) ne nd g awake Nil by (simp add: rr_scheduler_step.simps [of interp clock n s] Let_def)
        moreover have "scheduler_inv (s\<lparr>round_robin := butlast (update_info ?t ?sl ?tis)\<rparr>)"
          using scheduler_inv_butlast [OF inv2] by simp
        ultimately show ?thesis using 1(1) [OF _ refl g refl refl refl awake refl refl, simplified]
          ne nd Nil 1(2) by simp
      next
        case (Cons call rest)
        let ?s = "s\<lparr>round_robin := update_info ?t ?sl ?tis\<rparr>"
        let ?r = "interp (ti_thread (?sl (refuel ti))) call ?s"
        have "ti \<in> set tis" using ti m by (metis mset_eq_setD)
        then have "?sl (refuel ti) \<in> set (update_info ?t ?sl ?tis)"
          by (auto simp: update_info_def)
        then have "head_call ?t call ?s" using Cons
          by (auto simp: head_call_def list_ex_iff intro!: bexI [of _ "?sl (refuel ti)"])
        then have "scheduler_inv (snd ?r)" "head_call ?t call (snd ?r)"
          using interpreter_keepsD [OF 1(2) inv2, of "ti_thread (?sl (refuel ti))" call] by simp_all
        moreover have "(st, s') = after_call ?t call (fst ?r, snd ?r)"
          using 1(4) ne nd g awake Cons by (simp add: rr_scheduler_step.simps [of interp clock n s] Let_def)
        ultimately show ?thesis using after_call_keeps [of "snd ?r" ?t call "fst ?r"] by (metis fst_conv snd_conv)
      qed
    qed
  qed
qed

lemma rr_scheduler_init_inv: "scheduler_inv (rr_scheduler_init pending handles)"
  by (simp add: scheduler_inv_def rr_scheduler_init_def)

lemma create_info_keeps:
  "distinct (map info_tid tis) \<Longrightarrow> distinct (map info_tid (get_or_create_thread_info thread tis))"
  "queued (get_or_create_thread_info thread tis) = queued tis"
  by (auto simp: get_or_create_thread_info_def list_ex_iff)

lemma enqueue_shape:
  assumes "distinct (map info_tid tis)"
  shows "mset (queued (update_info t (\<lambda>ti. ti\<lparr>call_queue := call_queue ti @ [c]\<rparr>) tis)) =
      (if t \<in> info_tid ` set tis then {#call_record c#} else {#}) + mset (queued tis)"
    "map info_tid (update_info t (\<lambda>ti. ti\<lparr>call_queue := call_queue ti @ [c]\<rparr>) tis) = map info_tid tis"
  using assms by (induction tis) (auto simp: update_info_def)

lemma rr_scheduler_run_inv:
  assumes "scheduler_inv s" and "fresh \<notin> rec_id ` set (executions s)"
  shows "scheduler_inv (rr_scheduler_run thread call fresh s)"
proof -
  let ?tis = "get_or_create_thread_info thread (round_robin s)"
  let ?s = "rr_scheduler_run thread call fresh s"
  let ?c = "call\<lparr>call_record := fresh\<rparr>"
  have d: "distinct (map info_tid ?tis)" using assms(1) create_info_keeps(1) by (auto simp: scheduler_inv_def)
  have t: "tid thread \<in> info_tid ` set ?tis"
    by (auto simp: get_or_create_thread_info_def list_ex_iff intro: rev_image_eqI)
  have q: "mset (queued (round_robin ?s)) = mset (fresh # queued (round_robin s))"
    using enqueue_shape(1) [OF d, of "tid thread" ?c] t create_info_keeps(2) by (simp add: rr_scheduler_run_def)
  have u: "\<forall>r \<in> set (queued (round_robin s)). unfinished (executions s) r"
    using assms(1) by (auto simp: scheduler_inv_def list_all_iff)
  have "fresh \<notin> set (queued (round_robin s))"
    using u assms(2) by (auto simp: unfinished_def list_ex_iff)
  then have "distinct (queued (round_robin ?s))"
    using mset_eq_imp_distinct_iff [OF q] assms(1) by (simp add: scheduler_inv_def)
  moreover have "list_all (unfinished (executions ?s)) (queued (round_robin ?s))"
    using mset_eq_setD [OF q] u by (auto simp: list_all_iff unfinished_def rr_scheduler_run_def)
  ultimately show ?thesis using assms d enqueue_shape(2) [OF d, of "tid thread" ?c]
    by (simp add: scheduler_inv_def rr_scheduler_run_def)
qed

text \<open>C30: A step of the scheduler keeps its invariant (one queue entry per thread, one unfinished
  record per queued call), whatever the clock says, and the status it reports is
  \<open>SCHEDULER_RESULT_DONE\<close> exactly when no thread but daemons is left, if the interpreter keeps the
  invariant and leaves the running call at the head of its queue. So the two branches that the code
  guards against, an empty queue and a null thread, are not taken, and the loop over threads with an
  empty queue ends.\<close>

theorem scheduler_step_invariant:
  assumes "interpreter_keeps call_interpreter" and "scheduler_inv s"
  shows "case rr_scheduler_step call_interpreter clock n s of (st, s') \<Rightarrow>
    scheduler_inv s' \<and> st = (if idle s' then SCHEDULER_RESULT_DONE else SCHEDULER_RESULT_MORE)"
  using step_keeps [OF assms] by (cases "rr_scheduler_step call_interpreter clock n s") simp

theorem scheduler_step_invariant_witness:
  "case rr_scheduler_step (\<lambda>th c s. (Future_ready 0, s)) (\<lambda>n. 5) 0
          (rr_scheduler_run (example_thread 1) (example_call 0) 7 (rr_scheduler_init False [])) of
     (st, s') \<Rightarrow> scheduler_inv s' \<and> st = (if idle s' then SCHEDULER_RESULT_DONE else SCHEDULER_RESULT_MORE)"
proof (rule scheduler_step_invariant)
  show "interpreter_keeps (\<lambda>th c s. (Future_ready 0, s))" by (simp add: interpreter_keeps_def)
  show "scheduler_inv (rr_scheduler_run (example_thread 1) (example_call 0) 7 (rr_scheduler_init False []))"
    by (rule rr_scheduler_run_inv [OF rr_scheduler_init_inv]) (simp add: rr_scheduler_init_def)
qed

section \<open>Handles\<close>

lemma first_null_Some: "first_null hs i = Some j \<Longrightarrow> i \<le> j \<and> j - i < length hs \<and> hs ! (j - i) = 0"
proof (induction hs arbitrary: i)
  case (Cons h hs)
  show ?case
  proof (cases "h = 0")
    case False
    then have j: "Suc i \<le> j" "j - Suc i < length hs" "hs ! (j - Suc i) = 0"
      using Cons.IH [of "Suc i"] Cons.prems by auto
    then have "j - i = Suc (j - Suc i)" by simp
    then show ?thesis using j by simp
  qed (use Cons.prems in simp)
qed simp

text \<open>A handle designates its object, and making one leaves every live handle as it was.\<close>

lemma make_js_handle_deref:
  assumes "make_js_handle obj hs = (i, hs')"
  shows "deref_js_handle i hs' = obj"
    "deref_js_handle j hs \<noteq> 0 \<Longrightarrow> j \<noteq> i \<and> deref_js_handle j hs' = deref_js_handle j hs"
proof -
  show "deref_js_handle i hs' = obj" using assms first_null_Some [of hs 0]
    by (auto simp: make_js_handle_def deref_js_handle_def split: option.splits)
  show "deref_js_handle j hs \<noteq> 0 \<Longrightarrow> j \<noteq> i \<and> deref_js_handle j hs' = deref_js_handle j hs"
    using assms first_null_Some [of hs 0]
    by (auto simp: make_js_handle_def deref_js_handle_def nth_append nth_list_update
        split: option.splits if_splits)
qed

text \<open>The record of a pending call is zeroed memory, so its \<open>js_handle\<close> is \<open>0\<close>, a valid index: freeing
  it before the call has finished drops a handle that belongs to somebody else.\<close>

lemma free_unfinished_drops_handle_zero:
  assumes "js_handles s = obj # hs" and "r \<in> set (executions (rr_scheduler_run thread call fresh s))"
    and "r \<notin> set (executions s)"
  shows "js_handles (free_execution_record r (rr_scheduler_run thread call fresh s)) = 0 # hs"
proof -
  have "rec_js_handle r = 0" using assms(2,3) by (auto simp: rr_scheduler_run_def)
  then show ?thesis using assms(1)
    by (simp add: free_execution_record_def rr_scheduler_run_def drop_js_handle_def Let_def split: option.splits)
qed

end
