(* ===== verification/Monitors.thy ===== *)
theory Monitors
  imports Scheduler
begin

text \<open>
  Model of \<open>vm/monitors.c\<close>, of the header words of objects in \<open>vm/bjvm.c\<close> and of \<open>Object.wait0\<close>,
  \<open>notify\<close> and \<open>notifyAll\<close> (\<open>natives/share/java/lang/Object.c\<close>). The virtual machine runs on one thread
  of the host, so each of the atomic compare-and-swap operations succeeds or fails on the value that was
  just read; a contended acquisition returns to the scheduler at \<open>ASYNC_YIELD\<close> and is resumed at the
  head of its loop, and the two parts are separate definitions. The allocator is an argument: whether
  \<open>bump_allocate\<close> returned memory.
\<close>

section \<open>Header words\<close>

type_synonym mark_word_t = "u32 \<times> u32"

record monitor_data =
  owner :: int
  hold_count :: u32
  md_mark_word :: mark_word_t

datatype header_word = Mark_word mark_word_t | Expanded_data monitor_data

type_synonym headers = "nat \<Rightarrow> header_word"

definition NOT_HELD_TID :: int where "NOT_HELD_TID = - 1"

definition has_expanded_data :: "header_word \<Rightarrow> bool" where
  "has_expanded_data h = (case h of Mark_word _ \<Rightarrow> False | Expanded_data _ \<Rightarrow> True)"

definition get_mark_word :: "header_word \<Rightarrow> mark_word_t" where
  "get_mark_word h = (case h of Mark_word w \<Rightarrow> w | Expanded_data d \<Rightarrow> md_mark_word d)"

definition inspect_monitor :: "header_word \<Rightarrow> monitor_data option" where
  "inspect_monitor h = (case h of Mark_word _ \<Rightarrow> None | Expanded_data d \<Rightarrow> Some d)"

section \<open>Operations\<close>

datatype acquire_result = Acquired | Acquire_failed | Acquire_yield rr_wakeup_info

text \<open>The wake-up information of a contended acquisition. The flag \<open>ready\<close> is left as it was.\<close>

definition enter_wakeup :: "nat \<Rightarrow> bool \<Rightarrow> rr_wakeup_info" where
  "enter_wakeup obj ready =
     \<lparr>wk_kind = RR_MONITOR_ENTER_WAITING, wakeup_us = 0, wk_monitor = obj, wk_ready = ready\<rparr>"

text \<open>The body of the second loop of \<open>monitor_acquire\<close>, and of the loop of
  \<open>monitor_reacquire_hold_count\<close>, from the compare-and-swap to the yield.\<close>

definition acquire_loop :: "int \<Rightarrow> nat \<Rightarrow> bool \<Rightarrow> headers \<Rightarrow> acquire_result \<times> headers" where
  "acquire_loop t obj ready hs =
     (case inspect_monitor (hs obj) of
        None \<Rightarrow> (Acquire_failed, hs)
      | Some lock \<Rightarrow>
          if owner lock = NOT_HELD_TID
          then (Acquired, hs(obj := Expanded_data (lock\<lparr>owner := t, hold_count := 1\<rparr>)))
          else if owner lock = t
          then (Acquired, hs(obj := Expanded_data (lock\<lparr>hold_count := hold_count lock + 1\<rparr>)))
          else (Acquire_yield (enter_wakeup obj ready), hs))"

definition reacquire_loop :: "int \<Rightarrow> nat \<Rightarrow> u32 \<Rightarrow> bool \<Rightarrow> headers \<Rightarrow> acquire_result \<times> headers" where
  "reacquire_loop t obj held ready hs =
     (case inspect_monitor (hs obj) of
        None \<Rightarrow> (Acquire_failed, hs)
      | Some lock \<Rightarrow>
          if owner lock = NOT_HELD_TID
          then (Acquired, hs(obj := Expanded_data (lock\<lparr>owner := t, hold_count := held\<rparr>)))
          else if owner lock = t then (Acquire_failed, hs)
          else (Acquire_yield (enter_wakeup obj ready), hs))"

text \<open>The first loop of \<open>monitor_acquire\<close>: give the object a monitor. \<open>None\<close> is the out-of-memory
  path, which raises the exception and returns \<open>-1\<close>.\<close>

definition install_monitor :: "bool \<Rightarrow> nat \<Rightarrow> headers \<Rightarrow> headers option" where
  "install_monitor allocated obj hs =
     (case inspect_monitor (hs obj) of
        Some _ \<Rightarrow> Some hs
      | None \<Rightarrow>
          if allocated
          then Some (hs(obj := Expanded_data \<lparr>owner = NOT_HELD_TID, hold_count = 0,
                                              md_mark_word = get_mark_word (hs obj)\<rparr>))
          else None)"

definition monitor_acquire :: "bool \<Rightarrow> int \<Rightarrow> nat \<Rightarrow> headers \<Rightarrow> acquire_result \<times> headers" where
  "monitor_acquire allocated t obj hs =
     (case install_monitor allocated obj hs of
        None \<Rightarrow> (Acquire_failed, hs)
      | Some hs \<Rightarrow> acquire_loop t obj False hs)"

definition monitor_reacquire_hold_count :: "int \<Rightarrow> nat \<Rightarrow> u32 \<Rightarrow> headers \<Rightarrow> acquire_result \<times> headers" where
  "monitor_reacquire_hold_count t obj held hs = reacquire_loop t obj held False hs"

definition current_thread_hold_count :: "int \<Rightarrow> nat \<Rightarrow> headers \<Rightarrow> u32" where
  "current_thread_hold_count t obj hs =
     (case inspect_monitor (hs obj) of
        None \<Rightarrow> 0
      | Some lock \<Rightarrow> if owner lock \<noteq> t then 0 else hold_count lock)"

definition monitor_release_all_hold_count ::
    "int \<Rightarrow> nat \<Rightarrow> headers \<times> thread_info list \<Rightarrow> u32 \<times> headers \<times> thread_info list" where
  "monitor_release_all_hold_count t obj = (\<lambda>(hs, tis).
     case inspect_monitor (hs obj) of
       None \<Rightarrow> (0, hs, tis)
     | Some lock \<Rightarrow>
         if owner lock \<noteq> t then (0, hs, tis)
         else if hold_count lock = 0 then (0, hs, tis)
         else (hold_count lock,
               hs(obj := Expanded_data (lock\<lparr>hold_count := 0, owner := NOT_HELD_TID\<rparr>)),
               monitor_exit_handler obj tis))"

text \<open>The result is \<open>False\<close> for the return value \<open>-1\<close>.\<close>

definition monitor_release ::
    "int \<Rightarrow> nat \<Rightarrow> headers \<times> thread_info list \<Rightarrow> bool \<times> headers \<times> thread_info list" where
  "monitor_release t obj = (\<lambda>(hs, tis).
     case inspect_monitor (hs obj) of
       None \<Rightarrow> (False, hs, tis)
     | Some lock \<Rightarrow>
         if owner lock \<noteq> t then (False, hs, tis)
         else if hold_count lock = 0 then (False, hs, tis)
         else let held = hold_count lock - 1 in
              if held = 0
              then (True, hs(obj := Expanded_data (lock\<lparr>hold_count := held, owner := NOT_HELD_TID\<rparr>)),
                    monitor_exit_handler obj tis)
              else (True, hs(obj := Expanded_data (lock\<lparr>hold_count := held\<rparr>)), tis))"

section \<open>\<open>Object.wait\<close>, \<open>notify\<close>, \<open>notifyAll\<close>\<close>

datatype wait_error = InterruptedException | IllegalMonitorStateException

text \<open>\<open>Object.notify\<close> and \<open>Object.notifyAll\<close>.\<close>

definition object_notify :: "int \<Rightarrow> nat \<Rightarrow> headers \<Rightarrow> thread_info list \<Rightarrow> wait_error + thread_info list" where
  "object_notify t obj hs tis =
     (if current_thread_hold_count t obj hs = 0 then Inl IllegalMonitorStateException
      else Inr (monitor_notify_one obj tis))"

definition object_notify_all :: "int \<Rightarrow> nat \<Rightarrow> headers \<Rightarrow> thread_info list \<Rightarrow> wait_error + thread_info list" where
  "object_notify_all t obj hs tis =
     (if current_thread_hold_count t obj hs = 0 then Inl IllegalMonitorStateException
      else Inr (monitor_notify_all obj tis))"

text \<open>\<open>timeoutMillis * 1000\<close> is a product of 64-bit integers, added to the unsigned time.\<close>

definition wait_deadline :: "64 word \<Rightarrow> u64 \<Rightarrow> u64" where
  "wait_deadline timeoutMillis now = (if timeoutMillis = 0 then 0 else now + timeoutMillis * 1000)"

text \<open>The part of \<open>wait0\<close> before its yield: the flag \<open>interrupted\<close> afterwards, and the hold count to
  restore with the wake-up information, or the exception.\<close>

definition wait0_start ::
    "int \<Rightarrow> nat \<Rightarrow> 64 word \<Rightarrow> u64 \<Rightarrow> bool \<Rightarrow> headers \<times> thread_info list \<Rightarrow>
       (wait_error + u32 \<times> rr_wakeup_info) \<times> bool \<times> headers \<times> thread_info list" where
  "wait0_start t obj timeoutMillis now interrupt = (\<lambda>(hs, tis).
     if interrupt then (Inl InterruptedException, False, hs, tis)
     else case monitor_release_all_hold_count t obj (hs, tis) of
            (held, hs, tis) \<Rightarrow>
              if held = 0 then (Inl IllegalMonitorStateException, interrupt, hs, tis)
              else (Inr (held, \<lparr>wk_kind = RR_MONITOR_WAIT, wakeup_us = wait_deadline timeoutMillis now,
                                 wk_monitor = obj, wk_ready = False\<rparr>), interrupt, hs, tis))"

text \<open>The part after the monitor has been acquired again.\<close>

definition wait0_finish :: "bool \<Rightarrow> (wait_error + unit) \<times> bool" where
  "wait0_finish interrupt = (if interrupt then (Inl InterruptedException, False) else (Inr (), interrupt))"

section \<open>The contract of a reentrant lock\<close>

primrec repeat_opt :: "nat \<Rightarrow> ('s \<Rightarrow> 's option) \<Rightarrow> 's \<Rightarrow> 's option" where
  "repeat_opt 0 f s = Some s"
| "repeat_opt (Suc n) f s = (case repeat_opt n f s of None \<Rightarrow> None | Some s \<Rightarrow> f s)"

lemma repeat_opt_first: "repeat_opt (Suc n) f s = (case f s of None \<Rightarrow> None | Some s \<Rightarrow> repeat_opt n f s)"
  by (induction n) (auto split: option.splits)

locale reentrant_lock =
  fixes holds :: "int \<Rightarrow> 's \<Rightarrow> nat"
    and enter :: "int \<Rightarrow> 's \<Rightarrow> 's option"
    and leave :: "int \<Rightarrow> 's \<Rightarrow> 's option"
    and wf :: "'s \<Rightarrow> bool"
    and thread :: "int \<Rightarrow> bool"
    and limit :: nat
  assumes exclusive: "wf s \<Longrightarrow> 0 < holds t s \<Longrightarrow> 0 < holds u s \<Longrightarrow> t = u"
    and enter_blocks: "wf s \<Longrightarrow> thread t \<Longrightarrow> enter t s = None \<longleftrightarrow> (\<exists>u. u \<noteq> t \<and> 0 < holds u s)"
    and enter_holds: "wf s \<Longrightarrow> thread t \<Longrightarrow> enter t s = Some s' \<Longrightarrow> holds t s < limit \<Longrightarrow>
      wf s' \<and> holds t s' = Suc (holds t s) \<and> (\<forall>u. u \<noteq> t \<longrightarrow> holds u s' = holds u s)"
    and leave_error: "wf s \<Longrightarrow> thread t \<Longrightarrow> leave t s = None \<longleftrightarrow> holds t s = 0"
    and leave_holds: "wf s \<Longrightarrow> thread t \<Longrightarrow> leave t s = Some s' \<Longrightarrow>
      wf s' \<and> holds t s = Suc (holds t s') \<and> (\<forall>u. u \<noteq> t \<longrightarrow> holds u s' = holds u s)"
begin

lemma enter_many:
  assumes "wf s" and "thread t" and "holds t s + n \<le> limit" and "\<forall>u. u \<noteq> t \<longrightarrow> holds u s = 0"
  shows "\<exists>s'. repeat_opt n (enter t) s = Some s' \<and> wf s' \<and> holds t s' = holds t s + n \<and>
    (\<forall>u. u \<noteq> t \<longrightarrow> holds u s' = 0)"
  using assms(3)
proof (induction n)
  case 0
  then show ?case using assms by simp
next
  case (Suc n)
  then obtain s1 where s1: "repeat_opt n (enter t) s = Some s1" "wf s1" "holds t s1 = holds t s + n"
    "\<forall>u. u \<noteq> t \<longrightarrow> holds u s1 = 0" by auto
  then obtain s2 where e: "enter t s1 = Some s2" using enter_blocks [OF s1(2) assms(2)] by auto
  then show ?case using enter_holds [OF s1(2) assms(2) e] s1 Suc.prems by auto
qed

lemma leave_many:
  assumes "wf s" and "thread t" and "n \<le> holds t s"
  shows "\<exists>s'. repeat_opt n (leave t) s = Some s' \<and> wf s' \<and> holds t s' + n = holds t s \<and>
    (\<forall>u. u \<noteq> t \<longrightarrow> holds u s' = holds u s)"
  using assms(3)
proof (induction n)
  case 0
  then show ?case using assms by simp
next
  case (Suc n)
  then obtain s1 where s1: "repeat_opt n (leave t) s = Some s1" "wf s1" "holds t s1 + n = holds t s"
    "\<forall>u. u \<noteq> t \<longrightarrow> holds u s1 = holds u s" by auto
  then obtain s2 where e: "leave t s1 = Some s2" using leave_error [OF s1(2) assms(2)] Suc.prems by fastforce
  then show ?case using leave_holds [OF s1(2) assms(2) e] s1 by auto
qed

text \<open>Nested synchronized sections: \<open>n\<close> entries succeed and shut every other thread out, and \<open>n\<close> exits
  give back exactly what was there before.\<close>

lemma nested_sections:
  assumes "wf s" and "thread t" and "holds t s + n \<le> limit" and "\<forall>u. u \<noteq> t \<longrightarrow> holds u s = 0" and "0 < n"
  shows "\<exists>s1 s2. repeat_opt n (enter t) s = Some s1 \<and> holds t s1 = holds t s + n \<and>
    (\<forall>u. thread u \<and> u \<noteq> t \<longrightarrow> enter u s1 = None \<and> leave u s1 = None) \<and>
    repeat_opt n (leave t) s1 = Some s2 \<and> (\<forall>u. holds u s2 = holds u s)"
proof -
  obtain s1 where s1: "repeat_opt n (enter t) s = Some s1" "wf s1" "holds t s1 = holds t s + n"
    "\<forall>u. u \<noteq> t \<longrightarrow> holds u s1 = 0" using enter_many [OF assms(1-4)] by blast
  obtain s2 where s2: "repeat_opt n (leave t) s1 = Some s2" "holds t s2 + n = holds t s1"
    "\<forall>u. u \<noteq> t \<longrightarrow> holds u s2 = holds u s1" using leave_many [OF s1(2) assms(2), of n] s1(3) by auto
  have "holds u s2 = holds u s" for u using s1(3,4) s2(2,3) assms(4) by (cases "u = t") auto
  moreover have "enter u s1 = None \<and> leave u s1 = None" if "thread u" "u \<noteq> t" for u
    using enter_blocks [OF s1(2) that(1)] leave_error [OF s1(2) that(1)] s1(3,4) assms(5) that(2)
    by (metis add_gr_0)
  ultimately show ?thesis using s1 s2 by blast
qed

end

section \<open>Monitors are reentrant locks\<close>

text \<open>A monitor is free exactly when its hold count is \<open>0\<close>.\<close>

definition monitor_wf :: "nat \<Rightarrow> headers \<Rightarrow> bool" where
  "monitor_wf obj hs =
     (case inspect_monitor (hs obj) of None \<Rightarrow> True | Some d \<Rightarrow> (owner d = NOT_HELD_TID) = (hold_count d = 0))"

definition monitor_holds :: "nat \<Rightarrow> int \<Rightarrow> headers \<times> thread_info list \<Rightarrow> nat" where
  "monitor_holds obj t s = (if t = NOT_HELD_TID then 0 else unat (current_thread_hold_count t obj (fst s)))"

definition monitor_enter :: "nat \<Rightarrow> int \<Rightarrow> headers \<times> thread_info list \<Rightarrow> (headers \<times> thread_info list) option" where
  "monitor_enter obj t s =
     (case monitor_acquire True t obj (fst s) of
        (Acquired, hs) \<Rightarrow> Some (hs, snd s) | _ \<Rightarrow> None)"

definition monitor_leave :: "nat \<Rightarrow> int \<Rightarrow> headers \<times> thread_info list \<Rightarrow> (headers \<times> thread_info list) option" where
  "monitor_leave obj t s = (case monitor_release t obj s of (True, s) \<Rightarrow> Some s | _ \<Rightarrow> None)"

lemmas header_defs = has_expanded_data_def get_mark_word_def inspect_monitor_def

lemmas acquire_defs = monitor_acquire_def install_monitor_def acquire_loop_def

lemma word_neq_0_dec: "(c :: u32) \<noteq> 0 \<Longrightarrow> unat c = Suc (unat (c - 1))"
  by (simp add: unat_minus_one unat_gt_0)

lemma word_inc_unat: "unat (c :: u32) < 4294967295 \<Longrightarrow> unat (c + 1) = Suc (unat c)"
  by (simp add: unat_word_ariths)

lemma monitor_enter_blocks:
  assumes "monitor_wf obj (fst s)" and "t \<noteq> NOT_HELD_TID"
  shows "monitor_enter obj t s = None \<longleftrightarrow> (\<exists>u. u \<noteq> t \<and> 0 < monitor_holds obj u s)"
proof (cases "fst s obj")
  case (Mark_word w)
  then show ?thesis
    by (simp add: monitor_enter_def acquire_defs header_defs monitor_holds_def current_thread_hold_count_def)
next
  case (Expanded_data d)
  then show ?thesis using assms
    by (auto simp: monitor_enter_def acquire_defs header_defs monitor_holds_def current_thread_hold_count_def
        monitor_wf_def unat_gt_0)
qed

lemma monitor_enter_holds:
  assumes "monitor_wf obj (fst s)" and "t \<noteq> NOT_HELD_TID" and "monitor_enter obj t s = Some s'"
    and "monitor_holds obj t s < 4294967295"
  shows "monitor_wf obj (fst s') \<and> monitor_holds obj t s' = Suc (monitor_holds obj t s) \<and>
    (\<forall>u. u \<noteq> t \<longrightarrow> monitor_holds obj u s' = monitor_holds obj u s)"
proof (cases "fst s obj")
  case (Mark_word w)
  then show ?thesis using assms
    by (auto simp: monitor_enter_def acquire_defs header_defs monitor_holds_def current_thread_hold_count_def
        monitor_wf_def)
next
  case (Expanded_data d)
  have "hold_count d + 1 \<noteq> 0" if "unat (hold_count d) < 4294967295"
    using word_inc_unat [OF that] by (metis nat.distinct(1) unat_0)
  then show ?thesis using assms Expanded_data word_inc_unat [of "hold_count d"]
    by (auto simp: monitor_enter_def acquire_defs header_defs monitor_holds_def current_thread_hold_count_def
        monitor_wf_def split: if_splits)
qed

lemma monitor_leave_error:
  assumes "monitor_wf obj (fst s)" and "t \<noteq> NOT_HELD_TID"
  shows "monitor_leave obj t s = None \<longleftrightarrow> monitor_holds obj t s = 0"
  using assms
  by (cases s; cases "fst s obj")
    (auto simp: monitor_leave_def monitor_release_def header_defs monitor_holds_def
      current_thread_hold_count_def Let_def unat_eq_0)

lemma monitor_leave_holds:
  assumes "monitor_wf obj (fst s)" and "t \<noteq> NOT_HELD_TID" and "monitor_leave obj t s = Some s'"
  shows "monitor_wf obj (fst s') \<and> monitor_holds obj t s = Suc (monitor_holds obj t s') \<and>
    (\<forall>u. u \<noteq> t \<longrightarrow> monitor_holds obj u s' = monitor_holds obj u s)"
proof (cases "fst s obj")
  case (Mark_word w)
  then show ?thesis using assms(3)
    by (cases s) (simp add: monitor_leave_def monitor_release_def header_defs)
next
  case (Expanded_data d)
  then show ?thesis using assms word_neq_0_dec [of "hold_count d"]
    by (cases s) (auto simp: monitor_leave_def monitor_release_def header_defs monitor_holds_def
      current_thread_hold_count_def monitor_wf_def Let_def split: if_splits)
qed

lemma monitor_exclusive:
  "monitor_wf obj (fst s) \<Longrightarrow> 0 < monitor_holds obj t s \<Longrightarrow> 0 < monitor_holds obj u s \<Longrightarrow> t = u"
  by (auto simp: monitor_holds_def current_thread_hold_count_def split: option.splits if_splits)

interpretation monitor: reentrant_lock "monitor_holds obj" "monitor_enter obj" "monitor_leave obj"
  "\<lambda>s. monitor_wf obj (fst s)" "\<lambda>t. t \<noteq> NOT_HELD_TID" 4294967295 for obj
  by unfold_locales
    (fact monitor_exclusive monitor_enter_blocks monitor_enter_holds monitor_leave_error monitor_leave_holds)+

section \<open>Signals\<close>

definition is_ready :: "thread_info \<Rightarrow> bool" where
  "is_ready ti = (case wakeup_info ti of None \<Rightarrow> False | Some w \<Rightarrow> wk_ready w)"

definition has_waiter :: "rr_wakeup_kind \<Rightarrow> nat \<Rightarrow> thread_info list \<Rightarrow> bool" where
  "has_waiter k m tis = list_ex (waits_on k m) tis"

definition has_ready :: "rr_wakeup_kind \<Rightarrow> nat \<Rightarrow> thread_info list \<Rightarrow> bool" where
  "has_ready k m tis = list_ex (\<lambda>ti. waits_on k m ti \<and> is_ready ti) tis"

text \<open>What monitors rely on in the scheduler: a signal on a monitor makes a waiter of it ready, and
  neither loses a waiter nor takes back what an earlier signal gave.\<close>

locale wakeup_signal =
  fixes signal :: "nat \<Rightarrow> 'q \<Rightarrow> 'q"
    and waiting :: "nat \<Rightarrow> 'q \<Rightarrow> bool"
    and ready :: "nat \<Rightarrow> 'q \<Rightarrow> bool"
  assumes signal_ready: "waiting m q \<Longrightarrow> ready m (signal m q)"
    and signal_waiting: "waiting k (signal m q) = waiting k q"
    and signal_keeps: "ready k q \<Longrightarrow> ready k (signal m q)"
begin

definition no_lost :: "(nat \<Rightarrow> bool) \<Rightarrow> 'q \<Rightarrow> bool" where
  "no_lost free q = (\<forall>m. free m \<and> waiting m q \<longrightarrow> ready m q)"

lemma signal_no_lost:
  assumes "no_lost free q" and "\<forall>k. k \<noteq> m \<longrightarrow> free' k \<longrightarrow> free k"
  shows "no_lost free' (signal m q)"
  unfolding no_lost_def
proof (intro allI impI, elim conjE)
  fix k assume "free' k" "waiting k (signal m q)"
  then show "ready k (signal m q)" using assms signal_ready signal_keeps signal_waiting
    by (cases "k = m") (auto simp: no_lost_def)
qed

end

lemma set_ready_waits [simp]: "waits_on k m (set_ready ti) = waits_on k m ti"
  by (cases "wakeup_info ti") (simp_all add: waits_on_def set_ready_def)

lemma set_ready_ready: "waits_on k m ti \<Longrightarrow> is_ready (set_ready ti)"
  by (cases "wakeup_info ti") (simp_all add: waits_on_def is_ready_def set_ready_def)

lemma set_ready_mono: "is_ready ti \<Longrightarrow> is_ready (set_ready ti)"
  by (cases "wakeup_info ti") (simp_all add: is_ready_def set_ready_def)

lemma ready_first_waiter: "has_waiter k m (ready_first k' m' tis) = has_waiter k m tis"
  by (induction tis) (auto simp: has_waiter_def)

lemma ready_first_keeps: "has_ready k m tis \<Longrightarrow> has_ready k m (ready_first k' m' tis)"
  by (induction tis) (auto simp: has_ready_def set_ready_mono)

lemma ready_first_ready: "has_waiter k m tis \<Longrightarrow> has_ready k m (ready_first k m tis)"
  by (induction tis) (auto simp: has_ready_def has_waiter_def set_ready_ready)

lemma notify_all_waiter: "has_waiter k m (monitor_notify_all m' tis) = has_waiter k m tis"
  by (induction tis) (auto simp: has_waiter_def monitor_notify_all_def)

lemma notify_all_keeps_ready: "has_ready k m tis \<Longrightarrow> has_ready k m (monitor_notify_all m' tis)"
  by (induction tis) (auto simp: has_ready_def monitor_notify_all_def set_ready_mono)

lemma notify_all_ready: "has_waiter RR_MONITOR_WAIT m tis \<Longrightarrow> has_ready RR_MONITOR_WAIT m (monitor_notify_all m tis)"
  by (induction tis) (auto simp: has_ready_def has_waiter_def monitor_notify_all_def set_ready_ready)

interpretation exit_signal: wakeup_signal monitor_exit_handler "has_waiter RR_MONITOR_ENTER_WAITING"
  "has_ready RR_MONITOR_ENTER_WAITING"
  unfolding monitor_exit_handler_def
  by unfold_locales (fact ready_first_ready ready_first_waiter ready_first_keeps)+

interpretation notify_signal: wakeup_signal monitor_notify_one "has_waiter RR_MONITOR_WAIT" "has_ready RR_MONITOR_WAIT"
  unfolding monitor_notify_one_def
  by unfold_locales (fact ready_first_ready ready_first_waiter ready_first_keeps)+

interpretation notify_all_signal: wakeup_signal monitor_notify_all "has_waiter RR_MONITOR_WAIT" "has_ready RR_MONITOR_WAIT"
  by unfold_locales (fact notify_all_ready notify_all_waiter notify_all_keeps_ready)+

section \<open>Interleavings\<close>

text \<open>The steps of the machine that touch monitors or wake-up conditions, between two yields of the
  interpreter. \<open>running\<close>: the thread has no wake-up condition, so it can be executing. The conditions
  \<open>r \<noteq> Acquire_failed\<close> are assertions of the code: a resumed acquisition finds the monitor data, and
  \<open>wait0\<close> is not owner of the monitor that it acquires again.\<close>

definition running :: "int \<Rightarrow> thread_info list \<Rightarrow> bool" where
  "running t tis = (t \<noteq> NOT_HELD_TID \<and> list_ex (\<lambda>ti. info_tid ti = t \<and> wakeup_info ti = None) tis)"

definition set_wakeup :: "int \<Rightarrow> rr_wakeup_info option \<Rightarrow> thread_info list \<Rightarrow> thread_info list" where
  "set_wakeup t w tis = update_info t (\<lambda>ti. ti\<lparr>wakeup_info := w\<rparr>) tis"

text \<open>How the scheduler records the outcome: a yield stores the wake-up information.\<close>

definition record_outcome :: "int \<Rightarrow> acquire_result \<Rightarrow> thread_info list \<Rightarrow> thread_info list" where
  "record_outcome t r tis =
     set_wakeup t (case r of Acquire_yield w \<Rightarrow> Some w | _ \<Rightarrow> None) tis"

inductive monitor_step :: "headers \<times> thread_info list \<Rightarrow> headers \<times> thread_info list \<Rightarrow> bool" where
  Enter: "running t tis \<Longrightarrow> monitor_acquire allocated t obj hs = (r, hs') \<Longrightarrow>
    monitor_step (hs, tis) (hs', record_outcome t r tis)"
| Enter_again: "ti \<in> set tis \<Longrightarrow> info_tid ti = t \<Longrightarrow> t \<noteq> NOT_HELD_TID \<Longrightarrow> wakeup_info ti = Some w \<Longrightarrow>
    waits_on RR_MONITOR_ENTER_WAITING obj ti \<Longrightarrow> \<not> is_sleeping p ti time \<Longrightarrow>
    acquire_loop t obj (wk_ready w) hs = (r, hs') \<Longrightarrow> r \<noteq> Acquire_failed \<Longrightarrow>
    monitor_step (hs, tis) (hs', record_outcome t r tis)"
| Reenter: "ti \<in> set tis \<Longrightarrow> info_tid ti = t \<Longrightarrow> t \<noteq> NOT_HELD_TID \<Longrightarrow>
    waits_on RR_MONITOR_WAIT obj ti \<Longrightarrow> \<not> is_sleeping p ti time \<Longrightarrow>
    monitor_reacquire_hold_count t obj n hs = (r, hs') \<Longrightarrow> r \<noteq> Acquire_failed \<Longrightarrow>
    monitor_step (hs, tis) (hs', record_outcome t r tis)"
| Reenter_again: "ti \<in> set tis \<Longrightarrow> info_tid ti = t \<Longrightarrow> t \<noteq> NOT_HELD_TID \<Longrightarrow> wakeup_info ti = Some w \<Longrightarrow>
    waits_on RR_MONITOR_ENTER_WAITING obj ti \<Longrightarrow> \<not> is_sleeping p ti time \<Longrightarrow>
    reacquire_loop t obj n (wk_ready w) hs = (r, hs') \<Longrightarrow> r \<noteq> Acquire_failed \<Longrightarrow>
    monitor_step (hs, tis) (hs', record_outcome t r tis)"
| Exit: "running t tis \<Longrightarrow> monitor_release t obj (hs, tis) = (b, s') \<Longrightarrow> monitor_step (hs, tis) s'"
| Wait: "running t tis \<Longrightarrow> wait0_start t obj ms now False (hs, tis) = (Inr (n, w), i, hs', tis') \<Longrightarrow>
    monitor_step (hs, tis) (hs', set_wakeup t (Some w) tis')"
| Notify: "running t tis \<Longrightarrow> object_notify t obj hs tis = Inr tis' \<Longrightarrow> monitor_step (hs, tis) (hs, tis')"
| Notify_all: "running t tis \<Longrightarrow> object_notify_all t obj hs tis = Inr tis' \<Longrightarrow> monitor_step (hs, tis) (hs, tis')"
| Suspend: "running t tis \<Longrightarrow> wk_kind w \<noteq> RR_MONITOR_ENTER_WAITING \<Longrightarrow>
    monitor_step (hs, tis) (hs, set_wakeup t (Some w) tis)"
| Resume: "ti \<in> set tis \<Longrightarrow> info_tid ti = t \<Longrightarrow> wakeup_info ti = Some w \<Longrightarrow>
    wk_kind w \<noteq> RR_MONITOR_ENTER_WAITING \<Longrightarrow> \<not> is_sleeping p ti time \<Longrightarrow>
    monitor_step (hs, tis) (hs, set_wakeup t None tis)"
| Start: "info_tid ti \<notin> info_tid ` set tis \<Longrightarrow> wakeup_info ti = None \<Longrightarrow> monitor_step (hs, tis) (hs, tis @ [ti])"
| Finish: "running t tis \<Longrightarrow> monitor_step (hs, tis) (hs, monitor_notify_all obj (remove_info t tis))"
| Schedule: "mset (map (\<lambda>ti. (info_tid ti, wakeup_info ti)) tis') = mset (map (\<lambda>ti. (info_tid ti, wakeup_info ti)) tis) \<Longrightarrow>
    monitor_step (hs, tis) (hs, tis')"

definition monitor_free :: "headers \<Rightarrow> nat \<Rightarrow> bool" where
  "monitor_free hs m = (case inspect_monitor (hs m) of None \<Rightarrow> True | Some d \<Rightarrow> owner d = NOT_HELD_TID)"

definition monitors_inv :: "headers \<times> thread_info list \<Rightarrow> bool" where
  "monitors_inv = (\<lambda>(hs, tis). distinct (map info_tid tis) \<and> exit_signal.no_lost (monitor_free hs) tis)"

lemma set_wakeup_here:
  assumes "distinct (map info_tid (xs @ ti # ys))"
  shows "set_wakeup (info_tid ti) w (xs @ ti # ys) = xs @ ti\<lparr>wakeup_info := w\<rparr> # ys"
  using assms update_info_absent [of "info_tid ti" xs] update_info_absent [of "info_tid ti" ys]
  by (auto simp: set_wakeup_def update_info_def)

lemma set_wakeup_tids [simp]: "map info_tid (set_wakeup t w tis) = map info_tid tis"
  by (auto simp: set_wakeup_def update_info_def)

lemma ready_first_tids [simp]: "map info_tid (ready_first k m tis) = map info_tid tis"
  by (induction tis) (auto simp: set_ready_def)

lemma set_wakeup_no_lost:
  assumes "exit_signal.no_lost free tis" and "distinct (map info_tid tis)"
    and "ti \<in> set tis" and "info_tid ti = t"
    and "\<And>k. free' k \<Longrightarrow> free k \<and> \<not> waits_on RR_MONITOR_ENTER_WAITING k ti \<and>
      \<not> waits_on RR_MONITOR_ENTER_WAITING k (ti\<lparr>wakeup_info := w\<rparr>)"
  shows "exit_signal.no_lost free' (set_wakeup t w tis)"
proof -
  obtain xs ys where tis: "tis = xs @ ti # ys" using assms(3) by (meson split_list)
  then have w: "set_wakeup t w tis = xs @ ti\<lparr>wakeup_info := w\<rparr> # ys"
    using set_wakeup_here [of xs ti ys w] assms(2,4) by simp
  show ?thesis unfolding exit_signal.no_lost_def w
  proof (intro allI impI, elim conjE)
    fix m assume m: "free' m" "has_waiter RR_MONITOR_ENTER_WAITING m (xs @ ti\<lparr>wakeup_info := w\<rparr> # ys)"
    then have "has_waiter RR_MONITOR_ENTER_WAITING m tis" using assms(5) [OF m(1)] tis by (auto simp: has_waiter_def)
    then have "has_ready RR_MONITOR_ENTER_WAITING m tis"
      using assms(1) assms(5) [OF m(1)] by (simp add: exit_signal.no_lost_def)
    then show "has_ready RR_MONITOR_ENTER_WAITING m (xs @ ti\<lparr>wakeup_info := w\<rparr> # ys)"
      using assms(5) [OF m(1)] tis by (auto simp: has_ready_def)
  qed
qed

lemma waits_on_simps [simp]:
  "wakeup_info ti = None \<Longrightarrow> \<not> waits_on k m ti"
  "waits_on k m (ti\<lparr>wakeup_info := Some w\<rparr>) \<longleftrightarrow> wk_kind w = k \<and> wk_monitor w = m"
  "\<not> waits_on k m (ti\<lparr>wakeup_info := None\<rparr>)"
  by (auto simp: waits_on_def)

text \<open>What any of the acquisitions does: nothing to other objects, and either it fails or the
  monitor is held afterwards, by this thread or by the one it waits for.\<close>

definition acquisition :: "int \<Rightarrow> nat \<Rightarrow> headers \<Rightarrow> acquire_result \<Rightarrow> headers \<Rightarrow> bool" where
  "acquisition t obj hs r hs' =
     ((\<forall>k. k \<noteq> obj \<longrightarrow> hs' k = hs k) \<and> (r = Acquire_failed \<longrightarrow> hs' = hs) \<and>
      (r \<noteq> Acquire_failed \<longrightarrow> \<not> monitor_free hs' obj) \<and>
      (\<forall>w. r = Acquire_yield w \<longrightarrow> wk_kind w = RR_MONITOR_ENTER_WAITING \<and> wk_monitor w = obj))"

lemma acquire_loop_acquisition:
  "acquire_loop t obj b hs = (r, hs') \<Longrightarrow> t \<noteq> NOT_HELD_TID \<Longrightarrow> acquisition t obj hs r hs'"
  by (auto simp: acquisition_def acquire_loop_def enter_wakeup_def monitor_free_def inspect_monitor_def
      split: header_word.splits if_splits)

lemma reacquire_loop_acquisition:
  "reacquire_loop t obj n b hs = (r, hs') \<Longrightarrow> t \<noteq> NOT_HELD_TID \<Longrightarrow> acquisition t obj hs r hs'"
  by (auto simp: acquisition_def reacquire_loop_def enter_wakeup_def monitor_free_def inspect_monitor_def
      split: header_word.splits if_splits)

lemma monitor_acquire_acquisition:
  assumes "monitor_acquire allocated t obj hs = (r, hs')" and "t \<noteq> NOT_HELD_TID"
  shows "acquisition t obj hs r hs'"
proof (cases "hs obj")
  case (Mark_word w)
  then show ?thesis using assms
    by (auto simp: acquire_defs header_defs acquisition_def monitor_free_def split: if_splits)
next
  case (Expanded_data d)
  then show ?thesis using assms acquire_loop_acquisition
    by (simp add: monitor_acquire_def install_monitor_def inspect_monitor_def)
qed

lemma acquisition_keeps:
  assumes "acquisition t obj hs r hs'" and "monitors_inv (hs, tis)" and "ti \<in> set tis" and "info_tid ti = t"
    and "\<And>k. k \<noteq> obj \<or> r = Acquire_failed \<Longrightarrow> \<not> waits_on RR_MONITOR_ENTER_WAITING k ti"
  shows "monitors_inv (hs', record_outcome t r tis)"
proof -
  have "exit_signal.no_lost (monitor_free hs') (record_outcome t r tis)"
    unfolding record_outcome_def
  proof (rule set_wakeup_no_lost [OF _ _ assms(3,4)])
    show "exit_signal.no_lost (monitor_free hs) tis" "distinct (map info_tid tis)"
      using assms(2) by (simp_all add: monitors_inv_def)
    fix k assume f: "monitor_free hs' k"
    then have k: "k \<noteq> obj \<or> r = Acquire_failed" using assms(1) by (auto simp: acquisition_def)
    then have "hs' k = hs k" using assms(1) by (auto simp: acquisition_def)
    then have "monitor_free hs k" using f by (simp add: monitor_free_def)
    then show "monitor_free hs k \<and> \<not> waits_on RR_MONITOR_ENTER_WAITING k ti \<and> \<not> waits_on RR_MONITOR_ENTER_WAITING k
      (ti\<lparr>wakeup_info := (case r of Acquire_yield w \<Rightarrow> Some w | _ \<Rightarrow> None)\<rparr>)"
      using k assms(1) assms(5) [OF k] by (cases r) (auto simp: acquisition_def)
  qed
  then show ?thesis using assms(2) by (simp add: monitors_inv_def record_outcome_def)
qed

lemma waits_on_unique: "waits_on k m ti \<Longrightarrow> k' \<noteq> k \<or> m' \<noteq> m \<Longrightarrow> \<not> waits_on k' m' ti"
  by (auto simp: waits_on_def split: option.splits)

lemma running_info:
  assumes "running t tis"
  obtains ti where "ti \<in> set tis" "info_tid ti = t" "wakeup_info ti = None" "t \<noteq> NOT_HELD_TID"
  using assms by (auto simp: running_def list_ex_iff)

lemma ready_first_running: "running t tis \<Longrightarrow> running t (ready_first k m tis)"
  by (induction tis) (auto simp: running_def set_ready_def)

lemma exit_keeps:
  assumes "monitors_inv (hs, tis)" and "\<And>k. k \<noteq> obj \<Longrightarrow> hs' k = hs k"
  shows "monitors_inv (hs', monitor_exit_handler obj tis)"
proof -
  have "monitor_free hs' k \<longrightarrow> monitor_free hs k" if "k \<noteq> obj" for k
    using assms(2) [OF that] by (simp add: monitor_free_def)
  then show ?thesis using assms(1) exit_signal.signal_no_lost
    by (auto simp: monitors_inv_def monitor_exit_handler_def)
qed

lemma monitor_release_keeps:
  assumes "monitors_inv (hs, tis)" and "monitor_release t obj (hs, tis) = (b, s')" and "t \<noteq> NOT_HELD_TID"
  shows "monitors_inv s'"
proof (cases "hs obj")
  case (Mark_word w)
  then show ?thesis using assms by (simp add: monitor_release_def header_defs)
next
  case (Expanded_data d)
  let ?d = "d\<lparr>hold_count := hold_count d - 1\<rparr>"
  have "monitor_free (hs(obj := Expanded_data ?d)) = monitor_free hs"
    using Expanded_data by (intro ext) (simp add: monitor_free_def header_defs)
  then have "monitors_inv (hs(obj := Expanded_data ?d), tis)" using assms(1) by (simp add: monitors_inv_def)
  moreover have "monitors_inv (hs(obj := e), monitor_exit_handler obj tis)" for e
    using exit_keeps [OF assms(1)] by simp
  ultimately show ?thesis using assms(1,2) Expanded_data
    by (auto simp: monitor_release_def header_defs Let_def split: if_splits)
qed

lemma suspend_keeps:
  assumes "monitors_inv (hs, tis)" and "ti \<in> set tis" and "info_tid ti = t"
    and "\<And>k. \<not> waits_on RR_MONITOR_ENTER_WAITING k ti"
    and "\<And>w'. w = Some w' \<Longrightarrow> wk_kind w' \<noteq> RR_MONITOR_ENTER_WAITING"
  shows "monitors_inv (hs, set_wakeup t w tis)"
proof -
  have "exit_signal.no_lost (monitor_free hs) (set_wakeup t w tis)"
    by (rule set_wakeup_no_lost [of "monitor_free hs", OF _ _ assms(2,3)])
      (use assms(1,4,5) in \<open>auto simp: monitors_inv_def waits_on_def split: option.splits\<close>)
  then show ?thesis using assms(1) by (simp add: monitors_inv_def)
qed

lemma wait_keeps:
  assumes "monitors_inv (hs, tis)" and "running t tis"
    and "wait0_start t obj ms now False (hs, tis) = (Inr (n, w), i, hs', tis')"
  shows "monitors_inv (hs', set_wakeup t (Some w) tis')"
proof -
  obtain d where d: "hs obj = Expanded_data d" and n: "n = hold_count d" "n \<noteq> 0" "owner d = t"
    and s': "hs' = hs(obj := Expanded_data (d\<lparr>hold_count := 0, owner := NOT_HELD_TID\<rparr>))"
      "tis' = monitor_exit_handler obj tis" and w: "wk_kind w = RR_MONITOR_WAIT"
    using assms(3)
    by (auto simp: wait0_start_def monitor_release_all_hold_count_def header_defs
        split: header_word.splits if_splits)
  have inv: "monitors_inv (hs', tis')" using exit_keeps [OF assms(1)] s' by simp
  obtain ti where ti: "ti \<in> set tis'" "info_tid ti = t" "wakeup_info ti = None"
    using ready_first_running [OF assms(2)] unfolding s'(2) monitor_exit_handler_def by (rule running_info)
  show ?thesis by (rule suspend_keeps [OF inv ti(1,2)]) (use ti(3) w in auto)
qed

text \<open>Steps that leave the set of waiters alone and take no readiness away.\<close>

lemma no_lost_mono:
  assumes "exit_signal.no_lost free tis"
    and "\<And>m. has_waiter RR_MONITOR_ENTER_WAITING m tis' \<Longrightarrow> has_waiter RR_MONITOR_ENTER_WAITING m tis"
    and "\<And>m. has_ready RR_MONITOR_ENTER_WAITING m tis \<Longrightarrow> has_ready RR_MONITOR_ENTER_WAITING m tis'"
  shows "exit_signal.no_lost free tis'"
  using assms by (auto simp: exit_signal.no_lost_def)

lemma remove_running:
  assumes "distinct (map info_tid tis)" and "running t tis"
  shows "has_waiter k m (remove_info t tis) = has_waiter k m tis"
    "has_ready k m (remove_info t tis) = has_ready k m tis"
    "distinct (map info_tid (remove_info t tis))"
proof -
  obtain ti where ti: "ti \<in> set tis" "info_tid ti = t" "wakeup_info ti = None"
    using assms(2) by (rule running_info)
  then obtain xs ys where tis: "tis = xs @ ti # ys" by (meson split_list)
  then have r: "remove_info t tis = xs @ ys" using remove_info_here [of t xs ti ys] assms(1) ti(2) by auto
  show "has_waiter k m (remove_info t tis) = has_waiter k m tis"
    "has_ready k m (remove_info t tis) = has_ready k m tis"
    "distinct (map info_tid (remove_info t tis))"
    using r tis ti(3) assms(1) by (auto simp: has_waiter_def has_ready_def)
qed

lemma schedule_view:
  assumes "mset (map (\<lambda>ti. (info_tid ti, wakeup_info ti)) tis') = mset (map (\<lambda>ti. (info_tid ti, wakeup_info ti)) tis)"
  shows "has_waiter k m tis' = has_waiter k m tis" "has_ready k m tis' = has_ready k m tis"
    "mset (map info_tid tis') = mset (map info_tid tis)"
proof -
  let ?v = "\<lambda>ti. (info_tid ti, wakeup_info ti)"
  let ?P = "\<lambda>w. case w of None \<Rightarrow> False | Some w \<Rightarrow> wk_kind w = k \<and> wk_monitor w = m"
  let ?Q = "\<lambda>w. case w of None \<Rightarrow> False | Some w \<Rightarrow> wk_ready w"
  have set: "?v ` set tis' = ?v ` set tis" using mset_eq_setD [OF assms] by simp
  have "has_waiter k m ts = (\<exists>x \<in> ?v ` set ts. ?P (snd x))"
    "has_ready k m ts = (\<exists>x \<in> ?v ` set ts. ?P (snd x) \<and> ?Q (snd x))" for ts
    by (simp_all add: has_waiter_def has_ready_def list_ex_iff waits_on_def is_ready_def)
  then show "has_waiter k m tis' = has_waiter k m tis" "has_ready k m tis' = has_ready k m tis"
    by (simp_all only: set)
  have "mset (map fst (map ?v tis')) = mset (map fst (map ?v tis))" using assms by (simp only: mset_map)
  then show "mset (map info_tid tis') = mset (map info_tid tis)" by (simp add: comp_def)
qed

lemma monitor_step_keeps:
  assumes "monitor_step s s'" and "monitors_inv s"
  shows "monitors_inv s'"
  using assms
proof (induction rule: monitor_step.induct)
  case (Enter t tis allocated obj hs r hs')
  then obtain ti where "ti \<in> set tis" "info_tid ti = t" "wakeup_info ti = None" "t \<noteq> NOT_HELD_TID"
    using running_info by blast
  then show ?case using acquisition_keeps [OF monitor_acquire_acquisition] Enter by simp
next
  case (Enter_again ti tis t w obj p time hs r hs')
  then show ?case using waits_on_unique [OF Enter_again(5)]
    by (intro acquisition_keeps [OF acquire_loop_acquisition [OF Enter_again(7,3)] _ Enter_again(1,2)]) auto
next
  case (Reenter ti tis t obj p time n hs r hs')
  then show ?case using waits_on_unique [OF Reenter(4)] unfolding monitor_reacquire_hold_count_def
    by (intro acquisition_keeps [OF reacquire_loop_acquisition Reenter.prems Reenter(1,2)]) auto
next
  case (Reenter_again ti tis t w obj p time n hs r hs')
  then show ?case using waits_on_unique [OF Reenter_again(5)]
    by (intro acquisition_keeps [OF reacquire_loop_acquisition [OF Reenter_again(7,3)] _ Reenter_again(1,2)]) auto
next
  case (Exit t tis obj hs b s')
  then show ?case using monitor_release_keeps by (metis running_info)
next
  case (Wait t tis obj ms now hs n w i hs' tis')
  then show ?case using wait_keeps by blast
next
  case (Notify t tis obj hs tis')
  then have "tis' = ready_first RR_MONITOR_WAIT obj tis"
    by (simp add: object_notify_def monitor_notify_one_def split: if_splits)
  then show ?case using Notify.prems no_lost_mono [of "monitor_free hs" tis tis'] ready_first_waiter ready_first_keeps
    by (auto simp: monitors_inv_def)
next
  case (Notify_all t tis obj hs tis')
  then have "tis' = monitor_notify_all obj tis"
    by (simp add: object_notify_all_def split: if_splits)
  then show ?case using Notify_all.prems no_lost_mono [of "monitor_free hs" tis tis'] notify_all_waiter
      notify_all_keeps_ready by (auto simp: monitors_inv_def)
next
  case (Suspend t tis w hs)
  then obtain ti where "ti \<in> set tis" "info_tid ti = t" "wakeup_info ti = None"
    using running_info by blast
  with Suspend show ?case by (intro suspend_keeps [of hs tis ti]) simp_all
next
  case (Resume ti tis t w p time hs)
  then show ?case by (intro suspend_keeps [OF Resume.prems Resume(1,2)]) (simp_all add: waits_on_def)
next
  case (Start ti tis hs)
  then have "exit_signal.no_lost (monitor_free hs) (tis @ [ti])"
    using no_lost_mono [of "monitor_free hs" tis "tis @ [ti]"]
    by (auto simp: monitors_inv_def has_waiter_def has_ready_def)
  then show ?case using Start by (auto simp: monitors_inv_def)
next
  case (Finish t tis hs obj)
  then have d: "distinct (map info_tid tis)" by (simp add: monitors_inv_def)
  then show ?case
    using Finish.prems remove_running [OF d Finish(1)] notify_all_waiter notify_all_keeps_ready
      no_lost_mono [of "monitor_free hs" tis "monitor_notify_all obj (remove_info t tis)"]
    by (simp add: monitors_inv_def)
next
  case (Schedule tis' tis hs)
  then show ?case
    using schedule_view [OF Schedule(1)] mset_eq_imp_distinct_iff [of "map info_tid tis'" "map info_tid tis"]
      no_lost_mono [of "monitor_free hs" tis tis'] by (simp add: monitors_inv_def)
qed

lemma reachable_inv:
  assumes "monitor_step\<^sup>*\<^sup>* s s'" and "monitors_inv s"
  shows "monitors_inv s'"
  using assms by (induction rule: rtranclp_induct) (auto intro: monitor_step_keeps)

lemma ready_is_awake: "waits_on RR_MONITOR_ENTER_WAITING m ti \<Longrightarrow> is_ready ti \<Longrightarrow> \<not> is_sleeping p ti time"
  by (cases "wakeup_info ti") (simp_all add: waits_on_def is_ready_def is_sleeping_def)

lemma initial_inv:
  assumes "distinct (map info_tid tis)" and "list_all (\<lambda>ti. wakeup_info ti = None) tis"
  shows "monitors_inv (hs, tis)"
  using assms by (auto simp: monitors_inv_def exit_signal.no_lost_def has_waiter_def list_all_iff list_ex_iff)

section \<open>Properties\<close>





text \<open>C31: \<open>Object.wait\<close> releases the monitor completely, whatever its hold count, and restores that hold
  count: while the thread waits it holds nothing and the monitor is free, and when it is resumed in
  a state where the monitor is free it becomes the owner again with the hold count of before. A
  thread that is interrupted or does not own the monitor gets the exception and releases nothing.\<close>

theorem wait_restores_hold_count:
  assumes "wait0_start t obj ms now interrupt (hs, tis) = (r, interrupt', hs1, tis1)" and "t \<noteq> NOT_HELD_TID"
    and "monitor_free hs2 obj" and "has_expanded_data (hs2 obj)"
  shows "case r of
      Inr (n, w) \<Rightarrow> n = current_thread_hold_count t obj hs \<and> 0 < n \<and> monitor_free hs1 obj \<and>
        current_thread_hold_count t obj hs1 = 0 \<and>
        (case monitor_reacquire_hold_count t obj n hs2 of (r2, hs3) \<Rightarrow>
           r2 = Acquired \<and> current_thread_hold_count t obj hs3 = n)
    | Inl e \<Rightarrow> hs1 = hs \<and> tis1 = tis \<and> \<not> interrupt' \<and>
        e = (if interrupt then InterruptedException else IllegalMonitorStateException) \<and>
        (interrupt \<or> current_thread_hold_count t obj hs = 0)"
proof (cases "interrupt")
  case True
  then show ?thesis using assms(1) by (auto simp: wait0_start_def)
next
  case False
  obtain d2 where d2: "hs2 obj = Expanded_data d2" "owner d2 = NOT_HELD_TID"
    using assms(3,4) by (cases "hs2 obj") (auto simp: monitor_free_def header_defs)
  show ?thesis
  proof (cases "hs obj")
    case (Mark_word w)
    then show ?thesis using assms(1) False
      by (auto simp: wait0_start_def monitor_release_all_hold_count_def header_defs current_thread_hold_count_def)
  next
    case (Expanded_data d)
    then show ?thesis using assms(1,2) False d2
      by (auto simp: wait0_start_def monitor_release_all_hold_count_def header_defs word_gt_0
          current_thread_hold_count_def monitor_free_def monitor_reacquire_hold_count_def reacquire_loop_def
          split: if_splits)
  qed
qed

theorem wait_restores_hold_count_witness:
  "case monitor_reacquire_hold_count 1 5 3 (\<lambda>_. Expanded_data \<lparr>owner = - 1, hold_count = 0, md_mark_word = (1, 0)\<rparr>) of
     (r2, hs3) \<Rightarrow> r2 = Acquired \<and> current_thread_hold_count 1 5 hs3 = 3"
proof -
  let ?h = "\<lambda>_ :: nat. Expanded_data \<lparr>owner = 1, hold_count = 3, md_mark_word = (1, 0)\<rparr>"
  let ?h2 = "\<lambda>_ :: nat. Expanded_data \<lparr>owner = - 1, hold_count = 0, md_mark_word = (1, 0)\<rparr>"
  have "wait0_start 1 5 0 0 False (?h, []) =
    (Inr (3, \<lparr>wk_kind = RR_MONITOR_WAIT, wakeup_us = 0, wk_monitor = 5, wk_ready = False\<rparr>), False,
     ?h(5 := Expanded_data \<lparr>owner = - 1, hold_count = 0, md_mark_word = (1, 0)\<rparr>), [])"
    by (simp add: wait0_start_def monitor_release_all_hold_count_def header_defs wait_deadline_def
        monitor_exit_handler_def NOT_HELD_TID_def)
  from wait_restores_hold_count [OF this, of ?h2] show ?thesis
    by (simp add: NOT_HELD_TID_def monitor_free_def header_defs)
qed

text \<open>The deadline of a timed wait is exact while the arithmetic does not wrap around; the longest
  timeout that Java allows does wrap, to an instant in the past, so the wait ends at once.\<close>

lemma wait_deadline_exact:
  assumes "0 < unat ms" and "unat now + unat ms * 1000 < 2 ^ 64"
  shows "unat (wait_deadline ms now) = unat now + unat ms * 1000"
proof -
  have "ms \<noteq> 0" using assms(1) by auto
  moreover have "unat (ms * 1000) = unat ms * 1000" using assms(2) by (simp add: unat_word_ariths)
  ultimately show ?thesis using assms(2) by (simp add: wait_deadline_def unat_word_ariths)
qed

lemma wait_deadline_longest: "wait_deadline 9223372036854775807 now = now - 1000"
  by (simp add: wait_deadline_def)

end
