(* ===== verification/Collector.thy ===== *)
theory Collector
  imports Linkage Pointer_Sort Monitors
begin

unbundle bit_operations_syntax

text \<open>
  Model of the collector, \<open>vm/gc.c\<close>, and of \<open>bump_allocate\<close> (\<open>vm/bjvm.c\<close>): mark from the roots,
  sort the live cells by address, slide them down, and rewrite every pointer. The memory is a map from
  addresses to cells, an object or a monitor; addresses are natural numbers, as the heap lies below the end
  of the address space. A cell covers the bytes of its size, and a \<open>memmove\<close> destroys every cell it
  overlaps. Variables outside the heap that hold references, the roots, are a store from locations to
  addresses. \<open>None\<close> is an access to memory that holds no cell of the expected kind, a failed
  \<open>DCHECK\<close>, or \<open>abort\<close>. As in a build without \<open>DCHECKS_ENABLED\<close>, objects are moved within one heap.
\<close>

section \<open>State\<close>

type_synonym addr = nat

datatype obj_word = Mark_data mark_word_t | Expanded_ptr addr

text \<open>The word at index \<open>i\<close> is \<open>*((object * )obj + i)\<close> for an instance and the element \<open>i\<close> of an array of
  references.\<close>

record obj_header =
  oh_header :: obj_word
  oh_class :: class_id
  oh_length :: nat
  oh_words :: "nat \<Rightarrow> addr"

datatype cell = Object_cell obj_header | Monitor_cell monitor_data

type_synonym memory = "addr \<rightharpoonup> cell"

text \<open>What a collection does not change: the classes, the size of a pointer, the class \<open>Reference\<close>, the
  bounds of the heap and the location of \<open>reference_pending_list\<close>.\<close>

record gc_ctx =
  gx_classes :: class_table
  gx_ptr :: nat
  gx_Reference :: class_id
  gx_heap :: addr
  gx_capacity :: nat
  gx_pending :: nat

record gc_vm =
  gv_mem :: memory
  gv_vars :: "nat \<Rightarrow> addr"
  gv_used :: nat

definition IS_REACHABLE :: u32 where "IS_REACHABLE = 2"

definition in_heap :: "gc_ctx \<Rightarrow> addr \<Rightarrow> bool" where
  "in_heap g field = (gx_heap g \<le> field \<and> field < gx_heap g + gx_capacity g)"

definition align_addr :: "nat \<Rightarrow> nat" where
  "align_addr n = (n + 7) div 8 * 8"

definition class_of :: "gc_ctx \<Rightarrow> obj_header \<Rightarrow> rt_class" where
  "class_of g ob = gx_classes g (oh_class ob)"

section \<open>Sizes\<close>

definition kArrayDataOffset :: "nat \<Rightarrow> nat" where
  "kArrayDataOffset p = (unat (obj_header_size p) + 4 + 15) div 16 * 16"

text \<open>The size of an array of references is computed in \<open>size_t\<close>; that of an array of primitives in \<open>int\<close>, as
  \<open>sizeof_type_kind\<close> returns an \<open>int\<close>, and then converted to \<open>size_t\<close>. Both wrap around.\<close>

definition reference_array_bytes :: "nat \<Rightarrow> nat \<Rightarrow> nat" where
  "reference_array_bytes p len = (kArrayDataOffset p + len * p) mod 2 ^ (8 * p)"

definition primitive_array_bytes :: "nat \<Rightarrow> nat \<Rightarrow> nat \<Rightarrow> nat" where
  "primitive_array_bytes p len sz =
     nat (signed_take_bit 31 (int (kArrayDataOffset p) + int len * int sz) mod 2 ^ (8 * p))"

definition size_of_object :: "gc_ctx \<Rightarrow> obj_header \<Rightarrow> nat option" where
  "size_of_object g ob =
     (if rc_kind (class_of g ob) = CD_KIND_ORDINARY then Some (unat (rc_instance_bytes (class_of g ob)))
      else if rc_kind (class_of g ob) = CD_KIND_ORDINARY_ARRAY
      then Some (reference_array_bytes (gx_ptr g) (oh_length ob))
      else map_option (primitive_array_bytes (gx_ptr g) (oh_length ob))
             (sizeof_type_kind (gx_ptr g) (rc_primitive_component (class_of g ob))))"

definition sizeof_monitor_data :: nat where "sizeof_monitor_data = 16"

text \<open>The bytes that a cell covers and that the collector copies.\<close>

definition cell_size :: "gc_ctx \<Rightarrow> cell \<Rightarrow> nat option" where
  "cell_size g c =
     map_option align_addr
       (case c of Object_cell ob \<Rightarrow> size_of_object g ob | Monitor_cell _ \<Rightarrow> Some sizeof_monitor_data)"

section \<open>Flags\<close>

definition read_object :: "memory \<Rightarrow> addr \<Rightarrow> obj_header option" where
  "read_object m a = (case m a of Some (Object_cell ob) \<Rightarrow> Some ob | _ \<Rightarrow> None)"

definition get_flags :: "memory \<Rightarrow> addr \<Rightarrow> u32 option" where
  "get_flags m a =
     (case read_object m a of
        None \<Rightarrow> None
      | Some ob \<Rightarrow>
          (case oh_header ob of
             Mark_data w \<Rightarrow> Some (fst w)
           | Expanded_ptr e \<Rightarrow>
               (case m e of Some (Monitor_cell d) \<Rightarrow> Some (fst (md_mark_word d)) | _ \<Rightarrow> None)))"

text \<open>An assignment to \<open>*get_flags(vm, obj)\<close>.\<close>

definition update_flags :: "(u32 \<Rightarrow> u32) \<Rightarrow> memory \<Rightarrow> addr \<Rightarrow> memory option" where
  "update_flags f m a =
     (case read_object m a of
        None \<Rightarrow> None
      | Some ob \<Rightarrow>
          (case oh_header ob of
             Mark_data w \<Rightarrow> Some (m(a \<mapsto> Object_cell (ob\<lparr>oh_header := Mark_data (f (fst w), snd w)\<rparr>)))
           | Expanded_ptr e \<Rightarrow>
               (case m e of
                  Some (Monitor_cell d) \<Rightarrow>
                    Some (m(e \<mapsto> Monitor_cell (d\<lparr>md_mark_word := (f (fst (md_mark_word d)), snd (md_mark_word d))\<rparr>)))
                | _ \<Rightarrow> None)))"

section \<open>Marking\<close>

definition is_reference :: "gc_ctx \<Rightarrow> obj_header \<Rightarrow> bool" where
  "is_reference g ob = instanceof (gx_classes g) (oh_class ob) (gx_Reference g)"

text \<open>The slots that marking and relocation visit: the referent of a \<open>Reference\<close> is skipped.\<close>

definition traced_slots :: "gc_ctx \<Rightarrow> obj_header \<Rightarrow> nat list" where
  "traced_slots g ob =
     (let desc = class_of g ob in
      if rc_kind desc = CD_KIND_ORDINARY
      then map unat (drop (if is_reference g ob then 1 else 0) (rc_instance_references desc))
      else if rc_kind desc = CD_KIND_ORDINARY_ARRAY \<or> (rc_kind desc = CD_KIND_PRIMITIVE_ARRAY \<and> rc_dimensions desc > 1)
      then [0..<oh_length ob]
      else [])"

text \<open>The body of the loop over fields. The top of the worklist is its head.\<close>

definition visit_field :: "gc_ctx \<Rightarrow> addr \<Rightarrow> memory \<times> addr list \<Rightarrow> (memory \<times> addr list) option" where
  "visit_field g v = (\<lambda>(m, worklist).
     if v \<noteq> 0 \<and> in_heap g v
     then case get_flags m v of
            None \<Rightarrow> None
          | Some flags \<Rightarrow>
              if flags AND IS_REACHABLE \<noteq> 0 then Some (m, worklist)
              else map_option (\<lambda>m. (m, v # worklist)) (update_flags (\<lambda>f. f OR IS_REACHABLE) m v)
     else Some (m, worklist))"

fun visit_fields :: "gc_ctx \<Rightarrow> addr list \<Rightarrow> memory \<times> addr list \<Rightarrow> (memory \<times> addr list) option" where
  "visit_fields g [] st = Some st"
| "visit_fields g (v # vs) st = (case visit_field g v st of None \<Rightarrow> None | Some st \<Rightarrow> visit_fields g vs st)"

text \<open>The entries that \<open>mark_reachable\<close> adds to \<open>objs\<close>: the object, and its monitor with the lowest bit set.\<close>

definition gc_entries :: "addr \<Rightarrow> obj_header \<Rightarrow> addr list" where
  "gc_entries a ob = a # (case oh_header ob of Mark_data _ \<Rightarrow> [] | Expanded_ptr e \<Rightarrow> [e OR 1])"

definition mark_reachable ::
    "gc_ctx \<Rightarrow> addr \<Rightarrow> memory \<times> addr list \<times> addr list \<Rightarrow> (memory \<times> addr list \<times> addr list) option" where
  "mark_reachable g obj = (\<lambda>(m, objs, worklist).
     case read_object m obj of
       None \<Rightarrow> None
     | Some ob \<Rightarrow>
         map_option (\<lambda>(m, worklist). (m, objs @ gc_entries obj ob, worklist))
           (visit_fields g (map (oh_words ob) (traced_slots g ob)) (m, worklist)))"

text \<open>The two loops of the mark phase.\<close>

fun mark_roots :: "gc_ctx \<Rightarrow> addr list \<Rightarrow> memory \<times> addr list \<Rightarrow> (memory \<times> addr list) option" where
  "mark_roots g [] st = Some st"
| "mark_roots g (root # roots) (m, worklist) =
     (if \<not> in_heap g root then mark_roots g roots (m, worklist)
      else case get_flags m root of
             None \<Rightarrow> None
           | Some flags \<Rightarrow>
               if flags AND IS_REACHABLE \<noteq> 0 then mark_roots g roots (m, worklist)
               else (case update_flags (\<lambda>f. f OR IS_REACHABLE) m root of
                       None \<Rightarrow> None
                     | Some m \<Rightarrow> mark_roots g roots (m, root # worklist)))"

partial_function (option) mark_loop ::
    "gc_ctx \<Rightarrow> memory \<Rightarrow> addr list \<Rightarrow> addr list \<Rightarrow> (memory \<times> addr list) option" where
  "mark_loop g m objs worklist =
     (if worklist = [] then Some (m, objs)
      else Option.bind (update_flags (\<lambda>f. f OR IS_REACHABLE) m (hd worklist))
             (\<lambda>m. Option.bind (mark_reachable g (hd worklist) (m, objs, tl worklist))
               (\<lambda>st. mark_loop g (fst st) (fst (snd st)) (snd (snd st)))))"

section \<open>Compaction\<close>

definition overlaps :: "gc_ctx \<Rightarrow> addr \<Rightarrow> cell \<Rightarrow> addr \<Rightarrow> nat \<Rightarrow> bool" where
  "overlaps g a c dst sz = (dst < a + the (cell_size g c) \<and> a < dst + sz)"

definition move_cell :: "gc_ctx \<Rightarrow> memory \<Rightarrow> addr \<Rightarrow> cell \<Rightarrow> nat \<Rightarrow> memory" where
  "move_cell g m dst c sz =
     (\<lambda>x. case m x of None \<Rightarrow> None | Some c' \<Rightarrow> if overlaps g x c' dst sz then None else Some c')(dst \<mapsto> c)"

text \<open>The entry \<open>a\<close> of \<open>objs\<close> is the address of an object, or that of a monitor plus one.\<close>

definition copy_one :: "gc_ctx \<Rightarrow> addr \<Rightarrow> addr \<Rightarrow> memory \<Rightarrow> (addr \<times> addr \<times> memory) option" where
  "copy_one g a write_ptr m =
     (let write_ptr = align_addr write_ptr; is_monitor = odd a; obj = a - a mod 2 in
      if a < write_ptr then None
      else case m obj of
        None \<Rightarrow> None
      | Some c \<Rightarrow>
          if is_monitor \<noteq> (case c of Monitor_cell _ \<Rightarrow> True | Object_cell _ \<Rightarrow> False) then None
          else (case cell_size g c of
             None \<Rightarrow> None
           | Some sz \<Rightarrow>
               if gx_heap g + gx_capacity g < write_ptr + sz then None
               else (case (if is_monitor then Some m else update_flags (\<lambda>f. f AND NOT IS_REACHABLE) m obj) of
                  None \<Rightarrow> None
                | Some m \<Rightarrow>
                    (case m obj of
                       None \<Rightarrow> None
                     | Some c \<Rightarrow> Some (write_ptr, write_ptr + sz, move_cell g m write_ptr c sz)))))"

fun copy_loop :: "gc_ctx \<Rightarrow> addr list \<Rightarrow> addr \<Rightarrow> memory \<Rightarrow> (addr list \<times> addr \<times> memory) option" where
  "copy_loop g [] write_ptr m = Some ([], write_ptr, m)"
| "copy_loop g (a # objs) write_ptr m =
     (case copy_one g a write_ptr m of
        None \<Rightarrow> None
      | Some (loc, write_ptr, m) \<Rightarrow>
          map_option (\<lambda>(locs, write_ptr, m). (loc # locs, write_ptr, m)) (copy_loop g objs write_ptr m))"

section \<open>Relocation\<close>

definition relocate_object :: "addr list \<Rightarrow> addr list \<Rightarrow> addr \<Rightarrow> (bool \<times> addr) option" where
  "relocate_object objs new_location v =
     (if v = 0 then Some (True, v)
      else case binary_search_for_pointer v objs of
             None \<Rightarrow> None
           | Some (Some i) \<Rightarrow> Some (True, new_location ! i)
           | Some None \<Rightarrow> Some (False, v))"

fun relocate_slots :: "addr list \<Rightarrow> addr list \<Rightarrow> nat list \<Rightarrow> (nat \<Rightarrow> addr) \<Rightarrow> (nat \<Rightarrow> addr) option" where
  "relocate_slots objs new_location [] vars = Some vars"
| "relocate_slots objs new_location (s # ss) vars =
     (case relocate_object objs new_location (vars s) of
        None \<Rightarrow> None
      | Some (_, v) \<Rightarrow> relocate_slots objs new_location ss (vars(s := v)))"

text \<open>The slots of \<open>referent\<close> and \<open>discovered\<close> in \<open>struct native_Reference\<close>.\<close>

definition native_referent :: "nat \<Rightarrow> nat" where "native_referent p = (if p = 4 then 3 else 2)"
definition native_discovered :: "nat \<Rightarrow> nat" where "native_discovered p = native_referent p + 3"

definition relocate_header :: "addr list \<Rightarrow> addr list \<Rightarrow> obj_word \<Rightarrow> obj_word option" where
  "relocate_header objs new_location h =
     (case h of
        Mark_data w \<Rightarrow> Some (Mark_data w)
      | Expanded_ptr e \<Rightarrow>
          (case binary_search_for_pointer (e OR 1) objs of
             Some (Some i) \<Rightarrow> Some (Expanded_ptr (new_location ! i))
           | _ \<Rightarrow> None))"

text \<open>The referent of the \<open>Reference\<close> at \<open>self\<close>, and the pending list.\<close>

definition relocate_referent ::
    "gc_ctx \<Rightarrow> addr list \<Rightarrow> addr list \<Rightarrow> addr \<Rightarrow> obj_header \<Rightarrow> addr \<Rightarrow> (obj_header \<times> addr) option" where
  "relocate_referent g objs new_location self ob pending =
     (case rc_instance_references (class_of g ob) of
        [] \<Rightarrow> None
      | slot # _ \<Rightarrow>
          (case relocate_object objs new_location (oh_words ob (unat slot)) of
             None \<Rightarrow> None
           | Some (True, v) \<Rightarrow> Some (ob\<lparr>oh_words := (oh_words ob)(unat slot := v)\<rparr>, pending)
           | Some (False, _) \<Rightarrow>
               let ws = (oh_words ob)(native_referent (gx_ptr g) := 0) in
               if ws (native_discovered (gx_ptr g)) = 0
               then Some (ob\<lparr>oh_words := ws(native_discovered (gx_ptr g) := pending)\<rparr>, self)
               else Some (ob\<lparr>oh_words := ws\<rparr>, pending)))"

definition relocate_fields ::
    "gc_ctx \<Rightarrow> addr list \<Rightarrow> addr list \<Rightarrow> addr \<Rightarrow> obj_header \<Rightarrow> addr \<Rightarrow> (obj_header \<times> addr) option" where
  "relocate_fields g objs new_location self ob pending =
     (case relocate_header objs new_location (oh_header ob) of
        None \<Rightarrow> None
      | Some h \<Rightarrow>
          (case relocate_slots objs new_location (traced_slots g ob) (oh_words ob) of
             None \<Rightarrow> None
           | Some ws \<Rightarrow>
               let ob = ob\<lparr>oh_header := h, oh_words := ws\<rparr> in
               if rc_kind (class_of g ob) = CD_KIND_ORDINARY \<and> is_reference g ob
               then relocate_referent g objs new_location self ob pending
               else Some (ob, pending)))"

text \<open>The loop over \<open>objs\<close> and \<open>new_location\<close>: the arguments \<open>todo\<close> are the pairs not yet visited.\<close>

fun relocate_instance_fields ::
    "gc_ctx \<Rightarrow> addr list \<Rightarrow> addr list \<Rightarrow> (addr \<times> addr) list \<Rightarrow> memory \<times> addr \<Rightarrow> (memory \<times> addr) option" where
  "relocate_instance_fields g objs new_location [] st = Some st"
| "relocate_instance_fields g objs new_location ((a, loc) # todo) (m, pending) =
     (if odd a then relocate_instance_fields g objs new_location todo (m, pending)
      else case read_object m loc of
             None \<Rightarrow> None
           | Some ob \<Rightarrow>
               (case relocate_fields g objs new_location loc ob pending of
                  None \<Rightarrow> None
                | Some (ob, pending) \<Rightarrow>
                    relocate_instance_fields g objs new_location todo (m(loc \<mapsto> Object_cell ob), pending)))"

section \<open>A collection\<close>

text \<open>\<open>PUSH_ROOT\<close> for each location that the enumeration visits. After a collection the memory past
  \<open>heap_used\<close> is free, whatever it held.\<close>

definition push_roots :: "gc_ctx \<Rightarrow> (nat \<Rightarrow> addr) \<Rightarrow> nat list \<Rightarrow> nat list" where
  "push_roots g vars locs = filter (\<lambda>l. vars l \<noteq> 0 \<and> in_heap g (vars l)) locs"

definition major_gc :: "gc_ctx \<Rightarrow> nat list \<Rightarrow> gc_vm \<Rightarrow> gc_vm option" where
  "major_gc g locations vm =
     (let roots = push_roots g (gv_vars vm) locations in
      case mark_roots g (map (gv_vars vm) roots) (gv_mem vm, []) of
        None \<Rightarrow> None
      | Some (m, worklist) \<Rightarrow>
          (case mark_loop g m [] worklist of
             None \<Rightarrow> None
           | Some (m, objs) \<Rightarrow>
               (case quicksort_pointers objs of
                  None \<Rightarrow> None
                | Some objs \<Rightarrow>
                    (case copy_loop g objs (gx_heap g) m of
                       None \<Rightarrow> None
                     | Some (new_location, write_ptr, m) \<Rightarrow>
                         (case relocate_slots objs new_location roots (gv_vars vm) of
                            None \<Rightarrow> None
                          | Some vars \<Rightarrow>
                              (case relocate_instance_fields g objs new_location (zip objs new_location)
                                      (m, vars (gx_pending g)) of
                                 None \<Rightarrow> None
                               | Some (m, pending) \<Rightarrow>
                                   let used = align_addr (write_ptr - gx_heap g) in
                                   Some \<lparr>gv_mem = m |` {..<gx_heap g + used}, gv_vars = vars(gx_pending g := pending),
                                         gv_used = used\<rparr>))))))"

section \<open>Well-formed heaps\<close>

text \<open>The cells of a heap without the marks: clear \<open>IS_REACHABLE\<close> everywhere.\<close>

definition unmark_word :: "mark_word_t \<Rightarrow> mark_word_t" where
  "unmark_word w = (fst w AND NOT IS_REACHABLE, snd w)"

definition unmark_object :: "obj_header \<Rightarrow> obj_header" where
  "unmark_object ob =
     ob\<lparr>oh_header := (case oh_header ob of Mark_data w \<Rightarrow> Mark_data (unmark_word w) | Expanded_ptr e \<Rightarrow> Expanded_ptr e)\<rparr>"

definition unmark_monitor :: "monitor_data \<Rightarrow> monitor_data" where
  "unmark_monitor d = d\<lparr>md_mark_word := unmark_word (md_mark_word d)\<rparr>"

definition unmark :: "cell \<Rightarrow> cell" where
  "unmark c = (case c of Object_cell ob \<Rightarrow> Object_cell (unmark_object ob) | Monitor_cell d \<Rightarrow> Monitor_cell (unmark_monitor d))"

definition erase :: "memory \<Rightarrow> memory" where
  "erase m = (\<lambda>a. map_option unmark (m a))"

definition marked :: "memory \<Rightarrow> addr \<Rightarrow> bool" where
  "marked m a = (\<exists>f. get_flags m a = Some f \<and> f AND IS_REACHABLE \<noteq> 0)"

definition field_edge :: "gc_ctx \<Rightarrow> memory \<Rightarrow> addr \<Rightarrow> addr \<Rightarrow> bool" where
  "field_edge g m a b =
     (\<exists>ob. read_object m a = Some ob \<and> b \<in> oh_words ob ` set (traced_slots g ob) \<and> b \<noteq> 0 \<and> in_heap g b)"

inductive live :: "gc_ctx \<Rightarrow> memory \<Rightarrow> addr set \<Rightarrow> addr \<Rightarrow> bool" for g m R where
  live_root: "a \<in> R \<Longrightarrow> live g m R a"
| live_field: "live g m R a \<Longrightarrow> field_edge g m a b \<Longrightarrow> live g m R b"

definition object_wf :: "gc_ctx \<Rightarrow> obj_header \<Rightarrow> bool" where
  "object_wf g ob =
     (distinct (traced_slots g ob) \<and>
      (rc_kind (class_of g ob) = CD_KIND_ORDINARY \<and> is_reference g ob \<longrightarrow>
       (\<exists>slot slots. rc_instance_references (class_of g ob) = slot # slots \<and> unat slot = native_referent (gx_ptr g) \<and>
          slot \<notin> set slots)))"

definition cell_placed :: "gc_ctx \<Rightarrow> addr \<Rightarrow> cell \<Rightarrow> bool" where
  "cell_placed g a c =
     (8 dvd a \<and> gx_heap g \<le> a \<and> (\<exists>sz. cell_size g c = Some sz \<and> 0 < sz \<and> a + sz \<le> gx_heap g + gx_capacity g))"

definition layout_wf :: "gc_ctx \<Rightarrow> memory \<Rightarrow> bool" where
  "layout_wf g m =
     (0 < gx_heap g \<and> 8 dvd gx_heap g \<and> finite (dom m) \<and>
      (\<forall>a c. m a = Some c \<longrightarrow> cell_placed g a c) \<and>
      (\<forall>a b c. m a = Some c \<and> b \<in> dom m \<and> a < b \<longrightarrow> a + the (cell_size g c) \<le> b))"

text \<open>A monitor lies above its object, because it is allocated after it, and belongs to one object.\<close>

definition expands :: "memory \<Rightarrow> addr \<Rightarrow> addr \<Rightarrow> bool" where
  "expands m a e = (\<exists>ob. read_object m a = Some ob \<and> oh_header ob = Expanded_ptr e)"

definition monitors_wf :: "memory \<Rightarrow> bool" where
  "monitors_wf m =
     (\<forall>a e. expands m a e \<longrightarrow>
        a < e \<and> (\<exists>d. m e = Some (Monitor_cell d)) \<and> (\<forall>b. expands m b e \<longrightarrow> b = a))"

definition is_weak :: "gc_ctx \<Rightarrow> obj_header \<Rightarrow> bool" where
  "is_weak g ob = (rc_kind (class_of g ob) = CD_KIND_ORDINARY \<and> is_reference g ob)"

definition referent_of :: "gc_ctx \<Rightarrow> memory \<Rightarrow> addr \<Rightarrow> addr \<Rightarrow> bool" where
  "referent_of g m a v =
     (\<exists>ob. read_object m a = Some ob \<and> is_weak g ob \<and> v = oh_words ob (native_referent (gx_ptr g)))"

definition heap_wf :: "gc_ctx \<Rightarrow> memory \<Rightarrow> bool" where
  "heap_wf g m =
     (layout_wf g m \<and> monitors_wf m \<and> erase m = m \<and>
      (\<forall>a ob. read_object m a = Some ob \<longrightarrow> object_wf g ob) \<and>
      (\<forall>a b. field_edge g m a b \<longrightarrow> read_object m b \<noteq> None) \<and>
      (\<forall>a v. referent_of g m a v \<and> v \<noteq> 0 \<and> in_heap g v \<longrightarrow> read_object m v \<noteq> None))"

section \<open>Marking computes reachability\<close>

lemma unmark_object_simps [simp]:
  "oh_class (unmark_object ob) = oh_class ob" "oh_length (unmark_object ob) = oh_length ob"
  "oh_words (unmark_object ob) = oh_words ob"
  "oh_header (unmark_object ob) = Expanded_ptr e \<longleftrightarrow> oh_header ob = Expanded_ptr e"
  by (auto simp: unmark_object_def split: obj_word.splits)

lemma traced_unmark [simp]:
  "class_of g (unmark_object ob) = class_of g ob" "is_reference g (unmark_object ob) = is_reference g ob"
  "traced_slots g (unmark_object ob) = traced_slots g ob" "gc_entries a (unmark_object ob) = gc_entries a ob"
  "size_of_object g (unmark_object ob) = size_of_object g ob"
  by (auto simp: class_of_def is_reference_def traced_slots_def gc_entries_def size_of_object_def unmark_object_def
    Let_def split: obj_word.splits)

lemma cell_size_unmark [simp]: "cell_size g (unmark c) = cell_size g c"
  by (cases c) (simp_all add: cell_size_def unmark_def)

lemma read_erase [simp]: "read_object (erase m) a = map_option unmark_object (read_object m a)"
  by (auto simp: read_object_def erase_def unmark_def split: option.splits cell.splits)

lemma field_edge_erase [simp]: "field_edge g (erase m) a b = field_edge g m a b"
  by (auto simp: field_edge_def)

lemma reachable_bit [simp]:
  "(f OR IS_REACHABLE) AND NOT IS_REACHABLE = f AND NOT IS_REACHABLE"
  "(f OR IS_REACHABLE) AND IS_REACHABLE = IS_REACHABLE" "IS_REACHABLE \<noteq> 0"
  "(f AND NOT IS_REACHABLE) AND IS_REACHABLE = 0"
proof -
  show "IS_REACHABLE \<noteq> 0" by (simp add: IS_REACHABLE_def)
qed (simp_all add: bit_eq_iff bit_simps, auto)

lemma erase_apply: "erase m a = map_option unmark (m a)"
  by (simp add: erase_def)

lemma erase_monitor: "erase m e = Some (Monitor_cell d) \<longleftrightarrow> (\<exists>d'. m e = Some (Monitor_cell d') \<and> d = unmark_monitor d')"
  by (cases "m e") (auto simp: erase_def unmark_def split: cell.splits)

lemma expands_erase [simp]: "expands (erase m) a e = expands m a e"
  by (auto simp: expands_def)

lemma monitors_wf_erase [simp]: "monitors_wf (erase m) = monitors_wf m"
  by (auto simp: monitors_wf_def erase_monitor)

text \<open>Setting the mark of an object changes nothing else, as no other object has its monitor.\<close>

lemma set_mark:
  assumes "monitors_wf m" and "read_object m a \<noteq> None"
  shows "\<exists>m'. update_flags (\<lambda>f. f OR IS_REACHABLE) m a = Some m' \<and> erase m' = erase m \<and>
    (\<forall>b. marked m' b \<longleftrightarrow> marked m b \<or> b = a)"
proof -
  obtain ob where ob: "read_object m a = Some ob" using assms(2) by auto
  then have ma: "m a = Some (Object_cell ob)" by (auto simp: read_object_def split: option.splits cell.splits)
  show ?thesis
  proof (cases "oh_header ob")
    case (Mark_data w)
    let ?m' = "m(a \<mapsto> Object_cell (ob\<lparr>oh_header := Mark_data (fst w OR IS_REACHABLE, snd w)\<rparr>))"
    have "update_flags (\<lambda>f. f OR IS_REACHABLE) m a = Some ?m'" using ob Mark_data by (simp add: update_flags_def)
    moreover have "erase ?m' = erase m"
      using ma Mark_data by (auto simp: erase_def unmark_def unmark_object_def unmark_word_def fun_eq_iff)
    moreover have "marked ?m' b \<longleftrightarrow> marked m b \<or> b = a" for b
      using ma Mark_data
      by (auto simp: marked_def get_flags_def read_object_def split: option.splits cell.splits obj_word.splits if_splits)
    ultimately show ?thesis by blast
  next
    case (Expanded_ptr e)
    have ex: "expands m a e" using ob Expanded_ptr by (simp add: expands_def)
    have own: "b = a" if "read_object m b = Some ob'" "oh_header ob' = Expanded_ptr e" for b ob'
    proof -
      have "expands m b e" using that by (simp add: expands_def)
      then show ?thesis using assms(1) ex unfolding monitors_wf_def by blast
    qed
    obtain d where me: "m e = Some (Monitor_cell d)"
      using assms(1) ex unfolding monitors_wf_def by blast
    let ?m' = "m(e \<mapsto> Monitor_cell (d\<lparr>md_mark_word := (fst (md_mark_word d) OR IS_REACHABLE, snd (md_mark_word d))\<rparr>))"
    have "update_flags (\<lambda>f. f OR IS_REACHABLE) m a = Some ?m'" using ob Expanded_ptr me by (simp add: update_flags_def)
    moreover have "erase ?m' = erase m"
      using me by (auto simp: erase_def unmark_def unmark_monitor_def unmark_word_def fun_eq_iff)
    moreover have "marked ?m' b \<longleftrightarrow> marked m b \<or> b = a" for b
    proof -
      have "read_object ?m' b = read_object m b" using me by (simp add: read_object_def)
      then show ?thesis using own [of b] ob Expanded_ptr
        by (auto simp: marked_def get_flags_def split: option.splits obj_word.splits)
    qed
    ultimately show ?thesis by blast
  qed
qed

lemma get_flags_total:
  assumes "monitors_wf m" and "read_object m a \<noteq> None"
  obtains f where "get_flags m a = Some f" "f AND IS_REACHABLE \<noteq> 0 \<longleftrightarrow> marked m a"
proof -
  obtain ob where ob: "read_object m a = Some ob" using assms(2) by auto
  have "get_flags m a \<noteq> None"
  proof (cases "oh_header ob")
    case (Expanded_ptr e)
    then have "expands m a e" using ob by (simp add: expands_def)
    then obtain d where "m e = Some (Monitor_cell d)" using assms(1) unfolding monitors_wf_def by blast
    then show ?thesis using ob Expanded_ptr by (simp add: get_flags_def)
  qed (use ob in \<open>simp add: get_flags_def\<close>)
  then show ?thesis using that by (auto simp: marked_def)
qed

lemma unmarked_erase: "\<not> marked (erase m) a"
proof -
  have "get_flags (erase m) a = map_option (\<lambda>f. f AND NOT IS_REACHABLE) (get_flags m a)"
  proof (cases "read_object m a")
    case (Some ob)
    then show ?thesis
      by (cases "oh_header ob")
        (auto simp: get_flags_def unmark_object_def unmark_word_def erase_apply unmark_def unmark_monitor_def
          split: option.splits cell.splits)
  qed (simp add: get_flags_def)
  then show ?thesis by (auto simp: marked_def)
qed

text \<open>Visiting values marks those in the heap that were not marked, and pushes each of them once.\<close>

definition is_target :: "gc_ctx \<Rightarrow> addr \<Rightarrow> bool" where
  "is_target g v = (v \<noteq> 0 \<and> in_heap g v)"

definition visited :: "gc_ctx \<Rightarrow> addr list \<Rightarrow> memory \<Rightarrow> memory \<Rightarrow> addr list \<Rightarrow> bool" where
  "visited g vs m m' new =
     (erase m' = erase m \<and> (\<forall>b. marked m' b \<longleftrightarrow> marked m b \<or> b \<in> set new) \<and> distinct new \<and>
      (\<forall>b \<in> set new. \<not> marked m b \<and> b \<in> set vs \<and> is_target g b) \<and>
      (\<forall>v \<in> set vs. is_target g v \<longrightarrow> marked m' v))"

lemma visited_skip: "visited g vs m m' new \<Longrightarrow> \<not> is_target g v \<or> marked m v \<Longrightarrow> visited g (v # vs) m m' new"
  by (auto simp: visited_def)

lemma visited_push:
  assumes "visited g vs m1 m' new" and "erase m1 = erase m" and "\<And>b. marked m1 b \<longleftrightarrow> marked m b \<or> b = v"
    and "is_target g v" and "\<not> marked m v"
  shows "visited g (v # vs) m m' (new @ [v])"
  using assms by (auto simp: visited_def)

lemma read_object_erase_cong: "erase m' = erase m \<Longrightarrow> read_object m' x \<noteq> None \<longleftrightarrow> read_object m x \<noteq> None"
  by (metis read_erase option.map_disc_iff)

lemma visit_fields_ok:
  assumes "monitors_wf m" and "\<forall>v \<in> set vs. is_target g v \<longrightarrow> read_object m v \<noteq> None"
  shows "\<exists>m' new. visit_fields g vs (m, wl) = Some (m', new @ wl) \<and> visited g vs m m' new"
  using assms
proof (induction vs arbitrary: m wl)
  case Nil
  have "visited g [] m m []" by (simp add: visited_def)
  then show ?case by force
next
  case (Cons v vs)
  show ?case
  proof (cases "\<not> is_target g v \<or> marked m v")
    case True
    have "visit_field g v (m, wl) = Some (m, wl)"
    proof (cases "is_target g v")
      case t: True
      then have "read_object m v \<noteq> None" using Cons.prems(2) by simp
      then obtain f where "get_flags m v = Some f" "f AND IS_REACHABLE \<noteq> 0 \<longleftrightarrow> marked m v"
        using get_flags_total [OF Cons.prems(1)] by blast
      then show ?thesis using True t by (simp add: visit_field_def is_target_def)
    qed (auto simp: visit_field_def is_target_def)
    moreover obtain m' new where "visit_fields g vs (m, wl) = Some (m', new @ wl)" "visited g vs m m' new"
      using Cons.IH [OF Cons.prems(1)] Cons.prems(2) by (meson list.set_intros(2))
    ultimately show ?thesis using visited_skip [OF _ True] by auto
  next
    case False
    then have t: "is_target g v" and nm: "\<not> marked m v" by auto
    then have r: "read_object m v \<noteq> None" using Cons.prems(2) by simp
    obtain m1 where m1: "update_flags (\<lambda>f. f OR IS_REACHABLE) m v = Some m1" "erase m1 = erase m"
      "\<And>b. marked m1 b \<longleftrightarrow> marked m b \<or> b = v" using set_mark [OF Cons.prems(1) r] by blast
    obtain f where "get_flags m v = Some f" "f AND IS_REACHABLE \<noteq> 0 \<longleftrightarrow> marked m v"
      using get_flags_total [OF Cons.prems(1) r] by blast
    then have v: "visit_field g v (m, wl) = Some (m1, v # wl)"
      using t nm m1(1) by (simp add: visit_field_def is_target_def)
    have "monitors_wf m1" using Cons.prems(1) m1(2) by (metis monitors_wf_erase)
    moreover have "\<forall>v \<in> set vs. is_target g v \<longrightarrow> read_object m1 v \<noteq> None"
      using Cons.prems(2) read_object_erase_cong [OF m1(2)] by simp
    ultimately obtain m' new where m': "visit_fields g vs (m1, v # wl) = Some (m', new @ v # wl)"
      "visited g vs m1 m' new" using Cons.IH [of m1 "v # wl"] by blast
    have "visit_fields g (v # vs) (m, wl) = Some (m', (new @ [v]) @ wl)" using v m'(1) by simp
    then show ?thesis using visited_push [OF m'(2) m1(2,3) t nm] by blast
  qed
qed

lemma mark_roots_visits:
  assumes "0 < gx_heap g"
  shows "mark_roots g vs (m, wl) = visit_fields g vs (m, wl)"
proof (induction vs arbitrary: m wl)
  case (Cons v vs)
  have "in_heap g v \<Longrightarrow> v \<noteq> 0" using assms by (simp add: in_heap_def)
  then show ?case using Cons by (auto simp: visit_field_def split: option.splits)
qed simp

text \<open>The invariant of the mark loop: \<open>finished\<close> are the objects whose fields have been visited.\<close>

definition mark_inv :: "gc_ctx \<Rightarrow> memory \<Rightarrow> addr set \<Rightarrow> memory \<Rightarrow> addr list \<Rightarrow> addr list \<Rightarrow> bool" where
  "mark_inv g m0 R m finished worklist =
     (erase m = m0 \<and> (\<forall>a. marked m a \<longleftrightarrow> a \<in> set finished \<union> set worklist) \<and> distinct (finished @ worklist) \<and>
      R \<subseteq> set finished \<union> set worklist \<and>
      (\<forall>a \<in> set finished \<union> set worklist. live g m0 R a \<and> read_object m0 a \<noteq> None) \<and>
      (\<forall>a \<in> set finished. \<forall>b. field_edge g m0 a b \<longrightarrow> b \<in> set finished \<union> set worklist))"

definition entries_of :: "memory \<Rightarrow> addr list \<Rightarrow> addr list" where
  "entries_of m finished = concat (map (\<lambda>a. gc_entries a (the (read_object m a))) finished)"

lemma mark_step:
  assumes wf: "heap_wf g m0" and inv: "mark_inv g m0 R m finished (obj # worklist)"
  shows "\<exists>m1 m' worklist'. update_flags (\<lambda>f. f OR IS_REACHABLE) m obj = Some m1 \<and>
    mark_reachable g obj (m1, entries_of m0 finished, worklist) = Some (m', entries_of m0 (finished @ [obj]), worklist') \<and>
    mark_inv g m0 R m' (finished @ [obj]) worklist'"
proof -
  have e: "erase m = m0" and mk: "\<And>a. marked m a \<longleftrightarrow> a \<in> set finished \<union> set (obj # worklist)"
    using inv by (auto simp: mark_inv_def)
  have live: "live g m0 R obj" "read_object m0 obj \<noteq> None" using inv by (auto simp: mark_inv_def)
  have mon: "monitors_wf m" using wf e by (metis heap_wf_def monitors_wf_erase)
  have r: "read_object m obj \<noteq> None" using live(2) e by auto
  obtain m1 where m1: "update_flags (\<lambda>f. f OR IS_REACHABLE) m obj = Some m1" "erase m1 = m0"
    "\<And>b. marked m1 b \<longleftrightarrow> marked m b" using set_mark [OF mon r] mk e by auto
  have mon1: "monitors_wf m1" using wf m1(2) by (metis heap_wf_def monitors_wf_erase)
  obtain ob where ob: "read_object m1 obj = Some ob" using live(2) m1(2) by auto
  let ?vs = "map (oh_words ob) (traced_slots g ob)"
  have edge: "field_edge g m0 obj b \<longleftrightarrow> b \<in> set ?vs \<and> is_target g b" for b
    using ob m1(2) by (auto simp: field_edge_def is_target_def)
  have "read_object m1 v \<noteq> None" if "v \<in> set ?vs" "is_target g v" for v
    using wf edge [of v] that m1(2) unfolding heap_wf_def by (metis (no_types) option.map_disc_iff read_erase)
  then have tgts: "\<forall>v \<in> set ?vs. is_target g v \<longrightarrow> read_object m1 v \<noteq> None" by blast
  obtain m' new where m': "visit_fields g ?vs (m1, worklist) = Some (m', new @ worklist)" "erase m' = m0"
    "\<And>b. marked m' b \<longleftrightarrow> marked m b \<or> b \<in> set new" "distinct new"
    "\<And>b. b \<in> set new \<Longrightarrow> \<not> marked m b \<and> b \<in> set ?vs \<and> is_target g b"
    "\<And>v. v \<in> set ?vs \<Longrightarrow> is_target g v \<Longrightarrow> marked m' v"
    using visit_fields_ok [OF mon1 tgts, of worklist] unfolding visited_def m1(2,3) by blast
  have ents: "entries_of m0 (finished @ [obj]) = entries_of m0 finished @ gc_entries obj ob"
    using ob m1(2) by (auto simp: entries_of_def)
  have "mark_reachable g obj (m1, entries_of m0 finished, worklist) = Some (m', entries_of m0 (finished @ [obj]), new @ worklist)"
    using ob m'(1) ents by (simp add: mark_reachable_def)
  moreover have "mark_inv g m0 R m' (finished @ [obj]) (new @ worklist)"
  proof -
    have "live g m0 R b \<and> read_object m0 b \<noteq> None" if "b \<in> set new" for b
      using m'(5) [OF that] edge [of b] live_field [OF live(1), of b] wf by (auto simp: heap_wf_def)
    moreover have "b \<in> set finished \<union> set (obj # worklist) \<union> set new" if "field_edge g m0 obj b" for b
      using m'(6) [of b] m'(3) mk edge that by blast
    moreover have "set new \<inter> (set finished \<union> set (obj # worklist)) = {}" using m'(5) mk by blast
    ultimately show ?thesis using inv m'(2,3,4) mk unfolding mark_inv_def by auto
  qed
  ultimately show ?thesis using m1(1) by blast
qed

text \<open>The loop ends: each round finishes an object.\<close>

lemma mark_loop_ok:
  assumes wf: "heap_wf g m0" and "mark_inv g m0 R m finished worklist"
  shows "\<exists>m' finished'. mark_loop g m (entries_of m0 finished) worklist = Some (m', entries_of m0 finished') \<and>
    mark_inv g m0 R m' finished' []"
  using assms(2)
proof (induction "card (dom m0) - length finished" arbitrary: m finished worklist rule: less_induct)
  case less
  show ?case
  proof (cases worklist)
    case Nil
    then show ?thesis using less.prems by (auto simp: mark_loop.simps)
  next
    case (Cons obj wl)
    obtain m1 m' wl' where st: "update_flags (\<lambda>f. f OR IS_REACHABLE) m obj = Some m1"
      "mark_reachable g obj (m1, entries_of m0 finished, wl) = Some (m', entries_of m0 (finished @ [obj]), wl')"
      "mark_inv g m0 R m' (finished @ [obj]) wl'"
      using mark_step [OF wf less.prems [unfolded Cons]] by blast
    have "set (finished @ [obj]) \<subseteq> dom m0" "distinct (finished @ [obj])"
      using st(3) by (auto simp: mark_inv_def read_object_def split: option.splits)
    moreover have "finite (dom m0)" using wf by (simp add: heap_wf_def layout_wf_def)
    ultimately have "length (finished @ [obj]) \<le> card (dom m0)" by (metis card_mono distinct_card)
    then have "\<exists>m'' finished'. mark_loop g m' (entries_of m0 (finished @ [obj])) wl' = Some (m'', entries_of m0 finished') \<and>
      mark_inv g m0 R m'' finished' []" using less.hyps [OF _ st(3)] by simp
    moreover have "mark_loop g m (entries_of m0 finished) worklist = mark_loop g m' (entries_of m0 (finished @ [obj])) wl'"
      using st(1,2) Cons by (subst mark_loop.simps) simp
    ultimately show ?thesis by simp
  qed
qed

lemma mark_inv_live:
  assumes "mark_inv g m0 R m finished []"
  shows "set finished = {a. live g m0 R a}" "distinct finished"
proof -
  have closed: "R \<subseteq> set finished" "\<And>a b. a \<in> set finished \<Longrightarrow> field_edge g m0 a b \<Longrightarrow> b \<in> set finished"
    using assms by (auto simp: mark_inv_def)
  have "a \<in> set finished" if "live g m0 R a" for a
    using that by induction (use closed in blast)+
  moreover have "\<forall>a \<in> set finished. live g m0 R a" "distinct finished" using assms by (simp_all add: mark_inv_def)
  ultimately show "set finished = {a. live g m0 R a}" "distinct finished" by blast+
qed

text \<open>The mark phase succeeds and lists every live object once.\<close>

lemma mark_phase:
  assumes wf: "heap_wf g m0" and roots: "\<forall>v \<in> set vs. is_target g v \<and> read_object m0 v \<noteq> None"
  shows "\<exists>m1 wl m finished. mark_roots g vs (m0, []) = Some (m1, wl) \<and>
    mark_loop g m1 [] wl = Some (m, entries_of m0 finished) \<and> erase m = m0 \<and>
    distinct finished \<and> set finished = {a. live g m0 (set vs) a}"
proof -
  have e: "erase m0 = m0" "monitors_wf m0" "0 < gx_heap g" using wf by (auto simp: heap_wf_def layout_wf_def)
  have unm: "marked m0 b = False" for b using unmarked_erase [of m0 b] e(1) by simp
  have t: "\<forall>v \<in> set vs. is_target g v \<longrightarrow> read_object m0 v \<noteq> None" using roots by blast
  obtain m1 wl where m1: "visit_fields g vs (m0, []) = Some (m1, wl)" "erase m1 = m0"
    "\<And>b. marked m1 b \<longleftrightarrow> b \<in> set wl" "distinct wl" "\<And>b. b \<in> set wl \<Longrightarrow> b \<in> set vs"
    "\<And>v. v \<in> set vs \<Longrightarrow> is_target g v \<Longrightarrow> marked m1 v"
    using visit_fields_ok [OF e(2) t, of "[]"] unfolding visited_def unm e(1) append_Nil2 by blast
  have "mark_inv g m0 (set vs) m1 [] wl"
    using m1 roots by (auto simp: mark_inv_def intro: live_root)
  then obtain m finished where m: "mark_loop g m1 (entries_of m0 []) wl = Some (m, entries_of m0 finished)"
    "mark_inv g m0 (set vs) m finished []" using mark_loop_ok [OF wf] by blast
  then show ?thesis using m1(1) mark_roots_visits [OF e(3)] mark_inv_live [OF m(2)]
    by (auto simp: entries_of_def mark_inv_def)
qed

section \<open>Compaction keeps every live cell\<close>

abbreviation untag :: "addr \<Rightarrow> addr" where
  "untag x \<equiv> x - x mod 2"

definition size_at :: "gc_ctx \<Rightarrow> memory \<Rightarrow> addr \<Rightarrow> nat" where
  "size_at g m x = the (cell_size g (the (m (untag x))))"

text \<open>Where the loop puts the entries when it starts to write at \<open>w\<close>.\<close>

fun placement :: "gc_ctx \<Rightarrow> memory \<Rightarrow> addr \<Rightarrow> addr list \<Rightarrow> addr list" where
  "placement g m w [] = []"
| "placement g m w (x # xs) = w # placement g m (w + size_at g m x) xs"

definition placement_end :: "gc_ctx \<Rightarrow> memory \<Rightarrow> addr \<Rightarrow> addr list \<Rightarrow> addr" where
  "placement_end g m w xs = w + sum_list (map (size_at g m) xs)"

definition entry_ok :: "memory \<Rightarrow> addr \<Rightarrow> bool" where
  "entry_ok m x = (if even x then read_object m x \<noteq> None else \<exists>d. m (x - 1) = Some (Monitor_cell d))"

lemma read_object_Some: "read_object m a = Some ob \<longleftrightarrow> m a = Some (Object_cell ob)"
  by (auto simp: read_object_def split: option.splits cell.splits)

lemma cell_aligned: "heap_wf g m \<Longrightarrow> m a = Some c \<Longrightarrow> 8 dvd a"
  by (auto simp: heap_wf_def layout_wf_def cell_placed_def)

lemma cell_placed_heap: "heap_wf g m \<Longrightarrow> m a = Some c \<Longrightarrow> cell_placed g a c"
  by (auto simp: heap_wf_def layout_wf_def)

lemma expands_monitor: "heap_wf g m \<Longrightarrow> expands m a e \<Longrightarrow> a < e \<and> (\<exists>d. m e = Some (Monitor_cell d))"
  by (auto simp: heap_wf_def monitors_wf_def)

lemma entry_cell:
  assumes "heap_wf g m" and "entry_ok m x"
  obtains c where "m (untag x) = Some c" "cell_placed g (untag x) c" "cell_size g c = Some (size_at g m x)"
    "0 < size_at g m x" "8 dvd size_at g m x" "untag x + size_at g m x \<le> gx_heap g + gx_capacity g"
    "odd x \<longleftrightarrow> (\<exists>d. c = Monitor_cell d)"
proof -
  obtain c where c: "m (untag x) = Some c" "odd x \<longleftrightarrow> (\<exists>d. c = Monitor_cell d)"
    using assms(2) by (auto simp: entry_ok_def read_object_Some odd_iff_mod_2_eq_one split: if_splits)
  have p: "cell_placed g (untag x) c" using assms(1) c(1) by (auto simp: heap_wf_def layout_wf_def)
  then obtain sz where sz: "cell_size g c = Some sz" "0 < sz" "untag x + sz \<le> gx_heap g + gx_capacity g"
    by (auto simp: cell_placed_def)
  moreover have "8 dvd sz" using sz(1) by (auto simp: cell_size_def align_addr_def)
  moreover have "size_at g m x = sz" using c(1) sz(1) by (simp add: size_at_def)
  ultimately show ?thesis using that [OF c(1) p] c(2) by blast
qed

lemma entry_size: "heap_wf g m \<Longrightarrow> entry_ok m x \<Longrightarrow> 0 < size_at g m x \<and> 8 dvd size_at g m x"
  by (erule (1) entry_cell) simp

lemma entry_above: "heap_wf g m \<Longrightarrow> entry_ok m x \<Longrightarrow> gx_heap g \<le> untag x"
  by (erule (1) entry_cell) (simp add: cell_placed_def)

lemma entry_order:
  assumes wf: "heap_wf g m" and "entry_ok m x" and "entry_ok m y" and "x < y"
  shows "untag x + size_at g m x \<le> untag y"
proof -
  obtain c where c: "m (untag x) = Some c" "cell_size g c = Some (size_at g m x)" "8 dvd untag x"
    "odd x \<longleftrightarrow> (\<exists>d. c = Monitor_cell d)"
    using entry_cell [OF wf assms(2)] by (metis cell_placed_def)
  obtain c' where c': "m (untag y) = Some c'" "8 dvd untag y" "odd y \<longleftrightarrow> (\<exists>d. c' = Monitor_cell d)"
    using entry_cell [OF wf assms(3)] by (metis cell_placed_def)
  have "untag x \<noteq> untag y"
  proof
    assume eq: "untag x = untag y"
    then have "odd x \<longleftrightarrow> odd y" using c c' by simp
    then have "x mod 2 = y mod 2" by (metis odd_iff_mod_2_eq_one even_iff_mod_2_eq_zero)
    then show False using eq assms(4) mod_less_eq_dividend [of x 2] mod_less_eq_dividend [of y 2] by linarith
  qed
  moreover have "untag x \<le> untag y" using assms(4) by presburger
  ultimately show ?thesis using wf c c' unfolding heap_wf_def layout_wf_def by (metis domI le_neq_implies_less option.sel)
qed

lemma align_addr_id: "8 dvd n \<Longrightarrow> align_addr n = n"
  by (auto simp: align_addr_def elim!: dvdE)

text \<open>Clearing the mark of an object restores its cell, and that of its monitor.\<close>

definition holder :: "addr \<Rightarrow> obj_header \<Rightarrow> addr" where
  "holder a ob = (case oh_header ob of Mark_data _ \<Rightarrow> a | Expanded_ptr e \<Rightarrow> e)"

lemma clear_mark:
  assumes "read_object m a = Some ob" and "\<And>e. oh_header ob = Expanded_ptr e \<Longrightarrow> \<exists>d. m e = Some (Monitor_cell d)"
  shows "update_flags (\<lambda>f. f AND NOT IS_REACHABLE) m a = Some (m(holder a ob := erase m (holder a ob)))"
  using assms(1) [unfolded read_object_Some] assms(2)
  by (cases "oh_header ob")
    (auto simp: update_flags_def holder_def erase_apply unmark_def unmark_object_def unmark_monitor_def unmark_word_def
      read_object_def)

lemma erase_erase [simp]: "map_option unmark (erase m a) = erase m a"
proof -
  have "unmark (unmark c) = unmark c" for c
    by (cases c) (auto simp: unmark_def unmark_object_def unmark_monitor_def unmark_word_def and.assoc split: obj_word.splits)
  then show ?thesis by (cases "m a") (simp_all add: erase_apply)
qed

text \<open>The invariant of the copying loop. A monitor that is still to be copied has no mark, unless its
  object is still to be copied, too.\<close>

definition copy_inv :: "gc_ctx \<Rightarrow> memory \<Rightarrow> addr list \<Rightarrow> addr \<Rightarrow> memory \<Rightarrow> bool" where
  "copy_inv g m0 todo w m =
     (8 dvd w \<and> sorted_wrt (<) todo \<and>
      (\<forall>x \<in> set todo. entry_ok m0 x \<and> w \<le> untag x \<and> erase m (untag x) = m0 (untag x)) \<and>
      (\<forall>x \<in> set todo. odd x \<longrightarrow> (\<exists>a \<in> set todo. expands m0 a (x - 1)) \<or> m (x - 1) = m0 (x - 1)) \<and>
      (\<forall>x \<in> set todo. \<forall>e. expands m0 x e \<longrightarrow> e + 1 \<in> set todo))"

text \<open>What the step does before the move: it restores the cell that it copies.\<close>

lemma copy_clears:
  assumes wf: "heap_wf g m0" and inv: "copy_inv g m0 (x # todo) w m"
  shows "\<exists>m1. (if odd x then Some m else update_flags (\<lambda>f. f AND NOT IS_REACHABLE) m (untag x)) = Some m1 \<and>
    m1 (untag x) = m0 (untag x) \<and> (\<forall>a. m1 a = m a \<or> m1 a = erase m a) \<and> (\<forall>a. a < w \<longrightarrow> m1 a = m a) \<and>
    (\<forall>e. expands m0 x e \<longrightarrow> m1 e = m0 e)"
proof (cases "odd x")
  case True
  have x: "entry_ok m0 x" using inv by (simp add: copy_inv_def)
  have "\<not> expands m0 a (x - 1)" if "a \<in> set (x # todo)" for a
  proof
    assume ex: "expands m0 a (x - 1)"
    then have "a < x - 1" using wf by (auto simp: heap_wf_def monitors_wf_def)
    moreover have "x \<le> a" using inv that by (auto simp: copy_inv_def)
    ultimately show False by simp
  qed
  then have "m (x - 1) = m0 (x - 1)" using inv True by (auto simp: copy_inv_def)
  moreover have "\<not> expands m0 x e" for e
  proof
    assume "expands m0 x e"
    then have "x \<in> dom m0" by (auto simp: expands_def read_object_Some)
    then have "8 dvd x" using wf by (auto simp: heap_wf_def layout_wf_def cell_placed_def)
    then show False using True by (meson dvd_trans even_numeral)
  qed
  ultimately show ?thesis using True by (auto simp: odd_iff_mod_2_eq_one)
next
  case False
  have x: "read_object m0 x \<noteq> None" "erase m x = m0 x" "w \<le> x" using inv False by (auto simp: copy_inv_def entry_ok_def)
  have "map_option unmark_object (read_object m x) = read_object m0 x"
    using read_erase [of m x] x(2) unfolding read_object_def by simp
  then obtain ob where ob: "read_object m x = Some ob" "read_object m0 x = Some (unmark_object ob)" using x(1) by auto
  have ex: "expands m0 x e \<longleftrightarrow> oh_header ob = Expanded_ptr e" for e using ob(2) by (simp add: expands_def)
  have e: "erase m e = m0 e \<and> x < e \<and> (\<exists>d. m0 e = Some (Monitor_cell d))" if "oh_header ob = Expanded_ptr e" for e
  proof -
    have "e + 1 \<in> set (x # todo)" "expands m0 x e" using inv ex that by (auto simp: copy_inv_def)
    moreover have "8 dvd e" using expands_monitor [OF wf \<open>expands m0 x e\<close>] cell_aligned [OF wf] by blast
    then have "untag (e + 1) = e" by (auto elim!: dvdE) presburger
    ultimately show ?thesis using inv wf unfolding copy_inv_def heap_wf_def monitors_wf_def by metis
  qed
  then have "\<exists>d. m e = Some (Monitor_cell d)" if "oh_header ob = Expanded_ptr e" for e
    using that erase_monitor by metis
  then have u: "update_flags (\<lambda>f. f AND NOT IS_REACHABLE) m x = Some (m(holder x ob := erase m (holder x ob)))"
    by (rule clear_mark [OF ob(1)])
  have "(m(holder x ob := erase m (holder x ob))) x = m0 x"
    using x(2) ob e by (cases "oh_header ob") (auto simp: holder_def read_object_Some unmark_object_def)
  moreover have "w \<le> holder x ob" using x(3) e by (cases "oh_header ob") (auto simp: holder_def intro: less_imp_le order_trans)
  moreover have "\<forall>e'. expands m0 x e' \<longrightarrow> (m(holder x ob := erase m (holder x ob))) e' = m0 e'"
    using e by (auto simp: ex holder_def)
  ultimately show ?thesis using u False by auto
qed

lemma copy_step:
  assumes wf: "heap_wf g m0" and inv: "copy_inv g m0 (x # todo) w m"
  shows "\<exists>m'. copy_one g x w m = Some (w, w + size_at g m0 x, m') \<and> m' w = m0 (untag x) \<and>
    copy_inv g m0 todo (w + size_at g m0 x) m' \<and>
    (\<forall>a c. m a = Some c \<and> a < w \<and> a + the (cell_size g c) \<le> w \<longrightarrow> m' a = Some c) \<and>
    (\<forall>a c. m' a = Some c \<and> a < w + size_at g m0 x \<longrightarrow> a = w \<or> a < w \<and> m a = Some c)"
proof -
  let ?sz = "size_at g m0 x"
  have x: "entry_ok m0 x" "w \<le> untag x" "erase m (untag x) = m0 (untag x)" "8 dvd w"
    using inv by (auto simp: copy_inv_def)
  obtain c0 where c0: "m0 (untag x) = Some c0" "cell_size g c0 = Some ?sz" "0 < ?sz" "8 dvd ?sz"
    "untag x + ?sz \<le> gx_heap g + gx_capacity g" "odd x \<longleftrightarrow> (\<exists>d. c0 = Monitor_cell d)"
    by (rule entry_cell [OF wf x(1)])
  obtain c where c: "m (untag x) = Some c" "unmark c = c0" using x(3) c0(1) by (auto simp: erase_apply)
  obtain m1 where m1: "(if odd x then Some m else update_flags (\<lambda>f. f AND NOT IS_REACHABLE) m (untag x)) = Some m1"
    "m1 (untag x) = m0 (untag x)" "\<And>a. m1 a = m a \<or> m1 a = erase m a" "\<And>a. a < w \<Longrightarrow> m1 a = m a"
    "\<And>e. expands m0 x e \<Longrightarrow> m1 e = m0 e" using copy_clears [OF wf inv] by blast
  let ?m' = "move_cell g m1 w c0 ?sz"
  have kind: "odd x \<longleftrightarrow> (case c of Monitor_cell _ \<Rightarrow> True | Object_cell _ \<Rightarrow> False)"
    using c(2) c0(6) by (auto simp: unmark_def split: cell.splits)
  have "cell_size g c = Some ?sz" using c(2) c0(2) by auto
  moreover have "w \<le> x" "w + ?sz \<le> gx_heap g + gx_capacity g" using x(2) c0(5) by linarith+
  ultimately have "copy_one g x w m = Some (w, w + ?sz, ?m')"
    using c(1) kind c0(1) m1(1,2) by (simp add: copy_one_def align_addr_id [OF x(4)] Let_def)
  moreover have "?m' w = m0 (untag x)" using c0(1) by (simp add: move_cell_def)
  moreover have "copy_inv g m0 todo (w + ?sz) ?m'"
  proof -
    have y: "entry_ok m0 y \<and> w + ?sz \<le> untag y \<and> ?m' (untag y) = m1 (untag y)" if "y \<in> set todo" for y
    proof -
      have y: "entry_ok m0 y" "x < y" using inv that by (auto simp: copy_inv_def)
      then have "w + ?sz \<le> untag y" using entry_order [OF wf x(1)] x(2) by fastforce
      then show ?thesis using y(1) c0(3) by (auto simp: move_cell_def overlaps_def split: option.splits)
    qed
    have er: "erase ?m' (untag y) = m0 (untag y)" if "y \<in> set todo" for y
    proof -
      have "erase m (untag y) = m0 (untag y)" using inv that by (simp add: copy_inv_def)
      then show ?thesis using y [OF that] m1(3) [of "untag y"] erase_erase [of m "untag y"] by (auto simp: erase_apply)
    qed
    have mon: "(\<exists>a \<in> set todo. expands m0 a (y - 1)) \<or> ?m' (y - 1) = m0 (y - 1)" if "y \<in> set todo" "odd y" for y
    proof -
      have u: "untag y = y - 1" using that(2) by (simp add: odd_iff_mod_2_eq_one)
      then have e: "?m' (y - 1) = m1 (y - 1)" "erase m (y - 1) = m0 (y - 1)"
        using y [OF that(1)] inv that(1) by (auto simp: copy_inv_def)
      have "(\<exists>a \<in> set todo. expands m0 a (y - 1)) \<or> expands m0 x (y - 1) \<or> m (y - 1) = m0 (y - 1)"
        using inv that by (auto simp: copy_inv_def)
      then show ?thesis using e m1(3) [of "y - 1"] m1(5) [of "y - 1"] by auto
    qed
    have "e + 1 \<in> set todo" if "y \<in> set todo" "expands m0 y e" for y e
    proof -
      have "y < e" using that(2) wf by (auto simp: heap_wf_def monitors_wf_def)
      moreover have "x < y" "e + 1 \<in> set (x # todo)" using inv that unfolding copy_inv_def by auto
      ultimately show ?thesis by auto
    qed
    then show ?thesis unfolding copy_inv_def using y er mon x(4) c0(4) inv by (simp add: copy_inv_def)
  qed
  moreover have "?m' a = Some c'" if "m a = Some c'" "a < w" "a + the (cell_size g c') \<le> w" for a c'
    using that m1(4) [of a] by (simp add: move_cell_def overlaps_def)
  moreover have "a = w \<or> a < w \<and> m a = Some c'" if "?m' a = Some c'" "a < w + ?sz" for a c'
    using that m1(4) [of a] by (auto simp: move_cell_def overlaps_def split: option.splits if_splits)
  ultimately show ?thesis by blast
qed

lemma copy_loop_ok:
  assumes wf: "heap_wf g m0" and "copy_inv g m0 todo w m"
  shows "\<exists>m'. copy_loop g todo w m = Some (placement g m0 w todo, placement_end g m0 w todo, m') \<and>
    (\<forall>(x, l) \<in> set (zip todo (placement g m0 w todo)). m' l = m0 (untag x)) \<and>
    (\<forall>a c. m a = Some c \<and> a < w \<and> a + the (cell_size g c) \<le> w \<longrightarrow> m' a = Some c) \<and>
    (\<forall>a c. m' a = Some c \<and> a < placement_end g m0 w todo \<longrightarrow>
       a \<in> set (placement g m0 w todo) \<or> a < w \<and> m a = Some c)"
  using assms(2)
proof (induction todo arbitrary: w m)
  case Nil
  show ?case by (simp add: placement_end_def)
next
  case (Cons x todo)
  let ?w = "w + size_at g m0 x"
  obtain m1 where m1: "copy_one g x w m = Some (w, ?w, m1)" "m1 w = m0 (untag x)" "copy_inv g m0 todo ?w m1"
    "\<And>a c. m a = Some c \<Longrightarrow> a < w \<Longrightarrow> a + the (cell_size g c) \<le> w \<Longrightarrow> m1 a = Some c"
    "\<And>a c. m1 a = Some c \<Longrightarrow> a < ?w \<Longrightarrow> a = w \<or> a < w \<and> m a = Some c"
    using copy_step [OF wf Cons.prems] by blast
  obtain m' where m': "copy_loop g todo ?w m1 = Some (placement g m0 ?w todo, placement_end g m0 ?w todo, m')"
    "\<forall>(x, l) \<in> set (zip todo (placement g m0 ?w todo)). m' l = m0 (untag x)"
    "\<And>a c. m1 a = Some c \<Longrightarrow> a < ?w \<Longrightarrow> a + the (cell_size g c) \<le> ?w \<Longrightarrow> m' a = Some c"
    "\<And>a c. m' a = Some c \<Longrightarrow> a < placement_end g m0 ?w todo \<Longrightarrow> a \<in> set (placement g m0 ?w todo) \<or> a < ?w \<and> m1 a = Some c"
    using Cons.IH [OF m1(3)] by blast
  have "entry_ok m0 x" using Cons.prems by (simp add: copy_inv_def)
  then obtain c0 where c0: "m0 (untag x) = Some c0" "cell_size g c0 = Some (size_at g m0 x)" "0 < size_at g m0 x"
    using entry_cell [OF wf] by metis
  let ?locs = "placement g m0 w (x # todo)" and ?stop = "placement_end g m0 w (x # todo)"
  have w': "m' w = m0 (untag x)" using m'(3) [of w c0] m1(2) c0 by simp
  have eq: "?stop = placement_end g m0 ?w todo" by (simp add: placement_end_def)
  have run: "copy_loop g (x # todo) w m = Some (?locs, ?stop, m')" using m1(1) m'(1) eq by simp
  have moved: "\<forall>(y, l) \<in> set (zip (x # todo) ?locs). m' l = m0 (untag y)" using w' m'(2) by simp
  have "m' a = Some c" if "m a = Some c" "a < w" "a + the (cell_size g c) \<le> w" for a c
    using m'(3) [OF m1(4) [OF that]] that by simp
  then have kept: "\<forall>a c. m a = Some c \<and> a < w \<and> a + the (cell_size g c) \<le> w \<longrightarrow> m' a = Some c" by blast
  have "a \<in> set ?locs \<or> a < w \<and> m a = Some c" if "m' a = Some c" "a < ?stop" for a c
    using m'(4) [OF that(1)] that(2) m1(5) [of a c] eq by auto
  then have "\<forall>a c. m' a = Some c \<and> a < ?stop \<longrightarrow> a \<in> set ?locs \<or> a < w \<and> m a = Some c" by blast
  then show ?case using run moved kept by blast
qed

section \<open>Where the entries go\<close>

lemma length_placement [simp]: "length (placement g m w xs) = length xs"
  by (induction xs arbitrary: w) auto

lemma placement_nth:
  "i < length xs \<Longrightarrow> placement g m w xs ! i = w + sum_list (map (size_at g m) (take i xs))"
  by (induction xs arbitrary: w i) (auto simp: nth_Cons' take_Cons' add.assoc)

lemma sum_list_take_less:
  fixes f :: "'a \<Rightarrow> nat"
  assumes "i < j" and "j \<le> length xs"
  shows "sum_list (map f (take i xs)) + f (xs ! i) \<le> sum_list (map f (take j xs))"
proof -
  have "take j xs = take (Suc i) xs @ drop (Suc i) (take j xs)"
    using assms by (metis append_take_drop_id min.absorb1 Suc_leI take_take)
  then have "sum_list (map f (take (Suc i) xs)) \<le> sum_list (map f (take j xs))"
    by (metis le_add1 map_append sum_list_append)
  then show ?thesis using assms by (simp add: take_Suc_conv_app_nth)
qed

lemma placement_order:
  assumes "i < j" and "j < length xs"
  shows "placement g m w xs ! i + size_at g m (xs ! i) \<le> placement g m w xs ! j"
  using sum_list_take_less [of i j xs "size_at g m"] assms by (simp add: placement_nth)

lemma placement_below:
  assumes "i < length xs"
  shows "placement g m w xs ! i + size_at g m (xs ! i) \<le> placement_end g m w xs" "w \<le> placement g m w xs ! i"
  using sum_list_take_less [of i "length xs" xs "size_at g m"] assms by (simp_all add: placement_nth placement_end_def)

lemma placement_aligned:
  assumes "8 dvd w" and "\<forall>x \<in> set xs. 8 dvd size_at g m x"
  shows "8 dvd placement_end g m w xs" "i < length xs \<Longrightarrow> 8 dvd placement g m w xs ! i"
proof -
  have sums: "8 dvd sum_list (map (size_at g m) ys)" if "set ys \<subseteq> set xs" for ys
    using that assms(2) by (induction ys) auto
  show "8 dvd placement_end g m w xs" using assms(1) sums by (simp add: placement_end_def)
  show "8 dvd placement g m w xs ! i" if "i < length xs"
    using assms(1) sums [OF set_take_subset] by (simp add: placement_nth [OF that])
qed

text \<open>The entries of the live objects.\<close>

lemma or_one_even: "8 dvd (e :: nat) \<Longrightarrow> e OR 1 = e + 1"
  by (simp only: or_one_eq) (auto elim!: dvdE)

lemma gc_entries_set:
  assumes wf: "heap_wf g m" and "read_object m a = Some ob"
  shows "distinct (gc_entries a ob)" "set (gc_entries a ob) = {a} \<union> {x. odd x \<and> expands m a (x - 1)}"
proof -
  have al: "8 dvd a" using assms cell_aligned by (auto simp: read_object_Some)
  have "8 dvd e \<and> a < e" if "oh_header ob = Expanded_ptr e" for e
    using expands_monitor [OF wf, of a e] cell_aligned [OF wf] assms(2) that by (auto simp: expands_def)
  then have o: "e OR 1 = e + 1 \<and> even e \<and> a < e" if "oh_header ob = Expanded_ptr e" for e
    using that or_one_even by (metis dvd_trans even_numeral)
  then show "distinct (gc_entries a ob)" by (auto simp: gc_entries_def split: obj_word.splits)
  show "set (gc_entries a ob) = {a} \<union> {x. odd x \<and> expands m a (x - 1)}"
    using o assms(2) by (auto simp: gc_entries_def expands_def split: obj_word.splits elim: oddE)
qed

lemma entries_of_set:
  assumes wf: "heap_wf g m" and "\<forall>a \<in> set finished. read_object m a \<noteq> None"
  shows "set (entries_of m finished) = set finished \<union> {x. odd x \<and> (\<exists>a \<in> set finished. expands m a (x - 1))}"
proof -
  have "set (gc_entries a (the (read_object m a))) = {a} \<union> {x. odd x \<and> expands m a (x - 1)}" if "a \<in> set finished" for a
    using gc_entries_set(2) [OF wf, of a "the (read_object m a)"] assms(2) that by auto
  then show ?thesis by (auto simp: entries_of_def)
qed

lemma entries_of_distinct:
  assumes wf: "heap_wf g m" and "\<forall>a \<in> set finished. read_object m a \<noteq> None" and "distinct finished"
  shows "distinct (entries_of m finished)"
  using assms(2,3)
proof (induction finished)
  case (Cons a finished)
  obtain ob where ob: "read_object m a = Some ob" using Cons.prems by auto
  have ev: "even b" if "read_object m b \<noteq> None" for b
    using that cell_aligned [OF wf] by (metis dvd_trans even_numeral not_None_eq read_object_Some)
  have "b = a" if "expands m b e" "expands m a e" for b e
    using wf that unfolding heap_wf_def monitors_wf_def by blast
  then have "set (gc_entries a ob) \<inter> set (entries_of m finished) = {}"
    using entries_of_set [OF wf, of finished] gc_entries_set(2) [OF wf ob] Cons.prems ev ob by auto
  then show ?case using Cons gc_entries_set(1) [OF wf ob] ob by (simp add: entries_of_def)
qed (simp add: entries_of_def)

section \<open>Relocation\<close>

text \<open>The new address of an entry; other addresses stay.\<close>

definition forward :: "addr list \<Rightarrow> addr list \<Rightarrow> addr \<Rightarrow> addr" where
  "forward objs locs v = (case map_of (zip objs locs) v of Some b \<Rightarrow> b | None \<Rightarrow> v)"

definition reloc_wf :: "addr list \<Rightarrow> addr list \<Rightarrow> bool" where
  "reloc_wf objs locs =
     (length locs = length objs \<and> sorted_wrt (<) objs \<and> sorted_wrt (<) locs \<and> 0 \<notin> set objs \<and> 0 \<notin> set locs)"

lemma forward_nth: "reloc_wf objs locs \<Longrightarrow> i < length objs \<Longrightarrow> forward objs locs (objs ! i) = locs ! i"
  by (auto simp: forward_def reloc_wf_def strict_sorted_iff map_of_zip_nth)

lemma forward_other: "reloc_wf objs locs \<Longrightarrow> v \<notin> set objs \<Longrightarrow> forward objs locs v = v"
  by (auto simp: forward_def reloc_wf_def split: option.splits dest: map_of_SomeD set_zip_leftD)

lemma forward_mem: "reloc_wf objs locs \<Longrightarrow> v \<in> set objs \<Longrightarrow> (v, forward objs locs v) \<in> set (zip objs locs)"
  by (auto simp: in_set_conv_nth [of v] forward_nth reloc_wf_def set_zip)

lemma forward_less:
  assumes "reloc_wf objs locs" and "v \<in> set objs" and "w \<in> set objs"
  shows "forward objs locs v < forward objs locs w \<longleftrightarrow> v < w"
proof -
  obtain i j where ij: "i < length objs" "v = objs ! i" "j < length objs" "w = objs ! j"
    using assms(2,3) by (auto simp: in_set_conv_nth)
  have "xs ! i < xs ! j \<longleftrightarrow> i < j" if "sorted_wrt (<) xs" "length xs = length objs" for xs :: "nat list"
    using that ij by (metis linorder_neqE_nat not_less_iff_gr_or_eq sorted_wrt_iff_nth_less)
  then show ?thesis using assms(1) ij forward_nth [OF assms(1)] by (simp add: reloc_wf_def)
qed

lemma forward_zero [simp]:
  assumes "reloc_wf objs locs"
  shows "forward objs locs v = 0 \<longleftrightarrow> v = 0"
proof (cases "v \<in> set objs")
  case True
  then have "forward objs locs v \<in> set locs" using forward_mem [OF assms] set_zip_rightD by fast
  then show ?thesis using True assms by (auto simp: reloc_wf_def)
qed (simp add: forward_other [OF assms])

lemma search_forward:
  assumes "reloc_wf objs locs"
  shows "v \<in> set objs \<Longrightarrow> \<exists>i. binary_search_for_pointer v objs = Some (Some i) \<and> locs ! i = forward objs locs v"
    and "v \<notin> set objs \<Longrightarrow> binary_search_for_pointer v objs = Some None"
proof -
  have o: "sorted objs" "distinct objs" using assms by (auto simp: reloc_wf_def strict_sorted_iff)
  show "\<exists>i. binary_search_for_pointer v objs = Some (Some i) \<and> locs ! i = forward objs locs v" if "v \<in> set objs"
    using that search_some [OF o] forward_nth [OF assms] by (auto simp: in_set_conv_nth)
  show "v \<notin> set objs \<Longrightarrow> binary_search_for_pointer v objs = Some None" by (rule search_none [OF o(1)])
qed

lemma relocate_object_eq:
  assumes "reloc_wf objs locs"
  shows "relocate_object objs locs v = Some (v = 0 \<or> v \<in> set objs, forward objs locs v)"
  using search_forward [OF assms, of v] forward_other [OF assms, of v] assms
  by (cases "v \<in> set objs") (auto simp: relocate_object_def reloc_wf_def)

lemma relocate_slots_eq:
  assumes "reloc_wf objs locs" and "distinct ss"
  shows "relocate_slots objs locs ss vars = Some (\<lambda>s. if s \<in> set ss then forward objs locs (vars s) else vars s)"
  using assms(2)
proof (induction ss arbitrary: vars)
  case (Cons s ss)
  then show ?case by (auto simp: relocate_object_eq [OF assms(1)])
qed simp

text \<open>The object that relocation leaves: \<open>pending\<close> is the pending list it found.\<close>

definition dead_referent :: "gc_ctx \<Rightarrow> addr list \<Rightarrow> obj_header \<Rightarrow> bool" where
  "dead_referent g objs ob =
     (is_weak g ob \<and> oh_words ob (native_referent (gx_ptr g)) \<noteq> 0 \<and> oh_words ob (native_referent (gx_ptr g)) \<notin> set objs)"

definition enqueued :: "gc_ctx \<Rightarrow> addr list \<Rightarrow> obj_header \<Rightarrow> bool" where
  "enqueued g objs ob = (dead_referent g objs ob \<and> oh_words ob (native_discovered (gx_ptr g)) = 0)"

definition relocated_words :: "gc_ctx \<Rightarrow> addr list \<Rightarrow> addr list \<Rightarrow> obj_header \<Rightarrow> addr \<Rightarrow> nat \<Rightarrow> addr" where
  "relocated_words g objs locs ob pending s =
     (if dead_referent g objs ob \<and> s = native_referent (gx_ptr g) then 0
      else if enqueued g objs ob \<and> s = native_discovered (gx_ptr g) then pending
      else if s \<in> set (traced_slots g ob) \<or> is_weak g ob \<and> s = native_referent (gx_ptr g)
      then forward objs locs (oh_words ob s)
      else oh_words ob s)"

definition relocated :: "gc_ctx \<Rightarrow> addr list \<Rightarrow> addr list \<Rightarrow> addr \<Rightarrow> obj_header \<Rightarrow> obj_header" where
  "relocated g objs locs pending ob =
     ob\<lparr>oh_header := (case oh_header ob of Mark_data w \<Rightarrow> Mark_data w | Expanded_ptr e \<Rightarrow> Expanded_ptr (forward objs locs (e OR 1))),
        oh_words := relocated_words g objs locs ob pending\<rparr>"

lemma relocate_fields_eq:
  assumes wf: "reloc_wf objs locs" and ob: "object_wf g ob"
    and mon: "\<And>e. oh_header ob = Expanded_ptr e \<Longrightarrow> e OR 1 \<in> set objs"
  shows "relocate_fields g objs locs self ob pending =
    Some (relocated g objs locs pending ob, if enqueued g objs ob then self else pending)"
proof -
  let ?h = "case oh_header ob of Mark_data w \<Rightarrow> Mark_data w | Expanded_ptr e \<Rightarrow> Expanded_ptr (forward objs locs (e OR 1))"
  let ?ws = "\<lambda>s. if s \<in> set (traced_slots g ob) then forward objs locs (oh_words ob s) else oh_words ob s"
  let ?ob = "ob\<lparr>oh_header := ?h, oh_words := ?ws\<rparr>"
  have h: "relocate_header objs locs (oh_header ob) = Some ?h"
    using search_forward(1) [OF wf] mon by (auto simp: relocate_header_def split: obj_word.splits) (metis option.simps(5))
  have s: "relocate_slots objs locs (traced_slots g ob) (oh_words ob) = Some ?ws"
    by (rule relocate_slots_eq [OF wf]) (use ob in \<open>simp add: object_wf_def\<close>)
  have cl: "class_of g ?ob = class_of g ob" "is_reference g ?ob = is_reference g ob"
    by (simp_all add: class_of_def is_reference_def)
  show ?thesis
  proof (cases "is_weak g ob")
    case False
    then have "relocate_fields g objs locs self ob pending = Some (?ob, pending)"
      using cl by (auto simp: relocate_fields_def h s is_weak_def Let_def)
    moreover have "?ws = relocated_words g objs locs ob pending"
      using False by (auto simp: relocated_words_def dead_referent_def enqueued_def)
    ultimately show ?thesis using False by (simp add: relocated_def enqueued_def dead_referent_def)
  next
    case True
    then obtain slot slots where refs: "rc_instance_references (class_of g ob) = slot # slots"
      "unat slot = native_referent (gx_ptr g)" "slot \<notin> set slots" using ob by (auto simp: object_wf_def is_weak_def)
    have nt: "native_referent (gx_ptr g) \<notin> set (traced_slots g ob)"
      using True refs by (auto simp: traced_slots_def is_weak_def Let_def simp flip: refs(2)
        dest: word_unat_eq_iff [THEN iffD2])
    have "relocate_fields g objs locs self ob pending = relocate_referent g objs locs self ?ob pending"
      using True cl by (simp add: relocate_fields_def h s is_weak_def Let_def)
    moreover have "relocate_referent g objs locs self ?ob pending =
      Some (?ob\<lparr>oh_words := relocated_words g objs locs ob pending\<rparr>, if enqueued g objs ob then self else pending)"
    proof (cases "dead_referent g objs ob")
      case alive: False
      let ?r = "native_referent (gx_ptr g)"
      have "oh_words ob ?r = 0 \<or> oh_words ob ?r \<in> set objs" using alive True by (auto simp: dead_referent_def)
      moreover have "?ws(?r := forward objs locs (oh_words ob ?r)) = relocated_words g objs locs ob pending"
        using alive True by (auto simp: relocated_words_def enqueued_def)
      ultimately show ?thesis using alive nt refs(1,2) cl(1)
        by (simp add: relocate_referent_def relocate_object_eq [OF wf] enqueued_def)
    next
      case dead: True
      let ?r = "native_referent (gx_ptr g)" and ?d = "native_discovered (gx_ptr g)"
      have nd: "oh_words ob ?r \<noteq> 0" "oh_words ob ?r \<notin> set objs" "?d \<noteq> ?r"
        using dead by (auto simp: dead_referent_def native_discovered_def)
      have z: "?ws ?d = 0 \<longleftrightarrow> oh_words ob ?d = 0" using forward_zero [OF wf] by simp
      have q: "enqueued g objs ob \<longleftrightarrow> oh_words ob ?d = 0" using dead by (simp add: enqueued_def)
      have rw: "relocated_words g objs locs ob pending =
        (if enqueued g objs ob then (?ws(?r := 0))(?d := pending) else ?ws(?r := 0))"
        using dead nd(3) True by (auto simp: relocated_words_def fun_eq_iff)
      show ?thesis unfolding rw using nt refs(1,2) cl(1) nd z q
        by (cases "enqueued g objs ob") (simp_all add: relocate_referent_def relocate_object_eq [OF wf] Let_def)
    qed
    ultimately show ?thesis by (simp add: relocated_def)
  qed
qed

text \<open>The loop over all cells. The set \<open>P\<close> holds the values that the pending list can have.\<close>

definition reloc_ready :: "gc_ctx \<Rightarrow> addr list \<Rightarrow> memory \<Rightarrow> addr \<Rightarrow> bool" where
  "reloc_ready g objs m l =
     (\<exists>ob. read_object m l = Some ob \<and> object_wf g ob \<and> (\<forall>e. oh_header ob = Expanded_ptr e \<longrightarrow> e OR 1 \<in> set objs))"

definition reloc_done :: "gc_ctx \<Rightarrow> addr list \<Rightarrow> addr list \<Rightarrow> addr set \<Rightarrow> memory \<Rightarrow> memory \<Rightarrow> addr \<Rightarrow> addr \<Rightarrow> bool" where
  "reloc_done g objs locs P m m' x l =
     (if odd x then m' l = m l
      else \<exists>ob. \<exists>q \<in> P. read_object m l = Some ob \<and> m' l = Some (Object_cell (relocated g objs locs q ob)))"

lemma relocate_instance_fields_ok:
  assumes wf: "reloc_wf objs locs" and "distinct (map snd todo)" and "p \<in> P"
    and "\<And>x l. (x, l) \<in> set todo \<Longrightarrow> even x \<Longrightarrow> l \<in> P \<and> reloc_ready g objs m l"
  shows "\<exists>m' p'. relocate_instance_fields g objs locs todo (m, p) = Some (m', p') \<and> p' \<in> P \<and>
    (\<forall>a. a \<notin> snd ` set todo \<longrightarrow> m' a = m a) \<and> (\<forall>(x, l) \<in> set todo. reloc_done g objs locs P m m' x l)"
  using assms(2-4)
proof (induction todo arbitrary: m p)
  case (Cons xl todo)
  obtain x l where xl: "xl = (x, l)" by fastforce
  have nl: "l \<notin> snd ` set todo" "distinct (map snd todo)" using Cons.prems(1) xl by auto
  show ?case
  proof (cases "odd x")
    case True
    have pre: "l' \<in> P \<and> reloc_ready g objs m l'" if "(x', l') \<in> set todo" "even x'" for x' l'
      using Cons.prems(3) [of x' l'] that by simp
    obtain m' p' where m': "relocate_instance_fields g objs locs todo (m, p) = Some (m', p')" "p' \<in> P"
      "\<forall>a. a \<notin> snd ` set todo \<longrightarrow> m' a = m a" "\<forall>(x, l) \<in> set todo. reloc_done g objs locs P m m' x l"
      using Cons.IH [OF nl(2) Cons.prems(2), of m] pre by blast
    then show ?thesis using True xl nl(1) by (auto simp: reloc_done_def)
  next
    case False
    then obtain ob where ob: "read_object m l = Some ob" "object_wf g ob" "l \<in> P"
      "\<And>e. oh_header ob = Expanded_ptr e \<Longrightarrow> e OR 1 \<in> set objs"
      using Cons.prems(3) [of x l] xl by (auto simp: reloc_ready_def)
    let ?m = "m(l \<mapsto> Object_cell (relocated g objs locs p ob))" and ?p = "if enqueued g objs ob then l else p"
    have same: "read_object ?m l' = read_object m l'" "?m l' = m l'" if "(x', l') \<in> set todo" for x' l'
      using nl(1) that by (force simp: read_object_def)+
    have "l' \<in> P \<and> reloc_ready g objs ?m l'" if "(x', l') \<in> set todo" "even x'" for x' l'
      using Cons.prems(3) [of x' l'] that same by (simp add: reloc_ready_def)
    moreover have "?p \<in> P" using ob(3) Cons.prems(2) by simp
    ultimately obtain m' p' where m': "relocate_instance_fields g objs locs todo (?m, ?p) = Some (m', p')" "p' \<in> P"
      "\<And>a. a \<notin> snd ` set todo \<Longrightarrow> m' a = ?m a" "\<And>x l. (x, l) \<in> set todo \<Longrightarrow> reloc_done g objs locs P ?m m' x l"
      using Cons.IH [OF nl(2), of ?p ?m] by blast
    have run: "relocate_instance_fields g objs locs (xl # todo) (m, p) = Some (m', p')"
      using False xl ob(1) m'(1) relocate_fields_eq [OF wf ob(2,4)] by simp
    have "reloc_done g objs locs P m m' x l" using m'(3) [OF nl(1)] ob(1) False Cons.prems(2) by (auto simp: reloc_done_def)
    moreover have "reloc_done g objs locs P m m' x' l'" if "(x', l') \<in> set todo" for x' l'
      using m'(4) [OF that] unfolding reloc_done_def same [OF that] .
    ultimately have "\<forall>(x, l) \<in> set (xl # todo). reloc_done g objs locs P m m' x l" using xl by auto
    moreover have "\<forall>a. a \<notin> snd ` set (xl # todo) \<longrightarrow> m' a = m a" using m'(3) xl by auto
    ultimately show ?thesis using run m'(2) by blast
  qed
qed simp

section \<open>The whole collection\<close>

definition vm_wf :: "gc_ctx \<Rightarrow> nat list \<Rightarrow> gc_vm \<Rightarrow> bool" where
  "vm_wf g locations vm =
     (heap_wf g (gv_mem vm) \<and> 8 dvd gv_used vm \<and> gv_used vm \<le> gx_capacity g \<and>
      (\<forall>a c. gv_mem vm a = Some c \<longrightarrow> a + the (cell_size g c) \<le> gx_heap g + gv_used vm) \<and>
      (\<forall>l \<in> set locations. is_target g (gv_vars vm l) \<longrightarrow> read_object (gv_mem vm) (gv_vars vm l) \<noteq> None))"

definition root_set :: "gc_ctx \<Rightarrow> nat list \<Rightarrow> gc_vm \<Rightarrow> addr set" where
  "root_set g locations vm = {gv_vars vm l | l. l \<in> set locations \<and> is_target g (gv_vars vm l)}"

abbreviation live_in :: "gc_ctx \<Rightarrow> nat list \<Rightarrow> gc_vm \<Rightarrow> addr \<Rightarrow> bool" where
  "live_in g locations vm \<equiv> live g (gv_mem vm) (root_set g locations vm)"

text \<open>The facts about the sorted list of entries on which the later phases rest.\<close>

lemma sorted_entries:
  assumes wf: "heap_wf g m0" and fin: "\<forall>a \<in> set finished. read_object m0 a \<noteq> None" "distinct finished"
    and objs: "objs = sort (entries_of m0 finished)"
  shows "sorted_wrt (<) objs" "\<forall>x \<in> set objs. entry_ok m0 x" "\<forall>x \<in> set objs. even x \<longleftrightarrow> x \<in> set finished"
    "erase m = m0 \<Longrightarrow> copy_inv g m0 objs (gx_heap g) m"
    "\<And>a e. a \<in> set finished \<Longrightarrow> expands m0 a e \<Longrightarrow> e OR 1 = e + 1 \<and> e + 1 \<in> set objs"
proof -
  have set_objs: "set objs = set finished \<union> {x. odd x \<and> (\<exists>a \<in> set finished. expands m0 a (x - 1))}"
    using entries_of_set [OF wf fin(1)] objs by simp
  have ev: "even a" if "a \<in> set finished" for a
    using that fin(1) cell_aligned [OF wf] by (metis dvd_trans even_numeral not_None_eq read_object_Some)
  show s: "sorted_wrt (<) objs" using entries_of_distinct [OF wf fin] objs by (simp add: strict_sorted_iff)
  show ok: "\<forall>x \<in> set objs. entry_ok m0 x"
    using set_objs fin(1) ev expands_monitor [OF wf] by (fastforce simp: entry_ok_def)
  show par: "\<forall>x \<in> set objs. even x \<longleftrightarrow> x \<in> set finished" using set_objs ev by auto
  show mon: "e OR 1 = e + 1 \<and> e + 1 \<in> set objs" if "a \<in> set finished" "expands m0 a e" for a e
  proof -
    have "8 dvd e" using expands_monitor [OF wf that(2)] cell_aligned [OF wf] by blast
    then have "e OR 1 = e + 1" "even e" by (rule or_one_even) (metis \<open>8 dvd e\<close> dvd_trans even_numeral)
    then show ?thesis using set_objs that by auto
  qed
  show "copy_inv g m0 objs (gx_heap g) m" if "erase m = m0"
  proof -
    have "gx_heap g \<le> untag x" if "x \<in> set objs" for x
      using entry_above [OF wf] ok that by blast
    moreover have "8 dvd gx_heap g" using wf by (simp add: heap_wf_def layout_wf_def)
    moreover have "e + 1 \<in> set objs" if "x \<in> set objs" "expands m0 x e" for x e
    proof -
      have "8 dvd x" using that(2) cell_aligned [OF wf] by (auto simp: expands_def read_object_Some)
      then have "even x" by (meson dvd_trans even_numeral)
      then show ?thesis using par that mon by blast
    qed
    moreover have "\<forall>x \<in> set objs. odd x \<longrightarrow> (\<exists>a \<in> set objs. expands m0 a (x - 1))"
      using set_objs ev by auto
    ultimately show ?thesis unfolding copy_inv_def using s ok that by blast
  qed
qed

lemma entries_in_heap:
  assumes "heap_wf g m" and "entry_ok m x"
  shows "in_heap g x" "x \<noteq> 0"
proof -
  obtain c where c: "cell_placed g (untag x) c" "8 dvd size_at g m x" "0 < size_at g m x"
    "untag x + size_at g m x \<le> gx_heap g + gx_capacity g" using entry_cell [OF assms] by metis
  have "gx_heap g \<le> untag x" "0 < gx_heap g" using c(1) assms(1) by (auto simp: cell_placed_def heap_wf_def layout_wf_def)
  moreover have "8 \<le> size_at g m x" using c(2,3) by (simp add: dvd_imp_le)
  ultimately show "in_heap g x" "x \<noteq> 0" using c(4) mod_less_divisor [of 2 x] unfolding in_heap_def by linarith+
qed

lemma placement_reloc_wf:
  assumes wf: "heap_wf g m" and "sorted_wrt (<) objs" and ok: "\<forall>x \<in> set objs. entry_ok m x"
  shows "reloc_wf objs (placement g m (gx_heap g) objs)"
proof -
  let ?L = "placement g m (gx_heap g) objs"
  have pos: "0 < size_at g m x" if "x \<in> set objs" for x using entry_size [OF wf] ok that by simp
  have "?L ! i < ?L ! j" if "i < j" "j < length objs" for i j
    using placement_order [OF that, of g m "gx_heap g"] pos [of "objs ! i"] that by simp
  then have "sorted_wrt (<) ?L" by (simp add: sorted_wrt_iff_nth_less)
  moreover have "0 < gx_heap g" using wf by (simp add: heap_wf_def layout_wf_def)
  then have "0 \<notin> set ?L" using placement_below(2) [of _ objs "gx_heap g" g m] by (fastforce simp: in_set_conv_nth)
  moreover have "0 \<notin> set objs" using entries_in_heap(2) [OF wf] ok by blast
  ultimately show ?thesis using assms(2) by (simp add: reloc_wf_def)
qed

text \<open>What a collection returns, in terms of the entries \<open>objs\<close>, their new addresses \<open>locs\<close> and the set \<open>P\<close> of
  values of the pending list.\<close>

definition gc_result :: "gc_ctx \<Rightarrow> nat list \<Rightarrow> gc_vm \<Rightarrow> gc_vm \<Rightarrow> addr list \<Rightarrow> addr list \<Rightarrow> addr set \<Rightarrow> bool" where
  "gc_result g locations vm vm' objs locs P =
     (sorted_wrt (<) objs \<and> (\<forall>x \<in> set objs. entry_ok (gv_mem vm) x) \<and> reloc_wf objs locs \<and>
      (\<forall>x. x \<in> set objs \<and> even x \<longleftrightarrow> live_in g locations vm x) \<and>
      (\<forall>a e. live_in g locations vm a \<and> expands (gv_mem vm) a e \<longrightarrow> e OR 1 = e + 1 \<and> e + 1 \<in> set objs) \<and>
      locs = placement g (gv_mem vm) (gx_heap g) objs \<and>
      gx_heap g + gv_used vm' = placement_end g (gv_mem vm) (gx_heap g) objs \<and>
      dom (gv_mem vm') = set locs \<and>
      P = insert (forward objs locs (gv_vars vm (gx_pending g))) {forward objs locs a | a. live_in g locations vm a} \<and>
      (\<forall>(x, l) \<in> set (zip objs locs).
         if odd x then gv_mem vm' l = gv_mem vm (x - 1)
         else \<exists>ob. \<exists>q \<in> P. read_object (gv_mem vm) x = Some ob \<and>
                gv_mem vm' l = Some (Object_cell (relocated g objs locs q ob))) \<and>
      gv_vars vm' (gx_pending g) \<in> P \<and>
      (\<forall>l. l \<noteq> gx_pending g \<longrightarrow>
         gv_vars vm' l = (if l \<in> set locations then forward objs locs (gv_vars vm l) else gv_vars vm l)))"

text \<open>The memory after the copying phase, when the marks have been set by the mark phase.\<close>

definition gc_copied ::
    "gc_ctx \<Rightarrow> nat list \<Rightarrow> gc_vm \<Rightarrow> addr list \<Rightarrow> memory \<Rightarrow> bool" where
  "gc_copied g locations vm objs m2 =
     (sorted_wrt (<) objs \<and> (\<forall>x \<in> set objs. entry_ok (gv_mem vm) x) \<and>
      (\<forall>x. x \<in> set objs \<and> even x \<longleftrightarrow> live_in g locations vm x) \<and>
      (\<forall>a e. live_in g locations vm a \<and> expands (gv_mem vm) a e \<longrightarrow> e OR 1 = e + 1 \<and> e + 1 \<in> set objs) \<and>
      (\<forall>(x, l) \<in> set (zip objs (placement g (gv_mem vm) (gx_heap g) objs)). m2 l = gv_mem vm (untag x)) \<and>
      (\<forall>a c. m2 a = Some c \<and> a < placement_end g (gv_mem vm) (gx_heap g) objs \<longrightarrow>
         a \<in> set (placement g (gv_mem vm) (gx_heap g) objs)))"

lemma live_object:
  assumes "vm_wf g locations vm" and "live_in g locations vm a"
  shows "read_object (gv_mem vm) a \<noteq> None"
  using assms(2) by cases (use assms(1) in \<open>auto simp: root_set_def vm_wf_def heap_wf_def\<close>)

lemma gc_mark_copy:
  assumes vm: "vm_wf g locations vm"
  shows "\<exists>m1 wl m objs m2. mark_roots g (map (gv_vars vm) (push_roots g (gv_vars vm) locations)) (gv_mem vm, []) = Some (m1, wl) \<and>
    mark_loop g m1 [] wl = Some (m, objs) \<and>
    copy_loop g (sort objs) (gx_heap g) m =
      Some (placement g (gv_mem vm) (gx_heap g) (sort objs), placement_end g (gv_mem vm) (gx_heap g) (sort objs), m2) \<and>
    gc_copied g locations vm (sort objs) m2"
proof -
  let ?m0 = "gv_mem vm" and ?roots = "push_roots g (gv_vars vm) locations" and ?w = "gx_heap g"
  have wf: "heap_wf g ?m0" using vm by (simp add: vm_wf_def)
  have rs: "set (map (gv_vars vm) ?roots) = root_set g locations vm"
    by (auto simp: push_roots_def root_set_def is_target_def)
  have "\<forall>v \<in> set (map (gv_vars vm) ?roots). is_target g v \<and> read_object ?m0 v \<noteq> None"
    using vm unfolding rs by (auto simp: root_set_def vm_wf_def)
  then obtain m1 wl m finished where mark: "mark_roots g (map (gv_vars vm) ?roots) (?m0, []) = Some (m1, wl)"
    "mark_loop g m1 [] wl = Some (m, entries_of ?m0 finished)" "erase m = ?m0" "distinct finished"
    "set finished = {a. live_in g locations vm a}" using mark_phase [OF wf] rs by metis
  have fin: "\<forall>a \<in> set finished. read_object ?m0 a \<noteq> None" using live_object [OF vm] mark(5) by blast
  let ?objs = "sort (entries_of ?m0 finished)"
  note ents = sorted_entries [OF wf fin mark(4) refl]
  let ?L = "placement g ?m0 ?w ?objs" and ?stop = "placement_end g ?m0 ?w ?objs"
  obtain m2 where m2: "copy_loop g ?objs ?w m = Some (?L, ?stop, m2)"
    "\<forall>(x, l) \<in> set (zip ?objs ?L). m2 l = ?m0 (untag x)"
    "\<And>a c. m2 a = Some c \<Longrightarrow> a < ?stop \<Longrightarrow> a \<in> set ?L \<or> a < ?w \<and> m a = Some c"
    using copy_loop_ok [OF wf ents(4) [OF mark(3)]] by blast
  have "\<not> a < ?w" if "m a = Some c" for a c
  proof -
    have "?m0 a = Some (unmark c)" using that mark(3) erase_apply [of m a] by simp
    then have "cell_placed g a (unmark c)" by (rule cell_placed_heap [OF wf])
    then show ?thesis by (simp add: cell_placed_def)
  qed
  moreover have "x \<in> set ?objs" if "x \<in> set finished" for x
    using entries_of_set [OF wf fin] that by simp
  ultimately have "gc_copied g locations vm ?objs m2"
    using m2(2,3) ents(1,2,3,5) mark(5) unfolding gc_copied_def by blast
  then show ?thesis using mark(1,2) m2(1) by blast
qed

lemma gc_relocate:
  assumes vm: "vm_wf g locations vm" and "distinct locations" and pend: "gx_pending g \<in> set locations"
    and cp: "gc_copied g locations vm objs m2" and L: "L = placement g (gv_mem vm) (gx_heap g) objs"
    and P: "P = insert (forward objs L (gv_vars vm (gx_pending g))) {forward objs L a | a. live_in g locations vm a}"
  shows "\<exists>vars m3 p. relocate_slots objs L (push_roots g (gv_vars vm) locations) (gv_vars vm) = Some vars \<and>
    (\<forall>l. vars l = (if l \<in> set locations then forward objs L (gv_vars vm l) else gv_vars vm l)) \<and>
    relocate_instance_fields g objs L (zip objs L) (m2, vars (gx_pending g)) = Some (m3, p) \<and> p \<in> P \<and>
    (\<forall>a. a \<notin> set L \<longrightarrow> m3 a = m2 a) \<and> (\<forall>(x, l) \<in> set (zip objs L). reloc_done g objs L P m2 m3 x l)"
proof -
  let ?roots = "push_roots g (gv_vars vm) locations"
  have wf: "heap_wf g (gv_mem vm)" using vm by (simp add: vm_wf_def)
  have rw: "reloc_wf objs L" unfolding L by (rule placement_reloc_wf [OF wf]) (use cp in \<open>auto simp: gc_copied_def\<close>)
  define vars where "vars = (\<lambda>l. if l \<in> set ?roots then forward objs L (gv_vars vm l) else gv_vars vm l)"
  have slots: "relocate_slots objs L ?roots (gv_vars vm) = Some vars"
    unfolding vars_def by (rule relocate_slots_eq [OF rw]) (use assms(2) in \<open>simp add: push_roots_def\<close>)
  have "in_heap g x \<and> x \<noteq> 0" if "x \<in> set objs" for x
    using entries_in_heap [OF wf] cp that by (simp add: gc_copied_def)
  then have "gv_vars vm l \<notin> set objs" if "l \<in> set locations" "l \<notin> set ?roots" for l
    using that unfolding push_roots_def by fastforce
  then have vars: "vars l = (if l \<in> set locations then forward objs L (gv_vars vm l) else gv_vars vm l)" for l
    using forward_other [OF rw] by (auto simp: vars_def push_roots_def)
  have ready: "l \<in> P \<and> reloc_ready g objs m2 l" if xl: "(x, l) \<in> set (zip objs L)" and "even x" for x l
  proof -
    have x: "x \<in> set objs" "l = forward objs L x" "m2 l = gv_mem vm x"
      using xl forward_nth [OF rw] cp \<open>even x\<close> L by (auto simp: set_zip gc_copied_def)
    then have live: "live_in g locations vm x" using cp \<open>even x\<close> by (auto simp: gc_copied_def)
    then obtain ob where ob: "read_object (gv_mem vm) x = Some ob" using live_object [OF vm] by blast
    then have "read_object m2 l = Some ob" using x(3) by (simp add: read_object_Some)
    moreover have "e OR 1 \<in> set objs" if "oh_header ob = Expanded_ptr e" for e
    proof -
      have "expands (gv_mem vm) x e" using ob that by (simp add: expands_def)
      then have "e OR 1 = e + 1 \<and> e + 1 \<in> set objs" using cp live unfolding gc_copied_def by blast
      then show ?thesis by simp
    qed
    moreover have "object_wf g ob" using wf ob by (auto simp: heap_wf_def)
    ultimately show ?thesis using x(2) live by (auto simp: reloc_ready_def P)
  qed
  have snd: "snd ` set (zip objs L) = set L" using rw by (metis map_snd_zip reloc_wf_def set_map)
  have "distinct (map snd (zip objs L))" using rw by (simp add: reloc_wf_def strict_sorted_iff)
  moreover have "vars (gx_pending g) \<in> P" using vars pend by (simp add: P)
  ultimately show ?thesis
    using relocate_instance_fields_ok [OF rw, of "zip objs L" "vars (gx_pending g)" P g m2] ready slots vars
    unfolding snd by blast
qed

lemma gc_run:
  assumes vm: "vm_wf g locations vm" and "distinct locations" and "gx_pending g \<in> set locations"
  shows "\<exists>vm' objs locs P. major_gc g locations vm = Some vm' \<and> gc_result g locations vm vm' objs locs P"
proof -
  let ?m0 = "gv_mem vm" and ?w = "gx_heap g"
  have wf: "heap_wf g ?m0" using vm by (simp add: vm_wf_def)
  obtain m1 wl m ents m2 where run: "mark_roots g (map (gv_vars vm) (push_roots g (gv_vars vm) locations)) (?m0, []) = Some (m1, wl)"
    "mark_loop g m1 [] wl = Some (m, ents)"
    "copy_loop g (sort ents) ?w m = Some (placement g ?m0 ?w (sort ents), placement_end g ?m0 ?w (sort ents), m2)"
    "gc_copied g locations vm (sort ents) m2"
    using gc_mark_copy [OF vm] by blast
  define objs where "objs = sort ents"
  define L where "L = placement g ?m0 ?w objs"
  let ?stop = "placement_end g ?m0 ?w objs"
  define P where "P = insert (forward objs L (gv_vars vm (gx_pending g))) {forward objs L a | a. live_in g locations vm a}"
  note cp = run(4) [folded objs_def]
  obtain vars m3 p where rel: "relocate_slots objs L (push_roots g (gv_vars vm) locations) (gv_vars vm) = Some vars"
    "\<And>l. vars l = (if l \<in> set locations then forward objs L (gv_vars vm l) else gv_vars vm l)"
    "relocate_instance_fields g objs L (zip objs L) (m2, vars (gx_pending g)) = Some (m3, p)" "p \<in> P"
    "\<And>a. a \<notin> set L \<Longrightarrow> m3 a = m2 a" "\<And>x l. (x, l) \<in> set (zip objs L) \<Longrightarrow> reloc_done g objs L P m2 m3 x l"
    using gc_relocate [OF vm assms(2,3) cp L_def P_def] by blast
  have rw: "reloc_wf objs L" unfolding L_def by (rule placement_reloc_wf [OF wf]) (use cp in \<open>auto simp: gc_copied_def\<close>)
  have sz: "0 < size_at g ?m0 x \<and> 8 dvd size_at g ?m0 x" if "x \<in> set objs" for x
    using entry_size [OF wf] cp that by (simp add: gc_copied_def)
  have al: "8 dvd ?w" "8 dvd ?stop" using wf placement_aligned(1) [of ?w objs g ?m0] sz
    by (auto simp: heap_wf_def layout_wf_def)
  have "?w \<le> ?stop" by (simp add: placement_end_def)
  then have used: "?w + align_addr (?stop - ?w) = ?stop" using al by (simp add: align_addr_id dvd_diff_nat)
  let ?vm' = "\<lparr>gv_mem = m3 |` {..<?stop}, gv_vars = vars(gx_pending g := p), gv_used = align_addr (?stop - ?w)\<rparr>"
  have "major_gc g locations vm = Some ?vm'"
    using run(1,2,3) rel(1,3) used by (simp add: major_gc_def quicksort_pointers_sort L_def objs_def)
  moreover have below: "l < ?stop" if "l \<in> set L" for l
    using that placement_below(1) [of _ objs g ?m0 ?w] sz unfolding L_def by (fastforce simp: in_set_conv_nth)
  have cells: "m2 l = ?m0 (untag x)" "(m3 |` {..<?stop}) l = m3 l" "m2 l \<noteq> None" if xl: "(x, l) \<in> set (zip objs L)" for x l
  proof -
    show m2: "m2 l = ?m0 (untag x)" using cp xl unfolding gc_copied_def L_def by blast
    show "(m3 |` {..<?stop}) l = m3 l" using below set_zip_rightD [OF xl] by simp
    have "entry_ok ?m0 x" using cp set_zip_leftD [OF xl] by (simp add: gc_copied_def)
    then show "m2 l \<noteq> None" using m2 entry_cell [OF wf] by (metis option.distinct(1))
  qed
  have moved: "if odd x then (m3 |` {..<?stop}) l = ?m0 (x - 1)
    else \<exists>ob. \<exists>q \<in> P. read_object ?m0 x = Some ob \<and> (m3 |` {..<?stop}) l = Some (Object_cell (relocated g objs L q ob))"
    if xl: "(x, l) \<in> set (zip objs L)" for x l
    using rel(6) [OF xl] unfolding cells(2) [OF xl] reloc_done_def
    using cells(1) [OF xl] by (cases "odd x") (auto simp: odd_iff_mod_2_eq_one read_object_def)
  have dom: "dom (m3 |` {..<?stop}) = set L"
  proof (intro equalityI subsetI)
    fix a assume "a \<in> dom (m3 |` {..<?stop})"
    then obtain c where "m3 a = Some c" "a < ?stop" by (auto simp: restrict_map_def split: if_splits)
    then show "a \<in> set L" using rel(5) [of a] cp unfolding gc_copied_def L_def by metis
  next
    fix l assume "l \<in> set L"
    then obtain x where xl: "(x, l) \<in> set (zip objs L)" using rw by (metis in_set_impl_in_set_zip2 reloc_wf_def)
    then show "l \<in> dom (m3 |` {..<?stop})"
      using moved [OF xl] cells [OF xl] below \<open>l \<in> set L\<close> by (auto split: if_splits simp: odd_iff_mod_2_eq_one)
  qed
  have "gc_result g locations vm ?vm' objs L P"
  proof -
    have "\<forall>l. l \<noteq> gx_pending g \<longrightarrow> (vars(gx_pending g := p)) l =
      (if l \<in> set locations then forward objs L (gv_vars vm l) else gv_vars vm l)" using rel(2) by simp
    moreover have "(vars(gx_pending g := p)) (gx_pending g) \<in> P" using rel(4) by simp
    moreover have "\<forall>(x, l) \<in> set (zip objs L). if odd x then (m3 |` {..<?stop}) l = ?m0 (x - 1)
      else \<exists>ob. \<exists>q \<in> P. read_object ?m0 x = Some ob \<and> (m3 |` {..<?stop}) l = Some (Object_cell (relocated g objs L q ob))"
      using moved by blast
    ultimately show ?thesis
      unfolding gc_result_def gc_vm.select_convs using cp [unfolded gc_copied_def] rw used dom L_def P_def by blast
  qed
  ultimately show ?thesis by blast
qed

section \<open>The heap after a collection\<close>

lemma placement_le:
  assumes wf: "heap_wf g m" and "sorted_wrt (<) xs" and "\<forall>x \<in> set xs. entry_ok m x" and "\<forall>x \<in> set xs. w \<le> untag x"
    and "w \<le> gx_heap g + gx_capacity g"
  shows "placement_end g m w xs \<le> gx_heap g + gx_capacity g \<and> (\<forall>i < length xs. placement g m w xs ! i \<le> untag (xs ! i))"
  using assms(2-5)
proof (induction xs arbitrary: w)
  case (Cons x xs)
  let ?w = "w + size_at g m x"
  have ok: "entry_ok m x" "w \<le> untag x" using Cons.prems by auto
  have "?w \<le> untag y" if "y \<in> set xs" for y
    using entry_order [OF wf ok(1), of y] Cons.prems ok(2) that by fastforce
  moreover have "?w \<le> gx_heap g + gx_capacity g"
    by (rule entry_cell [OF wf ok(1)]) (use ok(2) in linarith)
  ultimately have "placement_end g m ?w xs \<le> gx_heap g + gx_capacity g"
    "\<forall>j < length xs. placement g m ?w xs ! j \<le> untag (xs ! j)" using Cons.IH [of ?w] Cons.prems by auto
  then show ?case using ok(2) by (auto simp: placement_end_def nth_Cons')
qed (simp add: placement_end_def)

lemma relocated_simps [simp]:
  "oh_class (relocated g objs locs q ob) = oh_class ob" "oh_length (relocated g objs locs q ob) = oh_length ob"
  "oh_words (relocated g objs locs q ob) = relocated_words g objs locs ob q"
  "class_of g (relocated g objs locs q ob) = class_of g ob" "is_weak g (relocated g objs locs q ob) = is_weak g ob"
  "traced_slots g (relocated g objs locs q ob) = traced_slots g ob"
  "size_of_object g (relocated g objs locs q ob) = size_of_object g ob"
  "object_wf g (relocated g objs locs q ob) = object_wf g ob"
  by (simp_all add: relocated_def class_of_def is_weak_def is_reference_def traced_slots_def size_of_object_def object_wf_def
    Let_def)

text \<open>Every cell of the new heap comes from an entry.\<close>

lemma gc_result_cells:
  assumes vm: "vm_wf g locations vm" and R: "gc_result g locations vm vm' objs locs P"
  shows "live_in g locations vm a \<Longrightarrow> read_object (gv_mem vm) a = Some ob \<Longrightarrow>
      \<exists>q \<in> P. gv_mem vm' (forward objs locs a) = Some (Object_cell (relocated g objs locs q ob))"
    and "live_in g locations vm a \<Longrightarrow> expands (gv_mem vm) a e \<Longrightarrow> gv_mem vm' (forward objs locs (e OR 1)) = gv_mem vm e"
    and "gv_mem vm' l = Some c \<Longrightarrow> \<exists>i < length objs. l = locs ! i \<and> cell_size g c = Some (size_at g (gv_mem vm) (objs ! i))"
    and "read_object (gv_mem vm') l = Some ob' \<Longrightarrow> \<exists>a ob. \<exists>q \<in> P. live_in g locations vm a \<and> l = forward objs locs a \<and>
      read_object (gv_mem vm) a = Some ob \<and> ob' = relocated g objs locs q ob"
    and "gv_mem vm' l = Some (Monitor_cell d) \<Longrightarrow> \<exists>e. gv_mem vm e = Some (Monitor_cell d)"
proof -
  have wf: "heap_wf g (gv_mem vm)" using vm by (simp add: vm_wf_def)
  have rw: "reloc_wf objs locs" and ok: "\<And>x. x \<in> set objs \<Longrightarrow> entry_ok (gv_mem vm) x"
    and live: "\<And>x. x \<in> set objs \<and> even x \<longleftrightarrow> live_in g locations vm x" and dom: "dom (gv_mem vm') = set locs"
    and cells: "\<And>x l. (x, l) \<in> set (zip objs locs) \<Longrightarrow> if odd x then gv_mem vm' l = gv_mem vm (x - 1)
         else \<exists>ob. \<exists>q \<in> P. read_object (gv_mem vm) x = Some ob \<and>
                gv_mem vm' l = Some (Object_cell (relocated g objs locs q ob))"
    using R unfolding gc_result_def by blast+
  show "\<exists>q \<in> P. gv_mem vm' (forward objs locs a) = Some (Object_cell (relocated g objs locs q ob))"
    if "live_in g locations vm a" "read_object (gv_mem vm) a = Some ob"
  proof -
    have a: "a \<in> set objs" "even a" using live [of a] that(1) by auto
    show ?thesis using cells [OF forward_mem [OF rw a(1)]] a(2) that(2) by simp
  qed
  show "gv_mem vm' (forward objs locs (e OR 1)) = gv_mem vm e" if "live_in g locations vm a" "expands (gv_mem vm) a e"
  proof -
    have e: "e OR 1 = e + 1" "e + 1 \<in> set objs" using R that unfolding gc_result_def by blast+
    have "even e" using expands_monitor [OF wf that(2)] cell_aligned [OF wf] by (meson dvd_trans even_numeral)
    then show ?thesis using cells [OF forward_mem [OF rw e(2)]] e(1) by simp
  qed
  have src: "\<exists>i < length objs. l = locs ! i \<and> (objs ! i, l) \<in> set (zip objs locs)" if "gv_mem vm' l = Some c" for l c
  proof -
    have len: "length locs = length objs" using rw by (simp add: reloc_wf_def)
    have "l \<in> set locs" using that dom by blast
    then obtain i where "i < length objs" "l = locs ! i" using len by (auto simp: in_set_conv_nth)
    then show ?thesis using len by (auto simp: set_zip)
  qed
  show "\<exists>i < length objs. l = locs ! i \<and> cell_size g c = Some (size_at g (gv_mem vm) (objs ! i))"
    if l: "gv_mem vm' l = Some c"
  proof -
    obtain i where i: "i < length objs" "l = locs ! i" "(objs ! i, l) \<in> set (zip objs locs)" using src [OF l] by blast
    obtain c0 where c0: "gv_mem vm (untag (objs ! i)) = Some c0" "cell_size g c0 = Some (size_at g (gv_mem vm) (objs ! i))"
      using entry_cell [OF wf ok [OF nth_mem [OF i(1)]]] by blast
    have "cell_size g c = cell_size g c0" using cells [OF i(3)] l c0(1)
      by (auto simp: cell_size_def read_object_Some odd_iff_mod_2_eq_one split: if_splits)
    then show ?thesis using i c0(2) by auto
  qed
  show "\<exists>e. gv_mem vm e = Some (Monitor_cell d)" if l: "gv_mem vm' l = Some (Monitor_cell d)"
  proof -
    obtain i where "(objs ! i, l) \<in> set (zip objs locs)" using src [OF l] by blast
    then show ?thesis using cells [of "objs ! i" l] l by (auto split: if_splits)
  qed
  show "\<exists>a ob. \<exists>q \<in> P. live_in g locations vm a \<and> l = forward objs locs a \<and>
      read_object (gv_mem vm) a = Some ob \<and> ob' = relocated g objs locs q ob" if "read_object (gv_mem vm') l = Some ob'"
  proof -
    have l: "gv_mem vm' l = Some (Object_cell ob')" using that by (simp add: read_object_Some)
    obtain i where i: "i < length objs" "l = locs ! i" "(objs ! i, l) \<in> set (zip objs locs)" using src [OF l] by blast
    have "even (objs ! i)"
      using cells [OF i(3)] l ok [OF nth_mem [OF i(1)]] by (auto simp: entry_ok_def split: if_splits)
    then have "live_in g locations vm (objs ! i)" using live i(1) by force
    then show ?thesis using cells [OF i(3)] \<open>even (objs ! i)\<close> l i(1,2) forward_nth [OF rw i(1)]
      by (intro exI [of _ "objs ! i"]) auto
  qed
qed

lemma gc_layout:
  assumes vm: "vm_wf g locations vm" and R: "gc_result g locations vm vm' objs locs P"
  shows "layout_wf g (gv_mem vm')" "8 dvd gv_used vm'" "gv_used vm' \<le> gx_capacity g"
    "gv_mem vm' a = Some c \<Longrightarrow> a + the (cell_size g c) \<le> gx_heap g + gv_used vm'"
    "i < length objs \<Longrightarrow> locs ! i \<le> untag (objs ! i)"
proof -
  let ?m = "gv_mem vm" and ?w = "gx_heap g"
  have wf: "heap_wf g ?m" using vm by (simp add: vm_wf_def)
  have objs: "sorted_wrt (<) objs" "\<forall>x \<in> set objs. entry_ok ?m x" and rw: "reloc_wf objs locs"
    and locs: "locs = placement g ?m ?w objs" and used: "?w + gv_used vm' = placement_end g ?m ?w objs"
    and dom: "dom (gv_mem vm') = set locs"
    using R unfolding gc_result_def by blast+
  have w: "0 < ?w" "8 dvd ?w" using wf by (auto simp: heap_wf_def layout_wf_def)
  have "?w \<le> untag x" if "x \<in> set objs" for x using entry_above [OF wf] objs(2) that by blast
  then have le: "placement_end g ?m ?w objs \<le> ?w + gx_capacity g" "\<And>i. i < length objs \<Longrightarrow> locs ! i \<le> untag (objs ! i)"
    using placement_le [OF wf objs, of ?w] locs by auto
  have al: "8 dvd placement_end g ?m ?w objs" "\<And>i. i < length objs \<Longrightarrow> 8 dvd locs ! i"
    using placement_aligned [OF w(2), of objs g ?m] entry_size [OF wf] objs(2) locs by auto
  show u: "8 dvd gv_used vm'" using al(1) w(2) used by (metis dvd_add_right_iff)
  show "gv_used vm' \<le> gx_capacity g" using le(1) used by linarith
  show "i < length objs \<Longrightarrow> locs ! i \<le> untag (objs ! i)" by (rule le(2))
  have below: "a + the (cell_size g c) \<le> ?w + gv_used vm'" "cell_placed g a c" if a: "gv_mem vm' a = Some c" for a c
  proof -
    obtain i where i: "i < length objs" "a = locs ! i" "cell_size g c = Some (size_at g ?m (objs ! i))"
      using gc_result_cells(3) [OF vm R a] by blast
    show "a + the (cell_size g c) \<le> ?w + gv_used vm'" using placement_below(1) [OF i(1), of g ?m ?w] i locs used by simp
    then show "cell_placed g a c"
      using i al(2) le(1) used placement_below(2) [OF i(1), of ?w g ?m] locs entry_size [OF wf, of "objs ! i"] objs(2)
      by (simp add: cell_placed_def)
  qed
  then show "gv_mem vm' a = Some c \<Longrightarrow> a + the (cell_size g c) \<le> ?w + gv_used vm'" by blast
  have "a + the (cell_size g c) \<le> b" if a: "gv_mem vm' a = Some c" and b: "b \<in> dom (gv_mem vm')" and "a < b" for a b c
  proof -
    obtain i where i: "i < length objs" "a = locs ! i" "cell_size g c = Some (size_at g ?m (objs ! i))"
      using gc_result_cells(3) [OF vm R a] by blast
    obtain j where j: "j < length objs" "b = locs ! j" using b gc_result_cells(3) [OF vm R] by blast
    have "i < j" using \<open>a < b\<close> i j rw
      by (metis linorder_neqE_nat not_less_iff_gr_or_eq reloc_wf_def sorted_wrt_iff_nth_less)
    then show ?thesis using placement_order [OF _ j(1), of i g ?m ?w] i j(2) locs by simp
  qed
  then show "layout_wf g (gv_mem vm')" using w below(2) dom unfolding layout_wf_def by (metis List.finite_set)
qed

lemma gc_target:
  assumes vm: "vm_wf g locations vm" and R: "gc_result g locations vm vm' objs locs P"
  shows "live_in g locations vm v \<Longrightarrow> read_object (gv_mem vm') (forward objs locs v) \<noteq> None"
    and "\<not> is_target g v \<Longrightarrow> forward objs locs v = v"
proof -
  have wf: "heap_wf g (gv_mem vm)" using vm by (simp add: vm_wf_def)
  show "read_object (gv_mem vm') (forward objs locs v) \<noteq> None" if "live_in g locations vm v"
    using gc_result_cells(1) [OF vm R that] live_object [OF vm that] by (fastforce simp: read_object_Some)
  have "reloc_wf objs locs" "\<forall>x \<in> set objs. entry_ok (gv_mem vm) x" using R unfolding gc_result_def by blast+
  then show "\<not> is_target g v \<Longrightarrow> forward objs locs v = v"
    using entries_in_heap [OF wf, of v] forward_other [of objs locs v] by (auto simp: is_target_def)
qed

lemma gc_monitors:
  assumes vm: "vm_wf g locations vm" and R: "gc_result g locations vm vm' objs locs P"
  shows "monitors_wf (gv_mem vm')"
proof -
  have wf: "heap_wf g (gv_mem vm)" using vm by (simp add: vm_wf_def)
  have rw: "reloc_wf objs locs" and live: "\<And>x. x \<in> set objs \<and> even x \<longleftrightarrow> live_in g locations vm x"
    and ent: "\<And>a e. live_in g locations vm a \<Longrightarrow> expands (gv_mem vm) a e \<Longrightarrow> e OR 1 = e + 1 \<and> e + 1 \<in> set objs"
    using R unfolding gc_result_def by blast+
  have src: "\<exists>a e0. live_in g locations vm a \<and> l = forward objs locs a \<and> expands (gv_mem vm) a e0 \<and>
    e = forward objs locs (e0 OR 1)" if "expands (gv_mem vm') l e" for l e
  proof -
    obtain ob' where ob': "read_object (gv_mem vm') l = Some ob'" "oh_header ob' = Expanded_ptr e"
      using \<open>expands (gv_mem vm') l e\<close> by (auto simp: expands_def)
    obtain a ob q where a: "live_in g locations vm a" "l = forward objs locs a" "read_object (gv_mem vm) a = Some ob"
      "ob' = relocated g objs locs q ob" using gc_result_cells(4) [OF vm R ob'(1)] by blast
    obtain e0 where "oh_header ob = Expanded_ptr e0" "e = forward objs locs (e0 OR 1)"
      using ob'(2) a(4) by (auto simp: relocated_def split: obj_word.splits)
    then show ?thesis using a by (auto simp: expands_def)
  qed
  have inj: "x = y" if "x \<in> set objs" "y \<in> set objs" "forward objs locs x = forward objs locs y" for x y
    using forward_less [OF rw that(1,2)] forward_less [OF rw that(2,1)] that(3) by simp
  show ?thesis unfolding monitors_wf_def
  proof (intro allI impI)
    fix l e assume "expands (gv_mem vm') l e"
    then obtain a e0 where a: "live_in g locations vm a" "l = forward objs locs a" "expands (gv_mem vm) a e0"
      "e = forward objs locs (e0 OR 1)" using src by blast
    have mem: "a \<in> set objs" "e0 + 1 \<in> set objs" "e0 OR 1 = e0 + 1" using a live ent by blast+
    have "a < e0 + 1" "\<exists>d. gv_mem vm e0 = Some (Monitor_cell d)" using expands_monitor [OF wf a(3)] by auto
    then have "l < e" "\<exists>d. gv_mem vm' e = Some (Monitor_cell d)"
      using forward_less [OF rw mem(1,2)] gc_result_cells(2) [OF vm R a(1,3)] a(2,4) mem(3) by auto
    moreover have "b = l" if "expands (gv_mem vm') b e" for b
    proof -
      obtain a' e1 where a': "live_in g locations vm a'" "b = forward objs locs a'" "expands (gv_mem vm) a' e1"
        "e = forward objs locs (e1 OR 1)" using src \<open>expands (gv_mem vm') b e\<close> by blast
      have "e1 + 1 = e0 + 1" using inj ent [OF a'(1,3)] mem a(4) a'(4) by metis
      then have "a' = a" using wf a(3) a'(3) unfolding heap_wf_def monitors_wf_def by (metis add_right_cancel)
      then show ?thesis using a(2) a'(2) by simp
    qed
    ultimately show "l < e \<and> (\<exists>d. gv_mem vm' e = Some (Monitor_cell d)) \<and> (\<forall>b. expands (gv_mem vm') b e \<longrightarrow> b = l)" by blast
  qed
qed

lemma unmark_object_fix: "unmark_object ob = ob \<longleftrightarrow> (\<forall>w. oh_header ob = Mark_data w \<longrightarrow> unmark_word w = w)"
  by (cases ob) (auto simp: unmark_object_def split: obj_word.splits)

definition value_ok :: "gc_ctx \<Rightarrow> memory \<Rightarrow> addr \<Rightarrow> bool" where
  "value_ok g m v = (is_target g v \<longrightarrow> read_object m v \<noteq> None)"

lemma gc_values:
  assumes vm: "vm_wf g locations vm" and R: "gc_result g locations vm vm' objs locs P"
    and pend: "gx_pending g \<in> set locations"
  shows "(is_target g v \<Longrightarrow> live_in g locations vm v) \<Longrightarrow> value_ok g (gv_mem vm') (forward objs locs v)"
    and "l \<in> set locations \<Longrightarrow> value_ok g (gv_mem vm') (forward objs locs (gv_vars vm l))"
    and "q \<in> P \<Longrightarrow> value_ok g (gv_mem vm') q"
proof -
  show fwd: "value_ok g (gv_mem vm') (forward objs locs v)" if "is_target g v \<Longrightarrow> live_in g locations vm v" for v
    using gc_target [OF vm R, of v] that by (cases "is_target g v") (auto simp: value_ok_def)
  show root: "value_ok g (gv_mem vm') (forward objs locs (gv_vars vm l))" if "l \<in> set locations" for l
    by (rule fwd, rule live_root) (use that in \<open>auto simp: root_set_def\<close>)
  have "P = insert (forward objs locs (gv_vars vm (gx_pending g))) {forward objs locs a | a. live_in g locations vm a}"
    using R unfolding gc_result_def by blast
  then show "q \<in> P \<Longrightarrow> value_ok g (gv_mem vm') q" using root [OF pend] fwd by blast
qed

lemma gc_fields:
  assumes vm: "vm_wf g locations vm" and R: "gc_result g locations vm vm' objs locs P"
    and pend: "gx_pending g \<in> set locations" and a: "live_in g locations vm a" "read_object (gv_mem vm) a = Some ob"
    and q: "q \<in> P" and s: "s \<in> set (traced_slots g ob) \<or> is_weak g ob \<and> s = native_referent (gx_ptr g)"
  shows "value_ok g (gv_mem vm') (relocated_words g objs locs ob q s)"
proof -
  let ?r = "native_referent (gx_ptr g)"
  have wf: "heap_wf g (gv_mem vm)" using vm by (simp add: vm_wf_def)
  have live: "\<And>x. x \<in> set objs \<and> even x \<longleftrightarrow> live_in g locations vm x" using R unfolding gc_result_def by blast
  have "is_target g (oh_words ob s) \<Longrightarrow> live_in g locations vm (oh_words ob s)"
    if "\<not> (dead_referent g objs ob \<and> s = ?r)"
  proof -
    assume t: "is_target g (oh_words ob s)"
    show "live_in g locations vm (oh_words ob s)"
    proof (cases "s \<in> set (traced_slots g ob)")
      case True
      then show ?thesis using a t by (intro live_field [OF a(1)]) (auto simp: field_edge_def is_target_def)
    next
      case False
      then have w: "is_weak g ob" "s = ?r" using s by auto
      then have "oh_words ob s \<in> set objs" using that t by (auto simp: dead_referent_def is_target_def)
      moreover have "referent_of g (gv_mem vm) a (oh_words ob s)" using a(2) w by (auto simp: referent_of_def)
      then have "read_object (gv_mem vm) (oh_words ob s) \<noteq> None"
        using wf t unfolding heap_wf_def is_target_def by blast
      then have "even (oh_words ob s)" using cell_aligned [OF wf]
        by (metis dvd_trans even_numeral not_None_eq read_object_Some)
      ultimately show ?thesis using live by blast
    qed
  qed
  then show ?thesis
    using gc_values(1) [OF vm R pend, of "oh_words ob s"] gc_values(3) [OF vm R pend q] s
    unfolding relocated_words_def by (auto simp: value_ok_def is_target_def)
qed

lemma gc_heap_wf:
  assumes vm: "vm_wf g locations vm" and R: "gc_result g locations vm vm' objs locs P"
    and pend: "gx_pending g \<in> set locations"
  shows "vm_wf g locations vm'"
proof -
  have wf: "heap_wf g (gv_mem vm)" using vm by (simp add: vm_wf_def)
  have um: "unmark c = c" if "gv_mem vm x = Some c" for x c
    using wf that unfolding heap_wf_def by (metis erase_apply option.sel option.simps(9))
  have obj: "\<exists>a ob. \<exists>q \<in> P. live_in g locations vm a \<and> l = forward objs locs a \<and>
      read_object (gv_mem vm) a = Some ob \<and> ob' = relocated g objs locs q ob" if "read_object (gv_mem vm') l = Some ob'" for l ob'
    using gc_result_cells(4) [OF vm R that] .
  have "unmark c = c" if c: "gv_mem vm' l = Some c" for l c
  proof (cases c)
    case (Object_cell ob')
    then obtain a ob q where a: "read_object (gv_mem vm) a = Some ob" "ob' = relocated g objs locs q ob"
      using obj [of l ob'] c by (auto simp: read_object_Some)
    then have "unmark_object ob = ob" using um [of a "Object_cell ob"] by (simp add: read_object_Some unmark_def)
    then have "unmark_object ob' = ob'" unfolding a(2) unmark_object_fix by (auto simp: relocated_def split: obj_word.splits)
    then show ?thesis using Object_cell by (simp add: unmark_def)
  next
    case (Monitor_cell d)
    then show ?thesis using gc_result_cells(5) [OF vm R] c um by blast
  qed
  then have er: "erase (gv_mem vm') = gv_mem vm'" by (auto simp: fun_eq_iff erase_apply intro: option.map_ident_strong)
  have ow: "object_wf g ob'" if ob': "read_object (gv_mem vm') l = Some ob'" for l ob'
    using obj [OF ob'] wf by (auto simp: heap_wf_def)
  have val: "value_ok g (gv_mem vm') (oh_words ob' s)" if ob': "read_object (gv_mem vm') l = Some ob'"
    and s: "s \<in> set (traced_slots g ob') \<or> is_weak g ob' \<and> s = native_referent (gx_ptr g)" for l ob' s
    using obj [OF ob'] s gc_fields [OF vm R pend] by auto
  have "read_object (gv_mem vm') b \<noteq> None" if "field_edge g (gv_mem vm') l b" for l b
    using that val unfolding field_edge_def value_ok_def is_target_def by blast
  moreover have "read_object (gv_mem vm') v \<noteq> None" if "referent_of g (gv_mem vm') l v" "v \<noteq> 0" "in_heap g v" for l v
    using that val unfolding referent_of_def value_ok_def is_target_def by blast
  ultimately have "heap_wf g (gv_mem vm')"
    using gc_layout(1) [OF vm R] gc_monitors [OF vm R] er ow unfolding heap_wf_def by blast
  moreover have "value_ok g (gv_mem vm') (gv_vars vm' l)" if "l \<in> set locations" for l
  proof (cases "l = gx_pending g")
    case True
    then show ?thesis using R gc_values(3) [OF vm R pend] unfolding gc_result_def by blast
  next
    case False
    then have "gv_vars vm' l = forward objs locs (gv_vars vm l)" using R that unfolding gc_result_def by simp
    then show ?thesis using gc_values(2) [OF vm R pend that] by simp
  qed
  ultimately show ?thesis using gc_layout(2-4) [OF vm R] unfolding vm_wf_def value_ok_def by blast
qed

section \<open>What a collection promises\<close>

text \<open>The abstract contract: \<open>f\<close> says where each live object goes. Nothing else is left in the heap.\<close>

definition moved_value :: "gc_ctx \<Rightarrow> (addr \<Rightarrow> addr) \<Rightarrow> addr \<Rightarrow> addr" where
  "moved_value g f v = (if is_target g v then f v else v)"

definition moved_words ::
    "gc_ctx \<Rightarrow> (addr \<Rightarrow> bool) \<Rightarrow> (addr \<Rightarrow> addr) \<Rightarrow> obj_header \<Rightarrow> (nat \<Rightarrow> addr) \<Rightarrow> bool" where
  "moved_words g alive f ob ws =
     (let r = native_referent (gx_ptr g); d = native_discovered (gx_ptr g); v = oh_words ob r;
          dead = is_weak g ob \<and> v \<noteq> 0 \<and> \<not> alive v in
      (\<forall>s. s \<noteq> r \<or> \<not> is_weak g ob \<longrightarrow> \<not> (dead \<and> oh_words ob d = 0 \<and> s = d) \<longrightarrow>
         ws s = (if s \<in> set (traced_slots g ob) then moved_value g f (oh_words ob s) else oh_words ob s)) \<and>
      (is_weak g ob \<longrightarrow> ws r = (if dead then 0 else moved_value g f v)))"

definition moved_object ::
    "gc_ctx \<Rightarrow> (addr \<Rightarrow> bool) \<Rightarrow> (addr \<Rightarrow> addr) \<Rightarrow> memory \<Rightarrow> memory \<Rightarrow> obj_header \<Rightarrow> obj_header \<Rightarrow> bool" where
  "moved_object g alive f m m' ob ob' =
     (oh_class ob' = oh_class ob \<and> oh_length ob' = oh_length ob \<and> moved_words g alive f ob (oh_words ob') \<and>
      (case oh_header ob of
         Mark_data w \<Rightarrow> oh_header ob' = Mark_data w
       | Expanded_ptr e \<Rightarrow> \<exists>e'. oh_header ob' = Expanded_ptr e' \<and> m' e' = m e))"

definition collected :: "gc_ctx \<Rightarrow> nat list \<Rightarrow> gc_vm \<Rightarrow> gc_vm \<Rightarrow> (addr \<Rightarrow> addr) \<Rightarrow> bool" where
  "collected g locations vm vm' f =
     ((\<forall>a b. live_in g locations vm a \<and> live_in g locations vm b \<longrightarrow> (f a < f b \<longleftrightarrow> a < b)) \<and>
      (\<forall>a. live_in g locations vm a \<longrightarrow> f a \<le> a) \<and>
      (\<forall>l. l \<noteq> gx_pending g \<longrightarrow>
         gv_vars vm' l = (if l \<in> set locations then moved_value g f (gv_vars vm l) else gv_vars vm l)) \<and>
      (\<forall>a ob. live_in g locations vm a \<and> read_object (gv_mem vm) a = Some ob \<longrightarrow>
         (\<exists>ob'. read_object (gv_mem vm') (f a) = Some ob' \<and>
            moved_object g (live_in g locations vm) f (gv_mem vm) (gv_mem vm') ob ob')) \<and>
      (\<forall>b. read_object (gv_mem vm') b \<noteq> None \<longrightarrow> (\<exists>a. live_in g locations vm a \<and> b = f a)))"

lemma gc_forward:
  assumes vm: "vm_wf g locations vm" and R: "gc_result g locations vm vm' objs locs P"
  shows "forward objs locs v = moved_value g (forward objs locs) v"
  using gc_target(2) [OF vm R, of v] by (simp add: moved_value_def)

lemma gc_words:
  assumes vm: "vm_wf g locations vm" and R: "gc_result g locations vm vm' objs locs P"
    and a: "read_object (gv_mem vm) a = Some ob"
  shows "moved_words g (live_in g locations vm) (forward objs locs) ob (relocated_words g objs locs ob q)"
proof -
  let ?v = "oh_words ob (native_referent (gx_ptr g))"
  have wf: "heap_wf g (gv_mem vm)" using vm by (simp add: vm_wf_def)
  have live: "\<And>x. x \<in> set objs \<and> even x \<longleftrightarrow> live_in g locations vm x"
    and ok: "\<And>x. x \<in> set objs \<Longrightarrow> entry_ok (gv_mem vm) x" using R unfolding gc_result_def by blast+
  have "?v \<in> set objs \<longleftrightarrow> live_in g locations vm ?v" if w: "is_weak g ob"
  proof
    assume v: "?v \<in> set objs"
    have "referent_of g (gv_mem vm) a ?v" using a w by (auto simp: referent_of_def)
    then have "read_object (gv_mem vm) ?v \<noteq> None"
      using wf entries_in_heap [OF wf ok [OF v]] unfolding heap_wf_def by blast
    then have "even ?v" using cell_aligned [OF wf] by (metis dvd_trans even_numeral not_None_eq read_object_Some)
    then show "live_in g locations vm ?v" using live v by blast
  qed (use live in blast)
  then have dead: "dead_referent g objs ob \<longleftrightarrow> is_weak g ob \<and> ?v \<noteq> 0 \<and> \<not> live_in g locations vm ?v"
    by (auto simp: dead_referent_def)
  show ?thesis unfolding moved_words_def Let_def relocated_words_def enqueued_def dead
    using gc_forward [OF vm R] by (auto simp: native_discovered_def)
qed

lemma gc_collected:
  assumes "vm_wf g locations vm" and "distinct locations" and "gx_pending g \<in> set locations"
    and "major_gc g locations vm = Some vm'"
  shows "\<exists>f. collected g locations vm vm' f"
proof -
  note vm = assms(1)
  obtain objs locs P where R: "gc_result g locations vm vm' objs locs P"
    using gc_run [OF assms(1-3)] assms(4) by auto
  let ?f = "forward objs locs"
  have rw: "reloc_wf objs locs" and live: "\<And>x. x \<in> set objs \<and> even x \<longleftrightarrow> live_in g locations vm x"
    and vars: "\<And>l. l \<noteq> gx_pending g \<Longrightarrow> gv_vars vm' l = (if l \<in> set locations then ?f (gv_vars vm l) else gv_vars vm l)"
    using R unfolding gc_result_def by blast+
  have "?f a < ?f b \<longleftrightarrow> a < b" if "live_in g locations vm a" "live_in g locations vm b" for a b
    using forward_less [OF rw, of a b] live that by blast
  moreover have "?f a \<le> a" if "live_in g locations vm a" for a
  proof -
    have a: "a \<in> set objs" "even a" using live [of a] that by auto
    obtain i where i: "i < length objs" "a = objs ! i" using a(1) by (auto simp: in_set_conv_nth)
    then show ?thesis using gc_layout(5) [OF vm R i(1)] forward_nth [OF rw i(1)] a(2) by simp
  qed
  moreover have "\<exists>ob'. read_object (gv_mem vm') (?f a) = Some ob' \<and>
      moved_object g (live_in g locations vm) ?f (gv_mem vm) (gv_mem vm') ob ob'"
    if a: "live_in g locations vm a" "read_object (gv_mem vm) a = Some ob" for a ob
  proof -
    obtain q where "gv_mem vm' (?f a) = Some (Object_cell (relocated g objs locs q ob))"
      using gc_result_cells(1) [OF vm R a] by blast
    moreover have "gv_mem vm' (?f (e OR 1)) = gv_mem vm e" if "oh_header ob = Expanded_ptr e" for e
      using gc_result_cells(2) [OF vm R a(1)] a(2) that by (simp add: expands_def)
    ultimately show ?thesis using gc_words [OF vm R a(2)]
      by (auto simp: read_object_Some moved_object_def relocated_def split: obj_word.splits)
  qed
  moreover have "\<exists>a. live_in g locations vm a \<and> b = ?f a" if "read_object (gv_mem vm') b \<noteq> None" for b
    using that gc_result_cells(4) [OF vm R] by blast
  ultimately have "collected g locations vm vm' ?f"
    using vars gc_forward [OF vm R] unfolding collected_def by simp
  then show ?thesis by blast
qed

section \<open>An example heap\<close>

text \<open>Two arrays of references, the first garbage, the second with one element that points to itself; a root
  at location 1, and no pending references at location 0.\<close>

definition example_gc :: gc_ctx where
  "example_gc =
     \<lparr>gx_classes = (\<lambda>_. (example_class None [])\<lparr>rc_kind := CD_KIND_ORDINARY_ARRAY\<rparr>), gx_ptr = 4, gx_Reference = 1,
      gx_heap = 8, gx_capacity = 64, gx_pending = 0\<rparr>"

definition example_array :: "nat \<Rightarrow> addr \<Rightarrow> obj_header" where
  "example_array len v =
     \<lparr>oh_header = Mark_data (1, 0), oh_class = 0, oh_length = len, oh_words = (\<lambda>i. if i = 0 then v else 0)\<rparr>"

definition example_vm :: gc_vm where
  "example_vm =
     \<lparr>gv_mem = [8 \<mapsto> Object_cell (example_array 0 0), 24 \<mapsto> Object_cell (example_array 1 24)],
      gv_vars = (\<lambda>l. if l = 1 then 24 else 0), gv_used = 40\<rparr>"

lemma example_array_simps:
  "traced_slots example_gc (example_array len v) = [0..<len]" "is_weak example_gc (example_array len v) = False"
  "object_wf example_gc (example_array len v)" "unmark_object (example_array len v) = example_array len v"
  by (simp_all add: traced_slots_def is_weak_def object_wf_def class_of_def example_gc_def example_array_def example_class_def
    unmark_object_def unmark_word_def IS_REACHABLE_def Let_def)

lemma example_sizes:
  "cell_size example_gc (Object_cell (example_array 0 v)) = Some 16" "cell_size example_gc (Object_cell (example_array 1 v)) = Some 24"
  by (simp_all add: cell_size_def size_of_object_def class_of_def example_gc_def example_array_def example_class_def
    reference_array_bytes_def kArrayDataOffset_def obj_header_size_def align_addr_def)

lemma example_read:
  "read_object (gv_mem example_vm) a =
    (if a = 8 then Some (example_array 0 0) else if a = 24 then Some (example_array 1 24) else None)"
  by (simp add: example_vm_def read_object_def)

lemma example_vm_wf: "vm_wf example_gc [0, 1] example_vm"
proof -
  have g: "gx_heap example_gc = 8" "gx_capacity example_gc = 64" by (simp_all add: example_gc_def)
  have m: "gv_mem example_vm = [8 \<mapsto> Object_cell (example_array 0 0), 24 \<mapsto> Object_cell (example_array 1 24)]"
    "gv_vars example_vm = (\<lambda>l. if l = 1 then 24 else 0)" "gv_used example_vm = 40" by (simp_all add: example_vm_def)
  have "layout_wf example_gc (gv_mem example_vm)"
    unfolding layout_wf_def cell_placed_def using example_sizes by (auto simp: g m split: if_splits)
  moreover have "monitors_wf (gv_mem example_vm)" by (auto simp: monitors_wf_def expands_def example_read example_array_def)
  moreover have "erase (gv_mem example_vm) = gv_mem example_vm"
    by (auto simp: fun_eq_iff erase_apply m unmark_def example_array_simps)
  moreover have "\<forall>a b. field_edge example_gc (gv_mem example_vm) a b \<longrightarrow> read_object (gv_mem example_vm) b \<noteq> None"
    by (auto simp: field_edge_def example_read example_array_simps example_array_def split: if_splits)
  moreover have "\<forall>a v. \<not> referent_of example_gc (gv_mem example_vm) a v"
    by (auto simp: referent_of_def example_read example_array_simps split: if_splits)
  ultimately have "heap_wf example_gc (gv_mem example_vm)"
    unfolding heap_wf_def by (auto simp: example_read example_array_simps split: if_splits)
  then show ?thesis unfolding vm_wf_def using example_sizes
    by (auto simp: g m read_object_def is_target_def split: if_splits)
qed





end
