(* ===== verification/Heap_Allocation.thy ===== *)
theory Heap_Allocation
  imports Collector
begin

unbundle bit_operations_syntax

text \<open>
  Allocation on the collected heap: \<open>bump_allocate\<close> and the handles of \<open>vm/bjvm.c\<close>, \<open>AllocateObject\<close> of
  \<open>vm/objects.h\<close>, the creation of arrays in \<open>vm/arrays.c\<close>, the installation of monitors in
  \<open>vm/monitors.c\<close> and the identity hash codes of \<open>vm/objects.c\<close>. An allocation may collect, so it takes the
  locations of the roots. The null pointer is the address 0, and stands for a pending
  \<open>OutOfMemoryError\<close> when an allocator returns it; \<open>None\<close> is as in \<open>Collector\<close>. The array class of a
  component class is the argument \<open>array_class\<close>, what \<open>get_or_create_array_classdesc\<close> returns.
\<close>

section \<open>Memory\<close>

text \<open>Sizes wrap around at the width of \<open>size_t\<close>.\<close>

definition align_size :: "nat \<Rightarrow> nat \<Rightarrow> nat" where
  "align_size p n = (n + 7) mod 2 ^ (8 * p) div 8 * 8"

definition heap_full :: "gc_ctx \<Rightarrow> nat \<Rightarrow> gc_vm \<Rightarrow> bool" where
  "heap_full g bytes vm = ((gv_used vm + bytes) mod 2 ^ (8 * gx_ptr g) > gx_capacity g)"

definition take_bytes :: "gc_ctx \<Rightarrow> nat \<Rightarrow> gc_vm \<Rightarrow> addr \<times> gc_vm" where
  "take_bytes g bytes vm =
     (gx_heap g + gv_used vm,
      vm\<lparr>gv_mem := gv_mem vm |` {..<gx_heap g + gv_used vm},
         gv_used := (gv_used vm + bytes) mod 2 ^ (8 * gx_ptr g)\<rparr>)"

definition bump_allocate :: "gc_ctx \<Rightarrow> nat list \<Rightarrow> nat \<Rightarrow> gc_vm \<Rightarrow> (addr \<times> gc_vm) option" where
  "bump_allocate g locations bytes vm =
     (let bytes = align_size (gx_ptr g) bytes in
      if heap_full g bytes vm
      then case major_gc g locations vm of
             None \<Rightarrow> None
           | Some vm \<Rightarrow> if heap_full g bytes vm then Some (0, vm) else Some (take_bytes g bytes vm)
      else Some (take_bytes g bytes vm))"

definition IS_MARK_WORD :: u32 where "IS_MARK_WORD = 1"

definition new_header :: "class_id \<Rightarrow> nat \<Rightarrow> obj_header" where
  "new_header c len = \<lparr>oh_header = Mark_data (IS_MARK_WORD, 0), oh_class = c, oh_length = len, oh_words = (\<lambda>_. 0)\<rparr>"

definition put_cell :: "addr \<Rightarrow> cell \<Rightarrow> gc_vm \<Rightarrow> gc_vm" where
  "put_cell a c vm = vm\<lparr>gv_mem := (gv_mem vm)(a \<mapsto> c)\<rparr>"

definition AllocateObject :: "gc_ctx \<Rightarrow> nat list \<Rightarrow> class_id \<Rightarrow> nat \<Rightarrow> gc_vm \<Rightarrow> (addr \<times> gc_vm) option" where
  "AllocateObject g locations descriptor allocation_size vm =
     map_option (\<lambda>(obj, vm). (obj, if obj \<noteq> 0 then put_cell obj (Object_cell (new_header descriptor 0)) vm else vm))
       (bump_allocate g locations allocation_size vm)"

definition new_object :: "gc_ctx \<Rightarrow> nat list \<Rightarrow> class_id \<Rightarrow> gc_vm \<Rightarrow> (addr \<times> gc_vm) option" where
  "new_object g locations c vm = AllocateObject g locations c (unat (rc_instance_bytes (gx_classes g c))) vm"

section \<open>Handles\<close>

text \<open>The handles of a thread are the root locations \<open>handles\<close>; \<open>None\<close> is \<open>null_handle\<close>.\<close>

definition make_handle :: "nat list \<Rightarrow> addr \<Rightarrow> gc_vm \<Rightarrow> (nat option \<times> gc_vm) option" where
  "make_handle handles obj vm =
     (if obj = 0 then Some (None, vm)
      else map_option (\<lambda>l. (Some l, vm\<lparr>gv_vars := (gv_vars vm)(l := obj)\<rparr>)) (find (\<lambda>l. gv_vars vm l = 0) handles))"

definition handle_obj :: "nat option \<Rightarrow> gc_vm \<Rightarrow> addr" where
  "handle_obj h vm = (case h of None \<Rightarrow> 0 | Some l \<Rightarrow> gv_vars vm l)"

definition drop_handle :: "nat option \<Rightarrow> gc_vm \<Rightarrow> gc_vm" where
  "drop_handle h vm = (case h of None \<Rightarrow> vm | Some l \<Rightarrow> vm\<lparr>gv_vars := (gv_vars vm)(l := 0)\<rparr>)"

section \<open>Arrays\<close>

definition set_length :: "addr \<Rightarrow> nat \<Rightarrow> gc_vm \<Rightarrow> gc_vm option" where
  "set_length a cnt vm =
     map_option (\<lambda>ob. put_cell a (Object_cell (ob\<lparr>oh_length := cnt, oh_words := (\<lambda>_. 0)\<rparr>)) vm) (read_object (gv_mem vm) a)"

definition allocate_array :: "gc_ctx \<Rightarrow> nat list \<Rightarrow> class_id \<Rightarrow> nat \<Rightarrow> nat \<Rightarrow> gc_vm \<Rightarrow> (addr \<times> gc_vm) option" where
  "allocate_array g locations array_desc allocation_size cnt vm =
     (case AllocateObject g locations array_desc allocation_size vm of
        None \<Rightarrow> None
      | Some (array, vm) \<Rightarrow> if array \<noteq> 0 then map_option (\<lambda>vm. (array, vm)) (set_length array cnt vm) else Some (0, vm))"

definition create_1d_primitive_array ::
    "gc_ctx \<Rightarrow> nat list \<Rightarrow> class_id \<Rightarrow> nat \<Rightarrow> gc_vm \<Rightarrow> (addr \<times> gc_vm) option" where
  "create_1d_primitive_array g locations array_desc cnt vm =
     (case sizeof_type_kind (gx_ptr g) (rc_primitive_component (gx_classes g array_desc)) of
        None \<Rightarrow> None
      | Some sz \<Rightarrow> allocate_array g locations array_desc (primitive_array_bytes (gx_ptr g) cnt sz) cnt vm)"

definition CreateObjectArray1D ::
    "gc_ctx \<Rightarrow> nat list \<Rightarrow> (class_id \<Rightarrow> class_id) \<Rightarrow> class_id \<Rightarrow> nat \<Rightarrow> gc_vm \<Rightarrow> (addr \<times> gc_vm) option" where
  "CreateObjectArray1D g locations array_class cd cnt vm =
     allocate_array g locations (array_class cd) (reference_array_bytes (gx_ptr g) cnt) cnt vm"

definition ReferenceArrayStore :: "gc_ctx \<Rightarrow> addr \<Rightarrow> nat \<Rightarrow> addr \<Rightarrow> gc_vm \<Rightarrow> gc_vm option" where
  "ReferenceArrayStore g array index val vm =
     (case read_object (gv_mem vm) array of
        None \<Rightarrow> None
      | Some ob \<Rightarrow>
          if rc_kind (class_of g ob) = CD_KIND_ORDINARY_ARRAY \<and> index < oh_length ob
          then Some (put_cell array (Object_cell (ob\<lparr>oh_words := (oh_words ob)(index := val)\<rparr>)) vm)
          else None)"

definition ReferenceArrayLoad :: "gc_ctx \<Rightarrow> addr \<Rightarrow> nat \<Rightarrow> gc_vm \<Rightarrow> addr option" where
  "ReferenceArrayLoad g array index vm =
     (case read_object (gv_mem vm) array of
        None \<Rightarrow> None
      | Some ob \<Rightarrow>
          if rc_kind (class_of g ob) = CD_KIND_ORDINARY_ARRAY \<and> index < oh_length ob then Some (oh_words ob index) else None)"

text \<open>The loop of \<open>CreateArray\<close> over the first dimension: \<open>True\<close> if it ran to the end, \<open>False\<close> for the jump to \<open>oom\<close>.\<close>

fun fill_array ::
    "gc_ctx \<Rightarrow> (gc_vm \<Rightarrow> (addr \<times> gc_vm) option) \<Rightarrow> nat option \<Rightarrow> nat list \<Rightarrow> gc_vm \<Rightarrow> (bool \<times> gc_vm) option" where
  "fill_array g create arr [] vm = Some (True, vm)"
| "fill_array g create arr (i # is) vm =
     (case create vm of
        None \<Rightarrow> None
      | Some (subarray, vm) \<Rightarrow>
          if subarray = 0 then Some (False, vm)
          else (case ReferenceArrayStore g (handle_obj arr vm) i subarray vm of
                  None \<Rightarrow> None
                | Some vm \<Rightarrow> fill_array g create arr is vm))"

fun CreateArray ::
    "gc_ctx \<Rightarrow> nat list \<Rightarrow> nat list \<Rightarrow> (class_id \<Rightarrow> class_id) \<Rightarrow> nat list \<Rightarrow> class_id \<Rightarrow> gc_vm \<Rightarrow> (addr \<times> gc_vm) option" where
  "CreateArray g locations handles array_class [] desc vm = None"
| "CreateArray g locations handles array_class [n] desc vm =
     (case rc_kind (gx_classes g desc) of
        CD_KIND_PRIMITIVE_ARRAY \<Rightarrow> create_1d_primitive_array g locations desc n vm
      | CD_KIND_ORDINARY_ARRAY \<Rightarrow>
          (case rc_one_fewer_dim (gx_classes g desc) of
             None \<Rightarrow> None
           | Some component \<Rightarrow> CreateObjectArray1D g locations array_class component n vm)
      | _ \<Rightarrow> None)"
| "CreateArray g locations handles array_class (n # k # dims) desc vm =
     (case rc_one_fewer_dim (gx_classes g desc) of
        None \<Rightarrow> None
      | Some component \<Rightarrow>
          (case CreateObjectArray1D g locations array_class component n vm of
             None \<Rightarrow> None
           | Some (outer, vm) \<Rightarrow>
               (case make_handle handles outer vm of
                  None \<Rightarrow> None
                | Some (arr, vm) \<Rightarrow>
                    (case fill_array g (CreateArray g locations handles array_class (k # dims) component) arr [0..<n] vm of
                       None \<Rightarrow> None
                     | Some (complete, vm) \<Rightarrow>
                         Some (if complete then handle_obj arr vm else 0, drop_handle arr vm)))))"

section \<open>Monitors and hash codes\<close>

text \<open>The first loop of \<open>monitor_acquire\<close>, on the heap: the object is read from its handle again after the
  allocation, which may have moved it. The mark word is the one fetched before.\<close>

definition install_heap_monitor :: "gc_ctx \<Rightarrow> nat list \<Rightarrow> nat \<Rightarrow> gc_vm \<Rightarrow> (bool \<times> gc_vm) option" where
  "install_heap_monitor g locations handle vm =
     (case read_object (gv_mem vm) (gv_vars vm handle) of
        None \<Rightarrow> None
      | Some ob \<Rightarrow>
          (case oh_header ob of
             Expanded_ptr _ \<Rightarrow> Some (True, vm)
           | Mark_data w \<Rightarrow>
               (case bump_allocate g locations sizeof_monitor_data vm of
                  None \<Rightarrow> None
                | Some (e, vm) \<Rightarrow>
                    if e = 0 then Some (False, vm)
                    else (case read_object (gv_mem vm) (gv_vars vm handle) of
                            None \<Rightarrow> None
                          | Some ob \<Rightarrow>
                              Some (True,
                                put_cell (gv_vars vm handle) (Object_cell (ob\<lparr>oh_header := Expanded_ptr e\<rparr>))
                                  (put_cell e (Monitor_cell \<lparr>owner = NOT_HELD_TID, hold_count = 0, md_mark_word = w\<rparr>) vm))))))"

definition ObjNextHashCode :: "u64 \<Rightarrow> u64 \<times> u64" where
  "ObjNextHashCode rng = (let rng = rng * 0x5DEECE66D + 0xB in (drop_bit 32 rng, rng))"

text \<open>The loop that draws until the low 32 bits are not zero, with a bound on the number of draws.\<close>

fun draw_hash :: "nat \<Rightarrow> u64 \<Rightarrow> (u32 \<times> u64) option" where
  "draw_hash 0 rng = None"
| "draw_hash (Suc n) rng =
     (let (h, rng) = ObjNextHashCode rng in
      if ucast h = (0 :: u32) then draw_hash n rng else Some (ucast h, rng))"

text \<open>The mark word of an object, in its header or in its monitor.\<close>

definition mark_word_of :: "memory \<Rightarrow> addr \<Rightarrow> mark_word_t option" where
  "mark_word_of m a =
     (case read_object m a of
        None \<Rightarrow> None
      | Some ob \<Rightarrow>
          (case oh_header ob of
             Mark_data w \<Rightarrow> Some w
           | Expanded_ptr e \<Rightarrow> (case m e of Some (Monitor_cell d) \<Rightarrow> Some (md_mark_word d) | _ \<Rightarrow> None)))"

definition set_mark_word :: "memory \<Rightarrow> addr \<Rightarrow> mark_word_t \<Rightarrow> memory option" where
  "set_mark_word m a w =
     (case read_object m a of
        None \<Rightarrow> None
      | Some ob \<Rightarrow>
          (case oh_header ob of
             Mark_data _ \<Rightarrow> Some (m(a \<mapsto> Object_cell (ob\<lparr>oh_header := Mark_data w\<rparr>)))
           | Expanded_ptr e \<Rightarrow>
               (case m e of Some (Monitor_cell d) \<Rightarrow> Some (m(e \<mapsto> Monitor_cell (d\<lparr>md_mark_word := w\<rparr>))) | _ \<Rightarrow> None)))"

definition get_object_hash_code :: "nat \<Rightarrow> addr \<Rightarrow> u64 \<Rightarrow> memory \<Rightarrow> (u32 \<times> u64 \<times> memory) option" where
  "get_object_hash_code n a rng m =
     (case mark_word_of m a of
        None \<Rightarrow> None
      | Some (flags, hc) \<Rightarrow>
          if hc \<noteq> 0 then Some (hc, rng, m)
          else (case draw_hash n rng of
                  None \<Rightarrow> None
                | Some (hc, rng) \<Rightarrow> map_option (\<lambda>m. (hc, rng, m)) (set_mark_word m a (flags, hc))))"

text \<open>The identity hash code is never zero and does not change once it has been asked for.\<close>

lemma draw_hash_nonzero: "draw_hash n rng = Some (h, rng') \<Longrightarrow> h \<noteq> 0"
  by (induction n rng rule: draw_hash.induct) (auto simp: Let_def split: prod.splits if_splits)

lemma mark_word_of_set: "set_mark_word m a w = Some m' \<Longrightarrow> mark_word_of m' a = Some w"
  by (auto simp: set_mark_word_def mark_word_of_def read_object_def split: option.splits cell.splits obj_word.splits if_splits)

lemma hash_code_stable:
  assumes "get_object_hash_code n a rng m = Some (h, rng', m')"
  shows "h \<noteq> 0" "get_object_hash_code n' a rng'' m' = Some (h, rng'', m')"
  using assms draw_hash_nonzero mark_word_of_set
  by (fastforce simp: get_object_hash_code_def split: option.splits prod.splits if_splits)+

section \<open>Allocation keeps the heap well-formed\<close>

definition sizes_ok :: "gc_ctx \<Rightarrow> nat \<Rightarrow> bool" where
  "sizes_ok g bytes = (gx_capacity g + bytes + 7 < 2 ^ (8 * gx_ptr g))"

lemma align_size_eq: "sizes_ok g bytes \<Longrightarrow> align_size (gx_ptr g) bytes = align_addr bytes"
  by (simp add: align_size_def align_addr_def sizes_ok_def)

lemma align_addr_bounds: "n \<le> align_addr n" "align_addr n \<le> n + 7" "8 dvd align_addr n"
  by (simp_all add: align_addr_def)

lemma vm_wf_top:
  assumes "vm_wf g locations vm" and "gv_mem vm a = Some c"
  shows "a < gx_heap g + gv_used vm" "a + the (cell_size g c) \<le> gx_heap g + gv_used vm" "cell_placed g a c"
proof -
  show "a + the (cell_size g c) \<le> gx_heap g + gv_used vm" using assms by (auto simp: vm_wf_def)
  moreover show "cell_placed g a c" using assms cell_placed_heap by (auto simp: vm_wf_def)
  ultimately show "a < gx_heap g + gv_used vm" by (auto simp: cell_placed_def)
qed

text \<open>What \<open>bump_allocate\<close> does: it takes the bytes on top of the heap it found or of the collected heap.\<close>

lemma bump_allocate_ok:
  assumes vm: "vm_wf g locations vm" and "distinct locations" and "gx_pending g \<in> set locations" and sz: "sizes_ok g bytes"
  shows "\<exists>vm1. (vm1 = vm \<or> major_gc g locations vm = Some vm1) \<and> vm_wf g locations vm1 \<and>
    (bump_allocate g locations bytes vm = Some (0, vm1) \<and> gx_capacity g < gv_used vm1 + align_addr bytes \<or>
     gv_used vm1 + align_addr bytes \<le> gx_capacity g \<and>
     bump_allocate g locations bytes vm =
       Some (gx_heap g + gv_used vm1, vm1\<lparr>gv_used := gv_used vm1 + align_addr bytes\<rparr>))"
proof -
  have full: "heap_full g (align_addr bytes) v \<longleftrightarrow> gx_capacity g < gv_used v + align_addr bytes"
    "gv_used v + align_addr bytes < 2 ^ (8 * gx_ptr g)" if "vm_wf g locations v" for v
    using that sz align_addr_bounds(2) [of bytes] by (auto simp: heap_full_def vm_wf_def sizes_ok_def)
  have take: "take_bytes g (align_addr bytes) v = (gx_heap g + gv_used v, v\<lparr>gv_used := gv_used v + align_addr bytes\<rparr>)"
    if "vm_wf g locations v" for v
  proof -
    have "gv_mem v |` {..<gx_heap g + gv_used v} = gv_mem v"
    proof
      show "(gv_mem v |` {..<gx_heap g + gv_used v}) a = gv_mem v a" for a
        by (cases "gv_mem v a") (use vm_wf_top(1) [OF that, of a] in \<open>auto simp: restrict_map_def\<close>)
    qed
    then show ?thesis using full(2) [OF that] by (simp add: take_bytes_def)
  qed
  show ?thesis
  proof (cases "gx_capacity g < gv_used vm + align_addr bytes")
    case False
    then show ?thesis using vm full(1) [OF vm] take [OF vm]
      by (intro exI [of _ vm]) (simp add: bump_allocate_def align_size_eq [OF sz] Let_def)
  next
    case True
    obtain vm1 where vm1: "major_gc g locations vm = Some vm1" "vm_wf g locations vm1"
      using gc_run [OF assms(1-3)] gc_heap_wf [OF vm] assms(3) by blast
    then show ?thesis using True full(1) [OF vm] full(1) [OF vm1(2)] take [OF vm1(2)]
      by (intro exI [of _ vm1]) (simp add: bump_allocate_def align_size_eq [OF sz] Let_def)
  qed
qed

text \<open>A new cell on top of the heap: a monitor that no object uses yet, or an object without references.\<close>

definition fresh_cell :: "gc_ctx \<Rightarrow> cell \<Rightarrow> bool" where
  "fresh_cell g c =
     (unmark c = c \<and>
      (case c of
         Monitor_cell _ \<Rightarrow> True
       | Object_cell ob \<Rightarrow> object_wf g ob \<and> (\<exists>w. oh_header ob = Mark_data w) \<and> oh_words ob = (\<lambda>_. 0)))"

lemma add_cell_wf:
  assumes vm: "vm_wf g locations vm" and n: "gv_used vm + n \<le> gx_capacity g" "8 dvd n"
    and c: "cell_size g c = Some sz" "0 < sz" "sz \<le> n" and fresh: "fresh_cell g c"
  shows "vm_wf g locations (put_cell (gx_heap g + gv_used vm) c (vm\<lparr>gv_used := gv_used vm + n\<rparr>))"
proof -
  let ?a = "gx_heap g + gv_used vm" and ?m = "gv_mem vm"
  let ?m' = "?m(?a \<mapsto> c)"
  have wf: "heap_wf g ?m" and al: "8 dvd gv_used vm" using vm by (auto simp: vm_wf_def)
  have "?m ?a = None" by (cases "?m ?a") (use vm_wf_top(1) [OF vm, of ?a] in auto)
  then have new: "?m ?a = None" "read_object ?m ?a = None" by (simp_all add: read_object_def)
  have read: "read_object ?m' b = (if b = ?a then case c of Object_cell ob \<Rightarrow> Some ob | _ \<Rightarrow> None else read_object ?m b)" for b
    by (simp add: read_object_def)
  have old: "read_object ?m' b = read_object ?m b" if "read_object ?m b \<noteq> None" for b using that new read by auto
  have "layout_wf g ?m'"
  proof -
    have "cell_placed g ?a c" using wf al n(1) c by (auto simp: cell_placed_def heap_wf_def layout_wf_def)
    moreover have "x + the (cell_size g c') \<le> b" if "?m' x = Some c'" "b \<in> dom ?m'" "x < b" for x b c'
    proof (cases "b = ?a")
      case True
      then show ?thesis using that vm_wf_top(2) [OF vm, of x c'] by simp
    next
      case False
      then have b: "b \<in> dom ?m" using that(2) by auto
      then have "b < ?a" using vm_wf_top(1) [OF vm] by blast
      then have "?m x = Some c'" using that(1,3) by (auto split: if_splits)
      then show ?thesis using wf b that(3) unfolding heap_wf_def layout_wf_def by blast
    qed
    ultimately show ?thesis using wf unfolding heap_wf_def layout_wf_def by simp
  qed
  moreover have ex: "expands ?m' b e \<longleftrightarrow> expands ?m b e" for b e
    using fresh new by (auto simp: expands_def read fresh_cell_def split: cell.splits)
  then have "monitors_wf ?m'"
    using wf new(1) unfolding heap_wf_def monitors_wf_def ex by (metis fun_upd_apply option.distinct(1))
  moreover have "erase ?m' = ?m'" using wf fresh unfolding heap_wf_def fresh_cell_def
    by (auto simp: fun_eq_iff erase_apply)
  moreover have "object_wf g ob" if "read_object ?m' b = Some ob" for b ob
    using that wf fresh by (auto simp: read heap_wf_def fresh_cell_def split: if_splits cell.splits)
  moreover have "read_object ?m' v \<noteq> None" if "field_edge g ?m' b v" for b v
  proof -
    have "field_edge g ?m b v" using that fresh
      by (auto simp: field_edge_def read fresh_cell_def split: if_splits cell.splits)
    then show ?thesis using wf old unfolding heap_wf_def by metis
  qed
  moreover have "read_object ?m' v \<noteq> None" if "referent_of g ?m' b v" "v \<noteq> 0" "in_heap g v" for b v
  proof -
    have "referent_of g ?m b v" using that fresh
      by (auto simp: referent_of_def read fresh_cell_def split: if_splits cell.splits)
    then show ?thesis using wf old that(2,3) unfolding heap_wf_def by metis
  qed
  ultimately have "heap_wf g ?m'" unfolding heap_wf_def by blast
  moreover have "b + the (cell_size g c') \<le> ?a + n" if "?m' b = Some c'" for b c'
    using that vm_wf_top(2) [OF vm, of b c'] c by (auto split: if_splits)
  moreover have "read_object ?m' (gv_vars vm l) \<noteq> None" if "l \<in> set locations" "is_target g (gv_vars vm l)" for l
    using vm that old unfolding vm_wf_def by metis
  ultimately show ?thesis using al n by (simp add: vm_wf_def put_cell_def add.assoc)
qed

text \<open>Rewriting an object: its words, or its header when it gets a monitor that no object has.\<close>

lemma same_class:
  assumes "oh_class ob' = oh_class ob" and "oh_length ob' = oh_length ob"
  shows "class_of g ob' = class_of g ob" "traced_slots g ob' = traced_slots g ob" "is_weak g ob' = is_weak g ob"
    "object_wf g ob' = object_wf g ob" "cell_size g (Object_cell ob') = cell_size g (Object_cell ob)"
  using assms by (simp_all add: class_of_def traced_slots_def is_weak_def is_reference_def object_wf_def cell_size_def
    size_of_object_def Let_def)

lemma rewrite_layout:
  assumes wf: "layout_wf g m" and ob: "m a = Some (Object_cell ob)"
    and same: "oh_class ob' = oh_class ob" "oh_length ob' = oh_length ob"
  shows "layout_wf g (m(a \<mapsto> Object_cell ob'))"
proof -
  let ?m' = "m(a \<mapsto> Object_cell ob')"
  have dom: "dom ?m' = dom m" using ob by auto
  have "\<exists>c'. m b = Some c' \<and> cell_size g c = cell_size g c'" if "?m' b = Some c" for b c
    using that ob same_class(5) [OF same] by (cases "b = a") auto
  then show ?thesis using wf dom unfolding layout_wf_def cell_placed_def by metis
qed

lemma rewrite_monitors:
  assumes wf: "monitors_wf m" and ob: "m a = Some (Object_cell ob)"
    and hdr: "oh_header ob' = oh_header ob \<or>
      (\<exists>e d. oh_header ob' = Expanded_ptr e \<and> a < e \<and> m e = Some (Monitor_cell d) \<and> (\<forall>b. \<not> expands m b e))"
  shows "monitors_wf (m(a \<mapsto> Object_cell ob'))"
proof -
  let ?m' = "m(a \<mapsto> Object_cell ob')"
  have mon: "?m' e = Some (Monitor_cell d) \<longleftrightarrow> m e = Some (Monitor_cell d)" for e d using ob by auto
  have ex: "expands ?m' b e \<longleftrightarrow> (if b = a then oh_header ob' = Expanded_ptr e else expands m b e)" for b e
    by (auto simp: expands_def read_object_def)
  have self: "expands m a e \<longleftrightarrow> oh_header ob = Expanded_ptr e" for e using ob by (simp add: expands_def read_object_def)
  show ?thesis
  proof (cases "oh_header ob' = oh_header ob")
    case True
    then have "expands ?m' b e \<longleftrightarrow> expands m b e" for b e using ex self by auto
    then show ?thesis using wf unfolding monitors_wf_def mon by simp
  next
    case False
    then obtain e0 d where e0: "oh_header ob' = Expanded_ptr e0" "a < e0" "m e0 = Some (Monitor_cell d)" "\<And>b. \<not> expands m b e0"
      using hdr by blast
    show ?thesis unfolding monitors_wf_def mon
    proof (intro allI impI)
      fix b e assume "expands ?m' b e"
      then have "b = a \<and> e = e0 \<or> b \<noteq> a \<and> expands m b e" using ex e0(1) by (auto split: if_splits)
      moreover have "expands ?m' b' e \<Longrightarrow> b' = a \<and> e = e0 \<or> expands m b' e" for b' using ex e0(1) by (auto split: if_splits)
      ultimately show "b < e \<and> (\<exists>d. m e = Some (Monitor_cell d)) \<and> (\<forall>b'. expands ?m' b' e \<longrightarrow> b' = b)"
        using e0 wf unfolding monitors_wf_def by blast
    qed
  qed
qed

lemma rewrite_object_wf:
  assumes vm: "vm_wf g locations vm" and ob: "read_object (gv_mem vm) a = Some ob"
    and same: "oh_class ob' = oh_class ob" "oh_length ob' = oh_length ob" "unmark_object ob' = ob'"
    and hdr: "oh_header ob' = oh_header ob \<or>
      (\<exists>e d. oh_header ob' = Expanded_ptr e \<and> a < e \<and> gv_mem vm e = Some (Monitor_cell d) \<and> (\<forall>b. \<not> expands (gv_mem vm) b e))"
    and vals: "\<And>s. s \<in> set (traced_slots g ob) \<or> is_weak g ob \<and> s = native_referent (gx_ptr g) \<Longrightarrow>
      value_ok g (gv_mem vm) (oh_words ob' s)"
  shows "vm_wf g locations (put_cell a (Object_cell ob') vm)"
proof -
  let ?m = "gv_mem vm"
  let ?m' = "?m(a \<mapsto> Object_cell ob')"
  note sc = same_class [OF same(1,2)]
  have wf: "heap_wf g ?m" using vm by (simp add: vm_wf_def)
  have ma: "?m a = Some (Object_cell ob)" using ob by (simp add: read_object_Some)
  have read: "read_object ?m' b = (if b = a then Some ob' else read_object ?m b)" for b by (simp add: read_object_def)
  have some: "read_object ?m' b \<noteq> None \<longleftrightarrow> read_object ?m b \<noteq> None" for b using ob by (simp add: read)
  have lm: "layout_wf g ?m" "monitors_wf ?m" using wf by (simp_all add: heap_wf_def)
  have "layout_wf g ?m'" "monitors_wf ?m'"
    by (rule rewrite_layout [OF lm(1) ma same(1,2)], rule rewrite_monitors [OF lm(2) ma hdr])
  moreover have "erase ?m' = ?m'"
  proof
    show "erase ?m' b = ?m' b" for b
      using wf same(3) unfolding heap_wf_def by (cases "b = a") (simp_all add: erase_apply unmark_def fun_eq_iff)
  qed
  moreover have "object_wf g x" if "read_object ?m' b = Some x" for b x
    using that wf ob sc(4) by (auto simp: read heap_wf_def split: if_splits)
  moreover have "read_object ?m' v \<noteq> None" if "field_edge g ?m' b v" for b v
  proof (cases "b = a")
    case True
    then obtain s where "s \<in> set (traced_slots g ob)" "v = oh_words ob' s" "is_target g v"
      using \<open>field_edge g ?m' b v\<close> sc(2) by (auto simp: field_edge_def read is_target_def)
    then show ?thesis using vals [of s] unfolding some value_ok_def by blast
  next
    case False
    then have "field_edge g ?m b v" using that by (auto simp: field_edge_def read)
    then show ?thesis using wf unfolding some heap_wf_def by blast
  qed
  moreover have "read_object ?m' v \<noteq> None" if "referent_of g ?m' b v" "v \<noteq> 0" "in_heap g v" for b v
  proof (cases "b = a")
    case True
    then have "is_weak g ob" "v = oh_words ob' (native_referent (gx_ptr g))"
      using that sc(3) by (auto simp: referent_of_def read)
    then show ?thesis using vals [of "native_referent (gx_ptr g)"] that(2,3) unfolding some value_ok_def is_target_def by blast
  next
    case False
    then have "referent_of g ?m b v" using that(1) by (auto simp: referent_of_def read)
    then show ?thesis using wf that(2,3) unfolding some heap_wf_def by blast
  qed
  ultimately have "heap_wf g ?m'" unfolding heap_wf_def by blast
  moreover have "b + the (cell_size g c) \<le> gx_heap g + gv_used vm" if "?m' b = Some c" for b c
    using that vm_wf_top(2) [OF vm, of b] ma sc(5) by (cases "b = a") auto
  ultimately show ?thesis using vm some by (simp add: vm_wf_def put_cell_def)
qed

lemma set_var_wf: "vm_wf g locations vm \<Longrightarrow> value_ok g (gv_mem vm) v \<Longrightarrow> vm_wf g locations (vm\<lparr>gv_vars := (gv_vars vm)(l := v)\<rparr>)"
  by (auto simp: vm_wf_def value_ok_def)

section \<open>Allocation of objects, arrays and monitors\<close>

definition allocatable :: "gc_ctx \<Rightarrow> class_id \<Rightarrow> nat \<Rightarrow> nat \<Rightarrow> bool" where
  "allocatable g c len bytes =
     (size_of_object g (new_header c len) = Some bytes \<and> 0 < bytes \<and> sizes_ok g bytes \<and> object_wf g (new_header c len))"

lemma fresh_header: "object_wf g (new_header c len) \<Longrightarrow> fresh_cell g (Object_cell (new_header c len))"
  by (auto simp: fresh_cell_def new_header_def unmark_def unmark_object_def unmark_word_def IS_MARK_WORD_def IS_REACHABLE_def)

lemma value_ok_new: "read_object m a \<noteq> None \<Longrightarrow> value_ok g m a"
  by (simp add: value_ok_def)

text \<open>The outcome of an allocation: the new object, or null if a collection did not free enough.\<close>

definition allocated :: "gc_ctx \<Rightarrow> nat list \<Rightarrow> class_id \<Rightarrow> nat \<Rightarrow> nat \<Rightarrow> gc_vm \<Rightarrow> (addr \<times> gc_vm) option \<Rightarrow> bool" where
  "allocated g locations c len bytes vm r =
     (\<exists>a vm'. r = Some (a, vm') \<and> vm_wf g locations vm' \<and>
        (if a = 0 then gx_capacity g < gv_used vm' + align_addr bytes \<and> (vm' = vm \<or> major_gc g locations vm = Some vm')
         else read_object (gv_mem vm') a = Some (new_header c len)))"

lemma put_new_object:
  assumes vm: "vm_wf g locations vm" and "distinct locations" and "gx_pending g \<in> set locations"
    and c: "allocatable g c len bytes"
  shows "allocated g locations c len bytes vm
    (map_option (\<lambda>(a, vm). (a, if a \<noteq> 0 then put_cell a (Object_cell (new_header c len)) vm else vm))
      (bump_allocate g locations bytes vm))"
proof -
  have sz: "sizes_ok g bytes" "0 < bytes" using c by (auto simp: allocatable_def)
  obtain vm1 where vm1: "vm1 = vm \<or> major_gc g locations vm = Some vm1" "vm_wf g locations vm1"
    "bump_allocate g locations bytes vm = Some (0, vm1) \<and> gx_capacity g < gv_used vm1 + align_addr bytes \<or>
     gv_used vm1 + align_addr bytes \<le> gx_capacity g \<and>
     bump_allocate g locations bytes vm = Some (gx_heap g + gv_used vm1, vm1\<lparr>gv_used := gv_used vm1 + align_addr bytes\<rparr>)"
    using bump_allocate_ok [OF assms(1-3) sz(1)] by blast
  have cs: "cell_size g (Object_cell (new_header c len)) = Some (align_addr bytes)"
    using c by (simp add: allocatable_def cell_size_def)
  have pos: "0 < align_addr bytes" using align_addr_bounds(1) [of bytes] sz(2) by simp
  have h: "0 < gx_heap g" using vm by (simp add: vm_wf_def heap_wf_def layout_wf_def)
  from vm1(3) show ?thesis
  proof (elim disjE conjE)
    assume "bump_allocate g locations bytes vm = Some (0, vm1)" "gx_capacity g < gv_used vm1 + align_addr bytes"
    then show ?thesis using vm1(1,2) by (auto simp: allocated_def)
  next
    let ?a = "gx_heap g + gv_used vm1" and ?vm2 = "vm1\<lparr>gv_used := gv_used vm1 + align_addr bytes\<rparr>"
    assume room: "gv_used vm1 + align_addr bytes \<le> gx_capacity g" and b: "bump_allocate g locations bytes vm = Some (?a, ?vm2)"
    have "fresh_cell g (Object_cell (new_header c len))" using c by (simp add: allocatable_def fresh_header)
    then have "vm_wf g locations (put_cell ?a (Object_cell (new_header c len)) ?vm2)"
      by (rule add_cell_wf [OF vm1(2) room align_addr_bounds(3) cs pos order_refl])
    then show ?thesis using b h by (auto simp: allocated_def put_cell_def read_object_def)
  qed
qed

lemma AllocateObject_ok:
  assumes "vm_wf g locations vm" and "distinct locations" and "gx_pending g \<in> set locations" and "allocatable g c 0 bytes"
  shows "allocated g locations c 0 bytes vm (AllocateObject g locations c bytes vm)"
  using put_new_object [OF assms] by (simp add: AllocateObject_def)

lemma allocate_array_eq:
  "allocate_array g locations c bytes len vm =
    map_option (\<lambda>(a, vm). (a, if a \<noteq> 0 then put_cell a (Object_cell (new_header c len)) vm else vm))
      (bump_allocate g locations bytes vm)"
  by (cases "bump_allocate g locations bytes vm")
    (auto simp: allocate_array_def AllocateObject_def set_length_def put_cell_def read_object_def new_header_def)

lemma allocate_array_ok:
  assumes "vm_wf g locations vm" and "distinct locations" and "gx_pending g \<in> set locations" and "allocatable g c len bytes"
  shows "allocated g locations c len bytes vm (allocate_array g locations c bytes len vm)"
  using put_new_object [OF assms] by (simp add: allocate_array_eq)

text \<open>The reference in a root survives an allocation, although the object may have moved.\<close>

lemma root_survives:
  assumes vm: "vm_wf g locations vm" and "distinct locations" and "gx_pending g \<in> set locations"
    and l: "l \<in> set locations" "l \<noteq> gx_pending g" "is_target g (gv_vars vm l)"
    and vm1: "vm1 = vm \<or> major_gc g locations vm = Some vm1"
  shows "\<exists>ob ob1. read_object (gv_mem vm) (gv_vars vm l) = Some ob \<and> read_object (gv_mem vm1) (gv_vars vm1 l) = Some ob1 \<and>
    (\<forall>w. oh_header ob = Mark_data w \<longrightarrow> oh_header ob1 = Mark_data w)"
proof -
  obtain ob where ob: "read_object (gv_mem vm) (gv_vars vm l) = Some ob" using vm l by (auto simp: vm_wf_def)
  show ?thesis
  proof (cases "vm1 = vm")
    case False
    then obtain f where f: "collected g locations vm vm1 f" using gc_collected [OF assms(1-3)] vm1 by blast
    have "live_in g locations vm (gv_vars vm l)" using l by (intro live_root) (auto simp: root_set_def)
    then obtain ob1 where "read_object (gv_mem vm1) (f (gv_vars vm l)) = Some ob1"
      "moved_object g (live_in g locations vm) f (gv_mem vm) (gv_mem vm1) ob ob1"
      using f ob unfolding collected_def by blast
    moreover have "gv_vars vm1 l = f (gv_vars vm l)" using f l unfolding collected_def by (simp add: moved_value_def)
    ultimately show ?thesis using ob by (auto simp: moved_object_def)
  qed (use ob in auto)
qed

lemma words_ok:
  assumes "vm_wf g locations vm" and "read_object (gv_mem vm) a = Some ob"
    and "s \<in> set (traced_slots g ob) \<or> is_weak g ob \<and> s = native_referent (gx_ptr g)"
  shows "value_ok g (gv_mem vm) (oh_words ob s)"
proof -
  have wf: "heap_wf g (gv_mem vm)" using assms(1) by (simp add: vm_wf_def)
  have "field_edge g (gv_mem vm) a (oh_words ob s) \<or> referent_of g (gv_mem vm) a (oh_words ob s)"
    if "is_target g (oh_words ob s)"
    using assms(2,3) that by (auto simp: field_edge_def referent_of_def is_target_def)
  then show ?thesis using wf unfolding value_ok_def heap_wf_def is_target_def by blast
qed

lemma object_unmarked: "vm_wf g locations vm \<Longrightarrow> read_object (gv_mem vm) a = Some ob \<Longrightarrow> unmark_object ob = ob"
  by (metis heap_wf_def option.inject option.simps(9) read_erase vm_wf_def)

lemma attach_monitor_wf:
  assumes vm1: "vm_wf g locations vm1" and room: "gv_used vm1 + align_addr sizeof_monitor_data \<le> gx_capacity g"
    and o: "read_object (gv_mem vm1) a = Some ob" and w: "unmark_word w = w"
  shows "vm_wf g locations (put_cell a (Object_cell (ob\<lparr>oh_header := Expanded_ptr (gx_heap g + gv_used vm1)\<rparr>))
    (put_cell (gx_heap g + gv_used vm1) (Monitor_cell \<lparr>owner = NOT_HELD_TID, hold_count = 0, md_mark_word = w\<rparr>)
      (vm1\<lparr>gv_used := gv_used vm1 + align_addr sizeof_monitor_data\<rparr>)))"
proof -
  let ?n = "align_addr sizeof_monitor_data" and ?e = "gx_heap g + gv_used vm1"
  let ?d = "\<lparr>owner = NOT_HELD_TID, hold_count = 0, md_mark_word = w\<rparr>"
  let ?vm3 = "put_cell ?e (Monitor_cell ?d) (vm1\<lparr>gv_used := gv_used vm1 + ?n\<rparr>)"
  have top: "gv_mem vm1 ?e = None" by (cases "gv_mem vm1 ?e") (use vm_wf_top(1) [OF vm1, of ?e] in auto)
  have lt: "a < ?e" using vm_wf_top(1) [OF vm1] o by (auto simp: read_object_Some)
  have wf3: "vm_wf g locations ?vm3"
    by (rule add_cell_wf [OF vm1 room align_addr_bounds(3), where sz = ?n])
      (auto simp: cell_size_def fresh_cell_def unmark_def unmark_monitor_def w align_addr_def sizeof_monitor_data_def)
  have r3: "read_object (gv_mem ?vm3) a = Some ob" using o lt by (auto simp: put_cell_def read_object_def)
  have none: "\<not> expands (gv_mem ?vm3) x ?e" for x
  proof
    assume "expands (gv_mem ?vm3) x ?e"
    then have "expands (gv_mem vm1) x ?e" by (auto simp: expands_def put_cell_def read_object_def split: if_splits)
    then show False using vm1 expands_monitor top by (fastforce simp: vm_wf_def)
  qed
  show ?thesis
    by (rule rewrite_object_wf [OF wf3 r3])
      (use lt none words_ok [OF wf3 r3] in \<open>auto simp: unmark_object_def put_cell_def\<close>)
qed

text \<open>Locking an object for the first time gives it a monitor above it in memory, even when the
  allocation of the monitor collects and moves the object; the only other outcome is that memory is
  exhausted.\<close>

lemma install_heap_monitor_ok:
  assumes vm: "vm_wf g locations vm" and "distinct locations" and "gx_pending g \<in> set locations"
    and h: "h \<in> set locations" "h \<noteq> gx_pending g" "is_target g (gv_vars vm h)" and sz: "sizes_ok g sizeof_monitor_data"
  shows "\<exists>b vm'. install_heap_monitor g locations h vm = Some (b, vm') \<and> vm_wf g locations vm' \<and>
    (b \<longrightarrow> (\<exists>e. expands (gv_mem vm') (gv_vars vm' h) e))"
proof -
  obtain ob where ob: "read_object (gv_mem vm) (gv_vars vm h) = Some ob" using vm h by (auto simp: vm_wf_def)
  show ?thesis
  proof (cases "oh_header ob")
    case (Expanded_ptr e)
    then show ?thesis using ob vm by (auto simp: install_heap_monitor_def expands_def)
  next
    case (Mark_data w)
    have w: "unmark_word w = w" using object_unmarked [OF vm ob] Mark_data unmark_object_fix by blast
    let ?n = "align_addr sizeof_monitor_data"
    obtain vm1 where vm1: "vm1 = vm \<or> major_gc g locations vm = Some vm1" "vm_wf g locations vm1"
      "bump_allocate g locations sizeof_monitor_data vm = Some (0, vm1) \<or>
       gv_used vm1 + ?n \<le> gx_capacity g \<and>
       bump_allocate g locations sizeof_monitor_data vm = Some (gx_heap g + gv_used vm1, vm1\<lparr>gv_used := gv_used vm1 + ?n\<rparr>)"
      using bump_allocate_ok [OF assms(1-3) sz] by blast
    from vm1(3) show ?thesis
    proof (elim disjE conjE)
      assume "bump_allocate g locations sizeof_monitor_data vm = Some (0, vm1)"
      then have "install_heap_monitor g locations h vm = Some (False, vm1)"
        using ob Mark_data by (simp add: install_heap_monitor_def)
      then show ?thesis using vm1(2) by blast
    next
      let ?e = "gx_heap g + gv_used vm1" and ?vm2 = "vm1\<lparr>gv_used := gv_used vm1 + ?n\<rparr>" and ?o = "gv_vars vm1 h"
      let ?d = "\<lparr>owner = NOT_HELD_TID, hold_count = 0, md_mark_word = w\<rparr>"
      assume room: "gv_used vm1 + ?n \<le> gx_capacity g" and b: "bump_allocate g locations sizeof_monitor_data vm = Some (?e, ?vm2)"
      obtain ob1 where ob1: "read_object (gv_mem vm1) ?o = Some ob1"
        using root_survives [OF assms(1-3) h vm1(1)] by blast
      let ?vm4 = "put_cell ?o (Object_cell (ob1\<lparr>oh_header := Expanded_ptr ?e\<rparr>)) (put_cell ?e (Monitor_cell ?d) ?vm2)"
      have "?o \<noteq> ?e" using vm_wf_top(1) [OF vm1(2)] ob1 by (fastforce simp: read_object_Some)
      moreover have "0 < ?e" using vm by (simp add: vm_wf_def heap_wf_def layout_wf_def)
      ultimately have "install_heap_monitor g locations h vm = Some (True, ?vm4)"
        using ob Mark_data b ob1 by (simp add: install_heap_monitor_def put_cell_def)
      moreover have "expands (gv_mem ?vm4) (gv_vars ?vm4 h) ?e" by (simp add: expands_def put_cell_def read_object_def)
      ultimately show ?thesis using attach_monitor_wf [OF vm1(2) room ob1 w] by blast
    qed
  qed
qed

section \<open>The heap over its lifetime\<close>

lemma ReferenceArrayStore_wf:
  assumes vm: "vm_wf g locations vm" and st: "ReferenceArrayStore g a i v vm = Some vm'" and v: "value_ok g (gv_mem vm) v"
  shows "vm_wf g locations vm'"
proof -
  obtain ob where ob: "read_object (gv_mem vm) a = Some ob" "vm' = put_cell a (Object_cell (ob\<lparr>oh_words := (oh_words ob)(i := v)\<rparr>)) vm"
    using st by (auto simp: ReferenceArrayStore_def split: option.splits if_splits)
  have "unmark_object (ob\<lparr>oh_words := (oh_words ob)(i := v)\<rparr>) = ob\<lparr>oh_words := (oh_words ob)(i := v)\<rparr>"
    using object_unmarked [OF vm ob(1)] by (simp add: unmark_object_fix)
  then show ?thesis unfolding ob(2)
    by (intro rewrite_object_wf [OF vm ob(1)]) (use v words_ok [OF vm ob(1)] in auto)
qed

lemma ReferenceArrayLoad_ok:
  assumes vm: "vm_wf g locations vm" and ld: "ReferenceArrayLoad g a i vm = Some v"
  shows "value_ok g (gv_mem vm) v"
proof -
  obtain ob where ob: "read_object (gv_mem vm) a = Some ob" "rc_kind (class_of g ob) = CD_KIND_ORDINARY_ARRAY"
    "i < oh_length ob" "v = oh_words ob i"
    using ld by (auto simp: ReferenceArrayLoad_def split: option.splits if_splits)
  then show ?thesis using words_ok [OF vm ob(1), of i] by (simp add: traced_slots_def Let_def)
qed

text \<open>What running code does to the heap: it allocates into a root, locks, reads and writes elements of
  arrays through roots, clears roots, and collects. Any order of these steps is allowed.\<close>

inductive heap_step :: "gc_ctx \<Rightarrow> nat list \<Rightarrow> gc_vm \<Rightarrow> gc_vm \<Rightarrow> bool" for g locations where
  step_collect: "major_gc g locations vm = Some vm' \<Longrightarrow> heap_step g locations vm vm'"
| step_new: "allocatable g c 0 (unat (rc_instance_bytes (gx_classes g c))) \<Longrightarrow> new_object g locations c vm = Some (a, vm') \<Longrightarrow>
    l \<in> set locations \<Longrightarrow> heap_step g locations vm (vm'\<lparr>gv_vars := (gv_vars vm')(l := a)\<rparr>)"
| step_array: "allocatable g c len bytes \<Longrightarrow> allocate_array g locations c bytes len vm = Some (a, vm') \<Longrightarrow>
    l \<in> set locations \<Longrightarrow> heap_step g locations vm (vm'\<lparr>gv_vars := (gv_vars vm')(l := a)\<rparr>)"
| step_lock: "h \<in> set locations \<Longrightarrow> h \<noteq> gx_pending g \<Longrightarrow> is_target g (gv_vars vm h) \<Longrightarrow> sizes_ok g sizeof_monitor_data \<Longrightarrow>
    install_heap_monitor g locations h vm = Some (b, vm') \<Longrightarrow> heap_step g locations vm vm'"
| step_store: "l \<in> set locations \<Longrightarrow> ReferenceArrayStore g a i (gv_vars vm l) vm = Some vm' \<Longrightarrow> heap_step g locations vm vm'"
| step_load: "l \<in> set locations \<Longrightarrow> ReferenceArrayLoad g a i vm = Some v \<Longrightarrow>
    heap_step g locations vm (vm\<lparr>gv_vars := (gv_vars vm)(l := v)\<rparr>)"
| step_clear: "l \<in> set locations \<Longrightarrow> heap_step g locations vm (vm\<lparr>gv_vars := (gv_vars vm)(l := 0)\<rparr>)"

definition empty_heap :: gc_vm where
  "empty_heap = \<lparr>gv_mem = Map.empty, gv_vars = (\<lambda>_. 0), gv_used = 0\<rparr>"

lemma allocated_wf:
  assumes "allocated g locations c len bytes vm r" and "r = Some (a, vm')"
  shows "vm_wf g locations (vm'\<lparr>gv_vars := (gv_vars vm')(l := a)\<rparr>)"
proof -
  have "vm_wf g locations vm'" "value_ok g (gv_mem vm') a"
    using assms by (auto simp: allocated_def value_ok_def is_target_def split: if_splits)
  then show ?thesis by (rule set_var_wf)
qed

lemma heap_step_wf:
  assumes step: "heap_step g locations vm vm'" and vm: "vm_wf g locations vm"
    and L: "distinct locations" "gx_pending g \<in> set locations"
  shows "vm_wf g locations vm'"
  using step
proof cases
  case step_collect
  then show ?thesis using gc_run [OF vm L] gc_heap_wf [OF vm] L(2) by fastforce
next
  case (step_new c a vm1 l)
  then show ?thesis using allocated_wf [OF AllocateObject_ok [OF vm L step_new(2)]] by (simp add: new_object_def)
next
  case (step_array c len bytes a vm1 l)
  then show ?thesis using allocated_wf [OF allocate_array_ok [OF vm L step_array(2)]] by simp
next
  case (step_lock h b)
  then show ?thesis using install_heap_monitor_ok [OF vm L step_lock(1-4)] by auto
next
  case (step_store l a i)
  then show ?thesis using ReferenceArrayStore_wf [OF vm step_store(2)] vm by (auto simp: vm_wf_def value_ok_def)
next
  case (step_load l a i v)
  then show ?thesis using set_var_wf [OF vm ReferenceArrayLoad_ok [OF vm step_load(3)]] by simp
next
  case (step_clear l)
  then show ?thesis using set_var_wf [OF vm, of 0] by (simp add: value_ok_def is_target_def)
qed


lemma example_allocates:
  "allocate_array example_gc [0, 1] 0 20 1 empty_heap =
    Some (8, \<lparr>gv_mem = [8 \<mapsto> Object_cell (new_header 0 1)], gv_vars = (\<lambda>_. 0), gv_used = 24\<rparr>)"
  by (simp add: allocate_array_eq bump_allocate_def heap_full_def take_bytes_def align_size_def example_gc_def empty_heap_def
    put_cell_def)


section \<open>Faults of array creation\<close>

text \<open>The size of an array of 2^29 longs wraps around to that of an empty array: the allocation succeeds, and
  the elements lie outside the heap.\<close>

definition example_longs :: gc_ctx where
  "example_longs =
     \<lparr>gx_classes = (\<lambda>_. (example_class None [])\<lparr>rc_kind := CD_KIND_PRIMITIVE_ARRAY, rc_primitive_component := TYPE_KIND_LONG\<rparr>),
      gx_ptr = 8, gx_Reference = 1, gx_heap = 8, gx_capacity = 64, gx_pending = 0\<rparr>"

lemma primitive_array_size_wraps:
  "create_1d_primitive_array example_longs [0] 0 (2 ^ 29) empty_heap =
    Some (8, \<lparr>gv_mem = [8 \<mapsto> Object_cell (new_header 0 (2 ^ 29))], gv_vars = (\<lambda>_. 0), gv_used = 32\<rparr>)"
proof -
  have "primitive_array_bytes 8 (2 ^ 29) 8 = 32"
    by (simp add: primitive_array_bytes_def kArrayDataOffset_def obj_header_size_def signed_take_bit_int_eq_self)
  then show ?thesis
    by (simp add: create_1d_primitive_array_def allocate_array_eq bump_allocate_def heap_full_def take_bytes_def
      align_size_def example_longs_def empty_heap_def put_cell_def sizeof_type_kind_def example_class_def)
qed

text \<open>When the outer array of a multidimensional one does not fit but the first inner array does, \<open>CreateArray\<close>
  stores the inner array through the null pointer.\<close>

definition example_nested :: gc_ctx where
  "example_nested =
     \<lparr>gx_classes = (\<lambda>c. (example_class None [])\<lparr>rc_kind := CD_KIND_ORDINARY_ARRAY, rc_one_fewer_dim := Some (Suc c)\<rparr>),
      gx_ptr = 4, gx_Reference = 1, gx_heap = 8, gx_capacity = 64, gx_pending = 0\<rparr>"

lemma CreateArray_stores_through_null: "CreateArray example_nested [0] [1] (\<lambda>c. c - 1) [100, 1] 0 empty_heap = None"
proof -
  have gc: "major_gc example_nested [0] empty_heap = Some empty_heap"
    by (simp add: major_gc_def push_roots_def empty_heap_def mark_loop.simps quicksort_pointers.simps align_addr_def fun_eq_iff)
  have outer: "CreateObjectArray1D example_nested [0] (\<lambda>c. c - 1) 1 100 empty_heap = Some (0, empty_heap)"
    by (simp add: CreateObjectArray1D_def allocate_array_eq bump_allocate_def heap_full_def align_size_def gc Let_def)
      (simp add: example_nested_def empty_heap_def reference_array_bytes_def kArrayDataOffset_def obj_header_size_def)
  have inner: "CreateArray example_nested [0] [1] (\<lambda>c. c - 1) [1] 1 empty_heap =
    Some (8, \<lparr>gv_mem = [8 \<mapsto> Object_cell (new_header 1 1)], gv_vars = (\<lambda>_. 0), gv_used = 24\<rparr>)"
    by (simp add: CreateObjectArray1D_def allocate_array_eq bump_allocate_def heap_full_def align_size_def take_bytes_def
      put_cell_def example_nested_def example_class_def empty_heap_def reference_array_bytes_def kArrayDataOffset_def
      obj_header_size_def)
  have "rc_one_fewer_dim (gx_classes example_nested 0) = Some 1" by (simp add: example_nested_def example_class_def)
  then show ?thesis using outer inner
    by (simp add: make_handle_def upt_rec handle_obj_def ReferenceArrayStore_def read_object_def)
qed

end
